(* ===== verification/Prelude.thy ===== *)
theory Prelude
  imports Main "HOL-Library.Word"
begin

unbundle bit_operations_syntax

text \<open>
  The types every component shares: the C integer types of \<open>kernel/types.h\<close>, the addresses of
  the kernel's locks and sleep channels, and the outcome of a kernel function.

  A kernel function of C type \<open>T f(args)\<close> is modelled as \<open>f args s\<close> of type
  \<open>(state, T) outcome\<close>.  It either returns a value and a new state, or panics, or spins on a
  spinlock another hart holds, or leaves the CPU through \<open>swtch\<close> (kernel/swtch.S).
\<close>

section \<open>C integers\<close>

text \<open>\<open>kernel/types.h\<close>; a C \<open>int\<close> is a 32-bit word read with \<open>sint\<close>.\<close>

type_synonym u8 = "8 word"
type_synonym u16 = "16 word"
type_synonym u32 = "32 word"
type_synonym u64 = "64 word"
type_synonym i32 = "32 word"

lemma unat_u32_less [simp]: "unat (x :: u32) < 4294967296"
proof -
  have "unat x < 2 ^ LENGTH(32)" by (rule unsigned_less)
  then show ?thesis by simp
qed

lemma unat_u64_less [simp]: "unat (x :: u64) < 18446744073709551616"
proof -
  have "unat x < 2 ^ LENGTH(64)" by (rule unsigned_less)
  then show ?thesis by simp
qed

lemma unat_ucast_u32 [simp]: "unat (ucast (n :: u32) :: u64) = unat n"
proof -
  have "unat n < 18446744073709551616" by (rule less_trans [OF unat_u32_less]) simp
  then show ?thesis by (simp add: unsigned_ucast_eq take_bit_nat_eq_self)
qed

lemma unat_of_nat_u64: "n < 2 ^ 64 \<Longrightarrow> unat (of_nat n :: u64) = n"
  by (simp add: unsigned_of_nat take_bit_nat_eq_self)

lemma unat_of_nat_u32: "n < 2 ^ 32 \<Longrightarrow> unat (of_nat n :: u32) = n"
  by (simp add: unsigned_of_nat take_bit_nat_eq_self)

lemma unat_add_of_nat:
  assumes "unat a + k < 2 ^ 64"
  shows "unat (a + of_nat k :: u64) = unat a + k"
proof -
  have "of_nat (unat a + k) = a + of_nat k" by simp
  with unat_of_nat_u64 [OF assms] show ?thesis by metis
qed

text \<open>A range split at \<open>n\<close>.\<close>

lemma all_less_split:
  assumes "(n :: nat) \<le> k"
  shows "(\<forall>i < k. P i) \<longleftrightarrow> (\<forall>i < n. P i) \<and> (\<forall>i < k - n. P (n + i))"
proof safe
  fix i assume a: "\<forall>i < n. P i" "\<forall>i < k - n. P (n + i)" "i < k"
  show "P i"
  proof (cases "i < n")
    case False
    then have "P (n + (i - n))" using a(2,3) by (intro a(2) [rule_format]) simp
    with False show ?thesis by simp
  qed (use a(1) in blast)
qed (use assms in auto)

lemma map_upt_split:
  assumes "n \<le> k"
  shows "map f [0..<k] = map f [0..<n] @ map (\<lambda>i. f (n + i)) [0..<k - n]"
proof -
  have "[0..<k] = [0..<n] @ map (\<lambda>i. i + n) [0..<k - n]"
    using upt_add_eq_append [of 0 n "k - n"] assms by (simp add: map_add_upt)
  then show ?thesis by (simp add: comp_def add.commute)
qed

section \<open>Collections\<close>

text \<open>
  \<open>lock_simps\<close>: how lock and interrupt operations act on a state in the canonical form
  \<open>with_held\<close>; \<open>kstate_simps\<close>: unfolding of the small state accessors; \<open>frame_simps\<close>: fields an
  operation leaves alone.
\<close>

named_theorems lock_simps
named_theorems kstate_simps
named_theorems frame_simps

section \<open>Lock and channel addresses\<close>

text \<open>
  The addresses of the \<open>struct spinlock\<close> objects of the kernel.  \<open>ProcLock i\<close> is
  \<open>&proc[i].lock\<close>, \<open>PipeLock a\<close> the lock of the pipe at address \<open>a\<close>, \<open>BufLk i\<close> and
  \<open>InodeLk i\<close> the inner spinlocks of the sleep-locks of \<open>bcache.buf[i]\<close> and \<open>itable.inode[i]\<close>.
\<close>

datatype lock_addr =
    PidLock | WaitLock | ProcLock nat | MlfqLock | TicksLock | KmemLock
  | BcacheLock | LogLock | ItableLock | FtableLock | ConsLock | UartTxLock
  | VdiskLock | PrLock | PipeLock u64 | BufLk nat | InodeLk nat

text \<open>The addresses used as sleep channels (the \<open>void *chan\<close> of \<open>sleep\<close> and \<open>wakeup\<close>).\<close>

datatype chan =
    ProcChan nat | TicksChan | LogChan | PipeReadChan u64 | PipeWriteChan u64
  | BufLockChan nat | InodeLockChan nat | BufChan nat | DiskFreeChan
  | ConsRChan | UartTxRChan

section \<open>Outcomes of kernel functions\<close>

text \<open>
  \<open>swtch\<close> saves the registers of the running kernel thread, so the thread later continues after
  its call of \<open>sched\<close>.  \<open>resume\<close> says where: in \<open>yield\<close>, in \<open>sleep\<close> (which then re-acquires the
  given lock), or nowhere (\<open>exit\<close>).  The boolean is the local variable \<open>intena\<close> of \<open>sched\<close>.
\<close>

datatype resume = ResumeYield bool | ResumeSleep lock_addr bool | ResumeNever

datatype ('s, 'a) outcome =
    Ret 'a 's
  | Panic string
  | Spin lock_addr 's
  | Swtch resume 's
  | NoFuel
  | Undef

text \<open>
  \<open>NoFuel\<close> is the outcome of a loop that does not return within what the model supplies: the depth
  bound of \<open>freewalk\<close> (kernel/vm.c), or the readings of a device register that a driver polls.
  \<open>Undef\<close> is behaviour the C standard leaves undefined, such as a store past the end of a local array.
\<close>

text \<open>Sequential composition: the second function runs only when the first returned.\<close>

fun bnd :: "('s, 'a) outcome \<Rightarrow> ('a \<Rightarrow> 's \<Rightarrow> ('s, 'b) outcome) \<Rightarrow> ('s, 'b) outcome" where
  "bnd (Ret a s) f = f a s"
| "bnd (Panic m) f = Panic m"
| "bnd (Spin l s) f = Spin l s"
| "bnd (Swtch r s) f = Swtch r s"
| "bnd NoFuel f = NoFuel"
| "bnd Undef f = Undef"

text \<open>Functions that recurse after a call may use, in their termination proofs, that the call returned.\<close>

lemma bnd_cong [fundef_cong]:
  "x = y \<Longrightarrow> (\<And>a s. y = Ret a s \<Longrightarrow> f a s = g a s) \<Longrightarrow> bnd x f = bnd y g"
  by (cases y) auto

lemma bnd_assoc: "bnd (bnd x f) g = bnd x (\<lambda>a s. bnd (f a s) g)"
  by (cases x) auto

lemma bnd_Ret_iff: "bnd x f = Ret b t \<longleftrightarrow> (\<exists>a s. x = Ret a s \<and> f a s = Ret b t)"
  by (cases x) auto

lemma bnd_RetE:
  assumes "bnd x f = Ret b t"
  obtains a s where "x = Ret a s" "f a s = Ret b t"
  using assms by (auto simp: bnd_Ret_iff)

lemma bnd_Undef_iff: "bnd x f = Undef \<longleftrightarrow> x = Undef \<or> (\<exists>a s. x = Ret a s \<and> f a s = Undef)"
  by (cases x) auto

lemma bnd_Panic_iff: "bnd x f = Panic m \<longleftrightarrow> x = Panic m \<or> (\<exists>a s. x = Ret a s \<and> f a s = Panic m)"
  by (cases x) auto

lemma not_sle: "\<not> a \<le>s b \<longleftrightarrow> b <s a" for a :: i32
  by (simp add: word_sless_alt word_sle_eq not_le)

lemma sint_of_nat_small: "k < 2 ^ 31 \<Longrightarrow> sint (of_nat k :: i32) = int k"
  by (simp add: signed_of_nat signed_take_bit_int_eq_self)

end
