(* ===== verification/Spinlock.thy ===== *)
theory Spinlock
  imports Prelude
begin

text \<open>
  Harts, interrupts and spin locks: \<open>kernel/riscv.h\<close> (the \<open>sstatus\<close> register),
  \<open>kernel/proc.h\<close> (\<open>struct context\<close>, \<open>struct cpu\<close>), \<open>kernel/spinlock.h\<close> and
  \<open>kernel/spinlock.c\<close>, and \<open>cpuid\<close> and \<open>mycpu\<close> of \<open>kernel/proc.c\<close>.

  The state is seen from the hart that executes, whose number is in its \<open>tp\<close> register.  The
  components above extend the record \<open>hart_state\<close>, so the operations here apply to their states
  unchanged.
\<close>

section \<open>State\<close>

text \<open>\<open>struct context\<close>: the registers \<open>swtch\<close> saves.\<close>

record kcontext =
  c_ra :: u64
  c_sp :: u64
  c_s0 :: u64
  c_s1 :: u64
  c_s2 :: u64
  c_s3 :: u64
  c_s4 :: u64
  c_s5 :: u64
  c_s6 :: u64
  c_s7 :: u64
  c_s8 :: u64
  c_s9 :: u64
  c_s10 :: u64
  c_s11 :: u64

definition zero_context :: kcontext where
  "zero_context = \<lparr>c_ra = 0, c_sp = 0, c_s0 = 0, c_s1 = 0, c_s2 = 0, c_s3 = 0, c_s4 = 0,
     c_s5 = 0, c_s6 = 0, c_s7 = 0, c_s8 = 0, c_s9 = 0, c_s10 = 0, c_s11 = 0\<rparr>"

text \<open>\<open>struct cpu\<close>; \<open>proc\<close> is an index into the process table, \<open>None\<close> the null pointer.\<close>

record cpu =
  cpu_proc :: "nat option"
  cpu_context :: kcontext
  noff :: int
  intena :: bool

text \<open>\<open>struct spinlock\<close>; \<open>cpu\<close> is the index of the holding cpu in \<open>cpus\<close>.\<close>

record spinlock =
  locked :: u32
  lk_name :: string
  lk_cpu :: "nat option"

record hart_state =
  tp :: nat
  sstatus :: "nat \<Rightarrow> u64"
  cpus :: "nat \<Rightarrow> cpu"
  locks :: "lock_addr \<Rightarrow> spinlock"

section \<open>Interrupts and the current cpu\<close>

definition SSTATUS_SPP :: u64 where "SSTATUS_SPP = push_bit 8 1"
definition SSTATUS_SPIE :: u64 where "SSTATUS_SPIE = push_bit 5 1"
definition SSTATUS_SIE :: u64 where "SSTATUS_SIE = push_bit 1 1"

definition r_sstatus :: "'a hart_state_scheme \<Rightarrow> u64" where
  "r_sstatus s = sstatus s (tp s)"

definition w_sstatus :: "u64 \<Rightarrow> 'a hart_state_scheme \<Rightarrow> 'a hart_state_scheme" where
  "w_sstatus x s = s\<lparr>sstatus := (sstatus s)(tp s := x)\<rparr>"

definition intr_on :: "'a hart_state_scheme \<Rightarrow> 'a hart_state_scheme" where
  "intr_on s = w_sstatus (r_sstatus s OR SSTATUS_SIE) s"

definition intr_off :: "'a hart_state_scheme \<Rightarrow> 'a hart_state_scheme" where
  "intr_off s = w_sstatus (r_sstatus s AND NOT SSTATUS_SIE) s"

definition intr_get :: "'a hart_state_scheme \<Rightarrow> bool" where
  "intr_get s \<longleftrightarrow> r_sstatus s AND SSTATUS_SIE \<noteq> 0"

definition cpuid :: "'a hart_state_scheme \<Rightarrow> nat" where
  "cpuid s = tp s"

definition mycpu :: "'a hart_state_scheme \<Rightarrow> cpu" where
  "mycpu s = cpus s (cpuid s)"

text \<open>An assignment through the pointer \<open>mycpu()\<close> returns.\<close>

definition upd_mycpu :: "(cpu \<Rightarrow> cpu) \<Rightarrow> 'a hart_state_scheme \<Rightarrow> 'a hart_state_scheme" where
  "upd_mycpu f s = s\<lparr>cpus := (cpus s)(cpuid s := f (mycpu s))\<rparr>"

definition push_off :: "'a hart_state_scheme \<Rightarrow> 'a hart_state_scheme" where
  "push_off s =
     (let old = intr_get s;
          s = intr_off s;
          s = (if noff (mycpu s) = 0 then upd_mycpu (intena_update (\<lambda>_. old)) s else s)
      in upd_mycpu (noff_update (\<lambda>n. n + 1)) s)"

definition pop_off :: "'a hart_state_scheme \<Rightarrow> ('a hart_state_scheme, unit) outcome" where
  "pop_off s =
     (if intr_get s then Panic ''pop_off - interruptible''
      else if noff (mycpu s) < 1 then Panic ''pop_off''
      else let s = upd_mycpu (noff_update (\<lambda>n. n - 1)) s
           in Ret () (if noff (mycpu s) = 0 \<and> intena (mycpu s) then intr_on s else s))"

section \<open>Spin locks\<close>

definition upd_lock ::
    "lock_addr \<Rightarrow> (spinlock \<Rightarrow> spinlock) \<Rightarrow> 'a hart_state_scheme \<Rightarrow> 'a hart_state_scheme" where
  "upd_lock lk f s = s\<lparr>locks := (locks s)(lk := f (locks s lk))\<rparr>"

definition initlock :: "lock_addr \<Rightarrow> string \<Rightarrow> 'a hart_state_scheme \<Rightarrow> 'a hart_state_scheme" where
  "initlock lk name s = upd_lock lk (\<lambda>_. \<lparr>locked = 0, lk_name = name, lk_cpu = None\<rparr>) s"

definition holding :: "lock_addr \<Rightarrow> 'a hart_state_scheme \<Rightarrow> bool" where
  "holding lk s \<longleftrightarrow> locked (locks s lk) \<noteq> 0 \<and> lk_cpu (locks s lk) = Some (cpuid s)"

text \<open>
  The four atomic parts of \<open>acquire\<close> and \<open>release\<close> that other harts can see.
  \<open>lock_swap\<close> is \<open>__sync_lock_test_and_set(&lk->locked, 1)\<close>: it stores 1 and returns the old value.
\<close>

definition lock_swap :: "lock_addr \<Rightarrow> 'a hart_state_scheme \<Rightarrow> u32 \<times> 'a hart_state_scheme" where
  "lock_swap lk s = (locked (locks s lk), upd_lock lk (locked_update (\<lambda>_. 1)) s)"

definition lock_set_cpu :: "lock_addr \<Rightarrow> 'a hart_state_scheme \<Rightarrow> 'a hart_state_scheme" where
  "lock_set_cpu lk s = upd_lock lk (lk_cpu_update (\<lambda>_. Some (cpuid s))) s"

definition lock_clear_cpu :: "lock_addr \<Rightarrow> 'a hart_state_scheme \<Rightarrow> 'a hart_state_scheme" where
  "lock_clear_cpu lk s = upd_lock lk (lk_cpu_update (\<lambda>_. None)) s"

definition lock_unlock :: "lock_addr \<Rightarrow> 'a hart_state_scheme \<Rightarrow> 'a hart_state_scheme" where
  "lock_unlock lk s = upd_lock lk (locked_update (\<lambda>_. 0)) s"

text \<open>
  \<open>acquire\<close>: the spinning loop leaves with the lock when the swap returned 0.  When it returned 1
  another hart has the lock, and the hart is still in the loop: outcome \<open>Spin\<close>.
\<close>

definition acquire :: "lock_addr \<Rightarrow> 'a hart_state_scheme \<Rightarrow> ('a hart_state_scheme, unit) outcome" where
  "acquire lk s =
     (let s = push_off s
      in if holding lk s then Panic ''acquire''
         else let (old, s) = lock_swap lk s
              in if old \<noteq> 0 then Spin lk s else Ret () (lock_set_cpu lk s))"

definition release :: "lock_addr \<Rightarrow> 'a hart_state_scheme \<Rightarrow> ('a hart_state_scheme, unit) outcome" where
  "release lk s =
     (if \<not> holding lk s then Panic ''release''
      else pop_off (lock_unlock lk (lock_clear_cpu lk s)))"

section \<open>Simplification of the accessors\<close>

lemmas hart_defs = r_sstatus_def w_sstatus_def intr_on_def intr_off_def intr_get_def
  mycpu_def cpuid_def upd_mycpu_def upd_lock_def holding_def
  lock_swap_def lock_set_cpu_def lock_clear_cpu_def lock_unlock_def

lemma bit_SSTATUS_SIE [simp]: "bit SSTATUS_SIE n \<longleftrightarrow> n = 1"
  by (auto simp: SSTATUS_SIE_def bit_simps)

lemma SIE_zero_iff: "x AND SSTATUS_SIE = 0 \<longleftrightarrow> \<not> bit x 1"
proof
  assume "x AND SSTATUS_SIE = 0"
  then have "\<not> bit (x AND SSTATUS_SIE) 1" by simp
  then show "\<not> bit x 1" by (simp add: bit_and_iff)
next
  assume "\<not> bit x 1"
  then show "x AND SSTATUS_SIE = 0" by (intro bit_word_eqI) (auto simp: bit_and_iff)
qed

lemma SIE_nonzero [simp]: "SSTATUS_SIE \<noteq> 0"
  by (simp add: SSTATUS_SIE_def)

lemma SIE_set [simp]: "(x OR SSTATUS_SIE) AND SSTATUS_SIE \<noteq> 0"
  by simp

lemma SIE_clear [simp]: "(x AND NOT SSTATUS_SIE) AND SSTATUS_SIE = 0"
  by (simp add: SIE_zero_iff bit_and_iff bit_not_iff)

lemma SIE_clear_set: "x AND SSTATUS_SIE \<noteq> 0 \<Longrightarrow> (x AND NOT SSTATUS_SIE) OR SSTATUS_SIE = x"
  by (intro bit_word_eqI) (auto simp: SIE_zero_iff bit_and_iff bit_not_iff bit_or_iff)

lemma SIE_clear_id: "x AND SSTATUS_SIE = 0 \<Longrightarrow> x AND NOT SSTATUS_SIE = x"
  by (intro bit_word_eqI) (auto simp: SIE_zero_iff bit_and_iff bit_not_iff)

lemma SIE_clear_idem [simp]: "(x AND NOT SSTATUS_SIE) AND NOT SSTATUS_SIE = x AND NOT SSTATUS_SIE"
  by (rule SIE_clear_id) simp

section \<open>The canonical form of a state with locks held\<close>

text \<open>
  \<open>with_held H s\<close> is the state \<open>s\<close>, in which the hart holds no lock, after the hart has acquired
  exactly the locks \<open>H\<close>.
\<close>

definition with_held :: "lock_addr set \<Rightarrow> 'a hart_state_scheme \<Rightarrow> 'a hart_state_scheme" where
  "with_held H s =
     s\<lparr>locks := (\<lambda>k. if k \<in> H then (locks s k)\<lparr>locked := 1, lk_cpu := Some (tp s)\<rparr> else locks s k),
       cpus := (cpus s)(tp s := (cpus s (tp s))\<lparr>noff := int (card H), intena := intr_get s\<rparr>),
       sstatus := (sstatus s)(tp s :=
         (if H = {} then r_sstatus s else r_sstatus s AND NOT SSTATUS_SIE))\<rparr>"

text \<open>No hart holds the lock.\<close>

definition lock_free :: "lock_addr \<Rightarrow> 'a hart_state_scheme \<Rightarrow> bool" where
  "lock_free k s \<longleftrightarrow> locked (locks s k) = 0 \<and> lk_cpu (locks s k) = None"

text \<open>The hart holds no lock and is not between \<open>push_off\<close> and \<open>pop_off\<close>.\<close>

definition quiet :: "'a hart_state_scheme \<Rightarrow> bool" where
  "quiet s \<longleftrightarrow> noff (cpus s (tp s)) = 0"

lemma with_held_empty:
  "quiet s \<Longrightarrow> with_held {} s = s\<lparr>cpus := (cpus s)(tp s := (cpus s (tp s))\<lparr>intena := intr_get s\<rparr>)\<rparr>"
  by (cases "cpus s (tp s)") (simp add: with_held_def quiet_def r_sstatus_def)

lemma with_held_fields [simp]:
  "tp (with_held H s) = tp s"
  "cpu_proc (cpus (with_held H s) (tp s)) = cpu_proc (cpus s (tp s))"
  "h \<noteq> tp s \<Longrightarrow> cpus (with_held H s) h = cpus s h"
  "noff (cpus (with_held H s) (tp s)) = int (card H)"
  "intena (cpus (with_held H s) (tp s)) = intr_get s"
  "hart_state.more (with_held H s) = hart_state.more s"
  by (simp_all add: with_held_def)

lemma intr_get_with_held [lock_simps]: "intr_get (with_held H s) \<longleftrightarrow> H = {} \<and> intr_get s"
  by (simp add: with_held_def intr_get_def r_sstatus_def)

lemma holding_with_held [lock_simps]:
  "lock_free k s \<Longrightarrow> holding k (with_held H s) \<longleftrightarrow> k \<in> H"
  by (auto simp: with_held_def holding_def lock_free_def cpuid_def)

lemma lock_free_with_held [lock_simps]:
  "lock_free k s \<Longrightarrow> lock_free k (with_held H s) \<longleftrightarrow> k \<notin> H"
  by (auto simp: with_held_def lock_free_def)

lemma push_off_quiet:
  "quiet s \<Longrightarrow> push_off s = push_off (with_held {} s)"
  by (simp add: with_held_empty push_off_def Let_def hart_defs quiet_def)

lemma acquire_with_held [lock_simps]:
  assumes "finite H" "k \<notin> H" "lock_free k s"
  shows "acquire k (with_held H s) = Ret () (with_held (insert k H) s)"
  using assms
  by (cases "H = {}")
     (auto simp: acquire_def push_off_def with_held_def Let_def hart_defs lock_free_def
        fun_eq_iff card_gt_0_iff)

lemma release_with_held [lock_simps]:
  assumes "finite H" "k \<in> H" "lock_free k s"
  shows "release k (with_held H s) = Ret () (with_held (H - {k}) s)"
proof -
  have c: "card H = Suc (card (H - {k}))" using assms card.remove by metis
  have "H - {k} = {} \<longleftrightarrow> card (H - {k}) = 0"
    using assms by (metis card_0_eq finite_Diff)
  with assms c show ?thesis
    by (auto simp: release_def pop_off_def with_held_def Let_def hart_defs lock_free_def
        fun_eq_iff SIE_clear_set SIE_clear_id)
qed

text \<open>The first lock a hart takes, and the panics on misuse.\<close>

lemma acquire_quiet [lock_simps]:
  assumes "quiet s" "lock_free k s"
  shows "acquire k s = Ret () (with_held {k} s)"
proof -
  have "acquire k s = acquire k (with_held {} s)"
    unfolding acquire_def push_off_quiet [OF assms(1)] ..
  with assms show ?thesis by (simp add: acquire_with_held)
qed

lemma acquire_held_panics [lock_simps]:
  "k \<in> H \<Longrightarrow> acquire k (with_held H s) = Panic ''acquire''"
  by (auto simp: acquire_def push_off_def with_held_def Let_def hart_defs)

lemma release_free_panics [lock_simps]:
  "lock_free k s \<Longrightarrow> k \<notin> H \<Longrightarrow> release k (with_held H s) = Panic ''release''"
  by (simp add: release_def holding_with_held)

text \<open>
  A hart that holds only \<open>H\<close> spins on a lock another hart \<open>h\<close> holds.
\<close>

lemma acquire_other_spins:
  assumes "finite H" "k \<notin> H" "locked (locks s k) \<noteq> 0" "lk_cpu (locks s k) = Some h" "h \<noteq> tp s"
  shows "\<exists>s'. acquire k (with_held H s) = Spin k s'"
  using assms
  by (auto simp: acquire_def push_off_def with_held_def Let_def hart_defs)

end
