(* ===== verification/LockProtocol.thy ===== *)
theory LockProtocol
  imports Spinlock "HOL-Library.Sublist"
begin

text \<open>
  Spin locks under interleaving.  \<open>acquire\<close>, \<open>release\<close> and the \<open>holding\<close> test in them (\<open>kernel/spinlock.c\<close>) are written
  as sequences of atomic parts; run without interruption the sequences are the functions of \<open>Spinlock\<close>, and here
  any number of harts run them part by part in any order.  Another hart can intervene between any two
  accesses to the lock.  \<open>push_off\<close> and \<open>pop_off\<close> are one part each: they touch only the hart's own register
  and \<open>struct cpu\<close>.  The harts share a sequentially consistent memory, in which a fence does nothing.
\<close>

section \<open>The atomic parts\<close>

datatype lock_atom =
    PushOff | LoadLocked | LoadCpu | CheckFree | Swap | Fence | SetCpu | CheckHeld | ClearCpu | Unlock | PopOff

text \<open>
  The parts of \<open>holding\<close> leave its value in a register of the hart, the \<open>bool\<close>.  \<open>Swap\<close> is one round of the loop in
  \<open>acquire\<close>.
\<close>

fun exec_atom :: "lock_addr \<Rightarrow> lock_atom \<Rightarrow> bool \<Rightarrow> 'a hart_state_scheme \<Rightarrow> ('a hart_state_scheme, bool) outcome" where
  "exec_atom lk PushOff r s = Ret r (push_off s)"
| "exec_atom lk LoadLocked r s = Ret (locked (locks s lk) \<noteq> 0) s"
| "exec_atom lk LoadCpu r s = Ret (r \<and> lk_cpu (locks s lk) = Some (cpuid s)) s"
| "exec_atom lk CheckFree r s = (if r then Panic ''acquire'' else Ret r s)"
| "exec_atom lk Swap r s = (let (old, s) = lock_swap lk s in if old \<noteq> 0 then Spin lk s else Ret r s)"
| "exec_atom lk Fence r s = Ret r s"
| "exec_atom lk SetCpu r s = Ret r (lock_set_cpu lk s)"
| "exec_atom lk CheckHeld r s = (if \<not> r then Panic ''release'' else Ret r s)"
| "exec_atom lk ClearCpu r s = Ret r (lock_clear_cpu lk s)"
| "exec_atom lk Unlock r s = Ret r (lock_unlock lk s)"
| "exec_atom lk PopOff r s = bnd (pop_off s) (\<lambda>_ s. Ret r s)"

definition acquire_atoms :: "lock_atom list" where
  "acquire_atoms = [PushOff, LoadLocked, LoadCpu, CheckFree, Swap, Fence, SetCpu]"

definition release_atoms :: "lock_atom list" where
  "release_atoms = [LoadLocked, LoadCpu, CheckHeld, ClearCpu, Fence, Unlock, PopOff]"

primrec run_atoms :: "lock_addr \<Rightarrow> lock_atom list \<Rightarrow> bool \<Rightarrow> 'a hart_state_scheme \<Rightarrow> ('a hart_state_scheme, unit) outcome" where
  "run_atoms lk [] r s = Ret () s"
| "run_atoms lk (a # as) r s = bnd (exec_atom lk a r s) (\<lambda>r s. run_atoms lk as r s)"

lemma acquire_runs: "acquire lk s = run_atoms lk acquire_atoms False s"
  by (simp add: acquire_def acquire_atoms_def holding_def Let_def split: prod.splits)

lemma release_runs: "release lk s = run_atoms lk release_atoms False s"
  by (cases "pop_off (lock_unlock lk (lock_clear_cpu lk s))") (simp_all add: release_def release_atoms_def holding_def)

section \<open>The system\<close>

text \<open>
  Where a hart is: outside both functions, or in one of them, with the parts that remain and the register.  The
  first field of \<open>InRelease\<close> (whether the hart was in the critical section when it called), \<open>crit\<close> (the locks for
  which the hart's \<open>acquire\<close> has returned and \<open>release\<close> has not been called) and \<open>pushes\<close> (the calls of \<open>push_off\<close> by
  the hart itself that are not yet undone) record the history; the code does not have them.
\<close>

datatype lock_pc =
    Outside
  | InAcquire lock_addr "lock_atom list" bool
  | InRelease bool lock_addr "lock_atom list" bool

record lock_sys = hart_state +
  lpc :: "nat \<Rightarrow> lock_pc"
  crit :: "nat \<Rightarrow> lock_addr set"
  pushes :: "nat \<Rightarrow> nat"

definition lock_sys_init :: "lock_sys \<Rightarrow> bool" where
  "lock_sys_init s \<longleftrightarrow>
     (\<forall>k. locked (locks s k) = 0 \<and> lk_cpu (locks s k) = None) \<and>
     (\<forall>h. noff (cpus s h) = 0 \<and> lpc s h = Outside \<and> crit s h = {} \<and> pushes s h = 0)"

text \<open>A hart whose next part panics takes no further step.\<close>

inductive lock_step :: "lock_sys \<Rightarrow> lock_sys \<Rightarrow> bool" where
  acquire_call: "lpc s h = Outside \<Longrightarrow> lock_step s (s\<lparr>lpc := (lpc s)(h := InAcquire k acquire_atoms False)\<rparr>)"
| acquire_part: "lpc s h = InAcquire k (a # as) r \<Longrightarrow> exec_atom k a r (s\<lparr>tp := h\<rparr>) = Ret r' s1 \<Longrightarrow>
     lock_step s (s1\<lparr>lpc := (lpc s)(h := InAcquire k as r')\<rparr>)"
| acquire_spins: "lpc s h = InAcquire k (a # as) r \<Longrightarrow> exec_atom k a r (s\<lparr>tp := h\<rparr>) = Spin k s1 \<Longrightarrow> lock_step s s1"
| acquire_return: "lpc s h = InAcquire k [] r \<Longrightarrow>
     lock_step s (s\<lparr>lpc := (lpc s)(h := Outside), crit := (crit s)(h := insert k (crit s h))\<rparr>)"
| release_call: "lpc s h = Outside \<Longrightarrow>
     lock_step s (s\<lparr>lpc := (lpc s)(h := InRelease (k \<in> crit s h) k release_atoms False),
       crit := (crit s)(h := crit s h - {k})\<rparr>)"
| release_part: "lpc s h = InRelease own k (a # as) r \<Longrightarrow> exec_atom k a r (s\<lparr>tp := h\<rparr>) = Ret r' s1 \<Longrightarrow>
     lock_step s (s1\<lparr>lpc := (lpc s)(h := InRelease own k as r')\<rparr>)"
| release_return: "lpc s h = InRelease own k [] r \<Longrightarrow> lock_step s (s\<lparr>lpc := (lpc s)(h := Outside)\<rparr>)"
| push: "lpc s h = Outside \<Longrightarrow>
     lock_step s ((push_off (s\<lparr>tp := h\<rparr>))\<lparr>pushes := (pushes s)(h := pushes s h + 1)\<rparr>)"
| pop: "lpc s h = Outside \<Longrightarrow> pushes s h > 0 \<Longrightarrow> pop_off (s\<lparr>tp := h\<rparr>) = Ret () s1 \<Longrightarrow>
     lock_step s (s1\<lparr>pushes := (pushes s)(h := pushes s h - 1)\<rparr>)"

inductive lock_reach :: "lock_sys \<Rightarrow> bool" where
  init: "lock_sys_init s \<Longrightarrow> lock_reach s"
| step: "lock_reach s \<Longrightarrow> lock_step s t \<Longrightarrow> lock_reach t"

section \<open>The invariant\<close>

text \<open>
  The lock a hart inside one of the functions has taken by its swap and not yet given back, and the lock whose
  \<open>cpu\<close> field names it.
\<close>

fun own_pc :: "lock_pc \<Rightarrow> lock_addr \<Rightarrow> bool" where
  "own_pc Outside k \<longleftrightarrow> False"
| "own_pc (InAcquire k' as r) k \<longleftrightarrow> k = k' \<and> Swap \<notin> set as"
| "own_pc (InRelease own k' as r) k \<longleftrightarrow> k = k' \<and> own \<and> Unlock \<in> set as"

fun named_pc :: "lock_pc \<Rightarrow> lock_addr \<Rightarrow> bool" where
  "named_pc Outside k \<longleftrightarrow> False"
| "named_pc (InAcquire k' as r) k \<longleftrightarrow> k = k' \<and> SetCpu \<notin> set as"
| "named_pc (InRelease own k' as r) k \<longleftrightarrow> k = k' \<and> own \<and> ClearCpu \<in> set as"

text \<open>What the register and the critical sections \<open>cr\<close> of the hart are at each position.\<close>

fun pc_ok :: "lock_pc \<Rightarrow> lock_addr set \<Rightarrow> bool" where
  "pc_ok Outside cr \<longleftrightarrow> True"
| "pc_ok (InAcquire k as r) cr \<longleftrightarrow> suffix as acquire_atoms \<and>
     (k \<in> cr \<longrightarrow> CheckFree \<in> set as \<and> (LoadLocked \<in> set as \<or> r))"
| "pc_ok (InRelease own k as r) cr \<longleftrightarrow> suffix as release_atoms \<and> k \<notin> cr \<and>
     (\<not> own \<longrightarrow> CheckHeld \<in> set as \<and> (LoadCpu \<in> set as \<or> \<not> r))"

definition owns :: "(nat \<Rightarrow> lock_pc) \<Rightarrow> (nat \<Rightarrow> lock_addr set) \<Rightarrow> nat \<Rightarrow> lock_addr \<Rightarrow> bool" where
  "owns pc cr h k \<longleftrightarrow> k \<in> cr h \<or> own_pc (pc h) k"

text \<open>How the lock words agree with the harts' positions, over the four maps it is about.\<close>

definition agree ::
    "(lock_addr \<Rightarrow> bool) \<Rightarrow> (lock_addr \<Rightarrow> nat option) \<Rightarrow> (nat \<Rightarrow> lock_pc) \<Rightarrow> (nat \<Rightarrow> lock_addr set) \<Rightarrow> bool"
  where
  "agree lkd cp pc cr \<longleftrightarrow>
     (\<forall>k. lkd k \<longleftrightarrow> (\<exists>h. owns pc cr h k)) \<and>
     (\<forall>k h h'. owns pc cr h k \<longrightarrow> owns pc cr h' k \<longrightarrow> h = h') \<and>
     (\<forall>k h. cp k = Some h \<longleftrightarrow> k \<in> cr h \<or> named_pc (pc h) k) \<and>
     (\<forall>h. pc_ok (pc h) (cr h))"

lemma agreeD:
  assumes "agree lkd cp pc cr"
  shows "lkd k \<longleftrightarrow> (\<exists>h. owns pc cr h k)" "owns pc cr h k \<Longrightarrow> owns pc cr h' k \<Longrightarrow> h = h'"
    "cp k = Some h \<longleftrightarrow> k \<in> cr h \<or> named_pc (pc h) k" "pc_ok (pc h) (cr h)"
  using assms unfolding agree_def by blast+

definition lkds :: "(lock_addr \<Rightarrow> spinlock) \<Rightarrow> lock_addr \<Rightarrow> bool" where
  "lkds l k \<longleftrightarrow> locked (l k) \<noteq> 0"

definition cps :: "(lock_addr \<Rightarrow> spinlock) \<Rightarrow> lock_addr \<Rightarrow> nat option" where
  "cps l k = lk_cpu (l k)"

definition lock_inv :: "lock_sys \<Rightarrow> bool" where
  "lock_inv s \<longleftrightarrow> agree (lkds (locks s)) (cps (locks s)) (lpc s) (crit s)"

text \<open>The depth of \<open>push_off\<close> and the interrupt bit of every hart.\<close>

fun depth_pc :: "lock_pc \<Rightarrow> nat" where
  "depth_pc Outside = 0"
| "depth_pc (InAcquire k as r) = (if PushOff \<in> set as then 0 else 1)"
| "depth_pc (InRelease own k as r) = (if own \<and> PopOff \<in> set as then 1 else 0)"

definition hart_ok :: "int \<Rightarrow> u64 \<Rightarrow> lock_pc \<Rightarrow> lock_addr set \<Rightarrow> nat \<Rightarrow> bool" where
  "hart_ok n st pc cr ps \<longleftrightarrow>
     finite cr \<and> n = int (card cr + ps + depth_pc pc) \<and> (n > 0 \<longrightarrow> st AND SSTATUS_SIE = 0)"

definition noff_inv :: "lock_sys \<Rightarrow> bool" where
  "noff_inv s \<longleftrightarrow> (\<forall>h. hart_ok (noff (cpus s h)) (sstatus s h) (lpc s h) (crit s h) (pushes s h))"

lemma lock_inv_init: "lock_sys_init s \<Longrightarrow> lock_inv s \<and> noff_inv s"
  by (auto simp: lock_sys_init_def lock_inv_def noff_inv_def agree_def hart_ok_def owns_def lkds_def cps_def)

subsection \<open>The agreement under each kind of step\<close>

lemma agree_local:
  assumes "agree lkd cp pc cr" "own_pc p = own_pc (pc h)" "named_pc p = named_pc (pc h)" "pc_ok p (cr h)"
  shows "agree lkd cp (pc(h := p)) cr"
proof -
  have "owns (pc(h := p)) cr = owns pc cr" using assms(2) by (auto simp: owns_def fun_eq_iff)
  then show ?thesis using assms by (auto simp: agree_def)
qed

lemma agree_swap:
  assumes "agree lkd cp pc cr" "\<not> lkd k" "own_pc p = (own_pc (pc h))(k := True)" "named_pc p = named_pc (pc h)" "pc_ok p (cr h)"
  shows "agree (lkd(k := True)) cp (pc(h := p)) cr"
proof -
  have "owns (pc(h := p)) cr h' k' \<longleftrightarrow> owns pc cr h' k' \<or> (h' = h \<and> k' = k)" for h' k' using assms(3) by (auto simp: owns_def)
  moreover have "\<not> owns pc cr h' k" for h' using agreeD(1) [OF assms(1)] assms(2) by blast
  ultimately show ?thesis using assms(1,4,5) by (auto simp: agree_def)
qed

lemma agree_name:
  assumes "agree lkd cp pc cr" "own_pc (pc h) k" "own_pc p = own_pc (pc h)" "named_pc p = (named_pc (pc h))(k := True)" "pc_ok p (cr h)"
    "\<And>h'. named_pc (pc h') k \<Longrightarrow> own_pc (pc h') k"
  shows "agree lkd (cp(k := Some h)) (pc(h := p)) cr"
proof -
  have o: "owns (pc(h := p)) cr = owns pc cr" using assms(3) by (auto simp: owns_def fun_eq_iff)
  have "owns pc cr h k" using assms(2) by (simp add: owns_def)
  then have u: "k \<in> cr h' \<or> named_pc (pc h') k \<Longrightarrow> h' = h" for h'
    using agreeD(2) [OF assms(1)] assms(6) unfolding owns_def by blast
  have "\<forall>k' h'. (cp(k := Some h)) k' = Some h' \<longleftrightarrow> k' \<in> cr h' \<or> named_pc ((pc(h := p)) h') k'"
    using agreeD(3) [OF assms(1)] u assms(4) by auto
  with assms(1,5) o show ?thesis by (auto simp: agree_def)
qed

lemma agree_unname:
  assumes "agree lkd cp pc cr" "named_pc (pc h) k" "k \<notin> cr h" "own_pc p = own_pc (pc h)" "named_pc p = (named_pc (pc h))(k := False)" "pc_ok p (cr h)"
  shows "agree lkd (cp(k := None)) (pc(h := p)) cr"
proof -
  have o: "owns (pc(h := p)) cr = owns pc cr" using assms(4) by (auto simp: owns_def fun_eq_iff)
  have "cp k = Some h" using agreeD(3) [OF assms(1)] assms(2) by blast
  then have u: "k \<in> cr h' \<or> named_pc (pc h') k \<Longrightarrow> h' = h" for h' using agreeD(3) [OF assms(1), of k h'] by auto
  have "\<forall>k' h'. (cp(k := None)) k' = Some h' \<longleftrightarrow> k' \<in> cr h' \<or> named_pc ((pc(h := p)) h') k'"
    using agreeD(3) [OF assms(1)] u assms(3,5) by auto
  with assms(1,6) o show ?thesis by (auto simp: agree_def)
qed

lemma agree_unlock:
  assumes "agree lkd cp pc cr" "own_pc (pc h) k" "k \<notin> cr h" "own_pc p = (own_pc (pc h))(k := False)" "named_pc p = named_pc (pc h)" "pc_ok p (cr h)"
  shows "agree (lkd(k := False)) cp (pc(h := p)) cr"
proof -
  have "owns pc cr h k" using assms(2) by (simp add: owns_def)
  then have u: "owns pc cr h' k \<Longrightarrow> h' = h" for h' using agreeD(2) [OF assms(1)] by blast
  have o: "owns (pc(h := p)) cr h' k' \<longleftrightarrow> owns pc cr h' k' \<and> k' \<noteq> k" for h' k'
    using u [of h'] assms(3,4) by (cases "h' = h") (auto simp: owns_def)
  show ?thesis using assms(1,5,6) unfolding agree_def o by auto
qed

text \<open>The critical section begins when \<open>acquire\<close> returns and ends when \<open>release\<close> is called.\<close>

lemma agree_move:
  assumes "agree lkd cp pc cr" "pc_ok p c" "\<And>k. k \<in> c \<or> own_pc p k \<longleftrightarrow> k \<in> cr h \<or> own_pc (pc h) k"
    "\<And>k. k \<in> c \<or> named_pc p k \<longleftrightarrow> k \<in> cr h \<or> named_pc (pc h) k"
  shows "agree lkd cp (pc(h := p)) (cr(h := c))"
proof -
  have "owns (pc(h := p)) (cr(h := c)) = owns pc cr" using assms(3) by (auto simp: owns_def fun_eq_iff)
  then show ?thesis using assms(1,2,4) by (auto simp: agree_def)
qed

subsection \<open>Steps keep the invariant\<close>

lemma acquire_positions:
  "suffix (a # as) acquire_atoms \<longleftrightarrow> (a, as) \<in> {(PushOff, [LoadLocked, LoadCpu, CheckFree, Swap, Fence, SetCpu]),
     (LoadLocked, [LoadCpu, CheckFree, Swap, Fence, SetCpu]), (LoadCpu, [CheckFree, Swap, Fence, SetCpu]),
     (CheckFree, [Swap, Fence, SetCpu]), (Swap, [Fence, SetCpu]), (Fence, [SetCpu]), (SetCpu, [])}"
  by (auto simp: acquire_atoms_def suffix_Cons)

lemma release_positions:
  "suffix (a # as) release_atoms \<longleftrightarrow> (a, as) \<in> {(LoadLocked, [LoadCpu, CheckHeld, ClearCpu, Fence, Unlock, PopOff]),
     (LoadCpu, [CheckHeld, ClearCpu, Fence, Unlock, PopOff]), (CheckHeld, [ClearCpu, Fence, Unlock, PopOff]),
     (ClearCpu, [Fence, Unlock, PopOff]), (Fence, [Unlock, PopOff]), (Unlock, [PopOff]), (PopOff, [])}"
  by (auto simp: release_atoms_def suffix_Cons)

lemma suffix_tl: "suffix (a # as) bs \<Longrightarrow> suffix as bs"
  by (meson suffix_ConsD)

lemma named_own: "pc_ok p c \<Longrightarrow> named_pc p k \<Longrightarrow> own_pc p k"
proof (cases p)
  case (InAcquire k' as r)
  moreover assume "pc_ok p c" "named_pc p k"
  ultimately show ?thesis by (cases as) (auto simp: acquire_positions)
next
  case (InRelease own k' as r)
  moreover assume "pc_ok p c" "named_pc p k"
  ultimately show ?thesis by (cases as) (auto simp: release_positions)
qed simp

lemma push_off_frame [simp]:
  "locks (push_off s) = locks s" "tp (push_off s) = tp s" "hart_state.more (push_off s) = hart_state.more s"
  by (simp_all add: push_off_def Let_def hart_defs)

lemma pop_off_frame:
  "pop_off s = Ret u t \<Longrightarrow>
     locks t = locks s \<and> tp t = tp s \<and> hart_state.more t = hart_state.more s"
  by (auto simp: pop_off_def Let_def hart_defs split: if_splits)

lemma lock_more_frame:
  fixes s t :: lock_sys
  assumes "hart_state.more t = hart_state.more s"
  shows "lpc t = lpc s" "crit t = crit s" "pushes t = pushes s"
  using assms by (cases s; cases t; simp)+

text \<open>What the parts do to the lock words.\<close>

lemma locks_parts:
  "lkds (locks (snd (lock_swap k s))) = (lkds (locks s))(k := True)" "cps (locks (snd (lock_swap k s))) = cps (locks s)"
  "lkds (locks (lock_set_cpu k s)) = lkds (locks s)" "cps (locks (lock_set_cpu k s)) = (cps (locks s))(k := Some (tp s))"
  "lkds (locks (lock_clear_cpu k s)) = lkds (locks s)" "cps (locks (lock_clear_cpu k s)) = (cps (locks s))(k := None)"
  "lkds (locks (lock_unlock k s)) = (lkds (locks s))(k := False)" "cps (locks (lock_unlock k s)) = cps (locks s)"
  by (auto simp: fun_eq_iff lkds_def cps_def hart_defs)

lemma exec_frame:
  assumes "exec_atom k a r s = Ret r' s1"
  shows "hart_state.more s1 = hart_state.more s" "tp s1 = tp s"
  using assms by (cases a; auto simp: hart_defs bnd_Ret_iff pop_off_frame split: if_splits)+

lemma exec_locks:
  assumes "exec_atom k a r s = Ret r' s1" "a \<notin> {Swap, SetCpu, ClearCpu, Unlock}"
  shows "locks s1 = locks s"
  using assms by (cases a) (auto simp: bnd_Ret_iff pop_off_frame split: if_splits)

lemma exec_spin:
  assumes "exec_atom k a r s = Spin k s1"
  shows "a = Swap" "lkds (locks s) k" "s1 = snd (lock_swap k s)"
proof -
  have "pop_off s \<noteq> Spin j t" for j t by (simp add: pop_off_def Let_def)
  then have "bnd (pop_off s) (\<lambda>_ s. Ret r s) \<noteq> Spin k s1" by (cases "pop_off s") auto
  then show "a = Swap" "lkds (locks s) k" "s1 = snd (lock_swap k s)"
    using assms by (cases a; auto simp: lock_swap_def lkds_def split: if_splits)+
qed

lemma acquire_part_agree:
  assumes inv: "agree (lkds (locks s)) (cps (locks s)) pc cr" and pc: "pc (tp s) = InAcquire k (a # as) r"
    and ex: "exec_atom k a r s = Ret r' s1"
  shows "agree (lkds (locks s1)) (cps (locks s1)) (pc(tp s := InAcquire k as r')) cr"
proof -
  let ?h = "tp s"
  have ok: "pc_ok (InAcquire k (a # as) r) (cr ?h)" using agreeD(4) [OF inv, of ?h] pc by simp
  then have pos: "suffix (a # as) acquire_atoms" "suffix as acquire_atoms" by (auto dest: suffix_tl)
  have held: "k \<in> cr ?h \<Longrightarrow> lkds (locks s) k \<and> cps (locks s) k = Some ?h"
    using agreeD(1,3) [OF inv] by (auto simp: owns_def)
  consider "a = Swap" "as = [Fence, SetCpu]" | "a = SetCpu" "as = []" | "a \<notin> {Swap, SetCpu, ClearCpu, Unlock}"
    using pos(1) by (auto simp: acquire_positions)
  then show ?thesis
  proof cases
    case 1
    then have s1: "s1 = snd (lock_swap k s)" "r' = r" "\<not> lkds (locks s) k"
      using ex by (auto simp: lock_swap_def lkds_def split: if_splits)
    show ?thesis unfolding s1 locks_parts
      by (rule agree_swap [OF inv s1(3)]) (use 1 ok pc pos in \<open>auto simp: fun_eq_iff\<close>)
  next
    case 2
    then have s1: "s1 = lock_set_cpu k s" "r' = r" using ex by auto
    show ?thesis unfolding s1 locks_parts
      by (rule agree_name [OF inv]) (use 2 ok pc pos named_own [OF agreeD(4) [OF inv]] in \<open>auto simp: fun_eq_iff\<close>)
  next
    case 3
    show ?thesis unfolding exec_locks [OF ex 3]
    proof (rule agree_local [OF inv])
      show "pc_ok (InAcquire k as r') (cr ?h)"
        using 3 ok pos ex held by (auto simp: acquire_positions lkds_def cps_def cpuid_def split: if_splits)
    qed (use 3 pc pos(1) in \<open>auto simp: fun_eq_iff acquire_positions\<close>)
  qed
qed

lemma release_part_agree:
  assumes inv: "agree (lkds (locks s)) (cps (locks s)) pc cr" and pc: "pc (tp s) = InRelease own k (a # as) r"
    and ex: "exec_atom k a r s = Ret r' s1"
  shows "agree (lkds (locks s1)) (cps (locks s1)) (pc(tp s := InRelease own k as r')) cr"
proof -
  let ?h = "tp s"
  have ok: "pc_ok (InRelease own k (a # as) r) (cr ?h)" using agreeD(4) [OF inv, of ?h] pc by simp
  then have pos: "suffix (a # as) release_atoms" "suffix as release_atoms" "k \<notin> cr ?h" by (auto dest: suffix_tl)
  have named: "a = LoadCpu \<Longrightarrow> cps (locks s) k = Some ?h \<longleftrightarrow> own"
    using agreeD(3) [OF inv, of k ?h] pos pc by (auto simp: release_positions)
  consider "a = ClearCpu" "as = [Fence, Unlock, PopOff]" | "a = Unlock" "as = [PopOff]" | "a \<notin> {Swap, SetCpu, ClearCpu, Unlock}"
    using pos(1) by (auto simp: release_positions)
  then show ?thesis
  proof cases
    case 1
    then have s1: "s1 = lock_clear_cpu k s" "r' = r" using ex by auto
    show ?thesis unfolding s1 locks_parts
      by (rule agree_unname [OF inv]) (use 1 ok pc pos in \<open>auto simp: fun_eq_iff\<close>)
  next
    case 2
    then have s1: "s1 = lock_unlock k s" "r' = r" using ex by auto
    show ?thesis unfolding s1 locks_parts
      by (rule agree_unlock [OF inv]) (use 2 ok pc pos in \<open>auto simp: fun_eq_iff\<close>)
  next
    case 3
    show ?thesis unfolding exec_locks [OF ex 3]
    proof (rule agree_local [OF inv])
      show "pc_ok (InRelease own k as r') (cr ?h)"
        using 3 ok pos ex named by (auto simp: release_positions cps_def cpuid_def split: if_splits)
    qed (use 3 pc pos(1) in \<open>auto simp: fun_eq_iff release_positions\<close>)
  qed
qed

lemma lock_step_inv: "lock_step s t \<Longrightarrow> lock_inv s \<Longrightarrow> lock_inv t"
proof (induction rule: lock_step.induct)
  case (acquire_call s h k)
  then show ?case unfolding lock_inv_def by simp (rule agree_local, auto simp: fun_eq_iff acquire_atoms_def)
next
  case (acquire_part s h k a as r r' s1)
  then show ?case
    using acquire_part_agree [of "s\<lparr>tp := h\<rparr>" "lpc s" "crit s" k a as r r' s1] lock_more_frame [OF exec_frame(1) [OF acquire_part.hyps(2)]]
    by (simp add: lock_inv_def)
next
  case (acquire_spins s h k a as r s1)
  note e = exec_spin [OF acquire_spins.hyps(2)]
  have "lkds (locks s1) = lkds (locks s)" "cps (locks s1) = cps (locks s)"
    unfolding e(3) locks_parts using e(2) by (auto simp: fun_eq_iff)
  moreover have "lpc s1 = lpc s" "crit s1 = crit s" by (simp_all add: e(3) lock_swap_def upd_lock_def)
  ultimately show ?case using acquire_spins by (simp add: lock_inv_def)
next
  case (acquire_return s h k r)
  have "pc_ok (InAcquire k [] r) (crit s h)" using agreeD(4) [of _ _ "lpc s" "crit s" h] acquire_return by (auto simp: lock_inv_def)
  with acquire_return show ?case unfolding lock_inv_def by simp (rule agree_move, auto)
next
  case (release_call s h k)
  then show ?case unfolding lock_inv_def by simp (rule agree_move, auto simp: release_atoms_def)
next
  case (release_part s h own k a as r r' s1)
  then show ?case
    using release_part_agree [of "s\<lparr>tp := h\<rparr>" "lpc s" "crit s" own k a as r r' s1] lock_more_frame [OF exec_frame(1) [OF release_part.hyps(2)]]
    by (simp add: lock_inv_def)
next
  case (release_return s h own k r)
  then show ?case unfolding lock_inv_def by simp (rule agree_local, auto simp: fun_eq_iff)
next
  case (push s h)
  then show ?case by (simp add: lock_inv_def lock_more_frame [OF push_off_frame(3)])
next
  case (pop s h s1)
  note f = pop_off_frame [OF pop.hyps(3)]
  with pop show ?case
    using lock_more_frame [of s1 "s\<lparr>tp := h\<rparr>"] by (simp add: lock_inv_def)
qed

lemma push_off_hart:
  "noff (cpus (push_off s) h) = noff (cpus s h) + (if h = tp s then 1 else 0)"
  "sstatus (push_off s) h = (if h = tp s then sstatus s h AND NOT SSTATUS_SIE else sstatus s h)"
  by (simp_all add: push_off_def Let_def hart_defs)

lemma pop_off_hart:
  assumes "pop_off s = Ret u t"
  shows "noff (cpus t h) = noff (cpus s h) - (if h = tp s then 1 else 0)"
    and "h \<noteq> tp s \<or> noff (cpus t h) > 0 \<Longrightarrow> sstatus t h = sstatus s h"
  using assms by (auto simp: pop_off_def Let_def hart_defs split: if_splits)

text \<open>A part changes the depth of its hart by what the remaining parts say.\<close>

lemma exec_hart:
  assumes "exec_atom k a r s = Ret r' s1"
  shows "noff (cpus s1 h) = noff (cpus s h) + (if h = tp s then (if a = PushOff then 1 else if a = PopOff then -1 else 0) else 0)"
    "h \<noteq> tp s \<or> a = PushOff \<or> noff (cpus s1 h) > 0 \<Longrightarrow>
       sstatus s1 h = (if h = tp s \<and> a = PushOff then sstatus s h AND NOT SSTATUS_SIE else sstatus s h)"
proof -
  consider "a = PushOff" | "a = PopOff" | "cpus s1 = cpus s" "sstatus s1 = sstatus s" "a \<noteq> PushOff" "a \<noteq> PopOff"
    using assms by (cases a) (auto simp: hart_defs split: if_splits)
  note C = this
  show "noff (cpus s1 h) = noff (cpus s h) + (if h = tp s then (if a = PushOff then 1 else if a = PopOff then -1 else 0) else 0)"
    using C assms by cases (auto simp: push_off_hart bnd_Ret_iff pop_off_hart(1))
  show "h \<noteq> tp s \<or> a = PushOff \<or> noff (cpus s1 h) > 0 \<Longrightarrow>
       sstatus s1 h = (if h = tp s \<and> a = PushOff then sstatus s h AND NOT SSTATUS_SIE else sstatus s h)"
    using C assms by cases (auto simp: push_off_hart bnd_Ret_iff pop_off_hart(2))
qed

lemma hart_part:
  assumes "hart_ok (noff (cpus s h)) (sstatus s h) pc cr ps" "exec_atom k a r s = Ret r' s1"
    "h = tp s \<Longrightarrow> int (depth_pc pc') = int (depth_pc pc) + (if a = PushOff then 1 else if a = PopOff then -1 else 0)"
    "h \<noteq> tp s \<Longrightarrow> pc' = pc"
  shows "hart_ok (noff (cpus s1 h)) (sstatus s1 h) pc' cr ps"
proof (cases "h = tp s")
  case True
  have n: "noff (cpus s1 h) = int (card cr + ps + depth_pc pc')"
    using exec_hart(1) [OF assms(2), of h] assms(1,3) True by (auto simp: hart_ok_def)
  moreover have "sstatus s1 h AND SSTATUS_SIE = 0" if "noff (cpus s1 h) > 0"
  proof (cases "a = PushOff")
    case True
    then show ?thesis using exec_hart(2) [OF assms(2), of h] \<open>h = tp s\<close> by simp
  next
    case False
    then have "noff (cpus s h) > 0" using that exec_hart(1) [OF assms(2), of h] by (auto split: if_splits)
    then show ?thesis using exec_hart(2) [OF assms(2), of h] False that assms(1) by (auto simp: hart_ok_def)
  qed
  ultimately show ?thesis using assms(1) by (auto simp: hart_ok_def)
next
  case False
  then show ?thesis using assms(1,4) exec_hart [OF assms(2), of h] by (auto simp: hart_ok_def)
qed

lemma noff_step_inv: "lock_step s t \<Longrightarrow> lock_inv s \<Longrightarrow> noff_inv s \<Longrightarrow> noff_inv t"
proof (induction rule: lock_step.induct)
  case (acquire_call s h k)
  then show ?case by (auto simp: noff_inv_def hart_ok_def acquire_atoms_def)
next
  case (acquire_part s h k a as r r' s1)
  have "suffix (a # as) acquire_atoms" using acquire_part agreeD(4) [of _ _ "lpc s" "crit s" h] by (simp add: lock_inv_def)
  then have d: "int (depth_pc (InAcquire k as r')) = int (depth_pc (InAcquire k (a # as) r)) + (if a = PushOff then 1 else if a = PopOff then -1 else 0)"
    by (auto simp: acquire_positions)
  show ?case unfolding noff_inv_def
  proof
    fix h'
    show "hart_ok (noff (cpus (s1\<lparr>lpc := (lpc s)(h := InAcquire k as r')\<rparr>) h')) (sstatus (s1\<lparr>lpc := (lpc s)(h := InAcquire k as r')\<rparr>) h')
      (lpc (s1\<lparr>lpc := (lpc s)(h := InAcquire k as r')\<rparr>) h') (crit (s1\<lparr>lpc := (lpc s)(h := InAcquire k as r')\<rparr>) h')
      (pushes (s1\<lparr>lpc := (lpc s)(h := InAcquire k as r')\<rparr>) h')"
      using hart_part [OF _ acquire_part.hyps(2), of h' "lpc s h'" "crit s h'" "pushes s h'" "((lpc s)(h := InAcquire k as r')) h'"]
        acquire_part d lock_more_frame [OF exec_frame(1) [OF acquire_part.hyps(2)]] by (auto simp: noff_inv_def)
  qed
next
  case (acquire_spins s h k a as r s1)
  note e = exec_spin [OF acquire_spins.hyps(2)]
  show ?case using acquire_spins by (simp add: e(3) noff_inv_def lock_swap_def upd_lock_def)
next
  case (acquire_return s h k r)
  then have "k \<notin> crit s h" using agreeD(4) [of _ _ "lpc s" "crit s" h] by (auto simp: lock_inv_def)
  with acquire_return show ?case by (auto simp: noff_inv_def hart_ok_def)
next
  case (release_call s h k)
  have "finite (crit s h)" using release_call by (simp add: noff_inv_def hart_ok_def)
  then have "k \<in> crit s h \<Longrightarrow> card (crit s h) = Suc (card (crit s h - {k}))" by (metis card.remove)
  with release_call show ?case by (cases "k \<in> crit s h") (auto simp: noff_inv_def hart_ok_def release_atoms_def)
next
  case (release_part s h own k a as r r' s1)
  have "pc_ok (InRelease own k (a # as) r) (crit s h)" using release_part agreeD(4) [of _ _ "lpc s" "crit s" h] by (simp add: lock_inv_def)
  then have d: "int (depth_pc (InRelease own k as r')) = int (depth_pc (InRelease own k (a # as) r)) + (if a = PushOff then 1 else if a = PopOff then -1 else 0)"
    by (auto simp: release_positions)
  show ?case unfolding noff_inv_def
  proof
    fix h'
    show "hart_ok (noff (cpus (s1\<lparr>lpc := (lpc s)(h := InRelease own k as r')\<rparr>) h')) (sstatus (s1\<lparr>lpc := (lpc s)(h := InRelease own k as r')\<rparr>) h')
      (lpc (s1\<lparr>lpc := (lpc s)(h := InRelease own k as r')\<rparr>) h') (crit (s1\<lparr>lpc := (lpc s)(h := InRelease own k as r')\<rparr>) h')
      (pushes (s1\<lparr>lpc := (lpc s)(h := InRelease own k as r')\<rparr>) h')"
      using hart_part [OF _ release_part.hyps(2), of h' "lpc s h'" "crit s h'" "pushes s h'" "((lpc s)(h := InRelease own k as r')) h'"]
        release_part d lock_more_frame [OF exec_frame(1) [OF release_part.hyps(2)]] by (auto simp: noff_inv_def)
  qed
next
  case (release_return s h own k r)
  then show ?case by (auto simp: noff_inv_def hart_ok_def)
next
  case (push s h)
  then show ?case
    by (auto simp: noff_inv_def hart_ok_def push_off_hart lock_more_frame [OF push_off_frame(3)])
next
  case (pop s h s1)
  note f = pop_off_frame [OF pop.hyps(3)] and g = pop_off_hart [OF pop.hyps(3)]
  show ?case
    using pop f g lock_more_frame [of s1 "s\<lparr>tp := h\<rparr>"]
    by (auto simp: noff_inv_def hart_ok_def)
qed

lemma lock_reach_inv: "lock_reach s \<Longrightarrow> lock_inv s \<and> noff_inv s"
proof (induction rule: lock_reach.induct)
  case (init s)
  then show ?case by (rule lock_inv_init)
next
  case (step s t)
  then show ?case using lock_step_inv noff_step_inv by blast
qed

section \<open>Properties\<close>

text \<open>
  C27: (mutual exclusion, kernel/spinlock.c).  \<open>acquire\<close> and \<open>release\<close> are the runs of their atomic parts.  However the
  harts interleave these parts, two harts are never between the return of \<open>acquire(lk)\<close> and the call of
  \<open>release(lk)\<close> of the same lock, and the unsynchronised test \<open>holding(lk)\<close> answers exactly whether the hart that
  calls it is.
\<close>

theorem spinlock_mutual_exclusion:
  assumes "lock_reach s"
  shows "acquire k u = run_atoms k acquire_atoms False u \<and> release k u = run_atoms k release_atoms False u \<and>
    (k \<in> crit s h \<longrightarrow> k \<in> crit s h' \<longrightarrow> h = h') \<and>
    (lpc s h = Outside \<longrightarrow> (holding k (s\<lparr>tp := h\<rparr>) \<longleftrightarrow> k \<in> crit s h))"
proof -
  have inv: "agree (lkds (locks s)) (cps (locks s)) (lpc s) (crit s)"
    using lock_reach_inv [OF assms] by (simp add: lock_inv_def)
  have "k \<in> crit s h \<Longrightarrow> lkds (locks s) k" using agreeD(1) [OF inv] by (auto simp: owns_def)
  then have "lpc s h = Outside \<longrightarrow> (holding k (s\<lparr>tp := h\<rparr>) \<longleftrightarrow> k \<in> crit s h)"
    using agreeD(3) [OF inv, of k h] by (auto simp: holding_def cpuid_def lkds_def cps_def)
  then show ?thesis using agreeD(2) [OF inv, of h k h'] acquire_runs release_runs by (auto simp: owns_def)
qed

text \<open>
  (interrupts in critical sections, kernel/spinlock.c).  While a hart is in a critical section its
  interrupts are disabled and its \<open>noff\<close> is at least the number of locks it holds, and the
  \<open>pop_off\<close> that ends a \<open>release\<close> does not panic.
\<close>

lemma critical_section_interrupts_off:
  assumes "lock_reach s"
  shows "(crit s h \<noteq> {} \<longrightarrow> \<not> intr_get (s\<lparr>tp := h\<rparr>)) \<and>
         int (card (crit s h)) \<le> noff (cpus s h) \<and>
         (lpc s h = InRelease own k [PopOff] r \<longrightarrow> (\<exists>t. pop_off (s\<lparr>tp := h\<rparr>) = Ret () t))"
proof -
  have inv: "hart_ok (noff (cpus s h)) (sstatus s h) (lpc s h) (crit s h) (pushes s h)" "pc_ok (lpc s h) (crit s h)"
    using lock_reach_inv [OF assms] agreeD(4) by (auto simp: noff_inv_def lock_inv_def)
  have pos: "noff (cpus s h) > 0" if "crit s h \<noteq> {}"
  proof -
    have "card (crit s h) > 0" using inv that by (simp add: hart_ok_def card_gt_0_iff)
    with inv show ?thesis by (simp add: hart_ok_def)
  qed
  have "lpc s h = InRelease own k [PopOff] r \<Longrightarrow> noff (cpus s h) > 0" using inv by (simp add: hart_ok_def)
  with inv pos show ?thesis
    by (auto simp: hart_ok_def pop_off_def Let_def hart_defs)
qed

text \<open>Witness: two harts, of which hart 0 acquires the process-id lock.\<close>

definition demo_cpu :: cpu where
  "demo_cpu = \<lparr>cpu_proc = None, cpu_context = zero_context, noff = 0, intena = False\<rparr>"

definition demo_locks :: lock_sys where
  "demo_locks = \<lparr>tp = 0, sstatus = (\<lambda>_. SSTATUS_SIE), cpus = (\<lambda>_. demo_cpu),
     locks = (\<lambda>_. \<lparr>locked = 0, lk_name = [], lk_cpu = None\<rparr>),
     lpc = (\<lambda>_. Outside), crit = (\<lambda>_. {}), pushes = (\<lambda>_. 0)\<rparr>"

text \<open>A hart that runs \<open>acquire\<close> without interruption is a run of the system.\<close>

lemma exec_lpc:
  fixes s :: lock_sys
  assumes "exec_atom k a r s = Ret r' s1"
  shows "exec_atom k a r (s\<lparr>lpc := x\<rparr>) = Ret r' (s1\<lparr>lpc := x\<rparr>)"
proof -
  have p: "push_off (s\<lparr>lpc := x\<rparr>) = (push_off s)\<lparr>lpc := x\<rparr>" by (simp add: push_off_def Let_def hart_defs)
  have q: "pop_off (s\<lparr>lpc := x\<rparr>) = Ret () (t\<lparr>lpc := x\<rparr>)" if "pop_off s = Ret () t" for t
    using that by (auto simp: pop_off_def Let_def hart_defs split: if_splits)
  show ?thesis using assms p q by (cases a) (auto simp: bnd_Ret_iff lock_swap_def lock_set_cpu_def lock_clear_cpu_def lock_unlock_def upd_lock_def cpuid_def split: if_splits)
qed

lemma run_lpc:
  fixes s :: lock_sys
  shows "run_atoms k as r s = Ret () t \<Longrightarrow> run_atoms k as r (s\<lparr>lpc := x\<rparr>) = Ret () (t\<lparr>lpc := x\<rparr>)"
proof (induction as arbitrary: s r)
  case (Cons a as)
  then obtain r1 s1 where "exec_atom k a r s = Ret r1 s1" "run_atoms k as r1 s1 = Ret () t" by (auto simp: bnd_Ret_iff)
  then show ?case using Cons.IH by (simp add: exec_lpc)
qed simp

lemma parts_reach:
  "lock_reach s \<Longrightarrow> lpc s (tp s) = InAcquire k as r \<Longrightarrow> run_atoms k as r s = Ret () t \<Longrightarrow>
    \<exists>r'. lock_reach (t\<lparr>lpc := (lpc s)(tp s := InAcquire k [] r')\<rparr>) \<and> tp t = tp s \<and> crit t = crit s"
proof (induction as arbitrary: s r t)
  case Nil
  then have "(lpc s)(tp s := InAcquire k [] r) = lpc s" by auto
  then show ?case using Nil by (intro exI [of _ r]) simp
next
  case (Cons a as)
  then obtain r1 s1 where e: "exec_atom k a r s = Ret r1 s1" "run_atoms k as r1 s1 = Ret () t" by (auto simp: bnd_Ret_iff)
  let ?x = "(lpc s)(tp s := InAcquire k as r1)"
  have "s\<lparr>tp := tp s\<rparr> = s" by simp
  then have "lock_reach (s1\<lparr>lpc := ?x\<rparr>)" using lock_reach.step [OF Cons.prems(1) acquire_part [OF Cons.prems(2)]] e(1) by simp
  moreover have t: "tp s1 = tp s" "crit s1 = crit s" using exec_frame(2) [OF e(1)] lock_more_frame(2) [OF exec_frame(1) [OF e(1)]] .
  ultimately show ?case using Cons.IH [of "s1\<lparr>lpc := ?x\<rparr>" r1] run_lpc [OF e(2), of ?x]
    by (simp add: fun_upd_same del: fun_upd_apply)
qed

lemma acquire_reach:
  assumes "lock_reach s" "lpc s (tp s) = Outside" "acquire k s = Ret () t"
  shows "lock_reach (t\<lparr>lpc := lpc s, crit := (crit s)(tp s := insert k (crit s (tp s)))\<rparr>)"
proof -
  let ?x = "(lpc s)(tp s := InAcquire k acquire_atoms False)"
  have "lock_reach (s\<lparr>lpc := ?x\<rparr>)" by (rule lock_reach.step [OF assms(1) acquire_call [OF assms(2)]])
  moreover have "run_atoms k acquire_atoms False (s\<lparr>lpc := ?x\<rparr>) = Ret () (t\<lparr>lpc := ?x\<rparr>)"
    using assms(3) unfolding acquire_runs by (rule run_lpc)
  ultimately obtain r where r: "lock_reach (t\<lparr>lpc := (lpc s)(tp s := InAcquire k [] r)\<rparr>)" "tp t = tp s" "crit t = crit s"
    using parts_reach [of "s\<lparr>lpc := ?x\<rparr>" k acquire_atoms False "t\<lparr>lpc := ?x\<rparr>"] by auto
  have "(lpc s)(tp s := Outside) = lpc s" using assms(2) by auto
  then show ?thesis
    using lock_reach.step [OF r(1) acquire_return [of "t\<lparr>lpc := (lpc s)(tp s := InAcquire k [] r)\<rparr>" "tp s" k r]] r(3) by simp
qed

lemma demo_held_reach:
  obtains t where "acquire PidLock demo_locks = Ret () t" "lock_reach (t\<lparr>lpc := lpc demo_locks, crit := (crit demo_locks)(0 := {PidLock})\<rparr>)"
proof -
  have i: "lock_reach demo_locks" by (rule lock_reach.init) (simp add: lock_sys_init_def demo_locks_def demo_cpu_def)
  have d: "tp demo_locks = 0" "lpc demo_locks 0 = Outside" "crit demo_locks 0 = {}" by (simp_all add: demo_locks_def)
  obtain t where "acquire PidLock demo_locks = Ret () t" by (simp add: acquire_def Let_def hart_defs demo_locks_def push_off_def demo_cpu_def)
  then show ?thesis using that acquire_reach [OF i] d by metis
qed

theorem spinlock_mutual_exclusion_witness:
  "\<exists>s :: lock_sys. PidLock \<in> crit s 0 \<and> PidLock \<notin> crit s 1 \<and> lpc s 0 = Outside \<and> holding PidLock (s\<lparr>tp := 0\<rparr>)"
proof -
  obtain t where t: "lock_reach (t\<lparr>lpc := lpc demo_locks, crit := (crit demo_locks)(0 := {PidLock})\<rparr>)" by (rule demo_held_reach)
  let ?s = "t\<lparr>lpc := lpc demo_locks, crit := (crit demo_locks)(0 := {PidLock})\<rparr>"
  have c: "PidLock \<in> crit ?s 0" "lpc ?s 0 = Outside" by (simp_all add: demo_locks_def)
  have "PidLock \<notin> crit ?s 1" using spinlock_mutual_exclusion [OF t, of PidLock _ 0 1] c(1) zero_neq_one [where ?'a = nat] by blast
  moreover have "holding PidLock (?s\<lparr>tp := 0\<rparr>)" using spinlock_mutual_exclusion [OF t, of PidLock _ 0 1] c by blast
  ultimately show ?thesis using c by blast
qed

end
