(* ===== verification/Memory.thy ===== *)
theory Memory
  imports Spinlock
begin

text \<open>
  Memory and the routines of \<open>kernel/string.c\<close>.  Memory is a map from 64-bit addresses to bytes;
  \<open>load64\<close> and \<open>store64\<close> are the little-endian accesses the compiler emits for \<open>uint64\<close> objects.
  The \<open>mem*\<close> routines work on memory.  The \<open>str*\<close> routines work on the bytes of a C string or
  array, as a list from the pointer on; where the list of a source string ends, its terminating
  NUL follows.
\<close>

type_synonym memory = "u64 \<Rightarrow> u8"

section \<open>Raw memory\<close>

definition memset :: "u64 \<Rightarrow> i32 \<Rightarrow> u32 \<Rightarrow> memory \<Rightarrow> memory" where
  "memset dst c n m = fold (\<lambda>i m. m(dst + of_nat i := ucast c)) [0..<unat n] m"

fun memcmp_loop :: "u64 \<Rightarrow> u64 \<Rightarrow> nat \<Rightarrow> memory \<Rightarrow> i32" where
  "memcmp_loop s1 s2 0 m = 0"
| "memcmp_loop s1 s2 (Suc n) m =
     (if m s1 \<noteq> m s2 then ucast (m s1) - ucast (m s2) else memcmp_loop (s1 + 1) (s2 + 1) n m)"

definition memcmp :: "u64 \<Rightarrow> u64 \<Rightarrow> u32 \<Rightarrow> memory \<Rightarrow> i32" where
  "memcmp v1 v2 n m = memcmp_loop v1 v2 (unat n) m"

text \<open>The two loops of \<open>memmove\<close>: \<open>*--d = *--s\<close> and \<open>*d++ = *s++\<close>.\<close>

fun copy_down :: "u64 \<Rightarrow> u64 \<Rightarrow> nat \<Rightarrow> memory \<Rightarrow> memory" where
  "copy_down d s 0 m = m"
| "copy_down d s (Suc n) m = copy_down (d - 1) (s - 1) n (m(d - 1 := m (s - 1)))"

fun copy_up :: "u64 \<Rightarrow> u64 \<Rightarrow> nat \<Rightarrow> memory \<Rightarrow> memory" where
  "copy_up d s 0 m = m"
| "copy_up d s (Suc n) m = copy_up (d + 1) (s + 1) n (m(d := m s))"

definition memmove :: "u64 \<Rightarrow> u64 \<Rightarrow> u32 \<Rightarrow> memory \<Rightarrow> memory" where
  "memmove dst src n m =
     (if n = 0 then m
      else if src < dst \<and> src + ucast n > dst
      then copy_down (dst + ucast n) (src + ucast n) (unat n) m
      else copy_up dst src (unat n) m)"

definition memcpy :: "u64 \<Rightarrow> u64 \<Rightarrow> u32 \<Rightarrow> memory \<Rightarrow> memory" where
  "memcpy dst src n m = memmove dst src n m"

definition load64 :: "u64 \<Rightarrow> memory \<Rightarrow> u64" where
  "load64 a m = foldr (\<lambda>i x. push_bit 8 x OR ucast (m (a + of_nat i))) [0..<8] 0"

definition store64 :: "u64 \<Rightarrow> u64 \<Rightarrow> memory \<Rightarrow> memory" where
  "store64 a v m = fold (\<lambda>i m. m(a + of_nat i := ucast (drop_bit (8 * i) v))) [0..<8] m"

section \<open>C strings\<close>

text \<open>The byte a pointer into a string points to, and the string up to its NUL.\<close>

definition deref :: "u8 list \<Rightarrow> u8" where
  "deref p = (case p of [] \<Rightarrow> 0 | c # _ \<Rightarrow> c)"

definition cstring :: "u8 list \<Rightarrow> u8 list" where
  "cstring p = takeWhile (\<lambda>c. c \<noteq> 0) p"

fun strncmp :: "u8 list \<Rightarrow> u8 list \<Rightarrow> nat \<Rightarrow> int" where
  "strncmp p q n =
     (if n > 0 \<and> deref p \<noteq> 0 \<and> deref p = deref q then strncmp (tl p) (tl q) (n - 1)
      else if n = 0 then 0
      else uint (deref p) - uint (deref q))"

declare strncmp.simps [simp del]

text \<open>
  \<open>strncpy\<close>, with the destination array \<open>s\<close> written from index \<open>i\<close> on.  In both routines
  \<open>*s++ = *t++\<close> has moved past the NUL when the loop stops on it.
\<close>

fun strncpy_pad :: "u8 list \<Rightarrow> nat \<Rightarrow> nat \<Rightarrow> u8 list" where
  "strncpy_pad s i 0 = s"
| "strncpy_pad s i (Suc n) = strncpy_pad (s[i := 0]) (i + 1) n"

fun strncpy_loop :: "u8 list \<Rightarrow> nat \<Rightarrow> u8 list \<Rightarrow> nat \<Rightarrow> u8 list" where
  "strncpy_loop s i t 0 = s"
| "strncpy_loop s i t (Suc n) =
     (if deref t \<noteq> 0 then strncpy_loop (s[i := deref t]) (i + 1) (tl t) n
      else strncpy_pad (s[i := deref t]) (i + 1) n)"

definition strncpy :: "u8 list \<Rightarrow> u8 list \<Rightarrow> int \<Rightarrow> u8 list" where
  "strncpy s t n = strncpy_loop s 0 t (nat n)"

fun safestrcpy_loop :: "u8 list \<Rightarrow> nat \<Rightarrow> u8 list \<Rightarrow> nat \<Rightarrow> u8 list" where
  "safestrcpy_loop s i t 0 = s[i := 0]"
| "safestrcpy_loop s i t (Suc n) =
     (if deref t \<noteq> 0 then safestrcpy_loop (s[i := deref t]) (i + 1) (tl t) n
      else (s[i := deref t])[i + 1 := 0])"

definition safestrcpy :: "u8 list \<Rightarrow> u8 list \<Rightarrow> int \<Rightarrow> u8 list" where
  "safestrcpy s t n = (if n \<le> 0 then s else safestrcpy_loop s 0 t (nat (n - 1)))"

fun strlen :: "u8 list \<Rightarrow> nat" where
  "strlen [] = 0"
| "strlen (c # s) = (if c \<noteq> 0 then 1 + strlen s else 0)"

section \<open>Address arithmetic\<close>

text \<open>Membership in the region of \<open>n\<close> bytes from \<open>d\<close> on, wrap-around included.\<close>

lemma unat_diff_Suc:
  assumes "(x::u64) \<noteq> 0"
  shows "unat (x - 1) = unat x - 1"
  using assms by (simp add: unat_minus_one)

lemma region_Suc:
  assumes "Suc n \<le> 2 ^ 64"
  shows "unat (a - (d::u64)) < Suc n \<longleftrightarrow> a = d \<or> unat (a - (d + 1)) < n"
proof (cases "a = d")
  case False
  then have "a - d \<noteq> 0" by simp
  then have "unat (a - d - 1) = unat (a - d) - 1" "unat (a - d) > 0"
    by (simp_all add: unat_diff_Suc unat_gt_0)
  with False show ?thesis by (auto simp: diff_diff_eq)
qed simp

lemma region_disjoint_step:
  assumes "Suc n \<le> 2 ^ 64" "unat (a - (d + 1)) < n"
  shows "unat (a - (d::u64)) \<le> n" "a \<noteq> d"
proof -
  show "a \<noteq> d"
  proof
    assume "a = d"
    then have "unat (a - (d + 1)) = 2 ^ 64 - 1" by (simp add: unsigned_minus_1_eq_mask mask_eq_exp_minus_1)
    with assms show False by simp
  qed
  then show "unat (a - d) \<le> n" using assms region_Suc [of n a d] by simp
qed

lemma memset_apply: "memset dst c n m a = (if unat (a - dst) < unat n then ucast c else m a)"
proof -
  have "fold (\<lambda>i m. m(dst + of_nat i := v)) [0..<k] m a = (if unat (a - dst) < k then v else m a)"
    if "k \<le> 2 ^ 64" for k and v :: u8
    using that
  proof (induction k)
    case (Suc k)
    have "a = dst + of_nat k \<longleftrightarrow> unat (a - dst) = k"
    proof
      assume "a = dst + of_nat k"
      then show "unat (a - dst) = k" using Suc.prems by (simp add: unat_of_nat)
    next
      assume "unat (a - dst) = k"
      then have "of_nat k = a - dst" by auto
      then show "a = dst + of_nat k" by simp
    qed
    with Suc show ?case by auto
  qed simp
  moreover have "unat n \<le> 2 ^ 64" using unat_u32_less [of n] by (simp del: unat_u32_less)
  ultimately show ?thesis by (simp add: memset_def)
qed

section \<open>\<open>memmove\<close>\<close>

text \<open>
  Copying upwards is right unless the destination starts inside the source; copying downwards
  unless the source starts inside the destination.
\<close>

lemma copy_up_apply:
  assumes "n \<le> 2 ^ 64" "d = s \<or> n \<le> unat (d - s)"
  shows "copy_up d s n m a = (if unat (a - d) < n then m (s + (a - d)) else m a)"
  using assms
proof (induction n arbitrary: d s m)
  case (Suc n)
  let ?m = "m(d := m s)"
  have "copy_up d s (Suc n) m a = (if unat (a - (d + 1)) < n then ?m (s + 1 + (a - (d + 1))) else ?m a)"
    using Suc.prems by (simp only: copy_up.simps) (rule Suc.IH, auto)
  also have "\<dots> = (if unat (a - d) < Suc n then m (s + (a - d)) else m a)"
  proof (cases "unat (a - (d + 1)) < n")
    case True
    note r = region_disjoint_step [OF Suc.prems(1) True]
    have "s + (a - d) \<noteq> d"
    proof
      assume "s + (a - d) = d"
      then have "d - s = a - d" by (metis add_diff_cancel_left')
      with r Suc.prems(2) show False by auto
    qed
    with r True region_Suc [OF Suc.prems(1), of a d] show ?thesis by (simp add: algebra_simps)
  next
    case False
    with region_Suc [OF Suc.prems(1), of a d] show ?thesis by auto
  qed
  finally show ?case .
qed simp

lemma copy_down_apply:
  assumes "n \<le> 2 ^ 64" "d = s \<or> n \<le> unat (s - d)"
  shows "copy_down (d + of_nat n) (s + of_nat n) n m a =
    (if unat (a - d) < n then m (s + (a - d)) else m a)"
  using assms
proof (induction n arbitrary: m)
  case (Suc n)
  let ?e = "d + of_nat n"
  let ?m = "m(?e := m (s + of_nat n))"
  have e: "d + of_nat (Suc n) - 1 = ?e" "s + of_nat (Suc n) - 1 = s + of_nat n" by simp_all
  have k: "unat (of_nat n :: u64) = n" using Suc.prems(1) by (simp add: unat_of_nat)
  have "copy_down (d + of_nat (Suc n)) (s + of_nat (Suc n)) (Suc n) m a =
      (if unat (a - d) < n then ?m (s + (a - d)) else ?m a)"
    using Suc.prems by (simp only: copy_down.simps e) (rule Suc.IH, auto)
  also have "\<dots> = (if unat (a - d) < Suc n then m (s + (a - d)) else m a)"
  proof (cases "unat (a - d) < n")
    case True
    have "s + (a - d) \<noteq> ?e"
    proof
      assume e: "s + (a - d) = ?e"
      then have "s - d = of_nat n - (a - d)" by (simp add: algebra_simps)
      moreover have "unat (of_nat n - (a - d)) = n - unat (a - d)"
        using True k by (subst unat_sub) (simp_all add: word_le_nat_alt)
      ultimately have "d = s \<or> Suc n \<le> n - unat (a - d)" using Suc.prems(2) by metis
      with e True k show False by auto
    qed
    with True show ?thesis by simp
  next
    case False
    have "a = ?e \<longleftrightarrow> unat (a - d) = n"
      using k by (metis add.commute add_diff_cancel_left' diff_add_cancel word_unat_eq_iff)
    with False show ?thesis by auto
  qed
  finally show ?case .
qed simp

text \<open>Two regions of \<open>n\<close> bytes that do not reach past the end of the address space.\<close>

lemma no_wrap_diff:
  assumes "unat s + n \<le> 2 ^ 64" "d < (s::u64)"
  shows "n \<le> unat (d - s)"
proof -
  have "unat (d - s) = 2 ^ 64 + unat d - unat s"
    using assms(2) by (simp add: unat_sub_if' word_less_nat_alt)
  with assms show ?thesis by simp
qed

lemma memmove_apply:
  assumes "unat src + unat n \<le> 2 ^ 64" "unat dst + unat n \<le> 2 ^ 64"
  shows "memmove dst src n m a = (if unat (a - dst) < unat n then m (src + (a - dst)) else m a)"
proof -
  have n: "unat n \<le> 2 ^ 64" using unat_u32_less [of n] by (simp del: unat_u32_less)
  have n0: "unat n = 0 \<longleftrightarrow> n = 0" by (rule unat_0_iff)
  have end_cmp: "src + ucast n > dst \<longleftrightarrow> unat (dst - src) < unat n" if "src < dst"
  proof -
    have "unat src < unat dst" using that by (simp add: word_less_nat_alt)
    moreover from this have "unat (src + ucast n) = unat src + unat n"
      using assms(2) by (subst unat_add_lem [THEN iffD1]) simp_all
    moreover have "unat (dst - src) = unat dst - unat src"
      using that by (simp add: unat_sub order_less_imp_le)
    ultimately show ?thesis by (auto simp: word_less_nat_alt)
  qed
  show ?thesis
  proof (cases "n = 0 \<or> dst = src")
    case True
    with n n0 show ?thesis by (auto simp: memmove_def copy_up_apply)
  next
    case False
    consider "src < dst" "unat (dst - src) < unat n" | "src < dst" "unat n \<le> unat (dst - src)"
      | "dst < src" using False by fastforce
    then show ?thesis
    proof cases
      case 1
      then have "src + ucast n > dst" using end_cmp [OF 1(1)] by simp
      moreover have "unat n \<le> unat (src - dst)" using no_wrap_diff [OF assms(2) 1(1)] .
      ultimately show ?thesis using 1 False n copy_down_apply [of "unat n" dst src m a]
        by (simp add: memmove_def)
    next
      case 2
      then have "\<not> src + ucast n > dst" using end_cmp [OF 2(1)] by simp
      then show ?thesis using 2 False n by (auto simp: memmove_def copy_up_apply)
    next
      case 3
      then show ?thesis using False n no_wrap_diff [OF assms(1) 3]
        by (auto simp: memmove_def copy_up_apply)
    qed
  qed
qed

section \<open>64-bit accesses\<close>

lemma store64_apply:
  "store64 a v m x = (if unat (x - a) < 8 then ucast (drop_bit (8 * unat (x - a)) v) else m x)"
proof -
  have "fold (\<lambda>i m. m(a + of_nat i := ucast (drop_bit (8 * i) v))) [0..<k] m x =
      (if unat (x - a) < k then ucast (drop_bit (8 * unat (x - a)) v) else m x)" if "k \<le> 8" for k
    using that
  proof (induction k)
    case (Suc k)
    have "x = a + of_nat k \<longleftrightarrow> unat (x - a) = k"
    proof
      assume "x = a + of_nat k"
      then show "unat (x - a) = k" using Suc.prems by (simp add: unat_of_nat)
    next
      assume "unat (x - a) = k"
      then have "of_nat k = x - a" by auto
      then show "x = a + of_nat k" by simp
    qed
    with Suc show ?case by auto
  qed simp
  then show ?thesis by (simp add: store64_def)
qed

lemma load64_cong:
  assumes "\<And>i. i < 8 \<Longrightarrow> m (a + of_nat i) = m' (a + of_nat i)"
  shows "load64 a m = load64 a m'"
  unfolding load64_def by (rule foldr_cong) (auto simp: assms)

lemma bit_join_bytes:
  assumes "n < 64"
  shows "bit (foldr (\<lambda>b x. push_bit 8 x OR ucast b) (bs :: u8 list) (0 :: u64)) n \<longleftrightarrow>
     n div 8 < length bs \<and> bit (bs ! (n div 8)) (n mod 8)"
  using assms
proof (induction bs arbitrary: n)
  case (Cons b bs)
  show ?case
  proof (cases "n < 8")
    case True
    then show ?thesis using Cons.prems by (simp add: bit_simps)
  next
    case False
    then have d: "n div 8 = Suc ((n - 8) div 8)" "(n - 8) mod 8 = n mod 8"
      by (simp_all add: le_div_geq le_mod_geq)
    have "\<not> bit b n" using False bit_imp_le_length [of b n] by auto
    with False d Cons.IH [of "n - 8"] Cons.prems show ?thesis by (simp add: bit_simps)
  qed
qed simp

lemma bit_load64:
  assumes "n < 64"
  shows "bit (load64 a m) n = bit (m (a + of_nat (n div 8))) (n mod 8)"
proof -
  have "load64 a m =
      foldr (\<lambda>b x. push_bit 8 x OR ucast b) (map (\<lambda>i. m (a + of_nat i)) [0..<8]) 0"
    by (simp add: load64_def foldr_map comp_def)
  moreover have "n div 8 < 8" using assms by auto
  ultimately show ?thesis using assms bit_join_bytes [of n] by simp
qed

lemma load64_store64 [simp]: "load64 a (store64 a v m) = v"
proof (rule bit_word_eqI)
  fix n assume "n < LENGTH(64)"
  then have n: "n < 64" "n div 8 < 8" by auto
  then have "unat (a + of_nat (n div 8) - a) = n div 8" by (simp add: unat_of_nat)
  with n show "bit (load64 a (store64 a v m)) n = bit v n"
    by (simp add: bit_load64 store64_apply bit_simps)
qed

text \<open>Two regions are disjoint when neither starts inside the other.\<close>

lemma region_apart:
  assumes "n \<le> unat (b - a)" "k \<le> unat (a - (b::u64))" "unat (x - a) < n"
  shows "\<not> unat (x - b) < k"
proof
  assume x: "unat (x - b) < k"
  show False
  proof (cases "x - b \<le> x - a")
    case True
    have "unat (b - a) = unat ((x - a) - (x - b))" by simp
    also have "\<dots> = unat (x - a) - unat (x - b)" by (rule unat_sub [OF True])
    finally show False using assms by simp
  next
    case False
    then have le: "x - a \<le> x - b" by simp
    have "unat (a - b) = unat ((x - b) - (x - a))" by simp
    also have "\<dots> = unat (x - b) - unat (x - a)" by (rule unat_sub [OF le])
    finally show False using assms x by simp
  qed
qed

lemma load64_store64_other:
  assumes "8 \<le> unat (b - a)" "8 \<le> unat (a - b)"
  shows "load64 a (store64 b v m) = load64 a m"
proof (rule load64_cong)
  fix i :: nat assume "i < 8"
  then have "unat (a + of_nat i - a) < 8" by (simp add: unat_of_nat)
  from region_apart [OF assms this] show "store64 b v m (a + of_nat i) = m (a + of_nat i)"
    by (simp add: store64_apply)
qed

lemma load64_memset_other:
  assumes "8 \<le> unat (b - a)" "unat n \<le> unat (a - b)"
  shows "load64 a (memset b c n m) = load64 a m"
proof (rule load64_cong)
  fix i :: nat assume "i < 8"
  then have "unat (a + of_nat i - a) < 8" by (simp add: unat_of_nat)
  from region_apart [OF assms this] show "memset b c n m (a + of_nat i) = m (a + of_nat i)"
    by (simp add: memset_apply)
qed

section \<open>Strings\<close>

lemma cstring_nonzero: "deref t \<noteq> 0 \<Longrightarrow> cstring t = deref t # cstring (tl t)"
  by (cases t) (auto simp: deref_def cstring_def)

lemma cstring_zero: "deref t = 0 \<Longrightarrow> cstring t = []"
  by (cases t) (auto simp: deref_def cstring_def)

lemma strlen_cstring: "strlen s = length (cstring s)"
  by (induction s) (auto simp: cstring_def)

lemma length_safestrcpy_loop [simp]: "length (safestrcpy_loop s i t n) = length s"
  by (induction s i t n rule: safestrcpy_loop.induct) auto

lemma safestrcpy_loop_frame: "j < i \<or> j > i + n \<Longrightarrow> safestrcpy_loop s i t n ! j = s ! j"
  by (induction s i t n rule: safestrcpy_loop.induct) auto

lemma safestrcpy_loop_cstring:
  "i + n < length s \<Longrightarrow> cstring (drop i (safestrcpy_loop s i t n)) = take n (cstring t)"
proof (induction s i t n rule: safestrcpy_loop.induct)
  case (1 s i t)
  then show ?case by (simp add: cstring_def Cons_nth_drop_Suc [symmetric])
next
  case (2 s i t n)
  show ?case
  proof (cases "deref t = 0")
    case True
    with 2 show ?thesis
      by (simp add: cstring_zero) (simp add: cstring_def Cons_nth_drop_Suc [symmetric])
  next
    case False
    let ?r = "safestrcpy_loop (s[i := deref t]) (i + 1) (tl t) n"
    have "drop i ?r = deref t # drop (i + 1) ?r"
      using 2 safestrcpy_loop_frame [of i "i + 1" n "s[i := deref t]" "tl t"]
      by (simp add: Cons_nth_drop_Suc [symmetric])
    with False 2 show ?thesis by (simp add: cstring_nonzero) (simp add: cstring_def)
  qed
qed

lemma length_strncpy_pad [simp]: "length (strncpy_pad s i n) = length s"
  by (induction s i n rule: strncpy_pad.induct) auto

lemma strncpy_pad_nth:
  "i + n \<le> length s \<Longrightarrow> strncpy_pad s i n ! j = (if i \<le> j \<and> j < i + n then 0 else s ! j)"
  by (induction s i n rule: strncpy_pad.induct) (auto simp: nth_list_update)

lemma length_strncpy_loop [simp]: "length (strncpy_loop s i t n) = length s"
  by (induction s i t n rule: strncpy_loop.induct) auto

lemma strncpy_loop_nth:
  "i + n \<le> length s \<Longrightarrow> strncpy_loop s i t n ! j =
     (if i \<le> j \<and> j < i + n then (cstring t @ replicate n 0) ! (j - i) else s ! j)"
proof (induction s i t n rule: strncpy_loop.induct)
  case (2 s i t n)
  show ?case
  proof (cases "deref t = 0")
    case True
    with 2 show ?thesis
      by (auto simp: cstring_zero strncpy_pad_nth nth_list_update nth_Cons' nth_append)
  next
    case False
    have pad: "(xs @ replicate (Suc n) 0) ! k = (xs @ replicate n 0) ! k" if "k < n"
      for k and xs :: "u8 list"
      using that by (auto simp: nth_append nth_Cons')
    show ?thesis
    proof (cases "i < j \<and> j < i + Suc n")
      case True
      then have j: "j - i = Suc (j - Suc i)" "j - Suc i < n" by auto
      with True False 2 show ?thesis
        by (simp add: cstring_nonzero [of t] pad del: replicate_Suc)
    next
      case nj: False
      with False 2 show ?thesis
        by (auto simp: cstring_nonzero [of t] nth_list_update)
    qed
  qed
qed auto

lemma cstring_take: "cstring (take n p) = take n (cstring p)"
  by (induction p arbitrary: n) (auto simp: cstring_def take_Cons split: nat.splits)

lemma cstring_pad: "cstring (cstring t @ replicate n 0) = cstring t"
proof -
  have "takeWhile (\<lambda>c. c \<noteq> 0) (replicate n (0 :: u8)) = []" by (cases n) simp_all
  then show ?thesis
    unfolding cstring_def by (subst takeWhile_append2) (auto dest: set_takeWhileD)
qed

lemma strncmp_zero_iff: "strncmp p q n = 0 \<longleftrightarrow> take n (cstring p) = take n (cstring q)"
proof (induction p q n rule: strncmp.induct)
  case (1 p q n)
  show ?case
  proof (cases "n > 0 \<and> deref p \<noteq> 0 \<and> deref p = deref q")
    case True
    then obtain n' where "n = Suc n'" by (cases n) auto
    moreover from True have "strncmp p q n = strncmp (tl p) (tl q) (n - 1)"
      by (subst strncmp.simps) auto
    ultimately show ?thesis
      using True 1 cstring_nonzero [of p] cstring_nonzero [of q] by auto
  next
    case False
    then have "strncmp p q n = (if n = 0 then 0 else uint (deref p) - uint (deref q))"
      by (subst strncmp.simps) auto
    with False show ?thesis
      by (cases n; cases "deref p = 0"; cases "deref q = 0")
         (auto simp: cstring_nonzero [of p] cstring_nonzero [of q] cstring_zero unsigned_eq_0_iff
           dest: unsigned_word_eqI)
  qed
qed

section \<open>Properties\<close>

text \<open>
  (kernel/string.c \<open>memmove\<close>).  For regions inside the address space \<open>memmove\<close> moves the old
  contents of the source, also when the regions overlap, and changes nothing else.
\<close>

theorem memmove_moves:
  assumes "unat src + unat n \<le> 2 ^ 64" "unat dst + unat n \<le> 2 ^ 64"
  shows "(\<forall>i < unat n. memmove dst src n m (dst + of_nat i) = m (src + of_nat i)) \<and>
         (\<forall>a. \<not> unat (a - dst) < unat n \<longrightarrow> memmove dst src n m a = m a)"
proof (intro conjI allI impI)
  fix i assume "i < unat n"
  moreover from this have "unat (of_nat i :: u64) = i"
    using less_trans [OF _ unat_u32_less, of i n] by (simp add: unat_of_nat)
  ultimately show "memmove dst src n m (dst + of_nat i) = m (src + of_nat i)"
    using memmove_apply [OF assms] by simp
next
  fix a assume "\<not> unat (a - dst) < unat n"
  then show "memmove dst src n m a = m a" using memmove_apply [OF assms] by simp
qed

lemma memmove_moves_witness:
  "memmove 1001 1000 3 (\<lambda>a. if a = 1000 then 7 else if a = 1001 then 8 else 9) 1002 = (8 :: u8)"
proof -
  let ?m = "\<lambda>a::u64. if a = 1000 then 7 else if a = 1001 then 8 else 9 :: u8"
  have "memmove 1001 1000 3 ?m (1001 + of_nat 1) = ?m (1000 + of_nat 1)"
    using memmove_moves [of 1000 3 1001 ?m, THEN conjunct1, rule_format, of 1] by simp
  then show ?thesis by simp
qed

text \<open>
  (kernel/string.c \<open>safestrcpy\<close>).  Into an array of at least \<open>n > 0\<close> bytes, \<open>safestrcpy\<close> writes only
  the first \<open>n\<close> bytes and leaves there a NUL-terminated string: the source cut to \<open>n - 1\<close> characters.
\<close>

theorem safestrcpy_terminates_string:
  assumes "0 < n" "nat n \<le> length s"
  shows "cstring (safestrcpy s t n) = take (nat n - 1) (cstring t) \<and>
         length (cstring (safestrcpy s t n)) < nat n \<and>
         length (safestrcpy s t n) = length s \<and>
         (\<forall>j \<ge> nat n. safestrcpy s t n ! j = s ! j)"
proof -
  have "0 + nat (n - 1) < length s" using assms by linarith
  from safestrcpy_loop_cstring [OF this, of t]
  have c: "cstring (safestrcpy s t n) = take (nat n - 1) (cstring t)"
    using assms by (simp add: safestrcpy_def nat_diff_distrib)
  moreover have "safestrcpy s t n ! j = s ! j" if "nat n \<le> j" for j
    using that assms by (simp add: safestrcpy_def safestrcpy_loop_frame)
  ultimately show ?thesis using assms by (auto simp: safestrcpy_def)
qed

lemma safestrcpy_terminates_string_witness:
  "cstring (safestrcpy (replicate 4 9) [65, 66, 67, 68, 69] 4) = [65, 66, 67]"
  using safestrcpy_terminates_string [of 4 "replicate 4 9" "[65, 66, 67, 68, 69]"]
  by (simp add: cstring_def)

text \<open>
  (kernel/string.c \<open>strncpy\<close>, \<open>strncmp\<close>; fs.c \<open>namecmp\<close>).  A name that \<open>strncpy\<close> stored in a field
  of \<open>n\<close> bytes compares equal under \<open>strncmp\<close> with exactly the names that agree with it in their
  first \<open>n\<close> characters.
\<close>

theorem strncpy_strncmp:
  assumes "nat n \<le> length s"
  shows "strncmp (strncpy s t n) q (nat n) = 0 \<longleftrightarrow>
         take (nat n) (cstring t) = take (nat n) (cstring q)"
proof -
  have "take (nat n) (strncpy s t n) = take (nat n) (cstring t @ replicate (nat n) 0)"
    using assms strncpy_loop_nth [of 0 "nat n" s t]
    by (intro nth_equalityI) (auto simp: strncpy_def simp del: take_append)
  then have "cstring (take (nat n) (strncpy s t n)) = take (nat n) (cstring t)"
    by (simp add: cstring_take cstring_pad del: take_append)
  then show ?thesis by (simp add: strncmp_zero_iff cstring_take)
qed

lemma strncpy_strncmp_witness:
  "strncmp (strncpy (replicate 3 9) [65, 66, 67, 68] 3) [65, 66, 67, 70] 3 = 0"
  using strncpy_strncmp [of 3 "replicate 3 9" "[65, 66, 67, 68]" "[65, 66, 67, 70]"]
  by (simp add: cstring_def)

end
