(* ===== verification/Kalloc.thy ===== *)
theory Kalloc
  imports Memory
begin

text \<open>
  The physical page allocator, \<open>kernel/kalloc.c\<close>, with the page constants of \<open>kernel/riscv.h\<close> and
  \<open>kernel/memlayout.h\<close>.  The free list is kept, as in the code, inside the free pages: the first
  eight bytes of a free page are the address of the next one.  \<open>kend\<close> is the linker's symbol
  \<open>end\<close>, the first address after the kernel (kernel/kernel.ld).
\<close>

section \<open>State and constants\<close>

record kmem_state = hart_state +
  mem :: memory
  freelist :: u64
  kend :: u64

definition PGSIZE :: u64 where "PGSIZE = 4096"
definition KERNBASE :: u64 where "KERNBASE = 0x80000000"
definition PHYSTOP :: u64 where "PHYSTOP = KERNBASE + 128 * 1024 * 1024"

definition PGROUNDUP :: "u64 \<Rightarrow> u64" where
  "PGROUNDUP sz = (sz + PGSIZE - 1) AND NOT (PGSIZE - 1)"

definition PGROUNDDOWN :: "u64 \<Rightarrow> u64" where
  "PGROUNDDOWN a = a AND NOT (PGSIZE - 1)"

section \<open>Operations\<close>

definition kfree :: "u64 \<Rightarrow> 'a kmem_state_scheme \<Rightarrow> ('a kmem_state_scheme, unit) outcome" where
  "kfree pa s =
     (if pa mod PGSIZE \<noteq> 0 \<or> pa < kend s \<or> pa \<ge> PHYSTOP then Panic ''kfree''
      else let s = s\<lparr>mem := memset pa 1 (ucast PGSIZE) (mem s)\<rparr>
      in bnd (acquire KmemLock s) (\<lambda>_ s.
         let s = s\<lparr>mem := store64 pa (freelist s) (mem s)\<rparr>;
             s = s\<lparr>freelist := pa\<rparr>
         in release KmemLock s))"

definition kalloc :: "'a kmem_state_scheme \<Rightarrow> ('a kmem_state_scheme, u64) outcome" where
  "kalloc s =
     bnd (acquire KmemLock s) (\<lambda>_ s.
     let r = freelist s;
         s = (if r \<noteq> 0 then s\<lparr>freelist := load64 r (mem s)\<rparr> else s)
     in bnd (release KmemLock s) (\<lambda>_ s.
     let s = (if r \<noteq> 0 then s\<lparr>mem := memset r 5 (ucast PGSIZE) (mem s)\<rparr> else s)
     in Ret r s))"

lemma kfree_Ret_PHYSTOP: "kfree p s = Ret u t \<Longrightarrow> p < PHYSTOP"
  by (auto simp: kfree_def split: if_splits)

text \<open>
  The loop of \<open>freerange\<close>.  It ends because \<open>kfree\<close> panics from \<open>PHYSTOP\<close> on, so the pointer never
  wraps around.
\<close>

function freerange_loop ::
    "u64 \<Rightarrow> u64 \<Rightarrow> 'a kmem_state_scheme \<Rightarrow> ('a kmem_state_scheme, unit) outcome" where
  "freerange_loop p pa_end s =
     (if p + PGSIZE \<le> pa_end
      then bnd (kfree p s) (\<lambda>_ s. freerange_loop (p + PGSIZE) pa_end s)
      else Ret () s)"
  by pat_completeness auto
termination
proof (relation "measure (\<lambda>(p, pa_end, s). unat PHYSTOP + 4096 - unat p)")
  fix p pa_end :: u64 and s t :: "'a kmem_state_scheme" and u
  assume "kfree p s = Ret u t"
  then have "unat p < unat PHYSTOP" by (simp add: kfree_Ret_PHYSTOP word_less_nat_alt [symmetric])
  moreover have "unat (p + PGSIZE) = unat p + 4096"
    using \<open>unat p < unat PHYSTOP\<close> by (simp add: PGSIZE_def PHYSTOP_def KERNBASE_def unat_plus_if')
  ultimately show "((p + PGSIZE, pa_end, t), p, pa_end, s) \<in> measure (\<lambda>(p, pa_end, s). unat PHYSTOP + 4096 - unat p)"
    by simp
qed simp

declare freerange_loop.simps [simp del]

definition freerange :: "u64 \<Rightarrow> u64 \<Rightarrow> 'a kmem_state_scheme \<Rightarrow> ('a kmem_state_scheme, unit) outcome" where
  "freerange pa_start pa_end s = freerange_loop (PGROUNDUP pa_start) pa_end s"

definition kinit :: "'a kmem_state_scheme \<Rightarrow> ('a kmem_state_scheme, unit) outcome" where
  "kinit s = freerange (kend s) PHYSTOP (initlock KmemLock ''kmem'' s)"

section \<open>Abstraction of the free list\<close>

primrec chain :: "memory \<Rightarrow> u64 \<Rightarrow> u64 list \<Rightarrow> bool" where
  "chain m p [] \<longleftrightarrow> p = 0"
| "chain m p (x # xs) \<longleftrightarrow> p = x \<and> x \<noteq> 0 \<and> chain m (load64 x m) xs"

definition page_ok :: "u64 \<Rightarrow> u64 \<Rightarrow> bool" where
  "page_ok e p \<longleftrightarrow> p mod PGSIZE = 0 \<and> e \<le> p \<and> p < PHYSTOP"

definition kmem_inv :: "u64 list \<Rightarrow> 'a kmem_state_scheme \<Rightarrow> bool" where
  "kmem_inv ps s \<longleftrightarrow>
     0 < kend s \<and> chain (mem s) (freelist s) ps \<and> distinct ps \<and> (\<forall>p \<in> set ps. page_ok (kend s) p)"

lemma page_apart:
  assumes "a mod PGSIZE = 0" "b mod PGSIZE = 0" "a \<noteq> b"
  shows "4096 \<le> unat (b - a)"
proof -
  have d: "4096 dvd unat a" "4096 dvd unat b"
    using assms(1,2) by (simp_all add: PGSIZE_def word_unat_eq_iff unat_mod_distrib mod_eq_0_iff_dvd)
  have "unat (b - a) = (if unat a \<le> unat b then unat b - unat a else unat b + 2 ^ 64 - unat a)"
    by (simp add: unat_sub_if')
  moreover have "(4096 :: nat) dvd 2 ^ 64" by simp
  ultimately have "4096 dvd unat (b - a)"
    using d by (metis dvd_add dvd_diff_nat)
  moreover have "unat (b - a) \<noteq> 0" using assms(3) by (simp add: unat_0_iff)
  ultimately show ?thesis by (meson dvd_imp_le neq0_conv)
qed

lemma chain_frame:
  assumes "\<forall>x \<in> set ps. load64 x m' = load64 x m"
  shows "chain m' p ps = chain m p ps"
  using assms by (induction ps arbitrary: p) auto

lemma page_load_frame:
  assumes "page_ok e p" "page_ok e x" "x \<noteq> p"
  shows "load64 x (memset p c (ucast PGSIZE) m) = load64 x m"
    and "load64 x (store64 p v m) = load64 x m"
proof -
  have a: "x mod PGSIZE = 0" "p mod PGSIZE = 0" using assms by (simp_all add: page_ok_def)
  have "4096 \<le> unat (p - x)" "4096 \<le> unat (x - p)"
    using assms(3) page_apart [OF a] page_apart [OF a(2,1)] by blast+
  then show "load64 x (memset p c (ucast PGSIZE) m) = load64 x m"
    "load64 x (store64 p v m) = load64 x m"
    by (simp_all add: load64_memset_other load64_store64_other PGSIZE_def)
qed

lemma chain_page_frame:
  assumes "page_ok e p" "p \<notin> set ps" "\<forall>x \<in> set ps. page_ok e x"
  shows "chain (memset p c (ucast PGSIZE) m) q ps = chain m q ps"
    and "chain (store64 p v m) q ps = chain m q ps"
proof -
  have "\<forall>x \<in> set ps. load64 x (memset p c (ucast PGSIZE) m) = load64 x m \<and>
      load64 x (store64 p v m) = load64 x m"
    using assms page_load_frame [OF assms(1)] by metis
  then show "chain (memset p c (ucast PGSIZE) m) q ps = chain m q ps"
    "chain (store64 p v m) q ps = chain m q ps"
    by (simp_all add: chain_frame)
qed

lemma with_held_kmem [lock_simps]:
  "mem (with_held H s) = mem s" "freelist (with_held H s) = freelist s" "kend (with_held H s) = kend s"
  "(with_held H s)\<lparr>mem := m\<rparr> = with_held H (s\<lparr>mem := m\<rparr>)"
  "(with_held H s)\<lparr>freelist := f\<rparr> = with_held H (s\<lparr>freelist := f\<rparr>)"
  by (simp_all add: with_held_def intr_get_def r_sstatus_def cong: if_cong)

lemma lock_free_kmem [lock_simps]:
  "lock_free k (s\<lparr>mem := m\<rparr>) = lock_free k s" "lock_free k (s\<lparr>freelist := f\<rparr>) = lock_free k s"
  by (simp_all add: lock_free_def)

section \<open>The operations on a state in canonical form\<close>

text \<open>
  Called with the locks \<open>H\<close> held, \<open>kmem.lock\<close> not among them and held by no other hart.
\<close>

lemma kfree_with_held:
  assumes "finite H" "KmemLock \<notin> H" "lock_free KmemLock s" "page_ok (kend s) p"
  shows "kfree p (with_held H s) = Ret () (with_held H
    (s\<lparr>mem := store64 p (freelist s) (memset p 1 (ucast PGSIZE) (mem s)), freelist := p\<rparr>))"
proof -
  have "p mod PGSIZE = 0" "\<not> p < kend s" "\<not> PHYSTOP \<le> p"
    using assms(4) by (auto simp: page_ok_def)
  with assms(1-3) show ?thesis by (simp add: kfree_def Let_def lock_simps)
qed

lemma kalloc_with_held:
  assumes "finite H" "KmemLock \<notin> H" "lock_free KmemLock s"
  shows "kalloc (with_held H s) =
    (if freelist s = 0 then Ret 0 (with_held H s)
     else Ret (freelist s) (with_held H
       (s\<lparr>freelist := load64 (freelist s) (mem s), mem := memset (freelist s) 5 (ucast PGSIZE) (mem s)\<rparr>)))"
  using assms by (simp add: kalloc_def Let_def lock_simps)

lemma kmem_inv_kfree:
  assumes "kmem_inv ps s" "page_ok (kend s) p" "p \<notin> set ps"
  shows "kmem_inv (p # ps)
    (s\<lparr>mem := store64 p (freelist s) (memset p 1 (ucast PGSIZE) (mem s)), freelist := p\<rparr>)"
proof -
  have "p \<noteq> 0" using assms(1,2) by (auto simp: kmem_inv_def page_ok_def)
  moreover have "chain (store64 p (freelist s) (memset p 1 (ucast PGSIZE) (mem s))) (freelist s) ps"
    using assms by (simp add: kmem_inv_def chain_page_frame [OF assms(2,3)])
  ultimately show ?thesis using assms by (simp add: kmem_inv_def)
qed

lemma kmem_inv_kalloc:
  assumes "kmem_inv (p # ps) s"
  shows "freelist s = p" "p \<noteq> 0"
    and "kmem_inv ps (s\<lparr>freelist := load64 p (mem s), mem := memset p 5 (ucast PGSIZE) (mem s)\<rparr>)"
proof -
  show f: "freelist s = p" "p \<noteq> 0" using assms by (auto simp: kmem_inv_def)
  have "chain (memset p 5 (ucast PGSIZE) (mem s)) (load64 p (mem s)) ps"
    using assms by (simp add: kmem_inv_def chain_page_frame [where e = "kend s"])
  with assms f show "kmem_inv ps (s\<lparr>freelist := load64 p (mem s), mem := memset p 5 (ucast PGSIZE) (mem s)\<rparr>)"
    by (simp add: kmem_inv_def)
qed

section \<open>Rounding to pages\<close>

lemma and_not_4095: "(x :: u64) AND - 4096 = push_bit 12 (drop_bit 12 x)"
proof -
  have m: "(- 4096 :: u64) = NOT (mask 12)" by (simp add: mask_eq_exp_minus_1)
  show ?thesis unfolding m by (rule bit_word_eqI) (auto simp: bit_simps)
qed

lemma unat_PGROUNDDOWN: "unat (PGROUNDDOWN x) = unat x div 4096 * 4096"
proof -
  have "unat x div 4096 * 4096 \<le> unat x" by simp
  also have "\<dots> < 2 ^ 64" by simp
  finally have t: "take_bit 64 (unat x div 4096 * 4096) = unat x div 4096 * 4096"
    by (simp add: take_bit_nat_eq_self)
  have "unat (push_bit 12 (drop_bit 12 x)) = take_bit 64 (push_bit 12 (drop_bit 12 (unat x)))"
    unfolding unsigned_push_bit_eq unsigned_drop_bit_eq by (simp add: take_bit_nat_eq_self)
  also have "\<dots> = unat x div 4096 * 4096"
    unfolding push_bit_eq_mult drop_bit_eq_div using t by simp
  finally show ?thesis
    by (simp only: PGROUNDDOWN_def PGSIZE_def and_not_4095 [symmetric]) simp
qed

lemma PGROUNDUP_eq: "PGROUNDUP x = PGROUNDDOWN (x + 4095)"
  by (simp add: PGROUNDUP_def PGROUNDDOWN_def PGSIZE_def add.commute)

lemma unat_PGROUNDUP:
  assumes "unat x + 4095 < 2 ^ 64"
  shows "unat (PGROUNDUP x) = (unat x + 4095) div 4096 * 4096"
proof -
  have "unat (x + 4095) = unat x + 4095"
    using assms by (simp add: unat_plus_if')
  then show ?thesis by (simp add: PGROUNDUP_eq unat_PGROUNDDOWN)
qed

lemma page_mod_iff: "p mod PGSIZE = 0 \<longleftrightarrow> unat p mod 4096 = 0"
  by (simp add: PGSIZE_def word_unat_eq_iff unat_mod_distrib)

lemma unat_PHYSTOP: "unat PHYSTOP = 2281701376"
  by (simp add: PHYSTOP_def KERNBASE_def)

section \<open>\<open>freerange\<close> and \<open>kinit\<close>\<close>

definition page_range :: "u64 \<Rightarrow> nat \<Rightarrow> u64 list" where
  "page_range p n = map (\<lambda>i. p + of_nat i * PGSIZE) [0..<n]"

lemma page_range_Suc: "page_range p (Suc n) = p # page_range (p + PGSIZE) n"
  by (simp add: page_range_def upt_conv_Cons map_Suc_upt [symmetric] algebra_simps comp_def
      del: upt_Suc)

lemma freerange_loop_frees:
  assumes "lock_free KmemLock s" "kmem_inv ps s" "p mod PGSIZE = 0" "kend s \<le> p"
    and "unat e \<le> unat PHYSTOP" "unat p + 4096 * n \<le> unat e" "unat e < unat p + 4096 * Suc n"
    and "\<forall>q \<in> set ps. q < p"
  shows "\<exists>s'. freerange_loop p e (with_held {} s) = Ret () (with_held {} s') \<and>
    kmem_inv (rev (page_range p n) @ ps) s' \<and> kend s' = kend s \<and> locks s' = locks s"
  using assms
proof (induction n arbitrary: p s ps)
  case 0
  have "unat (p + PGSIZE) = unat p + 4096"
    using "0.prems" by (simp add: PGSIZE_def unat_PHYSTOP unat_plus_if')
  then have "\<not> p + PGSIZE \<le> e" using "0.prems" by (simp add: word_le_nat_alt)
  with "0.prems" show ?case
    by (subst freerange_loop.simps) (auto simp: page_range_def)
next
  case (Suc n)
  have u: "unat (p + PGSIZE) = unat p + 4096"
    using Suc.prems by (simp add: PGSIZE_def unat_PHYSTOP unat_plus_if')
  then have le: "p + PGSIZE \<le> e" using Suc.prems by (simp add: word_le_nat_alt)
  have ok: "page_ok (kend s) p"
    using Suc.prems by (simp add: page_ok_def word_less_nat_alt)
  let ?s = "s\<lparr>mem := store64 p (freelist s) (memset p 1 (ucast PGSIZE) (mem s)), freelist := p\<rparr>"
  have "kmem_inv (p # ps) ?s" using Suc.prems(8) by (intro kmem_inv_kfree Suc.prems ok) auto
  moreover have "(p + PGSIZE) mod PGSIZE = 0" using Suc.prems(3) u by (simp add: page_mod_iff)
  moreover have lt: "p < p + PGSIZE" using u by (simp add: word_less_nat_alt)
  moreover have "\<forall>q \<in> set (p # ps). q < p + PGSIZE" using Suc.prems(8) lt by (auto dest: order.strict_trans)
  moreover have "kend ?s \<le> p + PGSIZE" using Suc.prems(4) lt by simp
  ultimately obtain s' where s': "freerange_loop (p + PGSIZE) e (with_held {} ?s) = Ret () (with_held {} s')"
    "kmem_inv (rev (page_range (p + PGSIZE) n) @ p # ps) s'" "kend s' = kend ?s" "locks s' = locks ?s"
    using Suc.prems u Suc.IH [of ?s "p # ps" "p + PGSIZE"] by (auto simp: lock_free_def)
  have "freerange_loop p e (with_held {} s) = freerange_loop (p + PGSIZE) e (with_held {} ?s)"
    using le Suc.prems(1) ok by (subst freerange_loop.simps) (simp add: kfree_with_held)
  with s' show ?case by (auto simp: page_range_Suc)
qed

section \<open>The allocator as an interface\<close>

text \<open>
  What the kernel's other parts rely on: an allocator holds a list \<open>ps\<close> of free pages (invariant
  \<open>inv ps s\<close>), \<open>alloc\<close> hands out the first and \<open>free\<close> puts a usable page back.
\<close>

locale page_allocator =
  fixes alloc :: "'s \<Rightarrow> ('s, u64) outcome"
    and free :: "u64 \<Rightarrow> 's \<Rightarrow> ('s, unit) outcome"
    and inv :: "u64 list \<Rightarrow> 's \<Rightarrow> bool"
    and usable :: "'s \<Rightarrow> u64 \<Rightarrow> bool"
  assumes inv_distinct: "inv ps s \<Longrightarrow> distinct ps"
    and inv_usable: "inv ps s \<Longrightarrow> p \<in> set ps \<Longrightarrow> usable s p"
    and alloc_none: "inv [] s \<Longrightarrow> alloc s = Ret 0 s"
    and alloc_page: "inv (p # ps) s \<Longrightarrow>
      \<exists>s'. alloc s = Ret p s' \<and> p \<noteq> 0 \<and> inv ps s' \<and> usable s' = usable s"
    and free_page: "inv ps s \<Longrightarrow> usable s p \<Longrightarrow> p \<notin> set ps \<Longrightarrow>
      \<exists>s'. free p s = Ret () s' \<and> inv (p # ps) s' \<and> usable s' = usable s"
begin

lemma alloc_twice:
  assumes "inv (p # q # ps) s"
  obtains s' s'' where "alloc s = Ret p s'" "alloc s' = Ret q s''" "p \<noteq> q" "inv ps s''"
  using alloc_page [OF assms] alloc_page inv_distinct [OF assms]
  by (metis distinct_length_2_or_more)

lemma alloc_after_free:
  assumes "inv ps s" "usable s p" "p \<notin> set ps"
  shows "\<exists>s'. bnd (free p s) (\<lambda>_. alloc) = Ret p s' \<and> inv ps s'"
  using free_page [OF assms] alloc_page by fastforce

lemma free_after_alloc:
  assumes "inv (p # ps) s"
  shows "\<exists>s'. bnd (alloc s) free = Ret () s' \<and> inv (p # ps) s'"
  using alloc_page [OF assms] inv_distinct [OF assms] inv_usable [OF assms, of p] free_page [of ps]
  by fastforce

lemma alloc_returns: "inv ps s \<Longrightarrow> \<exists>r s'. alloc s = Ret r s' \<and> (r = 0 \<longleftrightarrow> ps = [])"
  using alloc_none alloc_page by (cases ps) fastforce+

end

definition kmem_ready :: "lock_addr set \<Rightarrow> u64 list \<Rightarrow> 'a kmem_state_scheme \<Rightarrow> bool" where
  "kmem_ready H ps s \<longleftrightarrow> finite H \<and> KmemLock \<notin> H \<and>
     (\<exists>s0. s = with_held H s0 \<and> lock_free KmemLock s0 \<and> kmem_inv ps s0)"

lemma kmem_readyI:
  "finite H \<Longrightarrow> KmemLock \<notin> H \<Longrightarrow> lock_free KmemLock s \<Longrightarrow> kmem_inv ps s \<Longrightarrow> kmem_ready H ps (with_held H s)"
  by (auto simp: kmem_ready_def)

lemma kmem_readyE:
  assumes "kmem_ready H ps s"
  obtains s0 where "s = with_held H s0" "finite H" "KmemLock \<notin> H" "lock_free KmemLock s0" "kmem_inv ps s0"
  using assms by (auto simp: kmem_ready_def)

lemma kalloc_ready_empty: "kmem_ready H [] s \<Longrightarrow> kalloc s = Ret 0 s"
  by (elim kmem_readyE) (simp add: kalloc_with_held kmem_inv_def)

lemma kalloc_ready_page:
  assumes "kmem_ready H (p # ps) s"
  shows "\<exists>s'. kalloc s = Ret p s' \<and> p \<noteq> 0 \<and> kmem_ready H ps s' \<and> kend s' = kend s \<and>
    mem s' = memset p 5 4096 (mem s)"
  using assms
proof (elim kmem_readyE)
  fix s0 assume s: "s = with_held H s0" "finite H" "KmemLock \<notin> H" "lock_free KmemLock s0"
    and i: "kmem_inv (p # ps) s0"
  note k = kmem_inv_kalloc [OF i]
  have "kalloc s = Ret p (with_held H
      (s0\<lparr>freelist := load64 p (mem s0), mem := memset p 5 (ucast PGSIZE) (mem s0)\<rparr>))"
    using s k(1,2) by (simp add: kalloc_with_held)
  moreover have "kmem_ready H ps (with_held H
      (s0\<lparr>freelist := load64 p (mem s0), mem := memset p 5 (ucast PGSIZE) (mem s0)\<rparr>))"
    using s k(3) by (intro kmem_readyI) (simp_all add: lock_simps)
  ultimately show ?thesis using s(1) k(2) by (simp add: with_held_kmem PGSIZE_def)
qed

lemma kfree_ready:
  assumes "kmem_ready H ps s" "page_ok (kend s) p" "p \<notin> set ps"
  shows "\<exists>s'. kfree p s = Ret () s' \<and> kmem_ready H (p # ps) s' \<and> kend s' = kend s \<and>
    mem s' = store64 p (freelist s) (memset p 1 4096 (mem s))"
  using assms(1)
proof (elim kmem_readyE)
  fix s0 assume s: "s = with_held H s0" "finite H" "KmemLock \<notin> H" "lock_free KmemLock s0"
    and i: "kmem_inv ps s0"
  have ok: "page_ok (kend s0) p" using assms(2) s(1) by (simp add: with_held_kmem)
  let ?s = "s0\<lparr>mem := store64 p (freelist s0) (memset p 1 (ucast PGSIZE) (mem s0)), freelist := p\<rparr>"
  have "kfree p s = Ret () (with_held H ?s)" using s ok by (simp add: kfree_with_held)
  moreover have "kmem_ready H (p # ps) (with_held H ?s)"
    using s kmem_inv_kfree [OF i ok assms(3)] by (intro kmem_readyI) (simp_all add: lock_simps)
  ultimately show ?thesis using s(1) by (simp add: with_held_kmem PGSIZE_def)
qed

interpretation kmem: page_allocator kalloc kfree "kmem_ready H" "\<lambda>s. page_ok (kend s)" for H
proof
  show "kmem_ready H ps s \<Longrightarrow> distinct ps" for ps and s :: "'a kmem_state_scheme"
    by (auto elim!: kmem_readyE simp: kmem_inv_def)
  show "kmem_ready H ps s \<Longrightarrow> p \<in> set ps \<Longrightarrow> page_ok (kend s) p" for ps p and s :: "'a kmem_state_scheme"
    by (auto elim!: kmem_readyE simp: kmem_inv_def with_held_kmem)
  show "kmem_ready H [] s \<Longrightarrow> kalloc s = Ret 0 s" for s :: "'a kmem_state_scheme"
    by (rule kalloc_ready_empty)
  show "kmem_ready H (p # ps) s \<Longrightarrow>
      \<exists>s'. kalloc s = Ret p s' \<and> p \<noteq> 0 \<and> kmem_ready H ps s' \<and> page_ok (kend s') = page_ok (kend s)"
    for p ps and s :: "'a kmem_state_scheme"
    using kalloc_ready_page by fastforce
  show "kmem_ready H ps s \<Longrightarrow> page_ok (kend s) p \<Longrightarrow> p \<notin> set ps \<Longrightarrow>
      \<exists>s'. kfree p s = Ret () s' \<and> kmem_ready H (p # ps) s' \<and> page_ok (kend s') = page_ok (kend s)"
    for p ps and s :: "'a kmem_state_scheme"
    using kfree_ready by fastforce
qed

lemma unat_page_range:
  assumes "unat p + 4096 * n \<le> 2 ^ 63" "i < n"
  shows "unat (p + of_nat i * PGSIZE) = unat p + 4096 * i"
proof -
  have b: "unat p + 4096 * i < 2 ^ 64" using assms by simp
  then have "of_nat (unat p + 4096 * i) = p + of_nat i * PGSIZE"
    by (simp add: PGSIZE_def mult.commute)
  with unat_of_nat_u64 [OF b] show ?thesis by simp
qed

lemma set_page_range:
  assumes e: "unat e \<le> unat PHYSTOP" and n: "n = (unat PHYSTOP - unat (PGROUNDUP e)) div 4096"
  shows "set (page_range (PGROUNDUP e) n) = {q. page_ok e q}"
proof -
  have r: "unat (PGROUNDUP e) = (unat e + 4095) div 4096 * 4096"
    using e by (intro unat_PGROUNDUP) (simp add: unat_PHYSTOP)
  have top: "unat (PGROUNDUP e) + 4096 * n = unat PHYSTOP"
    using e by (simp add: n r unat_PHYSTOP)
  have u: "unat (PGROUNDUP e + of_nat i * PGSIZE) = unat (PGROUNDUP e) + 4096 * i" if "i < n" for i
    using that top by (intro unat_page_range) (simp_all add: unat_PHYSTOP)
  have sound: "page_ok e (PGROUNDUP e + of_nat i * PGSIZE)" if "i < n" for i
    unfolding page_ok_def word_less_nat_alt word_le_nat_alt page_mod_iff u [OF that]
    using that top by (simp add: r)
  have complete: "q \<in> set (page_range (PGROUNDUP e) n)" if q: "page_ok e q" for q
  proof -
    from q have a: "unat q mod 4096 = 0" "unat e \<le> unat q" "unat q < unat PHYSTOP"
      by (simp_all add: page_ok_def word_less_nat_alt word_le_nat_alt page_mod_iff)
    obtain k where k: "unat q = 4096 * k" using a(1) by (auto simp: mod_eq_0_iff_dvd)
    have "(unat e + 4095) div 4096 \<le> (4096 * k + 4095) div 4096"
      using a(2) k by (intro div_le_mono) simp
    then have ge: "(unat e + 4095) div 4096 \<le> k" by simp
    define i where "i = k - (unat e + 4095) div 4096"
    have i: "unat q = unat (PGROUNDUP e) + 4096 * i" using ge by (simp add: k r i_def algebra_simps)
    have "i < n" using i a(3) top by linarith
    moreover have "q = PGROUNDUP e + of_nat i * PGSIZE"
      using u [OF \<open>i < n\<close>] i by (simp add: word_unat_eq_iff)
    ultimately show ?thesis by (auto simp: page_range_def)
  qed
  show ?thesis using sound complete by (auto simp: page_range_def)
qed

lemma initlock_with_held:
  "k \<notin> H \<Longrightarrow> initlock k n (with_held H s) = with_held H (initlock k n s)"
  by (auto simp: initlock_def upd_lock_def with_held_def intr_get_def r_sstatus_def fun_eq_iff)

section \<open>Properties\<close>

text \<open>
  C40: \<open>kinit\<close>, run at boot with an empty free list, returns, and then the free list holds every
  page between the end of the kernel and \<open>PHYSTOP\<close> exactly once.
\<close>

theorem kinit_frees_all_pages:
  assumes "0 < kend s" "unat (kend s) \<le> unat PHYSTOP" "freelist s = 0"
  shows "\<exists>s' ps. kinit (with_held {} s) = Ret () s' \<and> kmem_ready {} ps s' \<and>
    set ps = {p. page_ok (kend s) p}"
proof -
  let ?s = "initlock KmemLock ''kmem'' s" and ?p = "PGROUNDUP (kend s)"
  define n where "n = (unat PHYSTOP - unat ?p) div 4096"
  have r: "unat ?p = (unat (kend s) + 4095) div 4096 * 4096"
    using assms(2) by (intro unat_PGROUNDUP) (simp add: unat_PHYSTOP)
  have top: "unat ?p + 4096 * n = unat PHYSTOP"
    using assms(2) by (simp add: n_def r unat_PHYSTOP)
  have lf: "lock_free KmemLock ?s" by (simp add: lock_free_def initlock_def upd_lock_def)
  have inv: "kmem_inv [] ?s"
    using assms by (simp add: kmem_inv_def initlock_def upd_lock_def)
  have k: "kend ?s = kend s" by (simp add: initlock_def upd_lock_def)
  have al: "?p mod PGSIZE = 0" "kend ?s \<le> ?p" by (simp_all add: page_mod_iff word_le_nat_alt r k)
  obtain s' where s': "freerange_loop ?p PHYSTOP (with_held {} ?s) = Ret () (with_held {} s')"
    "kmem_inv (rev (page_range ?p n) @ []) s'" "kend s' = kend ?s" "locks s' = locks ?s"
    using freerange_loop_frees [OF lf inv al, of PHYSTOP n] top by auto
  have "kinit (with_held {} s) = Ret () (with_held {} s')"
    using s'(1) by (simp add: kinit_def freerange_def initlock_with_held with_held_kmem)
  moreover have "kmem_ready {} (rev (page_range ?p n)) (with_held {} s')"
    using s' lf by (intro kmem_readyI) (simp_all add: lock_free_def)
  ultimately show ?thesis using set_page_range [OF assms(2) n_def] by (metis set_rev)
qed

text \<open>
  \<open>kalloc\<close> on a free list of pages returns the null pointer and changes nothing when the list
  is empty; otherwise it takes the first page off the list, filled with the byte 5, and changes no
  other byte of memory.
\<close>

theorem kalloc_takes_first:
  assumes "kmem_ready H ps s"
  shows "case ps of
      [] \<Rightarrow> kalloc s = Ret 0 s
    | p # ps' \<Rightarrow> \<exists>s'. kalloc s = Ret p s' \<and> p \<noteq> 0 \<and> kmem_ready H ps' s' \<and>
        (\<forall>a. mem s' a = (if unat (a - p) < 4096 then 5 else mem s a))"
  using assms kalloc_ready_empty kalloc_ready_page
  by (cases ps) (fastforce simp: memset_apply)+

text \<open>
  \<open>kfree\<close> panics on an address that is not page-aligned, lies inside the kernel or is beyond
  \<open>PHYSTOP\<close>.  On a page that is not free it returns, the page is then the first free page, and no
  byte outside the page has changed.
\<close>

theorem kfree_checks_and_pushes:
  assumes "kmem_ready H ps s" "p \<notin> set ps"
  shows "if page_ok (kend s) p
    then \<exists>s'. kfree p s = Ret () s' \<and> kmem_ready H (p # ps) s' \<and>
      (\<forall>a. 4096 \<le> unat (a - p) \<longrightarrow> mem s' a = mem s a)
    else kfree p s = Panic ''kfree''"
proof (cases "page_ok (kend s) p")
  case True
  with kfree_ready [OF assms(1) _ assms(2)] show ?thesis
    by (fastforce simp: memset_apply store64_apply)
next
  case False
  then show ?thesis by (simp add: kfree_def page_ok_def not_le not_less)
qed

subsection \<open>Witnesses\<close>

definition zero_lock :: spinlock where
  "zero_lock = \<lparr>locked = 0, lk_name = [], lk_cpu = None\<rparr>"

definition zero_cpu :: cpu where
  "zero_cpu = \<lparr>cpu_proc = None, cpu_context = zero_context, noff = 0, intena = False\<rparr>"

text \<open>A hart that holds nothing, with the given free list in a memory of zeros.\<close>

definition zero_kmem :: "u64 \<Rightarrow> kmem_state" where
  "zero_kmem f = \<lparr>tp = 0, sstatus = (\<lambda>_. 0), cpus = (\<lambda>_. zero_cpu), locks = (\<lambda>_. zero_lock),
     mem = (\<lambda>_. 0), freelist = f, kend = 0x80020000\<rparr>"

lemma load64_zero [simp]: "load64 a (\<lambda>_. 0) = 0"
  by (simp add: load64_def upt_rec)

lemma zero_kmem_ready:
  "kmem_ready {} [] (with_held {} (zero_kmem 0))"
  "kmem_ready {} [0x80021000] (with_held {} (zero_kmem 0x80021000))"
  by (rule kmem_readyI; simp add: zero_kmem_def lock_free_def zero_lock_def kmem_inv_def page_ok_def
      PGSIZE_def PHYSTOP_def KERNBASE_def)+

theorem kinit_frees_all_pages_witness:
  "\<exists>s' ps. kinit (with_held {} (zero_kmem 0)) = Ret () s' \<and> kmem_ready {} ps s' \<and>
    set ps = {p. page_ok 0x80020000 p}"
  using kinit_frees_all_pages [of "zero_kmem 0"]
  by (simp add: zero_kmem_def PHYSTOP_def KERNBASE_def)

theorem kalloc_takes_first_witness:
  "\<exists>s'. kalloc (with_held {} (zero_kmem 0x80021000)) = Ret 0x80021000 s' \<and> kmem_ready {} [] s' \<and>
    (\<forall>a. mem s' a = (if unat (a - 0x80021000) < 4096 then 5 else 0))"
proof -
  have "mem (with_held {} (zero_kmem 0x80021000)) = (\<lambda>_. 0)" by (simp add: with_held_kmem zero_kmem_def)
  with kalloc_takes_first [OF zero_kmem_ready(2)] show ?thesis by (simp cong: if_cong)
qed

theorem kfree_checks_and_pushes_witness:
  "(\<exists>s'. kfree 0x80022000 (with_held {} (zero_kmem 0x80021000)) = Ret () s' \<and>
      kmem_ready {} [0x80022000, 0x80021000] s') \<and>
   kfree 0x80022008 (with_held {} (zero_kmem 0x80021000)) = Panic ''kfree''"
  using kfree_checks_and_pushes [OF zero_kmem_ready(2), of "0x80022000"]
    kfree_checks_and_pushes [OF zero_kmem_ready(2), of "0x80022008"]
  by (auto simp: with_held_kmem zero_kmem_def page_ok_def PGSIZE_def PHYSTOP_def KERNBASE_def)

end
