(* ===== verification/Vm.thy ===== *)
theory Vm
  imports Kalloc
begin

text \<open>
  Page tables, \<open>kernel/vm.c\<close>, with the Sv39 macros of \<open>kernel/riscv.h\<close>.  Page tables are kept, as in
  the code, in the pages \<open>kalloc\<close> returns: a table is 512 64-bit entries of \<open>mem\<close>.

  The kernel-side buffer of \<open>copyout\<close>, \<open>copyin\<close> and \<open>copyinstr\<close> is an object of its own (a struct
  field, a stack variable, a cached block), so it is a list of bytes: the argument \<open>src\<close> of
  \<open>copyout\<close>, and the bytes written from \<open>dst\<close> on, part of the result, of \<open>copyin\<close> and \<open>copyinstr\<close>.
\<close>

section \<open>Sv39 constants and macros\<close>

definition PTE_V :: u64 where "PTE_V = push_bit 0 1"
definition PTE_R :: u64 where "PTE_R = push_bit 1 1"
definition PTE_W :: u64 where "PTE_W = push_bit 2 1"
definition PTE_X :: u64 where "PTE_X = push_bit 3 1"
definition PTE_U :: u64 where "PTE_U = push_bit 4 1"

definition PA2PTE :: "u64 \<Rightarrow> u64" where "PA2PTE pa = push_bit 10 (drop_bit 12 pa)"
definition PTE2PA :: "u64 \<Rightarrow> u64" where "PTE2PA pte = push_bit 12 (drop_bit 10 pte)"
definition PTE_FLAGS :: "u64 \<Rightarrow> u64" where "PTE_FLAGS pte = pte AND 0x3FF"

definition PXMASK :: u64 where "PXMASK = 0x1FF"
definition PXSHIFT :: "nat \<Rightarrow> nat" where "PXSHIFT level = 12 + 9 * level"
definition PX :: "nat \<Rightarrow> u64 \<Rightarrow> u64" where "PX level va = drop_bit (PXSHIFT level) va AND PXMASK"
definition MAXVA :: u64 where "MAXVA = push_bit (9 + 9 + 9 + 12 - 1) 1"

definition TRAMPOLINE :: u64 where "TRAMPOLINE = MAXVA - PGSIZE"
definition TRAPFRAME :: u64 where "TRAPFRAME = TRAMPOLINE - PGSIZE"
definition KSTACK :: "u64 \<Rightarrow> u64" where "KSTACK p = TRAMPOLINE - (p + 1) * 2 * PGSIZE"

definition UART0 :: u64 where "UART0 = 0x10000000"
definition VIRTIO0 :: u64 where "VIRTIO0 = 0x10001000"
definition PLIC :: u64 where "PLIC = 0x0c000000"

definition SATP_SV39 :: u64 where "SATP_SV39 = push_bit 60 8"
definition MAKE_SATP :: "u64 \<Rightarrow> u64" where "MAKE_SATP pagetable = SATP_SV39 OR drop_bit 12 pagetable"

definition NPROC :: nat where "NPROC = 2000"

section \<open>State\<close>

text \<open>
  \<open>etext\<close> and \<open>trampoline\<close> are symbols of the linker script; \<open>satp\<close> is the page-table register of
  each hart.
\<close>

record vm_state = kmem_state +
  kernel_pagetable :: u64
  etext :: u64
  trampoline :: u64
  satp :: "nat \<Rightarrow> u64"

section \<open>\<open>walk\<close> and \<open>mappages\<close>\<close>

text \<open>The loop of \<open>walk\<close> from a level down to level 0.  The null pointer is 0.\<close>

fun walk_loop :: "nat \<Rightarrow> u64 \<Rightarrow> u64 \<Rightarrow> bool \<Rightarrow> 'a kmem_state_scheme \<Rightarrow> ('a kmem_state_scheme, u64) outcome" where
  "walk_loop 0 pagetable va alloc s = Ret (pagetable + 8 * PX 0 va) s"
| "walk_loop (Suc l) pagetable va alloc s =
     (let pte = pagetable + 8 * PX (Suc l) va in
      if load64 pte (mem s) AND PTE_V \<noteq> 0
      then walk_loop l (PTE2PA (load64 pte (mem s))) va alloc s
      else if \<not> alloc then Ret 0 s
      else bnd (kalloc s) (\<lambda>pagetable s.
        if pagetable = 0 then Ret 0 s
        else let s = s\<lparr>mem := memset pagetable 0 (ucast PGSIZE) (mem s)\<rparr>;
                 s = s\<lparr>mem := store64 pte (PA2PTE pagetable OR PTE_V) (mem s)\<rparr>
             in walk_loop l pagetable va alloc s))"

definition walk :: "u64 \<Rightarrow> u64 \<Rightarrow> bool \<Rightarrow> 'a kmem_state_scheme \<Rightarrow> ('a kmem_state_scheme, u64) outcome" where
  "walk pagetable va alloc s =
     (if va \<ge> MAXVA then Panic ''walk'' else walk_loop 2 pagetable va alloc s)"

definition walkaddr :: "u64 \<Rightarrow> u64 \<Rightarrow> 'a kmem_state_scheme \<Rightarrow> ('a kmem_state_scheme, u64) outcome" where
  "walkaddr pagetable va s =
     (if va \<ge> MAXVA then Ret 0 s
      else bnd (walk pagetable va False s) (\<lambda>pte s.
        if pte = 0 then Ret 0 s
        else if load64 pte (mem s) AND PTE_V = 0 then Ret 0 s
        else if load64 pte (mem s) AND PTE_U = 0 then Ret 0 s
        else Ret (PTE2PA (load64 pte (mem s))) s))"

text \<open>The loops over the pages of a range end because \<open>walk\<close> panics from \<open>MAXVA\<close> on.\<close>

lemma walk_Ret_MAXVA: "walk pagetable va alloc s = Ret pte t \<Longrightarrow> va < MAXVA"
  by (auto simp: walk_def split: if_splits)

lemma unat_MAXVA: "unat MAXVA = 274877906944"
  by (simp add: MAXVA_def)

lemma MAXVA_step:
  assumes "a < MAXVA"
  shows "unat (a + PGSIZE) = unat a + 4096" "unat MAXVA + 4096 - unat (a + PGSIZE) < unat MAXVA + 4096 - unat a"
proof -
  have "unat a < unat MAXVA" using assms by (simp add: word_less_nat_alt)
  then show "unat (a + PGSIZE) = unat a + 4096"
    by (simp add: PGSIZE_def unat_MAXVA unat_plus_if')
  with \<open>unat a < unat MAXVA\<close> show "unat MAXVA + 4096 - unat (a + PGSIZE) < unat MAXVA + 4096 - unat a"
    by simp
qed

function mappages_loop ::
    "u64 \<Rightarrow> u64 \<Rightarrow> u64 \<Rightarrow> u64 \<Rightarrow> u64 \<Rightarrow> 'a kmem_state_scheme \<Rightarrow> ('a kmem_state_scheme, i32) outcome" where
  "mappages_loop pagetable a lst pa perm s =
     bnd (walk pagetable a True s) (\<lambda>pte s.
     if pte = 0 then Ret (- 1) s
     else if load64 pte (mem s) AND PTE_V \<noteq> 0 then Panic ''mappages: remap''
     else let s = s\<lparr>mem := store64 pte (PA2PTE pa OR perm OR PTE_V) (mem s)\<rparr>
          in if a = lst then Ret 0 s
             else mappages_loop pagetable (a + PGSIZE) lst (pa + PGSIZE) perm s)"
  by pat_completeness auto
termination
  by (relation "measure (\<lambda>(pagetable, a, lst, pa, perm, s). unat MAXVA + 4096 - unat a)")
     (auto dest!: walk_Ret_MAXVA simp only: in_measure case_prod_conv MAXVA_step(2) wf_measure)

declare mappages_loop.simps [simp del]

definition mappages ::
    "u64 \<Rightarrow> u64 \<Rightarrow> u64 \<Rightarrow> u64 \<Rightarrow> u64 \<Rightarrow> 'a kmem_state_scheme \<Rightarrow> ('a kmem_state_scheme, i32) outcome" where
  "mappages pagetable va sz pa perm s =
     (if va mod PGSIZE \<noteq> 0 then Panic ''mappages: va not aligned''
      else if sz mod PGSIZE \<noteq> 0 then Panic ''mappages: size not aligned''
      else if sz = 0 then Panic ''mappages: size''
      else mappages_loop pagetable va (va + sz - PGSIZE) pa perm s)"

definition kvmmap ::
    "u64 \<Rightarrow> u64 \<Rightarrow> u64 \<Rightarrow> u64 \<Rightarrow> u64 \<Rightarrow> 'a kmem_state_scheme \<Rightarrow> ('a kmem_state_scheme, unit) outcome" where
  "kvmmap kpgtbl va pa sz perm s =
     bnd (mappages kpgtbl va sz pa perm s) (\<lambda>r s. if r \<noteq> 0 then Panic ''kvmmap'' else Ret () s)"

section \<open>User page tables\<close>

function uvmunmap_loop ::
    "u64 \<Rightarrow> u64 \<Rightarrow> u64 \<Rightarrow> bool \<Rightarrow> 'a kmem_state_scheme \<Rightarrow> ('a kmem_state_scheme, unit) outcome" where
  "uvmunmap_loop pagetable a lim do_free s =
     (if \<not> a < lim then Ret () s
      else bnd (walk pagetable a False s) (\<lambda>pte s.
        if pte = 0 then Panic ''uvmunmap: walk''
        else if load64 pte (mem s) AND PTE_V = 0 then Panic ''uvmunmap: not mapped''
        else if PTE_FLAGS (load64 pte (mem s)) = PTE_V then Panic ''uvmunmap: not a leaf''
        else bnd (if do_free then kfree (PTE2PA (load64 pte (mem s))) s else Ret () s) (\<lambda>_ s.
          let s = s\<lparr>mem := store64 pte 0 (mem s)\<rparr>
          in uvmunmap_loop pagetable (a + PGSIZE) lim do_free s)))"
  by pat_completeness auto
termination
  by (relation "measure (\<lambda>(pagetable, a, lim, do_free, s). unat MAXVA + 4096 - unat a)")
     (auto dest!: walk_Ret_MAXVA simp only: in_measure case_prod_conv MAXVA_step(2) wf_measure)

declare uvmunmap_loop.simps [simp del]

definition uvmunmap ::
    "u64 \<Rightarrow> u64 \<Rightarrow> u64 \<Rightarrow> bool \<Rightarrow> 'a kmem_state_scheme \<Rightarrow> ('a kmem_state_scheme, unit) outcome" where
  "uvmunmap pagetable va npages do_free s =
     (if va mod PGSIZE \<noteq> 0 then Panic ''uvmunmap: not aligned''
      else uvmunmap_loop pagetable va (va + npages * PGSIZE) do_free s)"

definition uvmcreate :: "'a kmem_state_scheme \<Rightarrow> ('a kmem_state_scheme, u64) outcome" where
  "uvmcreate s =
     bnd (kalloc s) (\<lambda>pagetable s.
     if pagetable = 0 then Ret 0 s
     else Ret pagetable (s\<lparr>mem := memset pagetable 0 (ucast PGSIZE) (mem s)\<rparr>))"

text \<open>Bytes of a kernel object copied to memory, and bytes of memory copied to one, by \<open>memmove\<close>.\<close>

definition put_bytes :: "u64 \<Rightarrow> u8 list \<Rightarrow> memory \<Rightarrow> memory" where
  "put_bytes a bs m = fold (\<lambda>i m. m(a + of_nat i := bs ! i)) [0..<length bs] m"

definition get_bytes :: "u64 \<Rightarrow> nat \<Rightarrow> memory \<Rightarrow> u8 list" where
  "get_bytes a n m = map (\<lambda>i. m (a + of_nat i)) [0..<n]"

definition uvmfirst :: "u64 \<Rightarrow> u8 list \<Rightarrow> 'a kmem_state_scheme \<Rightarrow> ('a kmem_state_scheme, unit) outcome" where
  "uvmfirst pagetable src s =
     (if length src \<ge> unat PGSIZE then Panic ''uvmfirst: more than a page''
      else bnd (kalloc s) (\<lambda>pa s.
        let s = s\<lparr>mem := memset pa 0 (ucast PGSIZE) (mem s)\<rparr>
        in bnd (mappages pagetable 0 PGSIZE pa (PTE_W OR PTE_R OR PTE_X OR PTE_U) s) (\<lambda>_ s.
        Ret () (s\<lparr>mem := put_bytes pa src (mem s)\<rparr>))))"

text \<open>\<open>npages\<close> is an \<open>int\<close>, converted to \<open>uint64\<close> for the call.\<close>

definition uvmdealloc ::
    "u64 \<Rightarrow> u64 \<Rightarrow> u64 \<Rightarrow> 'a kmem_state_scheme \<Rightarrow> ('a kmem_state_scheme, u64) outcome" where
  "uvmdealloc pagetable oldsz newsz s =
     (if newsz \<ge> oldsz then Ret oldsz s
      else bnd (if PGROUNDUP newsz < PGROUNDUP oldsz
                then let npages = ucast ((PGROUNDUP oldsz - PGROUNDUP newsz) div PGSIZE) :: i32
                     in uvmunmap pagetable (PGROUNDUP newsz) (scast npages) True s
                else Ret () s) (\<lambda>_ s.
        Ret newsz s))"

lemma mappages_Ret_MAXVA: "mappages pagetable va sz pa perm s = Ret r t \<Longrightarrow> va < MAXVA"
  by (subst (asm) mappages_def, subst (asm) mappages_loop.simps)
     (auto split: if_splits elim!: bnd_RetE dest: walk_Ret_MAXVA)

function uvmalloc_loop ::
    "u64 \<Rightarrow> u64 \<Rightarrow> u64 \<Rightarrow> u64 \<Rightarrow> u64 \<Rightarrow> 'a kmem_state_scheme \<Rightarrow> ('a kmem_state_scheme, u64) outcome" where
  "uvmalloc_loop pagetable a oldsz newsz xperm s =
     (if \<not> a < newsz then Ret newsz s
      else bnd (kalloc s) (\<lambda>pa s.
        if pa = 0 then bnd (uvmdealloc pagetable a oldsz s) (\<lambda>_ s. Ret 0 s)
        else let s = s\<lparr>mem := memset pa 0 (ucast PGSIZE) (mem s)\<rparr>
        in bnd (mappages pagetable a PGSIZE pa (PTE_R OR PTE_U OR xperm) s) (\<lambda>r s.
        if r \<noteq> 0 then bnd (kfree pa s) (\<lambda>_ s. bnd (uvmdealloc pagetable a oldsz s) (\<lambda>_ s. Ret 0 s))
        else uvmalloc_loop pagetable (a + PGSIZE) oldsz newsz xperm s)))"
  by pat_completeness auto
termination
  by (relation "measure (\<lambda>(pagetable, a, oldsz, newsz, xperm, s). unat MAXVA + 4096 - unat a)")
     (auto dest!: mappages_Ret_MAXVA simp only: in_measure case_prod_conv MAXVA_step(2) wf_measure)

declare uvmalloc_loop.simps [simp del]

definition uvmalloc ::
    "u64 \<Rightarrow> u64 \<Rightarrow> u64 \<Rightarrow> u64 \<Rightarrow> 'a kmem_state_scheme \<Rightarrow> ('a kmem_state_scheme, u64) outcome" where
  "uvmalloc pagetable oldsz newsz xperm s =
     (if newsz < oldsz then Ret oldsz s
      else uvmalloc_loop pagetable (PGROUNDUP oldsz) (PGROUNDUP oldsz) newsz xperm s)"

text \<open>
  \<open>freewalk\<close>.  The first argument bounds the depth of the recursion, which in a table built by
  \<open>walk\<close> is 3 and in any table without a cycle at most the 32768 pages of RAM; the second is the
  number of entries still to visit.
\<close>

fun freewalk_from :: "nat \<Rightarrow> nat \<Rightarrow> u64 \<Rightarrow> 'a kmem_state_scheme \<Rightarrow> ('a kmem_state_scheme, unit) outcome" where
  "freewalk_from 0 n pagetable s = NoFuel"
| "freewalk_from (Suc d) 0 pagetable s = kfree pagetable s"
| "freewalk_from (Suc d) (Suc n) pagetable s =
     (let i = 512 - Suc n; pte = load64 (pagetable + 8 * of_nat i) (mem s) in
      if pte AND PTE_V \<noteq> 0 \<and> pte AND (PTE_R OR PTE_W OR PTE_X) = 0
      then bnd (freewalk_from d 512 (PTE2PA pte) s) (\<lambda>_ s.
        let s = s\<lparr>mem := store64 (pagetable + 8 * of_nat i) 0 (mem s)\<rparr>
        in freewalk_from (Suc d) n pagetable s)
      else if pte AND PTE_V \<noteq> 0 then Panic ''freewalk: leaf''
      else freewalk_from (Suc d) n pagetable s)"

definition freewalk :: "u64 \<Rightarrow> 'a kmem_state_scheme \<Rightarrow> ('a kmem_state_scheme, unit) outcome" where
  "freewalk pagetable s = freewalk_from 32768 512 pagetable s"

definition uvmfree :: "u64 \<Rightarrow> u64 \<Rightarrow> 'a kmem_state_scheme \<Rightarrow> ('a kmem_state_scheme, unit) outcome" where
  "uvmfree pagetable sz s =
     bnd (if sz > 0 then uvmunmap pagetable 0 (PGROUNDUP sz div PGSIZE) True s else Ret () s) (\<lambda>_ s.
     freewalk pagetable s)"

function uvmcopy_loop ::
    "u64 \<Rightarrow> u64 \<Rightarrow> u64 \<Rightarrow> u64 \<Rightarrow> 'a kmem_state_scheme \<Rightarrow> ('a kmem_state_scheme, i32) outcome" where
  "uvmcopy_loop old new i sz s =
     (if \<not> i < sz then Ret 0 s
      else bnd (walk old i False s) (\<lambda>pte s.
        if pte = 0 then Panic ''uvmcopy: pte should exist''
        else if load64 pte (mem s) AND PTE_V = 0 then Panic ''uvmcopy: page not present''
        else let pa = PTE2PA (load64 pte (mem s)); flags = PTE_FLAGS (load64 pte (mem s))
        in bnd (kalloc s) (\<lambda>pg s.
        if pg = 0 then bnd (uvmunmap new 0 (i div PGSIZE) True s) (\<lambda>_ s. Ret (- 1) s)
        else let s = s\<lparr>mem := memmove pg pa (ucast PGSIZE) (mem s)\<rparr>
        in bnd (mappages new i PGSIZE pg flags s) (\<lambda>r s.
        if r \<noteq> 0
        then bnd (kfree pg s) (\<lambda>_ s. bnd (uvmunmap new 0 (i div PGSIZE) True s) (\<lambda>_ s. Ret (- 1) s))
        else uvmcopy_loop old new (i + PGSIZE) sz s))))"
  by pat_completeness auto
termination
  by (relation "measure (\<lambda>(old, new, i, sz, s). unat MAXVA + 4096 - unat i)")
     (auto dest!: walk_Ret_MAXVA simp only: in_measure case_prod_conv MAXVA_step(2) wf_measure)

declare uvmcopy_loop.simps [simp del]

definition uvmcopy :: "u64 \<Rightarrow> u64 \<Rightarrow> u64 \<Rightarrow> 'a kmem_state_scheme \<Rightarrow> ('a kmem_state_scheme, i32) outcome" where
  "uvmcopy old new sz s = uvmcopy_loop old new 0 sz s"

definition uvmclear :: "u64 \<Rightarrow> u64 \<Rightarrow> 'a kmem_state_scheme \<Rightarrow> ('a kmem_state_scheme, unit) outcome" where
  "uvmclear pagetable va s =
     bnd (walk pagetable va False s) (\<lambda>pte s.
     if pte = 0 then Panic ''uvmclear''
     else Ret () (s\<lparr>mem := store64 pte (load64 pte (mem s) AND NOT PTE_U) (mem s)\<rparr>))"

section \<open>Copying between kernel and user memory\<close>

text \<open>The number of bytes copied in one round: to the end of the page, or what is left.\<close>

definition page_chunk :: "u64 \<Rightarrow> u64 \<Rightarrow> nat" where
  "page_chunk va len = (let n = PGSIZE - (va - PGROUNDDOWN va) in unat (if n > len then len else n))"

lemma page_offset: "unat (va - PGROUNDDOWN va) = unat va mod 4096"
proof -
  have "PGROUNDDOWN va \<le> va" by (simp add: word_le_nat_alt unat_PGROUNDDOWN)
  then have "unat (va - PGROUNDDOWN va) = unat va - unat va div 4096 * 4096"
    by (simp add: unat_sub unat_PGROUNDDOWN word_le_nat_alt)
  then show ?thesis by (simp add: minus_div_mult_eq_mod)
qed

lemma page_chunk_eq: "page_chunk va len = min (4096 - unat va mod 4096) (unat len)"
proof -
  have "unat (va - PGROUNDDOWN va) < 4096" by (simp add: page_offset)
  then have "unat (PGSIZE - (va - PGROUNDDOWN va)) = 4096 - unat va mod 4096"
    by (simp add: PGSIZE_def unat_sub word_le_nat_alt page_offset)
  then show ?thesis by (auto simp: page_chunk_def Let_def word_less_nat_alt min_def)
qed

lemma page_step_less:
  assumes "PGROUNDDOWN va < MAXVA"
  shows "unat MAXVA + 4096 - unat (PGROUNDDOWN (PGROUNDDOWN va + PGSIZE)) < unat MAXVA + 4096 - unat (PGROUNDDOWN va)"
proof -
  have "unat (PGROUNDDOWN (PGROUNDDOWN va + PGSIZE)) = unat (PGROUNDDOWN va + PGSIZE)"
    using MAXVA_step(1) [OF assms] by (simp add: unat_PGROUNDDOWN)
  with MAXVA_step(2) [OF assms] show ?thesis by simp
qed

function copyout ::
    "u64 \<Rightarrow> u64 \<Rightarrow> u8 list \<Rightarrow> 'a kmem_state_scheme \<Rightarrow> ('a kmem_state_scheme, i32) outcome" where
  "copyout pagetable dstva src s =
     (if src = [] then Ret 0 s
      else let va0 = PGROUNDDOWN dstva in
      if va0 \<ge> MAXVA then Ret (- 1) s
      else bnd (walk pagetable va0 False s) (\<lambda>pte s.
        if pte = 0 \<or> load64 pte (mem s) AND PTE_V = 0 \<or> load64 pte (mem s) AND PTE_U = 0 \<or>
           load64 pte (mem s) AND PTE_W = 0
        then Ret (- 1) s
        else let pa0 = PTE2PA (load64 pte (mem s));
                 n = page_chunk dstva (of_nat (length src));
                 s = s\<lparr>mem := put_bytes (pa0 + (dstva - va0)) (take n src) (mem s)\<rparr>
             in copyout pagetable (va0 + PGSIZE) (drop n src) s))"
  by pat_completeness auto
termination
  by (relation "measure (\<lambda>(pagetable, va, src, s). unat MAXVA + 4096 - unat (PGROUNDDOWN va))")
     (simp_all add: page_step_less not_le)

declare copyout.simps [simp del]

lemma walkaddr_Ret_MAXVA: "walkaddr pagetable va s = Ret pa t \<Longrightarrow> pa \<noteq> 0 \<Longrightarrow> va < MAXVA"
  by (auto simp: walkaddr_def split: if_splits)

text \<open>The result of \<open>copyin\<close>: its return value and the bytes it has written from \<open>dst\<close> on.\<close>

function copyin ::
    "u64 \<Rightarrow> u64 \<Rightarrow> u64 \<Rightarrow> 'a kmem_state_scheme \<Rightarrow> ('a kmem_state_scheme, i32 \<times> u8 list) outcome" where
  "copyin pagetable srcva len s =
     (if \<not> len > 0 then Ret (0, []) s
      else let va0 = PGROUNDDOWN srcva in
      bnd (walkaddr pagetable va0 s) (\<lambda>pa0 s.
      if pa0 = 0 then Ret (- 1, []) s
      else let n = page_chunk srcva len;
               bs = get_bytes (pa0 + (srcva - va0)) n (mem s)
      in bnd (copyin pagetable (va0 + PGSIZE) (len - of_nat n) s) (\<lambda>(r, bs') s.
         Ret (r, bs @ bs') s)))"
  by pat_completeness auto
termination
  by (relation "measure (\<lambda>(pagetable, va, len, s). unat MAXVA + 4096 - unat (PGROUNDDOWN va))")
     (auto dest!: walkaddr_Ret_MAXVA simp only: in_measure case_prod_conv page_step_less wf_measure)

declare copyin.simps [simp del]

text \<open>
  The inner loop of \<open>copyinstr\<close> on the \<open>n\<close> bytes from \<open>p\<close> on: whether it found a NUL, and the bytes
  it has written to \<open>dst\<close>.
\<close>

fun copyinstr_page :: "u64 \<Rightarrow> nat \<Rightarrow> memory \<Rightarrow> bool \<times> u8 list" where
  "copyinstr_page p 0 m = (False, [])"
| "copyinstr_page p (Suc n) m =
     (if m p = 0 then (True, [0])
      else let (got_null, bs) = copyinstr_page (p + 1) n m in (got_null, m p # bs))"

function copyinstr ::
    "u64 \<Rightarrow> u64 \<Rightarrow> u64 \<Rightarrow> 'a kmem_state_scheme \<Rightarrow> ('a kmem_state_scheme, i32 \<times> u8 list) outcome" where
  "copyinstr pagetable srcva mx s =
     (if \<not> mx > 0 then Ret (- 1, []) s
      else let va0 = PGROUNDDOWN srcva in
      bnd (walkaddr pagetable va0 s) (\<lambda>pa0 s.
      if pa0 = 0 then Ret (- 1, []) s
      else let n = page_chunk srcva mx;
               (got_null, bs) = copyinstr_page (pa0 + (srcva - va0)) n (mem s)
      in if got_null then Ret (0, bs) s
         else bnd (copyinstr pagetable (va0 + PGSIZE) (mx - of_nat n) s) (\<lambda>(r, bs') s.
           Ret (r, bs @ bs') s)))"
  by pat_completeness auto
termination
  by (relation "measure (\<lambda>(pagetable, va, mx, s). unat MAXVA + 4096 - unat (PGROUNDDOWN va))")
     (auto dest!: walkaddr_Ret_MAXVA simp only: in_measure case_prod_conv page_step_less wf_measure)

declare copyinstr.simps [simp del]

section \<open>The kernel's page table\<close>

fun proc_mapstacks_loop ::
    "nat list \<Rightarrow> u64 \<Rightarrow> 'a kmem_state_scheme \<Rightarrow> ('a kmem_state_scheme, unit) outcome" where
  "proc_mapstacks_loop [] kpgtbl s = Ret () s"
| "proc_mapstacks_loop (p # ps) kpgtbl s =
     bnd (kalloc s) (\<lambda>pa s.
     if pa = 0 then Panic ''kalloc''
     else bnd (kvmmap kpgtbl (KSTACK (of_nat p)) pa PGSIZE (PTE_R OR PTE_W) s) (\<lambda>_ s.
       proc_mapstacks_loop ps kpgtbl s))"

definition proc_mapstacks :: "u64 \<Rightarrow> 'a kmem_state_scheme \<Rightarrow> ('a kmem_state_scheme, unit) outcome" where
  "proc_mapstacks kpgtbl s = proc_mapstacks_loop [0..<NPROC] kpgtbl s"

definition kvmmake :: "'a vm_state_scheme \<Rightarrow> ('a vm_state_scheme, u64) outcome" where
  "kvmmake s =
     bnd (kalloc s) (\<lambda>kpgtbl s.
     let s = s\<lparr>mem := memset kpgtbl 0 (ucast PGSIZE) (mem s)\<rparr>
     in bnd (kvmmap kpgtbl UART0 UART0 PGSIZE (PTE_R OR PTE_W) s) (\<lambda>_ s.
        bnd (kvmmap kpgtbl VIRTIO0 VIRTIO0 PGSIZE (PTE_R OR PTE_W) s) (\<lambda>_ s.
        bnd (kvmmap kpgtbl PLIC PLIC 0x4000000 (PTE_R OR PTE_W) s) (\<lambda>_ s.
        bnd (kvmmap kpgtbl KERNBASE KERNBASE (etext s - KERNBASE) (PTE_R OR PTE_X) s) (\<lambda>_ s.
        bnd (kvmmap kpgtbl (etext s) (etext s) (PHYSTOP - etext s) (PTE_R OR PTE_W) s) (\<lambda>_ s.
        bnd (kvmmap kpgtbl TRAMPOLINE (trampoline s) PGSIZE (PTE_R OR PTE_X) s) (\<lambda>_ s.
        bnd (proc_mapstacks kpgtbl s) (\<lambda>_ s.
        Ret kpgtbl s))))))))"

definition kvminit :: "'a vm_state_scheme \<Rightarrow> ('a vm_state_scheme, unit) outcome" where
  "kvminit s = bnd (kvmmake s) (\<lambda>kpgtbl s. Ret () (s\<lparr>kernel_pagetable := kpgtbl\<rparr>))"

text \<open>\<open>sfence_vma\<close> flushes the hardware's cache of translations, which the model does not have.\<close>

definition kvminithart :: "'a vm_state_scheme \<Rightarrow> ('a vm_state_scheme, unit) outcome" where
  "kvminithart s = Ret () (s\<lparr>satp := (satp s)(tp s := MAKE_SATP (kernel_pagetable s))\<rparr>)"

end
