(* ===== verification/Proc.thy ===== *)
theory Proc
  imports Vm
begin

text \<open>
  The process table, \<open>kernel/proc.h\<close> and the first part of \<open>kernel/proc.c\<close>: the data of a process,
  the queues of the MLFQ policy, and the operations that create and destroy a table entry.

  A pointer \<open>struct proc *\<close> is an index into the table \<open>proc[NPROC]\<close>; \<open>None\<close> is the null pointer.
  A pointer \<open>struct file *\<close> or \<open>struct inode *\<close> is an index into \<open>ftable.file\<close> or \<open>itable.inode\<close>.
  The trap frame of a process is the page of memory at \<open>p_trapframe\<close>.
\<close>

section \<open>Data\<close>

datatype procstate = UNUSED | USED | SLEEPING | RUNNABLE | RUNNING | ZOMBIE

text \<open>The fields of \<open>struct trapframe\<close> and their offsets in the page.\<close>

datatype tf_field =
    TF_kernel_satp | TF_kernel_sp | TF_kernel_trap | TF_epc | TF_kernel_hartid
  | TF_ra | TF_sp | TF_gp | TF_tp | TF_t0 | TF_t1 | TF_t2 | TF_s0 | TF_s1
  | TF_a0 | TF_a1 | TF_a2 | TF_a3 | TF_a4 | TF_a5 | TF_a6 | TF_a7
  | TF_s2 | TF_s3 | TF_s4 | TF_s5 | TF_s6 | TF_s7 | TF_s8 | TF_s9 | TF_s10 | TF_s11
  | TF_t3 | TF_t4 | TF_t5 | TF_t6

fun tf_off :: "tf_field \<Rightarrow> u64" where
  "tf_off TF_kernel_satp = 0"
| "tf_off TF_kernel_sp = 8"
| "tf_off TF_kernel_trap = 16"
| "tf_off TF_epc = 24"
| "tf_off TF_kernel_hartid = 32"
| "tf_off TF_ra = 40"
| "tf_off TF_sp = 48"
| "tf_off TF_gp = 56"
| "tf_off TF_tp = 64"
| "tf_off TF_t0 = 72"
| "tf_off TF_t1 = 80"
| "tf_off TF_t2 = 88"
| "tf_off TF_s0 = 96"
| "tf_off TF_s1 = 104"
| "tf_off TF_a0 = 112"
| "tf_off TF_a1 = 120"
| "tf_off TF_a2 = 128"
| "tf_off TF_a3 = 136"
| "tf_off TF_a4 = 144"
| "tf_off TF_a5 = 152"
| "tf_off TF_a6 = 160"
| "tf_off TF_a7 = 168"
| "tf_off TF_s2 = 176"
| "tf_off TF_s3 = 184"
| "tf_off TF_s4 = 192"
| "tf_off TF_s5 = 200"
| "tf_off TF_s6 = 208"
| "tf_off TF_s7 = 216"
| "tf_off TF_s8 = 224"
| "tf_off TF_s9 = 232"
| "tf_off TF_s10 = 240"
| "tf_off TF_s11 = 248"
| "tf_off TF_t3 = 256"
| "tf_off TF_t4 = 264"
| "tf_off TF_t5 = 272"
| "tf_off TF_t6 = 280"

definition sizeof_trapframe :: u32 where "sizeof_trapframe = 288"

text \<open>\<open>struct proc\<close>; its lock is \<open>ProcLock\<close> of the index.\<close>

record proc =
  p_state :: procstate
  p_chan :: "chan option"
  p_killed :: i32
  p_xstate :: i32
  p_pid :: i32
  p_parent :: "nat option"
  p_kstack :: u64
  p_sz :: u64
  p_pagetable :: u64
  p_trapframe :: u64
  p_context :: kcontext
  p_ofile :: "nat option list"
  p_cwd :: "nat option"
  p_name :: "u8 list"
  p_arrival_time :: i32
  p_priority :: i32
  p_last_runtime :: i32
  p_runtime_start_ticks :: i32
  p_queue_level :: i32
  p_time_slice :: i32
  p_total_ticks :: i32
  p_ready_time :: i32
  p_run_start_time :: i32
  p_waiting_time :: i32

definition QUEUE_LEVELS :: nat where "QUEUE_LEVELS = 3"
definition NOFILE :: nat where "NOFILE = 16"

definition SCHED_RR :: i32 where "SCHED_RR = 0"
definition SCHED_FCFS :: i32 where "SCHED_FCFS = 1"
definition SCHED_PRIORITY :: i32 where "SCHED_PRIORITY = 2"
definition SCHED_HRRN :: i32 where "SCHED_HRRN = 3"
definition SCHED_MLFQ :: i32 where "SCHED_MLFQ = 4"

text \<open>
  The global variables of \<open>proc.c\<close>, and \<open>ticks\<close> of \<open>trap.c\<close>.  \<open>queue\<close> and \<open>qsize\<close> are the arrays of
  \<open>mlfq\<close>; a queue size is at most \<open>NPROC\<close>, so a natural number.  \<open>forkret_addr\<close> is the address of the
  function \<open>forkret\<close>.
\<close>

record proc_state = vm_state +
  procs :: "nat \<Rightarrow> proc"
  nextpid :: i32
  initproc :: "nat option"
  ticks :: u32
  current_policy :: i32
  queue :: "nat \<Rightarrow> nat \<Rightarrow> nat option"
  qsize :: "nat \<Rightarrow> nat"
  forkret_addr :: u64

text \<open>An assignment to fields of \<open>proc[p]\<close>.\<close>

definition upd_proc :: "nat \<Rightarrow> (proc \<Rightarrow> proc) \<Rightarrow> 'a proc_state_scheme \<Rightarrow> 'a proc_state_scheme" where
  "upd_proc p f s = s\<lparr>procs := (procs s)(p := f (procs s p))\<rparr>"

text \<open>The bytes of a string literal, without the terminating NUL.\<close>

definition cstr :: "string \<Rightarrow> u8 list" where
  "cstr cs = map (\<lambda>c. of_nat (of_char c)) cs"

section \<open>Initialisation\<close>

definition mlfq_init :: "'a proc_state_scheme \<Rightarrow> 'a proc_state_scheme" where
  "mlfq_init s =
     (let s = initlock MlfqLock ''mlfq'' s
      in fold (\<lambda>i s.
           let s = s\<lparr>qsize := (qsize s)(i := 0)\<rparr>
           in fold (\<lambda>j s. s\<lparr>queue := (queue s)(i := (queue s i)(j := None))\<rparr>) [0..<NPROC] s)
         [0..<QUEUE_LEVELS] s)"

definition procinit :: "'a proc_state_scheme \<Rightarrow> 'a proc_state_scheme" where
  "procinit s =
     (let s = initlock PidLock ''nextpid'' s;
          s = initlock WaitLock ''wait_lock'' s;
          s = fold (\<lambda>p s.
                let s = initlock (ProcLock p) ''proc'' s;
                    s = upd_proc p (\<lambda>x. x\<lparr>p_state := UNUSED\<rparr>) s
                in upd_proc p (\<lambda>x. x\<lparr>p_kstack := KSTACK (of_nat p)\<rparr>) s) [0..<NPROC] s
      in mlfq_init s)"

section \<open>The current process\<close>

definition myproc :: "'a hart_state_scheme \<Rightarrow> ('a hart_state_scheme, nat option) outcome" where
  "myproc s =
     (let s = push_off s; p = cpu_proc (mycpu s)
      in bnd (pop_off s) (\<lambda>_ s. Ret p s))"

text \<open>
  The current process where the code dereferences the pointer: with the null pointer the access
  faults, and \<open>kerneltrap\<close> panics.
\<close>

definition curproc :: "'a hart_state_scheme \<Rightarrow> ('a hart_state_scheme, nat) outcome" where
  "curproc s = bnd (myproc s) (\<lambda>p s. case p of None \<Rightarrow> Panic ''kerneltrap'' | Some p \<Rightarrow> Ret p s)"

definition allocpid :: "'a proc_state_scheme \<Rightarrow> ('a proc_state_scheme, i32) outcome" where
  "allocpid s =
     bnd (acquire PidLock s) (\<lambda>_ s.
     let pid = nextpid s;
         s = s\<lparr>nextpid := nextpid s + 1\<rparr>
     in bnd (release PidLock s) (\<lambda>_ s. Ret pid s))"

section \<open>Page tables of processes\<close>

definition proc_pagetable :: "nat \<Rightarrow> 'a proc_state_scheme \<Rightarrow> ('a proc_state_scheme, u64) outcome" where
  "proc_pagetable p s =
     bnd (uvmcreate s) (\<lambda>pagetable s.
     if pagetable = 0 then Ret 0 s
     else bnd (mappages pagetable TRAMPOLINE PGSIZE (trampoline s) (PTE_R OR PTE_X) s) (\<lambda>r s.
     if r <s 0 then bnd (uvmfree pagetable 0 s) (\<lambda>_ s. Ret 0 s)
     else bnd (mappages pagetable TRAPFRAME PGSIZE (p_trapframe (procs s p)) (PTE_R OR PTE_W) s) (\<lambda>r s.
     if r <s 0
     then bnd (uvmunmap pagetable TRAMPOLINE 1 False s) (\<lambda>_ s.
          bnd (uvmfree pagetable 0 s) (\<lambda>_ s. Ret 0 s))
     else Ret pagetable s)))"

definition proc_freepagetable :: "u64 \<Rightarrow> u64 \<Rightarrow> 'a kmem_state_scheme \<Rightarrow> ('a kmem_state_scheme, unit) outcome" where
  "proc_freepagetable pagetable sz s =
     bnd (uvmunmap pagetable TRAMPOLINE 1 False s) (\<lambda>_ s.
     bnd (uvmunmap pagetable TRAPFRAME 1 False s) (\<lambda>_ s.
     uvmfree pagetable sz s))"

section \<open>Table entries\<close>

definition freeproc :: "nat \<Rightarrow> 'a proc_state_scheme \<Rightarrow> ('a proc_state_scheme, unit) outcome" where
  "freeproc p s =
     bnd (if p_trapframe (procs s p) \<noteq> 0 then kfree (p_trapframe (procs s p)) s else Ret () s) (\<lambda>_ s.
     let s = upd_proc p (\<lambda>x. x\<lparr>p_trapframe := 0\<rparr>) s
     in bnd (if p_pagetable (procs s p) \<noteq> 0
             then proc_freepagetable (p_pagetable (procs s p)) (p_sz (procs s p)) s
             else Ret () s) (\<lambda>_ s.
     Ret () (upd_proc p (\<lambda>x. x\<lparr>p_pagetable := 0, p_sz := 0, p_pid := 0, p_parent := None,
       p_name := (p_name x)[0 := 0], p_chan := None, p_killed := 0, p_xstate := 0,
       p_state := UNUSED\<rparr>) s)))"

text \<open>The search for an unused entry; it returns with the entry's lock held.\<close>

fun allocproc_scan :: "nat list \<Rightarrow> 'a proc_state_scheme \<Rightarrow> ('a proc_state_scheme, nat option) outcome" where
  "allocproc_scan [] s = Ret None s"
| "allocproc_scan (p # ps) s =
     bnd (acquire (ProcLock p) s) (\<lambda>_ s.
     if p_state (procs s p) = UNUSED then Ret (Some p) s
     else bnd (release (ProcLock p) s) (\<lambda>_ s. allocproc_scan ps s))"

definition allocproc_found :: "nat \<Rightarrow> 'a proc_state_scheme \<Rightarrow> ('a proc_state_scheme, nat option) outcome" where
  "allocproc_found p s =
     bnd (allocpid s) (\<lambda>pid s.
     let s = upd_proc p (\<lambda>x. x\<lparr>p_pid := pid\<rparr>) s;
         s = upd_proc p (\<lambda>x. x\<lparr>p_state := USED\<rparr>) s
     in bnd (kalloc s) (\<lambda>tf s.
     let s = upd_proc p (\<lambda>x. x\<lparr>p_trapframe := tf\<rparr>) s
     in if tf = 0
        then bnd (freeproc p s) (\<lambda>_ s. bnd (release (ProcLock p) s) (\<lambda>_ s. Ret None s))
     else bnd (proc_pagetable p s) (\<lambda>pt s.
     let s = upd_proc p (\<lambda>x. x\<lparr>p_pagetable := pt\<rparr>) s
     in if pt = 0
        then bnd (freeproc p s) (\<lambda>_ s. bnd (release (ProcLock p) s) (\<lambda>_ s. Ret None s))
     else
     let s = upd_proc p (\<lambda>x. x\<lparr>p_context :=
               zero_context\<lparr>c_ra := forkret_addr s, c_sp := p_kstack x + PGSIZE\<rparr>\<rparr>) s;
         s = upd_proc p (\<lambda>x. x\<lparr>p_arrival_time := ticks s, p_priority := 10, p_last_runtime := 1,
               p_queue_level := 0, p_time_slice := 0, p_total_ticks := 0,
               p_name := safestrcpy (p_name x) (cstr ''unknown'') 16\<rparr>) s
     in Ret (Some p) s)))"

definition allocproc :: "'a proc_state_scheme \<Rightarrow> ('a proc_state_scheme, nat option) outcome" where
  "allocproc s =
     bnd (allocproc_scan [0..<NPROC] s) (\<lambda>found s.
     case found of None \<Rightarrow> Ret None s | Some p \<Rightarrow> allocproc_found p s)"

end
