(* ===== verification/Mlfq.thy ===== *)
theory Mlfq
  imports Proc "HOL-Library.Multiset"
begin

text \<open>
  The three queues of the MLFQ policy: \<open>enqueue_to_mlfq\<close> and \<open>compact_queue\<close> of \<open>kernel/proc.c\<close>,
  and their refinement of operations on lists.
\<close>

section \<open>Operations\<close>

text \<open>
  The loops work on one row \<open>q\<close> of \<open>mlfq.queue\<close> and its size \<open>n\<close>: the inner loop of
  \<open>enqueue_to_mlfq\<close> closes the gap at \<open>i\<close>, the outer one looks for the process.
\<close>

definition mlfq_shift :: "nat \<Rightarrow> nat \<Rightarrow> (nat \<Rightarrow> nat option) \<Rightarrow> nat \<Rightarrow> nat option" where
  "mlfq_shift i n q = fold (\<lambda>j q. q(j := q (j + 1))) [i..<n - 1] q"

fun mlfq_remove :: "nat \<Rightarrow> nat list \<Rightarrow> (nat \<Rightarrow> nat option) \<Rightarrow> nat \<Rightarrow> (nat \<Rightarrow> nat option) \<times> nat" where
  "mlfq_remove p [] q n = (q, n)"
| "mlfq_remove p (i # is) q n =
     (if q i = Some p then (mlfq_shift i n q, n - 1) else mlfq_remove p is q n)"

definition enqueue_to_mlfq :: "nat \<Rightarrow> 'a proc_state_scheme \<Rightarrow> ('a proc_state_scheme, unit) outcome" where
  "enqueue_to_mlfq p s =
     (let level = unat (p_queue_level (procs s p));
          (q, n) = mlfq_remove p [0..<qsize s level] (queue s level) (qsize s level);
          s = s\<lparr>queue := (queue s)(level := q), qsize := (qsize s)(level := n)\<rparr>
      in if qsize s level < NPROC
         then Ret () (s\<lparr>queue := (queue s)(level := (queue s level)(qsize s level := Some p)),
                        qsize := (qsize s)(level := qsize s level + 1)\<rparr>)
         else Panic ''MLFQ: queue full'')"

fun compact_loop :: "nat list \<Rightarrow> nat \<Rightarrow> (nat \<Rightarrow> nat option) \<Rightarrow> (nat \<Rightarrow> nat option) \<times> nat" where
  "compact_loop [] j q = (q, j)"
| "compact_loop (i # is) j q =
     (if q i \<noteq> None then compact_loop is (j + 1) (q(j := q i)) else compact_loop is j q)"

definition compact_queue :: "nat \<Rightarrow> 'a proc_state_scheme \<Rightarrow> 'a proc_state_scheme" where
  "compact_queue level s =
     (let (q, j) = compact_loop [0..<qsize s level] 0 (queue s level)
      in s\<lparr>queue := (queue s)(level := q), qsize := (qsize s)(level := j)\<rparr>)"

section \<open>Rows as lists\<close>

definition row :: "(nat \<Rightarrow> 'b) \<Rightarrow> nat \<Rightarrow> 'b list" where
  "row q n = map q [0..<n]"

lemma length_row [simp]: "length (row q n) = n"
  by (simp add: row_def)

lemma nth_row [simp]: "i < n \<Longrightarrow> row q n ! i = q i"
  by (simp add: row_def)

lemma row_Suc: "row q (Suc n) = row q n @ [q n]"
  by (simp add: row_def)

lemma row_upd_end: "row (q(n := x)) (Suc n) = row q n @ [x]"
  by (simp add: row_def)

lemma mlfq_shift_apply:
  "i < n \<Longrightarrow> mlfq_shift i n q k = (if i \<le> k \<and> k < n - 1 then q (k + 1) else q k)"
proof -
  have "fold (\<lambda>j q. q(j := q (j + 1))) [i..<m] q k = (if i \<le> k \<and> k < m then q (k + 1) else q k)"
    if "i \<le> m" for m
    using that
  proof (induction m arbitrary: k rule: dec_induct)
    case (step m)
    then show ?case by (auto simp: less_Suc_eq)
  qed auto
  then show "i < n \<Longrightarrow> ?thesis" by (simp add: mlfq_shift_def)
qed

lemma row_shift:
  assumes "i < n"
  shows "row (mlfq_shift i n q) (n - 1) = take i (row q n) @ drop (Suc i) (row q n)"
proof (rule nth_equalityI)
  fix k assume "k < length (row (mlfq_shift i n q) (n - 1))"
  with assms show "row (mlfq_shift i n q) (n - 1) ! k = (take i (row q n) @ drop (Suc i) (row q n)) ! k"
    by (auto simp: nth_append mlfq_shift_apply min_def)
qed (use assms in auto)

lemma remove1_split: "x \<notin> set ys \<Longrightarrow> remove1 x (ys @ x # zs) = ys @ zs"
  by (simp add: remove1_append)

text \<open>Looking for the process from index \<open>k\<close> on, when it is not before \<open>k\<close>, removes its first entry.\<close>

lemma mlfq_remove_row:
  assumes "k \<le> n" "Some p \<notin> set (row q k)" "mlfq_remove p [k..<n] q n = (q', n')"
  shows "row q' n' = remove1 (Some p) (row q n)"
  using assms
proof (induction k rule: inc_induct)
  case base
  then show ?case by (simp add: remove1_idem)
next
  case (step k)
  show ?case
  proof (cases "q k = Some p")
    case True
    have "row q n = take k (row q n) @ Some p # drop (Suc k) (row q n)"
      using step.hyps True by (metis id_take_nth_drop length_row nth_row)
    moreover have "take k (row q n) = row q k" using step.hyps by (simp add: row_def take_map)
    ultimately have "remove1 (Some p) (row q n) = take k (row q n) @ drop (Suc k) (row q n)"
      using step.prems by (metis remove1_split)
    then show ?thesis using step.hyps step.prems True row_shift [of k n q] by (auto simp: upt_conv_Cons)
  next
    case False
    with step show ?thesis by (auto simp: upt_conv_Cons row_Suc)
  qed
qed

lemma compact_row:
  assumes "j \<le> k" "k \<le> n" "compact_loop [k..<n] j q = (q', j')"
  shows "row q' j' = row q j @ filter (\<lambda>x. x \<noteq> None) (map q [k..<n])"
  using assms(2,1,3)
proof (induction k arbitrary: j q rule: inc_induct)
  case base
  then show ?case by simp
next
  case (step k)
  let ?q = "q(j := q k)"
  have m: "map ?q [Suc k..<n] = map q [Suc k..<n]" using step.prems by simp
  show ?case
  proof (cases "q k")
    case None
    with step show ?thesis by (auto simp: upt_conv_Cons)
  next
    case (Some x)
    then have "row q' j' = row ?q (Suc j) @ filter (\<lambda>x. x \<noteq> None) (map ?q [Suc k..<n])"
      using step.prems step.hyps Some by (intro step.IH) (simp_all add: upt_conv_Cons fun_upd_def)
    with Some show ?thesis
      using step.hyps unfolding m by (simp add: upt_conv_Cons row_upd_end [simplified])
  qed
qed

section \<open>The queues of a state\<close>

definition mlfq_list :: "'a proc_state_scheme \<Rightarrow> nat \<Rightarrow> nat option list" where
  "mlfq_list s level = row (queue s level) (qsize s level)"

definition level_of :: "'a proc_state_scheme \<Rightarrow> nat \<Rightarrow> nat" where
  "level_of s p = unat (p_queue_level (procs s p))"

text \<open>Between operations a queue holds pointers to table entries, each at most once.\<close>

definition queue_ok :: "nat option list \<Rightarrow> bool" where
  "queue_ok xs \<longleftrightarrow> distinct xs \<and> set xs \<subseteq> Some ` {..<NPROC}"

definition mlfq_ok :: "'a proc_state_scheme \<Rightarrow> bool" where
  "mlfq_ok s \<longleftrightarrow> (\<forall>level < QUEUE_LEVELS. queue_ok (mlfq_list s level))"

lemma queue_ok_room:
  assumes "queue_ok xs" "p < NPROC"
  shows "length (remove1 (Some p) xs) < NPROC"
proof -
  let ?ys = "remove1 (Some p) xs"
  have d: "distinct ?ys" "Some p \<notin> set ?ys" "set ?ys \<subseteq> Some ` {..<NPROC}"
    using assms(1) by (auto simp: queue_ok_def distinct_remove1 dest: notin_set_remove1)
  then have "set ?ys \<subseteq> Some ` {..<NPROC} - {Some p}" by auto
  then have "card (set ?ys) \<le> card (Some ` {..<NPROC} - {Some p})" by (intro card_mono) auto
  also have "\<dots> = NPROC - 1" using assms(2) by (simp add: card_image)
  finally show ?thesis using d(1) assms(2) by (simp add: distinct_card)
qed

lemma queue_ok_requeue:
  "queue_ok xs \<Longrightarrow> p < NPROC \<Longrightarrow> queue_ok (remove1 (Some p) xs @ [Some p])"
  by (auto simp: queue_ok_def dest: notin_set_remove1)

lemma enqueue_list:
  assumes "length (remove1 (Some p) (mlfq_list s (level_of s p))) < NPROC"
  obtains q n where "enqueue_to_mlfq p s = Ret () (s\<lparr>queue := q, qsize := n\<rparr>)"
    "\<And>l. mlfq_list (s\<lparr>queue := q, qsize := n\<rparr>) l =
      (if l = level_of s p then remove1 (Some p) (mlfq_list s l) @ [Some p] else mlfq_list s l)"
proof -
  define l where "l = level_of s p"
  obtain q n where r: "mlfq_remove p [0..<qsize s l] (queue s l) (qsize s l) = (q, n)" by fastforce
  then have row: "row q n = remove1 (Some p) (mlfq_list s l)"
    using mlfq_remove_row [of 0 "qsize s l" p "queue s l" q n] by (simp add: mlfq_list_def row_def)
  then have n: "n < NPROC" using assms by (metis length_row l_def)
  let ?q = "(queue s)(l := q(n := Some p))" and ?n = "(qsize s)(l := n + 1)"
  have "enqueue_to_mlfq p s = Ret () (s\<lparr>queue := ?q, qsize := ?n\<rparr>)"
    using r n by (simp add: enqueue_to_mlfq_def Let_def l_def level_of_def)
  moreover have "mlfq_list (s\<lparr>queue := ?q, qsize := ?n\<rparr>) l' =
      (if l' = l then remove1 (Some p) (mlfq_list s l') @ [Some p] else mlfq_list s l')" for l'
    using row by (simp add: mlfq_list_def row_upd_end [simplified] del: fun_upd_apply) (simp add: row_upd_end)
  ultimately show ?thesis using that by (simp add: l_def)
qed

lemma compact_list:
  "mlfq_list (compact_queue level s) l =
     (if l = level then filter (\<lambda>x. x \<noteq> None) (mlfq_list s l) else mlfq_list s l)"
proof -
  obtain q j where r: "compact_loop [0..<qsize s level] 0 (queue s level) = (q, j)" by fastforce
  then have "row q j = filter (\<lambda>x. x \<noteq> None) (mlfq_list s level)"
    using compact_row [of 0 0 "qsize s level" "queue s level" q j] by (simp add: mlfq_list_def row_def)
  then show ?thesis using r by (simp add: compact_queue_def mlfq_list_def)
qed

lemma compact_queue_frame: "\<exists>q n. compact_queue level s = s\<lparr>queue := q, qsize := n\<rparr>"
  by (cases "compact_loop [0..<qsize s level] 0 (queue s level)") (auto simp: compact_queue_def)

section \<open>States with locks held\<close>

lemma with_held_proc [lock_simps]:
  "procs (with_held H s) = procs s" "nextpid (with_held H s) = nextpid s"
  "initproc (with_held H s) = initproc s" "ticks (with_held H s) = ticks s"
  "current_policy (with_held H s) = current_policy s"
  "queue (with_held H s) = queue s" "qsize (with_held H s) = qsize s"
  "(with_held H s)\<lparr>procs := x1\<rparr> = with_held H (s\<lparr>procs := x1\<rparr>)"
  "(with_held H s)\<lparr>nextpid := x2\<rparr> = with_held H (s\<lparr>nextpid := x2\<rparr>)"
  "(with_held H s)\<lparr>initproc := x3\<rparr> = with_held H (s\<lparr>initproc := x3\<rparr>)"
  "(with_held H s)\<lparr>ticks := x4\<rparr> = with_held H (s\<lparr>ticks := x4\<rparr>)"
  "(with_held H s)\<lparr>current_policy := x5\<rparr> = with_held H (s\<lparr>current_policy := x5\<rparr>)"
  "(with_held H s)\<lparr>queue := x6\<rparr> = with_held H (s\<lparr>queue := x6\<rparr>)"
  "(with_held H s)\<lparr>qsize := x7\<rparr> = with_held H (s\<lparr>qsize := x7\<rparr>)"
  by (simp_all add: with_held_def intr_get_def r_sstatus_def cong: if_cong)

lemma lock_free_proc [lock_simps]:
  "lock_free k (s\<lparr>procs := x1\<rparr>) = lock_free k s" "lock_free k (s\<lparr>nextpid := x2\<rparr>) = lock_free k s"
  "lock_free k (s\<lparr>initproc := x3\<rparr>) = lock_free k s" "lock_free k (s\<lparr>ticks := x4\<rparr>) = lock_free k s"
  "lock_free k (s\<lparr>current_policy := x5\<rparr>) = lock_free k s"
  "lock_free k (s\<lparr>queue := x6\<rparr>) = lock_free k s" "lock_free k (s\<lparr>qsize := x7\<rparr>) = lock_free k s"
  by (simp_all add: lock_free_def)

lemma upd_proc_with_held [lock_simps]: "upd_proc p f (with_held H s) = with_held H (upd_proc p f s)"
  by (simp add: upd_proc_def lock_simps)

lemma lock_free_upd_proc [lock_simps]: "lock_free k (upd_proc p f s) = lock_free k s"
  by (simp add: upd_proc_def lock_simps)

lemma upd_proc_sel [simp]:
  "procs (upd_proc p f s) = (procs s)(p := f (procs s p))"
  "queue (upd_proc p f s) = queue s" "qsize (upd_proc p f s) = qsize s"
  "ticks (upd_proc p f s) = ticks s" "current_policy (upd_proc p f s) = current_policy s"
  "nextpid (upd_proc p f s) = nextpid s" "initproc (upd_proc p f s) = initproc s"
  "mem (upd_proc p f s) = mem s" "freelist (upd_proc p f s) = freelist s" "kend (upd_proc p f s) = kend s"
  "tp (upd_proc p f s) = tp s" "cpus (upd_proc p f s) = cpus s" "locks (upd_proc p f s) = locks s"
  "sstatus (upd_proc p f s) = sstatus s"
  by (simp_all add: upd_proc_def)

lemma mlfq_list_frame [simp]:
  "mlfq_list (upd_proc p f s) = mlfq_list s" "mlfq_list (with_held H s) = mlfq_list s"
  by (simp_all add: mlfq_list_def fun_eq_iff lock_simps)

lemma enqueue_with_held [lock_simps]:
  "enqueue_to_mlfq p (with_held H s) =
     (case enqueue_to_mlfq p s of Ret u t \<Rightarrow> Ret u (with_held H t) | Panic m \<Rightarrow> Panic m
      | Spin l t \<Rightarrow> Spin l t | Swtch r t \<Rightarrow> Swtch r t | NoFuel \<Rightarrow> NoFuel)"
  by (simp add: enqueue_to_mlfq_def Let_def lock_simps split: prod.splits)

lemma myproc_with_held [lock_simps]:
  assumes "finite H"
  shows "myproc (with_held H s) = Ret (cpu_proc (cpus s (tp s))) (with_held H s)"
proof (cases "H = {}")
  case True
  then show ?thesis
    by (cases "cpus s (tp s)") (auto simp: myproc_def push_off_def pop_off_def with_held_def Let_def
        hart_defs SIE_clear_set SIE_clear_id comp_def cong: if_cong)
next
  case False
  with assms show ?thesis
    by (cases "cpus s (tp s)") (auto simp: myproc_def push_off_def pop_off_def with_held_def Let_def
        hart_defs card_gt_0_iff comp_def cong: if_cong)
qed

lemma curproc_with_held [lock_simps]:
  "finite H \<Longrightarrow> cpu_proc (cpus s (tp s)) = Some p \<Longrightarrow> curproc (with_held H s) = Ret p (with_held H s)"
  by (simp add: curproc_def lock_simps)

section \<open>Requeueing as an interface\<close>

text \<open>
  A round-robin queue: \<open>enq p\<close> moves \<open>p\<close> to the back, or appends it.  The lemma says that waiting
  is bounded by the position: requeueing others never moves an entry back.
\<close>

primrec before :: "'p \<Rightarrow> 'p list \<Rightarrow> nat" where
  "before p [] = 0"
| "before p (x # xs) = (if x = p then 0 else Suc (before p xs))"

lemma before_append: "p \<in> set xs \<Longrightarrow> before p (xs @ ys) = before p xs"
  by (induction xs) auto

lemma before_remove1: "q \<noteq> p \<Longrightarrow> p \<in> set xs \<Longrightarrow> before p (remove1 q xs) \<le> before p xs"
  by (induction xs) (auto simp: le_SucI)

lemma insert_set_remove1: "insert p (set (remove1 p xs)) = insert p (set xs)"
  by (induction xs) auto

locale requeue =
  fixes enq :: "'p \<Rightarrow> 's \<Rightarrow> ('s, unit) outcome"
    and items :: "'s \<Rightarrow> 'p list"
    and ok :: "'p \<Rightarrow> 's \<Rightarrow> bool"
  assumes enq_items: "ok p s \<Longrightarrow> \<exists>s'. enq p s = Ret () s' \<and> items s' = remove1 p (items s) @ [p]"
begin

lemma enq_last:
  assumes "ok p s"
  obtains s' where "enq p s = Ret () s'" "last (items s') = p"
  using enq_items [OF assms] by auto

lemma enq_others_keep_place:
  assumes "ok q s" "q \<noteq> p" "p \<in> set (items s)" "enq q s = Ret () s'"
  shows "p \<in> set (items s') \<and> before p (items s') \<le> before p (items s)"
  using enq_items [OF assms(1)] assms(2-) before_remove1 [OF assms(2,3)]
  by (auto simp: before_append)

lemma enq_same_members:
  assumes "ok p s" "enq p s = Ret () s'"
  shows "set (items s') = insert p (set (items s))"
  using enq_items [OF assms(1)] assms(2) insert_set_remove1 [of p "items s"] by auto

end

text \<open>\<open>enqueue_to_mlfq\<close> on the queue of one level is such a queue.\<close>

definition can_enqueue :: "nat \<Rightarrow> nat option \<Rightarrow> 'a proc_state_scheme \<Rightarrow> bool" where
  "can_enqueue l x s \<longleftrightarrow>
     (\<exists>p. x = Some p \<and> p < NPROC \<and> level_of s p = l) \<and> queue_ok (mlfq_list s l)"

interpretation mlfq_level: requeue "\<lambda>x. enqueue_to_mlfq (the x)" "\<lambda>s. mlfq_list s l" "can_enqueue l" for l
proof
  fix x and s :: "'a proc_state_scheme"
  assume a: "can_enqueue l x s"
  then obtain p where p: "x = Some p" "p < NPROC" "level_of s p = l" by (auto simp: can_enqueue_def)
  with a have "length (remove1 (Some p) (mlfq_list s (level_of s p))) < NPROC"
    by (intro queue_ok_room) (auto simp: can_enqueue_def)
  then show "\<exists>s'. enqueue_to_mlfq (the x) s = Ret () s' \<and> mlfq_list s' l = remove1 x (mlfq_list s l) @ [x]"
    by (rule enqueue_list) (use p in auto)
qed

end
