(* ===== verification/Sched.thy ===== *)
theory Sched
  imports Mlfq
begin

text \<open>
  The scheduler of \<open>kernel/proc.c\<close> with its five policies, and the functions by which a process
  leaves the CPU and becomes runnable again: \<open>sched\<close>, \<open>yield\<close>, \<open>sleep\<close>, \<open>wakeup\<close>, \<open>kill\<close>.

  \<open>scheduler\<close> and the kernel threads of the processes are coroutines: \<open>swtch\<close> suspends one and
  resumes the other.  The scheduler is therefore split at its calls of \<open>swtch\<close>: \<open>scheduler_iter\<close>
  runs one round of its loop up to the first \<open>swtch\<close> (\<open>Dispatch\<close>, with the point where the
  scheduler is suspended), to the \<open>wfi\<close> instruction (\<open>Idle\<close>), or to the end of the round (\<open>Again\<close>);
  \<open>scheduler_resume\<close> continues from the point of suspension.
\<close>

section \<open>The scheduler\<close>

datatype sched_point = AfterRun nat | AfterHrrn nat | AfterRR nat "nat list"

datatype sched_act = Dispatch nat sched_point | Idle | Again

definition set_cpu_proc :: "nat option \<Rightarrow> 'a hart_state_scheme \<Rightarrow> 'a hart_state_scheme" where
  "set_cpu_proc p s = upd_mycpu (\<lambda>c. c\<lparr>cpu_proc := p\<rparr>) s"

definition scheduler_start :: "'a proc_state_scheme \<Rightarrow> 'a proc_state_scheme" where
  "scheduler_start s = set_cpu_proc None s"

text \<open>What every policy does with the chosen process before \<open>swtch\<close>.\<close>

definition account_wait :: "nat \<Rightarrow> 'a proc_state_scheme \<Rightarrow> 'a proc_state_scheme" where
  "account_wait p s =
     (let s = upd_proc p (\<lambda>x. x\<lparr>p_run_start_time := ticks s\<rparr>) s
      in upd_proc p (\<lambda>x. x\<lparr>p_waiting_time := p_run_start_time x - p_ready_time x\<rparr>) s)"

definition dispatch :: "nat \<Rightarrow> 'a proc_state_scheme \<Rightarrow> 'a proc_state_scheme" where
  "dispatch p s = set_cpu_proc (Some p) (upd_proc p (\<lambda>x. x\<lparr>p_state := RUNNING\<rparr>) (account_wait p s))"

definition release_chosen :: "nat option \<Rightarrow> 'a proc_state_scheme \<Rightarrow> ('a proc_state_scheme, unit) outcome" where
  "release_chosen chosen s = (case chosen of None \<Rightarrow> Ret () s | Some c \<Rightarrow> release (ProcLock c) s)"

subsection \<open>First come, first served\<close>

text \<open>The comparison of \<open>int arrival_time\<close> with \<open>uint min_arrival\<close> is unsigned.\<close>

fun fcfs_scan ::
    "nat list \<Rightarrow> nat option \<Rightarrow> u32 \<Rightarrow> 'a proc_state_scheme \<Rightarrow> ('a proc_state_scheme, nat option) outcome" where
  "fcfs_scan [] chosen min_arrival s = Ret chosen s"
| "fcfs_scan (p # ps) chosen min_arrival s =
     bnd (acquire (ProcLock p) s) (\<lambda>_ s.
     if p_state (procs s p) = RUNNABLE
     then if p_arrival_time (procs s p) < min_arrival
          then bnd (release_chosen chosen s) (\<lambda>_ s.
               fcfs_scan ps (Some p) (p_arrival_time (procs s p)) s)
          else bnd (release (ProcLock p) s) (\<lambda>_ s. fcfs_scan ps chosen min_arrival s)
     else bnd (release (ProcLock p) s) (\<lambda>_ s. fcfs_scan ps chosen min_arrival s))"

definition fcfs_round :: "'a proc_state_scheme \<Rightarrow> ('a proc_state_scheme, sched_act) outcome" where
  "fcfs_round s =
     bnd (fcfs_scan [0..<NPROC] None (- 1) s) (\<lambda>chosen s.
     case chosen of
       Some p \<Rightarrow> Ret (Dispatch p (AfterRun p)) (dispatch p s)
     | None \<Rightarrow> Ret Idle (intr_on s))"

subsection \<open>Priority\<close>

fun prio_scan ::
    "nat list \<Rightarrow> nat option \<Rightarrow> 'a proc_state_scheme \<Rightarrow> ('a proc_state_scheme, nat option) outcome" where
  "prio_scan [] chosen s = Ret chosen s"
| "prio_scan (p # ps) chosen s =
     bnd (acquire (ProcLock p) s) (\<lambda>_ s.
     if p_state (procs s p) = RUNNABLE
     then if (case chosen of None \<Rightarrow> True
              | Some c \<Rightarrow> p_priority (procs s p) <s p_priority (procs s c))
          then bnd (release_chosen chosen s) (\<lambda>_ s. prio_scan ps (Some p) s)
          else bnd (release (ProcLock p) s) (\<lambda>_ s. prio_scan ps chosen s)
     else bnd (release (ProcLock p) s) (\<lambda>_ s. prio_scan ps chosen s))"

definition prio_round :: "'a proc_state_scheme \<Rightarrow> ('a proc_state_scheme, sched_act) outcome" where
  "prio_round s =
     bnd (prio_scan [0..<NPROC] None s) (\<lambda>chosen s.
     case chosen of
       Some p \<Rightarrow> Ret (Dispatch p (AfterRun p)) (dispatch p s)
     | None \<Rightarrow> Ret Idle (intr_on s))"

subsection \<open>Highest response ratio next\<close>

definition wait_time :: "u32 \<Rightarrow> proc \<Rightarrow> i32" where
  "wait_time t p = t - p_arrival_time p"

definition service_time :: "proc \<Rightarrow> i32" where
  "service_time p = (if 0 <s p_last_runtime p then p_last_runtime p else 1)"

fun hrrn_scan ::
    "nat list \<Rightarrow> nat option \<Rightarrow> i32 \<Rightarrow> i32 \<Rightarrow> 'a proc_state_scheme \<Rightarrow> ('a proc_state_scheme, nat option) outcome" where
  "hrrn_scan [] chosen chosen_rr_num chosen_rr_den s = Ret chosen s"
| "hrrn_scan (p # ps) chosen chosen_rr_num chosen_rr_den s =
     bnd (acquire (ProcLock p) s) (\<lambda>_ s.
     if p_state (procs s p) = RUNNABLE
     then let rr_num = wait_time (ticks s) (procs s p) + service_time (procs s p);
              rr_den = service_time (procs s p)
          in if chosen = None \<or> chosen_rr_num * rr_den <s rr_num * chosen_rr_den
             then bnd (release_chosen chosen s) (\<lambda>_ s. hrrn_scan ps (Some p) rr_num rr_den s)
             else bnd (release (ProcLock p) s) (\<lambda>_ s. hrrn_scan ps chosen chosen_rr_num chosen_rr_den s)
     else bnd (release (ProcLock p) s) (\<lambda>_ s. hrrn_scan ps chosen chosen_rr_num chosen_rr_den s))"

definition hrrn_round :: "'a proc_state_scheme \<Rightarrow> ('a proc_state_scheme, sched_act) outcome" where
  "hrrn_round s =
     bnd (hrrn_scan [0..<NPROC] None (- 1) 1 s) (\<lambda>chosen s.
     case chosen of
       Some p \<Rightarrow>
         (let s = account_wait p s;
              s = upd_proc p (\<lambda>x. x\<lparr>p_runtime_start_ticks := ticks s\<rparr>) s;
              s = upd_proc p (\<lambda>x. x\<lparr>p_state := RUNNING\<rparr>) s
          in Ret (Dispatch p (AfterHrrn p)) (set_cpu_proc (Some p) s))
     | None \<Rightarrow> Ret Idle (intr_on s))"

subsection \<open>Multi-level feedback queue\<close>

fun mlfq_refill :: "nat list \<Rightarrow> 'a proc_state_scheme \<Rightarrow> ('a proc_state_scheme, unit) outcome" where
  "mlfq_refill [] s = Ret () s"
| "mlfq_refill (q # qs) s =
     (if p_state (procs s q) = RUNNABLE
      then bnd (enqueue_to_mlfq q s) (\<lambda>_ s. mlfq_refill qs (upd_proc q (\<lambda>x. x\<lparr>p_time_slice := 0\<rparr>) s))
      else mlfq_refill qs s)"

text \<open>The two loops over the queues; the inner one runs over the indices below \<open>mlfq.qsize[level]\<close>.\<close>

fun mlfq_scan ::
    "nat \<Rightarrow> nat list \<Rightarrow> 'a proc_state_scheme \<Rightarrow> ('a proc_state_scheme, nat option) outcome" where
  "mlfq_scan level [] s = Ret None s"
| "mlfq_scan level (i # is) s =
     (if \<not> i < qsize s level then Ret None s
      else case queue s level i of
        None \<Rightarrow> mlfq_scan level is s
      | Some p \<Rightarrow>
          bnd (acquire (ProcLock p) s) (\<lambda>_ s.
          if p_state (procs s p) = RUNNABLE
          then let s = dispatch p s;
                   s = s\<lparr>queue := (queue s)(level := (queue s level)(i := None))\<rparr>
               in Ret (Some p) (compact_queue level s)
          else bnd (release (ProcLock p) s) (\<lambda>_ s. mlfq_scan level is s)))"

fun mlfq_levels :: "nat list \<Rightarrow> 'a proc_state_scheme \<Rightarrow> ('a proc_state_scheme, nat option) outcome" where
  "mlfq_levels [] s = Ret None s"
| "mlfq_levels (l # ls) s =
     bnd (mlfq_scan l [0..<NPROC] s) (\<lambda>found s.
     case found of Some p \<Rightarrow> Ret (Some p) s | None \<Rightarrow> mlfq_levels ls s)"

definition mlfq_round :: "'a proc_state_scheme \<Rightarrow> ('a proc_state_scheme, sched_act) outcome" where
  "mlfq_round s =
     (let total_qsize = sum_list (map (qsize s) [0..<QUEUE_LEVELS])
      in bnd (if total_qsize = 0
              then bnd (acquire MlfqLock s) (\<lambda>_ s.
                   bnd (mlfq_refill [0..<NPROC] s) (\<lambda>_ s. release MlfqLock s))
              else Ret () s) (\<lambda>_ s.
      bnd (mlfq_levels [0..<QUEUE_LEVELS] s) (\<lambda>found s.
      case found of
        Some p \<Rightarrow> Ret (Dispatch p (AfterRun p)) s
      | None \<Rightarrow> Ret Idle (intr_on s))))"

subsection \<open>Round robin\<close>

fun rr_scan :: "nat list \<Rightarrow> bool \<Rightarrow> 'a proc_state_scheme \<Rightarrow> ('a proc_state_scheme, sched_act) outcome" where
  "rr_scan [] found s = (if \<not> found then Ret Idle (intr_on s) else Ret Again s)"
| "rr_scan (p # ps) found s =
     bnd (acquire (ProcLock p) s) (\<lambda>_ s.
     if p_state (procs s p) = RUNNABLE then Ret (Dispatch p (AfterRR p ps)) (dispatch p s)
     else bnd (release (ProcLock p) s) (\<lambda>_ s. rr_scan ps found s))"

subsection \<open>The loop\<close>

definition scheduler_iter :: "'a proc_state_scheme \<Rightarrow> ('a proc_state_scheme, sched_act) outcome" where
  "scheduler_iter s =
     (let s = intr_on s
      in if current_policy s = 1 then fcfs_round s
         else if current_policy s = 2 then prio_round s
         else if current_policy s = 3 then hrrn_round s
         else if current_policy s = 4 then mlfq_round s
         else rr_scan [0..<NPROC] False s)"

fun scheduler_resume :: "sched_point \<Rightarrow> 'a proc_state_scheme \<Rightarrow> ('a proc_state_scheme, sched_act) outcome" where
  "scheduler_resume (AfterRun p) s =
     bnd (release (ProcLock p) (set_cpu_proc None s)) (\<lambda>_ s. Ret Again s)"
| "scheduler_resume (AfterHrrn p) s =
     (let s = set_cpu_proc None s;
          delta = ticks s - p_runtime_start_ticks (procs s p);
          s = upd_proc p (\<lambda>x. x\<lparr>p_last_runtime := (if 0 <s delta then delta else 1)\<rparr>) s
      in bnd (release (ProcLock p) s) (\<lambda>_ s. Ret Again s))"
| "scheduler_resume (AfterRR p ps) s =
     bnd (release (ProcLock p) (set_cpu_proc None s)) (\<lambda>_ s. rr_scan ps True s)"

section \<open>Leaving the CPU\<close>

text \<open>
  \<open>sched\<close> up to its \<open>swtch\<close>.  The argument says where the calling function continues, given the value
  of the local variable \<open>intena\<close>.
\<close>

definition sched :: "(bool \<Rightarrow> resume) \<Rightarrow> 'a proc_state_scheme \<Rightarrow> ('a proc_state_scheme, unit) outcome" where
  "sched k s =
     bnd (curproc s) (\<lambda>p s.
     if \<not> holding (ProcLock p) s then Panic ''sched p->lock''
     else if noff (mycpu s) \<noteq> 1 then Panic ''sched locks''
     else if p_state (procs s p) = RUNNING then Panic ''sched running''
     else if intr_get s then Panic ''sched interruptible''
     else Swtch (k (intena (mycpu s))) s)"

text \<open>The end of \<open>sched\<close>, after the scheduler has switched back.\<close>

definition sched_end :: "bool \<Rightarrow> 'a proc_state_scheme \<Rightarrow> 'a proc_state_scheme" where
  "sched_end ie s = upd_mycpu (\<lambda>c. c\<lparr>intena := ie\<rparr>) s"

definition last_burst :: "u32 \<Rightarrow> proc \<Rightarrow> i32" where
  "last_burst t p = (let delta = t - p_runtime_start_ticks p in if 0 <s delta then delta else 1)"

definition enqueue_if_mlfq :: "nat \<Rightarrow> 'a proc_state_scheme \<Rightarrow> ('a proc_state_scheme, unit) outcome" where
  "enqueue_if_mlfq p s =
     (if current_policy s = SCHED_MLFQ
      then bnd (acquire MlfqLock s) (\<lambda>_ s.
           bnd (enqueue_to_mlfq p s) (\<lambda>_ s. release MlfqLock s))
      else Ret () s)"

definition yield :: "'a proc_state_scheme \<Rightarrow> ('a proc_state_scheme, unit) outcome" where
  "yield s =
     bnd (curproc s) (\<lambda>p s.
     bnd (acquire (ProcLock p) s) (\<lambda>_ s.
     let s = upd_proc p (\<lambda>x. x\<lparr>p_last_runtime := last_burst (ticks s) x\<rparr>) s;
         s = upd_proc p (\<lambda>x. x\<lparr>p_state := RUNNABLE\<rparr>) s
     in bnd (enqueue_if_mlfq p s) (\<lambda>_ s.
     sched ResumeYield s)))"

definition sleep :: "chan \<Rightarrow> lock_addr \<Rightarrow> 'a proc_state_scheme \<Rightarrow> ('a proc_state_scheme, unit) outcome" where
  "sleep chan lk s =
     bnd (curproc s) (\<lambda>p s.
     bnd (acquire (ProcLock p) s) (\<lambda>_ s.
     bnd (release lk s) (\<lambda>_ s.
     let s = upd_proc p (\<lambda>x. x\<lparr>p_chan := Some chan\<rparr>) s;
         s = upd_proc p (\<lambda>x. x\<lparr>p_state := SLEEPING\<rparr>) s
     in sched (ResumeSleep lk) s)))"

text \<open>
  The kernel thread of process \<open>p\<close> after the scheduler has switched to it: the rest of \<open>yield\<close>, of
  \<open>sleep\<close> and of \<open>exit\<close>.
\<close>

fun resume_thread :: "nat \<Rightarrow> resume \<Rightarrow> 'a proc_state_scheme \<Rightarrow> ('a proc_state_scheme, unit) outcome" where
  "resume_thread p (ResumeYield ie) s = release (ProcLock p) (sched_end ie s)"
| "resume_thread p (ResumeSleep lk ie) s =
     (let s = upd_proc p (\<lambda>x. x\<lparr>p_chan := None\<rparr>) (sched_end ie s)
      in bnd (release (ProcLock p) s) (\<lambda>_ s. acquire lk s))"
| "resume_thread p ResumeNever s = Panic ''zombie exit''"

section \<open>Waking and killing\<close>

fun wakeup_loop :: "chan option \<Rightarrow> nat list \<Rightarrow> 'a proc_state_scheme \<Rightarrow> ('a proc_state_scheme, unit) outcome" where
  "wakeup_loop chan [] s = Ret () s"
| "wakeup_loop chan (p # ps) s =
     bnd (myproc s) (\<lambda>me s.
     if Some p \<noteq> me
     then bnd (acquire (ProcLock p) s) (\<lambda>_ s.
          bnd (if p_state (procs s p) = SLEEPING \<and> p_chan (procs s p) = chan
               then let s = upd_proc p (\<lambda>x. x\<lparr>p_state := RUNNABLE\<rparr>) s;
                        s = upd_proc p (\<lambda>x. x\<lparr>p_ready_time := ticks s\<rparr>) s
                    in enqueue_if_mlfq p s
               else Ret () s) (\<lambda>_ s.
          bnd (release (ProcLock p) s) (\<lambda>_ s. wakeup_loop chan ps s)))
     else wakeup_loop chan ps s)"

definition wakeup :: "chan option \<Rightarrow> 'a proc_state_scheme \<Rightarrow> ('a proc_state_scheme, unit) outcome" where
  "wakeup chan s = wakeup_loop chan [0..<NPROC] s"

fun kill_loop :: "i32 \<Rightarrow> nat list \<Rightarrow> 'a proc_state_scheme \<Rightarrow> ('a proc_state_scheme, i32) outcome" where
  "kill_loop pid [] s = Ret (- 1) s"
| "kill_loop pid (p # ps) s =
     bnd (acquire (ProcLock p) s) (\<lambda>_ s.
     if p_pid (procs s p) = pid
     then let s = upd_proc p (\<lambda>x. x\<lparr>p_killed := 1\<rparr>) s;
              s = (if p_state (procs s p) = SLEEPING
                   then upd_proc p (\<lambda>x. x\<lparr>p_state := RUNNABLE\<rparr>) s else s)
          in bnd (release (ProcLock p) s) (\<lambda>_ s. Ret 0 s)
     else bnd (release (ProcLock p) s) (\<lambda>_ s. kill_loop pid ps s))"

definition kill :: "i32 \<Rightarrow> 'a proc_state_scheme \<Rightarrow> ('a proc_state_scheme, i32) outcome" where
  "kill pid s = kill_loop pid [0..<NPROC] s"

definition setkilled :: "nat \<Rightarrow> 'a proc_state_scheme \<Rightarrow> ('a proc_state_scheme, unit) outcome" where
  "setkilled p s =
     bnd (acquire (ProcLock p) s) (\<lambda>_ s.
     release (ProcLock p) (upd_proc p (\<lambda>x. x\<lparr>p_killed := 1\<rparr>) s))"

definition killed :: "nat \<Rightarrow> 'a proc_state_scheme \<Rightarrow> ('a proc_state_scheme, i32) outcome" where
  "killed p s =
     bnd (acquire (ProcLock p) s) (\<lambda>_ s.
     let k = p_killed (procs s p)
     in bnd (release (ProcLock p) s) (\<lambda>_ s. Ret k s))"

fun get_waiting_time_loop :: "i32 \<Rightarrow> nat list \<Rightarrow> 'a proc_state_scheme \<Rightarrow> ('a proc_state_scheme, i32) outcome" where
  "get_waiting_time_loop pid [] s = Ret (- 1) s"
| "get_waiting_time_loop pid (p # ps) s =
     bnd (acquire (ProcLock p) s) (\<lambda>_ s.
     if p_pid (procs s p) = pid
     then let w = p_waiting_time (procs s p)
          in bnd (release (ProcLock p) s) (\<lambda>_ s. Ret w s)
     else bnd (release (ProcLock p) s) (\<lambda>_ s. get_waiting_time_loop pid ps s))"

definition get_waiting_time :: "i32 \<Rightarrow> 'a proc_state_scheme \<Rightarrow> ('a proc_state_scheme, i32) outcome" where
  "get_waiting_time pid s = get_waiting_time_loop pid [0..<NPROC] s"

fun reparent_loop :: "nat \<Rightarrow> nat list \<Rightarrow> 'a proc_state_scheme \<Rightarrow> ('a proc_state_scheme, unit) outcome" where
  "reparent_loop p [] s = Ret () s"
| "reparent_loop p (pp # pps) s =
     (if p_parent (procs s pp) = Some p
      then let s = upd_proc pp (\<lambda>x. x\<lparr>p_parent := initproc s\<rparr>) s
           in bnd (wakeup (map_option ProcChan (initproc s)) s) (\<lambda>_ s. reparent_loop p pps s)
      else reparent_loop p pps s)"

definition reparent :: "nat \<Rightarrow> 'a proc_state_scheme \<Rightarrow> ('a proc_state_scheme, unit) outcome" where
  "reparent p s = reparent_loop p [0..<NPROC] s"

section \<open>Memory of the current process\<close>

text \<open>The \<open>int\<close> argument is sign-extended when it is added to the 64-bit size.\<close>

definition growproc :: "i32 \<Rightarrow> 'a proc_state_scheme \<Rightarrow> ('a proc_state_scheme, i32) outcome" where
  "growproc n s =
     bnd (curproc s) (\<lambda>p s.
     let sz = p_sz (procs s p); pagetable = p_pagetable (procs s p)
     in if 0 <s n
        then bnd (uvmalloc pagetable sz (sz + scast n) PTE_W s) (\<lambda>sz s.
             if sz = 0 then Ret (- 1) s
             else Ret 0 (upd_proc p (\<lambda>x. x\<lparr>p_sz := sz\<rparr>) s))
        else if n <s 0
        then bnd (uvmdealloc pagetable sz (sz + scast n) s) (\<lambda>sz s.
             Ret 0 (upd_proc p (\<lambda>x. x\<lparr>p_sz := sz\<rparr>) s))
        else Ret 0 (upd_proc p (\<lambda>x. x\<lparr>p_sz := sz\<rparr>) s))"

text \<open>
  The destination of \<open>either_copyout\<close>: a user address, an address of physical memory, or an object
  of the kernel, whose new contents are the bytes given; the source of \<open>either_copyin\<close>: a user
  address or an object of the kernel, with its bytes.
\<close>

datatype copy_dst = UserDst u64 | MemDst u64 | ObjDst

datatype copy_src = UserSrc u64 | ObjSrc "u8 list"

fun either_copyout :: "copy_dst \<Rightarrow> u8 list \<Rightarrow> 'a proc_state_scheme \<Rightarrow> ('a proc_state_scheme, i32) outcome" where
  "either_copyout (UserDst dst) src s =
     bnd (curproc s) (\<lambda>p s. copyout (p_pagetable (procs s p)) dst src s)"
| "either_copyout (MemDst dst) src s =
     bnd (myproc s) (\<lambda>_ s. Ret 0 (s\<lparr>mem := put_bytes dst src (mem s)\<rparr>))"
| "either_copyout ObjDst src s = bnd (myproc s) (\<lambda>_ s. Ret 0 s)"

fun either_copyin ::
    "copy_src \<Rightarrow> u64 \<Rightarrow> 'a proc_state_scheme \<Rightarrow> ('a proc_state_scheme, i32 \<times> u8 list) outcome" where
  "either_copyin (UserSrc src) len s =
     bnd (curproc s) (\<lambda>p s. copyin (p_pagetable (procs s p)) src len s)"
| "either_copyin (ObjSrc bs) len s = bnd (myproc s) (\<lambda>_ s. Ret (0, take (unat len) bs) s)"

end
