(* ===== verification/SchedPolicy.thy ===== *)
theory SchedPolicy
  imports Sched Complex_Main
begin

text \<open>
  What the five policies choose.  The three policies that scan the whole table (FCFS, priority and
  HRRN) share one contract, the locale \<open>table_scan\<close>: the scan returns the first entry with the
  least key among the eligible ones and holds exactly that entry's lock.
\<close>

section \<open>State lemmas\<close>

lemma set_cpu_proc_with_held [lock_simps]:
  "set_cpu_proc p (with_held H s) = with_held H (set_cpu_proc p s)"
  by (cases "cpus s (tp s)") (simp add: set_cpu_proc_def upd_mycpu_def mycpu_def cpuid_def
      with_held_def intr_get_def r_sstatus_def cong: if_cong)

lemma set_cpu_proc_sel [simp]:
  "procs (set_cpu_proc p s) = procs s" "ticks (set_cpu_proc p s) = ticks s"
  "queue (set_cpu_proc p s) = queue s" "qsize (set_cpu_proc p s) = qsize s"
  "current_policy (set_cpu_proc p s) = current_policy s"
  by (simp_all add: set_cpu_proc_def upd_mycpu_def)

lemma set_cpu_proc_hart [simp]:
  "locks (set_cpu_proc p s) = locks s" "tp (set_cpu_proc p s) = tp s"
  "sstatus (set_cpu_proc p s) = sstatus s" "cpu_proc (cpus (set_cpu_proc p s) (tp s)) = p"
  "h \<noteq> tp s \<Longrightarrow> cpus (set_cpu_proc p s) h = cpus s h"
  by (simp_all add: set_cpu_proc_def upd_mycpu_def cpuid_def)

lemma lock_free_set_cpu_proc [lock_simps]: "lock_free k (set_cpu_proc p s) = lock_free k s"
  by (simp add: lock_free_def)

lemma account_wait_with_held [lock_simps]:
  "account_wait p (with_held H s) = with_held H (account_wait p s)"
  by (simp add: account_wait_def Let_def lock_simps)

lemma account_wait_sel [simp]:
  "procs (account_wait p s) = (procs s)(p := (procs s p)\<lparr>p_run_start_time := ticks s,
     p_waiting_time := ticks s - p_ready_time (procs s p)\<rparr>)"
  "ticks (account_wait p s) = ticks s" "queue (account_wait p s) = queue s"
  "qsize (account_wait p s) = qsize s" "current_policy (account_wait p s) = current_policy s"
  "locks (account_wait p s) = locks s" "tp (account_wait p s) = tp s" "cpus (account_wait p s) = cpus s"
  by (simp_all add: account_wait_def Let_def)

lemma dispatch_with_held [lock_simps]: "dispatch p (with_held H s) = with_held H (dispatch p s)"
  by (simp add: dispatch_def lock_simps)

lemma dispatch_sel [simp]:
  "procs (dispatch p s) = (procs s)(p := (procs s p)\<lparr>p_run_start_time := ticks s,
     p_waiting_time := ticks s - p_ready_time (procs s p), p_state := RUNNING\<rparr>)"
  "ticks (dispatch p s) = ticks s" "queue (dispatch p s) = queue s"
  "qsize (dispatch p s) = qsize s" "current_policy (dispatch p s) = current_policy s"
  "locks (dispatch p s) = locks s" "tp (dispatch p s) = tp s"
  "cpu_proc (cpus (dispatch p s) (tp s)) = Some p"
  "h \<noteq> tp s \<Longrightarrow> cpus (dispatch p s) h = cpus s h"
  using set_cpu_proc_hart(4,5) [where s = "upd_proc p (\<lambda>x. x\<lparr>p_state := RUNNING\<rparr>) (account_wait p s)"]
  by (simp_all add: dispatch_def)

lemma lock_free_dispatch [lock_simps]: "lock_free k (dispatch p s) = lock_free k s"
  by (simp add: lock_free_def)

lemma intr_on_sel [simp]:
  "procs (intr_on s) = procs s" "ticks (intr_on s) = ticks s" "queue (intr_on s) = queue s"
  "qsize (intr_on s) = qsize s" "current_policy (intr_on s) = current_policy s"
  "locks (intr_on s) = locks s" "tp (intr_on s) = tp s" "cpus (intr_on s) = cpus s"
  "lock_free k (intr_on s) = lock_free k s" "quiet (intr_on s) = quiet s"
  by (simp_all add: intr_on_def w_sstatus_def lock_free_def quiet_def)

lemma mlfq_list_intr_on [simp]: "mlfq_list (intr_on s) = mlfq_list s"
  by (simp add: mlfq_list_def fun_eq_iff)

text \<open>
  The state of the scheduler at the top of its loop: no lock is held on this hart, and no lock of
  the process table by any hart.
\<close>

definition sched_ready :: "'a proc_state_scheme \<Rightarrow> bool" where
  "sched_ready s \<longleftrightarrow> quiet s \<and> lock_free MlfqLock s \<and> (\<forall>p < NPROC. lock_free (ProcLock p) s)"

lemma sched_ready_intr_on [simp]: "sched_ready (intr_on s) = sched_ready s"
  by (simp add: sched_ready_def)

lemma acquire_quiet_with_held:
  "quiet s \<Longrightarrow> lock_free k s \<Longrightarrow> acquire k s = acquire k (with_held {} s)"
  by (simp add: lock_simps)

lemma NPROC_pos: "0 < NPROC"
  by (simp add: NPROC_def)

lemma upt_NPROC: "[0..<NPROC] = 0 # [Suc 0..<NPROC]"
  using NPROC_pos by (rule upt_conv_Cons)

section \<open>Scanning the whole table\<close>

definition held_of :: "nat option \<Rightarrow> lock_addr set" where
  "held_of c = ProcLock ` set_option c"

lemma held_of_simps [simp]:
  "held_of None = {}" "held_of (Some p) = {ProcLock p}" "finite (held_of c)"
  "ProcLock p \<in> held_of c \<longleftrightarrow> c = Some p"
  by (cases c, auto simp: held_of_def)+

text \<open>The first entry below \<open>n\<close> with the least key among the eligible ones, if there is one.\<close>

definition first_min :: "(nat \<Rightarrow> bool) \<Rightarrow> (nat \<Rightarrow> 'k::linorder) \<Rightarrow> nat \<Rightarrow> nat option \<Rightarrow> bool" where
  "first_min elig key n r \<longleftrightarrow>
     (case r of
        None \<Rightarrow> \<forall>p < n. \<not> elig p
      | Some p \<Rightarrow> p < n \<and> elig p \<and> (\<forall>q < n. elig q \<longrightarrow> key p \<le> key q) \<and>
          (\<forall>q < p. elig q \<longrightarrow> key p < key q))"

lemma first_min_Suc_skip:
  assumes "first_min elig key n r" "\<not> elig n \<or> (\<exists>c. r = Some c \<and> key c \<le> key n)"
  shows "first_min elig key (Suc n) r"
  using assms by (cases r) (auto simp: first_min_def less_Suc_eq)

lemma first_min_Suc_take:
  assumes "first_min elig key n r" "elig n" "\<And>c. r = Some c \<Longrightarrow> key n < key c"
  shows "first_min elig key (Suc n) (Some n)"
  using assms by (cases r) (fastforce simp: first_min_def less_Suc_eq)+

text \<open>
  The contract.  \<open>'b\<close> holds the local variables of the scan; \<open>pick\<close> says whether the scan takes
  the entry it looks at, and with which new values.  \<open>fits\<close> are the bounds under which the scan's
  arithmetic is exact, \<open>track\<close> relates the variables to the entry chosen so far.
\<close>

locale table_scan =
  fixes scan :: "nat list \<Rightarrow> 'b \<Rightarrow> 'a proc_state_scheme \<Rightarrow> ('a proc_state_scheme, nat option) outcome"
    and chosen :: "'b \<Rightarrow> nat option"
    and pick :: "(nat \<Rightarrow> proc) \<Rightarrow> u32 \<Rightarrow> nat \<Rightarrow> 'b \<Rightarrow> 'b option"
    and fits :: "(nat \<Rightarrow> proc) \<Rightarrow> u32 \<Rightarrow> bool"
    and track :: "(nat \<Rightarrow> proc) \<Rightarrow> u32 \<Rightarrow> 'b \<Rightarrow> bool"
    and elig :: "(nat \<Rightarrow> proc) \<Rightarrow> u32 \<Rightarrow> nat \<Rightarrow> bool"
    and key :: "(nat \<Rightarrow> proc) \<Rightarrow> u32 \<Rightarrow> nat \<Rightarrow> 'k::linorder"
  assumes scan_Nil: "scan [] b s = Ret (chosen b) s"
    and scan_Cons: "scan (p # ps) b s =
      bnd (acquire (ProcLock p) s) (\<lambda>_ s.
      case pick (procs s) (ticks s) p b of
        Some b' \<Rightarrow> bnd (release_chosen (chosen b) s) (\<lambda>_ s. scan ps b' s)
      | None \<Rightarrow> bnd (release (ProcLock p) s) (\<lambda>_ s. scan ps b s))"
    and pick_chosen: "pick pr t p b = Some b' \<Longrightarrow> chosen b' = Some p"
    and pick_track: "pick pr t p b = Some b' \<Longrightarrow> track pr t b'"
    and pick_iff: "fits pr t \<Longrightarrow> track pr t b \<Longrightarrow> p < NPROC \<Longrightarrow>
      (\<And>c. chosen b = Some c \<Longrightarrow> c < NPROC \<and> elig pr t c) \<Longrightarrow>
      pick pr t p b \<noteq> None \<longleftrightarrow> elig pr t p \<and> (\<forall>c. chosen b = Some c \<longrightarrow> key pr t p < key pr t c)"
begin

lemma scan_from:
  assumes "k \<le> NPROC" "\<forall>p < NPROC. lock_free (ProcLock p) s"
    and "fits (procs s) (ticks s)" "track (procs s) (ticks s) b"
    and "first_min (elig (procs s) (ticks s)) (key (procs s) (ticks s)) k (chosen b)"
  shows "\<exists>r. scan [k..<NPROC] b (with_held (held_of (chosen b)) s) = Ret r (with_held (held_of r) s) \<and>
    first_min (elig (procs s) (ticks s)) (key (procs s) (ticks s)) NPROC r"
  using assms(1,4,5)
proof (induction k arbitrary: b rule: inc_induct)
  case base
  then show ?case by (simp add: scan_Nil)
next
  case (step k)
  let ?e = "elig (procs s) (ticks s)" and ?key = "key (procs s) (ticks s)"
  have c: "c < k \<and> c < NPROC \<and> ?e c" if "chosen b = Some c" for c
    using that step.prems(2) step.hyps by (auto simp: first_min_def)
  have lf: "lock_free (ProcLock k) s" using assms(2) step.hyps by simp
  have nk: "ProcLock k \<notin> held_of (chosen b)" using c by (cases "chosen b") auto
  have acq: "acquire (ProcLock k) (with_held (held_of (chosen b)) s) =
      Ret () (with_held (insert (ProcLock k) (held_of (chosen b))) s)"
    using nk lf by (simp add: acquire_with_held)
  have u: "[k..<NPROC] = k # [Suc k..<NPROC]" using step.hyps(2) by (rule upt_conv_Cons)
  note iff = pick_iff [OF assms(3) step.prems(1) step.hyps(2), OF c [THEN conjunct2]]
  show ?case
  proof (cases "pick (procs s) (ticks s) k b")
    case None
    have rel: "release (ProcLock k) (with_held (insert (ProcLock k) (held_of (chosen b))) s) =
        Ret () (with_held (held_of (chosen b)) s)"
      using lf nk by (simp add: release_with_held)
    have "first_min ?e ?key (Suc k) (chosen b)"
      using step.prems(2) None iff by (intro first_min_Suc_skip) (auto simp: not_less)
    moreover have "scan [k..<NPROC] b (with_held (held_of (chosen b)) s) =
        scan [Suc k..<NPROC] b (with_held (held_of (chosen b)) s)"
      unfolding u scan_Cons acq by (simp add: with_held_proc None rel)
    ultimately show ?thesis using step.IH [OF step.prems(1)] by simp
  next
    case (Some b')
    have ch: "chosen b' = Some k" using pick_chosen [OF Some] .
    have "first_min ?e ?key (Suc k) (chosen b')"
      unfolding ch using step.prems(2) Some iff by (intro first_min_Suc_take) auto
    moreover have rel: "release_chosen (chosen b) (with_held (insert (ProcLock k) (held_of (chosen b))) s) =
        Ret () (with_held (held_of (chosen b')) s)"
      using c assms(2) nk ch
      by (cases "chosen b") (auto simp: release_chosen_def release_with_held insert_Diff_if)
    moreover have "scan [k..<NPROC] b (with_held (held_of (chosen b)) s) =
        scan [Suc k..<NPROC] b' (with_held (held_of (chosen b')) s)"
      unfolding u scan_Cons acq by (simp add: with_held_proc Some rel)
    ultimately show ?thesis using step.IH [OF pick_track [OF Some]] by simp
  qed
qed

lemma scan_first_min:
  assumes "sched_ready s" "fits (procs s) (ticks s)" "track (procs s) (ticks s) b" "chosen b = None"
  obtains r where "scan [0..<NPROC] b s = Ret r (with_held (held_of r) s)"
    "first_min (elig (procs s) (ticks s)) (key (procs s) (ticks s)) NPROC r"
proof -
  have "scan [0..<NPROC] b s = scan [0..<NPROC] b (with_held {} s)"
    using assms(1) unfolding upt_NPROC scan_Cons
    by (subst acquire_quiet_with_held) (auto simp: sched_ready_def NPROC_pos)
  then show ?thesis
    using scan_from [of 0 s b] assms that by (auto simp: sched_ready_def first_min_def)
qed

end

lemma release_procs: "release k s = Ret u t \<Longrightarrow> procs t = procs s \<and> ticks t = ticks s"
  by (auto simp: release_def pop_off_def Let_def hart_defs split: if_splits)

lemma release_chosen_procs: "release_chosen c s = Ret u t \<Longrightarrow> procs t = procs s \<and> ticks t = ticks s"
  by (auto simp: release_chosen_def release_procs split: option.splits dest: release_procs)

subsection \<open>First come, first served\<close>

definition fcfs_pick :: "(nat \<Rightarrow> proc) \<Rightarrow> u32 \<Rightarrow> nat \<Rightarrow> nat option \<times> u32 \<Rightarrow> (nat option \<times> u32) option" where
  "fcfs_pick pr t p b = (if p_state (pr p) = RUNNABLE \<and> p_arrival_time (pr p) < snd b
     then Some (Some p, p_arrival_time (pr p)) else None)"

text \<open>No arrival time is less than itself, so the largest \<open>uint\<close> is never chosen.\<close>

definition fcfs_elig :: "(nat \<Rightarrow> proc) \<Rightarrow> u32 \<Rightarrow> nat \<Rightarrow> bool" where
  "fcfs_elig pr t p \<longleftrightarrow> p_state (pr p) = RUNNABLE \<and> p_arrival_time (pr p) \<noteq> - 1"

definition arrival :: "(nat \<Rightarrow> proc) \<Rightarrow> u32 \<Rightarrow> nat \<Rightarrow> nat" where
  "arrival pr t p = unat (p_arrival_time (pr p))"

definition fcfs_track :: "(nat \<Rightarrow> proc) \<Rightarrow> u32 \<Rightarrow> nat option \<times> u32 \<Rightarrow> bool" where
  "fcfs_track pr t b \<longleftrightarrow>
     snd b = (case fst b of None \<Rightarrow> - 1 | Some c \<Rightarrow> p_arrival_time (pr c))"

lemma less_minus_1_iff: "(x :: u32) < - 1 \<longleftrightarrow> x \<noteq> - 1"
  by (simp add: word_order.not_eq_extremum)

lemma less_not_max: "(x :: u32) < y \<Longrightarrow> x \<noteq> - 1"
  by (metis less_minus_1_iff order.strict_trans word_order.not_eq_extremum)

interpretation fcfs: table_scan "\<lambda>ps b. fcfs_scan ps (fst b) (snd b)" fst fcfs_pick "\<lambda>_ _. True"
  fcfs_track fcfs_elig arrival
proof
  show "fcfs_scan (p # ps) (fst b) (snd b) s =
    bnd (acquire (ProcLock p) s) (\<lambda>_ s.
    case fcfs_pick (procs s) (ticks s) p b of
      Some b' \<Rightarrow> bnd (release_chosen (fst b) s) (\<lambda>_ s. fcfs_scan ps (fst b') (snd b') s)
    | None \<Rightarrow> bnd (release (ProcLock p) s) (\<lambda>_ s. fcfs_scan ps (fst b) (snd b) s))"
    for p ps b and s :: "'a proc_state_scheme"
    by (auto simp: fcfs_pick_def dest!: release_chosen_procs intro!: bnd_cong)
  show "fcfs_track pr t b \<Longrightarrow> p < NPROC \<Longrightarrow> (\<And>c. fst b = Some c \<Longrightarrow> c < NPROC \<and> fcfs_elig pr t c) \<Longrightarrow>
    (fcfs_pick pr t p b \<noteq> None) =
      (fcfs_elig pr t p \<and> (\<forall>c. fst b = Some c \<longrightarrow> arrival pr t p < arrival pr t c))" for pr t p b
    by (cases "fst b") (auto simp: fcfs_pick_def fcfs_elig_def fcfs_track_def arrival_def
        word_less_nat_alt [symmetric] less_minus_1_iff dest: less_not_max)
qed (auto simp: fcfs_pick_def fcfs_track_def split: if_splits)

subsection \<open>Priority\<close>

definition prio_pick :: "(nat \<Rightarrow> proc) \<Rightarrow> u32 \<Rightarrow> nat \<Rightarrow> nat option \<Rightarrow> nat option option" where
  "prio_pick pr t p b =
     (if p_state (pr p) = RUNNABLE \<and> (\<forall>c. b = Some c \<longrightarrow> p_priority (pr p) <s p_priority (pr c))
      then Some (Some p) else None)"

definition runnable :: "(nat \<Rightarrow> proc) \<Rightarrow> u32 \<Rightarrow> nat \<Rightarrow> bool" where
  "runnable pr t p \<longleftrightarrow> p_state (pr p) = RUNNABLE"

definition priority :: "(nat \<Rightarrow> proc) \<Rightarrow> u32 \<Rightarrow> nat \<Rightarrow> int" where
  "priority pr t p = sint (p_priority (pr p))"

interpretation prio: table_scan prio_scan "\<lambda>b. b" prio_pick "\<lambda>_ _. True" "\<lambda>_ _ _. True" runnable priority
proof
  show "prio_scan (p # ps) b s =
    bnd (acquire (ProcLock p) s) (\<lambda>_ s.
    case prio_pick (procs s) (ticks s) p b of
      Some b' \<Rightarrow> bnd (release_chosen b s) (\<lambda>_ s. prio_scan ps b' s)
    | None \<Rightarrow> bnd (release (ProcLock p) s) (\<lambda>_ s. prio_scan ps b s))"
    for p ps b and s :: "'a proc_state_scheme"
    by (auto simp: prio_pick_def split: option.splits intro!: bnd_cong)
qed (auto simp: prio_pick_def runnable_def priority_def word_sless_alt split: if_splits)

subsection \<open>Highest response ratio next\<close>

definition rr_num :: "u32 \<Rightarrow> proc \<Rightarrow> i32" where
  "rr_num t x = wait_time t x + service_time x"

type_synonym hrrn_vars = "nat option \<times> i32 \<times> i32"

definition hrrn_pick :: "(nat \<Rightarrow> proc) \<Rightarrow> u32 \<Rightarrow> nat \<Rightarrow> hrrn_vars \<Rightarrow> hrrn_vars option" where
  "hrrn_pick pr t p b =
     (let n = rr_num t (pr p); d = service_time (pr p)
      in if p_state (pr p) = RUNNABLE \<and> (fst b = None \<or> fst (snd b) * d <s n * snd (snd b))
         then Some (Some p, n, d) else None)"

text \<open>
  The bounds under which the \<open>int\<close> arithmetic is exact: no runnable process has arrived in the
  future, and no product of one process's numerator and another's denominator reaches \<open>2 ^ 31\<close>.
\<close>

definition hrrn_fits :: "(nat \<Rightarrow> proc) \<Rightarrow> u32 \<Rightarrow> bool" where
  "hrrn_fits pr t \<longleftrightarrow>
     (\<forall>p < NPROC. p_state (pr p) = RUNNABLE \<longrightarrow>
        0 \<le> sint (wait_time t (pr p)) \<and>
        (\<forall>q < NPROC. p_state (pr q) = RUNNABLE \<longrightarrow>
           (sint (wait_time t (pr p)) + sint (service_time (pr p))) * sint (service_time (pr q)) < 2 ^ 31))"

definition hrrn_track :: "(nat \<Rightarrow> proc) \<Rightarrow> u32 \<Rightarrow> hrrn_vars \<Rightarrow> bool" where
  "hrrn_track pr t b \<longleftrightarrow>
     (\<forall>c. fst b = Some c \<longrightarrow> snd b = (rr_num t (pr c), service_time (pr c)))"

definition response_ratio :: "(nat \<Rightarrow> proc) \<Rightarrow> u32 \<Rightarrow> nat \<Rightarrow> rat" where
  "response_ratio pr t p =
     (of_int (sint (wait_time t (pr p))) + of_int (sint (service_time (pr p)))) /
     of_int (sint (service_time (pr p)))"

lemma service_time_pos: "0 < sint (service_time x)"
  by (simp add: service_time_def word_sless_alt)

lemma sint_add_fits: "\<bar>sint a + sint b\<bar> < 2 ^ 31 \<Longrightarrow> sint (a + b :: i32) = sint a + sint b"
  by (simp add: sint_word_ariths signed_take_bit_int_eq_self)

lemma sint_mult_fits: "\<bar>sint a * sint b\<bar> < 2 ^ 31 \<Longrightarrow> sint (a * b :: i32) = sint a * sint b"
  by (simp add: sint_word_ariths signed_take_bit_int_eq_self)

lemma hrrn_exact:
  assumes "hrrn_fits pr t" "p < NPROC" "p_state (pr p) = RUNNABLE" "q < NPROC" "p_state (pr q) = RUNNABLE"
  shows "sint (rr_num t (pr p) * service_time (pr q)) =
    (sint (wait_time t (pr p)) + sint (service_time (pr p))) * sint (service_time (pr q))"
proof -
  let ?n = "sint (wait_time t (pr p)) + sint (service_time (pr p))"
  have f: "0 \<le> sint (wait_time t (pr p))" "?n * sint (service_time (pr q)) < 2 ^ 31"
    using assms by (auto simp: hrrn_fits_def)
  have q: "1 \<le> sint (service_time (pr q))" "0 < sint (service_time (pr p))"
    using service_time_pos [of "pr q"] service_time_pos [of "pr p"] by auto
  then have "?n * 1 \<le> ?n * sint (service_time (pr q))"
    using f(1) by (intro mult_left_mono) auto
  then have "?n < 2 ^ 31" unfolding mult_1_right using f(2) by (rule order.strict_trans1)
  then have "sint (rr_num t (pr p)) = ?n"
    using f(1) q unfolding rr_num_def by (intro sint_add_fits) auto
  moreover have "0 \<le> ?n * sint (service_time (pr q))" using f(1) q by auto
  ultimately show ?thesis using f by (subst sint_mult_fits) auto
qed

lemma rat_ratio_less:
  assumes "0 < d" "0 < e"
  shows "(of_int n / of_int d :: rat) < of_int m / of_int e \<longleftrightarrow> n * e < m * d"
proof -
  have "(of_int n / of_int d :: rat) < of_int m / of_int e \<longleftrightarrow> of_int n * of_int e < (of_int m * of_int d :: rat)"
    using assms by (simp add: field_simps)
  also have "\<dots> \<longleftrightarrow> n * e < m * d" by (simp flip: of_int_mult)
  finally show ?thesis .
qed

lemma hrrn_compare:
  assumes "hrrn_fits pr t" "p < NPROC" "p_state (pr p) = RUNNABLE" "c < NPROC" "p_state (pr c) = RUNNABLE"
  shows "rr_num t (pr c) * service_time (pr p) <s rr_num t (pr p) * service_time (pr c) \<longleftrightarrow>
    response_ratio pr t c < response_ratio pr t p"
proof -
  let ?n = "\<lambda>x. sint (wait_time t (pr x)) + sint (service_time (pr x))" and ?d = "\<lambda>x. sint (service_time (pr x))"
  have "response_ratio pr t c < response_ratio pr t p \<longleftrightarrow>
      (of_int (?n c) / of_int (?d c) :: rat) < of_int (?n p) / of_int (?d p)"
    by (simp add: response_ratio_def)
  also have "\<dots> \<longleftrightarrow> ?n c * ?d p < ?n p * ?d c"
    by (intro rat_ratio_less service_time_pos)
  finally show ?thesis using assms by (simp add: word_sless_alt hrrn_exact)
qed

interpretation hrrn: table_scan "\<lambda>ps b. hrrn_scan ps (fst b) (fst (snd b)) (snd (snd b))" fst hrrn_pick
  hrrn_fits hrrn_track runnable "\<lambda>pr t p. - response_ratio pr t p"
proof
  show "hrrn_scan (p # ps) (fst b) (fst (snd b)) (snd (snd b)) s =
    bnd (acquire (ProcLock p) s) (\<lambda>_ s.
    case hrrn_pick (procs s) (ticks s) p b of
      Some b' \<Rightarrow> bnd (release_chosen (fst b) s) (\<lambda>_ s. hrrn_scan ps (fst b') (fst (snd b')) (snd (snd b')) s)
    | None \<Rightarrow> bnd (release (ProcLock p) s) (\<lambda>_ s. hrrn_scan ps (fst b) (fst (snd b)) (snd (snd b)) s))"
    for p ps b and s :: "'a proc_state_scheme"
    by (auto simp: hrrn_pick_def Let_def rr_num_def intro!: bnd_cong)
  show "(hrrn_pick pr t p b \<noteq> None) =
      (runnable pr t p \<and> (\<forall>c. fst b = Some c \<longrightarrow> - response_ratio pr t p < - response_ratio pr t c))"
    if "hrrn_fits pr t" "hrrn_track pr t b" "p < NPROC"
      "\<And>c. fst b = Some c \<Longrightarrow> c < NPROC \<and> runnable pr t c" for pr t b p
    using that hrrn_compare [OF that(1,3)]
    by (cases "fst b") (auto simp: hrrn_pick_def Let_def runnable_def hrrn_track_def)
qed (auto simp: hrrn_pick_def hrrn_track_def Let_def split: if_splits)

section \<open>States without locks\<close>

text \<open>
  A hart that holds no lock is in state \<open>s\<close> or, once it has acquired and released one, in
  \<open>with_held {} s\<close>, which differs in the recorded \<open>intena\<close> only.
\<close>

definition unlocked :: "'a proc_state_scheme \<Rightarrow> 'a proc_state_scheme \<Rightarrow> bool" where
  "unlocked s t \<longleftrightarrow> t = with_held {} s \<or> quiet s \<and> t = s"

lemma unlocked_refl: "unlocked s (with_held {} s)" "quiet s \<Longrightarrow> unlocked s s"
  by (simp_all add: unlocked_def)

lemma unlocked_sel:
  assumes "unlocked s t"
  shows "procs t = procs s" "ticks t = ticks s" "queue t = queue s" "qsize t = qsize s"
    "current_policy t = current_policy s" "mlfq_list t = mlfq_list s"
  using assms by (auto simp: unlocked_def lock_simps)

lemma unlocked_acquire:
  "unlocked s t \<Longrightarrow> lock_free k s \<Longrightarrow> acquire k t = Ret () (with_held {k} s)"
  by (auto simp: unlocked_def lock_simps)

lemma release_last:
  "lock_free k s \<Longrightarrow> release k (with_held {k} s) = Ret () (with_held {} s)"
  by (simp add: release_with_held)

section \<open>Round robin\<close>

lemma rr_scan_from:
  assumes "k \<le> NPROC" "\<forall>p < NPROC. lock_free (ProcLock p) s" "unlocked s t"
  shows "(\<exists>p. k \<le> p \<and> p < NPROC \<and> p_state (procs s p) = RUNNABLE \<and>
        (\<forall>q. k \<le> q \<and> q < p \<longrightarrow> p_state (procs s q) \<noteq> RUNNABLE) \<and>
        rr_scan [k..<NPROC] found t =
          Ret (Dispatch p (AfterRR p [Suc p..<NPROC])) (with_held {ProcLock p} (dispatch p s))) \<or>
    (\<forall>p. k \<le> p \<and> p < NPROC \<longrightarrow> p_state (procs s p) \<noteq> RUNNABLE) \<and>
        (\<exists>t'. unlocked s t' \<and>
          rr_scan [k..<NPROC] found t = (if found then Ret Again t' else Ret Idle (intr_on t')))"
  using assms(1,3)
proof (induction k arbitrary: t rule: inc_induct)
  case base
  then show ?case by auto
next
  case (step k)
  have lf: "lock_free (ProcLock k) s" using assms(2) step.hyps by simp
  have u: "[k..<NPROC] = k # [Suc k..<NPROC]" using step.hyps(2) by (rule upt_conv_Cons)
  note acq = unlocked_acquire [OF step.prems lf]
  show ?case
  proof (cases "p_state (procs s k) = RUNNABLE")
    case True
    then have "rr_scan [k..<NPROC] found t =
        Ret (Dispatch k (AfterRR k [Suc k..<NPROC])) (with_held {ProcLock k} (dispatch k s))"
      unfolding u rr_scan.simps acq by (simp add: lock_simps)
    with True step.hyps show ?thesis by (intro disjI1 exI [of _ k]) auto
  next
    case False
    then have eq: "rr_scan [k..<NPROC] found t = rr_scan [Suc k..<NPROC] found (with_held {} s)"
      unfolding u rr_scan.simps acq by (simp add: lock_simps release_last lf)
    have ge: "k \<le> p \<longleftrightarrow> p = k \<or> Suc k \<le> p" for p by auto
    show ?thesis
      using step.IH [OF unlocked_refl(1)] False unfolding eq ge by (elim disjE) (rule disjI1, fastforce, rule disjI2, fastforce)
  qed
qed

section \<open>Multi-level feedback queue\<close>

text \<open>Taking the entry at index \<open>i\<close> of a level.\<close>

definition mlfq_take :: "nat \<Rightarrow> nat \<Rightarrow> nat \<Rightarrow> 'a proc_state_scheme \<Rightarrow> 'a proc_state_scheme" where
  "mlfq_take level i p s =
     (let s = dispatch p s;
          s = s\<lparr>queue := (queue s)(level := (queue s level)(i := None))\<rparr>
      in compact_queue level s)"

lemma compact_queue_with_held [lock_simps]:
  "compact_queue l (with_held H s) = with_held H (compact_queue l s)"
  by (simp add: compact_queue_def lock_simps split: prod.splits)

lemma mlfq_take_with_held [lock_simps]: "mlfq_take l i p (with_held H s) = with_held H (mlfq_take l i p s)"
  by (simp add: mlfq_take_def Let_def lock_simps)

lemma mlfq_take_sel [simp]:
  "procs (mlfq_take l i p s) = procs (dispatch p s)" "ticks (mlfq_take l i p s) = ticks s"
  "current_policy (mlfq_take l i p s) = current_policy s" "cpus (mlfq_take l i p s) = cpus (dispatch p s)"
  "locks (mlfq_take l i p s) = locks s" "tp (mlfq_take l i p s) = tp s"
  by (simp_all add: mlfq_take_def compact_queue_def Let_def del: dispatch_sel(1) split: prod.splits)

lemma filter_None_upd:
  assumes "i < length xs" "distinct xs" "None \<notin> set xs"
  shows "filter (\<lambda>x. x \<noteq> None) (xs[i := None]) = remove1 (xs ! i) xs"
proof -
  have xs: "xs = take i xs @ xs ! i # drop (Suc i) xs" using assms(1) by (rule id_take_nth_drop)
  moreover have "xs ! i \<notin> set (take i xs)"
    using assms(2) xs by (metis disjoint_insert(1) distinct_append list.simps(15))
  ultimately have "remove1 (xs ! i) xs = take i xs @ drop (Suc i) xs" by (metis remove1_split)
  moreover have "filter (\<lambda>x. x \<noteq> None) ys = ys" if "set ys \<subseteq> set xs" for ys
    using that assms(3) by (intro filter_True ballI) (metis subsetD)
  ultimately show ?thesis
    using assms(1) by (simp add: upd_conv_take_nth_drop set_take_subset set_drop_subset)
qed

text \<open>The taken entry, and nothing else, leaves its queue.\<close>

lemma mlfq_take_list:
  assumes "queue_ok (mlfq_list s level)" "i < qsize s level" "queue s level i = Some p"
  shows "mlfq_list (mlfq_take level i p s) l =
    (if l = level then remove1 (Some p) (mlfq_list s l) else mlfq_list s l)"
proof -
  let ?t = "dispatch p s" and ?xs = "mlfq_list s level"
  let ?t' = "?t\<lparr>queue := (queue ?t)(level := (queue ?t level)(i := None))\<rparr>"
  have "row ((queue s level)(i := None)) (qsize s level) = (row (queue s level) (qsize s level))[i := None]"
    by (rule nth_equalityI) (auto simp: nth_list_update)
  then have "mlfq_list ?t' level = ?xs[i := None]" by (simp add: mlfq_list_def)
  moreover have "filter (\<lambda>x. x \<noteq> None) (?xs[i := None]) = remove1 (Some p) ?xs"
    using filter_None_upd [of i ?xs] assms by (auto simp: queue_ok_def mlfq_list_def)
  moreover have "mlfq_list ?t' l = mlfq_list s l" if "l \<noteq> level" using that by (simp add: mlfq_list_def)
  ultimately show ?thesis by (simp add: mlfq_take_def Let_def compact_list)
qed

definition runnable_entry :: "'a proc_state_scheme \<Rightarrow> nat option \<Rightarrow> bool" where
  "runnable_entry s x \<longleftrightarrow> (\<exists>p. x = Some p \<and> p_state (procs s p) = RUNNABLE)"

lemma mlfq_scan_from:
  assumes "k \<le> NPROC" "\<forall>p < NPROC. lock_free (ProcLock p) s" "unlocked s t"
    and "qsize s l \<le> NPROC" "set (mlfq_list s l) \<subseteq> Some ` {..<NPROC}"
  shows "(\<exists>i p. k \<le> i \<and> i < qsize s l \<and> queue s l i = Some p \<and> p_state (procs s p) = RUNNABLE \<and>
        (\<forall>j. k \<le> j \<and> j < i \<longrightarrow> \<not> runnable_entry s (queue s l j)) \<and>
        mlfq_scan l [k..<NPROC] t = Ret (Some p) (with_held {ProcLock p} (mlfq_take l i p s))) \<or>
    (\<forall>i. k \<le> i \<and> i < qsize s l \<longrightarrow> \<not> runnable_entry s (queue s l i)) \<and>
        (\<exists>t'. unlocked s t' \<and> mlfq_scan l [k..<NPROC] t = Ret None t')"
  using assms(1,3)
proof (induction k arbitrary: t rule: inc_induct)
  case base
  with assms(4) show ?case by auto
next
  case (step k)
  have u: "[k..<NPROC] = k # [Suc k..<NPROC]" using step.hyps(2) by (rule upt_conv_Cons)
  note sel = unlocked_sel [OF step.prems]
  show ?case
  proof (cases "k < qsize s l")
    case False
    then show ?thesis unfolding u using step.prems sel by (intro disjI2) auto
  next
    case True
    then have "queue s l k \<in> set (mlfq_list s l)" by (force simp: mlfq_list_def row_def)
    then obtain p where p: "queue s l k = Some p" "p < NPROC" using assms(5) by auto
    have lf: "lock_free (ProcLock p) s" using assms(2) p(2) by simp
    note acq = unlocked_acquire [OF step.prems lf]
    show ?thesis
    proof (cases "p_state (procs s p) = RUNNABLE")
      case run: True
      then have "mlfq_scan l [k..<NPROC] t = Ret (Some p) (with_held {ProcLock p} (mlfq_take l k p s))"
        unfolding u mlfq_scan.simps sel using True p acq
        by (simp add: lock_simps mlfq_take_def Let_def)
      with True run p show ?thesis by (intro disjI1 exI [of _ k] exI [of _ p]) auto
    next
      case False
      then have eq: "mlfq_scan l [k..<NPROC] t = mlfq_scan l [Suc k..<NPROC] (with_held {} s)"
        unfolding u mlfq_scan.simps sel using True p acq by (simp add: lock_simps release_last lf)
      have ge: "k \<le> i \<longleftrightarrow> i = k \<or> Suc k \<le> i" for i by auto
      have "\<not> runnable_entry s (queue s l k)" using False p by (simp add: runnable_entry_def)
      then show ?thesis
        using step.IH [OF unlocked_refl(1)] unfolding eq ge
        by (elim disjE) (rule disjI1, fastforce, rule disjI2, fastforce)
    qed
  qed
qed

lemma mlfq_list_split:
  assumes "i < qsize s l" "queue s l i = Some p"
  shows "mlfq_list s l = take i (mlfq_list s l) @ Some p # drop (Suc i) (mlfq_list s l)"
    and "\<forall>j < i. \<not> runnable_entry s (queue s l j) \<Longrightarrow>
      \<forall>x \<in> set (take i (mlfq_list s l)). \<not> runnable_entry s x"
  using assms id_take_nth_drop [of i "mlfq_list s l"]
  by (auto simp: mlfq_list_def in_set_conv_nth)

text \<open>The first runnable entry of the first level that has one.\<close>

definition mlfq_front :: "'a proc_state_scheme \<Rightarrow> nat \<Rightarrow> nat \<Rightarrow> nat \<Rightarrow> bool" where
  "mlfq_front s l i p \<longleftrightarrow> l < QUEUE_LEVELS \<and> i < qsize s l \<and> queue s l i = Some p \<and>
     p_state (procs s p) = RUNNABLE \<and> (\<forall>j < i. \<not> runnable_entry s (queue s l j)) \<and>
     (\<forall>l' < l. \<forall>x \<in> set (mlfq_list s l'). \<not> runnable_entry s x)"

lemma mlfq_levels_from:
  assumes "k \<le> QUEUE_LEVELS" "\<forall>p < NPROC. lock_free (ProcLock p) s" "unlocked s t" "mlfq_ok s"
    and "\<forall>l' < k. \<forall>x \<in> set (mlfq_list s l'). \<not> runnable_entry s x"
  shows "(\<exists>l i p. mlfq_front s l i p \<and>
        mlfq_levels [k..<QUEUE_LEVELS] t = Ret (Some p) (with_held {ProcLock p} (mlfq_take l i p s))) \<or>
    (\<forall>l < QUEUE_LEVELS. \<forall>x \<in> set (mlfq_list s l). \<not> runnable_entry s x) \<and>
        (\<exists>t'. unlocked s t' \<and> mlfq_levels [k..<QUEUE_LEVELS] t = Ret None t')"
  using assms(1,3,5)
proof (induction k arbitrary: t rule: inc_induct)
  case base
  then show ?case by auto
next
  case (step k)
  have u: "[k..<QUEUE_LEVELS] = k # [Suc k..<QUEUE_LEVELS]" using step.hyps(2) by (rule upt_conv_Cons)
  have ok: "queue_ok (mlfq_list s k)" using assms(4) step.hyps by (simp add: mlfq_ok_def)
  have "length (mlfq_list s k) = card (set (mlfq_list s k))"
    using ok by (simp add: queue_ok_def distinct_card)
  also have "\<dots> \<le> card (Some ` {..<NPROC})" using ok by (intro card_mono) (auto simp: queue_ok_def)
  finally have sz: "qsize s k \<le> NPROC" by (simp add: card_image mlfq_list_def)
  note scan = mlfq_scan_from [OF le0 assms(2) step.prems(1) sz, simplified]
  have sub: "set (mlfq_list s k) \<subseteq> Some ` {..<NPROC}" using ok by (simp add: queue_ok_def)
  from scan [OF sub] consider
    (found) i p where "mlfq_front s k i p"
      "mlfq_scan k [0..<NPROC] t = Ret (Some p) (with_held {ProcLock p} (mlfq_take k i p s))"
  | (none) t' where "\<forall>i < qsize s k. \<not> runnable_entry s (queue s k i)" "unlocked s t'"
      "mlfq_scan k [0..<NPROC] t = Ret None t'"
    using step.hyps step.prems(2) by (auto simp: mlfq_front_def)
  then show ?case
  proof cases
    case found
    then show ?thesis unfolding u by auto
  next
    case none
    have "\<forall>l' < Suc k. \<forall>x \<in> set (mlfq_list s l'). \<not> runnable_entry s x"
      using none(1) step.prems(2) by (auto simp: less_Suc_eq mlfq_list_def row_def)
    then show ?thesis using step.IH [OF none(2)] none(3) unfolding u by simp
  qed
qed

text \<open>Refilling empty queues: every runnable process, in table order, at its level.\<close>

lemma mlfq_refill_lists:
  assumes "finite H" "distinct qs" "set qs \<subseteq> {..<NPROC}" "mlfq_ok s"
    and "\<forall>q \<in> set qs. level_of s q < QUEUE_LEVELS \<and> Some q \<notin> set (mlfq_list s (level_of s q))"
  shows "\<exists>s'. mlfq_refill qs (with_held H s) = Ret () (with_held H s') \<and> mlfq_ok s' \<and>
    (\<forall>l. mlfq_list s' l = mlfq_list s l @
      map Some (filter (\<lambda>p. p_state (procs s p) = RUNNABLE \<and> level_of s p = l) qs)) \<and>
    procs s' = (\<lambda>p. if p \<in> set qs \<and> p_state (procs s p) = RUNNABLE
                     then (procs s p)\<lparr>p_time_slice := 0\<rparr> else procs s p) \<and>
    locks s' = locks s \<and> ticks s' = ticks s \<and> cpus s' = cpus s \<and> tp s' = tp s"
  using assms(2-)
proof (induction qs arbitrary: s)
  case Nil
  then show ?case by auto
next
  case (Cons q qs)
  show ?case
  proof (cases "p_state (procs s q) = RUNNABLE")
    case False
    with Cons.IH [of s] Cons.prems obtain s' where
      "mlfq_refill qs (with_held H s) = Ret () (with_held H s')" "mlfq_ok s'"
      "\<forall>l. mlfq_list s' l = mlfq_list s l @
        map Some (filter (\<lambda>p. p_state (procs s p) = RUNNABLE \<and> level_of s p = l) qs)"
      "procs s' = (\<lambda>p. if p \<in> set qs \<and> p_state (procs s p) = RUNNABLE
                     then (procs s p)\<lparr>p_time_slice := 0\<rparr> else procs s p)"
      "locks s' = locks s \<and> ticks s' = ticks s \<and> cpus s' = cpus s \<and> tp s' = tp s" by auto
    with False show ?thesis by (intro exI [of _ s']) (auto simp: with_held_proc fun_eq_iff)
  next
    case True
    let ?l = "level_of s q"
    have l: "?l < QUEUE_LEVELS" "q < NPROC" "Some q \<notin> set (mlfq_list s ?l)" using Cons.prems by auto
    have ok: "queue_ok (mlfq_list s ?l)" using Cons.prems(3) l(1) by (simp add: mlfq_ok_def)
    obtain Q N where e: "enqueue_to_mlfq q s = Ret () (s\<lparr>queue := Q, qsize := N\<rparr>)"
      "\<And>l. mlfq_list (s\<lparr>queue := Q, qsize := N\<rparr>) l =
        (if l = ?l then remove1 (Some q) (mlfq_list s l) @ [Some q] else mlfq_list s l)"
      using enqueue_list [OF queue_ok_room [OF ok l(2)]] by blast
    let ?s = "upd_proc q (\<lambda>x. x\<lparr>p_time_slice := 0\<rparr>) (s\<lparr>queue := Q, qsize := N\<rparr>)"
    have li: "mlfq_list (s\<lparr>queue := Q, qsize := N\<rparr>) l = mlfq_list s l @ (if l = ?l then [Some q] else [])" for l
      using e(2) [of l] l(3) by (simp add: remove1_idem)
    have ok': "mlfq_ok ?s"
      using Cons.prems(3) queue_ok_requeue [OF ok l(2)] l(3)
      by (auto simp: mlfq_ok_def li remove1_idem)
    have lv: "level_of ?s p = level_of s p" "p_state (procs ?s p) = p_state (procs s p)" for p
      by (simp_all add: level_of_def)
    have "\<exists>s'. mlfq_refill qs (with_held H ?s) = Ret () (with_held H s') \<and> mlfq_ok s' \<and>
      (\<forall>l. mlfq_list s' l = mlfq_list ?s l @
        map Some (filter (\<lambda>p. p_state (procs ?s p) = RUNNABLE \<and> level_of ?s p = l) qs)) \<and>
      procs s' = (\<lambda>p. if p \<in> set qs \<and> p_state (procs ?s p) = RUNNABLE
                     then (procs ?s p)\<lparr>p_time_slice := 0\<rparr> else procs ?s p) \<and>
      locks s' = locks ?s \<and> ticks s' = ticks ?s \<and> cpus s' = cpus ?s \<and> tp s' = tp ?s"
      using Cons.prems by (intro Cons.IH ok') (auto simp: lv li)
    then obtain s' where s': "mlfq_refill qs (with_held H ?s) = Ret () (with_held H s')" "mlfq_ok s'"
      "\<forall>l. mlfq_list s' l = mlfq_list ?s l @
        map Some (filter (\<lambda>p. p_state (procs s p) = RUNNABLE \<and> level_of s p = l) qs)"
      "procs s' = (\<lambda>p. if p \<in> set qs \<and> p_state (procs s p) = RUNNABLE
                     then (procs ?s p)\<lparr>p_time_slice := 0\<rparr> else procs ?s p)"
      "locks s' = locks s \<and> ticks s' = ticks s \<and> cpus s' = cpus s \<and> tp s' = tp s"
      unfolding lv by auto
    have "mlfq_refill (q # qs) (with_held H s) = Ret () (with_held H s')"
      using True s'(1) by (simp add: lock_simps e(1))
    with s'(2-) True Cons.prems(1) show ?thesis
      by (intro exI [of _ s']) (auto simp: li fun_eq_iff)
  qed
qed

section \<open>Properties\<close>

text \<open>
  C4: Under the FCFS policy, from the top of its loop and with no process lock taken, the scheduler
  dispatches the runnable process with the least arrival time (the first such entry of the table),
  holding that process's lock and no other, or idles when there is none.  A process whose arrival time is
  \<open>0xffffffff\<close>, the initial value of the minimum, is never chosen.
\<close>

theorem fcfs_dispatches_earliest:
  assumes "sched_ready s" "current_policy s = SCHED_FCFS"
  shows "\<exists>r. first_min (fcfs_elig (procs s) (ticks s)) (arrival (procs s) (ticks s)) NPROC r \<and>
    scheduler_iter s =
      (case r of
         None \<Rightarrow> Ret Idle (intr_on (with_held {} (intr_on s)))
       | Some p \<Rightarrow> Ret (Dispatch p (AfterRun p)) (with_held {ProcLock p} (dispatch p (intr_on s))))"
proof -
  obtain r where "fcfs_scan [0..<NPROC] None (- 1) (intr_on s) = Ret r (with_held (held_of r) (intr_on s))"
    "first_min (fcfs_elig (procs s) (ticks s)) (arrival (procs s) (ticks s)) NPROC r"
    using fcfs.scan_first_min [of "intr_on s" "(None, - 1)"] assms(1) by (auto simp: fcfs_track_def)
  with assms(2) show ?thesis
    by (intro exI [of _ r]) (auto simp: scheduler_iter_def SCHED_FCFS_def fcfs_round_def lock_simps
        split: option.splits)
qed

text \<open>
  C5: Under the priority policy the scheduler dispatches the runnable process with the numerically
  least priority, the first such entry of the table, holding exactly its lock.
\<close>

theorem prio_dispatches_least_priority:
  assumes "sched_ready s" "current_policy s = SCHED_PRIORITY"
  shows "\<exists>r. first_min (runnable (procs s) (ticks s)) (priority (procs s) (ticks s)) NPROC r \<and>
    scheduler_iter s =
      (case r of
         None \<Rightarrow> Ret Idle (intr_on (with_held {} (intr_on s)))
       | Some p \<Rightarrow> Ret (Dispatch p (AfterRun p)) (with_held {ProcLock p} (dispatch p (intr_on s))))"
proof -
  obtain r where "prio_scan [0..<NPROC] None (intr_on s) = Ret r (with_held (held_of r) (intr_on s))"
    "first_min (runnable (procs s) (ticks s)) (priority (procs s) (ticks s)) NPROC r"
    using prio.scan_first_min [of "intr_on s" None] assms(1) by auto
  with assms(2) show ?thesis
    by (intro exI [of _ r]) (auto simp: scheduler_iter_def SCHED_PRIORITY_def prio_round_def lock_simps
        split: option.splits)
qed

text \<open>
  C3: Under the HRRN policy, while the \<open>int\<close> products of its comparison do not overflow, the
  scheduler dispatches the runnable process with the greatest response ratio
  \<open>(waiting + service) / service\<close> as a rational number, and records the tick it starts at.
\<close>

theorem hrrn_dispatches_highest_ratio:
  assumes "sched_ready s" "current_policy s = SCHED_HRRN" "hrrn_fits (procs s) (ticks s)"
  shows "\<exists>r. first_min (runnable (procs s) (ticks s)) (\<lambda>p. - response_ratio (procs s) (ticks s) p) NPROC r \<and>
    scheduler_iter s =
      (case r of
         None \<Rightarrow> Ret Idle (intr_on (with_held {} (intr_on s)))
       | Some p \<Rightarrow> Ret (Dispatch p (AfterHrrn p)) (with_held {ProcLock p}
           (dispatch p (upd_proc p (\<lambda>x. x\<lparr>p_runtime_start_ticks := ticks s\<rparr>) (intr_on s)))))"
proof -
  obtain r where r: "hrrn_scan [0..<NPROC] None (- 1) 1 (intr_on s) = Ret r (with_held (held_of r) (intr_on s))"
    "first_min (runnable (procs s) (ticks s)) (\<lambda>p. - response_ratio (procs s) (ticks s) p) NPROC r"
    using hrrn.scan_first_min [of "intr_on s" "(None, - 1, 1)"] assms(1,3) by (auto simp: hrrn_track_def)
  have d: "set_cpu_proc (Some p) (upd_proc p (\<lambda>x. x\<lparr>p_state := RUNNING\<rparr>)
      (upd_proc p (\<lambda>x. x\<lparr>p_runtime_start_ticks := k\<rparr>) (account_wait p t))) =
      dispatch p (upd_proc p (\<lambda>x. x\<lparr>p_runtime_start_ticks := k\<rparr>) t)" for p k and t :: "'a proc_state_scheme"
    by (cases "procs t p") (simp add: dispatch_def account_wait_def Let_def upd_proc_def)
  from r assms(2) show ?thesis
    by (intro exI [of _ r]) (auto simp: scheduler_iter_def SCHED_HRRN_def hrrn_round_def lock_simps
        Let_def d split: option.splits)
qed

text \<open>
  C6: Round robin.  When the process \<open>p\<close> the scheduler has run gives the CPU back, the scheduler
  dispatches the next runnable process of the table after \<open>p\<close>; when there is none the round is over,
  and the next round starts at the first runnable process of the table.
\<close>

theorem rr_dispatches_next:
  assumes "\<forall>q < NPROC. lock_free (ProcLock q) s" "p < NPROC"
  shows "(\<exists>q. p < q \<and> q < NPROC \<and> p_state (procs s q) = RUNNABLE \<and>
      (\<forall>q'. p < q' \<and> q' < q \<longrightarrow> p_state (procs s q') \<noteq> RUNNABLE) \<and>
      scheduler_resume (AfterRR p [Suc p..<NPROC]) (with_held {ProcLock p} s) =
        Ret (Dispatch q (AfterRR q [Suc q..<NPROC])) (with_held {ProcLock q} (dispatch q (set_cpu_proc None s)))) \<or>
    (\<forall>q. p < q \<and> q < NPROC \<longrightarrow> p_state (procs s q) \<noteq> RUNNABLE) \<and>
      (\<exists>t. scheduler_resume (AfterRR p [Suc p..<NPROC]) (with_held {ProcLock p} s) = Ret Again t)"
proof -
  let ?s = "set_cpu_proc None s"
  have "scheduler_resume (AfterRR p [Suc p..<NPROC]) (with_held {ProcLock p} s) =
      rr_scan [Suc p..<NPROC] True (with_held {} ?s)"
    using assms by (simp add: lock_simps release_last)
  then show ?thesis
    using rr_scan_from [of "Suc p" ?s "with_held {} ?s" True] assms
    by (auto simp: lock_simps unlocked_refl Suc_le_eq)
qed

lemma queue_ok_remove: "queue_ok xs \<Longrightarrow> queue_ok (remove1 x xs)"
  by (auto simp: queue_ok_def dest: notin_set_remove1)

lemma mlfq_ok_take:
  assumes "mlfq_ok s" "mlfq_front s l i p"
  shows "mlfq_ok (mlfq_take l i p s)"
    "mlfq_list (mlfq_take l i p s) l' = (if l' = l then remove1 (Some p) (mlfq_list s l') else mlfq_list s l')"
proof -
  have "queue_ok (mlfq_list s l)" using assms by (simp add: mlfq_ok_def mlfq_front_def)
  then show "mlfq_list (mlfq_take l i p s) l' =
      (if l' = l then remove1 (Some p) (mlfq_list s l') else mlfq_list s l')" for l'
    using assms(2) by (intro mlfq_take_list) (auto simp: mlfq_front_def)
  with assms(1) show "mlfq_ok (mlfq_take l i p s)" by (simp add: mlfq_ok_def queue_ok_remove)
qed

lemma mlfq_front_list:
  assumes "mlfq_front s l i p" "mlfq_ok s"
  obtains xs ys where "mlfq_list s l = xs @ Some p # ys" "remove1 (Some p) (mlfq_list s l) = xs @ ys"
    "\<forall>x \<in> set xs. \<not> runnable_entry s x"
proof
  let ?xs = "take i (mlfq_list s l)" and ?ys = "drop (Suc i) (mlfq_list s l)"
  show e: "mlfq_list s l = ?xs @ Some p # ?ys" and n: "\<forall>x \<in> set ?xs. \<not> runnable_entry s x"
    using assms(1) mlfq_list_split [of i s l p] by (auto simp: mlfq_front_def)
  have "Some p \<notin> set ?xs"
    using n assms(1) by (auto simp: runnable_entry_def mlfq_front_def)
  then show "remove1 (Some p) (mlfq_list s l) = ?xs @ ?ys" by (metis e remove1_split)
qed

lemma mlfq_total_zero: "sum_list (map (qsize s) [0..<QUEUE_LEVELS]) = 0 \<longleftrightarrow> (\<forall>l < QUEUE_LEVELS. mlfq_list s l = [])"
  by (auto simp: sum_list_eq_0_iff mlfq_list_def row_def)

lemma mlfq_round_front:
  assumes "sched_ready s" "current_policy s = SCHED_MLFQ" "mlfq_ok s"
    and "\<exists>l < QUEUE_LEVELS. mlfq_list s l \<noteq> []"
  shows "(\<exists>l p xs ys s'. l < QUEUE_LEVELS \<and> mlfq_list s l = xs @ Some p # ys \<and>
      p_state (procs s p) = RUNNABLE \<and> (\<forall>x \<in> set xs. \<not> runnable_entry s x) \<and>
      (\<forall>l' < l. \<forall>x \<in> set (mlfq_list s l'). \<not> runnable_entry s x) \<and>
      scheduler_iter s = Ret (Dispatch p (AfterRun p)) (with_held {ProcLock p} s') \<and>
      mlfq_list s' = (mlfq_list s)(l := xs @ ys) \<and> procs s' = procs (dispatch p s) \<and>
      cpu_proc (cpus s' (tp s')) = Some p \<and> mlfq_ok s') \<or>
    (\<forall>l < QUEUE_LEVELS. \<forall>x \<in> set (mlfq_list s l). \<not> runnable_entry s x) \<and>
      (\<exists>t. scheduler_iter s = Ret Idle t \<and> procs t = procs s \<and> mlfq_list t = mlfq_list s)"
proof -
  let ?s = "intr_on s"
  have li: "mlfq_list ?s = mlfq_list s" by simp
  have re: "runnable_entry ?s = runnable_entry s" by (simp add: runnable_entry_def fun_eq_iff)
  have ok: "mlfq_ok ?s" using assms(3) by (simp add: mlfq_ok_def li)
  have round: "scheduler_iter s = bnd (mlfq_levels [0..<QUEUE_LEVELS] ?s) (\<lambda>found t.
      case found of Some p \<Rightarrow> Ret (Dispatch p (AfterRun p)) t | None \<Rightarrow> Ret Idle (intr_on t))"
    using assms(2,4) mlfq_total_zero [of s]
    by (auto simp: scheduler_iter_def SCHED_MLFQ_def mlfq_round_def Let_def)
  have "\<forall>p < NPROC. lock_free (ProcLock p) ?s" "quiet ?s" using assms(1) by (simp_all add: sched_ready_def)
  from mlfq_levels_from [OF le0 this(1) unlocked_refl(2) [OF this(2)] ok] consider
    (found) l i p where "mlfq_front ?s l i p"
      "mlfq_levels [0..<QUEUE_LEVELS] ?s = Ret (Some p) (with_held {ProcLock p} (mlfq_take l i p ?s))"
  | (none) t where "\<forall>l < QUEUE_LEVELS. \<forall>x \<in> set (mlfq_list ?s l). \<not> runnable_entry ?s x" "unlocked ?s t"
      "mlfq_levels [0..<QUEUE_LEVELS] ?s = Ret None t"
    by auto
  then show ?thesis
  proof cases
    case found
    note take = mlfq_ok_take [OF ok found(1)]
    obtain xs ys where xy: "mlfq_list s l = xs @ Some p # ys"
        "remove1 (Some p) (mlfq_list s l) = xs @ ys" "\<forall>x \<in> set xs. \<not> runnable_entry s x"
      using mlfq_front_list [OF found(1) ok] unfolding li re by blast
    have "l < QUEUE_LEVELS" "p_state (procs s p) = RUNNABLE"
      "\<forall>l' < l. \<forall>x \<in> set (mlfq_list s l'). \<not> runnable_entry s x"
      using found(1) unfolding mlfq_front_def li re by auto
    moreover have "mlfq_list (mlfq_take l i p ?s) = (mlfq_list s)(l := xs @ ys)"
      using take(2) by (auto simp: li xy(2) fun_eq_iff)
    moreover have "scheduler_iter s = Ret (Dispatch p (AfterRun p)) (with_held {ProcLock p} (mlfq_take l i p ?s))"
      using found(2) round by simp
    moreover have "cpu_proc (cpus (mlfq_take l i p ?s) (tp (mlfq_take l i p ?s))) = Some p"
      using dispatch_sel(8) [of p ?s] by simp
    ultimately show ?thesis using xy take(1)
      by (intro disjI1 exI [of _ l] exI [of _ p] exI [of _ xs] exI [of _ ys] exI [of _ "mlfq_take l i p ?s"]) simp
  next
    case none
    have "scheduler_iter s = Ret Idle (intr_on t)" using none(3) round by simp
    moreover have "mlfq_list (intr_on t) = mlfq_list s"
      using unlocked_sel(6) [OF none(2)] by simp
    ultimately show ?thesis using none(1) unlocked_sel(1) [OF none(2)] unfolding li re by auto
  qed
qed

text \<open>
  C1: Under the MLFQ policy with non-empty queues, the scheduler dispatches the first runnable
  process of the highest level (lowest number) that has one.  Exactly its entry leaves the queues,
  no other process changes, and the queues stay well-formed.  It idles when no entry is runnable.
\<close>

theorem mlfq_dispatches_front:
  assumes "sched_ready s" "current_policy s = SCHED_MLFQ" "mlfq_ok s"
    and "\<exists>l < QUEUE_LEVELS. mlfq_list s l \<noteq> []"
  shows "(\<exists>l p xs ys s'. l < QUEUE_LEVELS \<and> mlfq_list s l = xs @ Some p # ys \<and>
      p_state (procs s p) = RUNNABLE \<and> (\<forall>x \<in> set xs. \<not> runnable_entry s x) \<and>
      (\<forall>l' < l. \<forall>x \<in> set (mlfq_list s l'). \<not> runnable_entry s x) \<and>
      scheduler_iter s = Ret (Dispatch p (AfterRun p)) (with_held {ProcLock p} s') \<and>
      mlfq_list s' = (mlfq_list s)(l := xs @ ys) \<and> procs s' = procs (dispatch p s) \<and>
      cpu_proc (cpus s' (tp s')) = Some p \<and> mlfq_ok s') \<or>
    (\<forall>l < QUEUE_LEVELS. \<forall>x \<in> set (mlfq_list s l). \<not> runnable_entry s x) \<and>
      (\<exists>t. scheduler_iter s = Ret Idle t \<and> procs t = procs s \<and> mlfq_list t = mlfq_list s)"
  using assms by (rule mlfq_round_front)

lemma level_of_intr_on [simp]: "level_of (intr_on s) = level_of s"
  by (simp add: level_of_def fun_eq_iff)

lemma filter_upt_head:
  assumes "filter P [0..<n] = p # ys"
  shows "p < n" "P p" "\<forall>q < p. \<not> P q"
proof -
  obtain us vs where u: "[0..<n] = us @ p # vs" "\<forall>u \<in> set us. \<not> P u" "P p"
    using assms by (auto simp: filter_eq_Cons_iff)
  have s: "sorted (us @ p # vs)" using u(1) by (metis sorted_upt)
  show n: "p < n" using arg_cong [OF u(1), of set] by auto
  show "P p" by (rule u(3))
  show "\<forall>q < p. \<not> P q"
  proof (intro allI impI)
    fix q assume "q < p"
    then have "q \<in> set (us @ p # vs)" using n u(1) [symmetric] by simp
    with \<open>q < p\<close> s have "q \<in> set us" by (auto simp: sorted_append)
    with u(2) show "\<not> P q" by blast
  qed
qed

lemma remove1_filter_upt:
  "remove1 (Some p) (map Some (filter P [0..<n])) = map Some (filter (\<lambda>q. q \<noteq> p \<and> P q) [0..<n])"
proof -
  have "remove1 (Some p) (map Some (filter P [0..<n])) = removeAll (Some p) (map Some (filter P [0..<n]))"
    by (rule distinct_remove1_removeAll) (simp add: distinct_map)
  moreover have "removeAll (Some p) (map Some xs) = map Some (filter (\<lambda>q. q \<noteq> p) xs)" for xs
    by (induction xs) auto
  ultimately show ?thesis by (simp add: conj_commute)
qed

text \<open>
  C2: Under the MLFQ policy with all queues empty, the scheduler first enqueues every runnable
  process, in table order, at its level; so when there is one, it dispatches the first entry of the
  table among the runnable processes with the least level, and all others are queued afterwards.
\<close>

theorem mlfq_refills_empty_queues:
  assumes "sched_ready s" "current_policy s = SCHED_MLFQ" "\<forall>l < QUEUE_LEVELS. mlfq_list s l = []"
    and "\<forall>p < NPROC. level_of s p < QUEUE_LEVELS"
    and "\<exists>p < NPROC. p_state (procs s p) = RUNNABLE"
  shows "\<exists>p s'. first_min (runnable (procs s) (ticks s)) (level_of s) NPROC (Some p) \<and>
    scheduler_iter s = Ret (Dispatch p (AfterRun p)) (with_held {ProcLock p} s') \<and> mlfq_ok s' \<and>
    (\<forall>l < QUEUE_LEVELS. mlfq_list s' l = map Some (filter
       (\<lambda>q. q \<noteq> p \<and> p_state (procs s q) = RUNNABLE \<and> level_of s q = l) [0..<NPROC]))"
proof -
  let ?s = "intr_on s" and ?L = "\<lambda>l. filter (\<lambda>q. p_state (procs s q) = RUNNABLE \<and> level_of s q = l) [0..<NPROC]"
  have q: "quiet ?s" and lf: "lock_free MlfqLock ?s" "\<forall>p < NPROC. lock_free (ProcLock p) ?s"
    using assms(1) by (simp_all add: sched_ready_def)
  have ok: "mlfq_ok ?s" using assms(3) by (simp add: mlfq_ok_def queue_ok_def)
  obtain s2 where s2: "mlfq_refill [0..<NPROC] (with_held {MlfqLock} ?s) = Ret () (with_held {MlfqLock} s2)"
    "mlfq_ok s2" "\<forall>l. mlfq_list s2 l = mlfq_list s l @ map Some (?L l)"
    "\<forall>p. p_state (procs s2 p) = p_state (procs s p)" "locks s2 = locks ?s"
    using mlfq_refill_lists [of "{MlfqLock}" "[0..<NPROC]" ?s] ok assms(3,4) by (auto simp: subset_eq)
  have lf2: "lock_free MlfqLock s2" "\<forall>p < NPROC. lock_free (ProcLock p) s2"
    using lf s2(5) by (simp_all add: lock_free_def)
  have L: "mlfq_list s2 l = map Some (?L l)" if "l < QUEUE_LEVELS" for l using s2(3) assms(3) that by simp
  have round: "scheduler_iter s = bnd (mlfq_levels [0..<QUEUE_LEVELS] (with_held {} s2)) (\<lambda>found t.
      case found of Some p \<Rightarrow> Ret (Dispatch p (AfterRun p)) t | None \<Rightarrow> Ret Idle (intr_on t))"
    using assms(2,3) mlfq_total_zero [of s] s2(1) q lf(1) lf2(1)
    by (simp add: scheduler_iter_def SCHED_MLFQ_def mlfq_round_def Let_def acquire_quiet release_last)
  have re: "runnable_entry s2 (Some p) \<longleftrightarrow> p_state (procs s p) = RUNNABLE" for p
    using s2(4) by (simp add: runnable_entry_def)
  have "\<not> (\<forall>l < QUEUE_LEVELS. \<forall>x \<in> set (mlfq_list s2 l). \<not> runnable_entry s2 x)"
    using assms(4,5) by (force simp: L re)
  then obtain l i p where f: "mlfq_front s2 l i p" and
    lv: "mlfq_levels [0..<QUEUE_LEVELS] (with_held {} s2) = Ret (Some p) (with_held {ProcLock p} (mlfq_take l i p s2))"
    using mlfq_levels_from [OF le0 lf2(2) unlocked_refl(1) s2(2)] by auto
  have l: "l < QUEUE_LEVELS" using f by (simp add: mlfq_front_def)
  have hi: "l \<le> level_of s q" if "q < NPROC" "p_state (procs s q) = RUNNABLE" for q
  proof (rule leI, rule notI)
    assume "level_of s q < l"
    moreover from this have "Some q \<in> set (mlfq_list s2 (level_of s q))" using that l by (simp add: L)
    moreover have "runnable_entry s2 (Some q)" using that(2) by (simp add: re)
    ultimately show False using f unfolding mlfq_front_def by blast
  qed
  obtain xs ys where xy: "mlfq_list s2 l = xs @ Some p # ys" "\<forall>x \<in> set xs. \<not> runnable_entry s2 x"
    by (rule mlfq_front_list [OF f s2(2)])
  have eq: "map Some (?L l) = xs @ Some p # ys" using xy(1) L [OF l] by (rule trans [OF sym, rotated])
  have "\<forall>x \<in> set (map Some (?L l)). runnable_entry s2 x" by (simp add: re)
  then have "\<forall>x \<in> set xs. runnable_entry s2 x" unfolding eq by simp
  then have "xs = []" using xy(2) by (metis list.set_intros(1) neq_Nil_conv)
  then obtain zs where hd: "?L l = p # zs" using eq by (simp add: map_eq_Cons_conv) blast
  note p = filter_upt_head [OF hd]
  have "first_min (runnable (procs s) (ticks s)) (level_of s) NPROC (Some p)"
    unfolding first_min_def runnable_def option.case
    using p hi by (metis order.strict_trans order_le_less)
  moreover have "mlfq_list (mlfq_take l i p s2) l' = map Some (filter
      (\<lambda>q. q \<noteq> p \<and> p_state (procs s q) = RUNNABLE \<and> level_of s q = l') [0..<NPROC])"
    if "l' < QUEUE_LEVELS" for l'
  proof (cases "l' = l")
    case True
    then show ?thesis unfolding mlfq_ok_take(2) [OF s2(2) f] L [OF that] by (simp add: remove1_filter_upt)
  next
    case False
    then show ?thesis unfolding mlfq_ok_take(2) [OF s2(2) f] L [OF that]
      using p(2) by (simp, intro filter_cong) auto
  qed
  ultimately show ?thesis using lv round mlfq_ok_take(1) [OF s2(2) f] by auto
qed

subsection \<open>Witnesses\<close>

definition zero_proc :: proc where
  "zero_proc = \<lparr>p_state = UNUSED, p_chan = None, p_killed = 0, p_xstate = 0, p_pid = 0, p_parent = None,
     p_kstack = 0, p_sz = 0, p_pagetable = 0, p_trapframe = 0, p_context = zero_context,
     p_ofile = replicate NOFILE None, p_cwd = None, p_name = replicate 16 0, p_arrival_time = 0,
     p_priority = 0, p_last_runtime = 0, p_runtime_start_ticks = 0, p_queue_level = 0, p_time_slice = 0,
     p_total_ticks = 0, p_ready_time = 0, p_run_start_time = 0, p_waiting_time = 0\<rparr>"

text \<open>
  Two runnable processes: entry 1 has arrived first and has level 1, entry 2 has the better priority
  and the higher response ratio, and level 0.
\<close>

definition demo_procs :: "nat \<Rightarrow> proc" where
  "demo_procs = (\<lambda>_. zero_proc)
     (1 := zero_proc\<lparr>p_state := RUNNABLE, p_pid := 1, p_arrival_time := 3, p_priority := 10,
        p_last_runtime := 9, p_queue_level := 1\<rparr>,
      2 := zero_proc\<lparr>p_state := RUNNABLE, p_pid := 2, p_arrival_time := 8, p_priority := 5,
        p_last_runtime := 1\<rparr>)"

definition demo_sched :: "i32 \<Rightarrow> (nat \<Rightarrow> nat \<Rightarrow> nat option) \<Rightarrow> (nat \<Rightarrow> nat) \<Rightarrow> proc_state" where
  "demo_sched policy Q N = \<lparr>tp = 0, sstatus = (\<lambda>_. 0), cpus = (\<lambda>_. zero_cpu), locks = (\<lambda>_. zero_lock),
     mem = (\<lambda>_. 0), freelist = 0, kend = 0x80020000, kernel_pagetable = 0, etext = 0, trampoline = 0,
     satp = (\<lambda>_. 0), procs = demo_procs, nextpid = 3, initproc = Some 1, ticks = 12,
     current_policy = policy, queue = Q, qsize = N, forkret_addr = 0\<rparr>"

lemma demo_sched_ready: "sched_ready (demo_sched policy Q N)"
  by (simp add: sched_ready_def demo_sched_def quiet_def zero_cpu_def lock_free_def zero_lock_def)

lemma demo_sched_sel [simp]:
  "procs (demo_sched policy Q N) = demo_procs" "ticks (demo_sched policy Q N) = 12"
  "current_policy (demo_sched policy Q N) = policy" "queue (demo_sched policy Q N) = Q"
  "qsize (demo_sched policy Q N) = N"
  by (simp_all add: demo_sched_def)

lemma demo_runnable: "p_state (demo_procs p) = RUNNABLE \<longleftrightarrow> p = 1 \<or> p = 2"
  by (simp add: demo_procs_def zero_proc_def)

lemma first_minD:
  assumes "first_min elig key n r" "p < n" "elig p" "\<And>q. elig q \<Longrightarrow> q \<noteq> p \<Longrightarrow> key p < key q"
  shows "r = Some p"
  using assms by (cases r) (force simp: first_min_def not_less [symmetric])+

theorem fcfs_dispatches_earliest_witness:
  "\<exists>t. scheduler_iter (demo_sched SCHED_FCFS (\<lambda>_ _. None) (\<lambda>_. 0)) = Ret (Dispatch 1 (AfterRun 1)) t"
proof -
  obtain r where r: "first_min (fcfs_elig demo_procs 12) (arrival demo_procs 12) NPROC r"
    "scheduler_iter (demo_sched SCHED_FCFS (\<lambda>_ _. None) (\<lambda>_. 0)) =
      (case r of
         None \<Rightarrow> Ret Idle (intr_on (with_held {} (intr_on (demo_sched SCHED_FCFS (\<lambda>_ _. None) (\<lambda>_. 0)))))
       | Some p \<Rightarrow> Ret (Dispatch p (AfterRun p)) (with_held {ProcLock p}
           (dispatch p (intr_on (demo_sched SCHED_FCFS (\<lambda>_ _. None) (\<lambda>_. 0))))))"
    using fcfs_dispatches_earliest [OF demo_sched_ready, of SCHED_FCFS "\<lambda>_ _. None" "\<lambda>_. 0"] by auto
  have "r = Some 1"
    by (rule first_minD [OF r(1)])
       (auto simp: NPROC_def fcfs_elig_def demo_runnable arrival_def, auto simp: demo_procs_def zero_proc_def)
  with r(2) show ?thesis by simp
qed

theorem prio_dispatches_least_priority_witness:
  "\<exists>t. scheduler_iter (demo_sched SCHED_PRIORITY (\<lambda>_ _. None) (\<lambda>_. 0)) = Ret (Dispatch 2 (AfterRun 2)) t"
proof -
  obtain r where r: "first_min (runnable demo_procs 12) (priority demo_procs 12) NPROC r"
    "scheduler_iter (demo_sched SCHED_PRIORITY (\<lambda>_ _. None) (\<lambda>_. 0)) =
      (case r of
         None \<Rightarrow> Ret Idle (intr_on (with_held {} (intr_on (demo_sched SCHED_PRIORITY (\<lambda>_ _. None) (\<lambda>_. 0)))))
       | Some p \<Rightarrow> Ret (Dispatch p (AfterRun p)) (with_held {ProcLock p}
           (dispatch p (intr_on (demo_sched SCHED_PRIORITY (\<lambda>_ _. None) (\<lambda>_. 0))))))"
    using prio_dispatches_least_priority [OF demo_sched_ready, of SCHED_PRIORITY "\<lambda>_ _. None" "\<lambda>_. 0"] by auto
  have "r = Some 2"
    by (rule first_minD [OF r(1)])
       (auto simp: NPROC_def runnable_def demo_runnable priority_def, auto simp: demo_procs_def zero_proc_def)
  with r(2) show ?thesis by simp
qed

lemma demo_times:
  "wait_time 12 (demo_procs (Suc 0)) = 9" "service_time (demo_procs (Suc 0)) = 9"
  "wait_time 12 (demo_procs 2) = 4" "service_time (demo_procs 2) = 1"
  by (simp_all add: wait_time_def service_time_def demo_procs_def zero_proc_def word_sless_alt)

lemma demo_hrrn_fits: "hrrn_fits demo_procs 12"
  by (auto simp: hrrn_fits_def demo_runnable demo_times)

theorem hrrn_dispatches_highest_ratio_witness:
  "\<exists>t. scheduler_iter (demo_sched SCHED_HRRN (\<lambda>_ _. None) (\<lambda>_. 0)) = Ret (Dispatch 2 (AfterHrrn 2)) t"
proof -
  have "hrrn_fits (procs (demo_sched SCHED_HRRN (\<lambda>_ _. None) (\<lambda>_. 0)))
      (ticks (demo_sched SCHED_HRRN (\<lambda>_ _. None) (\<lambda>_. 0)))"
    by (simp add: demo_hrrn_fits)
  from hrrn_dispatches_highest_ratio [OF demo_sched_ready _ this] obtain r where
    r: "first_min (runnable demo_procs 12) (\<lambda>p. - response_ratio demo_procs 12 p) NPROC r"
    and it: "\<And>p. r = Some p \<Longrightarrow>
      \<exists>t. scheduler_iter (demo_sched SCHED_HRRN (\<lambda>_ _. None) (\<lambda>_. 0)) = Ret (Dispatch p (AfterHrrn p)) t"
    by auto
  have "r = Some 2"
    by (rule first_minD [OF r]) (auto simp: NPROC_def runnable_def demo_runnable response_ratio_def demo_times)
  with it show ?thesis by simp
qed

theorem rr_dispatches_next_witness:
  "\<exists>t. scheduler_resume (AfterRR 1 [Suc 1..<NPROC])
      (with_held {ProcLock 1} (demo_sched SCHED_RR (\<lambda>_ _. None) (\<lambda>_. 0))) =
    Ret (Dispatch 2 (AfterRR 2 [Suc 2..<NPROC])) t"
proof -
  have lf: "\<forall>q < NPROC. lock_free (ProcLock q) (demo_sched SCHED_RR (\<lambda>_ _. None) (\<lambda>_. 0))"
    using demo_sched_ready by (auto simp: sched_ready_def)
  have n: "Suc 0 < NPROC" "2 < NPROC" by (simp_all add: NPROC_def)
  from rr_dispatches_next [OF lf n(1)] show ?thesis
    using n by (auto simp: demo_runnable simp del: scheduler_resume.simps)
qed

definition demo_queue :: "nat \<Rightarrow> nat \<Rightarrow> nat option" where
  "demo_queue = (\<lambda>_ _. None)(1 := (\<lambda>_. None)(0 := Some 3, 1 := Some 1))"

text \<open>Level 1 holds the entry 3, which is not runnable, and the entry 1, which is.\<close>

lemma demo_queue_lists:
  "mlfq_list (demo_sched policy demo_queue ((\<lambda>_. 0)(1 := 2))) =
     (\<lambda>_. [])(1 := [Some 3, Some 1])"
  by (rule ext) (auto simp: mlfq_list_def row_def demo_queue_def upt_rec)

theorem mlfq_dispatches_front_witness:
  "\<exists>s'. scheduler_iter (demo_sched SCHED_MLFQ demo_queue ((\<lambda>_. 0)(1 := 2))) =
      Ret (Dispatch 1 (AfterRun 1)) (with_held {ProcLock 1} s') \<and> mlfq_list s' 1 = [Some 3]"
proof -
  let ?s = "demo_sched SCHED_MLFQ demo_queue ((\<lambda>_. 0)(1 := 2))"
  have ok: "mlfq_ok ?s" unfolding mlfq_ok_def demo_queue_lists by (auto simp: queue_ok_def NPROC_def)
  have ne: "\<exists>l < QUEUE_LEVELS. mlfq_list ?s l \<noteq> []"
    unfolding demo_queue_lists by (auto simp: QUEUE_LEVELS_def)
  have re: "\<not> (\<forall>l < QUEUE_LEVELS. \<forall>x \<in> set (mlfq_list ?s l). \<not> runnable_entry ?s x)"
    unfolding demo_queue_lists by (auto simp: QUEUE_LEVELS_def runnable_entry_def demo_runnable)
  from mlfq_dispatches_front [OF demo_sched_ready _ ok ne] obtain l p xs ys s' where
    m: "mlfq_list ?s l = xs @ Some p # ys" "p_state (demo_procs p) = RUNNABLE" and
    it: "scheduler_iter ?s = Ret (Dispatch p (AfterRun p)) (with_held {ProcLock p} s')"
      "mlfq_list s' = (mlfq_list ?s)(l := xs @ ys)"
    using re by auto
  have "l = 1 \<and> p = 1 \<and> xs @ ys = [Some 3]"
    using m unfolding demo_queue_lists demo_runnable
    by (cases "l = 1") (auto simp: Cons_eq_append_conv append_eq_Cons_conv)
  with it show ?thesis by auto
qed

theorem mlfq_refills_empty_queues_witness:
  "\<exists>s'. scheduler_iter (demo_sched SCHED_MLFQ (\<lambda>_ _. None) (\<lambda>_. 0)) =
      Ret (Dispatch 2 (AfterRun 2)) (with_held {ProcLock 2} s') \<and> Some 1 \<in> set (mlfq_list s' 1)"
proof -
  let ?s = "demo_sched SCHED_MLFQ (\<lambda>_ _. None) (\<lambda>_. 0)"
  have e: "\<forall>l < QUEUE_LEVELS. mlfq_list ?s l = []" by (simp add: mlfq_list_def row_def)
  have lv: "level_of ?s q = (if q = 1 then 1 else 0)" for q
    by (simp add: level_of_def demo_procs_def zero_proc_def)
  have l: "\<forall>p < NPROC. level_of ?s p < QUEUE_LEVELS" by (simp add: lv QUEUE_LEVELS_def)
  have r: "\<exists>p < NPROC. p_state (procs ?s p) = RUNNABLE"
    by (intro exI [of _ 1]) (simp add: demo_runnable NPROC_def)
  from mlfq_refills_empty_queues [OF demo_sched_ready _ e l r] obtain p s' where
    p: "first_min (runnable demo_procs 12) (level_of ?s) NPROC (Some p)" and
    it: "scheduler_iter ?s = Ret (Dispatch p (AfterRun p)) (with_held {ProcLock p} s')"
      "mlfq_list s' 1 = map Some (filter
       (\<lambda>q. q \<noteq> p \<and> p_state (demo_procs q) = RUNNABLE \<and> level_of ?s q = 1) [0..<NPROC])"
    by (auto simp: QUEUE_LEVELS_def)
  have "p = 2"
    using first_minD [OF p, of 2] by (auto simp: NPROC_def runnable_def demo_runnable lv)
  with it show ?thesis by (auto simp: demo_runnable lv NPROC_def)
qed

section \<open>The queue operations\<close>

text \<open>
  C7: \<open>enqueue_to_mlfq\<close> on well-formed queues never panics for a full queue.  It moves the process to
  the back of the queue of its level, or appends it there, leaves the other levels alone and keeps
  the queues well-formed.
\<close>

theorem enqueue_moves_to_back:
  assumes "mlfq_ok s" "p < NPROC" "level_of s p < QUEUE_LEVELS"
  shows "\<exists>s'. enqueue_to_mlfq p s = Ret () s' \<and> mlfq_ok s' \<and> procs s' = procs s \<and>
    mlfq_list s' = (mlfq_list s)(level_of s p := remove1 (Some p) (mlfq_list s (level_of s p)) @ [Some p])"
proof -
  have ok: "queue_ok (mlfq_list s (level_of s p))" using assms by (simp add: mlfq_ok_def)
  show ?thesis
  proof (rule enqueue_list [OF queue_ok_room [OF ok assms(2)]])
    fix q n
    assume e: "enqueue_to_mlfq p s = Ret () (s\<lparr>queue := q, qsize := n\<rparr>)"
      and l: "\<And>l. mlfq_list (s\<lparr>queue := q, qsize := n\<rparr>) l =
        (if l = level_of s p then remove1 (Some p) (mlfq_list s l) @ [Some p] else mlfq_list s l)"
    have "mlfq_ok (s\<lparr>queue := q, qsize := n\<rparr>)"
      using assms(1) queue_ok_requeue [OF ok assms(2)] by (auto simp: mlfq_ok_def l)
    with e l show ?thesis by (auto simp: fun_eq_iff)
  qed
qed

theorem enqueue_moves_to_back_witness:
  "\<exists>s'. enqueue_to_mlfq 1 (demo_sched SCHED_MLFQ demo_queue ((\<lambda>_. 0)(1 := 2))) = Ret () s' \<and>
    mlfq_list s' 1 = [Some 3, Some 1]"
proof -
  let ?s = "demo_sched SCHED_MLFQ demo_queue ((\<lambda>_. 0)(1 := 2))"
  have ok: "mlfq_ok ?s" unfolding mlfq_ok_def demo_queue_lists by (auto simp: queue_ok_def NPROC_def)
  have lv: "level_of ?s 1 = 1" by (simp add: level_of_def demo_procs_def)
  then have l: "level_of ?s 1 < QUEUE_LEVELS" by (simp add: QUEUE_LEVELS_def)
  have n: "1 < NPROC" by (simp add: NPROC_def)
  show ?thesis using enqueue_moves_to_back [OF ok n l] unfolding lv demo_queue_lists by auto
qed

end
