(* ===== verification/ProcSync.thy ===== *)
theory ProcSync
  imports SchedPolicy
begin

text \<open>
  Sleeping, waking, yielding and killing: what \<open>sleep\<close>, \<open>wakeup\<close>, \<open>yield\<close>, \<open>kill\<close> and their helpers
  do on every branch, in terms of the normal form \<open>with_held\<close>.
\<close>

section \<open>Enqueueing\<close>

definition requeue_all :: "nat list \<Rightarrow> nat option list \<Rightarrow> nat option list" where
  "requeue_all ps xs = fold (\<lambda>p xs. remove1 (Some p) xs @ [Some p]) ps xs"

lemma requeue_all_simps [simp]:
  "requeue_all [] xs = xs" "requeue_all (p # ps) xs = requeue_all ps (remove1 (Some p) xs @ [Some p])"
  by (simp_all add: requeue_all_def)

lemma set_requeue_all: "set (requeue_all ps xs) = Some ` set ps \<union> set xs"
proof (induction ps arbitrary: xs)
  case (Cons p ps)
  then show ?case using insert_set_remove1 [of "Some p" xs] by auto
qed simp

text \<open>The states in which the process code is called: its locks are free.\<close>

definition proc_locks_free :: "'a proc_state_scheme \<Rightarrow> bool" where
  "proc_locks_free s \<longleftrightarrow> lock_free MlfqLock s \<and> (\<forall>p < NPROC. lock_free (ProcLock p) s)"

definition mlfq_good :: "'a proc_state_scheme \<Rightarrow> bool" where
  "mlfq_good s \<longleftrightarrow> mlfq_ok s \<and> (\<forall>p < NPROC. level_of s p < QUEUE_LEVELS)"

lemma proc_locks_free_upd [simp]:
  "proc_locks_free (s\<lparr>procs := x\<rparr>) = proc_locks_free s"
  "proc_locks_free (s\<lparr>queue := q\<rparr>) = proc_locks_free s"
  "proc_locks_free (s\<lparr>qsize := n\<rparr>) = proc_locks_free s"
  "proc_locks_free (upd_proc p f s) = proc_locks_free s"
  by (simp_all add: proc_locks_free_def lock_simps)

lemma enqueue_if_mlfq_with_held:
  assumes "finite H" "MlfqLock \<notin> H" "lock_free MlfqLock s" "mlfq_good s" "p < NPROC"
  shows "\<exists>q n. enqueue_if_mlfq p (with_held H s) = Ret () (with_held H (s\<lparr>queue := q, qsize := n\<rparr>)) \<and>
    mlfq_good (s\<lparr>queue := q, qsize := n\<rparr>) \<and>
    (\<forall>l. mlfq_list (s\<lparr>queue := q, qsize := n\<rparr>) l =
      (if current_policy s = SCHED_MLFQ \<and> l = level_of s p
       then remove1 (Some p) (mlfq_list s l) @ [Some p] else mlfq_list s l))"
proof (cases "current_policy s = SCHED_MLFQ")
  case False
  then show ?thesis
    using assms by (intro exI [of _ "queue s"] exI [of _ "qsize s"]) (simp add: enqueue_if_mlfq_def lock_simps)
next
  case True
  have ok: "mlfq_ok s" "level_of s p < QUEUE_LEVELS" using assms(4,5) by (auto simp: mlfq_good_def)
  then have qo: "queue_ok (mlfq_list s (level_of s p))" by (simp add: mlfq_ok_def)
  obtain q n where e: "enqueue_to_mlfq p s = Ret () (s\<lparr>queue := q, qsize := n\<rparr>)"
    "\<And>l. mlfq_list (s\<lparr>queue := q, qsize := n\<rparr>) l =
      (if l = level_of s p then remove1 (Some p) (mlfq_list s l) @ [Some p] else mlfq_list s l)"
    using enqueue_list [OF queue_ok_room [OF qo assms(5)]] by blast
  have "mlfq_ok (s\<lparr>queue := q, qsize := n\<rparr>)"
    using ok(1) queue_ok_requeue [OF qo assms(5)] by (auto simp: mlfq_ok_def e(2))
  then have "mlfq_good (s\<lparr>queue := q, qsize := n\<rparr>)"
    using assms(4) by (simp add: mlfq_good_def level_of_def)
  moreover have "enqueue_if_mlfq p (with_held H s) = Ret () (with_held H (s\<lparr>queue := q, qsize := n\<rparr>))"
    using True assms(1-3) e(1) by (simp add: enqueue_if_mlfq_def lock_simps)
  ultimately show ?thesis using e(2) True by (intro exI [of _ q] exI [of _ n]) simp
qed

section \<open>\<open>wakeup\<close>\<close>

definition wakes :: "'a proc_state_scheme \<Rightarrow> chan option \<Rightarrow> nat \<Rightarrow> bool" where
  "wakes s chan p \<longleftrightarrow> cpu_proc (cpus s (tp s)) \<noteq> Some p \<and>
     p_state (procs s p) = SLEEPING \<and> p_chan (procs s p) = chan"

definition wake_procs :: "'a proc_state_scheme \<Rightarrow> chan option \<Rightarrow> nat set \<Rightarrow> nat \<Rightarrow> proc" where
  "wake_procs s chan A p =
     (if p \<in> A \<and> wakes s chan p
      then (procs s p)\<lparr>p_state := RUNNABLE, p_ready_time := ticks s\<rparr> else procs s p)"

lemma wake_procs_none: "\<forall>p \<in> A. \<not> wakes s chan p \<Longrightarrow> wake_procs s chan A = procs s"
  by (auto simp: wake_procs_def fun_eq_iff)

definition wake_state ::
    "'a proc_state_scheme \<Rightarrow> chan option \<Rightarrow> nat list \<Rightarrow> (nat \<Rightarrow> nat \<Rightarrow> nat option) \<Rightarrow> (nat \<Rightarrow> nat) \<Rightarrow> 'a proc_state_scheme" where
  "wake_state s chan ps q n = s\<lparr>procs := wake_procs s chan (set ps), queue := q, qsize := n\<rparr>"

lemma wake_state_sel [simp]:
  "procs (wake_state s chan ps q n) = wake_procs s chan (set ps)" "ticks (wake_state s chan ps q n) = ticks s"
  "cpus (wake_state s chan ps q n) = cpus s" "tp (wake_state s chan ps q n) = tp s"
  "locks (wake_state s chan ps q n) = locks s" "current_policy (wake_state s chan ps q n) = current_policy s"
  "proc_locks_free (wake_state s chan ps q n) = proc_locks_free s"
  "lock_free k (wake_state s chan ps q n) = lock_free k s"
  by (simp_all add: wake_state_def lock_simps)

lemma level_of_wake: "level_of (wake_state s chan ps q n) p = level_of s p"
  by (simp add: level_of_def wake_procs_def)

lemma wakes_wake: "p \<notin> set ps \<Longrightarrow> wakes (wake_state s chan ps q n) chan p = wakes s chan p"
  by (simp add: wakes_def wake_procs_def)

text \<open>What waking the entries \<open>ps\<close> does to the queues.\<close>

definition woken_lists ::
    "'a proc_state_scheme \<Rightarrow> chan option \<Rightarrow> nat list \<Rightarrow> 'a proc_state_scheme \<Rightarrow> bool" where
  "woken_lists s chan ps s' \<longleftrightarrow> mlfq_good s' \<and>
     (\<forall>l. mlfq_list s' l =
       (if current_policy s = SCHED_MLFQ
        then requeue_all (filter (\<lambda>p. wakes s chan p \<and> level_of s p = l) ps) (mlfq_list s l)
        else mlfq_list s l))"

lemma requeue_all_snoc: "requeue_all (ps @ [p]) xs = remove1 (Some p) (requeue_all ps xs) @ [Some p]"
  by (simp add: requeue_all_def)

lemma wakeup_loop_snoc:
  "wakeup_loop chan (ps @ [p]) s = bnd (wakeup_loop chan ps s) (\<lambda>_. wakeup_loop chan [p])"
proof (induction ps arbitrary: s)
  case (Cons a ps)
  have "wakeup_loop chan (ps @ [p]) = (\<lambda>s :: 'a proc_state_scheme. bnd (wakeup_loop chan ps s) (\<lambda>_. wakeup_loop chan [p]))"
    by (rule ext) (rule Cons.IH)
  then show ?case
    unfolding append_Cons wakeup_loop.simps(2) [of chan a] bnd_assoc
    by (simp add: if_distrib [of "\<lambda>x. bnd x _"] bnd_assoc del: wakeup_loop.simps cong: if_cong)
qed simp

lemma wakeup_one:
  assumes "finite H" "MlfqLock \<notin> H" "ProcLock p \<notin> H" "proc_locks_free s" "mlfq_good s" "p < NPROC"
  shows "\<exists>q n. wakeup_loop chan [p] (with_held H s) = Ret () (with_held H (wake_state s chan [p] q n)) \<and>
    woken_lists s chan [p] (wake_state s chan [p] q n)"
proof (cases "wakes s chan p")
  case False
  then have eq: "wake_state s chan [p] (queue s) (qsize s) = s"
    by (simp add: wake_state_def wake_procs_none)
  have lf: "lock_free (ProcLock p) s" using assms(4,6) by (simp add: proc_locks_free_def)
  have "wakeup_loop chan [p] (with_held H s) = Ret () (with_held H s)"
    using False assms(1-3) lf by (auto simp: wakes_def lock_simps)
  with False assms(5) eq show ?thesis
    by (intro exI [of _ "queue s"] exI [of _ "qsize s"]) (simp add: woken_lists_def eq)
next
  case True
  have lf: "lock_free (ProcLock p) s" "lock_free MlfqLock s"
    using assms(4,6) by (simp_all add: proc_locks_free_def)
  let ?t = "upd_proc p (\<lambda>x. x\<lparr>p_ready_time := ticks s\<rparr>) (upd_proc p (\<lambda>x. x\<lparr>p_state := RUNNABLE\<rparr>) s)"
  have lv: "level_of ?t = level_of s" by (simp add: level_of_def fun_eq_iff)
  have good: "mlfq_good ?t" using assms(5) by (simp add: mlfq_good_def lv mlfq_ok_def)
  obtain q n where e: "enqueue_if_mlfq p (with_held (insert (ProcLock p) H) ?t) =
      Ret () (with_held (insert (ProcLock p) H) (?t\<lparr>queue := q, qsize := n\<rparr>))"
    "mlfq_good (?t\<lparr>queue := q, qsize := n\<rparr>)"
    "\<forall>l. mlfq_list (?t\<lparr>queue := q, qsize := n\<rparr>) l =
      (if current_policy s = SCHED_MLFQ \<and> l = level_of s p
       then remove1 (Some p) (mlfq_list s l) @ [Some p] else mlfq_list s l)"
    using enqueue_if_mlfq_with_held [of "insert (ProcLock p) H" ?t p] assms(1,2,6) lf good
    by (auto simp: lock_simps lv)
  have w: "?t\<lparr>queue := q, qsize := n\<rparr> = wake_state s chan [p] q n"
    using True by (simp add: wake_state_def wake_procs_def upd_proc_def fun_eq_iff)
  have "wakeup_loop chan [p] (with_held H s) = Ret () (with_held H (?t\<lparr>queue := q, qsize := n\<rparr>))"
    using True assms(1-3) lf e(1) by (auto simp: wakes_def lock_simps)
  then show ?thesis
    using e(2,3) True unfolding w by (intro exI [of _ q] exI [of _ n]) (simp add: woken_lists_def)
qed

lemma wake_state_trans:
  assumes "p \<notin> set ps"
  shows "wake_state (wake_state s chan ps q n) chan [p] q' n' = wake_state s chan (ps @ [p]) q' n'"
proof -
  have "wake_procs (wake_state s chan ps q n) chan {p} = wake_procs s chan (set (ps @ [p]))"
    using assms by (intro ext) (auto simp: wake_procs_def wakes_wake)
  then show ?thesis by (simp add: wake_state_def)
qed

lemma wakeup_loop_with_held:
  assumes "finite H" "MlfqLock \<notin> H" "\<forall>p \<in> set ps. ProcLock p \<notin> H" "proc_locks_free s" "mlfq_good s"
    and "distinct ps" "set ps \<subseteq> {..<NPROC}"
  shows "\<exists>q n. wakeup_loop chan ps (with_held H s) = Ret () (with_held H (wake_state s chan ps q n)) \<and>
    woken_lists s chan ps (wake_state s chan ps q n)"
  using assms(3,6,7)
proof (induction ps rule: rev_induct)
  case Nil
  have "wake_state s chan [] (queue s) (qsize s) = s" by (simp add: wake_state_def wake_procs_none)
  then show ?case
    using assms(5) by (intro exI [of _ "queue s"] exI [of _ "qsize s"]) (simp add: woken_lists_def)
next
  case (snoc p ps)
  then obtain q n where IH: "wakeup_loop chan ps (with_held H s) = Ret () (with_held H (wake_state s chan ps q n))"
    "woken_lists s chan ps (wake_state s chan ps q n)" by auto
  let ?t = "wake_state s chan ps q n"
  have p: "p \<notin> set ps" "p < NPROC" "ProcLock p \<notin> H" using snoc.prems by auto
  have g: "mlfq_good ?t" "proc_locks_free ?t" using IH(2) assms(4) by (auto simp: woken_lists_def)
  obtain q' n' where one: "wakeup_loop chan [p] (with_held H ?t) = Ret () (with_held H (wake_state ?t chan [p] q' n'))"
    "woken_lists ?t chan [p] (wake_state ?t chan [p] q' n')"
    using wakeup_one [OF assms(1,2) p(3) g(2,1) p(2)] by blast
  have "woken_lists s chan (ps @ [p]) (wake_state s chan (ps @ [p]) q' n')"
    using one(2) IH(2) p(1) unfolding wake_state_trans [OF p(1)]
    by (auto simp: woken_lists_def wakes_wake level_of_wake requeue_all_snoc)
  moreover have "wakeup_loop chan (ps @ [p]) (with_held H s) = Ret () (with_held H (wake_state s chan (ps @ [p]) q' n'))"
    unfolding wakeup_loop_snoc IH(1) using one(1) p(1) by (simp add: wake_state_trans del: wakeup_loop.simps)
  ultimately show ?case by blast
qed

section \<open>Loops that look for one entry\<close>

text \<open>
  \<open>allocproc\<close>, \<open>kill\<close>, \<open>get_waiting_time\<close> and the system calls that name a process by its pid share a
  loop: lock each entry in turn, act on the first that matches with its lock held, and otherwise
  unlock it and go on.
\<close>

locale find_scan =
  fixes loop :: "nat list \<Rightarrow> 'a proc_state_scheme \<Rightarrow> ('a proc_state_scheme, 'r) outcome"
    and hit :: "proc \<Rightarrow> bool"
    and act :: "nat \<Rightarrow> 'a proc_state_scheme \<Rightarrow> ('a proc_state_scheme, 'r) outcome"
    and miss :: "'a proc_state_scheme \<Rightarrow> ('a proc_state_scheme, 'r) outcome"
  assumes loop_Nil: "loop [] s = miss s"
    and loop_Cons: "loop (p # ps) s =
      bnd (acquire (ProcLock p) s) (\<lambda>_ s.
      if hit (procs s p) then act p s
      else bnd (release (ProcLock p) s) (\<lambda>_ s. loop ps s))"
begin

lemma loop_from:
  assumes "k \<le> NPROC" "finite H" "\<forall>p < NPROC. ProcLock p \<notin> H \<and> lock_free (ProcLock p) s"
  shows "(\<exists>p. k \<le> p \<and> p < NPROC \<and> hit (procs s p) \<and> (\<forall>q. k \<le> q \<and> q < p \<longrightarrow> \<not> hit (procs s q)) \<and>
      loop [k..<NPROC] (with_held H s) = act p (with_held (insert (ProcLock p) H) s)) \<or>
    (\<forall>p. k \<le> p \<and> p < NPROC \<longrightarrow> \<not> hit (procs s p)) \<and> loop [k..<NPROC] (with_held H s) = miss (with_held H s)"
  using assms(1)
proof (induction k rule: inc_induct)
  case base
  then show ?case by (auto simp: loop_Nil)
next
  case (step k)
  have k: "ProcLock k \<notin> H" "lock_free (ProcLock k) s" using assms(3) step.hyps by auto
  have u: "[k..<NPROC] = k # [Suc k..<NPROC]" using step.hyps(2) by (rule upt_conv_Cons)
  note acq = acquire_with_held [OF assms(2) k]
  show ?case
  proof (cases "hit (procs s k)")
    case True
    then have "loop [k..<NPROC] (with_held H s) = act k (with_held (insert (ProcLock k) H) s)"
      unfolding u loop_Cons acq by (simp add: with_held_proc)
    with True step.hyps show ?thesis by (intro disjI1 exI [of _ k]) auto
  next
    case False
    have rel: "release (ProcLock k) (with_held (insert (ProcLock k) H) s) = Ret () (with_held H s)"
      using k assms(2) by (simp add: release_with_held)
    have eq: "loop [k..<NPROC] (with_held H s) = loop [Suc k..<NPROC] (with_held H s)"
      unfolding u loop_Cons acq using False by (simp add: with_held_proc rel)
    have ge: "k \<le> p \<longleftrightarrow> p = k \<or> Suc k \<le> p" for p by auto
    show ?thesis using step.IH False unfolding eq ge
      by (elim disjE) (rule disjI1, fastforce, rule disjI2, fastforce)
  qed
qed

lemma loop_first:
  assumes "finite H" "\<forall>p < NPROC. ProcLock p \<notin> H \<and> lock_free (ProcLock p) s"
  obtains (hit) p where "p < NPROC" "hit (procs s p)" "\<And>q. q < p \<Longrightarrow> \<not> hit (procs s q)"
      "loop [0..<NPROC] (with_held H s) = act p (with_held (insert (ProcLock p) H) s)"
    | (miss) "\<And>p. p < NPROC \<Longrightarrow> \<not> hit (procs s p)" "loop [0..<NPROC] (with_held H s) = miss (with_held H s)"
  using loop_from [of 0 H s] assms by auto

end

definition kill_act :: "nat \<Rightarrow> 'a proc_state_scheme \<Rightarrow> ('a proc_state_scheme, i32) outcome" where
  "kill_act p s =
     (let s = upd_proc p (\<lambda>x. x\<lparr>p_killed := 1\<rparr>) s;
          s = (if p_state (procs s p) = SLEEPING then upd_proc p (\<lambda>x. x\<lparr>p_state := RUNNABLE\<rparr>) s else s)
      in bnd (release (ProcLock p) s) (\<lambda>_ s. Ret 0 s))"

definition get_waiting_time_act :: "nat \<Rightarrow> 'a proc_state_scheme \<Rightarrow> ('a proc_state_scheme, i32) outcome" where
  "get_waiting_time_act p s =
     bnd (release (ProcLock p) s) (\<lambda>_ s'. Ret (p_waiting_time (procs s p)) s')"

interpretation kill: find_scan "kill_loop pid" "\<lambda>x. p_pid x = pid" kill_act "Ret (- 1)" for pid
  by unfold_locales (simp_all add: kill_act_def Let_def cong: if_cong)

interpretation wtime: find_scan "get_waiting_time_loop pid" "\<lambda>x. p_pid x = pid" get_waiting_time_act "Ret (- 1)" for pid
  by unfold_locales (simp_all add: get_waiting_time_act_def Let_def cong: if_cong)

interpretation alloc: find_scan allocproc_scan "\<lambda>x. p_state x = UNUSED" "\<lambda>p. Ret (Some p)" "Ret None"
  by unfold_locales simp_all

section \<open>Switching\<close>

text \<open>The supervisor interrupt bit set to a given value.\<close>

definition set_sie :: "bool \<Rightarrow> 'a hart_state_scheme \<Rightarrow> 'a hart_state_scheme" where
  "set_sie b s = (if b then intr_on s else intr_off s)"

lemma SIE_or_clear: "(x OR SSTATUS_SIE) AND NOT SSTATUS_SIE = x AND NOT SSTATUS_SIE"
  by (intro bit_word_eqI) (auto simp: bit_and_iff bit_not_iff bit_or_iff)

lemma sched_end_with_held [lock_simps]:
  "H \<noteq> {} \<Longrightarrow> sched_end ie (with_held H s) = with_held H (set_sie ie s)"
  by (cases "cpus s (tp s)") (auto simp: sched_end_def upd_mycpu_def with_held_def set_sie_def hart_defs SIE_or_clear
      cong: if_cong)

lemma sched_with_held:
  assumes "cpu_proc (cpus s (tp s)) = Some p" "lock_free (ProcLock p) s" "p_state (procs s p) \<noteq> RUNNING"
  shows "sched k (with_held {ProcLock p} s) = Swtch (k (intr_get s)) (with_held {ProcLock p} s)"
  using assms by (simp add: sched_def lock_simps mycpu_def cpuid_def)

lemma sched_more_locks:
  assumes "cpu_proc (cpus s (tp s)) = Some p" "lock_free (ProcLock p) s" "finite H" "ProcLock p \<in> H" "H \<noteq> {ProcLock p}"
  shows "sched k (with_held H s) = Panic ''sched locks''"
proof -
  have "card H \<noteq> 1" using assms(4,5) by (auto simp: card_1_singleton_iff)
  with assms(1-4) show ?thesis by (simp add: sched_def lock_simps mycpu_def cpuid_def)
qed

section \<open>The operations on a state in normal form\<close>

definition user_locks :: "lock_addr set \<Rightarrow> bool" where
  "user_locks H \<longleftrightarrow> finite H \<and> MlfqLock \<notin> H \<and> (\<forall>p < NPROC. ProcLock p \<notin> H)"

lemma wakeup_with_held:
  assumes "user_locks H" "proc_locks_free s" "mlfq_good s"
  obtains q n where "wakeup chan (with_held H s) = Ret () (with_held H (wake_state s chan [0..<NPROC] q n))"
    "woken_lists s chan [0..<NPROC] (wake_state s chan [0..<NPROC] q n)"
  using wakeup_loop_with_held [of H "[0..<NPROC]" s chan] assms
  by (auto simp: wakeup_def user_locks_def subset_eq)

lemma proc_lock_freeD: "proc_locks_free s \<Longrightarrow> p < NPROC \<Longrightarrow> lock_free (ProcLock p) s"
  by (simp add: proc_locks_free_def)

lemma sleep_with_held:
  assumes "cpu_proc (cpus s (tp s)) = Some p" "p < NPROC" "proc_locks_free s" "lock_free lk s" "user_locks {lk}"
  shows "sleep chan lk (with_held {lk} s) = Swtch (ResumeSleep lk (intr_get s))
    (with_held {ProcLock p} (upd_proc p (\<lambda>x. x\<lparr>p_chan := Some chan, p_state := SLEEPING\<rparr>) s))"
proof -
  let ?t = "upd_proc p (\<lambda>x. x\<lparr>p_chan := Some chan, p_state := SLEEPING\<rparr>) s"
  have n: "ProcLock p \<noteq> lk" using assms(2,5) by (auto simp: user_locks_def)
  have t: "upd_proc p (\<lambda>x. x\<lparr>p_state := SLEEPING\<rparr>) (upd_proc p (\<lambda>x. x\<lparr>p_chan := Some chan\<rparr>) s) = ?t"
    by (simp add: upd_proc_def)
  have "intr_get ?t = intr_get s" by (simp add: intr_get_def r_sstatus_def)
  then have "sched (ResumeSleep lk) (with_held {ProcLock p} ?t) =
      Swtch (ResumeSleep lk (intr_get s)) (with_held {ProcLock p} ?t)"
    using sched_with_held [of ?t p "ResumeSleep lk"] assms(1) proc_lock_freeD [OF assms(3,2)] by (simp add: lock_simps)
  then show ?thesis
    using assms(1,4) n proc_lock_freeD [OF assms(3,2)]
    by (simp add: sleep_def lock_simps insert_Diff_if t)
qed

lemma set_sie_sel [simp]:
  "locks (set_sie b s) = locks s" "tp (set_sie b s) = tp s" "cpus (set_sie b s) = cpus s"
  "lock_free k (set_sie b s) = lock_free k s" "intr_get (set_sie b s) = b" "quiet (set_sie b s) = quiet s"
  by (auto simp: set_sie_def hart_defs lock_free_def quiet_def)

lemma set_sie_proc [simp]:
  "procs (set_sie b s) = procs s" "queue (set_sie b s) = queue s" "qsize (set_sie b s) = qsize s"
  "ticks (set_sie b s) = ticks s" "current_policy (set_sie b s) = current_policy s"
  "proc_locks_free (set_sie b s) = proc_locks_free s"
  by (auto simp: set_sie_def hart_defs lock_free_def proc_locks_free_def)

lemma resume_sleep_with_held:
  assumes "p < NPROC" "proc_locks_free s" "lock_free lk s" "user_locks {lk}"
  shows "resume_thread p (ResumeSleep lk ie) (with_held {ProcLock p} s) =
    Ret () (with_held {lk} (upd_proc p (\<lambda>x. x\<lparr>p_chan := None\<rparr>) (set_sie ie s)))"
  using assms proc_lock_freeD [OF assms(2,1)]
  by (simp add: Let_def lock_simps release_last user_locks_def)

lemma yield_with_held:
  assumes "cpu_proc (cpus s (tp s)) = Some p" "p < NPROC" "proc_locks_free s" "mlfq_good s"
  shows "\<exists>q n. let s' = (upd_proc p (\<lambda>x. x\<lparr>p_last_runtime := last_burst (ticks s) x, p_state := RUNNABLE\<rparr>) s)\<lparr>queue := q, qsize := n\<rparr>
    in yield (with_held {} s) = Swtch (ResumeYield (intr_get s)) (with_held {ProcLock p} s') \<and>
       mlfq_good s' \<and>
       (\<forall>l. mlfq_list s' l = (if current_policy s = SCHED_MLFQ \<and> l = level_of s p
         then remove1 (Some p) (mlfq_list s l) @ [Some p] else mlfq_list s l))"
proof -
  let ?t = "upd_proc p (\<lambda>x. x\<lparr>p_last_runtime := last_burst (ticks s) x, p_state := RUNNABLE\<rparr>) s"
  have lf: "lock_free (ProcLock p) s" "lock_free MlfqLock s" using assms(2,3) by (simp_all add: proc_locks_free_def)
  have t: "upd_proc p (\<lambda>x. x\<lparr>p_state := RUNNABLE\<rparr>) (upd_proc p (\<lambda>x. x\<lparr>p_last_runtime := last_burst (ticks s) x\<rparr>) s) = ?t"
    by (simp add: upd_proc_def)
  have lv: "level_of ?t = level_of s" by (simp add: level_of_def fun_eq_iff)
  have "mlfq_good ?t" using assms(4) by (simp add: mlfq_good_def lv mlfq_ok_def)
  then obtain q n where e: "enqueue_if_mlfq p (with_held {ProcLock p} ?t) =
      Ret () (with_held {ProcLock p} (?t\<lparr>queue := q, qsize := n\<rparr>))"
    "mlfq_good (?t\<lparr>queue := q, qsize := n\<rparr>)"
    "\<forall>l. mlfq_list (?t\<lparr>queue := q, qsize := n\<rparr>) l =
      (if current_policy s = SCHED_MLFQ \<and> l = level_of s p
       then remove1 (Some p) (mlfq_list s l) @ [Some p] else mlfq_list s l)"
    using enqueue_if_mlfq_with_held [of "{ProcLock p}" ?t p] assms(2) lf by (auto simp: lock_simps lv)
  let ?t' = "?t\<lparr>queue := q, qsize := n\<rparr>"
  have "intr_get ?t' = intr_get s" by (simp add: intr_get_def r_sstatus_def)
  then have "sched ResumeYield (with_held {ProcLock p} ?t') =
      Swtch (ResumeYield (intr_get s)) (with_held {ProcLock p} ?t')"
    using sched_with_held [of ?t' p ResumeYield] assms(1) lf by (simp add: lock_simps)
  then have "yield (with_held {} s) = Swtch (ResumeYield (intr_get s)) (with_held {ProcLock p} ?t')"
    using assms(1) lf e(1) by (simp add: yield_def lock_simps t)
  with e(2,3) show ?thesis by (intro exI [of _ q] exI [of _ n]) (simp add: Let_def)
qed

section \<open>Properties\<close>

text \<open>
  C13: \<open>wakeup\<close> called without process locks returns with the same locks held.  Exactly the processes
  sleeping on the channel, other than the caller, become runnable with the current tick as their
  ready time; under MLFQ each of them is then in the queue of its level, and the queues stay
  well-formed.
\<close>

theorem wakeup_wakes_exactly:
  assumes "user_locks H" "proc_locks_free s" "mlfq_good s"
  shows "\<exists>s'. wakeup chan (with_held H s) = Ret () (with_held H s') \<and> mlfq_good s' \<and>
    (\<forall>p. procs s' p =
      (if p < NPROC \<and> wakes s chan p
       then (procs s p)\<lparr>p_state := RUNNABLE, p_ready_time := ticks s\<rparr> else procs s p)) \<and>
    (current_policy s = SCHED_MLFQ \<longrightarrow>
      (\<forall>p < NPROC. wakes s chan p \<longrightarrow> Some p \<in> set (mlfq_list s' (level_of s p))))"
proof -
  obtain q n where w: "wakeup chan (with_held H s) = Ret () (with_held H (wake_state s chan [0..<NPROC] q n))"
    "woken_lists s chan [0..<NPROC] (wake_state s chan [0..<NPROC] q n)"
    by (rule wakeup_with_held [OF assms])
  then show ?thesis
    by (intro exI [of _ "wake_state s chan [0..<NPROC] q n"])
       (auto simp: woken_lists_def wake_procs_def set_requeue_all)
qed

text \<open>
  C12: \<open>sleep\<close> called with exactly the lock \<open>lk\<close> held switches to the scheduler with exactly the
  process's own lock held and the process sleeping on the channel, so no \<open>wakeup\<close> can see it half
  asleep.  When the scheduler resumes it, on any hart, it returns with exactly \<open>lk\<close> held, the channel
  cleared and the interrupt state it was called with.
\<close>

theorem sleep_then_resume:
  assumes "cpu_proc (cpus s (tp s)) = Some p" "p < NPROC" "proc_locks_free s" "lock_free lk s" "user_locks {lk}"
    and "proc_locks_free t" "lock_free lk t"
  shows "\<exists>k. sleep chan lk (with_held {lk} s) = Swtch k
      (with_held {ProcLock p} (upd_proc p (\<lambda>x. x\<lparr>p_chan := Some chan, p_state := SLEEPING\<rparr>) s)) \<and>
    resume_thread p k (with_held {ProcLock p} t) =
      Ret () (with_held {lk} (upd_proc p (\<lambda>x. x\<lparr>p_chan := None\<rparr>) (set_sie (intr_get s) t)))"
  using sleep_with_held [OF assms(1-5)] resume_sleep_with_held [OF assms(2,6,7,5)] by auto

text \<open>
  C14: \<open>yield\<close> called without locks switches to the scheduler with exactly the process's own lock
  held.  The process is runnable, its last run time is the ticks since it started to run (at least
  one), and under MLFQ it is at the back of the queue of its level.
\<close>

theorem yield_requeues:
  assumes "cpu_proc (cpus s (tp s)) = Some p" "p < NPROC" "proc_locks_free s" "mlfq_good s"
  shows "\<exists>s'. yield (with_held {} s) = Swtch (ResumeYield (intr_get s)) (with_held {ProcLock p} s') \<and>
    procs s' = (procs s)(p := (procs s p)\<lparr>p_last_runtime := last_burst (ticks s) (procs s p), p_state := RUNNABLE\<rparr>) \<and>
    mlfq_good s' \<and>
    (current_policy s = SCHED_MLFQ \<longrightarrow>
      mlfq_list s' (level_of s p) = remove1 (Some p) (mlfq_list s (level_of s p)) @ [Some p]) \<and>
    (\<forall>l. current_policy s \<noteq> SCHED_MLFQ \<or> l \<noteq> level_of s p \<longrightarrow> mlfq_list s' l = mlfq_list s l)"
proof -
  obtain q n where "let s' = (upd_proc p (\<lambda>x. x\<lparr>p_last_runtime := last_burst (ticks s) x, p_state := RUNNABLE\<rparr>) s)\<lparr>queue := q, qsize := n\<rparr>
    in yield (with_held {} s) = Swtch (ResumeYield (intr_get s)) (with_held {ProcLock p} s') \<and>
       mlfq_good s' \<and>
       (\<forall>l. mlfq_list s' l = (if current_policy s = SCHED_MLFQ \<and> l = level_of s p
         then remove1 (Some p) (mlfq_list s l) @ [Some p] else mlfq_list s l))"
    using yield_with_held [OF assms] by blast
  then show ?thesis
    by (intro exI [of _ "(upd_proc p (\<lambda>x. x\<lparr>p_last_runtime := last_burst (ticks s) x, p_state := RUNNABLE\<rparr>) s)\<lparr>queue := q, qsize := n\<rparr>"])
       (simp add: Let_def)
qed

lemma kill_with_held:
  assumes "finite H" "\<forall>p < NPROC. ProcLock p \<notin> H" "proc_locks_free s"
  shows "(\<exists>p < NPROC. p_pid (procs s p) = pid \<and> (\<forall>q < p. p_pid (procs s q) \<noteq> pid) \<and>
      kill pid (with_held H s) = Ret 0 (with_held H (upd_proc p (\<lambda>x. x\<lparr>p_killed := 1,
        p_state := (if p_state x = SLEEPING then RUNNABLE else p_state x)\<rparr>) s))) \<or>
    (\<forall>p < NPROC. p_pid (procs s p) \<noteq> pid) \<and> kill pid (with_held H s) = Ret (- 1) (with_held H s)"
proof -
  have a: "\<forall>p < NPROC. ProcLock p \<notin> H \<and> lock_free (ProcLock p) s"
    using assms(2,3) by (simp add: proc_locks_free_def)
  consider (hit) p where "p < NPROC" "p_pid (procs s p) = pid" "\<forall>q < p. p_pid (procs s q) \<noteq> pid"
      "kill pid (with_held H s) = kill_act p (with_held (insert (ProcLock p) H) s)"
    | (miss) "\<forall>p < NPROC. p_pid (procs s p) \<noteq> pid" "kill pid (with_held H s) = Ret (- 1) (with_held H s)"
    unfolding kill_def by (rule kill.loop_first [OF assms(1) a, of pid]) blast+
  then show ?thesis
  proof cases
    case hit
    have "upd_proc p (\<lambda>x. x\<lparr>p_killed := 1, p_state := (if p_state x = SLEEPING then RUNNABLE else p_state x)\<rparr>) s =
      (if p_state (procs s p) = SLEEPING
       then upd_proc p (\<lambda>x. x\<lparr>p_state := RUNNABLE\<rparr>) (upd_proc p (\<lambda>x. x\<lparr>p_killed := 1\<rparr>) s)
       else upd_proc p (\<lambda>x. x\<lparr>p_killed := 1\<rparr>) s)" (is "?t = _")
      by (simp add: upd_proc_def)
    then have "kill_act p (with_held (insert (ProcLock p) H) s) = Ret 0 (with_held H ?t)"
      using hit(1) a assms(1) by (simp add: kill_act_def Let_def lock_simps)
    with hit show ?thesis by (intro disjI1 exI [of _ p]) simp
  next
    case miss
    then show ?thesis by simp
  qed
qed

text \<open>
  \<open>kill\<close> marks the first table entry with the given pid as killed, makes it runnable if it was
  sleeping, and returns 0; when no entry has the pid it returns -1 and changes nothing.
\<close>

theorem kill_marks_first:
  assumes "finite H" "\<forall>p < NPROC. ProcLock p \<notin> H" "proc_locks_free s"
  shows "(\<exists>p < NPROC. p_pid (procs s p) = pid \<and> (\<forall>q < p. p_pid (procs s q) \<noteq> pid) \<and>
      kill pid (with_held H s) = Ret 0 (with_held H (upd_proc p (\<lambda>x. x\<lparr>p_killed := 1,
        p_state := (if p_state x = SLEEPING then RUNNABLE else p_state x)\<rparr>) s))) \<or>
    (\<forall>p < NPROC. p_pid (procs s p) \<noteq> pid) \<and> kill pid (with_held H s) = Ret (- 1) (with_held H s)"
  using assms by (rule kill_with_held)

text \<open>
  C15: Under MLFQ \<open>kill\<close> makes a sleeping process runnable without putting it into a queue, so the
  scheduler does not run it, and it cannot exit, as long as any queue is non-empty.
\<close>

theorem kill_leaves_sleeper_unqueued:
  assumes "sched_ready s" "current_policy s = SCHED_MLFQ" "mlfq_ok s" "\<exists>l < QUEUE_LEVELS. mlfq_list s l \<noteq> []"
    and "p < NPROC" "p_pid (procs s p) = pid" "\<forall>q < p. p_pid (procs s q) \<noteq> pid"
    and "p_state (procs s p) = SLEEPING" "\<forall>l < QUEUE_LEVELS. Some p \<notin> set (mlfq_list s l)"
  shows "\<exists>s'. kill pid (with_held {} s) = Ret 0 (with_held {} s') \<and> p_state (procs s' p) = RUNNABLE \<and>
    mlfq_list s' = mlfq_list s \<and> (\<forall>pt t. scheduler_iter s' \<noteq> Ret (Dispatch p pt) t)"
proof -
  let ?t = "upd_proc p (\<lambda>x. x\<lparr>p_killed := 1,
        p_state := (if p_state x = SLEEPING then RUNNABLE else p_state x)\<rparr>) s"
  have free: "proc_locks_free s" using assms(1) by (simp add: sched_ready_def proc_locks_free_def)
  have "kill pid (with_held {} s) = Ret 0 (with_held {} ?t)"
  proof -
    obtain p' where p': "p_pid (procs s p') = pid" "\<forall>q < p'. p_pid (procs s q) \<noteq> pid"
      "kill pid (with_held {} s) = Ret 0 (with_held {} (upd_proc p' (\<lambda>x. x\<lparr>p_killed := 1,
        p_state := (if p_state x = SLEEPING then RUNNABLE else p_state x)\<rparr>) s))"
      using kill_with_held [of "{}" s pid] free assms(5,6) by auto
    then have "p' = p" using assms(6,7) by (metis linorder_neqE_nat)
    with p'(3) show ?thesis by simp
  qed
  moreover have "sched_ready ?t" "mlfq_ok ?t" "current_policy ?t = SCHED_MLFQ"
    using assms(1-3) by (simp_all add: sched_ready_def mlfq_ok_def lock_simps quiet_def)
  moreover have "mlfq_list ?t = mlfq_list s" by simp
  ultimately have "scheduler_iter ?t \<noteq> Ret (Dispatch p pt) t" for pt t
    using mlfq_round_front [of ?t] assms(4,9) by fastforce
  with \<open>kill pid (with_held {} s) = Ret 0 (with_held {} ?t)\<close> assms(8) show ?thesis
    by (intro exI [of _ ?t]) simp
qed

subsection \<open>Witnesses\<close>

text \<open>Process 1 runs on hart 0, process 2 sleeps on \<open>&ticks\<close>; the queue of level 1 holds entry 3.\<close>

definition demo_sync :: proc_state where
  "demo_sync = (demo_sched SCHED_MLFQ ((\<lambda>_ _. None)(1 := (\<lambda>_. None)(0 := Some 3))) ((\<lambda>_. 0)(1 := 1)))
     \<lparr>procs := (\<lambda>_. zero_proc)(1 := zero_proc\<lparr>p_state := RUNNING, p_pid := 1\<rparr>,
        2 := zero_proc\<lparr>p_state := SLEEPING, p_pid := 2, p_chan := Some TicksChan\<rparr>),
      cpus := (\<lambda>_. zero_cpu)(0 := zero_cpu\<lparr>cpu_proc := Some 1\<rparr>)\<rparr>"

lemma demo_sync_sel [simp]:
  "cpu_proc (cpus demo_sync (tp demo_sync)) = Some 1" "current_policy demo_sync = SCHED_MLFQ"
  "procs demo_sync (Suc 0) = zero_proc\<lparr>p_state := RUNNING, p_pid := 1\<rparr>"
  "procs demo_sync 2 = zero_proc\<lparr>p_state := SLEEPING, p_pid := 2, p_chan := Some TicksChan\<rparr>"
  "level_of demo_sync p = 0" "lock_free k demo_sync" "proc_locks_free demo_sync" "ticks demo_sync = 12"
  by (auto simp: demo_sync_def demo_sched_def level_of_def lock_free_def zero_lock_def zero_proc_def proc_locks_free_def)

lemma demo_sync_lists: "mlfq_list demo_sync = (\<lambda>_. [])(1 := [Some 3])"
  by (rule ext) (simp add: mlfq_list_def row_def demo_sync_def)

lemma demo_sync_good: "mlfq_good demo_sync"
  by (simp add: mlfq_good_def mlfq_ok_def demo_sync_lists queue_ok_def NPROC_def QUEUE_LEVELS_def)

lemma demo_sync_ready: "sched_ready demo_sync"
  using demo_sync_sel(7) by (simp add: sched_ready_def proc_locks_free_def quiet_def demo_sync_def demo_sched_def zero_cpu_def)

lemma demo_wakes: "wakes demo_sync (Some TicksChan) 2"
  by (simp add: wakes_def)

theorem wakeup_wakes_exactly_witness:
  "\<exists>s'. wakeup (Some TicksChan) (with_held {TicksLock} demo_sync) = Ret () (with_held {TicksLock} s') \<and>
    p_state (procs s' 2) = RUNNABLE \<and> p_state (procs s' 1) = RUNNING \<and> Some 2 \<in> set (mlfq_list s' 0)"
proof -
  have "user_locks {TicksLock}" by (simp add: user_locks_def)
  from wakeup_wakes_exactly [OF this _ demo_sync_good, of "Some TicksChan"] obtain s' where
    s': "wakeup (Some TicksChan) (with_held {TicksLock} demo_sync) = Ret () (with_held {TicksLock} s')"
      "\<And>p. procs s' p = (if p < NPROC \<and> wakes demo_sync (Some TicksChan) p
        then (procs demo_sync p)\<lparr>p_state := RUNNABLE, p_ready_time := ticks demo_sync\<rparr> else procs demo_sync p)"
      "\<And>p. p < NPROC \<Longrightarrow> wakes demo_sync (Some TicksChan) p \<Longrightarrow> Some p \<in> set (mlfq_list s' (level_of demo_sync p))"
    by auto
  have n: "2 < NPROC" by (simp add: NPROC_def)
  have "\<not> wakes demo_sync (Some TicksChan) 1" by (simp add: wakes_def)
  with s' n demo_wakes s'(3) [OF n demo_wakes] show ?thesis by (intro exI [of _ s']) simp
qed

theorem sleep_then_resume_witness:
  "\<exists>k. sleep TicksChan TicksLock (with_held {TicksLock} demo_sync) = Swtch k
      (with_held {ProcLock 1} (upd_proc 1 (\<lambda>x. x\<lparr>p_chan := Some TicksChan, p_state := SLEEPING\<rparr>) demo_sync)) \<and>
    resume_thread 1 k (with_held {ProcLock 1} demo_sync) =
      Ret () (with_held {TicksLock} (upd_proc 1 (\<lambda>x. x\<lparr>p_chan := None\<rparr>) (set_sie (intr_get demo_sync) demo_sync)))"
  using sleep_then_resume [of demo_sync 1 TicksLock demo_sync TicksChan] by (simp add: user_locks_def NPROC_def)

theorem yield_requeues_witness:
  "\<exists>s' k. yield (with_held {} demo_sync) = Swtch k (with_held {ProcLock 1} s') \<and>
    p_state (procs s' 1) = RUNNABLE \<and> mlfq_list s' 0 = [Some 1] \<and> mlfq_list s' 1 = [Some 3]"
  using yield_requeues [OF demo_sync_sel(1) _ _ demo_sync_good] by (auto simp: NPROC_def demo_sync_lists)

theorem kill_marks_first_witness:
  "\<exists>s'. kill 2 (with_held {} demo_sync) = Ret 0 (with_held {} s') \<and> p_killed (procs s' 2) = 1"
proof -
  have n: "2 < NPROC" by (simp add: NPROC_def)
  have "p_pid (procs demo_sync q) = 2 \<longleftrightarrow> q = 2" for q by (simp add: demo_sync_def zero_proc_def)
  with kill_marks_first [of "{}" demo_sync 2] n show ?thesis by auto
qed

theorem kill_leaves_sleeper_unqueued_witness:
  "\<exists>s'. kill 2 (with_held {} demo_sync) = Ret 0 (with_held {} s') \<and> p_state (procs s' 2) = RUNNABLE \<and>
    (\<forall>pt t. scheduler_iter s' \<noteq> Ret (Dispatch 2 pt) t)"
proof -
  have pid: "p_pid (procs demo_sync q) = 2 \<longleftrightarrow> q = 2" for q by (simp add: demo_sync_def zero_proc_def)
  have ok: "mlfq_ok demo_sync" using demo_sync_good by (simp add: mlfq_good_def)
  have ne: "\<exists>l < QUEUE_LEVELS. mlfq_list demo_sync l \<noteq> []"
    by (intro exI [of _ 1]) (simp add: demo_sync_lists QUEUE_LEVELS_def)
  show ?thesis
    using kill_leaves_sleeper_unqueued [OF demo_sync_ready _ ok ne, of 2 2] pid
    by (auto simp: demo_sync_lists NPROC_def)
qed

end
