(* ===== verification/Sleeplock.thy ===== *)
theory Sleeplock
  imports ProcSync
begin

text \<open>
  Sleep-locks, \<open>kernel/sleeplock.c\<close>.  They are fields of the block buffers and of the in-memory
  inodes; \<open>sl_addr\<close> is the address of one.

  A call that has to wait leaves the CPU in \<open>sleep\<close>, outcome \<open>Swtch\<close>; when the scheduler resumes the
  thread, \<open>resume_thread\<close> ends that \<open>sleep\<close> and the loop continues with \<open>acquiresleep_loop\<close>.
\<close>

datatype sl_addr = BufSL nat | InodeSL nat

fun sl_lk :: "sl_addr \<Rightarrow> lock_addr" where
  "sl_lk (BufSL i) = BufLk i"
| "sl_lk (InodeSL i) = InodeLk i"

fun sl_chan :: "sl_addr \<Rightarrow> chan" where
  "sl_chan (BufSL i) = BufLockChan i"
| "sl_chan (InodeSL i) = InodeLockChan i"

record sleeplock =
  sl_locked :: u32
  sl_name :: string
  sl_pid :: i32

record sync_state = proc_state +
  sleeplocks :: "sl_addr \<Rightarrow> sleeplock"

definition upd_sl :: "sl_addr \<Rightarrow> (sleeplock \<Rightarrow> sleeplock) \<Rightarrow> 'a sync_state_scheme \<Rightarrow> 'a sync_state_scheme" where
  "upd_sl lk f s = s\<lparr>sleeplocks := (sleeplocks s)(lk := f (sleeplocks s lk))\<rparr>"

definition initsleeplock :: "sl_addr \<Rightarrow> string \<Rightarrow> 'a sync_state_scheme \<Rightarrow> 'a sync_state_scheme" where
  "initsleeplock lk name s =
     upd_sl lk (\<lambda>l. l\<lparr>sl_name := name, sl_locked := 0, sl_pid := 0\<rparr>) (initlock (sl_lk lk) ''sleep lock'' s)"

text \<open>\<open>sleep\<close> only leaves by switching, so what follows it in a loop belongs to the resumed thread.\<close>

lemma sched_not_Ret: "sched k s \<noteq> Ret u t"
  by (auto simp: sched_def bnd_Ret_iff split: if_splits)

lemma sleep_not_Ret: "sleep c lk s \<noteq> Ret u t"
  by (auto simp: sleep_def bnd_Ret_iff Let_def sched_not_Ret)

text \<open>The loop of \<open>acquiresleep\<close> and what follows it, with the inner spinlock held.\<close>

function acquiresleep_loop :: "sl_addr \<Rightarrow> 'a sync_state_scheme \<Rightarrow> ('a sync_state_scheme, unit) outcome" where
  "acquiresleep_loop lk s =
     (if sl_locked (sleeplocks s lk) \<noteq> 0
      then bnd (sleep (sl_chan lk) (sl_lk lk) s) (\<lambda>_ s. acquiresleep_loop lk s)
      else let s = upd_sl lk (\<lambda>l. l\<lparr>sl_locked := 1\<rparr>) s
      in bnd (curproc s) (\<lambda>p s.
         let s = upd_sl lk (\<lambda>l. l\<lparr>sl_pid := p_pid (procs s p)\<rparr>) s
         in release (sl_lk lk) s))"
  by pat_completeness auto
termination by (relation "{}") (auto simp: sleep_not_Ret)

declare acquiresleep_loop.simps [simp del]

definition acquiresleep :: "sl_addr \<Rightarrow> 'a sync_state_scheme \<Rightarrow> ('a sync_state_scheme, unit) outcome" where
  "acquiresleep lk s = bnd (acquire (sl_lk lk) s) (\<lambda>_ s. acquiresleep_loop lk s)"

definition releasesleep :: "sl_addr \<Rightarrow> 'a sync_state_scheme \<Rightarrow> ('a sync_state_scheme, unit) outcome" where
  "releasesleep lk s =
     bnd (acquire (sl_lk lk) s) (\<lambda>_ s.
     let s = upd_sl lk (\<lambda>l. l\<lparr>sl_locked := 0, sl_pid := 0\<rparr>) s
     in bnd (wakeup (Some (sl_chan lk)) s) (\<lambda>_ s. release (sl_lk lk) s))"

definition holdingsleep :: "sl_addr \<Rightarrow> 'a sync_state_scheme \<Rightarrow> ('a sync_state_scheme, bool) outcome" where
  "holdingsleep lk s =
     bnd (acquire (sl_lk lk) s) (\<lambda>_ s.
     bnd (curproc s) (\<lambda>p s.
     let r = sl_locked (sleeplocks s lk) \<noteq> 0 \<and> sl_pid (sleeplocks s lk) = p_pid (procs s p)
     in bnd (release (sl_lk lk) s) (\<lambda>_ s. Ret r s)))"

section \<open>States with locks held\<close>

lemma with_held_sync [lock_simps]:
  "sleeplocks (with_held H s) = sleeplocks s"
  "(with_held H s)\<lparr>sleeplocks := x\<rparr> = with_held H (s\<lparr>sleeplocks := x\<rparr>)"
  "lock_free k (s\<lparr>sleeplocks := x\<rparr>) = lock_free k s"
  by (simp_all add: with_held_def intr_get_def r_sstatus_def lock_free_def cong: if_cong)

lemma upd_sl_with_held [lock_simps]: "upd_sl lk f (with_held H s) = with_held H (upd_sl lk f s)"
  by (simp add: upd_sl_def lock_simps)

lemma upd_sl_sel [simp]:
  "sleeplocks (upd_sl lk f s) = (sleeplocks s)(lk := f (sleeplocks s lk))"
  "procs (upd_sl lk f s) = procs s" "queue (upd_sl lk f s) = queue s" "qsize (upd_sl lk f s) = qsize s"
  "ticks (upd_sl lk f s) = ticks s" "current_policy (upd_sl lk f s) = current_policy s"
  "mem (upd_sl lk f s) = mem s" "cpus (upd_sl lk f s) = cpus s" "tp (upd_sl lk f s) = tp s"
  "locks (upd_sl lk f s) = locks s" "sstatus (upd_sl lk f s) = sstatus s"
  "lock_free k (upd_sl lk f s) = lock_free k s" "proc_locks_free (upd_sl lk f s) = proc_locks_free s"
  "mlfq_good (upd_sl lk f s) = mlfq_good s"
  by (simp_all add: upd_sl_def lock_simps proc_locks_free_def mlfq_good_def mlfq_ok_def mlfq_list_def level_of_def)

lemma sl_lk_user [simp]: "user_locks {sl_lk lk}" "sl_lk lk \<noteq> ProcLock p" "sl_lk lk \<noteq> MlfqLock"
  by (cases lk, simp_all add: user_locks_def)+

lemma user_locks_insert: "user_locks (insert (sl_lk lk) H) = user_locks H"
  by (cases lk) (simp_all add: user_locks_def)

lemma wake_state_sync [simp]:
  "sleeplocks (wake_state s chan ps q n) = sleeplocks s"
  by (simp add: wake_state_def)

text \<open>The contract of the three operations, for a process \<open>p\<close> that holds the spinlocks \<open>H\<close>.\<close>

lemma acquiresleep_free:
  assumes "finite H" "sl_lk lk \<notin> H" "lock_free (sl_lk lk) s" "sl_locked (sleeplocks s lk) = 0"
    and "cpu_proc (cpus s (tp s)) = Some p"
  shows "acquiresleep lk (with_held H s) = Ret () (with_held H
    (upd_sl lk (\<lambda>l. l\<lparr>sl_locked := 1, sl_pid := p_pid (procs s p)\<rparr>) s))"
proof -
  have "upd_sl lk (\<lambda>l. l\<lparr>sl_pid := x\<rparr>) (upd_sl lk (\<lambda>l. l\<lparr>sl_locked := 1\<rparr>) s) =
      upd_sl lk (\<lambda>l. l\<lparr>sl_locked := 1, sl_pid := x\<rparr>) s" for x
    by (simp add: upd_sl_def)
  with assms show ?thesis by (simp add: acquiresleep_def acquiresleep_loop.simps Let_def lock_simps)
qed

lemma acquiresleep_busy:
  assumes "lock_free (sl_lk lk) s" "sl_locked (sleeplocks s lk) \<noteq> 0"
    and "cpu_proc (cpus s (tp s)) = Some p" "p < NPROC" "proc_locks_free s"
  shows "acquiresleep lk (with_held {} s) = Swtch (ResumeSleep (sl_lk lk) (intr_get s))
    (with_held {ProcLock p} (upd_proc p (\<lambda>x. x\<lparr>p_chan := Some (sl_chan lk), p_state := SLEEPING\<rparr>) s))"
  using assms sleep_with_held [OF assms(3-5,1) sl_lk_user(1)]
  by (simp add: acquiresleep_def acquiresleep_loop.simps lock_simps)

lemma releasesleep_with_held:
  assumes "user_locks H" "sl_lk lk \<notin> H" "lock_free (sl_lk lk) s" "proc_locks_free s" "mlfq_good s"
  obtains q n where "releasesleep lk (with_held H s) =
      Ret () (with_held H (wake_state (upd_sl lk (\<lambda>l. l\<lparr>sl_locked := 0, sl_pid := 0\<rparr>) s) (Some (sl_chan lk)) [0..<NPROC] q n))"
    "woken_lists s (Some (sl_chan lk)) [0..<NPROC]
      (wake_state (upd_sl lk (\<lambda>l. l\<lparr>sl_locked := 0, sl_pid := 0\<rparr>) s) (Some (sl_chan lk)) [0..<NPROC] q n)"
proof -
  let ?s = "upd_sl lk (\<lambda>l. l\<lparr>sl_locked := 0, sl_pid := 0\<rparr>) s" and ?H = "insert (sl_lk lk) H"
  have "user_locks ?H" using assms(1) by (simp add: user_locks_insert)
  moreover have "finite H" using assms(1) by (simp add: user_locks_def)
  ultimately have H: "finite H" "user_locks ?H" by simp_all
  obtain q n where w: "wakeup (Some (sl_chan lk)) (with_held ?H ?s) =
      Ret () (with_held ?H (wake_state ?s (Some (sl_chan lk)) [0..<NPROC] q n))"
    "woken_lists ?s (Some (sl_chan lk)) [0..<NPROC] (wake_state ?s (Some (sl_chan lk)) [0..<NPROC] q n)"
    using wakeup_with_held [OF H(2), of ?s "Some (sl_chan lk)"] assms(4,5) by auto
  have "releasesleep lk (with_held H s) = Ret () (with_held H (wake_state ?s (Some (sl_chan lk)) [0..<NPROC] q n))"
    using w(1) H(1) assms(2,3) by (simp add: releasesleep_def Let_def lock_simps)
  moreover have "woken_lists s c ps t = woken_lists ?s c ps t" for c ps and t :: "'a sync_state_scheme"
    by (simp add: woken_lists_def wakes_def level_of_def mlfq_list_def)
  ultimately show ?thesis using w(2) that by blast
qed

lemma holdingsleep_with_held:
  assumes "finite H" "sl_lk lk \<notin> H" "lock_free (sl_lk lk) s" "cpu_proc (cpus s (tp s)) = Some p"
  shows "holdingsleep lk (with_held H s) = Ret
    (sl_locked (sleeplocks s lk) \<noteq> 0 \<and> sl_pid (sleeplocks s lk) = p_pid (procs s p)) (with_held H s)"
  using assms by (simp add: holdingsleep_def Let_def lock_simps)

section \<open>Properties\<close>

text \<open>
  C20: A free sleep-lock is acquired without switching, and then its holder, and nobody else, holds
  it: \<open>holdingsleep\<close> answers true, and every process that calls \<open>acquiresleep\<close> while the lock is
  taken leaves the CPU, sleeping on the lock.
\<close>

theorem acquiresleep_excludes:
  assumes "lock_free (sl_lk lk) s" "sl_locked (sleeplocks s lk) = 0" "cpu_proc (cpus s (tp s)) = Some p"
  shows "\<exists>s'. acquiresleep lk (with_held {} s) = Ret () (with_held {} s') \<and>
    holdingsleep lk (with_held {} s') = Ret True (with_held {} s') \<and>
    (\<forall>t p'. sleeplocks t = sleeplocks s' \<and> lock_free (sl_lk lk) t \<and> cpu_proc (cpus t (tp t)) = Some p' \<and>
       p' < NPROC \<and> proc_locks_free t \<longrightarrow>
       (\<exists>k t'. acquiresleep lk (with_held {} t) = Swtch k (with_held {ProcLock p'} t') \<and>
          p_state (procs t' p') = SLEEPING \<and> p_chan (procs t' p') = Some (sl_chan lk)))"
proof -
  let ?s = "upd_sl lk (\<lambda>l. l\<lparr>sl_locked := 1, sl_pid := p_pid (procs s p)\<rparr>) s"
  have "acquiresleep lk (with_held {} s) = Ret () (with_held {} ?s)"
    using acquiresleep_free [of "{}" lk s p] assms by simp
  moreover have "holdingsleep lk (with_held {} ?s) = Ret True (with_held {} ?s)"
    using holdingsleep_with_held [of "{}" lk ?s p] assms by simp
  ultimately show ?thesis
    by (intro exI [of _ ?s] conjI) (auto simp: acquiresleep_busy)
qed

text \<open>
  \<open>releasesleep\<close> frees the lock and makes every process that sleeps on it runnable, whatever
  other locks the caller holds.
\<close>

theorem releasesleep_wakes_waiters:
  assumes "user_locks H" "sl_lk lk \<notin> H" "lock_free (sl_lk lk) s" "proc_locks_free s" "mlfq_good s"
  shows "\<exists>s'. releasesleep lk (with_held H s) = Ret () (with_held H s') \<and> mlfq_good s' \<and>
    sl_locked (sleeplocks s' lk) = 0 \<and>
    (\<forall>p < NPROC. wakes s (Some (sl_chan lk)) p \<longrightarrow> p_state (procs s' p) = RUNNABLE)"
proof -
  let ?t = "\<lambda>q n. wake_state (upd_sl lk (\<lambda>l. l\<lparr>sl_locked := 0, sl_pid := 0\<rparr>) s) (Some (sl_chan lk)) [0..<NPROC] q n"
  obtain q n where "releasesleep lk (with_held H s) = Ret () (with_held H (?t q n))"
    "woken_lists s (Some (sl_chan lk)) [0..<NPROC] (?t q n)"
    by (rule releasesleep_with_held [OF assms])
  then show ?thesis
    by (intro exI [of _ "?t q n"]) (auto simp: woken_lists_def wake_procs_def wakes_def)
qed

subsection \<open>Witnesses\<close>

definition demo_sl :: sync_state where
  "demo_sl = proc_state.extend demo_sync (sync_state.fields (\<lambda>_. \<lparr>sl_locked = 0, sl_name = [], sl_pid = 0\<rparr>))"

lemma demo_sl_sel [simp]:
  "sleeplocks demo_sl lk = \<lparr>sl_locked = 0, sl_name = [], sl_pid = 0\<rparr>" "procs demo_sl = procs demo_sync"
  "cpus demo_sl = cpus demo_sync" "tp demo_sl = tp demo_sync" "locks demo_sl = locks demo_sync"
  "queue demo_sl = queue demo_sync" "qsize demo_sl = qsize demo_sync" "current_policy demo_sl = SCHED_MLFQ"
  by (simp_all add: demo_sl_def proc_state.defs sync_state.defs)

lemma demo_sl_ok: "lock_free k demo_sl" "proc_locks_free demo_sl" "mlfq_good demo_sl"
  using demo_sync_sel(6,7) demo_sync_good
  by (simp_all add: lock_free_def proc_locks_free_def mlfq_good_def mlfq_ok_def mlfq_list_def level_of_def)

theorem acquiresleep_excludes_witness:
  "\<exists>s'. acquiresleep (BufSL 0) (with_held {} demo_sl) = Ret () (with_held {} s') \<and>
    holdingsleep (BufSL 0) (with_held {} s') = Ret True (with_held {} s')"
  using acquiresleep_excludes [of "BufSL 0" demo_sl 1] demo_sl_ok by auto

theorem releasesleep_wakes_waiters_witness:
  "\<exists>s'. releasesleep (BufSL 0) (with_held {} demo_sl) = Ret () (with_held {} s') \<and>
    sl_locked (sleeplocks s' (BufSL 0)) = 0"
proof -
  have "user_locks {}" by (simp add: user_locks_def)
  from releasesleep_wakes_waiters [OF this _ demo_sl_ok(1,2,3), of "BufSL 0"] show ?thesis by auto
qed

end
