(* ===== verification/Ring.thy ===== *)
theory Ring
  imports Prelude
begin

text \<open>
  Ring buffers indexed by free-running counters, as in \<open>struct pipe\<close>, the transmit buffer of the UART
  and the input buffer of the console: an array of \<open>N\<close> elements, a read and a write counter of some
  width that wrap around, element \<open>k\<close> at index \<open>k % N\<close>.
\<close>

definition ring_list :: "nat \<Rightarrow> (nat \<Rightarrow> 'c) \<Rightarrow> 'w::len word \<Rightarrow> 'w word \<Rightarrow> 'c list" where
  "ring_list N d r w = map (\<lambda>k. d (unat (r + of_nat k) mod N)) [0..<unat (w - r)]"

definition ring_used :: "'w::len word \<Rightarrow> 'w word \<Rightarrow> nat" where
  "ring_used r w = unat (w - r)"

lemma length_ring_list [simp]: "length (ring_list N d r w) = ring_used r w"
  by (simp add: ring_list_def ring_used_def)

lemma ring_list_empty_iff: "ring_list N d r w = [] \<longleftrightarrow> r = w"
  by (auto simp: ring_list_def unat_eq_zero)

locale ring_buffer =
  fixes N :: nat and W :: "'w::len itself"
  assumes size_pos: "0 < N" and size_dvd: "N dvd 2 ^ LENGTH('w)" and size_less: "N < 2 ^ LENGTH('w)"
begin

lemma unat_add_mod: "unat (r + of_nat k :: 'w word) mod N = (unat r + k) mod N"
proof -
  have "unat (r + of_nat k) = (unat r + k) mod 2 ^ LENGTH('w)"
    by (simp add: unat_word_ariths unsigned_of_nat take_bit_eq_mod mod_simps)
  then show ?thesis using size_dvd by (simp add: mod_mod_cancel)
qed

lemma write_counter: "(w :: 'w word) = r + of_nat (ring_used r w)"
  by (simp add: ring_used_def)

lemma used_Suc:
  assumes "ring_used r w < N"
  shows "ring_used r (w + 1 :: 'w word) = Suc (ring_used r w)"
proof -
  have "unat (w - r) + 1 < 2 ^ LENGTH('w)" using assms size_less by (simp add: ring_used_def)
  then have "unat (w - r + 1) = unat (w - r) + 1"
    by (simp add: unat_word_ariths take_bit_eq_mod [symmetric] take_bit_nat_eq_self)
  then show ?thesis by (simp add: ring_used_def algebra_simps)
qed

text \<open>Writing at the write counter appends an element; nothing stored is overwritten.\<close>

lemma ring_put:
  assumes "ring_used r w < N"
  shows "ring_list N (d(unat w mod N := c)) r (w + 1 :: 'w word) = ring_list N d r w @ [c]"
proof -
  define m where "m = ring_used r w"
  have w: "unat w mod N = (unat r + m) mod N"
    using unat_add_mod [of r m] write_counter [of w r] by (simp add: m_def)
  have "(unat r + k) mod N \<noteq> (unat r + m) mod N" if "k < m" for k
  proof
    assume "(unat r + k) mod N = (unat r + m) mod N"
    then have "N dvd (unat r + m) - (unat r + k)"
      using that mod_eq_dvd_iff_nat [of "unat r + k" "unat r + m" N] by simp
    then have "N dvd m - k" by simp
    moreover have "0 < m - k" "m - k < N" using that assms by (auto simp: m_def)
    ultimately show False by (meson dvd_imp_le not_le)
  qed
  then have "map (\<lambda>k. (d(unat w mod N := c)) (unat (r + of_nat k) mod N)) [0..<m] =
      map (\<lambda>k. d (unat (r + of_nat k) mod N)) [0..<m]"
    by (auto simp: unat_add_mod w)
  moreover have "unat (w + 1 - r) = Suc m" using used_Suc [OF assms] by (simp add: ring_used_def m_def)
  moreover have "unat (w - r) = m" by (simp add: m_def ring_used_def)
  ultimately show ?thesis by (simp add: ring_list_def unat_add_mod w)
qed

text \<open>Reading at the read counter takes the oldest element.\<close>

lemma ring_get:
  assumes "r \<noteq> w"
  shows "ring_list N d r w = d (unat r mod N) # ring_list N d (r + 1 :: 'w word) w"
proof -
  have n: "w - r \<noteq> 0" using assms by simp
  then have "unat (w - r - 1) = unat (w - r) - 1" "0 < unat (w - r)"
    by (simp_all add: unat_minus_one unat_gt_0)
  then have "unat (w - r) = Suc (unat (w - (r + 1)))" by (simp add: diff_diff_eq)
  moreover have "[0..<Suc n] = 0 # map Suc [0..<n]" for n
    by (simp add: upt_conv_Cons map_Suc_upt del: upt_Suc)
  ultimately have "ring_list N d r w = map (\<lambda>k. d (unat (r + of_nat k) mod N)) (0 # map Suc [0..<unat (w - (r + 1))])"
    unfolding ring_list_def by metis
  then show ?thesis by (simp add: ring_list_def comp_def add.assoc)
qed

lemma used_get: "r \<noteq> w \<Longrightarrow> ring_used r w = Suc (ring_used (r + 1 :: 'w word) w)"
  using ring_get [of r w "\<lambda>_. ()"] by (metis length_Cons length_ring_list)

end

end
