(* ===== verification/VmLookup.thy ===== *)
theory VmLookup
  imports Vm
begin

text \<open>
  Page-table lookup as a function of memory, and what \<open>walkaddr\<close>, \<open>copyin\<close> and \<open>copyinstr\<close> do in terms
  of it.
\<close>

section \<open>Lookup\<close>

fun lookup_loop :: "nat \<Rightarrow> u64 \<Rightarrow> u64 \<Rightarrow> memory \<Rightarrow> u64" where
  "lookup_loop 0 pt va m = pt + 8 * PX 0 va"
| "lookup_loop (Suc l) pt va m =
     (let pte = load64 (pt + 8 * PX (Suc l) va) m
      in if pte AND PTE_V \<noteq> 0 then lookup_loop l (PTE2PA pte) va m else 0)"

definition pte_addr :: "memory \<Rightarrow> u64 \<Rightarrow> u64 \<Rightarrow> u64" where
  "pte_addr m pt va = lookup_loop 2 pt va m"

lemma walk_loop_noalloc: "walk_loop l pt va False s = Ret (lookup_loop l pt va (mem s)) s"
  by (induction l arbitrary: pt) (simp_all add: Let_def)

lemma walk_noalloc:
  "walk pt va False s = (if MAXVA \<le> va then Panic ''walk'' else Ret (pte_addr (mem s) pt va) s)"
  by (simp add: walk_def walk_loop_noalloc pte_addr_def)

text \<open>The entry for an address of user memory, and its page if the user may access it.\<close>

definition user_pte :: "memory \<Rightarrow> u64 \<Rightarrow> u64 \<Rightarrow> u64" where
  "user_pte m pt va = (if MAXVA \<le> va \<or> pte_addr m pt va = 0 then 0 else load64 (pte_addr m pt va) m)"

definition user_pa :: "memory \<Rightarrow> u64 \<Rightarrow> u64 \<Rightarrow> u64" where
  "user_pa m pt va =
     (let pte = user_pte m pt va
      in if pte AND PTE_V \<noteq> 0 \<and> pte AND PTE_U \<noteq> 0 then PTE2PA pte else 0)"

lemma walkaddr_eq: "walkaddr pt va s = Ret (user_pa (mem s) pt va) s"
  by (cases "MAXVA \<le> va") (simp_all add: walkaddr_def walk_noalloc user_pa_def user_pte_def Let_def)

lemma user_pa_MAXVA: "user_pa m pt va \<noteq> 0 \<Longrightarrow> va < MAXVA"
  by (auto simp: user_pa_def user_pte_def Let_def split: if_splits)

text \<open>A user byte: whether it is mapped, and its physical address.\<close>

definition u_mapped :: "memory \<Rightarrow> u64 \<Rightarrow> u64 \<Rightarrow> bool" where
  "u_mapped m pt va \<longleftrightarrow> user_pa m pt (PGROUNDDOWN va) \<noteq> 0"

definition byte_pa :: "memory \<Rightarrow> u64 \<Rightarrow> u64 \<Rightarrow> u64" where
  "byte_pa m pt va = user_pa m pt (PGROUNDDOWN va) + (va - PGROUNDDOWN va)"

definition ubyte :: "memory \<Rightarrow> u64 \<Rightarrow> u64 \<Rightarrow> u8" where
  "ubyte m pt va = m (byte_pa m pt va)"

section \<open>Address arithmetic within a page\<close>

lemma PGROUNDDOWN_add:
  assumes "unat va mod 4096 + i < 4096" "unat va < 2 ^ 63"
  shows "PGROUNDDOWN (va + of_nat i) = PGROUNDDOWN va" "va + of_nat i - PGROUNDDOWN va = (va - PGROUNDDOWN va) + of_nat i"
proof -
  have "i < 4096" using assms(1) by simp
  then have "unat (va + of_nat i) = unat va + i"
    using assms(2) by (intro unat_add_of_nat) simp
  moreover have "(unat va + i) div 4096 = unat va div 4096"
  proof (rule div_nat_eqI)
    have "unat va = 4096 * (unat va div 4096) + unat va mod 4096" by simp
    then show "4096 * (unat va div 4096) \<le> unat va + i" "unat va + i < 4096 * Suc (unat va div 4096)"
      unfolding mult_Suc_right using assms(1) by linarith+
  qed
  ultimately show "PGROUNDDOWN (va + of_nat i) = PGROUNDDOWN va"
    by (simp add: word_unat_eq_iff unat_PGROUNDDOWN)
qed (simp add: algebra_simps)

lemma PGROUNDDOWN_next:
  assumes "PGROUNDDOWN va < MAXVA"
  shows "PGROUNDDOWN va + PGSIZE = va + of_nat (4096 - unat va mod 4096)"
    "unat (PGROUNDDOWN va + PGSIZE) = unat va + (4096 - unat va mod 4096)"
proof -
  have m: "unat va = unat (PGROUNDDOWN va) + unat va mod 4096"
    by (simp add: unat_PGROUNDDOWN mult.commute [of _ 4096])
  have "unat (PGROUNDDOWN va) < 274877906944" using assms by (simp add: word_less_nat_alt unat_MAXVA)
  then have b: "unat va < 274877906944 + 4096" using m by (metis add_less_mono mod_less_divisor zero_less_numeral)
  have le: "unat va mod 4096 < 4096" by simp
  show u: "unat (PGROUNDDOWN va + PGSIZE) = unat va + (4096 - unat va mod 4096)"
    using MAXVA_step(1) [OF assms] m le by linarith
  have "unat (va + of_nat (4096 - unat va mod 4096)) = unat va + (4096 - unat va mod 4096)"
    using b by (intro unat_add_of_nat) simp
  with u show "PGROUNDDOWN va + PGSIZE = va + of_nat (4096 - unat va mod 4096)"
    by (simp add: word_unat_eq_iff)
qed

lemma PGROUNDDOWN_idem: "PGROUNDDOWN (PGROUNDDOWN va) = PGROUNDDOWN va"
  by (simp add: word_unat_eq_iff unat_PGROUNDDOWN)

lemma PGROUNDDOWN_small: "PGROUNDDOWN va < MAXVA \<Longrightarrow> unat va < 2 ^ 63"
proof -
  assume "PGROUNDDOWN va < MAXVA"
  then have "unat va div 4096 * 4096 < 274877906944" by (simp add: word_less_nat_alt unat_MAXVA unat_PGROUNDDOWN)
  moreover have "unat va = unat va div 4096 * 4096 + unat va mod 4096" "unat va mod 4096 < 4096" by simp_all
  ultimately have "unat va < 274877906944 + 4096" by linarith
  then show ?thesis by simp
qed

section \<open>Reading user memory\<close>

lemma length_get_bytes [simp]: "length (get_bytes a n m) = n"
  by (simp add: get_bytes_def)

text \<open>The bytes of one page from \<open>va\<close> on.\<close>

lemma get_bytes_page:
  assumes "PGROUNDDOWN va < MAXVA" "n \<le> 4096 - unat va mod 4096"
  shows "get_bytes (user_pa m pt (PGROUNDDOWN va) + (va - PGROUNDDOWN va)) n m =
    map (\<lambda>i. ubyte m pt (va + of_nat i)) [0..<n]"
proof -
  have "m (user_pa m pt (PGROUNDDOWN va) + (va - PGROUNDDOWN va) + of_nat i) = ubyte m pt (va + of_nat i)"
    if "i < n" for i
  proof -
    have "unat va mod 4096 + i < 4096" using that assms(2) by linarith
    then show ?thesis
      using PGROUNDDOWN_add [of va i] PGROUNDDOWN_small [OF assms(1)]
      by (simp add: ubyte_def byte_pa_def algebra_simps)
  qed
  then show ?thesis by (simp add: get_bytes_def)
qed

lemma mapped_page:
  assumes "PGROUNDDOWN va < MAXVA" "i < 4096 - unat va mod 4096"
  shows "u_mapped m pt (va + of_nat i) = u_mapped m pt va"
proof -
  have "unat va mod 4096 + i < 4096" using assms(2) by linarith
  then show ?thesis using PGROUNDDOWN_add(1) [of va i] PGROUNDDOWN_small [OF assms(1)] by (simp add: u_mapped_def)
qed

lemma mapped_MAXVA: "u_mapped m pt va \<Longrightarrow> PGROUNDDOWN va < MAXVA"
  unfolding u_mapped_def by (rule user_pa_MAXVA)

lemma copyin_step:
  assumes "len \<noteq> 0"
  shows "copyin pt va len s =
    (if u_mapped (mem s) pt va
     then bnd (copyin pt (PGROUNDDOWN va + PGSIZE) (len - of_nat (page_chunk va len)) s) (\<lambda>(r, bs) s'.
       Ret (r, get_bytes (user_pa (mem s) pt (PGROUNDDOWN va) + (va - PGROUNDDOWN va)) (page_chunk va len) (mem s) @ bs) s')
     else Ret (- 1, []) s)"
  unfolding copyin.simps [of pt va len s] walkaddr_eq u_mapped_def Let_def using assms by (simp add: word_gt_0)

text \<open>
  \<open>copyin\<close> never changes the state.  It succeeds exactly when every byte of the range is mapped for
  the user, and then returns those bytes.
\<close>

lemma copyin_spec:
  "\<exists>r bs. copyin pt va len s = Ret (r, bs) s \<and>
    (if \<forall>i < unat len. u_mapped (mem s) pt (va + of_nat i)
     then r = 0 \<and> bs = map (\<lambda>i. ubyte (mem s) pt (va + of_nat i)) [0..<unat len]
     else r = - 1)"
proof (induction pt va len s rule: copyin.induct)
  case (1 pt va len s)
  let ?m = "mem s" and ?p = "PGROUNDDOWN va"
  define n where "n = page_chunk va len"
  show ?case
  proof (cases "len = 0")
    case True
    then show ?thesis by (simp add: copyin.simps)
  next
    case False
    then have pos: "0 < unat len" by (simp add: unat_gt_0)
    show ?thesis
    proof (cases "u_mapped ?m pt va")
      case unmapped: False
      then have "copyin pt va len s = Ret (- 1, []) s"
        using False by (simp add: copyin_step)
      moreover have "\<not> (\<forall>i < unat len. u_mapped ?m pt (va + of_nat i))"
        using unmapped pos by (intro notI) (drule spec [of _ 0], simp)
      ultimately show ?thesis by simp
    next
      case True
      have lt: "?p < MAXVA" by (rule mapped_MAXVA [OF True])
      have n: "n \<le> 4096 - unat va mod 4096" "n \<le> unat len" "n = 4096 - unat va mod 4096 \<or> n = unat len" "0 < n"
        using pos by (auto simp: n_def page_chunk_eq min_def)
      let ?va = "?p + PGSIZE" and ?len = "len - of_nat n"
      have len: "unat ?len = unat len - n"
      proof -
        have "unat (of_nat n :: u64) = n" using n(1) by (intro unat_of_nat_u64) simp
        with n(2) show ?thesis by (subst unat_sub) (simp_all add: word_le_nat_alt)
      qed
      obtain r bs where IH: "copyin pt ?va ?len s = Ret (r, bs) s"
        "if \<forall>i < unat ?len. u_mapped ?m pt (?va + of_nat i)
         then r = 0 \<and> bs = map (\<lambda>i. ubyte ?m pt (?va + of_nat i)) [0..<unat ?len] else r = - 1"
        using "1.IH" [of ?p "user_pa ?m pt ?p" s n] True False unfolding n_def
        by (simp add: walkaddr_eq u_mapped_def word_gt_0) blast
      have step: "copyin pt va len s = Ret (r, map (\<lambda>i. ubyte ?m pt (va + of_nat i)) [0..<n] @ bs) s"
        unfolding copyin_step [OF False] n_def [symmetric] get_bytes_page [OF lt n(1), of ?m pt] IH(1)
        using True by simp
      have nx: "?va + of_nat i = va + of_nat (n + i)" if "i < unat ?len" for i
      proof -
        have "n = 4096 - unat va mod 4096" using n(3) that len by linarith
        then show ?thesis using PGROUNDDOWN_next(1) [OF lt] by (simp add: add.assoc)
      qed
      have page: "\<forall>i < n. u_mapped ?m pt (va + of_nat i)"
        using mapped_page [OF lt] True n(1) by (meson less_le_trans)
      have all: "(\<forall>i < unat len. u_mapped ?m pt (va + of_nat i)) \<longleftrightarrow>
          (\<forall>i < unat ?len. u_mapped ?m pt (?va + of_nat i))"
        unfolding all_less_split [OF n(2)] len [symmetric] using page nx by (auto simp: add.assoc)
      have cat: "map (\<lambda>i. ubyte ?m pt (va + of_nat i)) [0..<unat len] =
          map (\<lambda>i. ubyte ?m pt (va + of_nat i)) [0..<n] @ map (\<lambda>i. ubyte ?m pt (?va + of_nat i)) [0..<unat ?len]"
        unfolding map_upt_split [OF n(2)] len [symmetric] 
        by (intro arg_cong2 [of _ _ _ _ append] refl map_cong) (simp only: nx set_upt atLeastLessThan_iff)
      show ?thesis
        using IH(2) unfolding step all [symmetric] cat by (cases "\<forall>i < unat len. u_mapped ?m pt (va + of_nat i)") simp_all
    qed
  qed
qed

section \<open>Writing user memory\<close>

lemma put_bytes_apply:
  assumes "length bs < 2 ^ 64"
  shows "put_bytes a bs m x = (if unat (x - a) < length bs then bs ! unat (x - a) else m x)"
proof -
  have "fold (\<lambda>i m. m(a + of_nat i := bs ! i)) [0..<k] m x = (if unat (x - a) < k then bs ! unat (x - a) else m x)"
    if "k \<le> length bs" for k
    using that
  proof (induction k)
    case (Suc k)
    have k: "unat (of_nat k :: u64) = k" using Suc.prems assms by (intro unat_of_nat_u64) simp
    have "x = a + of_nat k \<longleftrightarrow> x - a = of_nat k" by (auto simp: algebra_simps)
    also have "\<dots> \<longleftrightarrow> unat (x - a) = k" by (simp add: word_unat_eq_iff k)
    finally have "x = a + of_nat k \<longleftrightarrow> unat (x - a) = k" .
    with Suc show ?case by (auto simp: less_Suc_eq)
  qed simp
  then show ?thesis by (simp add: put_bytes_def)
qed

text \<open>The addresses a lookup reads, and that it depends on nothing else.\<close>

definition pte_bytes :: "u64 \<Rightarrow> u64 set" where
  "pte_bytes a = {x. unat (x - a) < 8}"

fun loop_footprint :: "nat \<Rightarrow> u64 \<Rightarrow> u64 \<Rightarrow> memory \<Rightarrow> u64 set" where
  "loop_footprint 0 pt va m = pte_bytes (pt + 8 * PX 0 va)"
| "loop_footprint (Suc l) pt va m =
     (let a = pt + 8 * PX (Suc l) va
      in pte_bytes a \<union> (if load64 a m AND PTE_V \<noteq> 0 then loop_footprint l (PTE2PA (load64 a m)) va m else {}))"

definition walk_footprint :: "memory \<Rightarrow> u64 \<Rightarrow> u64 \<Rightarrow> u64 set" where
  "walk_footprint m pt va = loop_footprint 2 pt va m"

lemma load64_agree:
  assumes "\<forall>x \<in> pte_bytes a. m' x = m x"
  shows "load64 a m' = load64 a m"
proof (rule load64_cong)
  fix i :: nat assume "i < 8"
  then have "unat (of_nat i :: u64) = i" by (intro unat_of_nat_u64) simp
  with \<open>i < 8\<close> have "a + of_nat i \<in> pte_bytes a" by (simp add: pte_bytes_def)
  with assms show "m' (a + of_nat i) = m (a + of_nat i)" by blast
qed

lemma lookup_agree:
  assumes "\<forall>x \<in> loop_footprint l pt va m. m' x = m x"
  shows "lookup_loop l pt va m' = lookup_loop l pt va m"
    and "loop_footprint l pt va m' = loop_footprint l pt va m"
    and "lookup_loop l pt va m \<noteq> 0 \<Longrightarrow> load64 (lookup_loop l pt va m) m' = load64 (lookup_loop l pt va m) m"
  using assms
proof (induction l arbitrary: pt)
  case 0
  {
    case 1 show ?case by simp
  next
    case 2 show ?case by simp
  next
    case 3 then show ?case by (simp add: load64_agree)
  }
next
  case (Suc l)
  let ?a = "\<lambda>pt. pt + 8 * PX (Suc l) va"
  have ld: "load64 (?a pt) m' = load64 (?a pt) m" if "\<forall>x \<in> loop_footprint (Suc l) pt va m. m' x = m x" for pt
    using that by (intro load64_agree) (simp add: Let_def)
  have sub: "\<forall>x \<in> loop_footprint l (PTE2PA (load64 (?a pt) m)) va m. m' x = m x"
    if "\<forall>x \<in> loop_footprint (Suc l) pt va m. m' x = m x" "load64 (?a pt) m AND PTE_V \<noteq> 0" for pt
    using that by (simp add: Let_def)
  {
    case 1 show ?case
      using Suc.IH(1) [OF sub [OF 1]] ld [OF 1] by (cases "load64 (?a pt) m AND PTE_V = 0") (simp_all add: Let_def)
  next
    case 2 show ?case
      using Suc.IH(2) [OF sub [OF 2]] ld [OF 2] by (cases "load64 (?a pt) m AND PTE_V = 0") (simp_all add: Let_def)
  next
    case 3 then show ?case
      using Suc.IH(3) [OF _ sub [OF 3(2)]] by (cases "load64 (?a pt) m AND PTE_V = 0") (simp_all add: Let_def)
  }
qed

lemma user_pte_agree:
  "\<forall>x \<in> walk_footprint m pt va. m' x = m x \<Longrightarrow> user_pte m' pt va = user_pte m pt va"
  using lookup_agree [of 2 pt va m m'] by (simp add: walk_footprint_def user_pte_def pte_addr_def)

definition u_writable :: "memory \<Rightarrow> u64 \<Rightarrow> u64 \<Rightarrow> bool" where
  "u_writable m pt va \<longleftrightarrow> (let pte = user_pte m pt (PGROUNDDOWN va)
     in pte AND PTE_V \<noteq> 0 \<and> pte AND PTE_U \<noteq> 0 \<and> pte AND PTE_W \<noteq> 0)"

text \<open>
  A range of user memory that may be written without disturbing the page table it is reached
  through: no byte of it is part of an entry that translates the range.
\<close>

definition range_apart :: "memory \<Rightarrow> u64 \<Rightarrow> u64 \<Rightarrow> nat \<Rightarrow> bool" where
  "range_apart m pt va n \<longleftrightarrow>
     (\<forall>i < n. \<forall>j < n. byte_pa m pt (va + of_nat i) \<notin> walk_footprint m pt (PGROUNDDOWN (va + of_nat j)))"

definition user_write :: "memory \<Rightarrow> u64 \<Rightarrow> u64 \<Rightarrow> u8 list \<Rightarrow> memory" where
  "user_write m pt va bs = fold (\<lambda>i m'. m'(byte_pa m pt (va + of_nat i) := bs ! i)) [0..<length bs] m"

lemma user_pa_agree:
  "\<forall>x \<in> walk_footprint m pt va. m' x = m x \<Longrightarrow>
    user_pa m' pt va = user_pa m pt va \<and> walk_footprint m' pt va = walk_footprint m pt va"
  using user_pte_agree [of m pt va m'] lookup_agree(2) [of 2 pt va m m']
  by (simp add: user_pa_def walk_footprint_def)

lemma fold_upd_other: "x \<notin> f ` set is \<Longrightarrow> fold (\<lambda>i m. m(f i := g i)) is m x = m x"
  by (induction "is" arbitrary: m) auto

lemma copyout_step:
  assumes "src \<noteq> []" "length src < 2 ^ 64" "u_writable (mem s) pt va"
  defines "n \<equiv> page_chunk va (of_nat (length src))"
  shows "copyout pt va src s = copyout pt (PGROUNDDOWN va + PGSIZE) (drop n src)
    (s\<lparr>mem := put_bytes (user_pa (mem s) pt (PGROUNDDOWN va) + (va - PGROUNDDOWN va)) (take n src) (mem s)\<rparr>)"
proof -
  let ?p = "PGROUNDDOWN va"
  have w: "user_pte (mem s) pt ?p AND PTE_V \<noteq> 0" "user_pte (mem s) pt ?p AND PTE_U \<noteq> 0"
    "user_pte (mem s) pt ?p AND PTE_W \<noteq> 0"
    using assms(3) by (simp_all add: u_writable_def Let_def)
  then have "\<not> MAXVA \<le> ?p" "pte_addr (mem s) pt ?p \<noteq> 0"
    "user_pte (mem s) pt ?p = load64 (pte_addr (mem s) pt ?p) (mem s)"
    "user_pa (mem s) pt ?p = PTE2PA (load64 (pte_addr (mem s) pt ?p) (mem s))"
    by (auto simp: user_pte_def user_pa_def Let_def split: if_splits)
  with w assms(1) show ?thesis
    unfolding copyout.simps [of pt va src s] walk_noalloc n_def by (simp add: Let_def)
qed

lemma byte_pa_page:
  assumes "PGROUNDDOWN va < MAXVA" "i < 4096 - unat va mod 4096"
  shows "byte_pa m pt (va + of_nat i) = user_pa m pt (PGROUNDDOWN va) + (va - PGROUNDDOWN va) + of_nat i"
    "u_writable m pt (va + of_nat i) = u_writable m pt va"
proof -
  have "unat va mod 4096 + i < 4096" using assms(2) by linarith
  then have "PGROUNDDOWN (va + of_nat i) = PGROUNDDOWN va"
    using PGROUNDDOWN_add(1) [of va i] PGROUNDDOWN_small [OF assms(1)] by simp
  then show "byte_pa m pt (va + of_nat i) = user_pa m pt (PGROUNDDOWN va) + (va - PGROUNDDOWN va) + of_nat i"
    "u_writable m pt (va + of_nat i) = u_writable m pt va"
    by (simp_all add: byte_pa_def u_writable_def algebra_simps)
qed

lemma writable_MAXVA: "u_writable m pt va \<Longrightarrow> PGROUNDDOWN va < MAXVA"
  by (auto simp: u_writable_def user_pte_def Let_def split: if_splits)

lemma put_bytes_user_write:
  assumes "PGROUNDDOWN va < MAXVA" "n \<le> 4096 - unat va mod 4096" "n \<le> length src"
  shows "put_bytes (user_pa m pt (PGROUNDDOWN va) + (va - PGROUNDDOWN va)) (take n src) m =
    fold (\<lambda>i m'. m'(byte_pa m pt (va + of_nat i) := src ! i)) [0..<n] m"
  unfolding put_bytes_def using assms
  by (intro fold_cong) (auto simp: byte_pa_page(1))

lemma fold_upt_split:
  assumes "n \<le> k"
  shows "fold f [0..<k] x = fold (\<lambda>i. f (n + i)) [0..<k - n] (fold f [0..<n] x)"
proof -
  have "[0..<k] = [0..<n] @ map (\<lambda>i. n + i) [0..<k - n]"
    using map_upt_split [OF assms, of "\<lambda>i. i"] by simp
  then show ?thesis by (simp add: fold_map comp_def)
qed

lemma copyout_writes:
  assumes "length src < 2 ^ 63" "\<forall>i < length src. u_writable (mem s) pt (va + of_nat i)"
    and "range_apart (mem s) pt va (length src)"
  shows "copyout pt va src s = Ret 0 (s\<lparr>mem := user_write (mem s) pt va src\<rparr>)"
  using assms
proof (induction "length src" arbitrary: va src s rule: less_induct)
  case less
  let ?m = "mem s" and ?p = "PGROUNDDOWN va"
  show ?case
  proof (cases "src = []")
    case True
    then show ?thesis by (simp add: copyout.simps user_write_def)
  next
    case False
    then have pos: "0 < length src" by simp
    then have w: "u_writable ?m pt va" using less.prems(2) [rule_format, of 0] by simp
    have lt: "?p < MAXVA" by (rule writable_MAXVA [OF w])
    define n where "n = page_chunk va (of_nat (length src))"
    have "unat (of_nat (length src) :: u64) = length src" using less.prems(1) by (intro unat_of_nat_u64) simp
    then have n: "n \<le> 4096 - unat va mod 4096" "n \<le> length src" "n = 4096 - unat va mod 4096 \<or> n = length src" "0 < n"
      using pos by (auto simp: n_def page_chunk_eq min_def)
    define m1 where "m1 = fold (\<lambda>i m'. m'(byte_pa ?m pt (va + of_nat i) := src ! i)) [0..<n] ?m"
    have step: "copyout pt va src s = copyout pt (?p + PGSIZE) (drop n src) (s\<lparr>mem := m1\<rparr>)"
      using copyout_step [OF False _ w] less.prems(1) put_bytes_user_write [OF lt n(1,2), of ?m pt]
      by (simp add: n_def m1_def)
    have nx: "?p + PGSIZE + of_nat i = va + of_nat (n + i)" if "i < length src - n" for i
    proof -
      have "n = 4096 - unat va mod 4096" using n(3) that by linarith
      then show ?thesis using PGROUNDDOWN_next(1) [OF lt] by (simp add: add.assoc)
    qed
    have agree: "\<forall>x \<in> walk_footprint ?m pt (PGROUNDDOWN (va + of_nat j)). m1 x = ?m x" if "j < length src" for j
    proof
      fix x assume x: "x \<in> walk_footprint ?m pt (PGROUNDDOWN (va + of_nat j))"
      have "x \<noteq> byte_pa ?m pt (va + of_nat i)" if "i < n" for i
        using less.prems(3) n(2) that x \<open>j < length src\<close> unfolding range_apart_def by (metis less_le_trans)
      then have "x \<notin> (\<lambda>i. byte_pa ?m pt (va + of_nat i)) ` set [0..<n]" unfolding image_iff by simp
      then show "m1 x = ?m x" unfolding m1_def by (rule fold_upd_other)
    qed
    have pte: "user_pte m1 pt (PGROUNDDOWN (va + of_nat j)) = user_pte ?m pt (PGROUNDDOWN (va + of_nat j))"
      and pa: "byte_pa m1 pt (va + of_nat j) = byte_pa ?m pt (va + of_nat j)"
      and fp: "walk_footprint m1 pt (PGROUNDDOWN (va + of_nat j)) = walk_footprint ?m pt (PGROUNDDOWN (va + of_nat j))"
      if "j < length src" for j
      using user_pte_agree [OF agree [OF that]] user_pa_agree [OF agree [OF that]] by (simp_all add: byte_pa_def)
    have wr: "u_writable m1 pt (va + of_nat j)" if "j < length src" for j
      using less.prems(2) that unfolding u_writable_def pte [OF that] by blast
    have "copyout pt (?p + PGSIZE) (drop n src) (s\<lparr>mem := m1\<rparr>) =
        Ret 0 (s\<lparr>mem := m1\<rparr>\<lparr>mem := user_write m1 pt (?p + PGSIZE) (drop n src)\<rparr>)"
    proof (rule less.hyps [THEN trans])
      show "length (drop n src) < length src" using n(4) pos by simp
      show "length (drop n src) < 2 ^ 63" using less.prems(1) by simp
      show "\<forall>i < length (drop n src). u_writable (mem (s\<lparr>mem := m1\<rparr>)) pt (?p + PGSIZE + of_nat i)"
        using wr by (simp add: nx del: of_nat_add)
      show "range_apart (mem (s\<lparr>mem := m1\<rparr>)) pt (?p + PGSIZE) (length (drop n src))"
        using less.prems(3) by (simp add: range_apart_def nx pa fp del: of_nat_add)
    qed simp
    moreover have "user_write m1 pt (?p + PGSIZE) (drop n src) = user_write ?m pt va src"
      unfolding user_write_def fold_upt_split [OF n(2)] m1_def [symmetric]
      using n(2) by (intro fold_cong) (simp_all add: nx pa del: of_nat_add)
    ultimately show ?thesis using step by simp
  qed
qed

text \<open>Storing one byte of such a range leaves the translation of the whole range as it is.\<close>

lemma user_upd:
  assumes apart: "range_apart m pt va n" and "i < n" and m': "m' = m(byte_pa m pt (va + of_nat i) := c)"
  shows "j < n \<Longrightarrow> byte_pa m' pt (va + of_nat j) = byte_pa m pt (va + of_nat j)"
    and "j < n \<Longrightarrow> u_writable m' pt (va + of_nat j) = u_writable m pt (va + of_nat j)"
    and "j < n \<Longrightarrow> u_mapped m' pt (va + of_nat j) = u_mapped m pt (va + of_nat j)"
    and "range_apart m' pt va n"
proof -
  have "\<forall>x \<in> walk_footprint m pt (PGROUNDDOWN (va + of_nat j)). m' x = m x" if "j < n" for j
    using apart that \<open>i < n\<close> unfolding range_apart_def m' by auto
  note a = user_pte_agree [OF this] user_pa_agree [OF this]
  show b: "byte_pa m' pt (va + of_nat j) = byte_pa m pt (va + of_nat j)" if "j < n" for j
    using a [OF that] by (simp add: byte_pa_def)
  show "j < n \<Longrightarrow> u_writable m' pt (va + of_nat j) = u_writable m pt (va + of_nat j)"
    "j < n \<Longrightarrow> u_mapped m' pt (va + of_nat j) = u_mapped m pt (va + of_nat j)"
    using a by (simp_all add: u_writable_def u_mapped_def)
  show "range_apart m' pt va n" using apart a b by (simp add: range_apart_def)
qed

lemma user_write_Cons:
  assumes "\<forall>j < length bs. byte_pa (m(byte_pa m pt va := c)) pt (va + 1 + of_nat j) = byte_pa m pt (va + 1 + of_nat j)"
  shows "user_write m pt va (c # bs) = user_write (m(byte_pa m pt va := c)) pt (va + 1) bs"
proof -
  have "[0..<Suc (length bs)] = 0 # map Suc [0..<length bs]"
    by (simp add: upt_conv_Cons map_Suc_upt del: upt_Suc)
  then have "user_write m pt va (c # bs) =
      fold (\<lambda>j m'. m'(byte_pa m pt (va + 1 + of_nat j) := bs ! j)) [0..<length bs] (m(byte_pa m pt va := c))"
    by (simp add: user_write_def fold_map comp_def add.assoc del: upt_Suc)
  also have "\<dots> = user_write (m(byte_pa m pt va := c)) pt (va + 1) bs"
    using assms unfolding user_write_def by (intro fold_cong) simp_all
  finally show ?thesis .
qed

lemma user_write_Nil [simp]: "user_write m pt va [] = m"
  by (simp add: user_write_def)

lemma copyout_byte:
  assumes "u_writable (mem s) pt (va + of_nat i)" "range_apart (mem s) pt va n" "i < n"
  shows "copyout pt (va + of_nat i) [c] s = Ret 0 (s\<lparr>mem := (mem s)(byte_pa (mem s) pt (va + of_nat i) := c)\<rparr>)"
  using assms copyout_writes [of "[c]" s pt "va + of_nat i"]
  by (simp add: range_apart_def user_write_def)

section \<open>Properties\<close>

text \<open>
  C18: \<open>copyin\<close> always returns and never changes the state.  It returns 0 exactly when every byte of
  the range is mapped for the user, and then it has copied those bytes; otherwise it returns -1.
\<close>

theorem copyin_reads_user_memory:
  "\<exists>r bs. copyin pt va len s = Ret (r, bs) s \<and>
    (if \<forall>i < unat len. u_mapped (mem s) pt (va + of_nat i)
     then r = 0 \<and> bs = map (\<lambda>i. ubyte (mem s) pt (va + of_nat i)) [0..<unat len]
     else r = - 1)"
  by (rule copyin_spec)

lemma fold_upd_at:
  "inj_on f (set is) \<Longrightarrow> distinct is \<Longrightarrow> i \<in> set is \<Longrightarrow> fold (\<lambda>i m. m(f i := g i)) is m (f i) = g i"
proof (induction "is" arbitrary: m)
  case (Cons j js)
  show ?case
  proof (cases "i = j")
    case True
    then have "f j \<notin> f ` set js" using Cons.prems(1,2) by auto
    then have "fold (\<lambda>i m. m(f i := g i)) js (m(f j := g j)) (f j) = (m(f j := g j)) (f j)"
      by (rule fold_upd_other)
    with True show ?thesis by (simp only: fold_simps fun_upd_same)
  next
    case False
    with Cons.prems have "fold (\<lambda>i m. m(f i := g i)) js (m(f j := g j)) (f i) = g i"
      by (intro Cons.IH) auto
    then show ?thesis by (simp only: fold_simps)
  qed
qed simp

text \<open>
  C19: Bytes the kernel writes to user memory with \<open>copyout\<close> are the bytes it reads back with
  \<open>copyin\<close>.  The range must be writable by the user at distinct physical bytes that are not part of
  the page-table entries the range is reached through.
\<close>

theorem copyout_copyin:
  assumes "length src < 2 ^ 63" "\<forall>i < length src. u_writable (mem s) pt (va + of_nat i)"
    and "\<forall>i < length src. u_mapped (mem s) pt (va + of_nat i)"
    and "range_apart (mem s) pt va (length src)"
    and "inj_on (\<lambda>i. byte_pa (mem s) pt (va + of_nat i)) {..<length src}"
  shows "bnd (copyout pt va src s) (\<lambda>r s. copyin pt va (of_nat (length src)) s) =
    Ret (0, src) (s\<lparr>mem := user_write (mem s) pt va src\<rparr>)"
proof -
  let ?m = "mem s" and ?m' = "user_write (mem s) pt va src" and ?n = "length src"
  have len: "unat (of_nat ?n :: u64) = ?n" using assms(1) by (intro unat_of_nat_u64) simp
  have agree: "\<forall>x \<in> walk_footprint ?m pt (PGROUNDDOWN (va + of_nat j)). ?m' x = ?m x" if "j < ?n" for j
  proof
    fix x assume "x \<in> walk_footprint ?m pt (PGROUNDDOWN (va + of_nat j))"
    then have "x \<notin> (\<lambda>i. byte_pa ?m pt (va + of_nat i)) ` set [0..<?n]"
      using assms(4) that unfolding image_iff by (auto simp: range_apart_def)
    then show "?m' x = ?m x" unfolding user_write_def by (rule fold_upd_other)
  qed
  have pa: "user_pa ?m' pt (PGROUNDDOWN (va + of_nat j)) = user_pa ?m pt (PGROUNDDOWN (va + of_nat j))" if "j < ?n" for j
    using user_pa_agree [OF agree [OF that]] by simp
  have "ubyte ?m' pt (va + of_nat j) = src ! j" if "j < ?n" for j
  proof -
    have "?m' (byte_pa ?m pt (va + of_nat j)) = src ! j"
      unfolding user_write_def
      using assms(5) that fold_upd_at [of "\<lambda>i. byte_pa ?m pt (va + of_nat i)" "[0..<?n]" j "\<lambda>i. src ! i"]
      by (simp add: lessThan_atLeast0)
    then show ?thesis using pa [OF that] by (simp add: ubyte_def byte_pa_def)
  qed
  then have bytes: "map (\<lambda>i. ubyte ?m' pt (va + of_nat i)) [0..<?n] = src"
    by (intro nth_equalityI) simp_all
  have "\<forall>i < ?n. u_mapped ?m' pt (va + of_nat i)" using assms(3) pa by (simp add: u_mapped_def)
  then have "copyin pt va (of_nat ?n) (s\<lparr>mem := ?m'\<rparr>) = Ret (0, src) (s\<lparr>mem := ?m'\<rparr>)"
    using copyin_spec [of pt va "of_nat ?n" "s\<lparr>mem := ?m'\<rparr>"] unfolding len by (simp add: bytes)
  then show ?thesis using copyout_writes [OF assms(1,2,4)] by simp
qed

subsection \<open>Witnesses\<close>

text \<open>A page table at \<open>0x80001000\<close> that maps the first page of user memory to \<open>0x80004000\<close>.\<close>

definition demo_pt_mem :: memory where
  "demo_pt_mem = store64 0x80003000 0x20001017
     (store64 0x80002000 0x20000C01 (store64 0x80001000 0x20000801 (\<lambda>_. 0)))"

lemma demo_pt_loads:
  "load64 0x80001000 demo_pt_mem = 0x20000801"
  "load64 0x80002000 demo_pt_mem = 0x20000C01"
  "load64 0x80003000 demo_pt_mem = 0x20001017"
  by (simp_all add: demo_pt_mem_def load64_store64 load64_store64_other)

lemma demo_pt_PTE2PA:
  "PTE2PA 0x20000801 = 0x80002000" "PTE2PA 0x20000C01 = 0x80003000" "PTE2PA 0x20001017 = 0x80004000"
  by (simp_all add: PTE2PA_def)

lemma PX_zero: "PX l 0 = 0"
  by (simp add: PX_def)

lemma demo_pt_flags:
  "0x20000801 AND PTE_V \<noteq> 0" "0x20000C01 AND PTE_V \<noteq> 0" "0x20001017 AND PTE_V \<noteq> 0"
  "0x20001017 AND PTE_U \<noteq> 0" "0x20001017 AND PTE_W \<noteq> 0"
  by (simp_all add: PTE_V_def PTE_U_def PTE_W_def)

lemmas demo_pt_facts = demo_pt_loads demo_pt_PTE2PA demo_pt_flags PX_zero Let_def

lemma demo_pt_lookup:
  "pte_addr demo_pt_mem 0x80001000 0 = 0x80003000"
  "walk_footprint demo_pt_mem 0x80001000 0 = pte_bytes 0x80001000 \<union> (pte_bytes 0x80002000 \<union> pte_bytes 0x80003000)"
  by (simp_all add: pte_addr_def walk_footprint_def numeral_2_eq_2 demo_pt_facts)

lemma demo_pt_user:
  "user_pte demo_pt_mem 0x80001000 0 = 0x20001017" "user_pa demo_pt_mem 0x80001000 0 = 0x80004000"
  by (simp_all add: user_pte_def user_pa_def demo_pt_lookup demo_pt_facts MAXVA_def)

lemma demo_pt_page: "i < 3 \<Longrightarrow> PGROUNDDOWN (16 + of_nat i) = 0"
  by (auto simp: numeral_3_eq_3 less_Suc_eq PGROUNDDOWN_def PGSIZE_def)

lemma demo_pt_byte: "i < 3 \<Longrightarrow> byte_pa demo_pt_mem 0x80001000 (16 + of_nat i) = 0x80004010 + of_nat i"
  by (simp add: byte_pa_def demo_pt_page demo_pt_user)

lemma demo_pt_writable: "i < 3 \<Longrightarrow> u_writable demo_pt_mem 0x80001000 (16 + of_nat i)"
  by (simp add: u_writable_def demo_pt_page demo_pt_user demo_pt_facts)

lemma demo_pt_mapped: "i < 3 \<Longrightarrow> u_mapped demo_pt_mem 0x80001000 (16 + of_nat i)"
  by (simp add: u_mapped_def demo_pt_page demo_pt_user)

lemma demo_pt_apart: "range_apart demo_pt_mem 0x80001000 16 3"
  unfolding range_apart_def
  by (auto simp: demo_pt_byte demo_pt_page demo_pt_lookup pte_bytes_def numeral_3_eq_3 less_Suc_eq)

lemma demo_pt_inj: "inj_on (\<lambda>i. byte_pa demo_pt_mem 0x80001000 (16 + of_nat i)) {..<3}"
  by (rule inj_onI) (auto simp: demo_pt_byte numeral_3_eq_3 less_Suc_eq lessThan_def)

lemma demo_pt_data: "i < 3 \<Longrightarrow> demo_pt_mem (0x80004010 + of_nat i) = 0"
  by (auto simp: demo_pt_mem_def store64_apply numeral_3_eq_3 less_Suc_eq)

lemma demo_pt_zero: "map (\<lambda>i. ubyte demo_pt_mem 0x80001000 (16 + of_nat i)) [0..<3] = [0, 0, 0]"
  by (simp add: ubyte_def demo_pt_byte demo_pt_data list_eq_iff_nth_eq nth_Cons split: nat.splits)

definition demo_vm :: vm_state where
  "demo_vm = \<lparr>tp = 0, sstatus = (\<lambda>_. 0), cpus = (\<lambda>_. zero_cpu), locks = (\<lambda>_. zero_lock),
     mem = demo_pt_mem, freelist = 0, kend = 0x80020000,
     kernel_pagetable = 0, etext = 0, trampoline = 0, satp = (\<lambda>_. 0)\<rparr>"

theorem copyin_reads_user_memory_witness: "copyin 0x80001000 16 3 demo_vm = Ret (0, [0, 0, 0]) demo_vm"
proof -
  have "mem demo_vm = demo_pt_mem" by (simp add: demo_vm_def)
  then show ?thesis
    using copyin_reads_user_memory [of "0x80001000" 16 3 demo_vm] demo_pt_mapped demo_pt_zero by auto
qed

theorem copyout_copyin_witness:
  "bnd (copyout 0x80001000 16 [1, 2, 3] demo_vm) (\<lambda>r s. copyin 0x80001000 16 3 s) =
    Ret (0, [1, 2, 3]) (demo_vm\<lparr>mem := user_write demo_pt_mem 0x80001000 16 [1, 2, 3]\<rparr>)"
proof -
  have m: "mem demo_vm = demo_pt_mem" by (simp add: demo_vm_def)
  have "length [1, 2, 3 :: u8] = 3" by simp
  then show ?thesis
    using copyout_copyin [of "[1, 2, 3]" demo_vm "0x80001000" 16]
    unfolding m by (simp add: demo_pt_writable demo_pt_mapped demo_pt_apart demo_pt_inj del: One_nat_def list.size)
qed

end
