(* ===== verification/Pipe.thy ===== *)
theory Pipe
  imports Sleeplock Ring VmLookup
begin

text \<open>
  Pipes, \<open>kernel/pipe.c\<close>, apart from \<open>pipealloc\<close>, which needs the file table.  \<open>pipes a\<close> is the
  \<open>struct pipe\<close> at address \<open>a\<close>.  A reader or writer that has to wait leaves the CPU in \<open>sleep\<close>; the
  loops \<open>pipewrite_loop\<close> and \<open>piperead_wait\<close> are what it continues with.
\<close>

definition PIPESIZE :: nat where "PIPESIZE = 512"

record pipe =
  pi_data :: "nat \<Rightarrow> u8"
  pi_nread :: u32
  pi_nwrite :: u32
  pi_readopen :: i32
  pi_writeopen :: i32

record pipe_state = sync_state +
  pipes :: "u64 \<Rightarrow> pipe"

definition upd_pipe :: "u64 \<Rightarrow> (pipe \<Rightarrow> pipe) \<Rightarrow> 'a pipe_state_scheme \<Rightarrow> 'a pipe_state_scheme" where
  "upd_pipe pip f s = s\<lparr>pipes := (pipes s)(pip := f (pipes s pip))\<rparr>"

definition pipeclose :: "u64 \<Rightarrow> bool \<Rightarrow> 'a pipe_state_scheme \<Rightarrow> ('a pipe_state_scheme, unit) outcome" where
  "pipeclose pip writable s =
     bnd (acquire (PipeLock pip) s) (\<lambda>_ s.
     bnd (if writable
          then wakeup (Some (PipeReadChan pip)) (upd_pipe pip (\<lambda>x. x\<lparr>pi_writeopen := 0\<rparr>) s)
          else wakeup (Some (PipeWriteChan pip)) (upd_pipe pip (\<lambda>x. x\<lparr>pi_readopen := 0\<rparr>) s)) (\<lambda>_ s.
     if pi_readopen (pipes s pip) = 0 \<and> pi_writeopen (pipes s pip) = 0
     then bnd (release (PipeLock pip) s) (\<lambda>_ s. kfree pip s)
     else release (PipeLock pip) s))"

text \<open>One byte into the ring and out of it.\<close>

definition pipe_put :: "u8 \<Rightarrow> pipe \<Rightarrow> pipe" where
  "pipe_put ch x = x\<lparr>pi_data := (pi_data x)(unat (pi_nwrite x) mod PIPESIZE := ch), pi_nwrite := pi_nwrite x + 1\<rparr>"

definition pipe_get :: "pipe \<Rightarrow> u8 \<times> pipe" where
  "pipe_get x = (pi_data x (unat (pi_nread x) mod PIPESIZE), x\<lparr>pi_nread := pi_nread x + 1\<rparr>)"

definition pipewrite_end :: "u64 \<Rightarrow> i32 \<Rightarrow> 'a pipe_state_scheme \<Rightarrow> ('a pipe_state_scheme, i32) outcome" where
  "pipewrite_end pip i s =
     bnd (wakeup (Some (PipeReadChan pip)) s) (\<lambda>_ s.
     bnd (release (PipeLock pip) s) (\<lambda>_ s. Ret i s))"

lemma sint_Suc_less:
  assumes "i <s (n :: i32)"
  shows "sint (i + 1) = sint i + 1"
proof -
  have "sint i < sint n" using assms by (simp add: word_sless_alt)
  moreover have "sint n < 2 ^ 31" using sint_lt [of n] by simp
  moreover have "- (2 ^ 31) \<le> sint i" using sint_ge [of i] by simp
  ultimately show ?thesis by (simp add: sint_word_ariths signed_take_bit_int_eq_self)
qed

function pipewrite_loop ::
    "u64 \<Rightarrow> nat \<Rightarrow> u64 \<Rightarrow> i32 \<Rightarrow> i32 \<Rightarrow> 'a pipe_state_scheme \<Rightarrow> ('a pipe_state_scheme, i32) outcome" where
  "pipewrite_loop pip pr addr n i s =
     (if \<not> i <s n then pipewrite_end pip i s
      else bnd (if pi_readopen (pipes s pip) = 0 then Ret 1 s else killed pr s) (\<lambda>gone s.
      if gone \<noteq> 0 then bnd (release (PipeLock pip) s) (\<lambda>_ s. Ret (- 1) s)
      else if pi_nwrite (pipes s pip) = pi_nread (pipes s pip) + of_nat PIPESIZE
      then bnd (wakeup (Some (PipeReadChan pip)) s) (\<lambda>_ s.
           bnd (sleep (PipeWriteChan pip) (PipeLock pip) s) (\<lambda>_ s.
           pipewrite_loop pip pr addr n i s))
      else bnd (copyin (p_pagetable (procs s pr)) (addr + scast i) 1 s) (\<lambda>(r, ch) s.
           if r = - 1 then pipewrite_end pip i s
           else pipewrite_loop pip pr addr n (i + 1) (upd_pipe pip (pipe_put (hd ch)) s))))"
  by pat_completeness auto
termination
  by (relation "measure (\<lambda>(pip, pr, addr, n, i, s). nat (sint n - sint i))")
     (auto simp: sleep_not_Ret sint_Suc_less word_sless_alt)

declare pipewrite_loop.simps [simp del]

definition pipewrite :: "u64 \<Rightarrow> u64 \<Rightarrow> i32 \<Rightarrow> 'a pipe_state_scheme \<Rightarrow> ('a pipe_state_scheme, i32) outcome" where
  "pipewrite pip addr n s =
     bnd (curproc s) (\<lambda>pr s.
     bnd (acquire (PipeLock pip) s) (\<lambda>_ s.
     pipewrite_loop pip pr addr n 0 s))"

function piperead_copy ::
    "u64 \<Rightarrow> nat \<Rightarrow> u64 \<Rightarrow> i32 \<Rightarrow> i32 \<Rightarrow> 'a pipe_state_scheme \<Rightarrow> ('a pipe_state_scheme, i32) outcome" where
  "piperead_copy pip pr addr n i s =
     (if \<not> i <s n then Ret i s
      else if pi_nread (pipes s pip) = pi_nwrite (pipes s pip) then Ret i s
      else let (ch, x) = pipe_get (pipes s pip);
               s = upd_pipe pip (\<lambda>_. x) s
      in bnd (copyout (p_pagetable (procs s pr)) (addr + scast i) [ch] s) (\<lambda>r s.
         if r = - 1 then Ret i s else piperead_copy pip pr addr n (i + 1) s))"
  by pat_completeness auto
termination
  by (relation "measure (\<lambda>(pip, pr, addr, n, i, s). nat (sint n - sint i))")
     (auto simp: sint_Suc_less word_sless_alt)

declare piperead_copy.simps [simp del]

function piperead_wait ::
    "u64 \<Rightarrow> nat \<Rightarrow> u64 \<Rightarrow> i32 \<Rightarrow> 'a pipe_state_scheme \<Rightarrow> ('a pipe_state_scheme, i32) outcome" where
  "piperead_wait pip pr addr n s =
     (if pi_nread (pipes s pip) = pi_nwrite (pipes s pip) \<and> pi_writeopen (pipes s pip) \<noteq> 0
      then bnd (killed pr s) (\<lambda>k s.
           if k \<noteq> 0 then bnd (release (PipeLock pip) s) (\<lambda>_ s. Ret (- 1) s)
           else bnd (sleep (PipeReadChan pip) (PipeLock pip) s) (\<lambda>_ s. piperead_wait pip pr addr n s))
      else bnd (piperead_copy pip pr addr n 0 s) (\<lambda>i s.
           bnd (wakeup (Some (PipeWriteChan pip)) s) (\<lambda>_ s.
           bnd (release (PipeLock pip) s) (\<lambda>_ s. Ret i s))))"
  by pat_completeness auto
termination by (relation "{}") (auto simp: sleep_not_Ret)

declare piperead_wait.simps [simp del]

definition piperead :: "u64 \<Rightarrow> u64 \<Rightarrow> i32 \<Rightarrow> 'a pipe_state_scheme \<Rightarrow> ('a pipe_state_scheme, i32) outcome" where
  "piperead pip addr n s =
     bnd (curproc s) (\<lambda>pr s.
     bnd (acquire (PipeLock pip) s) (\<lambda>_ s.
     piperead_wait pip pr addr n s))"

section \<open>The pipe as a queue of bytes\<close>

interpretation pipe_ring: ring_buffer PIPESIZE "TYPE(32)"
  by unfold_locales (simp_all add: PIPESIZE_def)

definition pipe_list :: "pipe \<Rightarrow> u8 list" where
  "pipe_list x = ring_list PIPESIZE (pi_data x) (pi_nread x) (pi_nwrite x)"

definition pipe_room :: "pipe \<Rightarrow> nat" where
  "pipe_room x = PIPESIZE - length (pipe_list x)"

definition pipe_ok :: "pipe \<Rightarrow> bool" where
  "pipe_ok x \<longleftrightarrow> length (pipe_list x) \<le> PIPESIZE"

lemma pipe_full_iff:
  assumes "pipe_ok x"
  shows "pi_nwrite x = pi_nread x + of_nat PIPESIZE \<longleftrightarrow> pipe_room x = 0"
proof -
  have "pipe_room x = 0 \<longleftrightarrow> unat (pi_nwrite x - pi_nread x) = PIPESIZE"
    using assms by (auto simp: pipe_room_def pipe_ok_def pipe_list_def ring_used_def)
  also have "\<dots> \<longleftrightarrow> pi_nwrite x - pi_nread x = of_nat PIPESIZE"
    by (simp add: word_unat_eq_iff PIPESIZE_def)
  finally show ?thesis by (simp add: algebra_simps)
qed

lemma pipe_put_list:
  assumes "pipe_ok x" "pipe_room x \<noteq> 0"
  shows "pipe_list (pipe_put c x) = pipe_list x @ [c]" "pipe_ok (pipe_put c x)"
    "pipe_room (pipe_put c x) = pipe_room x - 1"
proof -
  have "ring_used (pi_nread x) (pi_nwrite x) < PIPESIZE"
    using assms(2) by (simp add: pipe_room_def pipe_list_def)
  then show l: "pipe_list (pipe_put c x) = pipe_list x @ [c]"
    using pipe_ring.ring_put by (simp add: pipe_list_def pipe_put_def)
  then show "pipe_ok (pipe_put c x)" "pipe_room (pipe_put c x) = pipe_room x - 1"
    using assms(2) by (simp_all add: pipe_ok_def pipe_room_def)
qed

lemma pipe_put_sel [simp]:
  "pi_nread (pipe_put c x) = pi_nread x" "pi_readopen (pipe_put c x) = pi_readopen x"
  "pi_writeopen (pipe_put c x) = pi_writeopen x"
  by (simp_all add: pipe_put_def)

lemma pipe_empty_iff: "pi_nread x = pi_nwrite x \<longleftrightarrow> pipe_list x = []"
  by (simp add: pipe_list_def ring_list_empty_iff)

lemma pipe_get_list:
  assumes "pipe_list x \<noteq> []"
  shows "fst (pipe_get x) = hd (pipe_list x)" "pipe_list (snd (pipe_get x)) = tl (pipe_list x)"
  using pipe_ring.ring_get [of "pi_nread x" "pi_nwrite x" "pi_data x"] assms
  by (auto simp: pipe_get_def pipe_list_def ring_list_empty_iff)

section \<open>Locks\<close>

lemma with_held_pipe [lock_simps]:
  "pipes (with_held H s) = pipes s"
  "(with_held H s)\<lparr>pipes := x\<rparr> = with_held H (s\<lparr>pipes := x\<rparr>)"
  "lock_free k (s\<lparr>pipes := x\<rparr>) = lock_free k s"
  by (simp_all add: with_held_def intr_get_def r_sstatus_def lock_free_def cong: if_cong)

lemma upd_pipe_with_held [lock_simps]: "upd_pipe pip f (with_held H s) = with_held H (upd_pipe pip f s)"
  by (simp add: upd_pipe_def lock_simps)

lemma upd_pipe_sel [simp]:
  "pipes (upd_pipe pip f s) = (pipes s)(pip := f (pipes s pip))"
  "procs (upd_pipe pip f s) = procs s" "queue (upd_pipe pip f s) = queue s" "qsize (upd_pipe pip f s) = qsize s"
  "ticks (upd_pipe pip f s) = ticks s" "current_policy (upd_pipe pip f s) = current_policy s"
  "mem (upd_pipe pip f s) = mem s" "cpus (upd_pipe pip f s) = cpus s" "tp (upd_pipe pip f s) = tp s"
  "locks (upd_pipe pip f s) = locks s" "sstatus (upd_pipe pip f s) = sstatus s"
  "lock_free k (upd_pipe pip f s) = lock_free k s" "proc_locks_free (upd_pipe pip f s) = proc_locks_free s"
  "mlfq_good (upd_pipe pip f s) = mlfq_good s"
  by (simp_all add: upd_pipe_def lock_simps proc_locks_free_def mlfq_good_def mlfq_ok_def mlfq_list_def level_of_def)

lemma upd_pipe_comp: "upd_pipe pip f (upd_pipe pip g s) = upd_pipe pip (\<lambda>x. f (g x)) s"
  by (simp add: upd_pipe_def)

lemma wake_state_pipe [simp]: "pipes (wake_state s chan ps q n) = pipes s" "mem (wake_state s chan ps q n) = mem s"
  by (simp_all add: wake_state_def)

lemma pipe_lock_user: "user_locks {PipeLock pip}"
  by (simp add: user_locks_def)

lemma killed_with_held:
  assumes "finite H" "ProcLock p \<notin> H" "lock_free (ProcLock p) s"
  shows "killed p (with_held H s) = Ret (p_killed (procs s p)) (with_held H s)"
  using assms by (simp add: killed_def lock_simps)

lemma copyin_byte:
  "u_mapped (mem s) pt va \<Longrightarrow> copyin pt va 1 s = Ret (0, [ubyte (mem s) pt va]) s"
  using copyin_spec [of pt va 1 s] by auto

section \<open>Writing\<close>

definition pipe_bytes :: "memory \<Rightarrow> u64 \<Rightarrow> u64 \<Rightarrow> nat \<Rightarrow> nat \<Rightarrow> u8 list" where
  "pipe_bytes m pt addr i j = map (\<lambda>k. ubyte m pt (addr + of_nat k)) [i..<j]"

definition pipe_puts :: "u8 list \<Rightarrow> pipe \<Rightarrow> pipe" where
  "pipe_puts bs x = fold pipe_put bs x"

lemma pipe_puts_list:
  "pipe_ok x \<Longrightarrow> length bs \<le> pipe_room x \<Longrightarrow>
    pipe_list (pipe_puts bs x) = pipe_list x @ bs \<and> pipe_ok (pipe_puts bs x)"
proof (induction bs arbitrary: x)
  case (Cons b bs)
  then have "pipe_room x \<noteq> 0" by auto
  with Cons show ?case by (simp add: pipe_puts_def pipe_put_list)
qed (simp add: pipe_puts_def)

lemma pipe_puts_Cons: "pipe_puts (b # bs) = (\<lambda>x. pipe_puts bs (pipe_put b x))"
  by (simp add: pipe_puts_def fun_eq_iff)

lemma scast_of_nat: "k < 2 ^ 31 \<Longrightarrow> (scast (of_nat k :: i32) :: u64) = of_nat k"
  by (simp add: signed_of_nat signed_take_bit_int_eq_self)

lemma pipe_bytes_Cons:
  "i < j \<Longrightarrow> pipe_bytes m pt addr i j = ubyte m pt (addr + of_nat i) # pipe_bytes m pt addr (Suc i) j"
  by (simp add: pipe_bytes_def upt_conv_Cons)

lemma of_nat_sless: "i < 2 ^ 31 \<Longrightarrow> j < 2 ^ 31 \<Longrightarrow> (of_nat i :: i32) <s of_nat j \<longleftrightarrow> i < j"
  by (simp add: word_sless_alt signed_of_nat signed_take_bit_int_eq_self)

text \<open>
  The run of the loop from index \<open>i\<close> on: it stores bytes until all are stored or the ring is full.
\<close>

lemma pipewrite_loop_run:
  assumes "lock_free (ProcLock pr) s" "p_killed (procs s pr) = 0" "n < 2 ^ 31"
    and "i \<le> n" "pipe_ok (pipes s pip)" "pi_readopen (pipes s pip) \<noteq> 0"
    and "\<forall>k. i \<le> k \<and> k < n \<longrightarrow> u_mapped (mem s) (p_pagetable (procs s pr)) (addr + of_nat k)"
    and "k = min n (i + pipe_room (pipes s pip))"
  shows "pipewrite_loop pip pr addr (of_nat n) (of_nat i) (with_held {PipeLock pip} s) =
    pipewrite_loop pip pr addr (of_nat n) (of_nat k) (with_held {PipeLock pip}
      (upd_pipe pip (pipe_puts (pipe_bytes (mem s) (p_pagetable (procs s pr)) addr i k)) s))"
  using assms
proof (induction "n - i" arbitrary: i s)
  case 0
  then show ?case by (simp add: pipe_bytes_def pipe_puts_def upd_pipe_def)
next
  case (Suc d)
  then have lt: "i < n" by simp
  show ?case
  proof (cases "pipe_room (pipes s pip) = 0")
    case True
    with Suc.prems show ?thesis by (simp add: pipe_bytes_def pipe_puts_def upd_pipe_def)
  next
    case False
    let ?b = "ubyte (mem s) (p_pagetable (procs s pr)) (addr + of_nat i)"
    let ?s = "upd_pipe pip (pipe_put ?b) s"
    have m: "u_mapped (mem s) (p_pagetable (procs s pr)) (addr + of_nat i)" using Suc.prems(7) lt by simp
    have "scast (of_nat i :: i32) = (of_nat i :: u64)" using lt Suc.prems(3) by (intro scast_of_nat) simp
    moreover have "of_nat i + (1 :: i32) = of_nat (Suc i)" by simp
    ultimately have "pipewrite_loop pip pr addr (of_nat n) (of_nat i) (with_held {PipeLock pip} s) =
        pipewrite_loop pip pr addr (of_nat n) (of_nat (Suc i)) (with_held {PipeLock pip} ?s)"
      using lt Suc.prems m False
      by (subst pipewrite_loop.simps)
        (simp add: of_nat_sless killed_with_held copyin_byte lock_simps pipe_full_iff del: of_nat_Suc)
    moreover have "pipe_bytes (mem s) (p_pagetable (procs s pr)) addr i k =
        ?b # pipe_bytes (mem s) (p_pagetable (procs s pr)) addr (Suc i) k"
      using False lt Suc.prems(8) by (intro pipe_bytes_Cons) simp
    moreover have "pipewrite_loop pip pr addr (of_nat n) (of_nat (Suc i)) (with_held {PipeLock pip} ?s) =
        pipewrite_loop pip pr addr (of_nat n) (of_nat k) (with_held {PipeLock pip}
          (upd_pipe pip (pipe_puts (pipe_bytes (mem ?s) (p_pagetable (procs ?s pr)) addr (Suc i) k)) ?s))"
      using Suc.prems Suc.hyps(2) lt False by (intro Suc.hyps(1)) (simp_all add: pipe_put_list)
    ultimately show ?thesis by (simp add: upd_pipe_comp pipe_puts_Cons)
  qed
qed

lemma pipe_puts_sel [simp]:
  "pi_nread (pipe_puts bs x) = pi_nread x" "pi_readopen (pipe_puts bs x) = pi_readopen x"
  "pi_writeopen (pipe_puts bs x) = pi_writeopen x"
  by (induction bs arbitrary: x) (simp_all add: pipe_puts_def)

lemma pipewrite_end_with_held:
  assumes "proc_locks_free s" "mlfq_good s" "lock_free (PipeLock pip) s"
  obtains q n where "pipewrite_end pip i (with_held {PipeLock pip} s) =
      Ret i (with_held {} (wake_state s (Some (PipeReadChan pip)) [0..<NPROC] q n))"
proof -
  obtain q n where "wakeup (Some (PipeReadChan pip)) (with_held {PipeLock pip} s) =
      Ret () (with_held {PipeLock pip} (wake_state s (Some (PipeReadChan pip)) [0..<NPROC] q n))"
    by (rule wakeup_with_held [OF pipe_lock_user assms(1,2)])
  with assms(3) show thesis by (intro that) (simp add: pipewrite_end_def lock_simps)
qed

lemma pipewrite_full:
  assumes "proc_locks_free s" "mlfq_good s" "lock_free (PipeLock pip) s"
    and "cpu_proc (cpus s (tp s)) = Some pr" "pr < NPROC" "p_killed (procs s pr) = 0"
    and "pi_readopen (pipes s pip) \<noteq> 0" "pipe_ok (pipes s pip)" "pipe_room (pipes s pip) = 0" "i <s n"
  obtains q m where "pipewrite_loop pip pr addr n i (with_held {PipeLock pip} s) =
      Swtch (ResumeSleep (PipeLock pip) (intr_get s)) (with_held {ProcLock pr}
        (upd_proc pr (\<lambda>x. x\<lparr>p_chan := Some (PipeWriteChan pip), p_state := SLEEPING\<rparr>)
          (wake_state s (Some (PipeReadChan pip)) [0..<NPROC] q m)))"
proof -
  obtain q m where w: "wakeup (Some (PipeReadChan pip)) (with_held {PipeLock pip} s) =
      Ret () (with_held {PipeLock pip} (wake_state s (Some (PipeReadChan pip)) [0..<NPROC] q m))"
    by (rule wakeup_with_held [OF pipe_lock_user assms(1,2)])
  let ?w = "wake_state s (Some (PipeReadChan pip)) [0..<NPROC] q m"
  have "intr_get ?w = intr_get s" by (simp add: wake_state_def intr_get_def r_sstatus_def)
  with sleep_with_held [of ?w pr "PipeLock pip" "PipeWriteChan pip"] assms(1,3-5) pipe_lock_user
  have "sleep (PipeWriteChan pip) (PipeLock pip) (with_held {PipeLock pip} ?w) =
      Swtch (ResumeSleep (PipeLock pip) (intr_get s)) (with_held {ProcLock pr}
        (upd_proc pr (\<lambda>x. x\<lparr>p_chan := Some (PipeWriteChan pip), p_state := SLEEPING\<rparr>) ?w))"
    by simp
  moreover have "lock_free (ProcLock pr) s" using assms(1,5) by (rule proc_lock_freeD)
  ultimately show thesis
    using w assms by (intro that) (subst pipewrite_loop.simps, simp add: killed_with_held lock_simps pipe_full_iff)
qed

text \<open>The state in which a write of \<open>bs\<close> leaves the pipe and the sleeping readers.\<close>

lemma wake_wakes: "wakes s c p \<Longrightarrow> p \<in> set ps \<Longrightarrow> p_state (procs (wake_state s c ps q n) p) = RUNNABLE"
  by (simp add: wake_procs_def)

lemma wakes_upd_pipe [simp]: "wakes (upd_pipe pip f s) c p = wakes s c p"
  by (simp add: wakes_def)

section \<open>Properties of writing\<close>

text \<open>
  C16: \<open>pipewrite\<close> of \<open>n\<close> mapped bytes to a pipe with an open read end is FIFO and loses nothing.
  When the bytes fit, it appends them to the pipe's contents and returns \<open>n\<close>.  Otherwise it appends
  the bytes that fit and sleeps on the pipe's write channel.  In both cases it wakes every reader that
  sleeps on the pipe.
\<close>

theorem pipewrite_appends:
  assumes "proc_locks_free s" "mlfq_good s" "lock_free (PipeLock pip) s"
    and "cpu_proc (cpus s (tp s)) = Some pr" "pr < NPROC" "p_killed (procs s pr) = 0" "n < 2 ^ 31"
    and "pi_readopen (pipes s pip) \<noteq> 0" "length (pipe_list (pipes s pip)) \<le> PIPESIZE"
    and "\<forall>k < n. u_mapped (mem s) (p_pagetable (procs s pr)) (addr + of_nat k)"
    and bs: "bs = map (\<lambda>k. ubyte (mem s) (p_pagetable (procs s pr)) (addr + of_nat k)) [0..<n]"
    and room: "room = PIPESIZE - length (pipe_list (pipes s pip))"
  shows "\<exists>s'. pipewrite pip addr (of_nat n) (with_held {} s) =
      (if n \<le> room then Ret (of_nat n) (with_held {} s')
       else Swtch (ResumeSleep (PipeLock pip) (intr_get s)) (with_held {ProcLock pr} s')) \<and>
    pipe_list (pipes s' pip) = pipe_list (pipes s pip) @ take room bs \<and>
    (room < n \<longrightarrow> p_state (procs s' pr) = SLEEPING \<and> p_chan (procs s' pr) = Some (PipeWriteChan pip)) \<and>
    (\<forall>p < NPROC. wakes s (Some (PipeReadChan pip)) p \<longrightarrow> p_state (procs s' p) = RUNNABLE)"
proof -
  let ?k = "min n room" and ?pt = "p_pagetable (procs s pr)"
  define t where "t = upd_pipe pip (pipe_puts (pipe_bytes (mem s) ?pt addr 0 ?k)) s"
  have ok: "pipe_ok (pipes s pip)" using assms(9) by (simp add: pipe_ok_def)
  have rm: "room = pipe_room (pipes s pip)" using room by (simp add: pipe_room_def)
  have "take room bs = pipe_bytes (mem s) ?pt addr 0 ?k"
    unfolding bs pipe_bytes_def by (simp add: take_map min_def)
  then have l: "pipe_list (pipes t pip) = pipe_list (pipes s pip) @ take room bs" "pipe_ok (pipes t pip)"
    using pipe_puts_list [OF ok, of "pipe_bytes (mem s) ?pt addr 0 ?k"] rm
    by (simp_all add: t_def pipe_bytes_def)
  have run: "pipewrite pip addr (of_nat n) (with_held {} s) =
      pipewrite_loop pip pr addr (of_nat n) (of_nat ?k) (with_held {PipeLock pip} t)"
    using pipewrite_loop_run [OF proc_lock_freeD [OF assms(1,5)] assms(6,7) _ ok assms(8), of 0 addr ?k] assms(3,4,10) rm
    by (simp add: pipewrite_def lock_simps t_def curproc_def)
  have t: "proc_locks_free t" "mlfq_good t" "lock_free (PipeLock pip) t" "cpu_proc (cpus t (tp t)) = Some pr"
    "p_killed (procs t pr) = 0" "pi_readopen (pipes t pip) \<noteq> 0" "intr_get t = intr_get s"
    using assms(1-4,6,8) by (simp_all add: t_def intr_get_def r_sstatus_def)
  have wk: "wakes t c p = wakes s c p" for c p by (simp add: t_def)
  show ?thesis
  proof (cases "n \<le> room")
    case True
    obtain q m where "pipewrite_end pip (of_nat n) (with_held {PipeLock pip} t) =
        Ret (of_nat n) (with_held {} (wake_state t (Some (PipeReadChan pip)) [0..<NPROC] q m))"
      by (rule pipewrite_end_with_held [OF t(1-3)])
    with True run have "pipewrite pip addr (of_nat n) (with_held {} s) =
        Ret (of_nat n) (with_held {} (wake_state t (Some (PipeReadChan pip)) [0..<NPROC] q m))"
      by (simp add: pipewrite_loop.simps word_sless_alt)
    with True l show ?thesis
      by (intro exI [of _ "wake_state t (Some (PipeReadChan pip)) [0..<NPROC] q m"])
        (simp add: wake_procs_def wk)
  next
    case False
    then have "room = ?k" "?k < n" by simp_all
    then have "pipe_room (pipes t pip) = 0"
      using l(1) room by (simp add: pipe_room_def bs)
    moreover have "(of_nat ?k :: i32) <s of_nat n" using False assms(7) by (simp add: of_nat_sless)
    ultimately obtain q m where "pipewrite_loop pip pr addr (of_nat n) (of_nat ?k) (with_held {PipeLock pip} t) =
      Swtch (ResumeSleep (PipeLock pip) (intr_get t)) (with_held {ProcLock pr}
        (upd_proc pr (\<lambda>x. x\<lparr>p_chan := Some (PipeWriteChan pip), p_state := SLEEPING\<rparr>)
          (wake_state t (Some (PipeReadChan pip)) [0..<NPROC] q m)))"
      by (rule pipewrite_full [OF t(1-4) assms(5) t(5,6) l(2)])
    moreover have "p \<noteq> pr" if "wakes s (Some (PipeReadChan pip)) p" for p
      using that assms(4) by (auto simp: wakes_def)
    ultimately show ?thesis
      using False run l t(7)
      by (intro exI [of _ "upd_proc pr (\<lambda>x. x\<lparr>p_chan := Some (PipeWriteChan pip), p_state := SLEEPING\<rparr>)
          (wake_state t (Some (PipeReadChan pip)) [0..<NPROC] q m)"])
        (auto simp: wake_procs_def wk upd_proc_def)
  qed
qed

section \<open>Reading\<close>

primrec pipe_drop :: "nat \<Rightarrow> pipe \<Rightarrow> pipe" where
  "pipe_drop 0 x = x"
| "pipe_drop (Suc k) x = pipe_drop k (snd (pipe_get x))"

lemma pipe_drop_list: "k \<le> length (pipe_list x) \<Longrightarrow> pipe_list (pipe_drop k x) = drop k (pipe_list x)"
proof (induction k arbitrary: x)
  case (Suc k)
  then have ne: "pipe_list x \<noteq> []" by auto
  with Suc.prems have "k \<le> length (pipe_list (snd (pipe_get x)))" by (simp add: pipe_get_list)
  then have "pipe_list (pipe_drop k (snd (pipe_get x))) = drop k (tl (pipe_list x))"
    using Suc.IH pipe_get_list(2) [OF ne] by simp
  then show ?case by (simp add: drop_Suc)
qed simp

lemma piperead_copy_run:
  assumes "n < 2 ^ 31" "i \<le> n" "pt = p_pagetable (procs s pr)"
    and "\<forall>j < n. u_writable (mem s) pt (addr + of_nat j)" "range_apart (mem s) pt addr n"
    and "k = min (n - i) (length (pipe_list (pipes s pip)))"
  shows "piperead_copy pip pr addr (of_nat n) (of_nat i) (with_held H s) =
    Ret (of_nat (i + k)) (with_held H (upd_pipe pip (pipe_drop k) (s\<lparr>mem :=
      user_write (mem s) pt (addr + of_nat i) (take k (pipe_list (pipes s pip)))\<rparr>)))"
  using assms
proof (induction "n - i" arbitrary: i s k)
  case 0
  then show ?case
    by (subst piperead_copy.simps) (simp add: upd_pipe_def word_sless_alt)
next
  case (Suc d)
  then have lt: "i < n" and d: "d = n - Suc i" by simp_all
  let ?x = "pipes s pip" and ?L = "pipe_list (pipes s pip)"
  show ?case
  proof (cases "?L = []")
    case True
    with lt Suc.prems(1,6) show ?thesis
      by (subst piperead_copy.simps) (simp add: upd_pipe_def of_nat_sless pipe_empty_iff lock_simps)
  next
    case False
    let ?m = "(mem s)(byte_pa (mem s) pt (addr + of_nat i) := hd ?L)"
    let ?s = "upd_pipe pip (\<lambda>_. snd (pipe_get ?x)) s\<lparr>mem := ?m\<rparr>"
    note u = user_upd [OF Suc.prems(5) lt refl, where c = "hd ?L"]
    have "copyout pt (addr + of_nat i) [hd ?L] (with_held H (upd_pipe pip (\<lambda>_. snd (pipe_get ?x)) s)) =
        Ret 0 (with_held H ?s)"
      using copyout_byte [of "with_held H (upd_pipe pip (\<lambda>_. snd (pipe_get ?x)) s)" pt addr i n "hd ?L"] Suc.prems(4,5) lt
      by (simp add: lock_simps upd_pipe_def)
    moreover have "scast (of_nat i :: i32) = (of_nat i :: u64)" using lt Suc.prems(1) by (intro scast_of_nat) simp
    moreover have "of_nat i + (1 :: i32) = of_nat (Suc i)" by simp
    ultimately have "piperead_copy pip pr addr (of_nat n) (of_nat i) (with_held H s) =
        piperead_copy pip pr addr (of_nat n) (of_nat (Suc i)) (with_held H ?s)"
      using lt Suc.prems(1,3) False pipe_get_list(1) [OF False]
      by (subst piperead_copy.simps)
        (simp add: of_nat_sless pipe_empty_iff lock_simps split_beta Let_def del: of_nat_Suc)
    moreover obtain k' where k: "k = Suc k'" "k' = min (n - Suc i) (length (pipe_list (snd (pipe_get ?x))))"
      using False lt Suc.prems(6) by (intro that [of "k - 1"]) (cases "n - i"; cases ?L; simp add: pipe_get_list)+
    moreover have "piperead_copy pip pr addr (of_nat n) (of_nat (Suc i)) (with_held H ?s) =
      Ret (of_nat (Suc i + k')) (with_held H (upd_pipe pip (pipe_drop k') (?s\<lparr>mem :=
        user_write (mem ?s) pt (addr + of_nat (Suc i)) (take k' (pipe_list (pipes ?s pip)))\<rparr>)))"
      using Suc.prems(1-5) d lt k(2) u by (intro Suc.hyps(1)) simp_all
    moreover have "user_write (mem s) pt (addr + of_nat i) (take k ?L) =
        user_write ?m pt (addr + of_nat (Suc i)) (take k' (tl ?L))"
    proof -
      have "take k ?L = hd ?L # take k' (tl ?L)" using False k(1) by (cases ?L) simp_all
      moreover have "user_write (mem s) pt (addr + of_nat i) (hd ?L # take k' (tl ?L)) =
          user_write ?m pt (addr + of_nat i + 1) (take k' (tl ?L))"
      proof (intro user_write_Cons allI impI)
        fix j assume "j < length (take k' (tl ?L))"
        then have "Suc (i + j) < n" using k(2) by auto
        moreover have "addr + of_nat i + 1 + of_nat j = addr + of_nat (Suc (i + j))" by (simp add: add.assoc add.left_commute)
        ultimately show "byte_pa ?m pt (addr + of_nat i + 1 + of_nat j) = byte_pa (mem s) pt (addr + of_nat i + 1 + of_nat j)"
          using u(1) by metis
      qed
      moreover have "addr + of_nat i + 1 = addr + of_nat (Suc i)" by simp
      ultimately show ?thesis by (simp only:)
    qed
    ultimately show ?thesis
      using pipe_get_list(2) [OF False] by (simp add: upd_pipe_def )
  qed
qed

section \<open>Properties of reading\<close>

text \<open>
  C17: \<open>piperead\<close> of at most \<open>n\<close> bytes from a pipe that has data, or no writer, takes the oldest
  bytes in order.  It stores them at the user's address, removes exactly them from the pipe, returns
  their number and wakes every writer that sleeps on the pipe.  In particular it returns 0, the end
  of file, exactly when the pipe is empty and has no writer (or \<open>n\<close> is 0).
\<close>

theorem piperead_takes_oldest:
  assumes "proc_locks_free s" "mlfq_good s" "lock_free (PipeLock pip) s"
    and "cpu_proc (cpus s (tp s)) = Some pr" "n < 2 ^ 31" "pt = p_pagetable (procs s pr)"
    and "pipe_list (pipes s pip) \<noteq> [] \<or> pi_writeopen (pipes s pip) = 0"
    and "\<forall>j < n. u_writable (mem s) pt (addr + of_nat j)" "range_apart (mem s) pt addr n"
    and bs: "bs = take n (pipe_list (pipes s pip))"
  shows "\<exists>s'. piperead pip addr (of_nat n) (with_held {} s) = Ret (of_nat (length bs)) (with_held {} s') \<and>
    pipe_list (pipes s' pip) = drop n (pipe_list (pipes s pip)) \<and>
    mem s' = user_write (mem s) pt addr bs \<and>
    (\<forall>p < NPROC. wakes s (Some (PipeWriteChan pip)) p \<longrightarrow> p_state (procs s' p) = RUNNABLE)"
proof -
  let ?L = "pipe_list (pipes s pip)"
  let ?k = "min n (length ?L)"
  define t where "t = upd_pipe pip (pipe_drop ?k) (s\<lparr>mem := user_write (mem s) pt addr (take ?k ?L)\<rparr>)"
  have k: "take ?k ?L = bs" "length bs = ?k" "drop ?k ?L = drop n ?L"
    by (simp_all add: bs min_def)
  have c: "piperead_copy pip pr addr (of_nat n) 0 (with_held {PipeLock pip} s) =
      Ret (of_nat (length bs)) (with_held {PipeLock pip} t)"
    using piperead_copy_run [of n 0 pt s pr addr ?k pip "{PipeLock pip}"] assms(5,6,8,9)
    by (simp add: t_def k(2))
  have "proc_locks_free t" "mlfq_good t"
    using assms(1,2) by (simp_all add: t_def proc_locks_free_def mlfq_good_def mlfq_ok_def mlfq_list_def level_of_def lock_simps)
  then obtain q m where "wakeup (Some (PipeWriteChan pip)) (with_held {PipeLock pip} t) =
      Ret () (with_held {PipeLock pip} (wake_state t (Some (PipeWriteChan pip)) [0..<NPROC] q m))"
    by (rule wakeup_with_held [OF pipe_lock_user])
  moreover have "lock_free (PipeLock pip) t" using assms(3) by (simp add: t_def lock_simps)
  moreover have "\<not> (pi_nread (pipes s pip) = pi_nwrite (pipes s pip) \<and> pi_writeopen (pipes s pip) \<noteq> 0)"
    using assms(7) by (simp add: pipe_empty_iff)
  ultimately have "piperead pip addr (of_nat n) (with_held {} s) = Ret (of_nat (length bs))
      (with_held {} (wake_state t (Some (PipeWriteChan pip)) [0..<NPROC] q m))"
    using assms(3,4) c by (auto simp: piperead_def piperead_wait.simps lock_simps curproc_def)
  moreover have "pipe_list (pipes t pip) = drop n ?L"
    using pipe_drop_list [of ?k "pipes s pip"] k(3) by (simp add: t_def)
  moreover have "mem t = user_write (mem s) pt addr bs" by (simp add: t_def k(1))
  moreover have "wakes t c p = wakes s c p" for c p by (simp add: t_def wakes_def)
  ultimately show ?thesis
    by (intro exI [of _ "wake_state t (Some (PipeWriteChan pip)) [0..<NPROC] q m"]) (simp add: wake_procs_def)
qed

subsection \<open>Witnesses\<close>

definition demo_pipe :: pipe_state where
  "demo_pipe = sync_state.extend (demo_sl\<lparr>mem := demo_pt_mem,
       procs := (procs demo_sl)(1 := (procs demo_sl 1)\<lparr>p_pagetable := 0x80001000\<rparr>)\<rparr>)
     (pipe_state.fields (\<lambda>_. \<lparr>pi_data = (\<lambda>_. 0), pi_nread = - 1, pi_nwrite = 1, pi_readopen = 1, pi_writeopen = 1\<rparr>))"

lemma demo_pipe_sel [simp]:
  "pipes demo_pipe a = \<lparr>pi_data = (\<lambda>_. 0), pi_nread = - 1, pi_nwrite = 1, pi_readopen = 1, pi_writeopen = 1\<rparr>"
  "mem demo_pipe = demo_pt_mem" "p_pagetable (procs demo_pipe (Suc 0)) = 0x80001000"
  "p_killed (procs demo_pipe p) = p_killed (procs demo_sync p)"
  "cpus demo_pipe = cpus demo_sync" "tp demo_pipe = tp demo_sync" "locks demo_pipe = locks demo_sync"
  by (simp_all add: demo_pipe_def demo_sl_def proc_state.defs sync_state.defs pipe_state.defs)

lemma demo_pipe_ok: "lock_free k demo_pipe" "proc_locks_free demo_pipe" "mlfq_good demo_pipe"
  using demo_sl_ok
  by (simp_all add: zero_proc_def QUEUE_LEVELS_def demo_pipe_def proc_state.defs sync_state.defs pipe_state.defs lock_free_def proc_locks_free_def mlfq_good_def mlfq_ok_def mlfq_list_def level_of_def)

lemma demo_pipe_list: "pipe_list (pipes demo_pipe a) = [0, 0]"
  by (simp add: pipe_list_def ring_list_def upt_rec)

theorem pipewrite_appends_witness:
  "\<exists>s'. pipewrite 0x80010000 16 3 (with_held {} demo_pipe) = Ret 3 (with_held {} s') \<and>
    pipe_list (pipes s' 0x80010000) = [0, 0] @ [0, 0, 0]"
proof -
  let ?a = "0x80010000"
  have "\<exists>s'. pipewrite ?a 16 (of_nat 3) (with_held {} demo_pipe) =
      (if 3 \<le> (510 :: nat) then Ret (of_nat 3) (with_held {} s')
       else Swtch (ResumeSleep (PipeLock ?a) (intr_get demo_pipe)) (with_held {ProcLock 1} s')) \<and>
    pipe_list (pipes s' ?a) = pipe_list (pipes demo_pipe ?a) @ take 510 [0, 0, 0] \<and>
    (510 < (3 :: nat) \<longrightarrow> p_state (procs s' 1) = SLEEPING \<and> p_chan (procs s' 1) = Some (PipeWriteChan ?a)) \<and>
    (\<forall>p < NPROC. wakes demo_pipe (Some (PipeReadChan ?a)) p \<longrightarrow> p_state (procs s' p) = RUNNABLE)"
    by (rule pipewrite_appends [OF demo_pipe_ok(2,3,1)]; (simp only: demo_pipe_list)?)
      (use demo_pt_mapped demo_pt_zero in \<open>simp_all add: zero_proc_def NPROC_def PIPESIZE_def\<close>)
  then show ?thesis by (simp only: demo_pipe_list) auto
qed

theorem piperead_takes_oldest_witness:
  "\<exists>s'. piperead 0x80010000 16 3 (with_held {} demo_pipe) = Ret 2 (with_held {} s') \<and>
    pipe_list (pipes s' 0x80010000) = []"
proof -
  let ?a = "0x80010000"
  have "\<exists>s'. piperead ?a 16 (of_nat 3) (with_held {} demo_pipe) = Ret (of_nat (length [0, 0 :: u8])) (with_held {} s') \<and>
    pipe_list (pipes s' ?a) = drop 3 (pipe_list (pipes demo_pipe ?a)) \<and>
    mem s' = user_write (mem demo_pipe) 0x80001000 16 [0, 0] \<and>
    (\<forall>p < NPROC. wakes demo_pipe (Some (PipeWriteChan ?a)) p \<longrightarrow> p_state (procs s' p) = RUNNABLE)"
    by (rule piperead_takes_oldest [OF demo_pipe_ok(2,3,1) _ _ demo_pipe_sel(3) [symmetric]]; (simp only: demo_pipe_list)?)
      (use demo_pt_writable demo_pt_apart in \<open>simp_all\<close>)
  then show ?thesis by (simp only: demo_pipe_list) auto
qed

end
