(* ===== verification/Uart.thy ===== *)
theory Uart
  imports Pipe
begin

text \<open>
  The UART driver, \<open>kernel/uart.c\<close>, apart from \<open>uartintr\<close>, which calls the console.

  The device is not code of the kernel.  \<open>uart_lsr\<close> and \<open>uart_rhr\<close> are the values the device will give
  to the next reads of the line status and receive holding registers, and \<open>uart_writes\<close> the writes to
  its registers so far, newest first.  A read past the end of the readings is the outcome \<open>NoFuel\<close>: in
  the real machine the driver polls on.
\<close>

definition RHR :: nat where "RHR = 0"
definition THR :: nat where "THR = 0"
definition IER :: nat where "IER = 1"
definition IER_RX_ENABLE :: u8 where "IER_RX_ENABLE = push_bit 0 1"
definition IER_TX_ENABLE :: u8 where "IER_TX_ENABLE = push_bit 1 1"
definition FCR :: nat where "FCR = 2"
definition FCR_FIFO_ENABLE :: u8 where "FCR_FIFO_ENABLE = push_bit 0 1"
definition FCR_FIFO_CLEAR :: u8 where "FCR_FIFO_CLEAR = push_bit 1 3"
definition LCR :: nat where "LCR = 3"
definition LCR_EIGHT_BITS :: u8 where "LCR_EIGHT_BITS = push_bit 0 3"
definition LCR_BAUD_LATCH :: u8 where "LCR_BAUD_LATCH = push_bit 7 1"
definition LSR_RX_READY :: u8 where "LSR_RX_READY = push_bit 0 1"
definition LSR_TX_IDLE :: u8 where "LSR_TX_IDLE = push_bit 5 1"

definition UART_TX_BUF_SIZE :: nat where "UART_TX_BUF_SIZE = 32"

record uart_state = pipe_state +
  uart_tx_buf :: "nat \<Rightarrow> u8"
  uart_tx_w :: u64
  uart_tx_r :: u64
  panicked :: i32
  uart_lsr :: "u8 list"
  uart_rhr :: "u8 list"
  uart_writes :: "(nat \<times> u8) list"

definition WriteReg :: "nat \<Rightarrow> u8 \<Rightarrow> 'a uart_state_scheme \<Rightarrow> 'a uart_state_scheme" where
  "WriteReg r v s = s\<lparr>uart_writes := (r, v) # uart_writes s\<rparr>"

definition ReadLSR :: "'a uart_state_scheme \<Rightarrow> ('a uart_state_scheme, u8) outcome" where
  "ReadLSR s = (case uart_lsr s of [] \<Rightarrow> NoFuel | v # vs \<Rightarrow> Ret v (s\<lparr>uart_lsr := vs\<rparr>))"

definition ReadRHR :: "'a uart_state_scheme \<Rightarrow> ('a uart_state_scheme, u8) outcome" where
  "ReadRHR s = (case uart_rhr s of [] \<Rightarrow> NoFuel | v # vs \<Rightarrow> Ret v (s\<lparr>uart_rhr := vs\<rparr>))"

definition uartinit :: "'a uart_state_scheme \<Rightarrow> 'a uart_state_scheme" where
  "uartinit s =
     (let s = WriteReg IER 0x00 s;
          s = WriteReg LCR LCR_BAUD_LATCH s;
          s = WriteReg 0 0x03 s;
          s = WriteReg 1 0x00 s;
          s = WriteReg LCR LCR_EIGHT_BITS s;
          s = WriteReg FCR (FCR_FIFO_ENABLE OR FCR_FIFO_CLEAR) s;
          s = WriteReg IER (IER_TX_ENABLE OR IER_RX_ENABLE) s
      in initlock UartTxLock ''uart'' s)"

text \<open>Each round of \<open>uartstart\<close> takes a byte out of the ring; the first argument bounds the rounds.\<close>

primrec uartstart_loop :: "nat \<Rightarrow> 'a uart_state_scheme \<Rightarrow> ('a uart_state_scheme, unit) outcome" where
  "uartstart_loop 0 s = Ret () s"
| "uartstart_loop (Suc k) s =
     bnd (ReadLSR s) (\<lambda>v s.
     if v AND LSR_TX_IDLE = 0 then Ret () s
     else let c = uart_tx_buf s (unat (uart_tx_r s) mod UART_TX_BUF_SIZE);
              s = s\<lparr>uart_tx_r := uart_tx_r s + 1\<rparr>
          in bnd (wakeup (Some UartTxRChan) s) (\<lambda>_ s. uartstart_loop k (WriteReg THR c s)))"

definition uartstart :: "'a uart_state_scheme \<Rightarrow> ('a uart_state_scheme, unit) outcome" where
  "uartstart s = uartstart_loop (unat (uart_tx_w s - uart_tx_r s)) s"

definition uart_put :: "u8 \<Rightarrow> 'a uart_state_scheme \<Rightarrow> 'a uart_state_scheme" where
  "uart_put c s = s\<lparr>uart_tx_buf := (uart_tx_buf s)(unat (uart_tx_w s) mod UART_TX_BUF_SIZE := c),
     uart_tx_w := uart_tx_w s + 1\<rparr>"

function uartputc_loop :: "i32 \<Rightarrow> 'a uart_state_scheme \<Rightarrow> ('a uart_state_scheme, unit) outcome" where
  "uartputc_loop c s =
     (if uart_tx_w s = uart_tx_r s + of_nat UART_TX_BUF_SIZE
      then bnd (sleep UartTxRChan UartTxLock s) (\<lambda>_ s. uartputc_loop c s)
      else bnd (uartstart (uart_put (ucast c) s)) (\<lambda>_ s. release UartTxLock s))"
  by pat_completeness auto
termination by (relation "{}") (auto simp: sleep_not_Ret)

declare uartputc_loop.simps [simp del]

definition uartputc :: "i32 \<Rightarrow> 'a uart_state_scheme \<Rightarrow> ('a uart_state_scheme, unit) outcome" where
  "uartputc c s =
     bnd (acquire UartTxLock s) (\<lambda>_ s.
     if panicked s \<noteq> 0 then NoFuel else uartputc_loop c s)"

text \<open>Polling the line status register until the transmitter is idle.\<close>

fun uart_poll :: "u8 list \<Rightarrow> u8 list option" where
  "uart_poll [] = None"
| "uart_poll (v # vs) = (if v AND LSR_TX_IDLE = 0 then uart_poll vs else Some vs)"

definition uartputc_sync :: "i32 \<Rightarrow> 'a uart_state_scheme \<Rightarrow> ('a uart_state_scheme, unit) outcome" where
  "uartputc_sync c s =
     (let s = push_off s in
      if panicked s \<noteq> 0 then NoFuel
      else case uart_poll (uart_lsr s) of
        None \<Rightarrow> NoFuel
      | Some vs \<Rightarrow> pop_off (WriteReg THR (ucast c) (s\<lparr>uart_lsr := vs\<rparr>)))"

definition uartgetc :: "'a uart_state_scheme \<Rightarrow> ('a uart_state_scheme, i32) outcome" where
  "uartgetc s =
     bnd (ReadLSR s) (\<lambda>v s.
     if v AND 0x01 \<noteq> 0 then bnd (ReadRHR s) (\<lambda>c s. Ret (ucast c) s)
     else Ret (- 1) s)"

end
