(* ===== verification/Printf.thy ===== *)
theory Printf
  imports Uart
begin

text \<open>
  Formatted output, \<open>kernel/printf.c\<close>, with \<open>consputc\<close> of \<open>kernel/console.c\<close> that it prints through.
  \<open>panic\<close> is the outcome \<open>Panic\<close>.  A format string is a list of bytes without the terminating zero.
\<close>

record printf_state = uart_state +
  pr_locking :: i32

definition BACKSPACE :: i32 where "BACKSPACE = 0x100"

definition consputc :: "i32 \<Rightarrow> 'a uart_state_scheme \<Rightarrow> ('a uart_state_scheme, unit) outcome" where
  "consputc c s =
     (if c = BACKSPACE
      then bnd (uartputc_sync 8 s) (\<lambda>_ s. bnd (uartputc_sync 32 s) (\<lambda>_ s. uartputc_sync 8 s))
      else uartputc_sync c s)"

primrec consputs :: "u8 list \<Rightarrow> 'a uart_state_scheme \<Rightarrow> ('a uart_state_scheme, unit) outcome" where
  "consputs [] s = Ret () s"
| "consputs (c # cs) s = bnd (consputc (ucast c) s) (\<lambda>_ s. consputs cs s)"

definition digits :: "u8 list" where
  "digits = cstr ''0123456789abcdef''"

section \<open>\<open>printint\<close> and \<open>printptr\<close>\<close>

text \<open>
  The \<open>do\<close> loop fills \<open>buf\<close> from the least digit on.  The bases in use are 10 and 16; a base below 2
  would not end, which the model excludes by its first test.
\<close>

function printint_digits :: "u64 \<Rightarrow> u64 \<Rightarrow> u8 list" where
  "printint_digits x base =
     (if base < 2 then []
      else digits ! unat (x mod base) # (if x div base \<noteq> 0 then printint_digits (x div base) base else []))"
  by pat_completeness auto
termination
proof (relation "measure (\<lambda>(x, base). unat x)", simp)
  fix x base :: u64
  assume b: "\<not> base < 2" and x: "x div base \<noteq> 0"
  then have "1 < unat base" by (simp add: word_less_nat_alt)
  moreover have "unat x \<noteq> 0" using x by (auto simp: unat_eq_zero)
  ultimately have "unat x div unat base < unat x" by (intro div_less_dividend) simp_all
  then show "((x div base, base), x, base) \<in> measure (\<lambda>(x, base). unat x)" by (simp add: unat_div)
qed

declare printint_digits.simps [simp del]

text \<open>The contents of \<open>buf\<close> before it is printed backwards; it has room for 16 characters.\<close>

definition printint_buf :: "u64 \<Rightarrow> u64 \<Rightarrow> bool \<Rightarrow> u8 list" where
  "printint_buf xx base sign =
     (let neg = sign \<and> xx <s 0;
          x = (if neg then - xx else xx)
      in printint_digits x base @ (if neg then cstr ''-'' else []))"

definition printint :: "u64 \<Rightarrow> u64 \<Rightarrow> bool \<Rightarrow> 'a uart_state_scheme \<Rightarrow> ('a uart_state_scheme, unit) outcome" where
  "printint xx base sign s =
     (let buf = printint_buf xx base sign
      in if length buf > 16 then Undef else consputs (rev buf) s)"

primrec printptr_loop :: "nat \<Rightarrow> u64 \<Rightarrow> 'a uart_state_scheme \<Rightarrow> ('a uart_state_scheme, unit) outcome" where
  "printptr_loop 0 x s = Ret () s"
| "printptr_loop (Suc k) x s =
     bnd (consputc (ucast (digits ! unat (drop_bit 60 x))) s) (\<lambda>_ s. printptr_loop k (push_bit 4 x) s)"

definition printptr :: "u64 \<Rightarrow> 'a uart_state_scheme \<Rightarrow> ('a uart_state_scheme, unit) outcome" where
  "printptr x s =
     bnd (consputc 48 s) (\<lambda>_ s.
     bnd (consputc 120 s) (\<lambda>_ s. printptr_loop 16 x s))"

section \<open>\<open>printf\<close>\<close>

text \<open>
  The arguments: a number, as the 64 bits of its register, or a string (\<open>None\<close> the null pointer).
  Taking an argument that is missing or of the other kind is undefined.
\<close>

datatype va = VNum u64 | VStr "u8 list option"

definition sext32 :: "u64 \<Rightarrow> u64" where
  "sext32 x = scast (ucast x :: i32)"

fun va_num :: "va list \<Rightarrow> (u64 \<times> va list) option" where
  "va_num (VNum x # ap) = Some (x, ap)"
| "va_num _ = None"

text \<open>One conversion after a percent sign: what it prints and how many further bytes of the format it uses.\<close>

datatype conv = ConvInt u64 bool bool nat | ConvPtr | ConvStr | ConvPercent | ConvEnd | ConvOther u8

definition parse_conv :: "u8 list \<Rightarrow> conv" where
  "parse_conv fmt =
     (let c0 = (if length fmt > 0 then fmt ! 0 else 0);
          c1 = (if c0 \<noteq> 0 \<and> length fmt > 1 then fmt ! 1 else 0);
          c2 = (if c1 \<noteq> 0 \<and> length fmt > 2 then fmt ! 2 else 0);
          d = 100; l = 108; u = 117; x = 120 in
      if c0 = d then ConvInt 10 True True 0
      else if c0 = l \<and> c1 = d then ConvInt 10 True False 1
      else if c0 = l \<and> c1 = l \<and> c2 = d then ConvInt 10 True False 2
      else if c0 = u then ConvInt 10 False True 0
      else if c0 = l \<and> c1 = u then ConvInt 10 False False 1
      else if c0 = l \<and> c1 = l \<and> c2 = u then ConvInt 10 False False 2
      else if c0 = x then ConvInt 16 False True 0
      else if c0 = l \<and> c1 = x then ConvInt 16 False False 1
      else if c0 = l \<and> c1 = l \<and> c2 = x then ConvInt 16 False False 2
      else if c0 = 112 then ConvPtr
      else if c0 = 115 then ConvStr
      else if c0 = 37 then ConvPercent
      else if c0 = 0 then ConvEnd
      else ConvOther c0)"

function printf_loop :: "u8 list \<Rightarrow> va list \<Rightarrow> 'a uart_state_scheme \<Rightarrow> ('a uart_state_scheme, unit) outcome" where
  "printf_loop [] ap s = Ret () s"
| "printf_loop (cx # fmt) ap s =
     (if cx = 0 then Ret () s
      else if cx \<noteq> 37 then bnd (consputc (ucast cx) s) (\<lambda>_ s. printf_loop fmt ap s)
      else case parse_conv fmt of
        ConvInt base sign narrow k \<Rightarrow>
          (case va_num ap of
             None \<Rightarrow> Undef
           | Some (x, ap) \<Rightarrow> bnd (printint (if narrow then sext32 x else x) base sign s) (\<lambda>_ s.
               printf_loop (drop (Suc k) fmt) ap s))
      | ConvPtr \<Rightarrow>
          (case va_num ap of
             None \<Rightarrow> Undef
           | Some (x, ap) \<Rightarrow> bnd (printptr x s) (\<lambda>_ s. printf_loop (drop 1 fmt) ap s))
      | ConvStr \<Rightarrow>
          (case ap of
             VStr p # ap \<Rightarrow>
               bnd (consputs (case p of None \<Rightarrow> cstr ''(null)'' | Some cs \<Rightarrow> takeWhile (\<lambda>c. c \<noteq> 0) cs) s) (\<lambda>_ s.
               printf_loop (drop 1 fmt) ap s)
           | _ \<Rightarrow> Undef)
      | ConvPercent \<Rightarrow> bnd (consputc 37 s) (\<lambda>_ s. printf_loop (drop 1 fmt) ap s)
      | ConvEnd \<Rightarrow> Ret () s
      | ConvOther c0 \<Rightarrow>
          bnd (consputc 37 s) (\<lambda>_ s. bnd (consputc (ucast c0) s) (\<lambda>_ s. printf_loop (drop 1 fmt) ap s)))"
  by pat_completeness auto
termination by (relation "measure (\<lambda>(fmt, ap, s). length fmt)") auto

declare printf_loop.simps [simp del]

definition printf :: "string \<Rightarrow> va list \<Rightarrow> 'a printf_state_scheme \<Rightarrow> ('a printf_state_scheme, i32) outcome" where
  "printf fmt ap s =
     (let locking = pr_locking s in
      bnd (if locking \<noteq> 0 then acquire PrLock s else Ret () s) (\<lambda>_ s.
      bnd (printf_loop (cstr fmt) ap s) (\<lambda>_ s.
      bnd (if locking \<noteq> 0 then release PrLock s else Ret () s) (\<lambda>_ s. Ret 0 s))))"

definition printfinit :: "'a printf_state_scheme \<Rightarrow> 'a printf_state_scheme" where
  "printfinit s = (initlock PrLock ''pr'' s)\<lparr>pr_locking := 1\<rparr>"

end
