(* ===== verification/Output.thy ===== *)
theory Output
  imports Printf
begin

text \<open>
  What \<open>printf\<close> sends to the UART: the text of its format and arguments, byte by byte.
\<close>

section \<open>Bytes\<close>

lemma uart_upd_with_held:
  "uart_lsr (with_held H s) = uart_lsr s" "panicked (with_held H s) = panicked s" "uart_writes (with_held H s) = uart_writes s"
  "(with_held H s)\<lparr>uart_lsr := vs\<rparr> = with_held H (s\<lparr>uart_lsr := vs\<rparr>)"
  "(with_held H s)\<lparr>uart_writes := w\<rparr> = with_held H (s\<lparr>uart_writes := w\<rparr>)"
  by (simp_all add: with_held_def intr_get_def r_sstatus_def cong: if_cong)

lemma push_pop_with_held:
  assumes "finite H" "\<And>x. f x = x\<lparr>uart_lsr := vs, uart_writes := w\<rparr>"
  shows "pop_off (f (push_off (with_held H s))) = Ret () (f (with_held H s))"
  using assms
  by (cases "H = {}")
     (auto simp: pop_off_def push_off_def with_held_def Let_def hart_defs fun_eq_iff card_gt_0_iff
       SIE_clear_set SIE_clear_id o_def)

fun uart_polls :: "nat \<Rightarrow> u8 list \<Rightarrow> u8 list option" where
  "uart_polls 0 vs = Some vs"
| "uart_polls (Suc n) vs = (case uart_poll vs of None \<Rightarrow> None | Some vs \<Rightarrow> uart_polls n vs)"

lemma uart_polls_add: "uart_polls (m + n) vs = (case uart_polls m vs of None \<Rightarrow> None | Some vs \<Rightarrow> uart_polls n vs)"
  by (induction m arbitrary: vs) (auto split: option.splits)

text \<open>The state after the bytes have been sent; \<open>vs\<close> are the readings left.\<close>

definition sent :: "u8 list \<Rightarrow> u8 list \<Rightarrow> 'a uart_state_scheme \<Rightarrow> 'a uart_state_scheme" where
  "sent out vs s = s\<lparr>uart_lsr := vs, uart_writes := rev (map (Pair THR) out) @ uart_writes s\<rparr>"

lemma sent_sel [simp]: "uart_lsr (sent out vs s) = vs" "panicked (sent out vs s) = panicked s"
  "sent out' vs' (sent out vs s) = sent (out @ out') vs' s"
  by (simp_all add: sent_def)

lemma sent_Nil: "sent [] (uart_lsr s) s = s"
  by (simp add: sent_def)

lemma uartputc_sync_done:
  assumes "finite H" "panicked s = 0" "uart_poll (uart_lsr s) = Some vs"
  shows "uartputc_sync c (with_held H s) = Ret () (with_held H (sent [ucast c] vs s))"
proof -
  let ?f = "\<lambda>x :: 'a uart_state_scheme. x\<lparr>uart_lsr := vs, uart_writes := (THR, ucast c) # uart_writes s\<rparr>"
  have p: "panicked (push_off x) = panicked x" "uart_lsr (push_off x) = uart_lsr x" "uart_writes (push_off x) = uart_writes x"
    for x :: "'a uart_state_scheme"
    by (simp_all add: push_off_def Let_def hart_defs)
  have "uartputc_sync c (with_held H s) = pop_off (?f (push_off (with_held H s)))"
    using assms(2,3) by (simp add: uartputc_sync_def Let_def p uart_upd_with_held WriteReg_def)
  also have "\<dots> = Ret () (?f (with_held H s))" by (rule push_pop_with_held [OF assms(1) refl])
  finally show ?thesis by (simp add: uart_upd_with_held sent_def)
qed

definition ready :: "nat \<Rightarrow> 'a uart_state_scheme \<Rightarrow> bool" where
  "ready n s \<longleftrightarrow> panicked s = 0 \<and> uart_polls n (uart_lsr s) \<noteq> None"

text \<open>\<open>op\<close> sends \<open>out\<close>, whatever locks are held.\<close>

definition sends :: "('a uart_state_scheme \<Rightarrow> ('a uart_state_scheme, unit) outcome) \<Rightarrow> u8 list \<Rightarrow> bool" where
  "sends oper out \<longleftrightarrow> (\<forall>H s vs. finite H \<longrightarrow> panicked s = 0 \<longrightarrow> uart_polls (length out) (uart_lsr s) = Some vs \<longrightarrow>
     oper (with_held H s) = Ret () (with_held H (sent out vs s)))"

lemma sendsD: "sends oper out \<Longrightarrow> finite H \<Longrightarrow> panicked s = 0 \<Longrightarrow> uart_polls (length out) (uart_lsr s) = Some vs \<Longrightarrow>
    oper (with_held H s) = Ret () (with_held H (sent out vs s))"
  by (simp add: sends_def)

lemma sends_Ret: "sends (Ret ()) []"
  by (auto simp: sends_def sent_Nil)

lemma sends_bnd:
  assumes "sends f out" "sends g out'"
  shows "sends (\<lambda>s. bnd (f s) (\<lambda>_ s. g s)) (out @ out')"
  unfolding sends_def
proof (intro allI impI)
  fix H :: "lock_addr set" and s :: "'a uart_state_scheme" and vs
  assume h: "finite H" "panicked s = 0" "uart_polls (length (out @ out')) (uart_lsr s) = Some vs"
  then obtain ws where w: "uart_polls (length out) (uart_lsr s) = Some ws" "uart_polls (length out') ws = Some vs"
    by (auto simp: uart_polls_add split: option.splits)
  show "bnd (f (with_held H s)) (\<lambda>_ s. g s) = Ret () (with_held H (sent (out @ out') vs s))"
    using sendsD [OF assms(1) h(1,2) w(1)] sendsD [OF assms(2) h(1), of "sent out ws s" vs] h(2) w(2) by simp
qed

lemma consputc_sends: "sends (consputc (ucast c)) [c]"
proof -
  have "(ucast c :: i32) \<noteq> BACKSPACE" using unsigned_less [of c, where ?'a = int]
    by (auto simp: BACKSPACE_def word_uint_eq_iff unsigned_ucast_eq take_bit_int_eq_self)
  moreover have "ucast (ucast c :: i32) = c" by (rule bit_word_eqI) (auto simp: bit_simps dest: bit_imp_le_length)
  ultimately show ?thesis by (auto simp: sends_def consputc_def uartputc_sync_done split: option.splits)
qed

lemma consputs_sends: "sends (consputs cs) cs"
proof (induction cs)
  case Nil
  have "consputs [] = Ret ()" by (rule ext) simp
  then show ?case using sends_Ret by simp
next
  case (Cons c cs)
  have "consputs (c # cs) = (\<lambda>s. bnd (consputc (ucast c) s) (\<lambda>_ s. consputs cs s))" by (rule ext) simp
  then show ?case using sends_bnd [OF consputc_sends [of c] Cons] by simp
qed

section \<open>Numbers\<close>

function show_nat :: "nat \<Rightarrow> nat \<Rightarrow> u8 list" where
  "show_nat b n = (if b < 2 \<or> n < b then [digits ! n] else show_nat b (n div b) @ [digits ! (n mod b)])"
  by pat_completeness auto
termination by (relation "measure snd") auto

declare show_nat.simps [simp del]

definition show_int :: "nat \<Rightarrow> bool \<Rightarrow> u64 \<Rightarrow> u8 list" where
  "show_int b sign x = (if sign \<and> sint x < 0 then cstr ''-'' @ show_nat b (nat (- sint x)) else show_nat b (unat x))"

lemma printint_digits_show: "2 \<le> base \<Longrightarrow> rev (printint_digits x base) = show_nat (unat base) (unat x)"
proof (induction x base rule: printint_digits.induct)
  case (1 x base)
  have b: "\<not> base < 2" "2 \<le> unat base" using "1.prems" by (auto simp: word_le_nat_alt not_less)
  show ?case
  proof (cases "x div base = 0")
    case True
    then have "unat x < unat base" using b(2) by (metis div_eq_0_iff not_numeral_le_zero unat_0 unat_div)
    then show ?thesis using b True by (simp add: printint_digits.simps [of x] show_nat.simps [of _ "unat x"] unat_mod)
  next
    case False
    then have "\<not> unat x < unat base" by (metis div_less unat_div unat_eq_zero)
    then show ?thesis
      using b False "1.IH" [OF b(1) False "1.prems"]
      by (simp add: printint_digits.simps [of x] show_nat.simps [of _ "unat x"] unat_mod unat_div)
  qed
qed

lemma printint_buf_show:
  assumes "2 \<le> base"
  shows "rev (printint_buf xx base sign) = show_int (unat base) sign xx"
proof -
  have u: "uint (word_of_int k :: u64) = k" if "0 \<le> k" "k < 2 ^ 64" for k
    using that by (simp add: unsigned_of_int take_bit_int_eq_self)
  have "unat (- xx) = nat (- sint xx)" if "sint xx < 0"
  proof -
    have "uint (- xx) = - sint xx" using u [of "- sint xx"] sint_ge [of xx] that by simp
    then show ?thesis by (metis nat_uint_eq)
  qed
  then show ?thesis
    using printint_digits_show [OF assms]
    by (auto simp: printint_buf_def Let_def show_int_def word_sless_alt cstr_def)
qed

lemma printint_show:
  assumes "2 \<le> base" "length (show_int (unat base) sign x) \<le> 16"
  shows "printint x base sign = consputs (show_int (unat base) sign x)"
proof -
  have "length (printint_buf x base sign) \<le> 16"
    using assms(2) length_rev [of "printint_buf x base sign"] by (simp add: printint_buf_show [OF assms(1)])
  then show ?thesis by (intro ext) (simp add: printint_def Let_def printint_buf_show [OF assms(1), symmetric])
qed

lemma show_nat_length: "2 \<le> b \<Longrightarrow> n < b ^ Suc k \<Longrightarrow> length (show_nat b n) \<le> Suc k"
proof (induction k arbitrary: n)
  case 0
  then show ?case by (simp add: show_nat.simps)
next
  case (Suc k)
  have "n div b < b ^ Suc k" using Suc.prems by (simp add: div_less_iff_less_mult mult.commute)
  then show ?case using Suc.IH [of "n div b"] Suc.prems(1) by (simp add: show_nat.simps [of b n])
qed

section \<open>Formats\<close>

text \<open>A pointer is printed as all its sixteen hexadecimal digits.\<close>

definition ptr_text :: "u64 \<Rightarrow> u8 list" where
  "ptr_text x = cstr ''0x'' @ map (\<lambda>i. digits ! unat (take_bit 4 (drop_bit (60 - 4 * i) x))) [0..<16]"

text \<open>
  The bytes one run of \<open>printf_loop\<close> sends, \<open>None\<close> where an argument is missing or a number too long: the loop
  with the output collected.
\<close>

function format :: "u8 list \<Rightarrow> va list \<Rightarrow> u8 list option" where
  "format [] ap = Some []"
| "format (cx # fmt) ap =
     (if cx = 0 then Some []
      else if cx \<noteq> 37 then map_option (Cons cx) (format fmt ap)
      else case parse_conv fmt of
        ConvInt base sign narrow k \<Rightarrow>
          (case va_num ap of
             None \<Rightarrow> None
           | Some (x, ap) \<Rightarrow>
               (let t = show_int (unat base) sign (if narrow then sext32 x else x)
                in if length t > 16 then None else map_option (append t) (format (drop (Suc k) fmt) ap)))
      | ConvPtr \<Rightarrow>
          (case va_num ap of None \<Rightarrow> None | Some (x, ap) \<Rightarrow> map_option (append (ptr_text x)) (format (drop 1 fmt) ap))
      | ConvStr \<Rightarrow>
          (case ap of
             VStr p # ap \<Rightarrow> map_option (append (case p of None \<Rightarrow> cstr ''(null)'' | Some cs \<Rightarrow> takeWhile (\<lambda>c. c \<noteq> 0) cs)) (format (drop 1 fmt) ap)
           | _ \<Rightarrow> None)
      | ConvPercent \<Rightarrow> map_option (Cons 37) (format (drop 1 fmt) ap)
      | ConvEnd \<Rightarrow> Some []
      | ConvOther c \<Rightarrow> map_option (append [37, c]) (format (drop 1 fmt) ap))"
  by pat_completeness auto
termination by (relation "measure (\<lambda>(fmt, ap). length fmt)") auto

declare format.simps [simp del]

lemma hex_digit:
  fixes x :: u64
  assumes "i < 16"
  shows "drop_bit 60 (push_bit (4 * i) x) = take_bit 4 (drop_bit (60 - 4 * i) x)"
  using assms by (intro bit_word_eqI) (auto simp: bit_simps)

lemma printptr_loop_eqs:
  "printptr_loop 0 x = Ret ()"
  "printptr_loop (Suc k) x = (\<lambda>s. bnd (consputc (ucast (digits ! unat (drop_bit 60 (push_bit (4 * 0) x)))) s) (\<lambda>_ s. printptr_loop k (push_bit 4 x) s))"
  by (rule ext, simp)+

lemma printptr_loop_sends:
  "sends (printptr_loop k x) (map (\<lambda>i. digits ! unat (drop_bit 60 (push_bit (4 * i) x))) [0..<k])"
proof (induction k arbitrary: x)
  case 0
  then show ?case using sends_Ret by (simp add: printptr_loop_eqs(1))
next
  case (Suc k)
  let ?d = "\<lambda>x i. digits ! unat (drop_bit 60 (push_bit (4 * i) x))"
  have "map (?d x) [0..<Suc k] = ?d x 0 # map (?d (push_bit 4 x)) [0..<k]"
    unfolding map_upt_Suc by (simp add: push_bit_push_bit add.commute)
  then show ?case
    using sends_bnd [OF consputc_sends [of "?d x 0"] Suc [of "push_bit 4 x"]]
    by (simp only: append_Cons append_Nil printptr_loop_eqs(2))
qed

lemma printptr_sends: "sends (printptr x) (ptr_text x)"
proof -
  have c: "consputc 48 = consputc (ucast (48 :: u8))" "consputc 120 = consputc (ucast (120 :: u8))" by simp_all
  have "map (\<lambda>i. digits ! unat (drop_bit 60 (push_bit (4 * i) x))) [0..<16] =
      map (\<lambda>i. digits ! unat (take_bit 4 (drop_bit (60 - 4 * i) x))) [0..<16]" by (rule map_cong) (simp_all add: hex_digit)
  then have "[48] @ [120] @ map (\<lambda>i. digits ! unat (drop_bit 60 (push_bit (4 * i) x))) [0..<16] = ptr_text x"
    by (simp add: ptr_text_def cstr_def)
  then show ?thesis
    using sends_bnd [OF consputc_sends [of 48] sends_bnd [OF consputc_sends [of 120] printptr_loop_sends [of 16 x]]]
    unfolding printptr_def c by simp
qed

lemma parse_conv_base: "parse_conv fmt = ConvInt base sign narrow k \<Longrightarrow> 2 \<le> base"
  by (auto simp: parse_conv_def Let_def split: if_splits)

lemma printf_loop_eqs:
  "printf_loop [] ap = Ret ()"
  "printf_loop (0 # fmt) ap = Ret ()"
  "cx \<noteq> 0 \<Longrightarrow> cx \<noteq> 37 \<Longrightarrow> printf_loop (cx # fmt) ap = (\<lambda>s. bnd (consputc (ucast cx) s) (\<lambda>_ s. printf_loop fmt ap s))"
  "parse_conv fmt = ConvInt base sign narrow k \<Longrightarrow> printf_loop (37 # fmt) (VNum x # ap) =
    (\<lambda>s. bnd (printint (if narrow then sext32 x else x) base sign s) (\<lambda>_ s. printf_loop (drop (Suc k) fmt) ap s))"
  "parse_conv fmt = ConvPtr \<Longrightarrow> printf_loop (37 # fmt) (VNum x # ap) = (\<lambda>s. bnd (printptr x s) (\<lambda>_ s. printf_loop (drop 1 fmt) ap s))"
  "parse_conv fmt = ConvStr \<Longrightarrow> printf_loop (37 # fmt) (VStr p # ap) =
    (\<lambda>s. bnd (consputs (case p of None \<Rightarrow> cstr ''(null)'' | Some cs \<Rightarrow> takeWhile (\<lambda>c. c \<noteq> 0) cs) s) (\<lambda>_ s. printf_loop (drop 1 fmt) ap s))"
  "parse_conv fmt = ConvPercent \<Longrightarrow> printf_loop (37 # fmt) ap = (\<lambda>s. bnd (consputc (ucast (37 :: u8)) s) (\<lambda>_ s. printf_loop (drop 1 fmt) ap s))"
  "parse_conv fmt = ConvEnd \<Longrightarrow> printf_loop (37 # fmt) ap = Ret ()"
  "parse_conv fmt = ConvOther c \<Longrightarrow> printf_loop (37 # fmt) ap =
    (\<lambda>s. bnd (consputc (ucast (37 :: u8)) s) (\<lambda>_ s. bnd (consputc (ucast c) s) (\<lambda>_ s. printf_loop (drop 1 fmt) ap s)))"
  by (rule ext, simp add: printf_loop.simps)+

lemma va_num_Some: "va_num ap = Some y \<longleftrightarrow> (\<exists>x ap'. ap = VNum x # ap' \<and> y = (x, ap'))"
  by (cases ap rule: va_num.cases) auto

lemma printf_loop_sends:
  "format fmt ap = Some out \<Longrightarrow> sends (printf_loop fmt ap :: 'a uart_state_scheme \<Rightarrow> ('a uart_state_scheme, unit) outcome) out"
proof (induction fmt ap arbitrary: out rule: format.induct)
  case (1 ap)
  then show ?case using sends_Ret by (simp add: format.simps printf_loop_eqs)
next
  case (2 cx fmt ap)
  consider "cx = 0" | "cx \<noteq> 0" "cx \<noteq> 37" | "cx = 37" by blast
  then show ?case
  proof cases
    case 1
    then show ?thesis using "2.prems" sends_Ret by (simp add: format.simps printf_loop_eqs)
  next
    case 2
    then show ?thesis using "2.prems" "2.IH"(1) sends_bnd [OF consputc_sends [of cx]] by (auto simp: format.simps printf_loop_eqs)
  next
    case 3
    note IH = "2.IH" [unfolded 3] and P = "2.prems" [unfolded 3 format.simps]
    have "sends (printf_loop (37 # fmt) ap :: 'a uart_state_scheme \<Rightarrow> ('a uart_state_scheme, unit) outcome) out"
    proof (cases "parse_conv fmt")
      case (ConvInt base sign narrow k)
      then obtain x ap' t where x: "ap = VNum x # ap'" "length (show_int (unat base) sign (if narrow then sext32 x else x)) \<le> 16"
        "format (drop (Suc k) fmt) ap' = Some t" "out = show_int (unat base) sign (if narrow then sext32 x else x) @ t"
        using P by (auto simp: va_num_Some Let_def split: option.splits if_splits)
      have "sends (printf_loop (drop (Suc k) fmt) ap' :: 'a uart_state_scheme \<Rightarrow> ('a uart_state_scheme, unit) outcome) t"
        by (rule IH(2) [OF _ _ ConvInt _ refl refl]) (use x in \<open>simp_all add: not_less\<close>)
      from sends_bnd [OF consputs_sends this, of "show_int (unat base) sign (if narrow then sext32 x else x)"]
      show ?thesis using ConvInt x by (simp add: printf_loop_eqs printint_show parse_conv_base split del: if_split)
    next
      case ConvPtr
      then show ?thesis
        using P by (auto simp: va_num_Some printf_loop_eqs split: option.splits intro!: sends_bnd [OF printptr_sends] IH(3) [unfolded One_nat_def])
    next
      case ConvStr
      then show ?thesis
        using P by (auto simp: printf_loop_eqs split: list.splits va.splits intro!: sends_bnd [OF consputs_sends] IH(4) [unfolded One_nat_def])
    next
      case ConvPercent
      then show ?thesis
        using P IH(5) sends_bnd [OF consputc_sends [of 37]] by (auto simp: printf_loop_eqs)
    next
      case ConvEnd
      then show ?thesis using P sends_Ret by (simp add: printf_loop_eqs)
    next
      case (ConvOther c)
      then show ?thesis
        using P IH(6) sends_bnd [OF consputc_sends [of 37] sends_bnd [OF consputc_sends [of c]]] by (auto simp: printf_loop_eqs)
    qed
    then show ?thesis unfolding 3 .
  qed
qed

section \<open>\<open>printf\<close>\<close>

lemma sent_free [simp]: "lock_free k (sent out vs s) = lock_free k s"
  by (simp add: sent_def lock_free_def)

lemma pr_locking_held [simp]: "pr_locking (with_held H s) = pr_locking s"
  by (simp add: with_held_def)

lemma printf_done:
  assumes "finite H" "PrLock \<notin> H" "lock_free PrLock s" "panicked s = 0"
    and "format (cstr fmt) ap = Some out" "uart_polls (length out) (uart_lsr s) = Some vs"
  shows "printf fmt ap (with_held H s) = Ret 0 (with_held H (sent out vs s))"
proof -
  note S = sendsD [OF printf_loop_sends [OF assms(5)] _ assms(4,6)]
  show ?thesis
  proof (cases "pr_locking s = 0")
    case True
    then show ?thesis using S [of H] assms(1) by (simp add: printf_def)
  next
    case False
    then show ?thesis using S [of "insert PrLock H"] assms(1-3) by (simp add: printf_def acquire_with_held release_with_held)
  qed
qed

section \<open>What a format means\<close>

text \<open>
  The conversions that \<open>printf\<close> documents, independently of how it reads them: a format is a sequence of pieces, each
  with its spelling and its meaning.  The number \<open>l\<close> of a conversion of a number counts the letters \<open>l\<close>: without
  one the argument is an \<open>int\<close>, with one or two it is a 64-bit number.
\<close>

abbreviation byte :: "char \<Rightarrow> u8" where
  "byte c \<equiv> of_nat (of_char c)"

datatype piece = Lit char | Dec nat | Uns nat | Hex nat | Ptr | Str | Percent | Unknown char

primrec spelling :: "piece \<Rightarrow> string" where
  "spelling (Lit c) = [c]"
| "spelling (Dec l) = ''%'' @ replicate l CHR ''l'' @ ''d''"
| "spelling (Uns l) = ''%'' @ replicate l CHR ''l'' @ ''u''"
| "spelling (Hex l) = ''%'' @ replicate l CHR ''l'' @ ''x''"
| "spelling Ptr = ''%p''"
| "spelling Str = ''%s''"
| "spelling Percent = ''%%''"
| "spelling (Unknown c) = ''%'' @ [c]"

primrec piece_ok :: "piece \<Rightarrow> bool" where
  "piece_ok (Lit c) \<longleftrightarrow> c \<noteq> CHR 0x00 \<and> c \<noteq> CHR ''%''"
| "piece_ok (Dec l) \<longleftrightarrow> l \<le> 2"
| "piece_ok (Uns l) \<longleftrightarrow> l \<le> 2"
| "piece_ok (Hex l) \<longleftrightarrow> l \<le> 2"
| "piece_ok Ptr \<longleftrightarrow> True"
| "piece_ok Str \<longleftrightarrow> True"
| "piece_ok Percent \<longleftrightarrow> True"
| "piece_ok (Unknown c) \<longleftrightarrow> c \<notin> set (CHR 0x00 # ''duxlps%'')"

text \<open>Numerals: the digits of a number in base ten or sixteen, the most significant first.\<close>

definition digit_char :: "nat \<Rightarrow> u8" where
  "digit_char d = of_nat (if d < 10 then 48 + d else 87 + d)"

function numeral_text :: "nat \<Rightarrow> nat \<Rightarrow> u8 list" where
  "numeral_text b n = (if b < 2 \<or> n < b then [digit_char n] else numeral_text b (n div b) @ [digit_char (n mod b)])"
  by pat_completeness auto
termination by (relation "measure snd") auto

declare numeral_text.simps [simp del]

definition signed_text :: "int \<Rightarrow> u8 list" where
  "signed_text k = (if k < 0 then 45 # numeral_text 10 (nat (- k)) else numeral_text 10 (nat k))"

text \<open>
  The number an argument stands for.  An \<open>int\<close> is widened to 64 bits before it is printed, so as an unsigned
  number a negative one has the value modulo \<open>2 ^ 64\<close>.
\<close>

definition int_arg :: "nat \<Rightarrow> u64 \<Rightarrow> int" where
  "int_arg l x = (if l = 0 then sint (ucast x :: i32) else sint x)"

definition uns_arg :: "nat \<Rightarrow> u64 \<Rightarrow> nat" where
  "uns_arg l x = nat (int_arg l x mod 2 ^ 64)"

fun meaning :: "piece list \<Rightarrow> va list \<Rightarrow> u8 list list option" where
  "meaning [] ap = Some []"
| "meaning (Lit c # ps) ap = map_option (Cons [byte c]) (meaning ps ap)"
| "meaning (Percent # ps) ap = map_option (Cons [37]) (meaning ps ap)"
| "meaning (Unknown c # ps) ap = map_option (Cons [37, byte c]) (meaning ps ap)"
| "meaning (Dec l # ps) (VNum x # ap) = map_option (Cons (signed_text (int_arg l x))) (meaning ps ap)"
| "meaning (Uns l # ps) (VNum x # ap) = map_option (Cons (numeral_text 10 (uns_arg l x))) (meaning ps ap)"
| "meaning (Hex l # ps) (VNum x # ap) = map_option (Cons (numeral_text 16 (uns_arg l x))) (meaning ps ap)"
| "meaning (Ptr # ps) (VNum x # ap) =
     map_option (Cons ([48, 120] @ map (\<lambda>i. digit_char (unat x div 16 ^ (15 - i) mod 16)) [0..<16])) (meaning ps ap)"
| "meaning (Str # ps) (VStr None # ap) = map_option (Cons (map byte ''(null)'')) (meaning ps ap)"
| "meaning (Str # ps) (VStr (Some cs) # ap) = map_option (Cons (takeWhile (\<lambda>c. c \<noteq> 0) cs)) (meaning ps ap)"
| "meaning _ _ = None"

text \<open>The buffer of \<open>printint\<close> has room for numerals of at most sixteen characters.\<close>

fun fits :: "piece \<Rightarrow> u8 list \<Rightarrow> bool" where
  "fits (Dec l) t \<longleftrightarrow> length t \<le> 16"
| "fits (Uns l) t \<longleftrightarrow> length t \<le> 16"
| "fits (Hex l) t \<longleftrightarrow> length t \<le> 16"
| "fits _ t \<longleftrightarrow> True"

lemma digits_char: "d < 16 \<Longrightarrow> digits ! d = digit_char d"
proof -
  have "\<forall>d \<in> {..<16}. digits ! d = digit_char d"
    by (simp add: digits_def cstr_def digit_char_def lessThan_nat_numeral lessThan_Suc)
  then show "d < 16 \<Longrightarrow> digits ! d = digit_char d" by simp
qed

lemma numeral_show: "2 \<le> b \<Longrightarrow> b \<le> 16 \<Longrightarrow> numeral_text b n = show_nat b n"
proof (induction b n rule: numeral_text.induct)
  case (1 b n)
  have d: "n mod b < 16" "n < b \<Longrightarrow> n < 16" using "1.prems" mod_less_divisor [of b n] by linarith+
  show ?case
  proof (cases "n < b")
    case True
    then show ?thesis by (simp add: numeral_text.simps [of b n] show_nat.simps [of b n] digits_char [OF d(2)])
  next
    case False
    then show ?thesis using 1 by (simp add: numeral_text.simps [of b n] show_nat.simps [of b n] digits_char [OF d(1)])
  qed
qed

lemma sint_sext32: "sint (sext32 x) = sint (ucast x :: i32)"
  unfolding sext32_def by (rule sint_up_scast) (simp add: is_up)

lemma int_arg_show: "int_arg l x = sint (if l = 0 then sext32 x else x)"
  by (simp add: int_arg_def sint_sext32)

lemma uns_arg_show: "uns_arg l x = unat (if l = 0 then sext32 x else x)"
proof -
  have "sint y mod 2 ^ 64 = uint y" for y :: u64 by (simp add: uint_sint take_bit_eq_mod)
  then show ?thesis unfolding uns_arg_def int_arg_show by (simp add: nat_uint_eq)
qed

lemma signed_show: "show_int 10 True y = signed_text (sint y)" for y :: u64
proof (cases "sint y < 0")
  case False
  then have "uint y = sint y" using sint_lt [of y] by (simp add: uint_sint take_bit_int_eq_self)
  then show ?thesis using False by (simp add: show_int_def signed_text_def numeral_show nat_uint_eq [symmetric])
qed (simp add: show_int_def signed_text_def numeral_show cstr_def)

lemma unsigned_show: "show_int 10 False y = numeral_text 10 (unat y)" "show_int 16 False y = numeral_text 16 (unat y)"
  by (simp_all add: show_int_def numeral_show)

lemma ptr_show: "ptr_text x = [48, 120] @ map (\<lambda>i. digit_char (unat x div 16 ^ (15 - i) mod 16)) [0..<16]"
proof -
  have "digits ! unat (take_bit 4 (drop_bit (60 - 4 * i) x)) = digit_char (unat x div 16 ^ (15 - i) mod 16)" if "i < 16" for i
  proof -
    have "(2 :: nat) ^ (60 - 4 * i) = 16 ^ (15 - i)" using that power_mult [of "2 :: nat" 4 "15 - i"] by (simp add: diff_mult_distrib2)
    then have "unat (take_bit 4 (drop_bit (60 - 4 * i) x)) = unat x div 16 ^ (15 - i) mod 16"
      by (simp add: unsigned_take_bit_eq unat_drop_bit_eq take_bit_eq_mod [of 4 "_ :: nat"] drop_bit_eq_div [of _ "_ :: nat"])
    then show ?thesis by (simp add: digits_char)
  qed
  then show ?thesis by (simp add: ptr_text_def cstr_def)
qed

text \<open>The conversion each spelling is read as.\<close>

lemma parse_spelling:
  assumes "l \<le> 2"
  shows "parse_conv (replicate l 108 @ 100 # fmt) = ConvInt 10 True (l = 0) l"
    "parse_conv (replicate l 108 @ 117 # fmt) = ConvInt 10 False (l = 0) l"
    "parse_conv (replicate l 108 @ 120 # fmt) = ConvInt 16 False (l = 0) l"
proof -
  have r: "replicate 2 x = [x, x]" for x :: u8 by (simp add: numeral_2_eq_2)
  consider "l = 0" | "l = 1" | "l = 2" using assms by linarith
  then have "parse_conv (replicate l 108 @ 100 # fmt) = ConvInt 10 True (l = 0) l \<and>
    parse_conv (replicate l 108 @ 117 # fmt) = ConvInt 10 False (l = 0) l \<and>
    parse_conv (replicate l 108 @ 120 # fmt) = ConvInt 16 False (l = 0) l"
    by cases (simp_all add: parse_conv_def r)
  then show "parse_conv (replicate l 108 @ 100 # fmt) = ConvInt 10 True (l = 0) l"
    "parse_conv (replicate l 108 @ 117 # fmt) = ConvInt 10 False (l = 0) l"
    "parse_conv (replicate l 108 @ 120 # fmt) = ConvInt 16 False (l = 0) l" by blast+
qed

lemma parse_letters:
  "parse_conv (112 # fmt) = ConvPtr" "parse_conv (115 # fmt) = ConvStr" "parse_conv (37 # fmt) = ConvPercent"
  by (simp_all add: parse_conv_def)

lemma byte_eq_iff: "byte c = byte d \<longleftrightarrow> c = d"
proof -
  have "unat (byte c) = of_char c" for c using of_char_of [where ?'a = nat] by (simp add: unsigned_of_nat take_bit_nat_eq_self)
  then show ?thesis by (metis of_char_eq_iff)
qed

lemma byte_neq: "c \<noteq> d \<Longrightarrow> byte c \<noteq> byte d"
  by (simp add: byte_eq_iff)

lemma parse_unknown:
  assumes "c \<notin> set (CHR 0x00 # ''duxlps%'')"
  shows "parse_conv (byte c # fmt) = ConvOther (byte c)"
proof -
  have "byte c \<noteq> byte d" if "d \<in> set (CHR 0x00 # ''duxlps%'')" for d using assms that byte_eq_iff by metis
  from this [of "CHR 0x00"] this [of "CHR ''d''"] this [of "CHR ''u''"] this [of "CHR ''x''"] this [of "CHR ''l''"] this [of "CHR ''p''"]
    this [of "CHR ''s''"] this [of "CHR ''%''"]
  show ?thesis by (simp add: parse_conv_def)
qed

lemma format_eqs:
  "c \<noteq> CHR 0x00 \<Longrightarrow> c \<noteq> CHR ''%'' \<Longrightarrow> format (byte c # fmt) ap = map_option (Cons (byte c)) (format fmt ap)"
  "parse_conv fmt = ConvInt base sign narrow l \<Longrightarrow> format (37 # fmt) (VNum x # ap) =
     (let t = show_int (unat base) sign (if narrow then sext32 x else x)
      in if length t > 16 then None else map_option (append t) (format (drop (Suc l) fmt) ap))"
  "format (37 # 112 # fmt) (VNum x # ap) = map_option (append (ptr_text x)) (format fmt ap)"
  "format (37 # 115 # fmt) (VStr p # ap) =
     map_option (append (case p of None \<Rightarrow> cstr ''(null)'' | Some cs \<Rightarrow> takeWhile (\<lambda>c. c \<noteq> 0) cs)) (format fmt ap)"
  "format (37 # 37 # fmt) ap = map_option (Cons 37) (format fmt ap)"
  "c \<notin> set (CHR 0x00 # ''duxlps%'') \<Longrightarrow> format (37 # byte c # fmt) ap = map_option (append [37, byte c]) (format fmt ap)"
proof -
  assume "c \<noteq> CHR 0x00" "c \<noteq> CHR ''%''"
  then have "byte c \<noteq> 0" "byte c \<noteq> 37" using byte_neq [of c "CHR 0x00"] byte_neq [of c "CHR ''%''"] by simp_all
  then show "format (byte c # fmt) ap = map_option (Cons (byte c)) (format fmt ap)" by (simp add: format.simps)
qed (simp_all add: format.simps parse_letters parse_unknown del: of_nat_of_char)

lemma cstr_eqs: "cstr [] = []" "cstr (c # cs) = byte c # cstr cs" "cstr (cs @ ds) = cstr cs @ cstr ds" "cstr (replicate l c) = replicate l (byte c)"
  by (simp_all add: cstr_def)

lemma format_number:
  assumes "l \<le> 2" "length t \<le> 16" "format fmt ap = Some out"
  shows "t = signed_text (int_arg l x) \<Longrightarrow> format (37 # replicate l 108 @ 100 # fmt) (VNum x # ap) = Some (t @ out)"
    "t = numeral_text 10 (uns_arg l x) \<Longrightarrow> format (37 # replicate l 108 @ 117 # fmt) (VNum x # ap) = Some (t @ out)"
    "t = numeral_text 16 (uns_arg l x) \<Longrightarrow> format (37 # replicate l 108 @ 120 # fmt) (VNum x # ap) = Some (t @ out)"
  using assms(2,3)
  by (simp_all add: format_eqs(2) [OF parse_spelling(1) [OF assms(1)]] format_eqs(2) [OF parse_spelling(2) [OF assms(1)]]
      format_eqs(2) [OF parse_spelling(3) [OF assms(1)]] signed_show unsigned_show int_arg_show uns_arg_show Let_def)

lemma format_meaning:
  "meaning ps ap = Some ts \<Longrightarrow> \<forall>p \<in> set ps. piece_ok p \<Longrightarrow> list_all2 fits ps ts \<Longrightarrow>
    format (cstr (concat (map spelling ps))) ap = Some (concat ts)"
proof (induction ps ap arbitrary: ts rule: meaning.induct)
  case (5 l ps x ap)
  then show ?case by (auto simp: cstr_eqs format_number(1))
next
  case (6 l ps x ap)
  then show ?case by (auto simp: cstr_eqs format_number(2))
next
  case (7 l ps x ap)
  then show ?case by (auto simp: cstr_eqs format_number(3))
next
  case (8 ps x ap)
  then show ?case by (auto simp: cstr_eqs format_eqs(3) ptr_show)
next
  case (4 c ps ap)
  then show ?case by (auto simp: cstr_eqs format_eqs(6))
next
  case (2 c ps ap)
  then show ?case by (auto simp: cstr_eqs format_eqs(1))
qed (auto simp: cstr_eqs format_eqs format.simps(1))

text \<open>
  C28: \<open>printf\<close> sends to the UART exactly the text its format and arguments mean, each byte once the transmitter is
  idle, and returns with nothing else changed: ordinary characters, decimal, unsigned and hexadecimal numbers of
  either width, pointers, strings, percent signs and unknown letters, as long as no number needs more than sixteen
  characters.
\<close>

theorem printf_prints:
  assumes "lock_free PrLock s" "panicked s = 0" "\<forall>p \<in> set ps. piece_ok p" "meaning ps ap = Some ts" "list_all2 fits ps ts"
    and "uart_polls (length (concat ts)) (uart_lsr s) = Some vs"
  shows "printf (concat (map spelling ps)) ap (with_held {} s) =
    Ret 0 (with_held {} (s\<lparr>uart_lsr := vs, uart_writes := rev (map (Pair THR) (concat ts)) @ uart_writes s\<rparr>))"
  using printf_done [OF _ _ assms(1,2) format_meaning [OF assms(4,3,5)] assms(6), of "{}"] by (simp add: sent_def)

lemma show_nat_long: "2 \<le> b \<Longrightarrow> b ^ k \<le> n \<Longrightarrow> Suc k \<le> length (show_nat b n)"
proof (induction k arbitrary: n)
  case 0
  then show ?case by (simp add: show_nat.simps)
next
  case (Suc k)
  then have "b ^ k \<le> n div b" by (simp add: less_eq_div_iff_mult_less_eq mult.commute)
  moreover have "b * 1 \<le> b * b ^ k" using Suc.prems(1) by (intro mult_le_mono) simp_all
  then have "\<not> n < b" using Suc.prems(2) unfolding power_Suc by linarith
  ultimately show ?case using Suc.IH [of "n div b"] Suc.prems(1) by (simp add: show_nat.simps [of b n])
qed

lemma consputs_defined: "consputs cs s \<noteq> Undef"
proof (induction cs arbitrary: s)
  case (Cons c cs)
  have "uartputc_sync d s \<noteq> Undef" for d :: i32 and s :: "'a uart_state_scheme"
    by (simp add: uartputc_sync_def Let_def pop_off_def split: option.splits)
  then have "consputc d s \<noteq> Undef" for d :: i32 and s :: "'a uart_state_scheme"
    by (simp add: consputc_def bnd_Undef_iff)
  with Cons show ?case by (simp add: bnd_Undef_iff)
qed simp

text \<open>
  C29: The buffer of \<open>printint\<close> has room for sixteen characters: printing an unsigned number in decimal runs
  past its end exactly from ten to the sixteenth on.
\<close>

theorem printint_overflows: "printint x 10 False s = Undef \<longleftrightarrow> 10 ^ 16 \<le> unat x"
proof -
  have b: "rev (printint_buf x 10 False) = show_nat 10 (unat x)"
    using printint_buf_show [of 10 x False] by (simp add: show_int_def)
  have "length (show_nat 10 (unat x)) > 16 \<longleftrightarrow> 10 ^ 16 \<le> unat x"
    using show_nat_long [of 10 16 "unat x"] show_nat_length [of 10 "unat x" 15]
    by (cases "(10 :: nat) ^ 16 \<le> unat x") simp_all
  then have "length (printint_buf x 10 False) > 16 \<longleftrightarrow> 10 ^ 16 \<le> unat x" unfolding b [symmetric] by simp
  then show ?thesis by (simp add: printint_def Let_def consputs_defined)
qed

section \<open>Witness\<close>

lemma polls_ready: "uart_polls n (replicate (n + k) 0x20) = Some (replicate k 0x20)"
  by (induction n) (simp_all add: LSR_TX_IDLE_def)

definition demo_out :: printf_state where
  "demo_out = uart_state.extend (pipe_state.extend demo_pipe (uart_state.fields (\<lambda>_. 0) 0 0 0 [0x20, 0, 0x20, 0x20, 0x20] [] []))
     (printf_state.fields 1)"

theorem printf_prints_witness:
  "printf ''n=%d'' [VNum 42] (with_held {} demo_out) =
    Ret 0 (with_held {} (demo_out\<lparr>uart_lsr := [], uart_writes := rev (map (Pair THR) (cstr ''n=42''))\<rparr>))"
proof -
  let ?ps = "[Lit CHR ''n'', Lit CHR ''='', Dec 0]" and ?ts = "[cstr ''n'', cstr ''='', cstr ''42'']"
  have "signed_text 42 = cstr ''42''" by (simp add: signed_text_def numeral_text.simps digit_char_def cstr_def)
  then have m: "meaning ?ps [VNum 42] = Some ?ts" by (simp add: int_arg_def cstr_def)
  have f: "\<forall>p \<in> set ?ps. piece_ok p" "list_all2 fits ?ps ?ts" by (simp_all add: cstr_def)
  have d: "lock_free PrLock demo_out" "panicked demo_out = 0" "uart_writes demo_out = []"
    using demo_pipe_ok(1) [of PrLock] by (simp_all add: demo_out_def uart_state.defs printf_state.defs pipe_state.defs lock_free_def)
  have "uart_polls (length (concat ?ts)) (uart_lsr demo_out) = Some []"
    by (simp add: demo_out_def uart_state.defs printf_state.defs pipe_state.defs cstr_def LSR_TX_IDLE_def)
  from printf_prints [OF d(1,2) f(1) m f(2) this] show ?thesis using d(3) by (simp add: cstr_def)
qed

end
