(* ===== verification/Console.thy ===== *)
theory Console
  imports Printf
begin

text \<open>
  The console, \<open>kernel/console.c\<close>, with \<open>procdump\<close> (\<open>kernel/proc.c\<close>) that it calls and \<open>uartintr\<close>
  (\<open>kernel/uart.c\<close>) that calls it.  \<open>devsw\<close> is the table of device drivers of \<open>kernel/file.c\<close>: the only
  driver is that of the console.
\<close>

definition INPUT_BUF_SIZE :: nat where "INPUT_BUF_SIZE = 128"
definition CONSOLE :: nat where "CONSOLE = 1"

datatype driver = ConsoleDriver

record cons_state = printf_state +
  cons_buf :: "nat \<Rightarrow> u8"
  cons_r :: u32
  cons_w :: u32
  cons_e :: u32
  devsw :: "nat \<Rightarrow> driver option"

section \<open>\<open>procdump\<close>\<close>

fun state_name :: "procstate \<Rightarrow> string" where
  "state_name UNUSED = ''unused''"
| "state_name USED = ''used''"
| "state_name SLEEPING = ''sleep ''"
| "state_name RUNNABLE = ''runble''"
| "state_name RUNNING = ''run   ''"
| "state_name ZOMBIE = ''zombie''"

primrec procdump_loop :: "nat list \<Rightarrow> 'a printf_state_scheme \<Rightarrow> ('a printf_state_scheme, unit) outcome" where
  "procdump_loop [] s = Ret () s"
| "procdump_loop (p # ps) s =
     (if p_state (procs s p) = UNUSED then procdump_loop ps s
      else bnd (printf ''%d %s %s'' [VNum (scast (p_pid (procs s p))),
             VStr (Some (cstr (state_name (p_state (procs s p))))), VStr (Some (p_name (procs s p)))] s) (\<lambda>_ s.
           bnd (printf [CHR 10] [] s) (\<lambda>_ s. procdump_loop ps s)))"

definition procdump :: "'a printf_state_scheme \<Rightarrow> ('a printf_state_scheme, unit) outcome" where
  "procdump s = bnd (printf [CHR 10] [] s) (\<lambda>_ s. procdump_loop [0..<NPROC] s)"

section \<open>Writing and reading\<close>

text \<open>The source of \<open>consolewrite\<close> is a user address (\<open>user_src\<close> is 1) or kernel bytes.\<close>

definition src_at :: "copy_src \<Rightarrow> u64 \<Rightarrow> copy_src" where
  "src_at src i = (case src of UserSrc a \<Rightarrow> UserSrc (a + i) | ObjSrc bs \<Rightarrow> ObjSrc (drop (unat i) bs))"

definition dst_at :: "copy_dst \<Rightarrow> u64 \<Rightarrow> copy_dst" where
  "dst_at dst i = (case dst of UserDst a \<Rightarrow> UserDst (a + i) | MemDst a \<Rightarrow> MemDst (a + i) | ObjDst \<Rightarrow> ObjDst)"

function consolewrite_loop ::
    "copy_src \<Rightarrow> i32 \<Rightarrow> i32 \<Rightarrow> 'a cons_state_scheme \<Rightarrow> ('a cons_state_scheme, i32) outcome" where
  "consolewrite_loop src n i s =
     (if \<not> i <s n then Ret i s
      else bnd (either_copyin (src_at src (scast i)) 1 s) (\<lambda>(r, c) s.
           if r = - 1 then Ret i s
           else bnd (uartputc (ucast (hd c)) s) (\<lambda>_ s. consolewrite_loop src n (i + 1) s)))"
  by pat_completeness auto
termination
  by (relation "measure (\<lambda>(src, n, i, s). nat (sint n - sint i))") (auto simp: sint_Suc_less word_sless_alt)

declare consolewrite_loop.simps [simp del]

definition consolewrite :: "copy_src \<Rightarrow> i32 \<Rightarrow> 'a cons_state_scheme \<Rightarrow> ('a cons_state_scheme, i32) outcome" where
  "consolewrite src n s = consolewrite_loop src n 0 s"

definition ctrl :: "char \<Rightarrow> i32" where
  "ctrl x = of_char x - of_char CHR ''@''"

lemma sint_pred: "0 <s (n :: i32) \<Longrightarrow> sint (n - 1) = sint n - 1"
proof -
  assume "0 <s n"
  then have "0 < sint n" by (simp add: word_sless_alt)
  moreover have "sint n < 2 ^ 31" using sint_lt [of n] by simp
  ultimately show ?thesis by (simp add: sint_word_ariths signed_take_bit_int_eq_self)
qed

text \<open>
  The loop of \<open>consoleread\<close>; \<open>n\<close> bytes are still wanted.  When no input is there it leaves the CPU in
  \<open>sleep\<close> and continues with the same call when it is resumed.
\<close>

definition consoleread_end :: "u32 \<Rightarrow> i32 \<Rightarrow> 'a cons_state_scheme \<Rightarrow> ('a cons_state_scheme, i32) outcome" where
  "consoleread_end target n s = bnd (release ConsLock s) (\<lambda>_ s. Ret (target - n) s)"

function consoleread_loop ::
    "copy_dst \<Rightarrow> u32 \<Rightarrow> i32 \<Rightarrow> 'a cons_state_scheme \<Rightarrow> ('a cons_state_scheme, i32) outcome" where
  "consoleread_loop dst target n s =
     (if \<not> 0 <s n then consoleread_end target n s
      else if cons_r s = cons_w s
      then bnd (curproc s) (\<lambda>p s.
           bnd (killed p s) (\<lambda>k s.
           if k \<noteq> 0 then bnd (release ConsLock s) (\<lambda>_ s. Ret (- 1) s)
           else bnd (sleep ConsRChan ConsLock s) (\<lambda>_ s. consoleread_loop dst target n s)))
      else let c = cons_buf s (unat (cons_r s) mod INPUT_BUF_SIZE);
               s = s\<lparr>cons_r := cons_r s + 1\<rparr> in
      if ucast c = ctrl CHR ''D''
      then consoleread_end target n (if n < target then s\<lparr>cons_r := cons_r s - 1\<rparr> else s)
      else bnd (either_copyout dst [c] s) (\<lambda>r s.
           if r = - 1 then consoleread_end target n s
           else if c = 10 then consoleread_end target (n - 1) s
           else consoleread_loop (dst_at dst 1) target (n - 1) s))"
  by pat_completeness auto
termination
  by (relation "measure (\<lambda>(dst, target, n, s). nat (sint n))") (auto simp: sleep_not_Ret sint_pred word_sless_alt)

declare consoleread_loop.simps [simp del]

definition consoleread :: "copy_dst \<Rightarrow> i32 \<Rightarrow> 'a cons_state_scheme \<Rightarrow> ('a cons_state_scheme, i32) outcome" where
  "consoleread dst n s = bnd (acquire ConsLock s) (\<lambda>_ s. consoleread_loop dst n n s)"

section \<open>Input\<close>

text \<open>The loop of control-U; \<open>k\<close> is the number of characters that may be erased, \<open>cons.e - cons.w\<close>.\<close>

primrec kill_line :: "nat \<Rightarrow> 'a cons_state_scheme \<Rightarrow> ('a cons_state_scheme, unit) outcome" where
  "kill_line 0 s = Ret () s"
| "kill_line (Suc k) s =
     (if cons_buf s (unat (cons_e s - 1) mod INPUT_BUF_SIZE) = 10 then Ret () s
      else bnd (consputc BACKSPACE (s\<lparr>cons_e := cons_e s - 1\<rparr>)) (\<lambda>_ s. kill_line k s))"

definition cons_store :: "u8 \<Rightarrow> 'a cons_state_scheme \<Rightarrow> 'a cons_state_scheme" where
  "cons_store c s = s\<lparr>cons_buf := (cons_buf s)(unat (cons_e s) mod INPUT_BUF_SIZE := c), cons_e := cons_e s + 1\<rparr>"

definition consoleintr :: "i32 \<Rightarrow> 'a cons_state_scheme \<Rightarrow> ('a cons_state_scheme, unit) outcome" where
  "consoleintr c s =
     bnd (acquire ConsLock s) (\<lambda>_ s.
     bnd (if c = ctrl CHR ''P'' then procdump s
          else if c = ctrl CHR ''U'' then kill_line (unat (cons_e s - cons_w s)) s
          else if c = ctrl CHR ''H'' \<or> c = 0x7f
          then if cons_e s \<noteq> cons_w s then consputc BACKSPACE (s\<lparr>cons_e := cons_e s - 1\<rparr>) else Ret () s
          else if c \<noteq> 0 \<and> cons_e s - cons_r s < of_nat INPUT_BUF_SIZE
          then let c = (if c = 13 then 10 else c)
               in bnd (consputc c s) (\<lambda>_ s.
                  let s = cons_store (ucast c) s
                  in if c = 10 \<or> c = ctrl CHR ''D'' \<or> cons_e s - cons_r s = of_nat INPUT_BUF_SIZE
                     then wakeup (Some ConsRChan) (s\<lparr>cons_w := cons_e s\<rparr>)
                     else Ret () s)
          else Ret () s) (\<lambda>_ s.
     release ConsLock s))"

text \<open>The loop of \<open>uartintr\<close>; each round reads the line status register once.\<close>

primrec uartintr_loop :: "nat \<Rightarrow> 'a cons_state_scheme \<Rightarrow> ('a cons_state_scheme, unit) outcome" where
  "uartintr_loop 0 s = NoFuel"
| "uartintr_loop (Suc k) s =
     bnd (uartgetc s) (\<lambda>c s.
     if c = - 1 then Ret () s
     else bnd (consoleintr c s) (\<lambda>_ s. uartintr_loop k s))"

definition uartintr :: "'a cons_state_scheme \<Rightarrow> ('a cons_state_scheme, unit) outcome" where
  "uartintr s =
     bnd (uartintr_loop (length (uart_lsr s)) s) (\<lambda>_ s.
     bnd (acquire UartTxLock s) (\<lambda>_ s.
     bnd (uartstart s) (\<lambda>_ s.
     release UartTxLock s)))"

definition consoleinit :: "'a cons_state_scheme \<Rightarrow> 'a cons_state_scheme" where
  "consoleinit s =
     (let s = initlock ConsLock ''cons'' s;
          s = uartinit s
      in s\<lparr>devsw := (devsw s)(CONSOLE := Some ConsoleDriver)\<rparr>)"

end
