(* ===== verification/Virtio.thy ===== *)
theory Virtio
  imports Console
begin

text \<open>
  The disk driver, \<open>kernel/virtio_disk.c\<close>, and the block buffers it transfers (\<open>kernel/buf.h\<close>).

  The record \<open>vio\<close> is the memory the driver shares with the device: descriptors, rings, request headers,
  status bytes and the data of the buffers, together with the contents of the disk by sectors of 512
  bytes.  The device itself is not code of the kernel: \<open>virtio_dev\<close> is its reaction to a notification,
  a function on \<open>vio\<close>, and \<open>virtio_regs\<close> what its registers return, given the writes to them so far.
  Addresses that the driver hands to the device are names of the objects (\<open>dma\<close>).
\<close>

section \<open>State\<close>

definition BSIZE :: nat where "BSIZE = 1024"
definition MAXOPBLOCKS :: nat where "MAXOPBLOCKS = 10"
definition NBUF :: nat where "NBUF = MAXOPBLOCKS * 3"
definition NUM :: nat where "NUM = 8"

definition VRING_DESC_F_NEXT :: u16 where "VRING_DESC_F_NEXT = 1"
definition VRING_DESC_F_WRITE :: u16 where "VRING_DESC_F_WRITE = 2"
definition VIRTIO_BLK_T_IN :: u32 where "VIRTIO_BLK_T_IN = 0"
definition VIRTIO_BLK_T_OUT :: u32 where "VIRTIO_BLK_T_OUT = 1"

text \<open>\<open>struct buf\<close> without its sleep-lock \<open>BufSL i\<close> and its data, which is in \<open>vio\<close>; \<open>NBUF\<close> is \<open>bcache.head\<close>.\<close>

record buf =
  b_valid :: i32
  b_disk :: i32
  b_dev :: u32
  b_blockno :: u32
  b_refcnt :: u32
  b_prev :: nat
  b_next :: nat

datatype dma = DmaNull | DmaOps nat | DmaData nat | DmaStatus nat

record virtq_desc =
  d_addr :: dma
  d_len :: u32
  d_flags :: u16
  d_next :: u16

record virtio_blk_req =
  r_type :: u32
  r_reserved :: u32
  r_sector :: u64

record vio =
  v_desc :: "nat \<Rightarrow> virtq_desc"
  v_avail_idx :: u16
  v_avail_ring :: "nat \<Rightarrow> u16"
  v_used_idx :: u16
  v_used_ring :: "nat \<Rightarrow> u32"
  v_status :: "nat \<Rightarrow> u8"
  v_ops :: "nat \<Rightarrow> virtio_blk_req"
  b_data :: "nat \<Rightarrow> u8 list"
  v_sectors :: "u64 \<Rightarrow> u8 list"

record disk_state = cons_state +
  bufs :: "nat \<Rightarrow> buf"
  vio :: vio
  vd_free :: "nat \<Rightarrow> bool"
  vd_used_idx :: u16
  vd_info_b :: "nat \<Rightarrow> nat option"
  vd_pages :: "u64 list"
  virtio_dev :: "vio \<Rightarrow> vio"
  virtio_regs :: "(u64 \<times> u32) list \<Rightarrow> u64 \<Rightarrow> u32"
  virtio_writes :: "(u64 \<times> u32) list"

definition upd_buf :: "nat \<Rightarrow> (buf \<Rightarrow> buf) \<Rightarrow> 'a disk_state_scheme \<Rightarrow> 'a disk_state_scheme" where
  "upd_buf b f s = s\<lparr>bufs := (bufs s)(b := f (bufs s b))\<rparr>"

definition upd_vio :: "(vio \<Rightarrow> vio) \<Rightarrow> 'a disk_state_scheme \<Rightarrow> 'a disk_state_scheme" where
  "upd_vio f s = s\<lparr>vio := f (vio s)\<rparr>"

definition zero_desc :: virtq_desc where
  "zero_desc = \<lparr>d_addr = DmaNull, d_len = 0, d_flags = 0, d_next = 0\<rparr>"

definition set_desc :: "nat \<Rightarrow> virtq_desc \<Rightarrow> 'a disk_state_scheme \<Rightarrow> 'a disk_state_scheme" where
  "set_desc i d s = upd_vio (\<lambda>v. v\<lparr>v_desc := (v_desc v)(i := d)\<rparr>) s"

section \<open>Initialisation\<close>

definition R_read :: "u64 \<Rightarrow> 'a disk_state_scheme \<Rightarrow> u32" where
  "R_read r s = virtio_regs s (virtio_writes s) r"

definition R_write :: "u64 \<Rightarrow> u32 \<Rightarrow> 'a disk_state_scheme \<Rightarrow> 'a disk_state_scheme" where
  "R_write r v s = s\<lparr>virtio_writes := (r, v) # virtio_writes s\<rparr>"

definition VIRTIO_MMIO_STATUS :: u64 where "VIRTIO_MMIO_STATUS = 0x070"
definition VIRTIO_MMIO_QUEUE_NOTIFY :: u64 where "VIRTIO_MMIO_QUEUE_NOTIFY = 0x050"
definition VIRTIO_MMIO_INTERRUPT_STATUS :: u64 where "VIRTIO_MMIO_INTERRUPT_STATUS = 0x060"
definition VIRTIO_MMIO_INTERRUPT_ACK :: u64 where "VIRTIO_MMIO_INTERRUPT_ACK = 0x064"

text \<open>The feature bits the driver clears: read-only, SCSI, write-back, multi-queue, layout, event index, indirect.\<close>

definition virtio_features :: "u32 \<Rightarrow> u32" where
  "virtio_features f = fold (\<lambda>k f. f AND NOT (push_bit k 1)) [5, 7, 11, 12, 27, 29, 28] f"

definition vio_reset :: "vio \<Rightarrow> vio" where
  "vio_reset v = v\<lparr>v_desc := (\<lambda>_. zero_desc), v_avail_idx := 0, v_avail_ring := (\<lambda>_. 0),
     v_used_idx := 0, v_used_ring := (\<lambda>_. 0)\<rparr>"

definition virtio_disk_init :: "'a disk_state_scheme \<Rightarrow> ('a disk_state_scheme, unit) outcome" where
  "virtio_disk_init s =
     (let s = initlock VdiskLock ''virtio_disk'' s in
      if R_read 0x000 s \<noteq> 0x74726976 \<or> R_read 0x004 s \<noteq> 2 \<or> R_read 0x008 s \<noteq> 2 \<or> R_read 0x00c s \<noteq> 0x554d4551
      then Panic ''could not find virtio disk''
      else let s = R_write VIRTIO_MMIO_STATUS 0 s;
               s = R_write VIRTIO_MMIO_STATUS 1 s;
               s = R_write VIRTIO_MMIO_STATUS 3 s;
               s = R_write 0x020 (virtio_features (R_read 0x010 s)) s;
               s = R_write VIRTIO_MMIO_STATUS 11 s;
               status = R_read VIRTIO_MMIO_STATUS s in
      if status AND 8 = 0 then Panic ''virtio disk FEATURES_OK unset''
      else let s = R_write 0x030 0 s in
      if R_read 0x044 s \<noteq> 0 then Panic ''virtio disk should not be ready''
      else let mx = R_read 0x034 s in
      if mx = 0 then Panic ''virtio disk has no queue 0''
      else if mx < of_nat NUM then Panic ''virtio disk max queue too short''
      else bnd (kalloc s) (\<lambda>desc s.
           bnd (kalloc s) (\<lambda>avail s.
           bnd (kalloc s) (\<lambda>used s.
           if desc = 0 \<or> avail = 0 \<or> used = 0 then Panic ''virtio disk kalloc''
           else let s = s\<lparr>mem := memset used 0 4096 (memset avail 0 4096 (memset desc 0 4096 (mem s)))\<rparr>;
                    s = upd_vio vio_reset (s\<lparr>vd_pages := [desc, avail, used]\<rparr>);
                    s = R_write 0x038 (of_nat NUM) s;
                    s = R_write 0x080 (ucast desc) s;
                    s = R_write 0x084 (ucast (drop_bit 32 desc)) s;
                    s = R_write 0x090 (ucast avail) s;
                    s = R_write 0x094 (ucast (drop_bit 32 avail)) s;
                    s = R_write 0x0a0 (ucast used) s;
                    s = R_write 0x0a4 (ucast (drop_bit 32 used)) s;
                    s = R_write 0x044 1 s;
                    s = s\<lparr>vd_free := (\<lambda>i. if i < NUM then True else vd_free s i)\<rparr>
                in Ret () (R_write VIRTIO_MMIO_STATUS (status OR 4) s)))))"

section \<open>Descriptors\<close>

fun alloc_desc_loop :: "nat list \<Rightarrow> 'a disk_state_scheme \<Rightarrow> nat option \<times> 'a disk_state_scheme" where
  "alloc_desc_loop [] s = (None, s)"
| "alloc_desc_loop (i # is) s =
     (if vd_free s i then (Some i, s\<lparr>vd_free := (vd_free s)(i := False)\<rparr>) else alloc_desc_loop is s)"

definition alloc_desc :: "'a disk_state_scheme \<Rightarrow> nat option \<times> 'a disk_state_scheme" where
  "alloc_desc s = alloc_desc_loop [0..<NUM] s"

definition free_desc :: "nat \<Rightarrow> 'a disk_state_scheme \<Rightarrow> ('a disk_state_scheme, unit) outcome" where
  "free_desc i s =
     (if i \<ge> NUM then Panic ''free_desc 1''
      else if vd_free s i then Panic ''free_desc 2''
      else let s = set_desc i zero_desc s;
               s = s\<lparr>vd_free := (vd_free s)(i := True)\<rparr>
           in wakeup (Some DiskFreeChan) s)"

text \<open>
  The loop of \<open>free_chain\<close> frees a descriptor in each round, and freeing one twice panics, so the number
  of descriptors bounds its rounds.
\<close>

primrec free_chain_loop :: "nat \<Rightarrow> nat \<Rightarrow> 'a disk_state_scheme \<Rightarrow> ('a disk_state_scheme, unit) outcome" where
  "free_chain_loop 0 i s = free_desc i s"
| "free_chain_loop (Suc k) i s =
     (let flag = d_flags (v_desc (vio s) i);
          nxt = d_next (v_desc (vio s) i)
      in bnd (free_desc i s) (\<lambda>_ s.
         if flag AND VRING_DESC_F_NEXT \<noteq> 0 then free_chain_loop k (unat nxt) s else Ret () s))"

definition free_chain :: "nat \<Rightarrow> 'a disk_state_scheme \<Rightarrow> ('a disk_state_scheme, unit) outcome" where
  "free_chain i s = free_chain_loop NUM i s"

fun free_all :: "nat list \<Rightarrow> 'a disk_state_scheme \<Rightarrow> ('a disk_state_scheme, unit) outcome" where
  "free_all [] s = Ret () s"
| "free_all (j # js) s = bnd (free_desc j s) (\<lambda>_ s. free_all js s)"

fun alloc3_loop :: "nat \<Rightarrow> nat list \<Rightarrow> 'a disk_state_scheme \<Rightarrow> ('a disk_state_scheme, nat list option) outcome" where
  "alloc3_loop 0 idx s = Ret (Some idx) s"
| "alloc3_loop (Suc k) idx s =
     (case alloc_desc s of
        (None, s) \<Rightarrow> bnd (free_all idx s) (\<lambda>_ s. Ret None s)
      | (Some i, s) \<Rightarrow> alloc3_loop k (idx @ [i]) s)"

definition alloc3_desc :: "'a disk_state_scheme \<Rightarrow> ('a disk_state_scheme, nat list option) outcome" where
  "alloc3_desc s = alloc3_loop 3 [] s"

section \<open>The interrupt handler\<close>

text \<open>The loop over the new entries of the used ring; there are \<open>used->idx - disk.used_idx\<close> of them.\<close>

primrec virtio_intr_loop :: "nat \<Rightarrow> 'a disk_state_scheme \<Rightarrow> ('a disk_state_scheme, unit) outcome" where
  "virtio_intr_loop 0 s = Ret () s"
| "virtio_intr_loop (Suc k) s =
     (let i = unat (v_used_ring (vio s) (unat (vd_used_idx s) mod NUM)) in
      if v_status (vio s) i \<noteq> 0 then Panic ''virtio_disk_intr status''
      else case vd_info_b s i of
        None \<Rightarrow> Panic ''kerneltrap''
      | Some b \<Rightarrow>
          bnd (wakeup (Some (BufChan b)) (upd_buf b (\<lambda>x. x\<lparr>b_disk := 0\<rparr>) s)) (\<lambda>_ s.
          virtio_intr_loop k (s\<lparr>vd_used_idx := vd_used_idx s + 1\<rparr>)))"

definition virtio_disk_intr :: "'a disk_state_scheme \<Rightarrow> ('a disk_state_scheme, unit) outcome" where
  "virtio_disk_intr s =
     bnd (acquire VdiskLock s) (\<lambda>_ s.
     let s = R_write VIRTIO_MMIO_INTERRUPT_ACK (R_read VIRTIO_MMIO_INTERRUPT_STATUS s AND 3) s
     in bnd (virtio_intr_loop (unat (v_used_idx (vio s) - vd_used_idx s)) s) (\<lambda>_ s.
     release VdiskLock s))"

section \<open>Waiting for the disk\<close>

text \<open>
  A process that waits for the disk leaves the CPU in \<open>sleep\<close>.  The model follows the run in which it is
  the next process to be dispatched: the scheduler gets the CPU, the device finishes its work and
  interrupts, \<open>virtio_disk_intr\<close> wakes the process, the scheduler chooses it and the thread continues in
  \<open>sleep\<close>.  \<open>redispatch\<close> is the scheduler's part: it chooses \<open>p\<close> as the current policy does, with the
  bookkeeping of the policy.  If the interrupt has not made the process runnable, it stays asleep and
  the outcome is \<open>Swtch\<close>.
\<close>

definition policy_dispatch :: "nat \<Rightarrow> 'a proc_state_scheme \<Rightarrow> 'a proc_state_scheme" where
  "policy_dispatch p s =
     (if current_policy s = 3
      then set_cpu_proc (Some p) (upd_proc p (\<lambda>x. x\<lparr>p_state := RUNNING\<rparr>)
             (upd_proc p (\<lambda>x. x\<lparr>p_runtime_start_ticks := ticks s\<rparr>) (account_wait p s)))
      else if current_policy s = 4
      then let level = unat (p_queue_level (procs s p));
               s = dispatch p s;
               q = (\<lambda>i. if queue s level i = Some p then None else queue s level i)
           in compact_queue level (s\<lparr>queue := (queue s)(level := q)\<rparr>)
      else dispatch p s)"

definition redispatch :: "nat \<Rightarrow> resume \<Rightarrow> 'a proc_state_scheme \<Rightarrow> ('a proc_state_scheme, unit) outcome" where
  "redispatch p k s =
     bnd (acquire (ProcLock p) s) (\<lambda>_ s.
     if p_state (procs s p) = RUNNABLE then resume_thread p k (policy_dispatch p s)
     else bnd (release (ProcLock p) s) (\<lambda>_ s. Swtch k s))"

definition disk_turn :: "nat \<Rightarrow> resume \<Rightarrow> 'a disk_state_scheme \<Rightarrow> ('a disk_state_scheme, unit) outcome" where
  "disk_turn p k s =
     bnd (scheduler_resume (if current_policy s = 3 then AfterHrrn p else AfterRun p) s) (\<lambda>_ s.
     bnd (virtio_disk_intr (upd_vio (virtio_dev s) s)) (\<lambda>_ s.
     redispatch p k s))"

definition disk_sleep :: "nat \<Rightarrow> 'a disk_state_scheme \<Rightarrow> ('a disk_state_scheme, unit) outcome" where
  "disk_sleep b s =
     bnd (curproc s) (\<lambda>p s.
     case sleep (BufChan b) VdiskLock s of
       Swtch k s \<Rightarrow> disk_turn p k s
     | r \<Rightarrow> r)"

text \<open>
  The loop around \<open>sleep(b, &disk.vdisk_lock)\<close>.  The process is woken after \<open>b->disk\<close> has been cleared,
  so one round is enough; a second one would be the outcome \<open>NoFuel\<close>.
\<close>

definition disk_wait :: "nat \<Rightarrow> 'a disk_state_scheme \<Rightarrow> ('a disk_state_scheme, unit) outcome" where
  "disk_wait b s =
     (if b_disk (bufs s b) = 1
      then bnd (disk_sleep b s) (\<lambda>_ s. if b_disk (bufs s b) = 1 then NoFuel else Ret () s)
      else Ret () s)"

section \<open>Reading and writing a block\<close>

definition disk_request :: "nat \<Rightarrow> bool \<Rightarrow> nat \<Rightarrow> nat \<Rightarrow> nat \<Rightarrow> 'a disk_state_scheme \<Rightarrow> 'a disk_state_scheme" where
  "disk_request b write i0 i1 i2 s =
     (let sector = ucast (b_blockno (bufs s b) * of_nat (BSIZE div 512));
          req = \<lparr>r_type = (if write then VIRTIO_BLK_T_OUT else VIRTIO_BLK_T_IN), r_reserved = 0, r_sector = sector\<rparr>;
          s = upd_vio (\<lambda>v. v\<lparr>v_ops := (v_ops v)(i0 := req)\<rparr>) s;
          s = set_desc i0 \<lparr>d_addr = DmaOps i0, d_len = 16, d_flags = VRING_DESC_F_NEXT, d_next = of_nat i1\<rparr> s;
          s = set_desc i1 \<lparr>d_addr = DmaData b, d_len = of_nat BSIZE,
                d_flags = (if write then 0 else VRING_DESC_F_WRITE) OR VRING_DESC_F_NEXT, d_next = of_nat i2\<rparr> s;
          s = upd_vio (\<lambda>v. v\<lparr>v_status := (v_status v)(i0 := 0xff)\<rparr>) s;
          s = set_desc i2 \<lparr>d_addr = DmaStatus i0, d_len = 1, d_flags = VRING_DESC_F_WRITE, d_next = 0\<rparr> s;
          s = upd_buf b (\<lambda>x. x\<lparr>b_disk := 1\<rparr>) s;
          s = s\<lparr>vd_info_b := (vd_info_b s)(i0 := Some b)\<rparr>;
          s = upd_vio (\<lambda>v. v\<lparr>v_avail_ring := (v_avail_ring v)(unat (v_avail_idx v) mod NUM := of_nat i0)\<rparr>) s;
          s = upd_vio (\<lambda>v. v\<lparr>v_avail_idx := v_avail_idx v + 1\<rparr>) s
      in R_write VIRTIO_MMIO_QUEUE_NOTIFY 0 s)"

function virtio_disk_rw_loop ::
    "nat \<Rightarrow> bool \<Rightarrow> 'a disk_state_scheme \<Rightarrow> ('a disk_state_scheme, unit) outcome" where
  "virtio_disk_rw_loop b write s =
     bnd (alloc3_desc s) (\<lambda>idx s.
     case idx of
       None \<Rightarrow> bnd (sleep DiskFreeChan VdiskLock s) (\<lambda>_ s. virtio_disk_rw_loop b write s)
     | Some is \<Rightarrow>
         let s = disk_request b write (is ! 0) (is ! 1) (is ! 2) s
         in bnd (disk_wait b s) (\<lambda>_ s.
            let s = s\<lparr>vd_info_b := (vd_info_b s)(is ! 0 := None)\<rparr>
            in bnd (free_chain (is ! 0) s) (\<lambda>_ s.
            release VdiskLock s)))"
  by pat_completeness auto
termination by (relation "{}") (auto simp: sleep_not_Ret)

declare virtio_disk_rw_loop.simps [simp del]

definition virtio_disk_rw :: "nat \<Rightarrow> bool \<Rightarrow> 'a disk_state_scheme \<Rightarrow> ('a disk_state_scheme, unit) outcome" where
  "virtio_disk_rw b write s =
     bnd (acquire VdiskLock s) (\<lambda>_ s. virtio_disk_rw_loop b write s)"

section \<open>States with locks held\<close>

lemma with_held_disk [lock_simps]:
  "bufs (with_held H s) = bufs s" "vio (with_held H s) = vio s" "vd_free (with_held H s) = vd_free s"
  "vd_used_idx (with_held H s) = vd_used_idx s" "vd_info_b (with_held H s) = vd_info_b s"
  "virtio_dev (with_held H s) = virtio_dev s" "virtio_regs (with_held H s) = virtio_regs s"
  "virtio_writes (with_held H s) = virtio_writes s"
  "(with_held H s)\<lparr>bufs := B\<rparr> = with_held H (s\<lparr>bufs := B\<rparr>)"
  "(with_held H s)\<lparr>vio := v\<rparr> = with_held H (s\<lparr>vio := v\<rparr>)"
  "(with_held H s)\<lparr>vd_free := fr\<rparr> = with_held H (s\<lparr>vd_free := fr\<rparr>)"
  "(with_held H s)\<lparr>vd_used_idx := u\<rparr> = with_held H (s\<lparr>vd_used_idx := u\<rparr>)"
  "(with_held H s)\<lparr>vd_info_b := i\<rparr> = with_held H (s\<lparr>vd_info_b := i\<rparr>)"
  "(with_held H s)\<lparr>virtio_writes := w\<rparr> = with_held H (s\<lparr>virtio_writes := w\<rparr>)"
  by (simp_all add: with_held_def intr_get_def r_sstatus_def cong: if_cong)

lemma disk_upd_frame [simp]:
  "lock_free k (s\<lparr>bufs := B\<rparr>) = lock_free k s" "lock_free k (s\<lparr>vio := v\<rparr>) = lock_free k s" "lock_free k (s\<lparr>vd_free := fr\<rparr>) = lock_free k s"
  "lock_free k (s\<lparr>vd_used_idx := u\<rparr>) = lock_free k s" "lock_free k (s\<lparr>vd_info_b := i\<rparr>) = lock_free k s" "lock_free k (s\<lparr>virtio_writes := w\<rparr>) = lock_free k s"
  "proc_locks_free (s\<lparr>bufs := B\<rparr>) = proc_locks_free s" "proc_locks_free (s\<lparr>vio := v\<rparr>) = proc_locks_free s" "proc_locks_free (s\<lparr>vd_free := fr\<rparr>) = proc_locks_free s"
  "proc_locks_free (s\<lparr>vd_used_idx := u\<rparr>) = proc_locks_free s" "proc_locks_free (s\<lparr>vd_info_b := i\<rparr>) = proc_locks_free s" "proc_locks_free (s\<lparr>virtio_writes := w\<rparr>) = proc_locks_free s"
  "mlfq_good (s\<lparr>bufs := B\<rparr>) = mlfq_good s" "mlfq_good (s\<lparr>vio := v\<rparr>) = mlfq_good s" "mlfq_good (s\<lparr>vd_free := fr\<rparr>) = mlfq_good s"
  "mlfq_good (s\<lparr>vd_used_idx := u\<rparr>) = mlfq_good s" "mlfq_good (s\<lparr>vd_info_b := i\<rparr>) = mlfq_good s" "mlfq_good (s\<lparr>virtio_writes := w\<rparr>) = mlfq_good s"
  "level_of (s\<lparr>bufs := B\<rparr>) = level_of s" "level_of (s\<lparr>vio := v\<rparr>) = level_of s" "level_of (s\<lparr>vd_free := fr\<rparr>) = level_of s"
  "level_of (s\<lparr>vd_used_idx := u\<rparr>) = level_of s" "level_of (s\<lparr>vd_info_b := i\<rparr>) = level_of s" "level_of (s\<lparr>virtio_writes := w\<rparr>) = level_of s"
  "wakes (s\<lparr>bufs := B\<rparr>) = wakes s" "wakes (s\<lparr>vio := v\<rparr>) = wakes s" "wakes (s\<lparr>vd_free := fr\<rparr>) = wakes s"
  "wakes (s\<lparr>vd_used_idx := u\<rparr>) = wakes s" "wakes (s\<lparr>vd_info_b := i\<rparr>) = wakes s" "wakes (s\<lparr>virtio_writes := w\<rparr>) = wakes s"
  "mlfq_list (s\<lparr>bufs := B\<rparr>) = mlfq_list s" "mlfq_list (s\<lparr>vio := v\<rparr>) = mlfq_list s" "mlfq_list (s\<lparr>vd_free := fr\<rparr>) = mlfq_list s"
  "mlfq_list (s\<lparr>vd_used_idx := u\<rparr>) = mlfq_list s" "mlfq_list (s\<lparr>vd_info_b := i\<rparr>) = mlfq_list s" "mlfq_list (s\<lparr>virtio_writes := w\<rparr>) = mlfq_list s"
  by (simp_all add: lock_free_def proc_locks_free_def mlfq_good_def mlfq_ok_def mlfq_list_def level_of_def wakes_def
      fun_eq_iff)

lemma disk_op_with_held [lock_simps]:
  "upd_buf b f (with_held H s) = with_held H (upd_buf b f s)"
  "upd_vio g (with_held H s) = with_held H (upd_vio g s)"
  "set_desc i d (with_held H s) = with_held H (set_desc i d s)"
  "R_write r v (with_held H s) = with_held H (R_write r v s)"
  "R_read r (with_held H s) = R_read r s"
  by (simp_all add: upd_buf_def upd_vio_def set_desc_def R_write_def R_read_def lock_simps)

end
