(* ===== verification/Bio.thy ===== *)
theory Bio
  imports Virtio
begin

text \<open>
  The buffer cache, \<open>kernel/bio.c\<close>.  The list of buffers is kept in the \<open>prev\<close> and \<open>next\<close> fields, with
  index \<open>NBUF\<close> for \<open>bcache.head\<close>; \<open>head.next\<close> is the most recently used buffer.
\<close>

definition bhead :: nat where "bhead = NBUF"

primrec binit_loop :: "nat list \<Rightarrow> 'a disk_state_scheme \<Rightarrow> 'a disk_state_scheme" where
  "binit_loop [] s = s"
| "binit_loop (b # bs) s =
     (let s = upd_buf b (\<lambda>x. x\<lparr>b_next := b_next (bufs s bhead)\<rparr>) s;
          s = upd_buf b (\<lambda>x. x\<lparr>b_prev := bhead\<rparr>) s;
          s = initsleeplock (BufSL b) ''buffer'' s;
          s = upd_buf (b_next (bufs s bhead)) (\<lambda>x. x\<lparr>b_prev := b\<rparr>) s;
          s = upd_buf bhead (\<lambda>x. x\<lparr>b_next := b\<rparr>) s
      in binit_loop bs s)"

definition binit :: "'a disk_state_scheme \<Rightarrow> 'a disk_state_scheme" where
  "binit s =
     (let s = initlock BcacheLock ''bcache'' s;
          s = upd_buf bhead (\<lambda>x. x\<lparr>b_prev := bhead\<rparr>) s;
          s = upd_buf bhead (\<lambda>x. x\<lparr>b_next := bhead\<rparr>) s
      in binit_loop [0..<NBUF] s)"

text \<open>
  The two loops over the list.  They follow the pointers; the first argument bounds the rounds by the
  number of list cells, and \<open>NoFuel\<close> stands for a list that never comes back to its head.
\<close>

primrec bget_find ::
    "nat \<Rightarrow> nat \<Rightarrow> u32 \<Rightarrow> u32 \<Rightarrow> 'a disk_state_scheme \<Rightarrow> ('a disk_state_scheme, nat option) outcome" where
  "bget_find 0 b dev blockno s = (if b = bhead then Ret None s else NoFuel)"
| "bget_find (Suc k) b dev blockno s =
     (if b = bhead then Ret None s
      else if b_dev (bufs s b) = dev \<and> b_blockno (bufs s b) = blockno
      then Ret (Some b) (upd_buf b (\<lambda>x. x\<lparr>b_refcnt := b_refcnt x + 1\<rparr>) s)
      else bget_find k (b_next (bufs s b)) dev blockno s)"

primrec bget_recycle ::
    "nat \<Rightarrow> nat \<Rightarrow> u32 \<Rightarrow> u32 \<Rightarrow> 'a disk_state_scheme \<Rightarrow> ('a disk_state_scheme, nat option) outcome" where
  "bget_recycle 0 b dev blockno s = (if b = bhead then Ret None s else NoFuel)"
| "bget_recycle (Suc k) b dev blockno s =
     (if b = bhead then Ret None s
      else if b_refcnt (bufs s b) = 0
      then Ret (Some b) (upd_buf b (\<lambda>x. x\<lparr>b_dev := dev, b_blockno := blockno, b_valid := 0, b_refcnt := 1\<rparr>) s)
      else bget_recycle k (b_prev (bufs s b)) dev blockno s)"

definition bget :: "u32 \<Rightarrow> u32 \<Rightarrow> 'a disk_state_scheme \<Rightarrow> ('a disk_state_scheme, nat) outcome" where
  "bget dev blockno s =
     bnd (acquire BcacheLock s) (\<lambda>_ s.
     bnd (bget_find NBUF (b_next (bufs s bhead)) dev blockno s) (\<lambda>found s.
     case found of
       Some b \<Rightarrow>
         bnd (release BcacheLock s) (\<lambda>_ s.
         bnd (acquiresleep (BufSL b) s) (\<lambda>_ s. Ret b s))
     | None \<Rightarrow>
         bnd (bget_recycle NBUF (b_prev (bufs s bhead)) dev blockno s) (\<lambda>found s.
         case found of
           Some b \<Rightarrow>
             bnd (release BcacheLock s) (\<lambda>_ s.
             bnd (acquiresleep (BufSL b) s) (\<lambda>_ s. Ret b s))
         | None \<Rightarrow> Panic ''bget: no buffers'')))"

definition bread :: "u32 \<Rightarrow> u32 \<Rightarrow> 'a disk_state_scheme \<Rightarrow> ('a disk_state_scheme, nat) outcome" where
  "bread dev blockno s =
     bnd (bget dev blockno s) (\<lambda>b s.
     if b_valid (bufs s b) = 0
     then bnd (virtio_disk_rw b False s) (\<lambda>_ s. Ret b (upd_buf b (\<lambda>x. x\<lparr>b_valid := 1\<rparr>) s))
     else Ret b s)"

definition bwrite :: "nat \<Rightarrow> 'a disk_state_scheme \<Rightarrow> ('a disk_state_scheme, unit) outcome" where
  "bwrite b s =
     bnd (holdingsleep (BufSL b) s) (\<lambda>h s.
     if \<not> h then Panic ''bwrite'' else virtio_disk_rw b True s)"

definition brelse_move :: "nat \<Rightarrow> 'a disk_state_scheme \<Rightarrow> 'a disk_state_scheme" where
  "brelse_move b s =
     (let s = upd_buf (b_next (bufs s b)) (\<lambda>x. x\<lparr>b_prev := b_prev (bufs s b)\<rparr>) s;
          s = upd_buf (b_prev (bufs s b)) (\<lambda>x. x\<lparr>b_next := b_next (bufs s b)\<rparr>) s;
          s = upd_buf b (\<lambda>x. x\<lparr>b_next := b_next (bufs s bhead)\<rparr>) s;
          s = upd_buf b (\<lambda>x. x\<lparr>b_prev := bhead\<rparr>) s;
          s = upd_buf (b_next (bufs s bhead)) (\<lambda>x. x\<lparr>b_prev := b\<rparr>) s
      in upd_buf bhead (\<lambda>x. x\<lparr>b_next := b\<rparr>) s)"

definition brelse :: "nat \<Rightarrow> 'a disk_state_scheme \<Rightarrow> ('a disk_state_scheme, unit) outcome" where
  "brelse b s =
     bnd (holdingsleep (BufSL b) s) (\<lambda>h s.
     if \<not> h then Panic ''brelse''
     else bnd (releasesleep (BufSL b) s) (\<lambda>_ s.
          bnd (acquire BcacheLock s) (\<lambda>_ s.
          let s = upd_buf b (\<lambda>x. x\<lparr>b_refcnt := b_refcnt x - 1\<rparr>) s;
              s = (if b_refcnt (bufs s b) = 0 then brelse_move b s else s)
          in release BcacheLock s)))"

definition bpin :: "nat \<Rightarrow> 'a disk_state_scheme \<Rightarrow> ('a disk_state_scheme, unit) outcome" where
  "bpin b s =
     bnd (acquire BcacheLock s) (\<lambda>_ s.
     release BcacheLock (upd_buf b (\<lambda>x. x\<lparr>b_refcnt := b_refcnt x + 1\<rparr>) s))"

definition bunpin :: "nat \<Rightarrow> 'a disk_state_scheme \<Rightarrow> ('a disk_state_scheme, unit) outcome" where
  "bunpin b s =
     bnd (acquire BcacheLock s) (\<lambda>_ s.
     release BcacheLock (upd_buf b (\<lambda>x. x\<lparr>b_refcnt := b_refcnt x - 1\<rparr>) s))"

end
