(* ===== verification/Log.thy ===== *)
theory Log
  imports Bio
begin

text \<open>
  The redo log, \<open>kernel/log.c\<close>.  \<open>log_lh_block\<close> is the array \<open>log.lh.block\<close>, an access past its \<open>LOGSIZE\<close>
  entries is the outcome \<open>Undef\<close>.
\<close>

section \<open>Numbers in blocks\<close>

text \<open>Little-endian fields of a block, as the C code reads them through structure pointers.\<close>

definition get_le :: "nat \<Rightarrow> nat \<Rightarrow> u8 list \<Rightarrow> nat" where
  "get_le k off bs = (\<Sum>i < k. unat (bs ! (off + i)) * 256 ^ i)"

definition le_bytes :: "nat \<Rightarrow> nat \<Rightarrow> u8 list" where
  "le_bytes k v = map (\<lambda>i. of_nat (v div 256 ^ i)) [0..<k]"

definition put_bytes_at :: "nat \<Rightarrow> u8 list \<Rightarrow> u8 list \<Rightarrow> u8 list" where
  "put_bytes_at off xs bs = take off bs @ xs @ drop (off + length xs) bs"

definition get32 :: "nat \<Rightarrow> u8 list \<Rightarrow> u32" where
  "get32 off bs = of_nat (get_le 4 off bs)"

definition put32 :: "nat \<Rightarrow> u32 \<Rightarrow> u8 list \<Rightarrow> u8 list" where
  "put32 off v bs = put_bytes_at off (le_bytes 4 (unat v)) bs"

definition get16 :: "nat \<Rightarrow> u8 list \<Rightarrow> u16" where
  "get16 off bs = of_nat (get_le 2 off bs)"

definition put16 :: "nat \<Rightarrow> u16 \<Rightarrow> u8 list \<Rightarrow> u8 list" where
  "put16 off v bs = put_bytes_at off (le_bytes 2 (unat v)) bs"

section \<open>State\<close>

definition LOGSIZE :: nat where "LOGSIZE = MAXOPBLOCKS * 3"

record log_state = disk_state +
  log_start :: i32
  log_size :: i32
  log_outstanding :: i32
  log_committing :: i32
  log_dev :: i32
  log_lh_n :: i32
  log_lh_block :: "nat \<Rightarrow> i32"

record superblock =
  sb_magic :: u32
  sb_size :: u32
  sb_nblocks :: u32
  sb_ninodes :: u32
  sb_nlog :: u32
  sb_logstart :: u32
  sb_inodestart :: u32
  sb_bmapstart :: u32

definition bdata :: "nat \<Rightarrow> 'a disk_state_scheme \<Rightarrow> u8 list" where
  "bdata b s = b_data (vio s) b"

definition set_bdata :: "nat \<Rightarrow> u8 list \<Rightarrow> 'a disk_state_scheme \<Rightarrow> 'a disk_state_scheme" where
  "set_bdata b xs s = upd_vio (\<lambda>v. v\<lparr>b_data := (b_data v)(b := xs)\<rparr>) s"

section \<open>Installing and recovering\<close>

definition log_len :: "'a log_state_scheme \<Rightarrow> nat" where
  "log_len s = nat (sint (log_lh_n s))"

fun install_trans_loop :: "nat list \<Rightarrow> bool \<Rightarrow> 'a log_state_scheme \<Rightarrow> ('a log_state_scheme, unit) outcome" where
  "install_trans_loop [] recovering s = Ret () s"
| "install_trans_loop (tail # ts) recovering s =
     bnd (bread (log_dev s) (log_start s + of_nat tail + 1) s) (\<lambda>lbuf s.
     if tail \<ge> LOGSIZE then Undef
     else bnd (bread (log_dev s) (log_lh_block s tail) s) (\<lambda>dbuf s.
          let s = set_bdata dbuf (bdata lbuf s) s
          in bnd (bwrite dbuf s) (\<lambda>_ s.
             bnd (if \<not> recovering then bunpin dbuf s else Ret () s) (\<lambda>_ s.
             bnd (brelse lbuf s) (\<lambda>_ s.
             bnd (brelse dbuf s) (\<lambda>_ s.
             install_trans_loop ts recovering s))))))"

definition install_trans :: "bool \<Rightarrow> 'a log_state_scheme \<Rightarrow> ('a log_state_scheme, unit) outcome" where
  "install_trans recovering s = install_trans_loop [0..<log_len s] recovering s"

definition read_head :: "'a log_state_scheme \<Rightarrow> ('a log_state_scheme, unit) outcome" where
  "read_head s =
     bnd (bread (log_dev s) (log_start s) s) (\<lambda>buf s.
     let n = get32 0 (bdata buf s);
         s = s\<lparr>log_lh_n := n\<rparr> in
     if log_len s > LOGSIZE then Undef
     else let s = s\<lparr>log_lh_block := (\<lambda>i. if i < log_len s then get32 (4 + 4 * i) (bdata buf s) else log_lh_block s i)\<rparr>
          in brelse buf s)"

definition write_head :: "'a log_state_scheme \<Rightarrow> ('a log_state_scheme, unit) outcome" where
  "write_head s =
     bnd (bread (log_dev s) (log_start s) s) (\<lambda>buf s.
     if log_len s > LOGSIZE then Undef
     else let hb = put32 0 (log_lh_n s) (bdata buf s);
              hb = fold (\<lambda>i hb. put32 (4 + 4 * i) (log_lh_block s i) hb) [0..<log_len s] hb;
              s = set_bdata buf hb s
          in bnd (bwrite buf s) (\<lambda>_ s. brelse buf s))"

definition recover_from_log :: "'a log_state_scheme \<Rightarrow> ('a log_state_scheme, unit) outcome" where
  "recover_from_log s =
     bnd (read_head s) (\<lambda>_ s.
     bnd (install_trans True s) (\<lambda>_ s.
     write_head (s\<lparr>log_lh_n := 0\<rparr>)))"

text \<open>The size of \<open>struct logheader\<close> is \<open>4 + 4 * LOGSIZE\<close> bytes.\<close>

definition initlog :: "i32 \<Rightarrow> superblock \<Rightarrow> 'a log_state_scheme \<Rightarrow> ('a log_state_scheme, unit) outcome" where
  "initlog dev sb s =
     (if 4 + 4 * LOGSIZE \<ge> BSIZE then Panic ''initlog: too big logheader''
      else let s = initlock LogLock ''log'' s;
               s = s\<lparr>log_start := sb_logstart sb, log_size := sb_nlog sb, log_dev := dev\<rparr>
           in recover_from_log s)"

section \<open>Committing\<close>

fun write_log_loop :: "nat list \<Rightarrow> 'a log_state_scheme \<Rightarrow> ('a log_state_scheme, unit) outcome" where
  "write_log_loop [] s = Ret () s"
| "write_log_loop (tail # ts) s =
     bnd (bread (log_dev s) (log_start s + of_nat tail + 1) s) (\<lambda>to s.
     if tail \<ge> LOGSIZE then Undef
     else bnd (bread (log_dev s) (log_lh_block s tail) s) (\<lambda>from s.
          let s = set_bdata to (bdata from s) s
          in bnd (bwrite to s) (\<lambda>_ s.
             bnd (brelse from s) (\<lambda>_ s.
             bnd (brelse to s) (\<lambda>_ s.
             write_log_loop ts s)))))"

definition write_log :: "'a log_state_scheme \<Rightarrow> ('a log_state_scheme, unit) outcome" where
  "write_log s = write_log_loop [0..<log_len s] s"

definition commit :: "'a log_state_scheme \<Rightarrow> ('a log_state_scheme, unit) outcome" where
  "commit s =
     (if 0 <s log_lh_n s
      then bnd (write_log s) (\<lambda>_ s.
           bnd (write_head s) (\<lambda>_ s.
           bnd (install_trans False s) (\<lambda>_ s.
           write_head (s\<lparr>log_lh_n := 0\<rparr>))))
      else Ret () s)"

section \<open>Operations\<close>

function begin_op_loop :: "'a log_state_scheme \<Rightarrow> ('a log_state_scheme, unit) outcome" where
  "begin_op_loop s =
     (if log_committing s \<noteq> 0 then bnd (sleep LogChan LogLock s) (\<lambda>_ s. begin_op_loop s)
      else if of_nat LOGSIZE <s log_lh_n s + (log_outstanding s + 1) * of_nat MAXOPBLOCKS
      then bnd (sleep LogChan LogLock s) (\<lambda>_ s. begin_op_loop s)
      else release LogLock (s\<lparr>log_outstanding := log_outstanding s + 1\<rparr>))"
  by pat_completeness auto
termination by (relation "{}") (auto simp: sleep_not_Ret)

declare begin_op_loop.simps [simp del]

definition begin_op :: "'a log_state_scheme \<Rightarrow> ('a log_state_scheme, unit) outcome" where
  "begin_op s = bnd (acquire LogLock s) (\<lambda>_ s. begin_op_loop s)"

definition end_op :: "'a log_state_scheme \<Rightarrow> ('a log_state_scheme, unit) outcome" where
  "end_op s =
     bnd (acquire LogLock s) (\<lambda>_ s.
     let s = s\<lparr>log_outstanding := log_outstanding s - 1\<rparr> in
     if log_committing s \<noteq> 0 then Panic ''log.committing''
     else let do_commit = log_outstanding s = 0 in
     bnd (if do_commit then Ret () (s\<lparr>log_committing := 1\<rparr>) else wakeup (Some LogChan) s) (\<lambda>_ s.
     bnd (release LogLock s) (\<lambda>_ s.
     if do_commit
     then bnd (commit s) (\<lambda>_ s.
          bnd (acquire LogLock s) (\<lambda>_ s.
          bnd (wakeup (Some LogChan) (s\<lparr>log_committing := 0\<rparr>)) (\<lambda>_ s.
          release LogLock s)))
     else Ret () s)))"

text \<open>The first index of the header that holds the block number, or \<open>log.lh.n\<close>.\<close>

fun log_index :: "nat list \<Rightarrow> i32 \<Rightarrow> 'a log_state_scheme \<Rightarrow> nat" where
  "log_index [] blockno s = log_len s"
| "log_index (i # is) blockno s = (if log_lh_block s i = blockno then i else log_index is blockno s)"

definition log_write :: "nat \<Rightarrow> 'a log_state_scheme \<Rightarrow> ('a log_state_scheme, unit) outcome" where
  "log_write b s =
     bnd (acquire LogLock s) (\<lambda>_ s.
     if of_nat LOGSIZE \<le>s log_lh_n s \<or> log_size s - 1 \<le>s log_lh_n s then Panic ''too big a transaction''
     else if log_outstanding s <s 1 then Panic ''log_write outside of trans''
     else let i = log_index [0..<log_len s] (b_blockno (bufs s b)) s;
              s = s\<lparr>log_lh_block := (log_lh_block s)(i := b_blockno (bufs s b))\<rparr>
          in bnd (if i = log_len s
                  then bnd (bpin b s) (\<lambda>_ s. Ret () (s\<lparr>log_lh_n := log_lh_n s + 1\<rparr>))
                  else Ret () s) (\<lambda>_ s.
             release LogLock s))"

end
