(* ===== verification/Fs.thy ===== *)
theory Fs
  imports Log
begin

text \<open>
  Blocks, inodes and file contents, \<open>kernel/fs.c\<close> up to \<open>writei\<close>.  \<open>inodes i\<close> is \<open>itable.inode[i]\<close>
  without its sleep-lock \<open>InodeSL i\<close>.
\<close>

section \<open>State\<close>

definition NINODE :: nat where "NINODE = 50"
definition ROOTDEV :: u32 where "ROOTDEV = 1"
definition ROOTINO :: u32 where "ROOTINO = 1"
definition FSMAGIC :: u32 where "FSMAGIC = 0x10203040"
definition NDIRECT :: nat where "NDIRECT = 12"
definition NINDIRECT :: nat where "NINDIRECT = BSIZE div 4"
definition MAXFILE :: nat where "MAXFILE = NDIRECT + NINDIRECT"
definition IPB :: nat where "IPB = BSIZE div 64"
definition BPB :: nat where "BPB = BSIZE * 8"
definition T_DIR :: u16 where "T_DIR = 1"
definition T_FILE :: u16 where "T_FILE = 2"
definition T_DEVICE :: u16 where "T_DEVICE = 3"

record inode =
  i_dev :: u32
  i_inum :: u32
  i_ref :: i32
  i_valid :: i32
  i_type :: u16
  i_major :: u16
  i_minor :: u16
  i_nlink :: u16
  i_size :: u32
  i_addrs :: "nat \<Rightarrow> u32"

record fs_state = log_state +
  sb :: superblock
  inodes :: "nat \<Rightarrow> inode"

definition upd_inode :: "nat \<Rightarrow> (inode \<Rightarrow> inode) \<Rightarrow> 'a fs_state_scheme \<Rightarrow> 'a fs_state_scheme" where
  "upd_inode ip f s = s\<lparr>inodes := (inodes s)(ip := f (inodes s ip))\<rparr>"

definition IBLOCK :: "u32 \<Rightarrow> superblock \<Rightarrow> u32" where
  "IBLOCK i x = i div of_nat IPB + sb_inodestart x"

definition BBLOCK :: "u32 \<Rightarrow> superblock \<Rightarrow> u32" where
  "BBLOCK b x = b div of_nat BPB + sb_bmapstart x"

definition newline :: string where "newline = [CHR 10]"

section \<open>The superblock\<close>

definition superblock_of :: "u8 list \<Rightarrow> superblock" where
  "superblock_of bs = \<lparr>sb_magic = get32 0 bs, sb_size = get32 4 bs, sb_nblocks = get32 8 bs, sb_ninodes = get32 12 bs,
     sb_nlog = get32 16 bs, sb_logstart = get32 20 bs, sb_inodestart = get32 24 bs, sb_bmapstart = get32 28 bs\<rparr>"

definition readsb :: "i32 \<Rightarrow> 'a fs_state_scheme \<Rightarrow> ('a fs_state_scheme, unit) outcome" where
  "readsb dev s =
     bnd (bread dev 1 s) (\<lambda>bp s. brelse bp (s\<lparr>sb := superblock_of (bdata bp s)\<rparr>))"

definition fsinit :: "i32 \<Rightarrow> 'a fs_state_scheme \<Rightarrow> ('a fs_state_scheme, unit) outcome" where
  "fsinit dev s =
     bnd (readsb dev s) (\<lambda>_ s.
     if sb_magic (sb s) \<noteq> FSMAGIC then Panic ''invalid file system''
     else initlog dev (sb s) s)"

section \<open>Blocks\<close>

definition bzero :: "i32 \<Rightarrow> i32 \<Rightarrow> 'a log_state_scheme \<Rightarrow> ('a log_state_scheme, unit) outcome" where
  "bzero dev bno s =
     bnd (bread dev bno s) (\<lambda>bp s.
     bnd (log_write bp (set_bdata bp (replicate BSIZE 0) s)) (\<lambda>_ s. brelse bp s))"

definition bit_mask :: "nat \<Rightarrow> u8" where
  "bit_mask bi = push_bit (bi mod 8) 1"

definition bit_used :: "u8 list \<Rightarrow> nat \<Rightarrow> bool" where
  "bit_used bs bi \<longleftrightarrow> bs ! (bi div 8) AND bit_mask bi \<noteq> 0"

definition set_bit_used :: "nat \<Rightarrow> u8 list \<Rightarrow> u8 list" where
  "set_bit_used bi bs = bs[bi div 8 := bs ! (bi div 8) OR bit_mask bi]"

definition clear_bit_used :: "nat \<Rightarrow> u8 list \<Rightarrow> u8 list" where
  "clear_bit_used bi bs = bs[bi div 8 := bs ! (bi div 8) AND NOT (bit_mask bi)]"

text \<open>The inner loop of \<open>balloc\<close>: the first clear bit of the bitmap block for block \<open>b\<close> on.\<close>

fun balloc_scan :: "nat list \<Rightarrow> nat \<Rightarrow> nat \<Rightarrow> u8 list \<Rightarrow> nat option" where
  "balloc_scan [] b sz bs = None"
| "balloc_scan (bi # bis) b sz bs =
     (if \<not> b + bi < sz then None
      else if \<not> bit_used bs bi then Some bi
      else balloc_scan bis b sz bs)"

fun balloc_loop :: "nat list \<Rightarrow> u32 \<Rightarrow> 'a fs_state_scheme \<Rightarrow> ('a fs_state_scheme, u32) outcome" where
  "balloc_loop [] dev s = bnd (printf (''balloc: out of blocks'' @ newline) [] s) (\<lambda>_ s. Ret 0 s)"
| "balloc_loop (b # bs) dev s =
     bnd (bread dev (BBLOCK (of_nat b) (sb s)) s) (\<lambda>bp s.
     case balloc_scan [0..<BPB] b (unat (sb_size (sb s))) (bdata bp s) of
       Some bi \<Rightarrow>
         bnd (log_write bp (set_bdata bp (set_bit_used bi (bdata bp s)) s)) (\<lambda>_ s.
         bnd (brelse bp s) (\<lambda>_ s.
         bnd (bzero dev (of_nat (b + bi)) s) (\<lambda>_ s. Ret (of_nat (b + bi)) s)))
     | None \<Rightarrow> bnd (brelse bp s) (\<lambda>_ s. balloc_loop bs dev s))"

text \<open>The values of \<open>b\<close>: the multiples of \<open>BPB\<close> below \<open>sb.size\<close>.\<close>

definition balloc :: "u32 \<Rightarrow> 'a fs_state_scheme \<Rightarrow> ('a fs_state_scheme, u32) outcome" where
  "balloc dev s = balloc_loop (map (\<lambda>k. k * BPB) [0..<(unat (sb_size (sb s)) + BPB - 1) div BPB]) dev s"

definition bfree :: "i32 \<Rightarrow> u32 \<Rightarrow> 'a fs_state_scheme \<Rightarrow> ('a fs_state_scheme, unit) outcome" where
  "bfree dev b s =
     bnd (bread dev (BBLOCK b (sb s)) s) (\<lambda>bp s.
     let bi = unat b mod BPB in
     if \<not> bit_used (bdata bp s) bi then Panic ''freeing free block''
     else bnd (log_write bp (set_bdata bp (clear_bit_used bi (bdata bp s)) s)) (\<lambda>_ s. brelse bp s))"

section \<open>Inodes\<close>

primrec iinit_loop :: "nat list \<Rightarrow> 'a sync_state_scheme \<Rightarrow> 'a sync_state_scheme" where
  "iinit_loop [] s = s"
| "iinit_loop (i # is) s = iinit_loop is (initsleeplock (InodeSL i) ''inode'' s)"

definition iinit :: "'a sync_state_scheme \<Rightarrow> 'a sync_state_scheme" where
  "iinit s = iinit_loop [0..<NINODE] (initlock ItableLock ''itable'' s)"

text \<open>The loop of \<open>iget\<close>: the entry for the inode, or the first empty one.\<close>

fun iget_scan :: "nat list \<Rightarrow> u32 \<Rightarrow> u32 \<Rightarrow> nat option \<Rightarrow> (nat \<Rightarrow> inode) \<Rightarrow> nat option \<times> nat option" where
  "iget_scan [] dev inum emp t = (None, emp)"
| "iget_scan (ip # ips) dev inum emp t =
     (if 0 <s i_ref (t ip) \<and> i_dev (t ip) = dev \<and> i_inum (t ip) = inum then (Some ip, emp)
      else iget_scan ips dev inum (if emp = None \<and> i_ref (t ip) = 0 then Some ip else emp) t)"

definition iget :: "u32 \<Rightarrow> u32 \<Rightarrow> 'a fs_state_scheme \<Rightarrow> ('a fs_state_scheme, nat) outcome" where
  "iget dev inum s =
     bnd (acquire ItableLock s) (\<lambda>_ s.
     case iget_scan [0..<NINODE] dev inum None (inodes s) of
       (Some ip, _) \<Rightarrow>
         bnd (release ItableLock (upd_inode ip (\<lambda>x. x\<lparr>i_ref := i_ref x + 1\<rparr>) s)) (\<lambda>_ s. Ret ip s)
     | (None, None) \<Rightarrow> Panic ''iget: no inodes''
     | (None, Some ip) \<Rightarrow>
         bnd (release ItableLock
               (upd_inode ip (\<lambda>x. x\<lparr>i_dev := dev, i_inum := inum, i_ref := 1, i_valid := 0\<rparr>) s)) (\<lambda>_ s. Ret ip s))"

definition dinode_off :: "u32 \<Rightarrow> nat" where
  "dinode_off inum = 64 * (unat inum mod IPB)"

fun ialloc_loop :: "nat list \<Rightarrow> u32 \<Rightarrow> u16 \<Rightarrow> 'a fs_state_scheme \<Rightarrow> ('a fs_state_scheme, nat option) outcome" where
  "ialloc_loop [] dev type s = bnd (printf (''ialloc: no inodes'' @ newline) [] s) (\<lambda>_ s. Ret None s)"
| "ialloc_loop (n # ns) dev type s =
     (let inum = of_nat n in
      bnd (bread dev (IBLOCK inum (sb s)) s) (\<lambda>bp s.
      if get16 (dinode_off inum) (bdata bp s) = 0
      then let d = put_bytes_at (dinode_off inum) (replicate 64 0) (bdata bp s);
               d = put16 (dinode_off inum) type d
           in bnd (log_write bp (set_bdata bp d s)) (\<lambda>_ s.
              bnd (brelse bp s) (\<lambda>_ s.
              bnd (iget dev inum s) (\<lambda>ip s. Ret (Some ip) s)))
      else bnd (brelse bp s) (\<lambda>_ s. ialloc_loop ns dev type s)))"

definition ialloc :: "u32 \<Rightarrow> u16 \<Rightarrow> 'a fs_state_scheme \<Rightarrow> ('a fs_state_scheme, nat option) outcome" where
  "ialloc dev type s = ialloc_loop [1..<unat (sb_ninodes (sb s))] dev type s"

definition dinode_put :: "inode \<Rightarrow> u8 list \<Rightarrow> u8 list" where
  "dinode_put x d =
     (let off = dinode_off (i_inum x);
          d = put16 off (i_type x) d;
          d = put16 (off + 2) (i_major x) d;
          d = put16 (off + 4) (i_minor x) d;
          d = put16 (off + 6) (i_nlink x) d;
          d = put32 (off + 8) (i_size x) d
      in fold (\<lambda>k d. put32 (off + 12 + 4 * k) (i_addrs x k) d) [0..<NDIRECT + 1] d)"

definition dinode_get :: "u8 list \<Rightarrow> inode \<Rightarrow> inode" where
  "dinode_get d x =
     (let off = dinode_off (i_inum x)
      in x\<lparr>i_type := get16 off d, i_major := get16 (off + 2) d, i_minor := get16 (off + 4) d,
           i_nlink := get16 (off + 6) d, i_size := get32 (off + 8) d,
           i_addrs := (\<lambda>k. if k < NDIRECT + 1 then get32 (off + 12 + 4 * k) d else i_addrs x k)\<rparr>)"

definition iupdate :: "nat \<Rightarrow> 'a fs_state_scheme \<Rightarrow> ('a fs_state_scheme, unit) outcome" where
  "iupdate ip s =
     bnd (bread (i_dev (inodes s ip)) (IBLOCK (i_inum (inodes s ip)) (sb s)) s) (\<lambda>bp s.
     bnd (log_write bp (set_bdata bp (dinode_put (inodes s ip) (bdata bp s)) s)) (\<lambda>_ s. brelse bp s))"

definition idup :: "nat \<Rightarrow> 'a fs_state_scheme \<Rightarrow> ('a fs_state_scheme, nat) outcome" where
  "idup ip s =
     bnd (acquire ItableLock s) (\<lambda>_ s.
     bnd (release ItableLock (upd_inode ip (\<lambda>x. x\<lparr>i_ref := i_ref x + 1\<rparr>) s)) (\<lambda>_ s. Ret ip s))"

definition ilock_load :: "nat \<Rightarrow> 'a fs_state_scheme \<Rightarrow> ('a fs_state_scheme, unit) outcome" where
  "ilock_load ip s =
     bnd (bread (i_dev (inodes s ip)) (IBLOCK (i_inum (inodes s ip)) (sb s)) s) (\<lambda>bp s.
     let s = upd_inode ip (dinode_get (bdata bp s)) s
     in bnd (brelse bp s) (\<lambda>_ s.
        let s = upd_inode ip (\<lambda>x. x\<lparr>i_valid := 1\<rparr>) s
        in if i_type (inodes s ip) = 0 then Panic ''ilock: no type'' else Ret () s))"

text \<open>\<open>ilock\<close> and \<open>iunlock\<close> check their argument for the null pointer, \<open>None\<close>.\<close>

fun ilock :: "nat option \<Rightarrow> 'a fs_state_scheme \<Rightarrow> ('a fs_state_scheme, unit) outcome" where
  "ilock None s = Panic ''ilock''"
| "ilock (Some ip) s =
     (if i_ref (inodes s ip) <s 1 then Panic ''ilock''
      else bnd (acquiresleep (InodeSL ip) s) (\<lambda>_ s.
           if i_valid (inodes s ip) = 0 then ilock_load ip s else Ret () s))"

fun iunlock :: "nat option \<Rightarrow> 'a fs_state_scheme \<Rightarrow> ('a fs_state_scheme, unit) outcome" where
  "iunlock None s = Panic ''iunlock''"
| "iunlock (Some ip) s =
     bnd (holdingsleep (InodeSL ip) s) (\<lambda>h s.
     if \<not> h \<or> i_ref (inodes s ip) <s 1 then Panic ''iunlock''
     else releasesleep (InodeSL ip) s)"

section \<open>Contents\<close>

definition upd_addr :: "nat \<Rightarrow> nat \<Rightarrow> u32 \<Rightarrow> 'a fs_state_scheme \<Rightarrow> 'a fs_state_scheme" where
  "upd_addr ip k v s = upd_inode ip (\<lambda>x. x\<lparr>i_addrs := (i_addrs x)(k := v)\<rparr>) s"

text \<open>The block number in entry \<open>k\<close> of \<open>ip->addrs\<close>, allocated when it is 0.\<close>

definition bmap_entry :: "nat \<Rightarrow> nat \<Rightarrow> 'a fs_state_scheme \<Rightarrow> ('a fs_state_scheme, u32) outcome" where
  "bmap_entry ip k s =
     (if i_addrs (inodes s ip) k = 0
      then bnd (balloc (i_dev (inodes s ip)) s) (\<lambda>addr s.
           if addr = 0 then Ret 0 s else Ret addr (upd_addr ip k addr s))
      else Ret (i_addrs (inodes s ip) k) s)"

definition bmap :: "nat \<Rightarrow> u32 \<Rightarrow> 'a fs_state_scheme \<Rightarrow> ('a fs_state_scheme, u32) outcome" where
  "bmap ip bn s =
     (if bn < of_nat NDIRECT then bmap_entry ip (unat bn) s
      else let bn = bn - of_nat NDIRECT in
      if bn < of_nat NINDIRECT
      then bnd (bmap_entry ip NDIRECT s) (\<lambda>addr s.
           if addr = 0 then Ret 0 s
           else bnd (bread (i_dev (inodes s ip)) addr s) (\<lambda>bp s.
                let addr = get32 (4 * unat bn) (bdata bp s)
                in bnd (if addr = 0
                        then bnd (balloc (i_dev (inodes s ip)) s) (\<lambda>addr s.
                             if addr \<noteq> 0
                             then bnd (log_write bp (set_bdata bp (put32 (4 * unat bn) addr (bdata bp s)) s)) (\<lambda>_ s.
                                  Ret addr s)
                             else Ret addr s)
                        else Ret addr s) (\<lambda>addr s.
                   bnd (brelse bp s) (\<lambda>_ s. Ret addr s))))
      else Panic ''bmap: out of range'')"

fun itrunc_direct :: "nat list \<Rightarrow> nat \<Rightarrow> 'a fs_state_scheme \<Rightarrow> ('a fs_state_scheme, unit) outcome" where
  "itrunc_direct [] ip s = Ret () s"
| "itrunc_direct (i # is) ip s =
     (if i_addrs (inodes s ip) i \<noteq> 0
      then bnd (bfree (i_dev (inodes s ip)) (i_addrs (inodes s ip) i) s) (\<lambda>_ s.
           itrunc_direct is ip (upd_addr ip i 0 s))
      else itrunc_direct is ip s)"

fun itrunc_indirect :: "nat list \<Rightarrow> nat \<Rightarrow> nat \<Rightarrow> 'a fs_state_scheme \<Rightarrow> ('a fs_state_scheme, unit) outcome" where
  "itrunc_indirect [] ip bp s = Ret () s"
| "itrunc_indirect (j # js) ip bp s =
     (let a = get32 (4 * j) (bdata bp s)
      in if a \<noteq> 0
         then bnd (bfree (i_dev (inodes s ip)) a s) (\<lambda>_ s. itrunc_indirect js ip bp s)
         else itrunc_indirect js ip bp s)"

definition itrunc :: "nat \<Rightarrow> 'a fs_state_scheme \<Rightarrow> ('a fs_state_scheme, unit) outcome" where
  "itrunc ip s =
     bnd (itrunc_direct [0..<NDIRECT] ip s) (\<lambda>_ s.
     bnd (if i_addrs (inodes s ip) NDIRECT \<noteq> 0
          then bnd (bread (i_dev (inodes s ip)) (i_addrs (inodes s ip) NDIRECT) s) (\<lambda>bp s.
               bnd (itrunc_indirect [0..<NINDIRECT] ip bp s) (\<lambda>_ s.
               bnd (brelse bp s) (\<lambda>_ s.
               bnd (bfree (i_dev (inodes s ip)) (i_addrs (inodes s ip) NDIRECT) s) (\<lambda>_ s.
               Ret () (upd_addr ip NDIRECT 0 s)))))
          else Ret () s) (\<lambda>_ s.
     iupdate ip (upd_inode ip (\<lambda>x. x\<lparr>i_size := 0\<rparr>) s)))"

definition iput :: "nat \<Rightarrow> 'a fs_state_scheme \<Rightarrow> ('a fs_state_scheme, unit) outcome" where
  "iput ip s =
     bnd (acquire ItableLock s) (\<lambda>_ s.
     bnd (if i_ref (inodes s ip) = 1 \<and> i_valid (inodes s ip) \<noteq> 0 \<and> i_nlink (inodes s ip) = 0
          then bnd (acquiresleep (InodeSL ip) s) (\<lambda>_ s.
               bnd (release ItableLock s) (\<lambda>_ s.
               bnd (itrunc ip s) (\<lambda>_ s.
               bnd (iupdate ip (upd_inode ip (\<lambda>x. x\<lparr>i_type := 0\<rparr>) s)) (\<lambda>_ s.
               let s = upd_inode ip (\<lambda>x. x\<lparr>i_valid := 0\<rparr>) s
               in bnd (releasesleep (InodeSL ip) s) (\<lambda>_ s.
               acquire ItableLock s)))))
          else Ret () s) (\<lambda>_ s.
     release ItableLock (upd_inode ip (\<lambda>x. x\<lparr>i_ref := i_ref x - 1\<rparr>) s)))"

definition iunlockput :: "nat \<Rightarrow> 'a fs_state_scheme \<Rightarrow> ('a fs_state_scheme, unit) outcome" where
  "iunlockput ip s = bnd (iunlock (Some ip) s) (\<lambda>_ s. iput ip s)"

record stat =
  st_dev :: i32
  st_ino :: u32
  st_type :: u16
  st_nlink :: u16
  st_size :: u64

definition stati :: "nat \<Rightarrow> 'a fs_state_scheme \<Rightarrow> stat" where
  "stati ip s =
     (let x = inodes s ip
      in \<lparr>st_dev = i_dev x, st_ino = i_inum x, st_type = i_type x, st_nlink = i_nlink x, st_size = ucast (i_size x)\<rparr>)"

section \<open>Reading and writing\<close>

text \<open>The number of bytes to transfer in one round: to the end of the block, or what is left.\<close>

definition blk_chunk :: "u32 \<Rightarrow> u32 \<Rightarrow> u32" where
  "blk_chunk left off = (let r = of_nat BSIZE - off mod of_nat BSIZE in if left < r then left else r)"

lemma unat_off_mod: "unat (off mod of_nat BSIZE :: u32) = unat off mod 1024"
  by (simp add: BSIZE_def unat_mod)

lemma blk_chunk_eq: "unat (blk_chunk left off) = min (unat left) (1024 - unat off mod 1024)"
proof -
  have "off mod 1024 \<le> 1024" by (simp add: word_le_nat_alt unat_mod)
  then have "unat (1024 - off mod 1024) = 1024 - unat off mod 1024"
    by (simp add: unat_sub unat_mod)
  then show ?thesis by (simp add: blk_chunk_def BSIZE_def Let_def word_less_nat_alt)
qed

lemma blk_chunk_step:
  assumes "tot < n"
  shows "unat n - unat (tot + blk_chunk (n - tot) off) < unat n - unat tot"
proof -
  have lt: "unat tot < unat n" using assms by (simp add: word_less_nat_alt)
  then have d: "unat (n - tot) = unat n - unat tot" by (simp add: unat_sub word_le_nat_alt)
  have m: "unat (blk_chunk (n - tot) off) = min (unat n - unat tot) (1024 - unat off mod 1024)"
    by (simp add: blk_chunk_eq d)
  then have "0 < unat (blk_chunk (n - tot) off)" using lt by simp
  have "unat tot + unat (blk_chunk (n - tot) off) \<le> unat n" using lt m by simp
  then have "unat tot + unat (blk_chunk (n - tot) off) < 4294967296" by (rule le_less_trans) simp
  then have "unat (tot + blk_chunk (n - tot) off) = unat tot + unat (blk_chunk (n - tot) off)"
    by (simp add: unat_word_ariths)
  then show ?thesis using lt \<open>0 < unat (blk_chunk (n - tot) off)\<close> by simp
qed

text \<open>
  The loop of \<open>readi\<close>.  For a destination that is a variable of the kernel (\<open>ObjDst\<close>) the bytes read are
  part of the result.
\<close>

function readi_loop ::
    "nat \<Rightarrow> copy_dst \<Rightarrow> u32 \<Rightarrow> u32 \<Rightarrow> u32 \<Rightarrow> u8 list \<Rightarrow> 'a fs_state_scheme \<Rightarrow> ('a fs_state_scheme, i32 \<times> u8 list) outcome" where
  "readi_loop ip dst off tot n acc s =
     (if \<not> tot < n then Ret (tot, acc) s
      else bnd (bmap ip (off div of_nat BSIZE) s) (\<lambda>addr s.
           if addr = 0 then Ret (tot, acc) s
           else bnd (bread (i_dev (inodes s ip)) addr s) (\<lambda>bp s.
                let m = blk_chunk (n - tot) off;
                    bs = take (unat m) (drop (unat off mod BSIZE) (bdata bp s))
                in bnd (either_copyout dst bs s) (\<lambda>r s.
                   if r = - 1 then bnd (brelse bp s) (\<lambda>_ s. Ret (- 1, acc) s)
                   else bnd (brelse bp s) (\<lambda>_ s.
                        readi_loop ip (dst_at dst (ucast m)) (off + m) (tot + m) n (acc @ bs) s)))))"
  by pat_completeness auto
termination
  by (relation "measure (\<lambda>(ip, dst, off, tot, n, acc, s). unat n - unat tot)") (auto intro: blk_chunk_step)

declare readi_loop.simps [simp del]

definition readi ::
    "nat \<Rightarrow> copy_dst \<Rightarrow> u32 \<Rightarrow> u32 \<Rightarrow> 'a fs_state_scheme \<Rightarrow> ('a fs_state_scheme, i32 \<times> u8 list) outcome" where
  "readi ip dst off n s =
     (if off > i_size (inodes s ip) \<or> off + n < off then Ret (0, []) s
      else let n = (if off + n > i_size (inodes s ip) then i_size (inodes s ip) - off else n)
           in readi_loop ip dst off 0 n [] s)"

text \<open>
  The loop of \<open>writei\<close>; the result is \<open>tot\<close> and the final \<open>off\<close>.  A \<open>copyin\<close> that fails in the middle of a
  range has already changed the buffer.
\<close>

function writei_loop ::
    "nat \<Rightarrow> copy_src \<Rightarrow> u32 \<Rightarrow> u32 \<Rightarrow> u32 \<Rightarrow> 'a fs_state_scheme \<Rightarrow> ('a fs_state_scheme, u32 \<times> u32) outcome" where
  "writei_loop ip src off tot n s =
     (if \<not> tot < n then Ret (tot, off) s
      else bnd (bmap ip (off div of_nat BSIZE) s) (\<lambda>addr s.
           if addr = 0 then Ret (tot, off) s
           else bnd (bread (i_dev (inodes s ip)) addr s) (\<lambda>bp s.
                let m = blk_chunk (n - tot) off
                in bnd (either_copyin (src_at src (ucast tot)) (ucast m) s) (\<lambda>(r, bs) s.
                   let s = set_bdata bp (put_bytes_at (unat off mod BSIZE) bs (bdata bp s)) s in
                   if r = - 1 then bnd (brelse bp s) (\<lambda>_ s. Ret (tot, off) s)
                   else bnd (log_write bp s) (\<lambda>_ s.
                        bnd (brelse bp s) (\<lambda>_ s.
                        writei_loop ip src (off + m) (tot + m) n s))))))"
  by pat_completeness auto
termination
  by (relation "measure (\<lambda>(ip, src, off, tot, n, s). unat n - unat tot)") (auto intro: blk_chunk_step)

declare writei_loop.simps [simp del]

definition writei ::
    "nat \<Rightarrow> copy_src \<Rightarrow> u32 \<Rightarrow> u32 \<Rightarrow> 'a fs_state_scheme \<Rightarrow> ('a fs_state_scheme, i32) outcome" where
  "writei ip src off n s =
     (if off > i_size (inodes s ip) \<or> off + n < off then Ret (- 1) s
      else if off + n > of_nat (MAXFILE * BSIZE) then Ret (- 1) s
      else bnd (writei_loop ip src off 0 n s) (\<lambda>(tot, off) s.
           let s = (if off > i_size (inodes s ip) then upd_inode ip (\<lambda>x. x\<lparr>i_size := off\<rparr>) s else s)
           in bnd (iupdate ip s) (\<lambda>_ s. Ret tot s)))"

end
