(* ===== verification/Dir.thy ===== *)
theory Dir
  imports Fs
begin

text \<open>
  Directories and path names, the last part of \<open>kernel/fs.c\<close>.  A path is a list of bytes without the
  terminating zero; a name buffer has \<open>DIRSIZ\<close> bytes.
\<close>

definition DIRSIZ :: nat where "DIRSIZ = 14"
definition DIRENT :: nat where "DIRENT = 16"

definition namecmp :: "u8 list \<Rightarrow> u8 list \<Rightarrow> int" where
  "namecmp s t = strncmp s t DIRSIZ"

section \<open>Directories\<close>

text \<open>\<open>struct dirent\<close>: a 16-bit inode number and a name of \<open>DIRSIZ\<close> bytes.\<close>

definition de_inum :: "u8 list \<Rightarrow> u16" where
  "de_inum de = get16 0 de"

definition de_name :: "u8 list \<Rightarrow> u8 list" where
  "de_name de = take DIRSIZ (drop 2 de)"

definition dirent_offs :: "u32 \<Rightarrow> u32 list" where
  "dirent_offs sz = map (\<lambda>k. of_nat (k * DIRENT)) [0..<(unat sz + DIRENT - 1) div DIRENT]"

text \<open>The result of \<open>dirlookup\<close>: the inode and the offset stored in \<open>*poff\<close>.\<close>

fun dirlookup_loop ::
    "u32 list \<Rightarrow> nat \<Rightarrow> u8 list \<Rightarrow> 'a fs_state_scheme \<Rightarrow> ('a fs_state_scheme, (nat \<times> u32) option) outcome" where
  "dirlookup_loop [] dp name s = Ret None s"
| "dirlookup_loop (off # offs) dp name s =
     bnd (readi dp ObjDst off (of_nat DIRENT) s) (\<lambda>(r, de) s.
     if r \<noteq> of_nat DIRENT then Panic ''dirlookup read''
     else if de_inum de = 0 then dirlookup_loop offs dp name s
     else if namecmp name (de_name de) = 0
     then bnd (iget (i_dev (inodes s dp)) (ucast (de_inum de)) s) (\<lambda>ip s. Ret (Some (ip, off)) s)
     else dirlookup_loop offs dp name s)"

definition dirlookup :: "nat \<Rightarrow> u8 list \<Rightarrow> 'a fs_state_scheme \<Rightarrow> ('a fs_state_scheme, (nat \<times> u32) option) outcome" where
  "dirlookup dp name s =
     (if i_type (inodes s dp) \<noteq> T_DIR then Panic ''dirlookup not DIR''
      else dirlookup_loop (dirent_offs (i_size (inodes s dp))) dp name s)"

text \<open>The second loop of \<open>dirlink\<close>: the offset of the first free entry, or the end, and the last entry read.\<close>

fun dirlink_scan ::
    "u32 list \<Rightarrow> nat \<Rightarrow> u8 list \<Rightarrow> 'a fs_state_scheme \<Rightarrow> ('a fs_state_scheme, u32 \<times> u8 list) outcome" where
  "dirlink_scan [] dp de s =
     Ret (of_nat ((unat (i_size (inodes s dp)) + DIRENT - 1) div DIRENT * DIRENT), de) s"
| "dirlink_scan (off # offs) dp de s =
     bnd (readi dp ObjDst off (of_nat DIRENT) s) (\<lambda>(r, de) s.
     if r \<noteq> of_nat DIRENT then Panic ''dirlink read''
     else if de_inum de = 0 then Ret (off, de) s
     else dirlink_scan offs dp de s)"

text \<open>The entry written; \<open>strncpy\<close> fills all of the name.\<close>

definition dirent_of :: "u8 list \<Rightarrow> u32 \<Rightarrow> u8 list \<Rightarrow> u8 list" where
  "dirent_of name inum de = le_bytes 2 (unat (ucast inum :: u16)) @ strncpy (de_name de) name (int DIRSIZ)"

definition dirlink :: "nat \<Rightarrow> u8 list \<Rightarrow> u32 \<Rightarrow> 'a fs_state_scheme \<Rightarrow> ('a fs_state_scheme, i32) outcome" where
  "dirlink dp name inum s =
     bnd (dirlookup dp name s) (\<lambda>r s.
     case r of
       Some (ip, _) \<Rightarrow> bnd (iput ip s) (\<lambda>_ s. Ret (- 1) s)
     | None \<Rightarrow>
         bnd (dirlink_scan (dirent_offs (i_size (inodes s dp))) dp (replicate DIRENT 0) s) (\<lambda>(off, de) s.
         bnd (writei dp (ObjSrc (dirent_of name inum de)) off (of_nat DIRENT) s) (\<lambda>r s.
         if r \<noteq> of_nat DIRENT then Ret (- 1) s else Ret 0 s)))"

section \<open>Paths\<close>

definition slash :: u8 where "slash = 47"

definition skipelem :: "u8 list \<Rightarrow> u8 list \<Rightarrow> (u8 list \<times> u8 list) option" where
  "skipelem path name =
     (let path = dropWhile (\<lambda>c. c = slash) path in
      if path = [] then None
      else let s = takeWhile (\<lambda>c. c \<noteq> slash) path;
               name = (if length s \<ge> DIRSIZ then put_bytes_at 0 (take DIRSIZ s) name
                       else put_bytes_at 0 (s @ [0]) name);
               path = dropWhile (\<lambda>c. c \<noteq> slash) path
           in Some (dropWhile (\<lambda>c. c = slash) path, name))"

lemma skipelem_shorter:
  assumes "skipelem path name = Some (rest, name')"
  shows "length rest < length path"
proof -
  let ?p = "dropWhile (\<lambda>c. c = slash) path"
  have ne: "?p \<noteq> []" using assms by (auto simp: skipelem_def Let_def split: if_splits)
  have r: "rest = dropWhile (\<lambda>c. c = slash) (dropWhile (\<lambda>c. c \<noteq> slash) ?p)"
    using assms ne unfolding skipelem_def Let_def by (simp del: dropWhile_eq_Nil_conv split: if_splits)
  have "length (dropWhile (\<lambda>c. c \<noteq> slash) ?p) < length ?p"
  proof -
    obtain c cs where c: "?p = c # cs" using ne by (cases ?p) auto
    then have "c \<noteq> slash" using hd_dropWhile [OF ne] by simp
    with c show ?thesis using length_dropWhile_le [of _ cs] by (simp add: le_imp_less_Suc)
  qed
  moreover have "length rest \<le> length (dropWhile (\<lambda>c. c \<noteq> slash) ?p)"
    unfolding r by (rule length_dropWhile_le)
  moreover have "length ?p \<le> length path" by (rule length_dropWhile_le)
  ultimately show ?thesis by simp
qed

function namex_loop ::
    "nat \<Rightarrow> u8 list \<Rightarrow> bool \<Rightarrow> u8 list \<Rightarrow> 'a fs_state_scheme \<Rightarrow> ('a fs_state_scheme, nat option \<times> u8 list) outcome" where
  "namex_loop ip path nameiparent name s =
     (case skipelem path name of
        None \<Rightarrow>
          if nameiparent then bnd (iput ip s) (\<lambda>_ s. Ret (None, name) s)
          else Ret (Some ip, name) s
      | Some (path, name) \<Rightarrow>
          bnd (ilock (Some ip) s) (\<lambda>_ s.
          if i_type (inodes s ip) \<noteq> T_DIR
          then bnd (iunlockput ip s) (\<lambda>_ s. Ret (None, name) s)
          else if nameiparent \<and> path = []
          then bnd (iunlock (Some ip) s) (\<lambda>_ s. Ret (Some ip, name) s)
          else bnd (dirlookup ip name s) (\<lambda>r s.
               case r of
                 None \<Rightarrow> bnd (iunlockput ip s) (\<lambda>_ s. Ret (None, name) s)
               | Some (nxt, _) \<Rightarrow>
                   bnd (iunlockput ip s) (\<lambda>_ s. namex_loop nxt path nameiparent name s))))"
  by pat_completeness auto
termination
  by (relation "measure (\<lambda>(ip, path, nameiparent, name, s). length path)") (auto dest: skipelem_shorter)

declare namex_loop.simps [simp del]

definition namex ::
    "u8 list \<Rightarrow> bool \<Rightarrow> u8 list \<Rightarrow> 'a fs_state_scheme \<Rightarrow> ('a fs_state_scheme, nat option \<times> u8 list) outcome" where
  "namex path nameiparent name s =
     bnd (if path \<noteq> [] \<and> hd path = slash then iget ROOTDEV ROOTINO s
          else bnd (curproc s) (\<lambda>p s.
               case p_cwd (procs s p) of None \<Rightarrow> Panic ''kerneltrap'' | Some d \<Rightarrow> idup d s)) (\<lambda>ip s.
     namex_loop ip path nameiparent name s)"

definition namei :: "u8 list \<Rightarrow> 'a fs_state_scheme \<Rightarrow> ('a fs_state_scheme, nat option) outcome" where
  "namei path s = bnd (namex path False (replicate DIRSIZ 0) s) (\<lambda>(ip, _) s. Ret ip s)"

definition nameiparent ::
    "u8 list \<Rightarrow> u8 list \<Rightarrow> 'a fs_state_scheme \<Rightarrow> ('a fs_state_scheme, nat option \<times> u8 list) outcome" where
  "nameiparent path name s = namex path True name s"

end
