(* ===== verification/File.thy ===== *)
theory File
  imports Dir
begin

text \<open>
  Open files, \<open>kernel/file.c\<close>, and \<open>pipealloc\<close> of \<open>kernel/pipe.c\<close>.  \<open>files i\<close> is \<open>ftable.file[i]\<close>.
\<close>

definition NFILE :: nat where "NFILE = 100"
definition NDEV :: nat where "NDEV = 10"

datatype ftype = FD_NONE | FD_PIPE | FD_INODE | FD_DEVICE

record kfile =
  f_type :: ftype
  f_ref :: i32
  f_readable :: bool
  f_writable :: bool
  f_pipe :: u64
  f_ip :: "nat option"
  f_off :: u32
  f_major :: u16

record file_state = fs_state +
  files :: "nat \<Rightarrow> kfile"

definition upd_file :: "nat \<Rightarrow> (kfile \<Rightarrow> kfile) \<Rightarrow> 'a file_state_scheme \<Rightarrow> 'a file_state_scheme" where
  "upd_file f g s = s\<lparr>files := (files s)(f := g (files s f))\<rparr>"

definition fileinit :: "'a file_state_scheme \<Rightarrow> 'a file_state_scheme" where
  "fileinit s = initlock FtableLock ''ftable'' s"

fun filealloc_loop :: "nat list \<Rightarrow> 'a file_state_scheme \<Rightarrow> ('a file_state_scheme, nat option) outcome" where
  "filealloc_loop [] s = bnd (release FtableLock s) (\<lambda>_ s. Ret None s)"
| "filealloc_loop (f # fs) s =
     (if f_ref (files s f) = 0
      then bnd (release FtableLock (upd_file f (\<lambda>x. x\<lparr>f_ref := 1\<rparr>) s)) (\<lambda>_ s. Ret (Some f) s)
      else filealloc_loop fs s)"

definition filealloc :: "'a file_state_scheme \<Rightarrow> ('a file_state_scheme, nat option) outcome" where
  "filealloc s = bnd (acquire FtableLock s) (\<lambda>_ s. filealloc_loop [0..<NFILE] s)"

definition filedup :: "nat \<Rightarrow> 'a file_state_scheme \<Rightarrow> ('a file_state_scheme, nat) outcome" where
  "filedup f s =
     bnd (acquire FtableLock s) (\<lambda>_ s.
     if f_ref (files s f) <s 1 then Panic ''filedup''
     else bnd (release FtableLock (upd_file f (\<lambda>x. x\<lparr>f_ref := f_ref x + 1\<rparr>) s)) (\<lambda>_ s. Ret f s))"

text \<open>A null \<open>ip\<close> would be dereferenced by \<open>iput\<close>; files of type \<open>FD_INODE\<close> and \<open>FD_DEVICE\<close> have one.\<close>

definition iput_ptr :: "nat option \<Rightarrow> 'a fs_state_scheme \<Rightarrow> ('a fs_state_scheme, unit) outcome" where
  "iput_ptr ip s = (case ip of None \<Rightarrow> Panic ''kerneltrap'' | Some i \<Rightarrow> iput i s)"

definition fileclose :: "nat \<Rightarrow> 'a file_state_scheme \<Rightarrow> ('a file_state_scheme, unit) outcome" where
  "fileclose f s =
     bnd (acquire FtableLock s) (\<lambda>_ s.
     if f_ref (files s f) <s 1 then Panic ''fileclose''
     else let s = upd_file f (\<lambda>x. x\<lparr>f_ref := f_ref x - 1\<rparr>) s in
     if 0 <s f_ref (files s f) then release FtableLock s
     else let ff = files s f;
              s = upd_file f (\<lambda>x. x\<lparr>f_ref := 0, f_type := FD_NONE\<rparr>) s
          in bnd (release FtableLock s) (\<lambda>_ s.
             case f_type ff of
               FD_PIPE \<Rightarrow> pipeclose (f_pipe ff) (f_writable ff) s
             | FD_NONE \<Rightarrow> Ret () s
             | _ \<Rightarrow> bnd (begin_op s) (\<lambda>_ s. bnd (iput_ptr (f_ip ff) s) (\<lambda>_ s. end_op s))))"

text \<open>The bytes of a \<open>struct stat\<close>; the four bytes of padding before \<open>size\<close> are 0 here.\<close>

definition stat_bytes :: "stat \<Rightarrow> u8 list" where
  "stat_bytes st = le_bytes 4 (unat (st_dev st)) @ le_bytes 4 (unat (st_ino st)) @ le_bytes 2 (unat (st_type st)) @
     le_bytes 2 (unat (st_nlink st)) @ replicate 4 0 @ le_bytes 8 (unat (st_size st))"

definition filestat :: "nat \<Rightarrow> u64 \<Rightarrow> 'a file_state_scheme \<Rightarrow> ('a file_state_scheme, i32) outcome" where
  "filestat f addr s =
     bnd (curproc s) (\<lambda>p s.
     if f_type (files s f) = FD_INODE \<or> f_type (files s f) = FD_DEVICE
     then let ip = f_ip (files s f) in
          bnd (ilock ip s) (\<lambda>_ s.
          let st = stati (the ip) s
          in bnd (iunlock ip s) (\<lambda>_ s.
             bnd (copyout (p_pagetable (procs s p)) addr (stat_bytes st) s) (\<lambda>r s.
             if r <s 0 then Ret (- 1) s else Ret 0 s)))
     else Ret (- 1) s)"

definition dev_read :: "u16 \<Rightarrow> copy_dst \<Rightarrow> i32 \<Rightarrow> 'a cons_state_scheme \<Rightarrow> ('a cons_state_scheme, i32) outcome" where
  "dev_read major dst n s =
     (if sint major < 0 \<or> sint major \<ge> int NDEV \<or> devsw s (unat major) = None then Ret (- 1) s
      else consoleread dst n s)"

definition dev_write :: "u16 \<Rightarrow> copy_src \<Rightarrow> i32 \<Rightarrow> 'a cons_state_scheme \<Rightarrow> ('a cons_state_scheme, i32) outcome" where
  "dev_write major src n s =
     (if sint major < 0 \<or> sint major \<ge> int NDEV \<or> devsw s (unat major) = None then Ret (- 1) s
      else consolewrite src n s)"

definition fileread :: "nat \<Rightarrow> u64 \<Rightarrow> i32 \<Rightarrow> 'a file_state_scheme \<Rightarrow> ('a file_state_scheme, i32) outcome" where
  "fileread f addr n s =
     (if \<not> f_readable (files s f) then Ret (- 1) s
      else case f_type (files s f) of
        FD_PIPE \<Rightarrow> piperead (f_pipe (files s f)) addr n s
      | FD_DEVICE \<Rightarrow> dev_read (f_major (files s f)) (UserDst addr) n s
      | FD_INODE \<Rightarrow>
          (let ip = f_ip (files s f) in
           bnd (ilock ip s) (\<lambda>_ s.
           bnd (readi (the ip) (UserDst addr) (f_off (files s f)) n s) (\<lambda>(r, _) s.
           let s = (if 0 <s r then upd_file f (\<lambda>x. x\<lparr>f_off := f_off x + r\<rparr>) s else s)
           in bnd (iunlock ip s) (\<lambda>_ s. Ret r s))))
      | FD_NONE \<Rightarrow> Panic ''fileread'')"

text \<open>The largest number of bytes \<open>filewrite\<close> writes in one transaction.\<close>

definition filewrite_max :: nat where
  "filewrite_max = ((MAXOPBLOCKS - 1 - 1 - 2) div 2) * BSIZE"

lemma filewrite_max_pos: "0 < filewrite_max"
  by (simp add: filewrite_max_def MAXOPBLOCKS_def BSIZE_def)

text \<open>The loop over the transactions; the result is the number of bytes written.\<close>

function filewrite_loop ::
    "nat \<Rightarrow> u64 \<Rightarrow> nat \<Rightarrow> nat \<Rightarrow> 'a file_state_scheme \<Rightarrow> ('a file_state_scheme, nat) outcome" where
  "filewrite_loop f addr n i s =
     (if \<not> i < n then Ret i s
      else let n1 = min (n - i) filewrite_max;
               ip = f_ip (files s f) in
      bnd (begin_op s) (\<lambda>_ s.
      bnd (ilock ip s) (\<lambda>_ s.
      bnd (writei (the ip) (UserSrc (addr + of_nat i)) (f_off (files s f)) (of_nat n1) s) (\<lambda>r s.
      let s = (if 0 <s r then upd_file f (\<lambda>x. x\<lparr>f_off := f_off x + r\<rparr>) s else s)
      in bnd (iunlock ip s) (\<lambda>_ s.
         bnd (end_op s) (\<lambda>_ s.
         if r \<noteq> of_nat n1 then Ret i s else filewrite_loop f addr n (i + n1) s))))))"
  by pat_completeness auto
termination
  by (relation "measure (\<lambda>(f, addr, n, i, s). n - i)") (use filewrite_max_pos in auto)

declare filewrite_loop.simps [simp del]

definition filewrite :: "nat \<Rightarrow> u64 \<Rightarrow> i32 \<Rightarrow> 'a file_state_scheme \<Rightarrow> ('a file_state_scheme, i32) outcome" where
  "filewrite f addr n s =
     (if \<not> f_writable (files s f) then Ret (- 1) s
      else case f_type (files s f) of
        FD_PIPE \<Rightarrow> pipewrite (f_pipe (files s f)) addr n s
      | FD_DEVICE \<Rightarrow> dev_write (f_major (files s f)) (UserSrc addr) n s
      | FD_INODE \<Rightarrow>
          bnd (filewrite_loop f addr (nat (sint n)) 0 s) (\<lambda>i s. Ret (if int i = sint n then n else - 1) s)
      | FD_NONE \<Rightarrow> Panic ''filewrite'')"

section \<open>\<open>pipealloc\<close>\<close>

text \<open>The result: the return value and \<open>*f0\<close>, \<open>*f1\<close>.\<close>

definition fileclose_ptr :: "nat option \<Rightarrow> 'a file_state_scheme \<Rightarrow> ('a file_state_scheme, unit) outcome" where
  "fileclose_ptr f s = (case f of None \<Rightarrow> Ret () s | Some i \<Rightarrow> fileclose i s)"

definition pipealloc_bad ::
    "nat option \<Rightarrow> nat option \<Rightarrow> 'a file_state_scheme \<Rightarrow> ('a file_state_scheme, i32 \<times> nat option \<times> nat option) outcome" where
  "pipealloc_bad f0 f1 s =
     bnd (fileclose_ptr f0 s) (\<lambda>_ s.
     bnd (fileclose_ptr f1 s) (\<lambda>_ s. Ret (- 1, f0, f1) s))"

definition pipealloc :: "'a file_state_scheme \<Rightarrow> ('a file_state_scheme, i32 \<times> nat option \<times> nat option) outcome" where
  "pipealloc s =
     bnd (filealloc s) (\<lambda>f0 s.
     if f0 = None then pipealloc_bad None None s
     else bnd (filealloc s) (\<lambda>f1 s.
     if f1 = None then pipealloc_bad f0 None s
     else bnd (kalloc s) (\<lambda>pip s.
     if pip = 0 then pipealloc_bad f0 f1 s
     else let s = upd_pipe pip (\<lambda>x. x\<lparr>pi_readopen := 1, pi_writeopen := 1, pi_nwrite := 0, pi_nread := 0\<rparr>) s;
              s = initlock (PipeLock pip) ''pipe'' s;
              s = upd_file (the f0) (\<lambda>x. x\<lparr>f_type := FD_PIPE, f_readable := True, f_writable := False, f_pipe := pip\<rparr>) s;
              s = upd_file (the f1) (\<lambda>x. x\<lparr>f_type := FD_PIPE, f_readable := False, f_writable := True, f_pipe := pip\<rparr>) s
          in Ret (0, f0, f1) s)))"

end
