(* ===== verification/ProcLife.thy ===== *)
theory ProcLife
  imports File
begin

text \<open>
  The life of a process, \<open>kernel/proc.c\<close>: \<open>userinit\<close>, \<open>fork\<close>, \<open>fork_with_priority\<close>, \<open>exit\<close> and \<open>wait\<close>.
\<close>

section \<open>The first process\<close>

definition initcode :: "u8 list" where
  "initcode = [
     0x17, 0x05, 0x00, 0x00, 0x13, 0x05, 0x45, 0x02,
     0x97, 0x05, 0x00, 0x00, 0x93, 0x85, 0x35, 0x02,
     0x93, 0x08, 0x70, 0x00, 0x73, 0x00, 0x00, 0x00,
     0x93, 0x08, 0x20, 0x00, 0x73, 0x00, 0x00, 0x00,
     0xef, 0xf0, 0x9f, 0xff, 0x2f, 0x69, 0x6e, 0x69,
     0x74, 0x00, 0x00, 0x24, 0x00, 0x00, 0x00, 0x00,
     0x00, 0x00, 0x00, 0x00]"

definition set_tf :: "nat \<Rightarrow> tf_field \<Rightarrow> u64 \<Rightarrow> 'a proc_state_scheme \<Rightarrow> 'a proc_state_scheme" where
  "set_tf p f v s = s\<lparr>mem := store64 (p_trapframe (procs s p) + tf_off f) v (mem s)\<rparr>"

definition get_tf :: "nat \<Rightarrow> tf_field \<Rightarrow> 'a proc_state_scheme \<Rightarrow> u64" where
  "get_tf p f s = load64 (p_trapframe (procs s p) + tf_off f) (mem s)"

text \<open>The scheduling fields of a new process.\<close>

definition sched_fields :: "i32 \<Rightarrow> proc \<Rightarrow> proc" where
  "sched_fields prio x = x\<lparr>p_priority := prio, p_last_runtime := 1, p_queue_level := 0, p_time_slice := 0, p_total_ticks := 0\<rparr>"

definition userinit :: "'a fs_state_scheme \<Rightarrow> ('a fs_state_scheme, unit) outcome" where
  "userinit s =
     bnd (allocproc s) (\<lambda>p s.
     let s = s\<lparr>initproc := p\<rparr> in
     case p of
       None \<Rightarrow> Panic ''kerneltrap''
     | Some p \<Rightarrow>
         bnd (uvmfirst (p_pagetable (procs s p)) initcode s) (\<lambda>_ s.
         let s = upd_proc p (\<lambda>x. x\<lparr>p_sz := PGSIZE\<rparr>) s;
             s = set_tf p TF_epc 0 s;
             s = set_tf p TF_sp PGSIZE s;
             s = upd_proc p (\<lambda>x. x\<lparr>p_name := safestrcpy (p_name x) (cstr ''initcode'') 16\<rparr>) s
         in bnd (namei [slash] s) (\<lambda>cwd s.
            let s = upd_proc p (\<lambda>x. x\<lparr>p_cwd := cwd, p_arrival_time := ticks s\<rparr>) s;
                s = upd_proc p (sched_fields 10) s;
                s = upd_proc p (\<lambda>x. x\<lparr>p_state := RUNNABLE, p_ready_time := ticks s\<rparr>) s
            in bnd (enqueue_if_mlfq p s) (\<lambda>_ s.
               release (ProcLock p) s))))"

section \<open>Creating a process\<close>

fun fork_files :: "nat list \<Rightarrow> nat \<Rightarrow> nat \<Rightarrow> 'a file_state_scheme \<Rightarrow> ('a file_state_scheme, unit) outcome" where
  "fork_files [] p np s = Ret () s"
| "fork_files (i # is) p np s =
     (case p_ofile (procs s p) ! i of
        None \<Rightarrow> fork_files is p np s
      | Some f \<Rightarrow>
          bnd (filedup f s) (\<lambda>g s.
          fork_files is p np (upd_proc np (\<lambda>x. x\<lparr>p_ofile := (p_ofile x)[i := Some g]\<rparr>) s)))"

text \<open>
  The part \<open>fork\<close> and \<open>fork_with_priority\<close> share: up to the second \<open>acquire(&np->lock)\<close>.  The result is
  the new process and its pid, \<open>None\<close> where they return -1.
\<close>

definition fork_copy :: "'a file_state_scheme \<Rightarrow> ('a file_state_scheme, (nat \<times> i32) option) outcome" where
  "fork_copy s =
     bnd (curproc s) (\<lambda>p s.
     bnd (allocproc s) (\<lambda>found s.
     case found of
       None \<Rightarrow> Ret None s
     | Some np \<Rightarrow>
         bnd (uvmcopy (p_pagetable (procs s p)) (p_pagetable (procs s np)) (p_sz (procs s p)) s) (\<lambda>r s.
         if r <s 0
         then bnd (freeproc np s) (\<lambda>_ s. bnd (release (ProcLock np) s) (\<lambda>_ s. Ret None s))
         else let s = upd_proc np (\<lambda>x. x\<lparr>p_sz := p_sz (procs s p)\<rparr>) s;
                  tf = get_bytes (p_trapframe (procs s p)) (unat sizeof_trapframe) (mem s);
                  s = s\<lparr>mem := put_bytes (p_trapframe (procs s np)) tf (mem s)\<rparr>;
                  s = set_tf np TF_a0 0 s
              in bnd (fork_files [0..<NOFILE] p np s) (\<lambda>_ s.
                 case p_cwd (procs s p) of
                   None \<Rightarrow> Panic ''kerneltrap''
                 | Some d \<Rightarrow>
                     bnd (idup d s) (\<lambda>d s.
                     let s = upd_proc np (\<lambda>x. x\<lparr>p_cwd := Some d\<rparr>) s;
                         s = upd_proc np (\<lambda>x. x\<lparr>p_name := safestrcpy (p_name x) (p_name (procs s p)) 16\<rparr>) s;
                         pid = p_pid (procs s np)
                     in bnd (release (ProcLock np) s) (\<lambda>_ s.
                        bnd (acquire WaitLock s) (\<lambda>_ s.
                        bnd (release WaitLock (upd_proc np (\<lambda>x. x\<lparr>p_parent := Some p\<rparr>) s)) (\<lambda>_ s.
                        bnd (acquire (ProcLock np) s) (\<lambda>_ s. Ret (Some (np, pid)) s)))))))))"

definition fork :: "'a file_state_scheme \<Rightarrow> ('a file_state_scheme, i32) outcome" where
  "fork s =
     bnd (fork_copy s) (\<lambda>r s.
     case r of
       None \<Rightarrow> Ret (- 1) s
     | Some (np, pid) \<Rightarrow>
         (let s = upd_proc np (sched_fields 10) s;
              s = upd_proc np (\<lambda>x. x\<lparr>p_state := RUNNABLE, p_ready_time := ticks s\<rparr>) s
          in bnd (enqueue_if_mlfq np s) (\<lambda>_ s.
             bnd (release (ProcLock np) s) (\<lambda>_ s. Ret pid s))))"

definition fork_with_priority :: "i32 \<Rightarrow> 'a file_state_scheme \<Rightarrow> ('a file_state_scheme, i32) outcome" where
  "fork_with_priority prio s =
     bnd (fork_copy s) (\<lambda>r s.
     case r of
       None \<Rightarrow> Ret (- 1) s
     | Some (np, pid) \<Rightarrow>
         (let s = upd_proc np (sched_fields prio) s;
              s = upd_proc np (\<lambda>x. x\<lparr>p_state := RUNNABLE\<rparr>) s
          in bnd (enqueue_if_mlfq np s) (\<lambda>_ s.
             bnd (release (ProcLock np) s) (\<lambda>_ s. Ret pid s))))"

section \<open>Exiting and waiting\<close>

fun exit_files :: "nat list \<Rightarrow> nat \<Rightarrow> 'a file_state_scheme \<Rightarrow> ('a file_state_scheme, unit) outcome" where
  "exit_files [] p s = Ret () s"
| "exit_files (fd # fds) p s =
     (case p_ofile (procs s p) ! fd of
        None \<Rightarrow> exit_files fds p s
      | Some f \<Rightarrow>
          bnd (fileclose f s) (\<lambda>_ s.
          exit_files fds p (upd_proc p (\<lambda>x. x\<lparr>p_ofile := (p_ofile x)[fd := None]\<rparr>) s)))"

text \<open>\<open>exit\<close> never returns: it ends in the scheduler, outcome \<open>Swtch ResumeNever\<close>.\<close>

definition exit :: "i32 \<Rightarrow> 'a file_state_scheme \<Rightarrow> ('a file_state_scheme, unit) outcome" where
  "exit status s =
     bnd (curproc s) (\<lambda>p s.
     if Some p = initproc s then Panic ''init exiting''
     else bnd (exit_files [0..<NOFILE] p s) (\<lambda>_ s.
          bnd (begin_op s) (\<lambda>_ s.
          bnd (iput_ptr (p_cwd (procs s p)) s) (\<lambda>_ s.
          bnd (end_op s) (\<lambda>_ s.
          let s = upd_proc p (\<lambda>x. x\<lparr>p_cwd := None\<rparr>) s
          in bnd (acquire WaitLock s) (\<lambda>_ s.
             bnd (reparent p s) (\<lambda>_ s.
             bnd (wakeup (map_option ProcChan (p_parent (procs s p))) s) (\<lambda>_ s.
             bnd (acquire (ProcLock p) s) (\<lambda>_ s.
             let s = upd_proc p (\<lambda>x. x\<lparr>p_xstate := status\<rparr>) s;
                 s = upd_proc p (\<lambda>x. x\<lparr>p_state := ZOMBIE\<rparr>) s
             in bnd (release WaitLock s) (\<lambda>_ s.
                bnd (sched (\<lambda>_. ResumeNever) s) (\<lambda>_ s. Panic ''zombie exit'')))))))))))"

text \<open>
  One scan of the table by \<open>wait\<close>: \<open>Inl havekids\<close> when no child has exited, \<open>Inr r\<close> when \<open>wait\<close> returns \<open>r\<close>.
\<close>

fun wait_scan ::
    "nat list \<Rightarrow> bool \<Rightarrow> nat \<Rightarrow> u64 \<Rightarrow> 'a proc_state_scheme \<Rightarrow> ('a proc_state_scheme, bool + i32) outcome" where
  "wait_scan [] havekids p addr s = Ret (Inl havekids) s"
| "wait_scan (pp # pps) havekids p addr s =
     (if p_parent (procs s pp) = Some p
      then bnd (acquire (ProcLock pp) s) (\<lambda>_ s.
           if p_state (procs s pp) = ZOMBIE
           then let pid = p_pid (procs s pp)
                in bnd (if addr \<noteq> 0
                        then copyout (p_pagetable (procs s p)) addr (le_bytes 4 (unat (p_xstate (procs s pp)))) s
                        else Ret 0 s) (\<lambda>r s.
                   if r <s 0
                   then bnd (release (ProcLock pp) s) (\<lambda>_ s.
                        bnd (release WaitLock s) (\<lambda>_ s. Ret (Inr (- 1)) s))
                   else bnd (freeproc pp s) (\<lambda>_ s.
                        bnd (release (ProcLock pp) s) (\<lambda>_ s.
                        bnd (release WaitLock s) (\<lambda>_ s. Ret (Inr pid) s))))
           else bnd (release (ProcLock pp) s) (\<lambda>_ s. wait_scan pps True p addr s))
      else wait_scan pps havekids p addr s)"

function wait_loop :: "nat \<Rightarrow> u64 \<Rightarrow> 'a proc_state_scheme \<Rightarrow> ('a proc_state_scheme, i32) outcome" where
  "wait_loop p addr s =
     bnd (wait_scan [0..<NPROC] False p addr s) (\<lambda>r s.
     case r of
       Inr pid \<Rightarrow> Ret pid s
     | Inl havekids \<Rightarrow>
         bnd (if \<not> havekids then Ret 1 s else killed p s) (\<lambda>k s.
         if k \<noteq> 0 then bnd (release WaitLock s) (\<lambda>_ s. Ret (- 1) s)
         else bnd (sleep (ProcChan p) WaitLock s) (\<lambda>_ s. wait_loop p addr s)))"
  by pat_completeness auto
termination by (relation "{}") (auto simp: sleep_not_Ret)

declare wait_loop.simps [simp del]

definition wait :: "u64 \<Rightarrow> 'a proc_state_scheme \<Rightarrow> ('a proc_state_scheme, i32) outcome" where
  "wait addr s =
     bnd (curproc s) (\<lambda>p s.
     bnd (acquire WaitLock s) (\<lambda>_ s. wait_loop p addr s))"

end
