(* ===== verification/Exec.thy ===== *)
theory Exec
  imports ProcLife
begin

text \<open>
  \<open>kernel/exec.c\<close>: replacing the program of a process by one from an ELF file (\<open>kernel/elf.h\<close>).  The
  arguments are the strings \<open>argv[0]\<close>, \<open>argv[1]\<close> and so on, up to the null pointer.
\<close>

definition MAXARG :: nat where "MAXARG = 32"
definition USERSTACK :: u64 where "USERSTACK = 1"
definition ELF_MAGIC :: u32 where "ELF_MAGIC = 0x464C457F"
definition ELF_PROG_LOAD :: u32 where "ELF_PROG_LOAD = 1"
definition sizeof_elfhdr :: u32 where "sizeof_elfhdr = 64"
definition sizeof_proghdr :: u32 where "sizeof_proghdr = 56"

definition get64 :: "nat \<Rightarrow> u8 list \<Rightarrow> u64" where
  "get64 off bs = of_nat (get_le 8 off bs)"

record elfhdr =
  e_magic :: u32
  e_entry :: u64
  e_phoff :: u64
  e_phnum :: u16

definition elfhdr_of :: "u8 list \<Rightarrow> elfhdr" where
  "elfhdr_of bs = \<lparr>e_magic = get32 0 bs, e_entry = get64 24 bs, e_phoff = get64 32 bs, e_phnum = get16 56 bs\<rparr>"

record proghdr =
  ph_type :: u32
  ph_flags :: u32
  ph_off :: u64
  ph_vaddr :: u64
  ph_filesz :: u64
  ph_memsz :: u64

definition proghdr_of :: "u8 list \<Rightarrow> proghdr" where
  "proghdr_of bs = \<lparr>ph_type = get32 0 bs, ph_flags = get32 4 bs, ph_off = get64 8 bs, ph_vaddr = get64 16 bs,
     ph_filesz = get64 32 bs, ph_memsz = get64 40 bs\<rparr>"

definition flags2perm :: "i32 \<Rightarrow> u64" where
  "flags2perm flags =
     (let perm = (if flags AND 1 \<noteq> 0 then PTE_X else 0)
      in if flags AND 2 \<noteq> 0 then perm OR PTE_W else perm)"

section \<open>Loading segments\<close>

fun loadseg_loop ::
    "u32 list \<Rightarrow> u64 \<Rightarrow> u64 \<Rightarrow> nat \<Rightarrow> u32 \<Rightarrow> u32 \<Rightarrow> 'a fs_state_scheme \<Rightarrow> ('a fs_state_scheme, i32) outcome" where
  "loadseg_loop [] pagetable va ip offset sz s = Ret 0 s"
| "loadseg_loop (i # is) pagetable va ip offset sz s =
     bnd (walkaddr pagetable (va + ucast i) s) (\<lambda>pa s.
     if pa = 0 then Panic ''loadseg: address should exist''
     else let n = (if sz - i < 4096 then sz - i else 4096)
          in bnd (readi ip (MemDst pa) (offset + i) n s) (\<lambda>(r, _) s.
             if r \<noteq> n then Ret (- 1) s
             else loadseg_loop is pagetable va ip offset sz s))"

definition loadseg ::
    "u64 \<Rightarrow> u64 \<Rightarrow> nat \<Rightarrow> u32 \<Rightarrow> u32 \<Rightarrow> 'a fs_state_scheme \<Rightarrow> ('a fs_state_scheme, i32) outcome" where
  "loadseg pagetable va ip offset sz s =
     loadseg_loop (map (\<lambda>k. of_nat (k * 4096)) [0..<(unat sz + 4095) div 4096]) pagetable va ip offset sz s"

text \<open>
  The loop over the program headers: whether it ended without an error, and \<open>sz\<close>.  The first list has
  one element for each header left.
\<close>

fun exec_load ::
    "nat list \<Rightarrow> u32 \<Rightarrow> u64 \<Rightarrow> nat \<Rightarrow> u64 \<Rightarrow> 'a fs_state_scheme \<Rightarrow> ('a fs_state_scheme, bool \<times> u64) outcome" where
  "exec_load [] off pagetable ip sz s = Ret (True, sz) s"
| "exec_load (i # is) off pagetable ip sz s =
     bnd (readi ip ObjDst off sizeof_proghdr s) (\<lambda>(r, bs) s.
     let ph = proghdr_of bs in
     if r \<noteq> sizeof_proghdr then Ret (False, sz) s
     else if ph_type ph \<noteq> ELF_PROG_LOAD then exec_load is (off + sizeof_proghdr) pagetable ip sz s
     else if ph_memsz ph < ph_filesz ph then Ret (False, sz) s
     else if ph_vaddr ph + ph_memsz ph < ph_vaddr ph then Ret (False, sz) s
     else if ph_vaddr ph mod PGSIZE \<noteq> 0 then Ret (False, sz) s
     else bnd (uvmalloc pagetable sz (ph_vaddr ph + ph_memsz ph) (flags2perm (ph_flags ph)) s) (\<lambda>sz1 s.
          if sz1 = 0 then Ret (False, sz) s
          else bnd (loadseg pagetable (ph_vaddr ph) ip (ucast (ph_off ph)) (ucast (ph_filesz ph)) s) (\<lambda>r s.
               if r <s 0 then Ret (False, sz1) s
               else exec_load is (off + sizeof_proghdr) pagetable ip sz1 s)))"

section \<open>The argument strings\<close>

text \<open>The loop that pushes the strings: \<open>sp\<close> and \<open>ustack\<close>, or \<open>None\<close> for \<open>goto bad\<close>.\<close>

fun exec_push ::
    "u8 list list \<Rightarrow> u64 \<Rightarrow> u64 \<Rightarrow> u64 \<Rightarrow> u64 list \<Rightarrow> 'a kmem_state_scheme \<Rightarrow> ('a kmem_state_scheme, (u64 \<times> u64 list) option) outcome" where
  "exec_push [] pagetable stackbase sp ustack s = Ret (Some (sp, ustack)) s"
| "exec_push (a # as) pagetable stackbase sp ustack s =
     (if length ustack \<ge> MAXARG then Ret None s
      else let sp = sp - of_nat (length a + 1);
               sp = sp - sp mod 16 in
      if sp < stackbase then Ret None s
      else bnd (copyout pagetable sp (a @ [0]) s) (\<lambda>r s.
           if r <s 0 then Ret None s
           else exec_push as pagetable stackbase sp (ustack @ [sp]) s))"

text \<open>The program name: what follows the last slash of the path.\<close>

definition last_elem :: "u8 list \<Rightarrow> u8 list" where
  "last_elem path = rev (takeWhile (\<lambda>c. c \<noteq> slash) (rev path))"

section \<open>\<open>exec\<close>\<close>

text \<open>The code at the label \<open>bad\<close>.\<close>

definition exec_bad :: "u64 \<Rightarrow> u64 \<Rightarrow> nat option \<Rightarrow> 'a fs_state_scheme \<Rightarrow> ('a fs_state_scheme, i32) outcome" where
  "exec_bad pagetable sz ip s =
     bnd (if pagetable \<noteq> 0 then proc_freepagetable pagetable sz s else Ret () s) (\<lambda>_ s.
     case ip of
       None \<Rightarrow> Ret (- 1) s
     | Some i \<Rightarrow> bnd (iunlockput i s) (\<lambda>_ s. bnd (end_op s) (\<lambda>_ s. Ret (- 1) s)))"

text \<open>The part after the file has been read, from the allocation of the stack on.\<close>

definition exec_commit ::
    "nat \<Rightarrow> u8 list \<Rightarrow> u64 \<Rightarrow> u64 \<Rightarrow> u64 \<Rightarrow> u64 \<Rightarrow> 'a fs_state_scheme \<Rightarrow> ('a fs_state_scheme, unit) outcome" where
  "exec_commit p path pagetable sz sp entry s =
     (let oldsz = p_sz (procs s p);
          s = set_tf p TF_a1 sp s;
          s = upd_proc p (\<lambda>x. x\<lparr>p_name := safestrcpy (p_name x) (last_elem path) 16\<rparr>) s;
          oldpagetable = p_pagetable (procs s p);
          s = upd_proc p (\<lambda>x. x\<lparr>p_pagetable := pagetable\<rparr>) s;
          s = upd_proc p (\<lambda>x. x\<lparr>p_sz := sz\<rparr>) s;
          s = set_tf p TF_epc entry s;
          s = set_tf p TF_sp sp s
      in proc_freepagetable oldpagetable oldsz s)"

definition exec_stack ::
    "u8 list \<Rightarrow> u8 list list \<Rightarrow> u64 \<Rightarrow> u64 \<Rightarrow> u64 \<Rightarrow> 'a fs_state_scheme \<Rightarrow> ('a fs_state_scheme, i32) outcome" where
  "exec_stack path argv pagetable sz entry s =
     bnd (curproc s) (\<lambda>p s.
     let sz = PGROUNDUP sz in
     bnd (uvmalloc pagetable sz (sz + (USERSTACK + 1) * PGSIZE) PTE_W s) (\<lambda>sz1 s.
     if sz1 = 0 then exec_bad pagetable sz None s
     else let sz = sz1 in
     bnd (uvmclear pagetable (sz - (USERSTACK + 1) * PGSIZE) s) (\<lambda>_ s.
     let stackbase = sz - USERSTACK * PGSIZE in
     bnd (exec_push argv pagetable stackbase sz [] s) (\<lambda>r s.
     case r of
       None \<Rightarrow> exec_bad pagetable sz None s
     | Some (sp, ustack) \<Rightarrow>
         if length ustack \<ge> MAXARG then Undef
         else let sp = sp - of_nat ((length ustack + 1) * 8);
                  sp = sp - sp mod 16 in
         if sp < stackbase then exec_bad pagetable sz None s
         else bnd (copyout pagetable sp (concat (map (\<lambda>x. le_bytes 8 (unat x)) (ustack @ [0]))) s) (\<lambda>r s.
              if r <s 0 then exec_bad pagetable sz None s
              else bnd (exec_commit p path pagetable sz sp entry s) (\<lambda>_ s.
                   Ret (of_nat (length ustack)) s))))))"

definition exec :: "u8 list \<Rightarrow> u8 list list \<Rightarrow> 'a fs_state_scheme \<Rightarrow> ('a fs_state_scheme, i32) outcome" where
  "exec path argv s =
     bnd (curproc s) (\<lambda>p s.
     bnd (begin_op s) (\<lambda>_ s.
     bnd (namei path s) (\<lambda>ip s.
     case ip of
       None \<Rightarrow> bnd (end_op s) (\<lambda>_ s. Ret (- 1) s)
     | Some i \<Rightarrow>
         bnd (ilock ip s) (\<lambda>_ s.
         bnd (readi i ObjDst 0 sizeof_elfhdr s) (\<lambda>(r, bs) s.
         let elf = elfhdr_of bs in
         if r \<noteq> sizeof_elfhdr then exec_bad 0 0 ip s
         else if e_magic elf \<noteq> ELF_MAGIC then exec_bad 0 0 ip s
         else bnd (proc_pagetable p s) (\<lambda>pagetable s.
              if pagetable = 0 then exec_bad 0 0 ip s
              else bnd (exec_load [0..<unat (e_phnum elf)] (ucast (e_phoff elf)) pagetable i 0 s) (\<lambda>(ok, sz) s.
                   if \<not> ok then exec_bad pagetable sz ip s
                   else bnd (iunlockput i s) (\<lambda>_ s.
                        bnd (end_op s) (\<lambda>_ s.
                        exec_stack path argv pagetable sz (e_entry elf) s)))))))))"

end
