(* ===== verification/SysFile.thy ===== *)
theory SysFile
  imports Exec
begin

text \<open>
  Arguments of system calls (\<open>kernel/syscall.c\<close>) and the system calls on files, \<open>kernel/sysfile.c\<close>.
  Integer results of type \<open>uint64\<close> are sign-extended as in C.
\<close>

section \<open>Arguments\<close>

definition MAXPATH :: u64 where "MAXPATH = 128"

text \<open>The result of \<open>fetchaddr\<close>: the return value and the word stored at \<open>ip\<close>.\<close>

definition fetchaddr :: "u64 \<Rightarrow> 'a proc_state_scheme \<Rightarrow> ('a proc_state_scheme, i32 \<times> u64) outcome" where
  "fetchaddr addr s =
     bnd (curproc s) (\<lambda>p s.
     if addr \<ge> p_sz (procs s p) \<or> addr + 8 > p_sz (procs s p) then Ret (- 1, 0) s
     else bnd (copyin (p_pagetable (procs s p)) addr 8 s) (\<lambda>(r, bs) s.
          if r \<noteq> 0 then Ret (- 1, 0) s else Ret (0, get64 0 bs) s))"

text \<open>The result of \<open>fetchstr\<close> and \<open>argstr\<close>: the return value and the bytes stored in \<open>buf\<close>.\<close>

definition fetchstr :: "u64 \<Rightarrow> u64 \<Rightarrow> 'a proc_state_scheme \<Rightarrow> ('a proc_state_scheme, i32 \<times> u8 list) outcome" where
  "fetchstr addr mx s =
     bnd (curproc s) (\<lambda>p s.
     bnd (copyinstr (p_pagetable (procs s p)) addr mx s) (\<lambda>(r, bs) s.
     if r <s 0 then Ret (- 1, bs) s else Ret (of_nat (strlen bs), bs) s))"

definition argraw :: "nat \<Rightarrow> 'a proc_state_scheme \<Rightarrow> ('a proc_state_scheme, u64) outcome" where
  "argraw n s =
     bnd (curproc s) (\<lambda>p s.
     if n = 0 then Ret (get_tf p TF_a0 s) s
     else if n = 1 then Ret (get_tf p TF_a1 s) s
     else if n = 2 then Ret (get_tf p TF_a2 s) s
     else if n = 3 then Ret (get_tf p TF_a3 s) s
     else if n = 4 then Ret (get_tf p TF_a4 s) s
     else if n = 5 then Ret (get_tf p TF_a5 s) s
     else Panic ''argraw'')"

definition argint :: "nat \<Rightarrow> 'a proc_state_scheme \<Rightarrow> ('a proc_state_scheme, i32) outcome" where
  "argint n s = bnd (argraw n s) (\<lambda>v s. Ret (ucast v) s)"

definition argaddr :: "nat \<Rightarrow> 'a proc_state_scheme \<Rightarrow> ('a proc_state_scheme, u64) outcome" where
  "argaddr n s = argraw n s"

definition argstr :: "nat \<Rightarrow> u64 \<Rightarrow> 'a proc_state_scheme \<Rightarrow> ('a proc_state_scheme, i32 \<times> u8 list) outcome" where
  "argstr n mx s = bnd (argaddr n s) (\<lambda>addr s. fetchstr addr mx s)"

section \<open>File descriptors\<close>

text \<open>\<open>argfd\<close>: the descriptor and its file, \<open>None\<close> where the code returns -1.\<close>

definition argfd :: "nat \<Rightarrow> 'a proc_state_scheme \<Rightarrow> ('a proc_state_scheme, (nat \<times> nat) option) outcome" where
  "argfd n s =
     bnd (argint n s) (\<lambda>fd s.
     if fd <s 0 \<or> of_nat NOFILE \<le>s fd then Ret None s
     else bnd (curproc s) (\<lambda>p s.
          Ret (map_option (\<lambda>f. (unat fd, f)) (p_ofile (procs s p) ! unat fd)) s))"

fun fdalloc_loop :: "nat list \<Rightarrow> nat \<Rightarrow> nat \<Rightarrow> 'a proc_state_scheme \<Rightarrow> ('a proc_state_scheme, nat option) outcome" where
  "fdalloc_loop [] p f s = Ret None s"
| "fdalloc_loop (fd # fds) p f s =
     (if p_ofile (procs s p) ! fd = None
      then Ret (Some fd) (upd_proc p (\<lambda>x. x\<lparr>p_ofile := (p_ofile x)[fd := Some f]\<rparr>) s)
      else fdalloc_loop fds p f s)"

definition fdalloc :: "nat \<Rightarrow> 'a proc_state_scheme \<Rightarrow> ('a proc_state_scheme, nat option) outcome" where
  "fdalloc f s = bnd (curproc s) (\<lambda>p s. fdalloc_loop [0..<NOFILE] p f s)"

definition clear_fd :: "nat \<Rightarrow> 'a proc_state_scheme \<Rightarrow> ('a proc_state_scheme, unit) outcome" where
  "clear_fd fd s = bnd (curproc s) (\<lambda>p s. Ret () (upd_proc p (\<lambda>x. x\<lparr>p_ofile := (p_ofile x)[fd := None]\<rparr>) s))"

definition sys_dup :: "'a file_state_scheme \<Rightarrow> ('a file_state_scheme, u64) outcome" where
  "sys_dup s =
     bnd (argfd 0 s) (\<lambda>a s.
     case a of
       None \<Rightarrow> Ret (- 1) s
     | Some (_, f) \<Rightarrow>
         bnd (fdalloc f s) (\<lambda>fd s.
         case fd of None \<Rightarrow> Ret (- 1) s | Some fd \<Rightarrow> bnd (filedup f s) (\<lambda>_ s. Ret (of_nat fd) s)))"

definition sys_read :: "'a file_state_scheme \<Rightarrow> ('a file_state_scheme, u64) outcome" where
  "sys_read s =
     bnd (argaddr 1 s) (\<lambda>p s.
     bnd (argint 2 s) (\<lambda>n s.
     bnd (argfd 0 s) (\<lambda>a s.
     case a of
       None \<Rightarrow> Ret (- 1) s
     | Some (_, f) \<Rightarrow> bnd (fileread f p n s) (\<lambda>r s. Ret (scast r) s))))"

definition sys_write :: "'a file_state_scheme \<Rightarrow> ('a file_state_scheme, u64) outcome" where
  "sys_write s =
     bnd (argaddr 1 s) (\<lambda>p s.
     bnd (argint 2 s) (\<lambda>n s.
     bnd (argfd 0 s) (\<lambda>a s.
     case a of
       None \<Rightarrow> Ret (- 1) s
     | Some (_, f) \<Rightarrow> bnd (filewrite f p n s) (\<lambda>r s. Ret (scast r) s))))"

definition sys_close :: "'a file_state_scheme \<Rightarrow> ('a file_state_scheme, u64) outcome" where
  "sys_close s =
     bnd (argfd 0 s) (\<lambda>a s.
     case a of
       None \<Rightarrow> Ret (- 1) s
     | Some (fd, f) \<Rightarrow>
         bnd (clear_fd fd s) (\<lambda>_ s.
         bnd (fileclose f s) (\<lambda>_ s. Ret 0 s)))"

definition sys_fstat :: "'a file_state_scheme \<Rightarrow> ('a file_state_scheme, u64) outcome" where
  "sys_fstat s =
     bnd (argaddr 1 s) (\<lambda>st s.
     bnd (argfd 0 s) (\<lambda>a s.
     case a of
       None \<Rightarrow> Ret (- 1) s
     | Some (_, f) \<Rightarrow> bnd (filestat f st s) (\<lambda>r s. Ret (scast r) s)))"

section \<open>Links\<close>

definition fail_op :: "'a log_state_scheme \<Rightarrow> ('a log_state_scheme, u64) outcome" where
  "fail_op s = bnd (end_op s) (\<lambda>_ s. Ret (- 1) s)"

definition upd_nlink :: "nat \<Rightarrow> (u16 \<Rightarrow> u16) \<Rightarrow> 'a fs_state_scheme \<Rightarrow> ('a fs_state_scheme, unit) outcome" where
  "upd_nlink ip f s = iupdate ip (upd_inode ip (\<lambda>x. x\<lparr>i_nlink := f (i_nlink x)\<rparr>) s)"

text \<open>The code at the label \<open>bad\<close> of \<open>sys_link\<close>.\<close>

definition link_bad :: "nat \<Rightarrow> 'a fs_state_scheme \<Rightarrow> ('a fs_state_scheme, u64) outcome" where
  "link_bad ip s =
     bnd (ilock (Some ip) s) (\<lambda>_ s.
     bnd (upd_nlink ip (\<lambda>n. n - 1) s) (\<lambda>_ s.
     bnd (iunlockput ip s) (\<lambda>_ s. fail_op s)))"

definition sys_link :: "'a fs_state_scheme \<Rightarrow> ('a fs_state_scheme, u64) outcome" where
  "sys_link s =
     bnd (argstr 0 MAXPATH s) (\<lambda>(r, old) s.
     if r <s 0 then Ret (- 1) s
     else bnd (argstr 1 MAXPATH s) (\<lambda>(r, new) s.
     if r <s 0 then Ret (- 1) s
     else bnd (begin_op s) (\<lambda>_ s.
     bnd (namei (cstring old) s) (\<lambda>ip s.
     case ip of
       None \<Rightarrow> fail_op s
     | Some ip \<Rightarrow>
         bnd (ilock (Some ip) s) (\<lambda>_ s.
         if i_type (inodes s ip) = T_DIR then bnd (iunlockput ip s) (\<lambda>_ s. fail_op s)
         else bnd (upd_nlink ip (\<lambda>n. n + 1) s) (\<lambda>_ s.
              bnd (iunlock (Some ip) s) (\<lambda>_ s.
              bnd (nameiparent (cstring new) (replicate DIRSIZ 0) s) (\<lambda>(dp, name) s.
              case dp of
                None \<Rightarrow> link_bad ip s
              | Some dp \<Rightarrow>
                  bnd (ilock (Some dp) s) (\<lambda>_ s.
                  bnd (if i_dev (inodes s dp) \<noteq> i_dev (inodes s ip) then Ret (- 1) s
                       else dirlink dp name (i_inum (inodes s ip)) s) (\<lambda>r s.
                  bnd (iunlockput dp s) (\<lambda>_ s.
                  if r <s 0 then link_bad ip s
                  else bnd (iput ip s) (\<lambda>_ s.
                       bnd (end_op s) (\<lambda>_ s. Ret 0 s)))))))))))))"

fun isdirempty_loop :: "u32 list \<Rightarrow> nat \<Rightarrow> 'a fs_state_scheme \<Rightarrow> ('a fs_state_scheme, bool) outcome" where
  "isdirempty_loop [] dp s = Ret True s"
| "isdirempty_loop (off # offs) dp s =
     bnd (readi dp ObjDst off (of_nat DIRENT) s) (\<lambda>(r, de) s.
     if r \<noteq> of_nat DIRENT then Panic ''isdirempty: readi''
     else if de_inum de \<noteq> 0 then Ret False s
     else isdirempty_loop offs dp s)"

definition isdirempty :: "nat \<Rightarrow> 'a fs_state_scheme \<Rightarrow> ('a fs_state_scheme, bool) outcome" where
  "isdirempty dp s = isdirempty_loop (drop 2 (dirent_offs (i_size (inodes s dp)))) dp s"

definition unlink_bad :: "nat \<Rightarrow> 'a fs_state_scheme \<Rightarrow> ('a fs_state_scheme, u64) outcome" where
  "unlink_bad dp s = bnd (iunlockput dp s) (\<lambda>_ s. fail_op s)"

definition sys_unlink :: "'a fs_state_scheme \<Rightarrow> ('a fs_state_scheme, u64) outcome" where
  "sys_unlink s =
     bnd (argstr 0 MAXPATH s) (\<lambda>(r, path) s.
     if r <s 0 then Ret (- 1) s
     else bnd (begin_op s) (\<lambda>_ s.
     bnd (nameiparent (cstring path) (replicate DIRSIZ 0) s) (\<lambda>(dp, name) s.
     case dp of
       None \<Rightarrow> fail_op s
     | Some dp \<Rightarrow>
         bnd (ilock (Some dp) s) (\<lambda>_ s.
         if namecmp name (cstr ''.'') = 0 \<or> namecmp name (cstr ''..'') = 0 then unlink_bad dp s
         else bnd (dirlookup dp name s) (\<lambda>r s.
         case r of
           None \<Rightarrow> unlink_bad dp s
         | Some (ip, off) \<Rightarrow>
             bnd (ilock (Some ip) s) (\<lambda>_ s.
             if i_nlink (inodes s ip) <s 1 then Panic ''unlink: nlink < 1''
             else bnd (if i_type (inodes s ip) = T_DIR then isdirempty ip s else Ret True s) (\<lambda>e s.
             if \<not> e then bnd (iunlockput ip s) (\<lambda>_ s. unlink_bad dp s)
             else bnd (writei dp (ObjSrc (replicate DIRENT 0)) off (of_nat DIRENT) s) (\<lambda>r s.
             if r \<noteq> of_nat DIRENT then Panic ''unlink: writei''
             else bnd (if i_type (inodes s ip) = T_DIR then upd_nlink dp (\<lambda>n. n - 1) s else Ret () s) (\<lambda>_ s.
             bnd (iunlockput dp s) (\<lambda>_ s.
             bnd (upd_nlink ip (\<lambda>n. n - 1) s) (\<lambda>_ s.
             bnd (iunlockput ip s) (\<lambda>_ s.
             bnd (end_op s) (\<lambda>_ s. Ret 0 s)))))))))))))"

section \<open>Creating and opening\<close>

definition O_RDONLY :: i32 where "O_RDONLY = 0x000"
definition O_WRONLY :: i32 where "O_WRONLY = 0x001"
definition O_RDWR :: i32 where "O_RDWR = 0x002"
definition O_CREATE :: i32 where "O_CREATE = 0x200"
definition O_TRUNC :: i32 where "O_TRUNC = 0x400"

text \<open>The code at the label \<open>fail\<close> of \<open>create\<close>.\<close>

definition create_fail :: "nat \<Rightarrow> nat \<Rightarrow> 'a fs_state_scheme \<Rightarrow> ('a fs_state_scheme, nat option) outcome" where
  "create_fail ip dp s =
     bnd (upd_nlink ip (\<lambda>_. 0) s) (\<lambda>_ s.
     bnd (iunlockput ip s) (\<lambda>_ s.
     bnd (iunlockput dp s) (\<lambda>_ s. Ret None s)))"

text \<open>The part of \<open>create\<close> for a name that is not in the directory yet.\<close>

definition create_new ::
    "nat \<Rightarrow> u8 list \<Rightarrow> u16 \<Rightarrow> u16 \<Rightarrow> u16 \<Rightarrow> 'a fs_state_scheme \<Rightarrow> ('a fs_state_scheme, nat option) outcome" where
  "create_new dp name type maj mnr s =
     bnd (ialloc (i_dev (inodes s dp)) type s) (\<lambda>ip s.
     case ip of
       None \<Rightarrow> bnd (iunlockput dp s) (\<lambda>_ s. Ret None s)
     | Some ip \<Rightarrow>
         bnd (ilock (Some ip) s) (\<lambda>_ s.
         bnd (iupdate ip (upd_inode ip (\<lambda>x. x\<lparr>i_major := maj, i_minor := mnr, i_nlink := 1\<rparr>) s)) (\<lambda>_ s.
         bnd (if type = T_DIR
              then bnd (dirlink ip (cstr ''.'') (i_inum (inodes s ip)) s) (\<lambda>r s.
                   if r <s 0 then Ret r s else dirlink ip (cstr ''..'') (i_inum (inodes s dp)) s)
              else Ret 0 s) (\<lambda>r s.
         if r <s 0 then create_fail ip dp s
         else bnd (dirlink dp name (i_inum (inodes s ip)) s) (\<lambda>r s.
         if r <s 0 then create_fail ip dp s
         else bnd (if type = T_DIR then upd_nlink dp (\<lambda>n. n + 1) s else Ret () s) (\<lambda>_ s.
         bnd (iunlockput dp s) (\<lambda>_ s. Ret (Some ip) s)))))))"

definition create ::
    "u8 list \<Rightarrow> u16 \<Rightarrow> u16 \<Rightarrow> u16 \<Rightarrow> 'a fs_state_scheme \<Rightarrow> ('a fs_state_scheme, nat option) outcome" where
  "create path type maj mnr s =
     bnd (nameiparent path (replicate DIRSIZ 0) s) (\<lambda>(dp, name) s.
     case dp of
       None \<Rightarrow> Ret None s
     | Some dp \<Rightarrow>
         bnd (ilock (Some dp) s) (\<lambda>_ s.
         bnd (dirlookup dp name s) (\<lambda>r s.
         case r of
           Some (ip, _) \<Rightarrow>
             bnd (iunlockput dp s) (\<lambda>_ s.
             bnd (ilock (Some ip) s) (\<lambda>_ s.
             if type = T_FILE \<and> (i_type (inodes s ip) = T_FILE \<or> i_type (inodes s ip) = T_DEVICE)
             then Ret (Some ip) s
             else bnd (iunlockput ip s) (\<lambda>_ s. Ret None s)))
         | None \<Rightarrow> create_new dp name type maj mnr s)))"

text \<open>The first part of \<open>sys_open\<close>: the locked inode, or \<open>None\<close> after \<open>end_op\<close>.\<close>

definition open_inode :: "u8 list \<Rightarrow> i32 \<Rightarrow> 'a fs_state_scheme \<Rightarrow> ('a fs_state_scheme, nat option) outcome" where
  "open_inode path omode s =
     (if omode AND O_CREATE \<noteq> 0
      then bnd (create path T_FILE 0 0 s) (\<lambda>ip s.
           case ip of None \<Rightarrow> bnd (end_op s) (\<lambda>_ s. Ret None s) | Some _ \<Rightarrow> Ret ip s)
      else bnd (namei path s) (\<lambda>ip s.
           case ip of
             None \<Rightarrow> bnd (end_op s) (\<lambda>_ s. Ret None s)
           | Some i \<Rightarrow>
               bnd (ilock ip s) (\<lambda>_ s.
               if i_type (inodes s i) = T_DIR \<and> omode \<noteq> O_RDONLY
               then bnd (iunlockput i s) (\<lambda>_ s. bnd (end_op s) (\<lambda>_ s. Ret None s))
               else Ret ip s)))"

definition open_file :: "nat \<Rightarrow> i32 \<Rightarrow> inode \<Rightarrow> kfile \<Rightarrow> kfile" where
  "open_file ip omode x f =
     (let f = (if i_type x = T_DEVICE then f\<lparr>f_type := FD_DEVICE, f_major := i_major x\<rparr>
               else f\<lparr>f_type := FD_INODE, f_off := 0\<rparr>)
      in f\<lparr>f_ip := Some ip, f_readable := (omode AND O_WRONLY = 0),
           f_writable := (omode AND O_WRONLY \<noteq> 0 \<or> omode AND O_RDWR \<noteq> 0)\<rparr>)"

definition sys_open :: "'a file_state_scheme \<Rightarrow> ('a file_state_scheme, u64) outcome" where
  "sys_open s =
     bnd (argint 1 s) (\<lambda>omode s.
     bnd (argstr 0 MAXPATH s) (\<lambda>(n, path) s.
     if n <s 0 then Ret (- 1) s
     else bnd (begin_op s) (\<lambda>_ s.
     bnd (open_inode (cstring path) omode s) (\<lambda>ip s.
     case ip of
       None \<Rightarrow> Ret (- 1) s
     | Some ip \<Rightarrow>
         if i_type (inodes s ip) = T_DEVICE \<and> (i_major (inodes s ip) <s 0 \<or> of_nat NDEV \<le>s i_major (inodes s ip))
         then bnd (iunlockput ip s) (\<lambda>_ s. fail_op s)
         else bnd (filealloc s) (\<lambda>f s.
         case f of
           None \<Rightarrow> bnd (iunlockput ip s) (\<lambda>_ s. fail_op s)
         | Some f \<Rightarrow>
             bnd (fdalloc f s) (\<lambda>fd s.
             case fd of
               None \<Rightarrow> bnd (fileclose f s) (\<lambda>_ s. bnd (iunlockput ip s) (\<lambda>_ s. fail_op s))
             | Some fd \<Rightarrow>
                 let s = upd_file f (open_file ip omode (inodes s ip)) s
                 in bnd (if omode AND O_TRUNC \<noteq> 0 \<and> i_type (inodes s ip) = T_FILE then itrunc ip s else Ret () s) (\<lambda>_ s.
                    bnd (iunlock (Some ip) s) (\<lambda>_ s.
                    bnd (end_op s) (\<lambda>_ s. Ret (of_nat fd) s)))))))))"

definition sys_mkdir :: "'a fs_state_scheme \<Rightarrow> ('a fs_state_scheme, u64) outcome" where
  "sys_mkdir s =
     bnd (begin_op s) (\<lambda>_ s.
     bnd (argstr 0 MAXPATH s) (\<lambda>(r, path) s.
     bnd (if r <s 0 then Ret None s else create (cstring path) T_DIR 0 0 s) (\<lambda>ip s.
     case ip of
       None \<Rightarrow> fail_op s
     | Some ip \<Rightarrow> bnd (iunlockput ip s) (\<lambda>_ s. bnd (end_op s) (\<lambda>_ s. Ret 0 s)))))"

definition sys_mknod :: "'a fs_state_scheme \<Rightarrow> ('a fs_state_scheme, u64) outcome" where
  "sys_mknod s =
     bnd (begin_op s) (\<lambda>_ s.
     bnd (argint 1 s) (\<lambda>maj s.
     bnd (argint 2 s) (\<lambda>mnr s.
     bnd (argstr 0 MAXPATH s) (\<lambda>(r, path) s.
     bnd (if r <s 0 then Ret None s else create (cstring path) T_DEVICE (ucast maj) (ucast mnr) s) (\<lambda>ip s.
     case ip of
       None \<Rightarrow> fail_op s
     | Some ip \<Rightarrow> bnd (iunlockput ip s) (\<lambda>_ s. bnd (end_op s) (\<lambda>_ s. Ret 0 s)))))))"

definition sys_chdir :: "'a fs_state_scheme \<Rightarrow> ('a fs_state_scheme, u64) outcome" where
  "sys_chdir s =
     bnd (curproc s) (\<lambda>p s.
     bnd (begin_op s) (\<lambda>_ s.
     bnd (argstr 0 MAXPATH s) (\<lambda>(r, path) s.
     bnd (if r <s 0 then Ret None s else namei (cstring path) s) (\<lambda>ip s.
     case ip of
       None \<Rightarrow> fail_op s
     | Some i \<Rightarrow>
         bnd (ilock ip s) (\<lambda>_ s.
         if i_type (inodes s i) \<noteq> T_DIR then bnd (iunlockput i s) (\<lambda>_ s. fail_op s)
         else bnd (iunlock ip s) (\<lambda>_ s.
              bnd (iput_ptr (p_cwd (procs s p)) s) (\<lambda>_ s.
              bnd (end_op s) (\<lambda>_ s.
              Ret 0 (upd_proc p (\<lambda>x. x\<lparr>p_cwd := ip\<rparr>) s)))))))))"

section \<open>\<open>sys_exec\<close> and \<open>sys_pipe\<close>\<close>

fun kfree_all :: "u64 list \<Rightarrow> 'a kmem_state_scheme \<Rightarrow> ('a kmem_state_scheme, unit) outcome" where
  "kfree_all [] s = Ret () s"
| "kfree_all (a # as) s = bnd (kfree a s) (\<lambda>_ s. kfree_all as s)"

text \<open>
  The loop that fetches the arguments: the pages in \<open>argv\<close> and, unless it went to \<open>bad\<close>, the strings in
  them.  The list has the indices below \<open>MAXARG\<close>.
\<close>

fun exec_args ::
    "nat list \<Rightarrow> u64 \<Rightarrow> u64 list \<Rightarrow> u8 list list \<Rightarrow> 'a proc_state_scheme \<Rightarrow> ('a proc_state_scheme, u64 list \<times> u8 list list option) outcome" where
  "exec_args [] uargv pages args s = Ret (pages, None) s"
| "exec_args (i # is) uargv pages args s =
     bnd (fetchaddr (uargv + 8 * of_nat i) s) (\<lambda>(r, uarg) s.
     if r <s 0 then Ret (pages, None) s
     else if uarg = 0 then Ret (pages, Some args) s
     else bnd (kalloc s) (\<lambda>pa s.
          if pa = 0 then Ret (pages, None) s
          else bnd (fetchstr uarg PGSIZE s) (\<lambda>(r, bs) s.
               let s = s\<lparr>mem := put_bytes pa bs (mem s)\<rparr> in
               if r <s 0 then Ret (pages @ [pa], None) s
               else exec_args is uargv (pages @ [pa]) (args @ [cstring bs]) s)))"

definition sys_exec :: "'a fs_state_scheme \<Rightarrow> ('a fs_state_scheme, u64) outcome" where
  "sys_exec s =
     bnd (argaddr 1 s) (\<lambda>uargv s.
     bnd (argstr 0 MAXPATH s) (\<lambda>(r, path) s.
     if r <s 0 then Ret (- 1) s
     else bnd (exec_args [0..<MAXARG] uargv [] [] s) (\<lambda>(pages, args) s.
          case args of
            None \<Rightarrow> bnd (kfree_all pages s) (\<lambda>_ s. Ret (- 1) s)
          | Some argv \<Rightarrow>
              bnd (exec (cstring path) argv s) (\<lambda>ret s.
              bnd (kfree_all pages s) (\<lambda>_ s. Ret (scast ret) s)))))"

definition sys_pipe :: "'a file_state_scheme \<Rightarrow> ('a file_state_scheme, u64) outcome" where
  "sys_pipe s =
     bnd (curproc s) (\<lambda>p s.
     bnd (argaddr 0 s) (\<lambda>fdarray s.
     bnd (pipealloc s) (\<lambda>(r, rf, wf) s.
     if r <s 0 then Ret (- 1) s
     else let close_both = (\<lambda>s. bnd (fileclose_ptr rf s) (\<lambda>_ s. bnd (fileclose_ptr wf s) (\<lambda>_ s. Ret (- 1) s))) in
     bnd (fdalloc (the rf) s) (\<lambda>fd0 s.
     case fd0 of
       None \<Rightarrow> close_both s
     | Some fd0 \<Rightarrow>
         bnd (fdalloc (the wf) s) (\<lambda>fd1 s.
         case fd1 of
           None \<Rightarrow> bnd (clear_fd fd0 s) (\<lambda>_ s. close_both s)
         | Some fd1 \<Rightarrow>
             bnd (copyout (p_pagetable (procs s p)) fdarray (le_bytes 4 fd0) s) (\<lambda>r s.
             bnd (if r <s 0 then Ret r s
                  else copyout (p_pagetable (procs s p)) (fdarray + 4) (le_bytes 4 fd1) s) (\<lambda>r s.
             if r <s 0
             then bnd (clear_fd fd0 s) (\<lambda>_ s. bnd (clear_fd fd1 s) (\<lambda>_ s. close_both s))
             else Ret 0 s)))))))"

end
