(* ===== verification/Syscall.thy ===== *)
theory Syscall
  imports SysFile
begin

text \<open>
  The system calls on processes and on the scheduler, \<open>kernel/sysproc.c\<close>, and the dispatch of system
  calls, \<open>kernel/syscall.c\<close>.
\<close>

section \<open>Scheduling\<close>

definition sys_get_waiting_time :: "'a proc_state_scheme \<Rightarrow> ('a proc_state_scheme, u64) outcome" where
  "sys_get_waiting_time s = bnd (argint 0 s) (\<lambda>pid s. bnd (get_waiting_time pid s) (\<lambda>r s. Ret (scast r) s))"

definition sys_yield :: "'a proc_state_scheme \<Rightarrow> ('a proc_state_scheme, u64) outcome" where
  "sys_yield s = bnd (yield s) (\<lambda>_ s. Ret 0 s)"

definition sys_fork_with_priority :: "'a file_state_scheme \<Rightarrow> ('a file_state_scheme, u64) outcome" where
  "sys_fork_with_priority s =
     bnd (argint 0 s) (\<lambda>prio s. bnd (fork_with_priority prio s) (\<lambda>r s. Ret (scast r) s))"

definition tab :: string where "tab = [CHR 9]"

primrec print_spaces :: "nat \<Rightarrow> 'a printf_state_scheme \<Rightarrow> ('a printf_state_scheme, unit) outcome" where
  "print_spaces 0 s = Ret () s"
| "print_spaces (Suc k) s = bnd (printf '' '' [] s) (\<lambda>_ s. print_spaces k s)"

definition print_padded :: "u8 list \<Rightarrow> nat \<Rightarrow> 'a printf_state_scheme \<Rightarrow> ('a printf_state_scheme, unit) outcome" where
  "print_padded t width s =
     bnd (printf ''%s'' [VStr (Some t)] s) (\<lambda>_ s. print_spaces (width - strlen t) s)"

fun state_str :: "procstate \<Rightarrow> string" where
  "state_str UNUSED = ''unused''"
| "state_str USED = ''used''"
| "state_str SLEEPING = ''sleeping''"
| "state_str RUNNABLE = ''runnable''"
| "state_str RUNNING = ''running''"
| "state_str ZOMBIE = ''zombie''"

definition top_line :: "proc \<Rightarrow> 'a printf_state_scheme \<Rightarrow> ('a printf_state_scheme, unit) outcome" where
  "top_line x s =
     bnd (printf (''%d'' @ tab) [VNum (scast (p_pid x))] s) (\<lambda>_ s.
     bnd (print_padded (cstr (state_str (p_state x))) 12 s) (\<lambda>_ s.
     bnd (printf (tab @ ''%d'' @ tab @ ''%d'' @ tab @ ''%s'' @ newline)
            [VNum (scast (p_priority x)), VNum (scast (p_arrival_time x)),
             VStr (Some (if p_name x ! 0 \<noteq> 0 then p_name x else cstr ''(unnamed)''))] s) (\<lambda>_ s. Ret () s)))"

fun sys_top_loop :: "nat list \<Rightarrow> 'a printf_state_scheme \<Rightarrow> ('a printf_state_scheme, unit) outcome" where
  "sys_top_loop [] s = Ret () s"
| "sys_top_loop (p # ps) s =
     bnd (acquire (ProcLock p) s) (\<lambda>_ s.
     bnd (if p_state (procs s p) \<noteq> UNUSED then top_line (procs s p) s else Ret () s) (\<lambda>_ s.
     bnd (release (ProcLock p) s) (\<lambda>_ s. sys_top_loop ps s)))"

definition sys_top :: "'a printf_state_scheme \<Rightarrow> ('a printf_state_scheme, u64) outcome" where
  "sys_top s =
     bnd (printf (''PID'' @ tab @ ''STATE       '' @ tab @ ''PRIO'' @ tab @ ''time'' @ tab @ ''NAME'' @ newline) [] s) (\<lambda>_ s.
     bnd (sys_top_loop [0..<NPROC] s) (\<lambda>_ s. Ret 0 s))"

fun set_priority_loop :: "i32 \<Rightarrow> i32 \<Rightarrow> nat list \<Rightarrow> 'a proc_state_scheme \<Rightarrow> ('a proc_state_scheme, i32) outcome" where
  "set_priority_loop pid prio [] s = Ret (- 1) s"
| "set_priority_loop pid prio (p # ps) s =
     bnd (acquire (ProcLock p) s) (\<lambda>_ s.
     if p_pid (procs s p) = pid
     then bnd (release (ProcLock p) (upd_proc p (\<lambda>x. x\<lparr>p_priority := prio\<rparr>) s)) (\<lambda>_ s. Ret 0 s)
     else bnd (release (ProcLock p) s) (\<lambda>_ s. set_priority_loop pid prio ps s))"

definition sys_set_priority :: "'a proc_state_scheme \<Rightarrow> ('a proc_state_scheme, u64) outcome" where
  "sys_set_priority s =
     bnd (argint 0 s) (\<lambda>pid s.
     bnd (argint 1 s) (\<lambda>prio s.
     bnd (set_priority_loop pid prio [0..<NPROC] s) (\<lambda>r s. Ret (scast r) s)))"

definition sys_set_sched :: "'a proc_state_scheme \<Rightarrow> ('a proc_state_scheme, u64) outcome" where
  "sys_set_sched s =
     bnd (argint 0 s) (\<lambda>mode s.
     if mode = 0 \<or> mode = 1 \<or> mode = 2 \<or> mode = 3 \<or> mode = 4
     then Ret 0 (s\<lparr>current_policy := mode\<rparr>)
     else Ret (- 1) s)"

section \<open>Processes\<close>

definition sys_exit :: "'a file_state_scheme \<Rightarrow> ('a file_state_scheme, u64) outcome" where
  "sys_exit s = bnd (argint 0 s) (\<lambda>n s. bnd (exit n s) (\<lambda>_ s. Ret 0 s))"

definition sys_getpid :: "'a proc_state_scheme \<Rightarrow> ('a proc_state_scheme, u64) outcome" where
  "sys_getpid s = bnd (curproc s) (\<lambda>p s. Ret (scast (p_pid (procs s p))) s)"

definition sys_fork :: "'a file_state_scheme \<Rightarrow> ('a file_state_scheme, u64) outcome" where
  "sys_fork s = bnd (fork s) (\<lambda>r s. Ret (scast r) s)"

definition sys_wait :: "'a proc_state_scheme \<Rightarrow> ('a proc_state_scheme, u64) outcome" where
  "sys_wait s = bnd (argaddr 0 s) (\<lambda>p s. bnd (wait p s) (\<lambda>r s. Ret (scast r) s))"

definition sys_sbrk :: "'a proc_state_scheme \<Rightarrow> ('a proc_state_scheme, u64) outcome" where
  "sys_sbrk s =
     bnd (argint 0 s) (\<lambda>n s.
     bnd (curproc s) (\<lambda>p s.
     let addr = p_sz (procs s p)
     in bnd (growproc n s) (\<lambda>r s. if r <s 0 then Ret (- 1) s else Ret addr s)))"

text \<open>The loop of \<open>sys_sleep\<close>; \<open>ticks - ticks0 < n\<close> compares unsigned.\<close>

function sys_sleep_loop :: "u32 \<Rightarrow> i32 \<Rightarrow> 'a proc_state_scheme \<Rightarrow> ('a proc_state_scheme, u64) outcome" where
  "sys_sleep_loop ticks0 n s =
     (if ticks s - ticks0 < n
      then bnd (curproc s) (\<lambda>p s.
           bnd (killed p s) (\<lambda>k s.
           if k \<noteq> 0 then bnd (release TicksLock s) (\<lambda>_ s. Ret (- 1) s)
           else bnd (sleep TicksChan TicksLock s) (\<lambda>_ s. sys_sleep_loop ticks0 n s)))
      else bnd (release TicksLock s) (\<lambda>_ s. Ret 0 s))"
  by pat_completeness auto
termination by (relation "{}") (auto simp: sleep_not_Ret)

declare sys_sleep_loop.simps [simp del]

definition sys_sleep :: "'a proc_state_scheme \<Rightarrow> ('a proc_state_scheme, u64) outcome" where
  "sys_sleep s =
     bnd (argint 0 s) (\<lambda>n s.
     let n = (if n <s 0 then 0 else n)
     in bnd (acquire TicksLock s) (\<lambda>_ s. sys_sleep_loop (ticks s) n s))"

definition sys_kill :: "'a proc_state_scheme \<Rightarrow> ('a proc_state_scheme, u64) outcome" where
  "sys_kill s = bnd (argint 0 s) (\<lambda>pid s. bnd (kill pid s) (\<lambda>r s. Ret (scast r) s))"

definition sys_uptime :: "'a proc_state_scheme \<Rightarrow> ('a proc_state_scheme, u64) outcome" where
  "sys_uptime s =
     bnd (acquire TicksLock s) (\<lambda>_ s.
     let xticks = ticks s
     in bnd (release TicksLock s) (\<lambda>_ s. Ret (ucast xticks) s))"

section \<open>Dispatch\<close>

text \<open>The table \<open>syscalls\<close> with the numbers of \<open>kernel/syscall.h\<close>.\<close>

definition syscalls :: "nat \<Rightarrow> ('a file_state_scheme \<Rightarrow> ('a file_state_scheme, u64) outcome) option" where
  "syscalls n =
     (if n = 1 then Some sys_fork
      else if n = 2 then Some sys_exit
      else if n = 3 then Some sys_wait
      else if n = 4 then Some sys_pipe
      else if n = 5 then Some sys_read
      else if n = 6 then Some sys_kill
      else if n = 7 then Some sys_exec
      else if n = 8 then Some sys_fstat
      else if n = 9 then Some sys_chdir
      else if n = 10 then Some sys_dup
      else if n = 11 then Some sys_getpid
      else if n = 12 then Some sys_sbrk
      else if n = 13 then Some sys_sleep
      else if n = 14 then Some sys_uptime
      else if n = 15 then Some sys_open
      else if n = 16 then Some sys_write
      else if n = 17 then Some sys_mknod
      else if n = 18 then Some sys_unlink
      else if n = 19 then Some sys_link
      else if n = 20 then Some sys_mkdir
      else if n = 21 then Some sys_close
      else if n = 22 then Some sys_set_sched
      else if n = 23 then Some sys_set_priority
      else if n = 24 then Some sys_top
      else if n = 25 then Some sys_fork_with_priority
      else if n = 26 then Some sys_yield
      else if n = 27 then Some sys_get_waiting_time
      else None)"

definition syscall :: "'a file_state_scheme \<Rightarrow> ('a file_state_scheme, unit) outcome" where
  "syscall s =
     bnd (curproc s) (\<lambda>p s.
     let num = (ucast (get_tf p TF_a7 s) :: i32) in
     case (if 0 <s num \<and> num <s 28 then syscalls (unat num) else None) of
       Some f \<Rightarrow> bnd (f s) (\<lambda>r s. Ret () (set_tf p TF_a0 r s))
     | None \<Rightarrow>
         bnd (printf (''%d %s: unknown sys call %d'' @ newline)
                [VNum (scast (p_pid (procs s p))), VStr (Some (p_name (procs s p))), VNum (scast num)] s) (\<lambda>_ s.
         Ret () (set_tf p TF_a0 (- 1) s)))"

end
