(* ===== verification/Trap.thy ===== *)
theory Trap
  imports Syscall
begin

text \<open>
  Traps and interrupts, \<open>kernel/trap.c\<close> and \<open>kernel/plic.c\<close>, \<open>forkret\<close> of \<open>kernel/proc.c\<close>, and the start of
  the kernel, \<open>kernel/main.c\<close>.

  The supervisor registers are kept for each hart.  \<open>plic_claims\<close> is the interrupt controller: the value
  a read of its claim register returns, given the hart and the writes so far; \<open>time_now\<close> is the \<open>time\<close>
  register.  The addresses of assembly code are fields.
\<close>

section \<open>State\<close>

record trap_state = file_state +
  stvec :: "nat \<Rightarrow> u64"
  sepc :: "nat \<Rightarrow> u64"
  scause :: "nat \<Rightarrow> u64"
  stval :: "nat \<Rightarrow> u64"
  stimecmp :: "nat \<Rightarrow> u64"
  time_now :: u64
  plic_claims :: "nat \<Rightarrow> (u64 \<times> u32) list \<Rightarrow> u32"
  plic_writes :: "(u64 \<times> u32) list"
  kernelvec_addr :: u64
  uservec_addr :: u64
  userret_addr :: u64
  usertrap_addr :: u64
  forkret_first :: bool
  started :: bool

definition w_stvec :: "u64 \<Rightarrow> 'a trap_state_scheme \<Rightarrow> 'a trap_state_scheme" where
  "w_stvec v s = s\<lparr>stvec := (stvec s)(tp s := v)\<rparr>"

definition w_sepc :: "u64 \<Rightarrow> 'a trap_state_scheme \<Rightarrow> 'a trap_state_scheme" where
  "w_sepc v s = s\<lparr>sepc := (sepc s)(tp s := v)\<rparr>"

definition r_scause :: "'a trap_state_scheme \<Rightarrow> u64" where
  "r_scause s = scause s (tp s)"

definition r_sepc :: "'a trap_state_scheme \<Rightarrow> u64" where
  "r_sepc s = sepc s (tp s)"

section \<open>The interrupt controller\<close>

definition UART0_IRQ :: i32 where "UART0_IRQ = 10"
definition VIRTIO0_IRQ :: i32 where "VIRTIO0_IRQ = 1"
definition PLIC_SENABLE :: "nat \<Rightarrow> u64" where "PLIC_SENABLE hart = PLIC + 0x2080 + of_nat hart * 0x100"
definition PLIC_SPRIORITY :: "nat \<Rightarrow> u64" where "PLIC_SPRIORITY hart = PLIC + 0x201000 + of_nat hart * 0x2000"
definition PLIC_SCLAIM :: "nat \<Rightarrow> u64" where "PLIC_SCLAIM hart = PLIC + 0x201004 + of_nat hart * 0x2000"

definition plic_write :: "u64 \<Rightarrow> u32 \<Rightarrow> 'a trap_state_scheme \<Rightarrow> 'a trap_state_scheme" where
  "plic_write a v s = s\<lparr>plic_writes := (a, v) # plic_writes s\<rparr>"

definition plicinit :: "'a trap_state_scheme \<Rightarrow> 'a trap_state_scheme" where
  "plicinit s =
     (let s = plic_write (PLIC + ucast UART0_IRQ * 4) 1 s
      in plic_write (PLIC + ucast VIRTIO0_IRQ * 4) 1 s)"

definition plicinithart :: "'a trap_state_scheme \<Rightarrow> 'a trap_state_scheme" where
  "plicinithart s =
     (let hart = cpuid s;
          s = plic_write (PLIC_SENABLE hart) (push_bit (unat UART0_IRQ) 1 OR push_bit (unat VIRTIO0_IRQ) 1) s
      in plic_write (PLIC_SPRIORITY hart) 0 s)"

definition plic_claim :: "'a trap_state_scheme \<Rightarrow> i32" where
  "plic_claim s = plic_claims s (cpuid s) (plic_writes s)"

definition plic_complete :: "i32 \<Rightarrow> 'a trap_state_scheme \<Rightarrow> 'a trap_state_scheme" where
  "plic_complete irq s = plic_write (PLIC_SCLAIM (cpuid s)) irq s"

section \<open>Interrupts\<close>

definition trapinit :: "'a hart_state_scheme \<Rightarrow> 'a hart_state_scheme" where
  "trapinit s = initlock TicksLock ''time'' s"

definition trapinithart :: "'a trap_state_scheme \<Rightarrow> 'a trap_state_scheme" where
  "trapinithart s = w_stvec (kernelvec_addr s) s"

definition clockintr :: "'a trap_state_scheme \<Rightarrow> ('a trap_state_scheme, unit) outcome" where
  "clockintr s =
     bnd (if cpuid s = 0
          then bnd (acquire TicksLock s) (\<lambda>_ s.
               bnd (wakeup (Some TicksChan) (s\<lparr>ticks := ticks s + 1\<rparr>)) (\<lambda>_ s.
               release TicksLock s))
          else Ret () s) (\<lambda>_ s.
     Ret () (s\<lparr>stimecmp := (stimecmp s)(tp s := time_now s + 1000000)\<rparr>))"

definition devintr :: "'a trap_state_scheme \<Rightarrow> ('a trap_state_scheme, i32) outcome" where
  "devintr s =
     (let cause = r_scause s in
      if cause = 0x8000000000000009
      then let irq = plic_claim s
           in bnd (if irq = UART0_IRQ then uartintr s
                   else if irq = VIRTIO0_IRQ then virtio_disk_intr s
                   else if irq \<noteq> 0
                   then bnd (printf (''unexpected interrupt irq=%d'' @ newline) [VNum (scast irq)] s) (\<lambda>_ s. Ret () s)
                   else Ret () s) (\<lambda>_ s.
              Ret 1 (if irq \<noteq> 0 then plic_complete irq s else s))
      else if cause = 0x8000000000000005 then bnd (clockintr s) (\<lambda>_ s. Ret 2 s)
      else Ret 0 s)"

section \<open>Returning to user space\<close>

text \<open>
  \<open>usertrapret\<close> up to its jump into the trampoline; the result is the argument \<open>satp\<close> of \<open>userret\<close>.
\<close>

definition usertrapret :: "'a trap_state_scheme \<Rightarrow> ('a trap_state_scheme, u64) outcome" where
  "usertrapret s =
     bnd (curproc s) (\<lambda>p s.
     let s = intr_off s;
         s = w_stvec (TRAMPOLINE + (uservec_addr s - trampoline s)) s;
         s = set_tf p TF_kernel_satp (satp s (tp s)) s;
         s = set_tf p TF_kernel_sp (p_kstack (procs s p) + PGSIZE) s;
         s = set_tf p TF_kernel_trap (usertrap_addr s) s;
         s = set_tf p TF_kernel_hartid (of_nat (tp s)) s;
         x = (r_sstatus s AND NOT SSTATUS_SPP) OR SSTATUS_SPIE;
         s = w_sstatus x s;
         s = w_sepc (get_tf p TF_epc s) s
     in Ret (MAKE_SATP (p_pagetable (procs s p))) s)"

section \<open>Traps from user space\<close>

definition max_ticks :: "i32 \<Rightarrow> i32 option" where
  "max_ticks l = (if l = 0 then Some 5 else if l = 1 then Some 10 else if l = 2 then Some 20 else None)"

text \<open>
  The part of \<open>usertrap\<close> after a timer interrupt.  The read of \<open>max_ticks\<close> outside the array has no
  defined result.
\<close>

definition mlfq_expire :: "nat \<Rightarrow> 'a printf_state_scheme \<Rightarrow> ('a printf_state_scheme, unit) outcome" where
  "mlfq_expire p s =
     (let x = procs s p in
      bnd (if p_queue_level x <s of_nat QUEUE_LEVELS - 1
           then bnd (printf (''PID=%d exceeded time slice at tick=%d, demoting from level %d to %d'' @ newline)
                       [VNum (scast (p_pid x)), VNum (ucast (ticks s)), VNum (scast (p_queue_level x)),
                        VNum (scast (p_queue_level x + 1))] s) (\<lambda>_ s.
                Ret () (upd_proc p (\<lambda>x. x\<lparr>p_queue_level := p_queue_level x + 1\<rparr>) s))
           else bnd (printf (''PID=%d reached time slice limit at tick=%d (already at lowest level %d)'' @ newline)
                       [VNum (scast (p_pid x)), VNum (ucast (ticks s)), VNum (scast (p_queue_level x))] s) (\<lambda>_ s.
                Ret () s)) (\<lambda>_ s.
      yield (upd_proc p (\<lambda>x. x\<lparr>p_time_slice := 0\<rparr>) s)))"

definition user_tick :: "nat \<Rightarrow> 'a printf_state_scheme \<Rightarrow> ('a printf_state_scheme, unit) outcome" where
  "user_tick p s =
     (let s = (if p_state (procs s p) = RUNNING
               then upd_proc p (\<lambda>x. x\<lparr>p_total_ticks := p_total_ticks x + 1\<rparr>) s else s) in
      if current_policy s = 0 \<and> p_state (procs s p) = RUNNING then yield s
      else if current_policy s = 4 \<and> p_state (procs s p) = RUNNING
      then let s = upd_proc p (\<lambda>x. x\<lparr>p_time_slice := p_time_slice x + 1\<rparr>) s in
           case max_ticks (p_queue_level (procs s p)) of
             None \<Rightarrow> Undef
           | Some m \<Rightarrow> if m \<le>s p_time_slice (procs s p) then mlfq_expire p s else Ret () s
      else Ret () s)"

definition usertrap :: "'a trap_state_scheme \<Rightarrow> ('a trap_state_scheme, u64) outcome" where
  "usertrap s =
     (if r_sstatus s AND SSTATUS_SPP \<noteq> 0 then Panic ''usertrap: not from user mode''
      else let s = w_stvec (kernelvec_addr s) s in
      bnd (curproc s) (\<lambda>p s.
      let s = set_tf p TF_epc (r_sepc s) s in
      bnd (if r_scause s = 8
           then bnd (killed p s) (\<lambda>k s.
                bnd (if k \<noteq> 0 then exit (- 1) s else Ret () s) (\<lambda>_ s.
                let s = set_tf p TF_epc (get_tf p TF_epc s + 4) s
                in bnd (syscall (intr_on s)) (\<lambda>_ s. Ret 0 s)))
           else bnd (devintr s) (\<lambda>which_dev s.
                bnd (if which_dev = 0 then setkilled p s else Ret () s) (\<lambda>_ s. Ret which_dev s))) (\<lambda>which_dev s.
      bnd (killed p s) (\<lambda>k s.
      bnd (if k \<noteq> 0 then exit (- 1) s else Ret () s) (\<lambda>_ s.
      bnd (if which_dev = 2 then user_tick p s else Ret () s) (\<lambda>_ s.
      usertrapret s))))))"

section \<open>Traps from the kernel\<close>

definition kerneltrap :: "'a trap_state_scheme \<Rightarrow> ('a trap_state_scheme, unit) outcome" where
  "kerneltrap s =
     (let epc = r_sepc s;
          status = r_sstatus s;
          cause = r_scause s in
      if status AND SSTATUS_SPP = 0 then Panic ''kerneltrap: not from supervisor mode''
      else if intr_get s then Panic ''kerneltrap: interrupts enabled''
      else bnd (devintr s) (\<lambda>which_dev s.
           if which_dev = 0
           then bnd (printf (''kerneltrap: unexpected scause 0x%lx sepc=0x%lx stval=0x%lx'' @ newline)
                       [VNum cause, VNum epc, VNum (stval s (tp s))] s) (\<lambda>_ s. Panic ''kerneltrap'')
           else bnd (if which_dev = 2
                     then bnd (myproc s) (\<lambda>p s.
                          if p \<noteq> None \<and> (current_policy s = 0 \<or> current_policy s = 4) then yield s else Ret () s)
                     else Ret () s) (\<lambda>_ s.
                Ret () (w_sstatus status (w_sepc epc s)))))"

section \<open>The first run of a process\<close>

definition forkret :: "'a trap_state_scheme \<Rightarrow> ('a trap_state_scheme, u64) outcome" where
  "forkret s =
     bnd (curproc s) (\<lambda>p s.
     bnd (release (ProcLock p) s) (\<lambda>_ s.
     bnd (if forkret_first s then bnd (fsinit ROOTDEV s) (\<lambda>_ s. Ret () (s\<lparr>forkret_first := False\<rparr>)) else Ret () s) (\<lambda>_ s.
     let s = upd_proc p (\<lambda>x. x\<lparr>p_runtime_start_ticks := ticks s\<rparr>) s
     in usertrapret s)))"

section \<open>Booting\<close>

text \<open>
  \<open>main\<close> up to its call of \<open>scheduler\<close>.  A hart other than 0 waits until \<open>started\<close> is set; before that the
  outcome is \<open>NoFuel\<close>.
\<close>

definition print_line :: "string \<Rightarrow> 'a printf_state_scheme \<Rightarrow> ('a printf_state_scheme, unit) outcome" where
  "print_line t s = bnd (printf (t @ newline) [] s) (\<lambda>_ s. Ret () s)"

definition main :: "'a trap_state_scheme \<Rightarrow> ('a trap_state_scheme, unit) outcome" where
  "main s =
     (if cpuid s = 0
      then let s = printfinit (consoleinit s) in
           bnd (print_line '''' s) (\<lambda>_ s.
           bnd (print_line ''xv6 kernel is booting'' s) (\<lambda>_ s.
           bnd (print_line '''' s) (\<lambda>_ s.
           bnd (kinit s) (\<lambda>_ s.
           bnd (kvminit s) (\<lambda>_ s.
           bnd (kvminithart s) (\<lambda>_ s.
           let s = procinit s;
               s = trapinit s;
               s = trapinithart s;
               s = plicinit s;
               s = plicinithart s;
               s = binit s;
               s = iinit s;
               s = fileinit s
           in bnd (virtio_disk_init s) (\<lambda>_ s.
              bnd (userinit s) (\<lambda>_ s.
              Ret () (s\<lparr>started := True\<rparr>)))))))))
      else if \<not> started s then NoFuel
      else bnd (printf (''hart %d starting'' @ newline) [VNum (of_nat (cpuid s))] s) (\<lambda>_ s.
           bnd (kvminithart s) (\<lambda>_ s.
           let s = trapinithart s
           in Ret () (plicinithart s))))"

section \<open>Machine mode\<close>

text \<open>
  \<open>kernel/start.c\<close>, run by every hart with its own registers before \<open>tp\<close> holds the hart's number; \<open>h\<close> is
  the value of \<open>mhartid\<close>.
\<close>

record boot_state = trap_state +
  mstatus :: "nat \<Rightarrow> u64"
  mepc :: "nat \<Rightarrow> u64"
  medeleg :: "nat \<Rightarrow> u64"
  mideleg :: "nat \<Rightarrow> u64"
  sie :: "nat \<Rightarrow> u64"
  pmpaddr0 :: "nat \<Rightarrow> u64"
  pmpcfg0 :: "nat \<Rightarrow> u64"
  mie :: "nat \<Rightarrow> u64"
  menvcfg :: "nat \<Rightarrow> u64"
  mcounteren :: "nat \<Rightarrow> u64"
  main_addr :: u64

definition MSTATUS_MPP_MASK :: u64 where "MSTATUS_MPP_MASK = push_bit 11 3"
definition MSTATUS_MPP_S :: u64 where "MSTATUS_MPP_S = push_bit 11 1"
definition SIE_SEIE :: u64 where "SIE_SEIE = push_bit 9 1"
definition SIE_STIE :: u64 where "SIE_STIE = push_bit 5 1"
definition SIE_SSIE :: u64 where "SIE_SSIE = push_bit 1 1"
definition MIE_STIE :: u64 where "MIE_STIE = push_bit 5 1"

definition timerinit :: "nat \<Rightarrow> 'a boot_state_scheme \<Rightarrow> 'a boot_state_scheme" where
  "timerinit h s =
     (let s = s\<lparr>mie := (mie s)(h := mie s h OR MIE_STIE)\<rparr>;
          s = s\<lparr>menvcfg := (menvcfg s)(h := menvcfg s h OR push_bit 63 1)\<rparr>;
          s = s\<lparr>mcounteren := (mcounteren s)(h := mcounteren s h OR 2)\<rparr>
      in s\<lparr>stimecmp := (stimecmp s)(h := time_now s + 1000000)\<rparr>)"

definition start :: "nat \<Rightarrow> 'a boot_state_scheme \<Rightarrow> 'a boot_state_scheme" where
  "start h s =
     (let x = (mstatus s h AND NOT MSTATUS_MPP_MASK) OR MSTATUS_MPP_S;
          s = s\<lparr>mstatus := (mstatus s)(h := x)\<rparr>;
          s = s\<lparr>mepc := (mepc s)(h := main_addr s)\<rparr>;
          s = s\<lparr>satp := (satp s)(h := 0)\<rparr>;
          s = s\<lparr>medeleg := (medeleg s)(h := 0xffff)\<rparr>;
          s = s\<lparr>mideleg := (mideleg s)(h := 0xffff)\<rparr>;
          s = s\<lparr>sie := (sie s)(h := sie s h OR SIE_SEIE OR SIE_STIE OR SIE_SSIE)\<rparr>;
          s = s\<lparr>pmpaddr0 := (pmpaddr0 s)(h := 0x3fffffffffffff)\<rparr>;
          s = s\<lparr>pmpcfg0 := (pmpcfg0 s)(h := 0xf)\<rparr>;
          s = timerinit h s
      in s\<lparr>tp := h\<rparr>)"

end
