(* ===== verification/DiskRw.thy ===== *)
theory DiskRw
  imports Virtio
begin

text \<open>
  What a transfer of a block does: \<open>virtio_disk_rw\<close>, called by a process without locks while the disk is
  idle, returns with the block read or written, for every device that follows the virtio protocol.
  The intermediate lemmas follow the process through \<open>sleep\<close>, the device, the interrupt handler, \<open>wakeup\<close>
  and the scheduler.
\<close>

section \<open>What waiting changes\<close>

text \<open>A process without the fields that sleeping, waking and dispatching write.\<close>

definition core :: "proc \<Rightarrow> proc" where
  "core x = x\<lparr>p_state := UNUSED, p_chan := None, p_last_runtime := 0, p_runtime_start_ticks := 0,
     p_ready_time := 0, p_run_start_time := 0, p_waiting_time := 0\<rparr>"

lemma core_upd [simp]:
  "core (x\<lparr>p_state := v1\<rparr>) = core x" "core (x\<lparr>p_chan := v2\<rparr>) = core x"
  "core (x\<lparr>p_last_runtime := v3\<rparr>) = core x" "core (x\<lparr>p_runtime_start_ticks := v4\<rparr>) = core x"
  "core (x\<lparr>p_ready_time := v5\<rparr>) = core x" "core (x\<lparr>p_run_start_time := v6\<rparr>) = core x"
  "core (x\<lparr>p_waiting_time := v7\<rparr>) = core x"
  by (simp_all add: core_def)

lemma core_eqD:
  assumes "core x = core y"
  shows "p_pid x = p_pid y" "p_queue_level x = p_queue_level y" "p_killed x = p_killed y" "p_pagetable x = p_pagetable y"
    "p_sz x = p_sz y" "p_trapframe x = p_trapframe y" "p_ofile x = p_ofile y" "p_cwd x = p_cwd y"
  using arg_cong [OF assms, of p_pid] arg_cong [OF assms, of p_queue_level] arg_cong [OF assms, of p_killed]
    arg_cong [OF assms, of p_pagetable] arg_cong [OF assms, of p_sz] arg_cong [OF assms, of p_trapframe]
    arg_cong [OF assms, of p_ofile] arg_cong [OF assms, of p_cwd]
  by (simp_all add: core_def)

text \<open>Only scheduling fields and the queues differ between two states.\<close>

definition resched :: "'a proc_state_scheme \<Rightarrow> 'a proc_state_scheme \<Rightarrow> bool" where
  "resched s s' \<longleftrightarrow> (\<forall>i. core (procs s' i) = core (procs s i)) \<and>
     s' = s\<lparr>procs := procs s', queue := queue s', qsize := qsize s'\<rparr>"

lemma reschedI:
  "s' = s\<lparr>procs := P, queue := q, qsize := n\<rparr> \<Longrightarrow> (\<And>i. core (P i) = core (procs s i)) \<Longrightarrow> resched s s'"
  by (simp add: resched_def)

lemma reschedE:
  assumes "resched s s'"
  obtains P q n where "s' = s\<lparr>procs := P, queue := q, qsize := n\<rparr>" "\<And>i. core (P i) = core (procs s i)"
  using assms by (auto simp: resched_def)

lemma resched_refl [simp]: "resched s s"
  by (simp add: resched_def)

lemma resched_queue: "resched s (s\<lparr>queue := q, qsize := n\<rparr>)"
  by (simp add: resched_def)

lemma resched_trans: "resched s t \<Longrightarrow> resched t u \<Longrightarrow> resched s u"
  by (elim reschedE) (auto intro!: reschedI)

lemma resched_upd_proc: "(\<And>x. core (f x) = core x) \<Longrightarrow> resched s (upd_proc p f s)"
  by (rule reschedI [where P = "(procs s)(p := f (procs s p))" and q = "queue s" and n = "qsize s"]) (simp_all add: upd_proc_def)

lemma resched_hart:
  assumes "resched s s'"
  shows "tp s' = tp s" "cpus s' = cpus s" "locks s' = locks s" "sstatus s' = sstatus s" "mem s' = mem s"
    "ticks s' = ticks s" "current_policy s' = current_policy s" "lock_free k s' = lock_free k s"
    "proc_locks_free s' = proc_locks_free s" "proc_state.more s' = proc_state.more s"
  using assms by (auto elim!: reschedE simp: lock_free_def proc_locks_free_def)

lemma resched_core: "resched s s' \<Longrightarrow> core (procs s' i) = core (procs s i)"
  by (simp add: resched_def)

lemma resched_level: "resched s s' \<Longrightarrow> level_of s' = level_of s"
  by (simp add: level_of_def fun_eq_iff core_eqD(2) [OF resched_core])

section \<open>A process in the kernel\<close>

text \<open>Process \<open>p\<close> runs on this hart, and no hart holds a spinlock.\<close>

definition in_kernel :: "nat \<Rightarrow> 'a proc_state_scheme \<Rightarrow> bool" where
  "in_kernel p s \<longleftrightarrow> cpu_proc (cpus s (tp s)) = Some p \<and> p < NPROC \<and> (\<forall>k. lock_free k s) \<and> mlfq_good s"

lemma in_kernelD:
  assumes "in_kernel p s"
  shows "cpu_proc (cpus s (tp s)) = Some p" "p < NPROC" "lock_free k s" "mlfq_good s" "proc_locks_free s"
  using assms by (simp_all add: in_kernel_def proc_locks_free_def)

lemma in_kernel_resched: "resched s s' \<Longrightarrow> mlfq_good s' \<Longrightarrow> in_kernel p s \<Longrightarrow> in_kernel p s'"
  by (auto simp: in_kernel_def resched_hart)

lemma wake_state_resched: "resched s (wake_state s c ps q n)"
  by (rule reschedI [where P = "wake_procs s c (set ps)" and q = q and n = n]) (simp_all add: wake_state_def wake_procs_def)

lemma wakeup_resched:
  assumes "user_locks H" "\<forall>k. lock_free k s" "mlfq_good s"
  obtains s' where "wakeup c (with_held H s) = Ret () (with_held H s')" "resched s s'" "mlfq_good s'"
    "procs s' = wake_procs s c {0..<NPROC}"
proof -
  have "proc_locks_free s" using assms(2) by (simp add: proc_locks_free_def)
  then obtain q n where "wakeup c (with_held H s) = Ret () (with_held H (wake_state s c [0..<NPROC] q n))"
      "woken_lists s c [0..<NPROC] (wake_state s c [0..<NPROC] q n)"
    using wakeup_with_held [OF assms(1) _ assms(3)] by metis
  then show ?thesis using that [OF _ wake_state_resched] by (auto simp: woken_lists_def)
qed

lemma set_cpu_proc_commute:
  "set_cpu_proc c (s\<lparr>procs := P\<rparr>) = (set_cpu_proc c s)\<lparr>procs := P\<rparr>"
  "set_cpu_proc c (s\<lparr>queue := q\<rparr>) = (set_cpu_proc c s)\<lparr>queue := q\<rparr>"
  "set_cpu_proc c (s\<lparr>qsize := n\<rparr>) = (set_cpu_proc c s)\<lparr>qsize := n\<rparr>"
  "set_cpu_proc c (upd_proc p f s) = upd_proc p f (set_cpu_proc c s)"
  by (simp_all add: set_cpu_proc_def upd_mycpu_def mycpu_def cpuid_def upd_proc_def)

lemma resched_set_cpu:
  assumes "resched s s'"
  shows "resched (set_cpu_proc c s) (set_cpu_proc c s')"
proof -
  obtain P q n where e: "s' = s\<lparr>procs := P, queue := q, qsize := n\<rparr>" "\<And>i. core (P i) = core (procs s i)"
    using assms by (auto elim: reschedE)
  have c: "set_cpu_proc c s' = (set_cpu_proc c s)\<lparr>procs := P, queue := q, qsize := n\<rparr>"
    by (simp add: e(1) set_cpu_proc_commute)
  show ?thesis by (rule reschedI [OF c]) (simp add: e(2))
qed

lemma set_cpu_back:
  "cpu_proc (cpus s (tp s)) = Some p \<Longrightarrow> set_cpu_proc (Some p) (set_cpu_proc None s) = s"
  by (cases "cpus s (tp s)") (simp add: set_cpu_proc_def upd_mycpu_def mycpu_def cpuid_def fun_upd_idem)

lemma SIE_or_same: "x AND SSTATUS_SIE \<noteq> 0 \<Longrightarrow> x OR SSTATUS_SIE = x"
  using SIE_clear_set [of x] by (metis or.assoc or.idem)

lemma set_sie_same: "set_sie (intr_get s) s = s"
  by (cases "intr_get s") (simp_all add: set_sie_def hart_defs SIE_clear_id SIE_or_same)

text \<open>The scheduler takes the CPU back from a sleeping process.\<close>

lemma scheduler_takes:
  assumes "in_kernel p s"
  obtains s' where "scheduler_resume (if current_policy (with_held {ProcLock p} s) = 3 then AfterHrrn p else AfterRun p)
      (with_held {ProcLock p} s) = Ret Again (with_held {} (set_cpu_proc None s'))"
    "resched s s'" "mlfq_good s'" "p_state (procs s' p) = p_state (procs s p)" "p_chan (procs s' p) = p_chan (procs s p)"
proof -
  note k = in_kernelD [OF assms]
  have m: "mlfq_good (upd_proc p (\<lambda>x. x\<lparr>p_last_runtime := v\<rparr>) s)" for v
    using k(4) by (simp add: mlfq_good_def mlfq_ok_def level_of_def)
  show ?thesis
  proof (cases "current_policy s = 3")
    case True
    define v where "v = (if 0 <s ticks s - p_runtime_start_ticks (procs s p) then ticks s - p_runtime_start_ticks (procs s p) else 1)"
    show ?thesis
      using True k(3) m
      by (intro that [of "upd_proc p (\<lambda>x. x\<lparr>p_last_runtime := v\<rparr>) s"])
         (simp_all add: lock_simps Let_def release_last resched_upd_proc v_def set_cpu_proc_commute)
  next
    case False
    then show ?thesis using k(3,4) by (intro that [of s]) (simp_all add: lock_simps release_last)
  qed
qed

text \<open>The scheduler dispatches a runnable process again.\<close>

lemma policy_dispatch_with_held [lock_simps]:
  "policy_dispatch p (with_held H s) = with_held H (policy_dispatch p s)"
  by (simp add: policy_dispatch_def Let_def lock_simps cong: if_cong)

lemma queue_ok_filter: "queue_ok xs \<Longrightarrow> queue_ok (filter Q xs)"
  by (auto simp: queue_ok_def)

lemma filter_blank:
  "filter (\<lambda>x. x \<noteq> None) (map (\<lambda>x. if x = Some p then None else x) xs) = filter (\<lambda>x. x \<noteq> None \<and> x \<noteq> Some p) xs"
  by (induction xs) auto

lemma mlfq_leave:
  assumes "mlfq_good s"
  obtains q n where "compact_queue l (s\<lparr>queue := (queue s)(l := \<lambda>i. if queue s l i = Some p then None else queue s l i)\<rparr>) =
      s\<lparr>queue := q, qsize := n\<rparr>" "mlfq_good (s\<lparr>queue := q, qsize := n\<rparr>)"
proof -
  let ?t = "s\<lparr>queue := (queue s)(l := \<lambda>i. if queue s l i = Some p then None else queue s l i)\<rparr>"
  obtain q n where e: "compact_queue l ?t = ?t\<lparr>queue := q, qsize := n\<rparr>" using compact_queue_frame by blast
  have "mlfq_list ?t l = map (\<lambda>x. if x = Some p then None else x) (mlfq_list s l)"
    by (simp add: mlfq_list_def row_def)
  then have "filter (\<lambda>x. x \<noteq> None) (mlfq_list ?t l) = filter (\<lambda>x. x \<noteq> None \<and> x \<noteq> Some p) (mlfq_list s l)"
    by (simp only: filter_blank)
  then have "mlfq_list (s\<lparr>queue := q, qsize := n\<rparr>) m =
      (if m = l then filter (\<lambda>x. x \<noteq> None \<and> x \<noteq> Some p) (mlfq_list s l) else mlfq_list s m)" for m
    using compact_list [of l ?t m] e by (simp add: mlfq_list_def)
  then have "mlfq_good (s\<lparr>queue := q, qsize := n\<rparr>)"
    using assms by (auto simp: mlfq_good_def mlfq_ok_def level_of_def queue_ok_filter)
  with e show ?thesis using that by simp
qed

lemma policy_dispatch_form:
  assumes "mlfq_good s"
  obtains s' where "policy_dispatch p s = set_cpu_proc (Some p) s'" "resched s s'" "mlfq_good s'"
    "p_chan (procs s' p) = p_chan (procs s p)" "p_state (procs s' p) = RUNNING"
proof -
  let ?d = "\<lambda>t. upd_proc p (\<lambda>x. x\<lparr>p_state := RUNNING\<rparr>) t"
  have r: "resched t (account_wait p t)" "resched t (?d t)"
      "resched t (upd_proc p (\<lambda>x. x\<lparr>p_runtime_start_ticks := v\<rparr>) t)" for t :: "'a proc_state_scheme" and v
    unfolding account_wait_def Let_def
    by (rule resched_trans [OF resched_upd_proc resched_upd_proc] resched_upd_proc, simp_all)+
  have g: "mlfq_good (account_wait p t) = mlfq_good t" "mlfq_good (?d t) = mlfq_good t"
      "mlfq_good (upd_proc p (\<lambda>x. x\<lparr>p_runtime_start_ticks := v\<rparr>) t) = mlfq_good t" for t :: "'a proc_state_scheme" and v
    by (auto simp: account_wait_def Let_def mlfq_good_def mlfq_ok_def level_of_def)
  consider "current_policy s = 3" | "current_policy s = 4" | "current_policy s \<noteq> 3" "current_policy s \<noteq> 4" by auto
  then show ?thesis
  proof cases
    case 1
    let ?t = "?d (upd_proc p (\<lambda>x. x\<lparr>p_runtime_start_ticks := ticks s\<rparr>) (account_wait p s))"
    have "resched s ?t" by (rule resched_trans [OF resched_trans [OF r(1) r(3)] r(2)])
    with 1 assms show ?thesis by (intro that [of ?t]) (simp_all add: policy_dispatch_def g)
  next
    case 2
    let ?t = "?d (account_wait p s)" and ?l = "unat (p_queue_level (procs s p))"
    have t: "resched s ?t" by (rule resched_trans [OF r(1) r(2)])
    have gt: "mlfq_good ?t" using assms by (simp add: g)
    obtain q n where e: "compact_queue ?l (?t\<lparr>queue := (queue ?t)(?l := \<lambda>i. if queue ?t ?l i = Some p then None else queue ?t ?l i)\<rparr>) =
        ?t\<lparr>queue := q, qsize := n\<rparr>" "mlfq_good (?t\<lparr>queue := q, qsize := n\<rparr>)"
      using mlfq_leave [OF gt] by blast
    have c: "compact_queue l (set_cpu_proc c u) = set_cpu_proc c (compact_queue l u)" for l c and u :: "'a proc_state_scheme"
      by (simp add: compact_queue_def set_cpu_proc_commute split: prod.splits)
    have "policy_dispatch p s = set_cpu_proc (Some p) (?t\<lparr>queue := q, qsize := n\<rparr>)"
      unfolding e(1) [symmetric] using 2 by (simp add: policy_dispatch_def Let_def dispatch_def set_cpu_proc_commute [symmetric] c cong: if_cong)
    moreover have "resched ?t (?t\<lparr>queue := q, qsize := n\<rparr>)" by (rule resched_queue)
    ultimately show ?thesis
      using e(2) resched_trans [OF t] by (intro that [of "?t\<lparr>queue := q, qsize := n\<rparr>"]) simp_all
  next
    case 3
    with assms resched_trans [OF r(1) r(2)] show ?thesis
      by (intro that [of "?d (account_wait p s)"]) (simp_all add: policy_dispatch_def dispatch_def g)
  qed
qed

lemma redispatch_resumes:
  assumes "p < NPROC" "\<forall>k. lock_free k s" "mlfq_good s" "p_state (procs s p) = RUNNABLE" "user_locks {lk}"
  obtains s' where "redispatch p (ResumeSleep lk ie) (with_held {} s) =
      Ret () (with_held {lk} (set_sie ie (set_cpu_proc (Some p) s')))" "resched s s'" "mlfq_good s'"
proof -
  obtain t where t: "policy_dispatch p s = set_cpu_proc (Some p) t" "resched s t" "mlfq_good t"
    using policy_dispatch_form [OF assms(3), of p] by blast
  let ?u = "upd_proc p (\<lambda>x. x\<lparr>p_chan := None\<rparr>) t"
  have f: "lock_free k t" for k using assms(2) resched_hart(8) [OF t(2)] by simp
  have "proc_locks_free (set_cpu_proc (Some p) t)" "lock_free lk (set_cpu_proc (Some p) t)"
    using f by (simp_all add: proc_locks_free_def lock_simps)
  from resume_sleep_with_held [OF assms(1) this assms(5), of ie]
  have "resume_thread p (ResumeSleep lk ie) (with_held {ProcLock p} (set_cpu_proc (Some p) t)) =
      Ret () (with_held {lk} (upd_proc p (\<lambda>x. x\<lparr>p_chan := None\<rparr>) (set_sie ie (set_cpu_proc (Some p) t))))" .
  moreover have "upd_proc p (\<lambda>x. x\<lparr>p_chan := None\<rparr>) (set_sie ie (set_cpu_proc (Some p) t)) =
      set_sie ie (set_cpu_proc (Some p) ?u)"
    by (simp add: set_cpu_proc_commute set_sie_def hart_defs upd_proc_def)
  ultimately have "redispatch p (ResumeSleep lk ie) (with_held {} s) = Ret () (with_held {lk} (set_sie ie (set_cpu_proc (Some p) ?u)))"
    using assms(2,4) t(1) by (simp add: redispatch_def lock_simps)
  moreover have "resched s ?u" by (rule resched_trans [OF t(2) resched_upd_proc]) simp
  moreover have "mlfq_good ?u" using t(3) by (simp add: mlfq_good_def mlfq_ok_def level_of_def)
  ultimately show ?thesis by (rule that)
qed

section \<open>The device\<close>

text \<open>
  The virtio protocol for one request (virtio 1.1, sections 2.6 and 5.2): when the driver has made one
  chain of descriptors available, with the request header, the data buffer and the status byte, the
  device transfers two sectors of 512 bytes, stores the status 0 and enters the head of the chain into
  the used ring.
\<close>

definition pending :: "vio \<Rightarrow> nat \<Rightarrow> nat \<Rightarrow> bool \<Rightarrow> u64 \<Rightarrow> bool" where
  "pending v i b write sec \<longleftrightarrow>
     (let d0 = v_desc v i; d1 = v_desc v (unat (d_next d0)); d2 = v_desc v (unat (d_next d1)) in
      i < NUM \<and> v_avail_idx v = v_used_idx v + 1 \<and> v_avail_ring v (unat (v_used_idx v) mod NUM) = of_nat i \<and>
      d_addr d0 = DmaOps i \<and> d_flags d0 = VRING_DESC_F_NEXT \<and>
      v_ops v i = \<lparr>r_type = (if write then VIRTIO_BLK_T_OUT else VIRTIO_BLK_T_IN), r_reserved = 0, r_sector = sec\<rparr> \<and>
      d_addr d1 = DmaData b \<and> d_len d1 = of_nat BSIZE \<and>
      d_flags d1 = (if write then 0 else VRING_DESC_F_WRITE) OR VRING_DESC_F_NEXT \<and>
      d_addr d2 = DmaStatus i \<and> d_flags d2 = VRING_DESC_F_WRITE)"

definition completed :: "vio \<Rightarrow> nat \<Rightarrow> nat \<Rightarrow> bool \<Rightarrow> u64 \<Rightarrow> vio" where
  "completed v i b write sec =
     (let v' = v\<lparr>v_used_idx := v_used_idx v + 1,
                 v_used_ring := (v_used_ring v)(unat (v_used_idx v) mod NUM := of_nat i),
                 v_status := (v_status v)(i := 0)\<rparr>
      in if write
         then v'\<lparr>v_sectors := (v_sectors v)(sec := take 512 (b_data v b), sec + 1 := drop 512 (b_data v b))\<rparr>
         else v'\<lparr>b_data := (b_data v)(b := v_sectors v sec @ v_sectors v (sec + 1))\<rparr>)"

definition block_device :: "(vio \<Rightarrow> vio) \<Rightarrow> bool" where
  "block_device dev \<longleftrightarrow> (\<forall>v i b write sec. pending v i b write sec \<longrightarrow> dev v = completed v i b write sec)"

text \<open>The contents of a block on the disk and in a buffer.\<close>

definition block_sector :: "u32 \<Rightarrow> u64" where
  "block_sector n = ucast (n * of_nat (BSIZE div 512))"

definition disk_block :: "vio \<Rightarrow> u32 \<Rightarrow> u8 list" where
  "disk_block v n = v_sectors v (block_sector n) @ v_sectors v (block_sector n + 1)"

definition put_block :: "u32 \<Rightarrow> u8 list \<Rightarrow> vio \<Rightarrow> vio" where
  "put_block n d v = v\<lparr>v_sectors := (v_sectors v)(block_sector n := take 512 d, block_sector n + 1 := drop 512 d)\<rparr>"

text \<open>No request is on its way, and every descriptor is free.\<close>

definition disk_idle :: "'a disk_state_scheme \<Rightarrow> bool" where
  "disk_idle s \<longleftrightarrow> (\<forall>i < NUM. vd_free s i) \<and> v_avail_idx (vio s) = v_used_idx (vio s) \<and>
     vd_used_idx s = v_used_idx (vio s) \<and> (\<forall>b. b_disk (bufs s b) = 0) \<and> block_device (virtio_dev s)"

section \<open>Disk fields and rescheduling\<close>

lemma resched_disk_sel:
  assumes "resched s s'"
  shows "bufs s' = bufs s" "vio s' = vio s" "vd_free s' = vd_free s" "vd_used_idx s' = vd_used_idx s"
    "vd_info_b s' = vd_info_b s" "virtio_dev s' = virtio_dev s" "virtio_regs s' = virtio_regs s"
    "virtio_writes s' = virtio_writes s" "disk_state.more s' = disk_state.more s"
  using assms by (auto elim!: reschedE)

lemma resched_disk_upd:
  assumes "resched s s'"
  shows "resched (s\<lparr>bufs := B\<rparr>) (s'\<lparr>bufs := B\<rparr>)" "resched (s\<lparr>vio := v\<rparr>) (s'\<lparr>vio := v\<rparr>)"
    "resched (s\<lparr>vd_free := fr\<rparr>) (s'\<lparr>vd_free := fr\<rparr>)" "resched (s\<lparr>vd_used_idx := u\<rparr>) (s'\<lparr>vd_used_idx := u\<rparr>)"
    "resched (s\<lparr>vd_info_b := i\<rparr>) (s'\<lparr>vd_info_b := i\<rparr>)" "resched (s\<lparr>virtio_writes := w\<rparr>) (s'\<lparr>virtio_writes := w\<rparr>)"
  by (rule reschedE [OF assms], simp add: resched_def)+

lemma set_cpu_proc_disk:
  "set_cpu_proc c (s\<lparr>bufs := B\<rparr>) = (set_cpu_proc c s)\<lparr>bufs := B\<rparr>"
  "set_cpu_proc c (s\<lparr>vio := v\<rparr>) = (set_cpu_proc c s)\<lparr>vio := v\<rparr>"
  "set_cpu_proc c (s\<lparr>vd_free := fr\<rparr>) = (set_cpu_proc c s)\<lparr>vd_free := fr\<rparr>"
  "set_cpu_proc c (s\<lparr>vd_used_idx := u\<rparr>) = (set_cpu_proc c s)\<lparr>vd_used_idx := u\<rparr>"
  "set_cpu_proc c (s\<lparr>vd_info_b := i\<rparr>) = (set_cpu_proc c s)\<lparr>vd_info_b := i\<rparr>"
  "set_cpu_proc c (s\<lparr>virtio_writes := w\<rparr>) = (set_cpu_proc c s)\<lparr>virtio_writes := w\<rparr>"
  by (simp_all add: set_cpu_proc_def upd_mycpu_def mycpu_def cpuid_def)

lemma set_cpu_proc_disk_sel [simp]:
  "bufs (set_cpu_proc c s) = bufs s" "vio (set_cpu_proc c s) = vio s" "vd_free (set_cpu_proc c s) = vd_free s"
  "vd_used_idx (set_cpu_proc c s) = vd_used_idx s" "vd_info_b (set_cpu_proc c s) = vd_info_b s"
  "virtio_dev (set_cpu_proc c s) = virtio_dev s" "virtio_regs (set_cpu_proc c s) = virtio_regs s"
  "virtio_writes (set_cpu_proc c s) = virtio_writes s"
  by (simp_all add: set_cpu_proc_def upd_mycpu_def)

section \<open>The parts of a transfer\<close>

lemma alloc3_idle:
  assumes "\<forall>i < NUM. vd_free s i"
  shows "alloc3_desc (with_held H s) =
    Ret (Some [0, 1, 2]) (with_held H (s\<lparr>vd_free := (vd_free s)(0 := False, 1 := False, 2 := False)\<rparr>))"
proof -
  have f: "vd_free s 0" "vd_free s (Suc 0)" "vd_free s 2" using assms by (simp_all add: NUM_def)
  have u: "[0..<NUM] = [0, 1, 2, 3, 4, 5, 6, 7]" by (simp add: NUM_def upt_rec)
  show ?thesis using f unfolding alloc3_desc_def numeral_3_eq_3 alloc3_loop.simps alloc_desc_def u
    by (simp add: lock_simps)
qed

lemma intr_one:
  assumes "\<forall>k. lock_free k s" "mlfq_good s" "v_used_idx (vio s) = vd_used_idx s + 1"
    and "v_used_ring (vio s) (unat (vd_used_idx s) mod NUM) = of_nat i" "i < NUM" "v_status (vio s) i = 0"
    and "vd_info_b s i = Some b"
  obtains w s' where "virtio_disk_intr (with_held {} s) = Ret () (with_held {} s')"
    "resched (s\<lparr>virtio_writes := w, bufs := (bufs s)(b := (bufs s b)\<lparr>b_disk := 0\<rparr>), vd_used_idx := vd_used_idx s + 1\<rparr>) s'"
    "mlfq_good s'" "procs s' = wake_procs s (Some (BufChan b)) {0..<NPROC}"
proof -
  let ?s1 = "R_write VIRTIO_MMIO_INTERRUPT_ACK (R_read VIRTIO_MMIO_INTERRUPT_STATUS s AND 3) s"
  let ?s2 = "upd_buf b (\<lambda>x. x\<lparr>b_disk := 0\<rparr>) ?s1"
  have i: "unat (of_nat i :: u32) = i" using assms(5) by (simp add: NUM_def unat_of_nat_u32)
  have n: "unat (v_used_idx (vio s) - vd_used_idx s) = Suc 0" using assms(3) by simp
  have f: "\<forall>k. lock_free k ?s2" "mlfq_good ?s2" using assms(1,2) by (simp_all add: upd_buf_def R_write_def)
  have "user_locks {VdiskLock}" by (simp add: user_locks_def)
  then obtain s3 where w: "wakeup (Some (BufChan b)) (with_held {VdiskLock} ?s2) = Ret () (with_held {VdiskLock} s3)"
      "resched ?s2 s3" "mlfq_good s3" "procs s3 = wake_procs ?s2 (Some (BufChan b)) {0..<NPROC}"
    using wakeup_resched [of "{VdiskLock}" ?s2 "Some (BufChan b)"] f by metis
  have g: "wake_procs ?s2 c A = wake_procs s c A" for c A
    by (simp add: wake_procs_def wakes_def upd_buf_def R_write_def fun_eq_iff)
  have u: "vd_used_idx s3 = vd_used_idx s" using resched_disk_sel(4) [OF w(2)] by (simp add: upd_buf_def R_write_def)
  let ?s4 = "s3\<lparr>vd_used_idx := vd_used_idx s + 1\<rparr>"
  have "virtio_disk_intr (with_held {} s) = Ret () (with_held {} ?s4)"
    using assms(1,4,6,7) w(1) resched_hart(8) [OF w(2)] f(1) n i u
    by (simp add: virtio_disk_intr_def lock_simps Let_def R_write_def release_last)
  moreover have "resched (s\<lparr>virtio_writes := virtio_writes ?s1, bufs := (bufs s)(b := (bufs s b)\<lparr>b_disk := 0\<rparr>),
      vd_used_idx := vd_used_idx s + 1\<rparr>) ?s4"
    using resched_disk_upd(4) [OF w(2), of "vd_used_idx s + 1"] by (simp add: upd_buf_def R_write_def)
  moreover have "mlfq_good ?s4" "procs ?s4 = wake_procs s (Some (BufChan b)) {0..<NPROC}" using w(3,4) g by simp_all
  ultimately show ?thesis by (rule that)
qed

text \<open>The state when the process continues after the interrupt.\<close>

definition after_intr :: "'a disk_state_scheme \<Rightarrow> (u64 \<times> u32) list \<Rightarrow> nat \<Rightarrow> vio \<Rightarrow> 'a disk_state_scheme" where
  "after_intr s wr b v =
     s\<lparr>vio := v, virtio_writes := wr, bufs := (bufs s)(b := (bufs s b)\<lparr>b_disk := 0\<rparr>), vd_used_idx := vd_used_idx s + 1\<rparr>"

lemma resched_after_intr: "resched s s' \<Longrightarrow> resched (after_intr s wr b v) (after_intr s' wr b v)"
  unfolding after_intr_def using resched_disk_sel(1,4) [of s s'] by (simp add: resched_disk_upd)

lemma set_cpu_after_intr: "after_intr (set_cpu_proc c s) wr b v = set_cpu_proc c (after_intr s wr b v)"
  by (simp add: after_intr_def set_cpu_proc_disk)

lemma after_intr_hart [simp]:
  "cpus (after_intr s wr b v) = cpus s" "tp (after_intr s wr b v) = tp s" "sstatus (after_intr s wr b v) = sstatus s"
  by (simp_all add: after_intr_def)

lemma in_kernel_after_intr: "in_kernel p s \<Longrightarrow> in_kernel p (after_intr s wr b v)"
  by (simp add: in_kernel_def after_intr_def)

lemma disk_sleep_done:
  assumes "in_kernel p s" "pending (vio s) i b write sec" "vd_used_idx s = v_used_idx (vio s)"
    and "vd_info_b s i = Some b" "block_device (virtio_dev s)"
  obtains wr s' where "disk_sleep b (with_held {VdiskLock} s) = Ret () (with_held {VdiskLock} s')"
    "resched (after_intr s wr b (completed (vio s) i b write sec)) s'" "in_kernel p s'"
proof -
  note k = in_kernelD [OF assms(1)]
  let ?s1 = "upd_proc p (\<lambda>x. x\<lparr>p_chan := Some (BufChan b), p_state := SLEEPING\<rparr>) s" and ?v = "completed (vio s) i b write sec"
  have u: "user_locks {VdiskLock}" by (simp add: user_locks_def)
  have sl: "sleep (BufChan b) VdiskLock (with_held {VdiskLock} s) =
      Swtch (ResumeSleep VdiskLock (intr_get s)) (with_held {ProcLock p} ?s1)"
    by (rule sleep_with_held [OF k(1,2,5,3) u])
  have r1: "resched s ?s1" by (rule resched_upd_proc) simp
  have "mlfq_good ?s1" using k(4) by (simp add: mlfq_good_def mlfq_ok_def level_of_def)
  then have ik1: "in_kernel p ?s1" using in_kernel_resched [OF r1] assms(1) by blast
  obtain s2 where s2: "scheduler_resume (if current_policy (with_held {ProcLock p} ?s1) = 3 then AfterHrrn p else AfterRun p)
        (with_held {ProcLock p} ?s1) = Ret Again (with_held {} (set_cpu_proc None s2))"
      "resched ?s1 s2" "mlfq_good s2" "p_state (procs s2 p) = SLEEPING" "p_chan (procs s2 p) = Some (BufChan b)"
    using scheduler_takes [OF ik1] by auto
  have r2: "resched s s2" by (rule resched_trans [OF r1 s2(2)])
  let ?t = "(set_cpu_proc None s2)\<lparr>vio := ?v\<rparr>"
  have ud: "upd_vio (virtio_dev (set_cpu_proc None s2)) (set_cpu_proc None s2) = ?t"
    using assms(2,5) resched_disk_sel [OF r2] by (simp add: upd_vio_def block_device_def)
  have i: "i < NUM" using assms(2) by (simp add: pending_def Let_def)
  have vt: "vio ?t = ?v" "vd_used_idx ?t = v_used_idx (vio s)" "vd_info_b ?t i = Some b" "bufs ?t = bufs s"
    using assms(3,4) resched_disk_sel [OF r2] by simp_all
  have v: "v_used_idx ?v = v_used_idx (vio s) + 1" "v_used_ring ?v (unat (v_used_idx (vio s)) mod NUM) = of_nat i" "v_status ?v i = 0"
    by (simp_all add: completed_def Let_def)
  have lt: "\<forall>k. lock_free k ?t" "mlfq_good ?t"
    using k(3) s2(3) resched_hart(8) [OF r2]
    by (simp_all add: lock_simps mlfq_good_def mlfq_ok_def mlfq_list_def level_of_def)
  obtain wr s3 where s3: "virtio_disk_intr (with_held {} ?t) = Ret () (with_held {} s3)"
      "resched (?t\<lparr>virtio_writes := wr, bufs := (bufs ?t)(b := (bufs ?t b)\<lparr>b_disk := 0\<rparr>), vd_used_idx := vd_used_idx ?t + 1\<rparr>) s3"
      "mlfq_good s3" "procs s3 = wake_procs ?t (Some (BufChan b)) {0..<NPROC}"
    using intr_one [of ?t i b] lt vt v i by metis
  have r3: "resched (set_cpu_proc None (after_intr s2 wr b ?v)) s3"
    using s3(2) by (simp add: after_intr_def set_cpu_proc_disk)
  have "p_state (procs s3 p) = RUNNABLE" using s2(4,5) k(2) s3(4) by (simp add: wake_procs_def wakes_def)
  moreover have "\<forall>k. lock_free k s3" using lt(1) resched_hart(8) [OF s3(2)] by simp
  ultimately obtain s4 where s4: "redispatch p (ResumeSleep VdiskLock (intr_get s)) (with_held {} s3) =
        Ret () (with_held {VdiskLock} (set_sie (intr_get s) (set_cpu_proc (Some p) s4)))" "resched s3 s4" "mlfq_good s4"
    using redispatch_resumes [OF k(2) _ s3(3) _ u] by metis
  let ?s5 = "set_cpu_proc (Some p) s4" and ?a = "after_intr s2 wr b ?v"
  have "resched (set_cpu_proc (Some p) (set_cpu_proc None ?a)) ?s5"
    by (rule resched_set_cpu [OF resched_trans [OF r3 s4(2)]])
  moreover have "cpu_proc (cpus ?a (tp ?a)) = Some p" using k(1) resched_hart(1,2) [OF r2] by simp
  ultimately have "resched ?a ?s5" by (simp add: set_cpu_back)
  then have r5: "resched (after_intr s wr b ?v) ?s5" by (rule resched_trans [OF resched_after_intr [OF r2]])
  have "intr_get ?s5 = intr_get s" using resched_hart(1,4) [OF r5] by (simp add: intr_get_def r_sstatus_def)
  then have "set_sie (intr_get s) ?s5 = ?s5" using set_sie_same [of ?s5] by simp
  then have "disk_sleep b (with_held {VdiskLock} s) = Ret () (with_held {VdiskLock} ?s5)"
    using k(1) sl s2(1) ud s3(1) s4(1) by (simp add: disk_sleep_def disk_turn_def lock_simps del: scheduler_resume.simps)
  moreover have "mlfq_good ?s5" using s4(3) by (simp add: mlfq_good_def mlfq_ok_def mlfq_list_def level_of_def)
  then have "in_kernel p ?s5" using in_kernel_resched [OF r5] in_kernel_after_intr [OF assms(1)] by blast
  ultimately show ?thesis using r5 that by blast
qed

lemma in_kernel_disk [simp]:
  "in_kernel p (s\<lparr>bufs := B\<rparr>) = in_kernel p s" "in_kernel p (s\<lparr>vio := v\<rparr>) = in_kernel p s"
  "in_kernel p (s\<lparr>vd_free := fr\<rparr>) = in_kernel p s" "in_kernel p (s\<lparr>vd_used_idx := u\<rparr>) = in_kernel p s"
  "in_kernel p (s\<lparr>vd_info_b := i\<rparr>) = in_kernel p s" "in_kernel p (s\<lparr>virtio_writes := w\<rparr>) = in_kernel p s"
  by (simp_all add: in_kernel_def)

lemma free_desc_resched:
  assumes "in_kernel p s" "i < NUM" "\<not> vd_free s i"
  obtains s' where "free_desc i (with_held {VdiskLock} s) = Ret () (with_held {VdiskLock} s')"
    "resched (s\<lparr>vio := (vio s)\<lparr>v_desc := (v_desc (vio s))(i := zero_desc)\<rparr>, vd_free := (vd_free s)(i := True)\<rparr>) s'" "in_kernel p s'"
proof -
  let ?t = "s\<lparr>vio := (vio s)\<lparr>v_desc := (v_desc (vio s))(i := zero_desc)\<rparr>, vd_free := (vd_free s)(i := True)\<rparr>"
  have t: "in_kernel p ?t" using assms(1) by simp
  have "user_locks {VdiskLock}" by (simp add: user_locks_def)
  then obtain s' where s': "wakeup (Some DiskFreeChan) (with_held {VdiskLock} ?t) = Ret () (with_held {VdiskLock} s')"
      "resched ?t s'" "mlfq_good s'"
    using wakeup_resched [of "{VdiskLock}" ?t "Some DiskFreeChan"] in_kernelD(3,4) [OF t] by metis
  moreover have "free_desc i (with_held {VdiskLock} s) = wakeup (Some DiskFreeChan) (with_held {VdiskLock} ?t)"
    using assms(2,3) by (simp add: free_desc_def lock_simps Let_def set_desc_def upd_vio_def)
  ultimately show ?thesis using that in_kernel_resched [OF s'(2,3) t] by simp
qed

lemma free_chain3:
  assumes "in_kernel p s" "\<not> vd_free s 0" "\<not> vd_free s 1" "\<not> vd_free s 2"
    and "d_flags (v_desc (vio s) 0) AND VRING_DESC_F_NEXT \<noteq> 0" "d_next (v_desc (vio s) 0) = 1"
    and "d_flags (v_desc (vio s) 1) AND VRING_DESC_F_NEXT \<noteq> 0" "d_next (v_desc (vio s) 1) = 2"
    and "d_flags (v_desc (vio s) 2) AND VRING_DESC_F_NEXT = 0"
  obtains s' where "free_chain 0 (with_held {VdiskLock} s) = Ret () (with_held {VdiskLock} s')"
    "resched (s\<lparr>vio := (vio s)\<lparr>v_desc := (v_desc (vio s))(0 := zero_desc, 1 := zero_desc, 2 := zero_desc)\<rparr>,
       vd_free := (vd_free s)(0 := True, 1 := True, 2 := True)\<rparr>) s'" "in_kernel p s'"
proof -
  let ?f = "\<lambda>i t. t\<lparr>vio := (vio t)\<lparr>v_desc := (v_desc (vio t))(i := zero_desc)\<rparr>, vd_free := (vd_free t)(i := True)\<rparr>"
  have f: "resched (?f i t) (?f i t')" if "resched t t'" for i and t t' :: "'a disk_state_scheme"
    using resched_disk_upd [OF resched_disk_upd(2) [OF that]] resched_disk_sel [OF that] by simp
  have e: "NUM = Suc (Suc (Suc 5))" by (simp add: NUM_def)
  have n: "(0 :: nat) < NUM" "(1 :: nat) < NUM" "(2 :: nat) < NUM" by (simp_all add: NUM_def)
  obtain s1 where 1: "free_desc 0 (with_held {VdiskLock} s) = Ret () (with_held {VdiskLock} s1)" "resched (?f 0 s) s1" "in_kernel p s1"
    by (rule free_desc_resched [OF assms(1) n(1) assms(2)])
  have "\<not> vd_free s1 1" using assms(3) resched_disk_sel(3) [OF 1(2)] by simp
  from free_desc_resched [OF 1(3) n(2) this]
  obtain s2 where 2: "free_desc 1 (with_held {VdiskLock} s1) = Ret () (with_held {VdiskLock} s2)" "resched (?f 1 s1) s2" "in_kernel p s2" .
  have r2: "resched (?f 1 (?f 0 s)) s2" by (rule resched_trans [OF f [OF 1(2)] 2(2)])
  have "\<not> vd_free s2 2" using assms(4) resched_disk_sel(3) [OF r2] by simp
  from free_desc_resched [OF 2(3) n(3) this]
  obtain s3 where 3: "free_desc 2 (with_held {VdiskLock} s2) = Ret () (with_held {VdiskLock} s3)" "resched (?f 2 s2) s3" "in_kernel p s3" .
  have r3: "resched (?f 2 (?f 1 (?f 0 s))) s3" by (rule resched_trans [OF f [OF r2] 3(2)])
  have v: "v_desc (vio s1) 1 = v_desc (vio s) 1" "v_desc (vio s2) 2 = v_desc (vio s) 2"
    using resched_disk_sel(2) [OF 1(2)] resched_disk_sel(2) [OF r2] by simp_all
  have "free_chain 0 (with_held {VdiskLock} s) = Ret () (with_held {VdiskLock} s3)"
    using 1(1) 2(1) 3(1) v assms(5-9) unfolding free_chain_def e free_chain_loop.simps
    by (simp add: lock_simps)
  then show ?thesis using that r3 3(3) by simp
qed

lemma disk_request_with_held [lock_simps]:
  "disk_request b write i0 i1 i2 (with_held H s) = with_held H (disk_request b write i0 i1 i2 s)"
  by (simp add: disk_request_def Let_def lock_simps)

lemma flags_next:
  "VRING_DESC_F_NEXT AND VRING_DESC_F_NEXT \<noteq> 0" "VRING_DESC_F_WRITE AND VRING_DESC_F_NEXT = 0"
  "((if write then 0 else VRING_DESC_F_WRITE) OR VRING_DESC_F_NEXT) AND VRING_DESC_F_NEXT \<noteq> 0"
  by (simp_all add: VRING_DESC_F_NEXT_def VRING_DESC_F_WRITE_def)

lemma disk_request_form:
  assumes "v_avail_idx (vio s) = v_used_idx (vio s)"
  obtains v w where "disk_request b write 0 1 2 s = s\<lparr>vio := v, bufs := (bufs s)(b := (bufs s b)\<lparr>b_disk := 1\<rparr>),
      vd_info_b := (vd_info_b s)(0 := Some b), virtio_writes := w\<rparr>"
    "pending v 0 b write (block_sector (b_blockno (bufs s b)))" "v_used_idx v = v_used_idx (vio s)"
    "v_avail_idx v = v_used_idx (vio s) + 1" "b_data v = b_data (vio s)" "v_sectors v = v_sectors (vio s)"
    "d_flags (v_desc v 0) AND VRING_DESC_F_NEXT \<noteq> 0" "d_next (v_desc v 0) = 1"
    "d_flags (v_desc v 1) AND VRING_DESC_F_NEXT \<noteq> 0" "d_next (v_desc v 1) = 2" "d_flags (v_desc v 2) AND VRING_DESC_F_NEXT = 0"
proof -
  let ?t = "disk_request b write 0 1 2 s"
  have "?t = s\<lparr>vio := vio ?t, bufs := (bufs s)(b := (bufs s b)\<lparr>b_disk := 1\<rparr>),
      vd_info_b := (vd_info_b s)(0 := Some b), virtio_writes := virtio_writes ?t\<rparr>"
    by (simp add: disk_request_def Let_def upd_vio_def set_desc_def upd_buf_def R_write_def)
  moreover have "pending (vio ?t) 0 b write (block_sector (b_blockno (bufs s b)))"
    using assms by (simp add: disk_request_def Let_def upd_vio_def set_desc_def upd_buf_def R_write_def pending_def
        block_sector_def NUM_def)
  moreover have "v_used_idx (vio ?t) = v_used_idx (vio s)" "v_avail_idx (vio ?t) = v_used_idx (vio s) + 1"
      "b_data (vio ?t) = b_data (vio s)" "v_sectors (vio ?t) = v_sectors (vio s)"
      "d_flags (v_desc (vio ?t) 0) AND VRING_DESC_F_NEXT \<noteq> 0" "d_next (v_desc (vio ?t) 0) = 1"
      "d_flags (v_desc (vio ?t) 1) AND VRING_DESC_F_NEXT \<noteq> 0" "d_next (v_desc (vio ?t) 1) = 2"
      "d_flags (v_desc (vio ?t) 2) AND VRING_DESC_F_NEXT = 0"
    using assms flags_next
    by (simp_all add: disk_request_def Let_def upd_vio_def set_desc_def upd_buf_def R_write_def)
  ultimately show ?thesis by (rule that)
qed

section \<open>The transfer\<close>

definition transfer :: "bool \<Rightarrow> nat \<Rightarrow> u32 \<Rightarrow> vio \<Rightarrow> vio \<Rightarrow> bool" where
  "transfer write b n v v' \<longleftrightarrow>
     (if write then v_sectors v' = v_sectors (put_block n (b_data v b) v) \<and> b_data v' = b_data v
      else v_sectors v' = v_sectors v \<and> b_data v' = (b_data v)(b := disk_block v n))"

text \<open>The chain of the request after the device has processed it.\<close>

definition served :: "bool \<Rightarrow> nat \<Rightarrow> u32 \<Rightarrow> vio \<Rightarrow> vio \<Rightarrow> bool" where
  "served write b n v c \<longleftrightarrow> transfer write b n v c \<and> v_used_idx c = v_used_idx v + 1 \<and> v_avail_idx c = v_used_idx v + 1 \<and>
     d_flags (v_desc c 0) AND VRING_DESC_F_NEXT \<noteq> 0 \<and> d_next (v_desc c 0) = 1 \<and>
     d_flags (v_desc c 1) AND VRING_DESC_F_NEXT \<noteq> 0 \<and> d_next (v_desc c 1) = 2 \<and>
     d_flags (v_desc c 2) AND VRING_DESC_F_NEXT = 0"

lemma request_served:
  assumes "in_kernel p s" "disk_idle s"
  obtains c wr t where
    "disk_wait b (disk_request b write 0 1 2 (with_held {VdiskLock} (s\<lparr>vd_free := fr\<rparr>))) = Ret () (with_held {VdiskLock} t)"
    "resched (s\<lparr>vd_free := fr, vd_info_b := (vd_info_b s)(0 := Some b), vio := c, virtio_writes := wr,
       vd_used_idx := vd_used_idx s + 1\<rparr>) t"
    "in_kernel p t" "served write b (b_blockno (bufs s b)) (vio s) c"
proof -
  have idle: "v_avail_idx (vio s) = v_used_idx (vio s)" "vd_used_idx s = v_used_idx (vio s)"
      "\<forall>b. b_disk (bufs s b) = 0" "block_device (virtio_dev s)"
    using assms(2) by (simp_all add: disk_idle_def)
  let ?n = "b_blockno (bufs s b)"
  define sA where "sA = s\<lparr>vd_free := fr\<rparr>"
  have A: "vio sA = vio s" "bufs sA = bufs s" "vd_info_b sA = vd_info_b s" by (simp_all add: sA_def)
  define sB where "sB = disk_request b write 0 1 2 sA"
  obtain v w where
    q: "sB = sA\<lparr>vio := v, bufs := (bufs s)(b := (bufs s b)\<lparr>b_disk := 1\<rparr>),
        vd_info_b := (vd_info_b s)(0 := Some b), virtio_writes := w\<rparr>"
      "pending v 0 b write (block_sector ?n)" "v_used_idx v = v_used_idx (vio s)" "v_avail_idx v = v_used_idx (vio s) + 1"
      "b_data v = b_data (vio s)" "v_sectors v = v_sectors (vio s)"
    and d: "d_flags (v_desc v 0) AND VRING_DESC_F_NEXT \<noteq> 0" "d_next (v_desc v 0) = 1"
      "d_flags (v_desc v 1) AND VRING_DESC_F_NEXT \<noteq> 0" "d_next (v_desc v 1) = 2" "d_flags (v_desc v 2) AND VRING_DESC_F_NEXT = 0"
    using disk_request_form [of sA b "write", unfolded A] idle(1) unfolding sB_def by metis
  define c where "c = completed v 0 b write (block_sector ?n)"
  have B: "in_kernel p sB" "vio sB = v" "vd_used_idx sB = v_used_idx v" "vd_info_b sB 0 = Some b"
      "virtio_dev sB = virtio_dev s" "b_disk (bufs sB b) = 1"
    using assms(1) idle(2) q(3) by (simp_all add: q(1) sA_def)
  obtain wr t where C: "disk_sleep b (with_held {VdiskLock} sB) = Ret () (with_held {VdiskLock} t)"
      "resched (after_intr sB wr b c) t" "in_kernel p t"
    using disk_sleep_done [OF B(1), of 0 b "write" "block_sector ?n"] B(2-5) q(2) idle(4) unfolding c_def by metis
  have "disk_wait b (with_held {VdiskLock} sB) = Ret () (with_held {VdiskLock} t)"
    using B(6) C(1) resched_disk_sel(1) [OF C(2)] by (simp add: disk_wait_def lock_simps after_intr_def)
  moreover have "(bufs s)(b := (bufs s b)\<lparr>b_disk := 0\<rparr>) = bufs s"
    using idle(3) by (cases "bufs s b") (auto simp: fun_eq_iff)
  then have "after_intr sB wr b c = s\<lparr>vd_free := fr, vd_info_b := (vd_info_b s)(0 := Some b), vio := c, virtio_writes := wr,
      vd_used_idx := vd_used_idx s + 1\<rparr>"
    by (simp add: after_intr_def q(1) sA_def)
  moreover have "served write b ?n (vio s) c"
    using q(3-6) d by (simp add: served_def transfer_def c_def completed_def Let_def put_block_def disk_block_def)
  ultimately show ?thesis using C(2,3) that by (simp add: lock_simps sB_def sA_def)
qed

lemma virtio_disk_rw_done:
  assumes "in_kernel p s" "disk_idle s"
  obtains v wr u inf s' where "virtio_disk_rw b write (with_held {} s) = Ret () (with_held {} s')"
    "resched (s\<lparr>virtio_writes := wr, vd_used_idx := u, vd_info_b := inf, vio := v\<rparr>) s'" "in_kernel p s'" "disk_idle s'"
    "transfer write b (b_blockno (bufs s b)) (vio s) v"
proof -
  have idle: "\<forall>i < NUM. vd_free s i" "vd_used_idx s = v_used_idx (vio s)" using assms(2) by (simp_all add: disk_idle_def)
  let ?F = "(vd_free s)(0 := False, 1 := False, 2 := False)" and ?inf = "(vd_info_b s)(0 := None)" and ?u = "vd_used_idx s + 1"
  obtain c wr t where
    t: "disk_wait b (disk_request b write 0 1 2 (with_held {VdiskLock} (s\<lparr>vd_free := ?F\<rparr>))) = Ret () (with_held {VdiskLock} t)"
      "resched (s\<lparr>vd_free := ?F, vd_info_b := (vd_info_b s)(0 := Some b), vio := c, virtio_writes := wr, vd_used_idx := ?u\<rparr>) t"
      "in_kernel p t" "served write b (b_blockno (bufs s b)) (vio s) c"
    by (rule request_served [OF assms])
  let ?t = "t\<lparr>vd_info_b := (vd_info_b t)(0 := None)\<rparr>"
  let ?v = "c\<lparr>v_desc := (v_desc c)(0 := zero_desc, 1 := zero_desc, 2 := zero_desc)\<rparr>"
  have T: "in_kernel p ?t" "vd_free ?t = ?F" "vio ?t = c" "vd_info_b t = (vd_info_b s)(0 := Some b)"
    using t(3) resched_disk_sel [OF t(2)] by simp_all
  obtain s' where E: "free_chain 0 (with_held {VdiskLock} ?t) = Ret () (with_held {VdiskLock} s')"
      "resched (?t\<lparr>vio := ?v, vd_free := ?F(0 := True, 1 := True, 2 := True)\<rparr>) s'" "in_kernel p s'"
    using free_chain3 [OF T(1), unfolded T(2,3)] t(4) unfolding served_def by (metis fun_upd_same fun_upd_other zero_neq_one zero_neq_numeral one_eq_numeral_iff semiring_norm(85))
  have fr: "?F(0 := True, 1 := True, 2 := True) = vd_free s" using idle(1) by (auto simp: fun_eq_iff NUM_def)
  have "resched (s\<lparr>vd_free := ?F, vd_info_b := (vd_info_b s)(0 := Some b), vio := c, virtio_writes := wr, vd_used_idx := ?u,
      vd_info_b := ?inf, vio := ?v, vd_free := vd_free s\<rparr>) (?t\<lparr>vio := ?v, vd_free := vd_free s\<rparr>)"
    using resched_disk_upd(3) [OF resched_disk_upd(2) [OF resched_disk_upd(5) [OF t(2)]], of "vd_free s" ?v ?inf] T(4) by simp
  then have r: "resched (s\<lparr>virtio_writes := wr, vd_used_idx := ?u, vd_info_b := ?inf, vio := ?v\<rparr>) s'"
    using resched_trans [OF _ E(2)] fr by simp
  have "virtio_disk_rw b write (with_held {} s) = Ret () (with_held {} s')"
    using in_kernelD(3) [OF assms(1)] in_kernelD(3) [OF E(3)] alloc3_idle [OF idle(1), of "{VdiskLock}"] t(1) E(1)
    by (simp add: virtio_disk_rw_def virtio_disk_rw_loop.simps lock_simps Let_def release_last)
  moreover have "transfer write b (b_blockno (bufs s b)) (vio s) ?v" using t(4) by (simp add: served_def transfer_def)
  moreover have "disk_idle s'" using assms(2) t(4) resched_disk_sel [OF r] by (auto simp: disk_idle_def served_def)
  ultimately show ?thesis using r E(3) that by blast
qed

section \<open>Properties\<close>

text \<open>
  C26: A transfer returns.  Called by a running process that holds no spinlock, with an idle disk and a
  device that follows the virtio protocol, \<open>virtio_disk_rw\<close> comes back with the block of the buffer
  written to the disk or read from it; the disk is idle again, no descriptor is lost, and apart from
  the transferred data and the scheduling of processes nothing has changed.
\<close>

theorem virtio_disk_rw_transfers:
  assumes "in_kernel p s" "disk_idle s"
  shows "\<exists>s'. virtio_disk_rw b write (with_held {} s) = Ret () (with_held {} s') \<and> in_kernel p s' \<and> disk_idle s' \<and>
    (if write
     then v_sectors (vio s') = v_sectors (put_block (b_blockno (bufs s b)) (b_data (vio s) b) (vio s)) \<and>
       b_data (vio s') = b_data (vio s)
     else v_sectors (vio s') = v_sectors (vio s) \<and>
       b_data (vio s') = (b_data (vio s))(b := disk_block (vio s) (b_blockno (bufs s b)))) \<and>
    bufs s' = bufs s \<and> vd_free s' = vd_free s \<and> mem s' = mem s \<and> (\<forall>i. core (procs s' i) = core (procs s i)) \<and>
    disk_state.more s' = disk_state.more s"
proof -
  obtain v wr u inf s' where e: "virtio_disk_rw b write (with_held {} s) = Ret () (with_held {} s')"
    "resched (s\<lparr>virtio_writes := wr, vd_used_idx := u, vd_info_b := inf, vio := v\<rparr>) s'" "in_kernel p s'" "disk_idle s'"
    "transfer write b (b_blockno (bufs s b)) (vio s) v"
    by (rule virtio_disk_rw_done [OF assms])
  show ?thesis
    using e(1,3-5) resched_disk_sel [OF e(2)] resched_hart(5) [OF e(2)] resched_core [OF e(2)]
    by (intro exI [of _ s'] conjI) (simp_all add: transfer_def)
qed

subsection \<open>Witnesses\<close>

text \<open>A device that serves one request.\<close>

definition demo_device :: "vio \<Rightarrow> vio" where
  "demo_device v =
     (let i = unat (v_avail_ring v (unat (v_used_idx v) mod NUM)) in
      case d_addr (v_desc v (unat (d_next (v_desc v i)))) of
        DmaData b \<Rightarrow> completed v i b (r_type (v_ops v i) = VIRTIO_BLK_T_OUT) (r_sector (v_ops v i))
      | _ \<Rightarrow> v)"

lemma demo_device_ok: "block_device demo_device"
proof -
  have "unat (of_nat i :: u16) = i" if "i < NUM" for i
    using that by (simp add: NUM_def unsigned_of_nat take_bit_nat_eq_self)
  then show ?thesis
    by (auto simp: block_device_def pending_def Let_def demo_device_def VIRTIO_BLK_T_OUT_def VIRTIO_BLK_T_IN_def)
qed

text \<open>An idle disk whose sectors hold their number, and 30 unused buffers.\<close>

definition demo_disk :: disk_state where
  "demo_disk = cons_state.extend (printf_state.extend (uart_state.extend (pipe_state.extend demo_pipe
       (uart_state.fields (\<lambda>_. 0) 0 0 0 (replicate 5000 0x20) [] []))
       (printf_state.fields 1))
       (cons_state.fields (\<lambda>_. 0) 0 0 0 (\<lambda>_. None)))
     (disk_state.fields
       (\<lambda>b. \<lparr>b_valid = 0, b_disk = 0, b_dev = 0, b_blockno = 0, b_refcnt = 0,
             b_prev = (if b = NBUF then 0 else b + 1), b_next = (if b = 0 then NBUF else b - 1)\<rparr>)
       \<lparr>v_desc = \<lambda>_. zero_desc, v_avail_idx = 0, v_avail_ring = \<lambda>_. 0, v_used_idx = 0, v_used_ring = \<lambda>_. 0,
        v_status = \<lambda>_. 0, v_ops = \<lambda>_. \<lparr>r_type = 0, r_reserved = 0, r_sector = 0\<rparr>, b_data = \<lambda>_. replicate 1024 0,
        v_sectors = \<lambda>n. replicate 512 (ucast n)\<rparr>
       (\<lambda>_. True) 0 (\<lambda>_. None) [] demo_device (\<lambda>_ _. 0) [])"

lemmas demo_disk_defs = demo_disk_def cons_state.defs printf_state.defs uart_state.defs pipe_state.defs disk_state.defs

lemma demo_disk_kernel: "in_kernel 1 demo_disk"
  using demo_pipe_ok demo_sync_sel(1)
  by (simp add: in_kernel_def NPROC_def demo_disk_defs lock_free_def mlfq_good_def mlfq_ok_def mlfq_list_def level_of_def)

lemma demo_disk_idle: "disk_idle demo_disk"
  by (simp add: disk_idle_def demo_device_ok demo_disk_defs)

theorem virtio_disk_rw_transfers_witness:
  "\<exists>s'. virtio_disk_rw 3 False (with_held {} demo_disk) = Ret () (with_held {} s') \<and>
    b_data (vio s') 3 = replicate 512 0 @ replicate 512 1"
proof -
  have "disk_block (vio demo_disk) (b_blockno (bufs demo_disk 3)) = replicate 512 0 @ replicate 512 1"
    by (simp add: demo_disk_defs disk_block_def block_sector_def)
  then show ?thesis
    using virtio_disk_rw_transfers [OF demo_disk_kernel demo_disk_idle, of 3 False] by auto
qed

end
