(* ===== verification/TimeSlice.thy ===== *)
theory TimeSlice
  imports Output Trap DiskRw
begin

text \<open>
  The timer tick under MLFQ: when a process has used up the time slice of its level it is demoted and
  goes to the back of the queue below.
\<close>

section \<open>The messages\<close>

lemma sext32_range: "- (2 ^ 31) \<le> sint (sext32 x)" "sint (sext32 x) < 2 ^ 31"
proof -
  note r = sint_ge [of "ucast x :: i32"] sint_lt [of "ucast x :: i32"]
  have "sint (sext32 x) = signed_take_bit 63 (sint (ucast x :: i32))" by (simp add: sext32_def signed_scast_eq)
  also have "\<dots> = sint (ucast x :: i32)" using r by (intro signed_take_bit_int_eq_self) simp_all
  finally show "- (2 ^ 31) \<le> sint (sext32 x)" "sint (sext32 x) < 2 ^ 31" using r by simp_all
qed

lemma show_int32_length: "length (show_int 10 True (sext32 x)) \<le> 11"
proof (cases "sint (sext32 x) < 0")
  case True
  then have "nat (- sint (sext32 x)) < 10 ^ Suc 9" using sext32_range(1) [of x] by simp
  then show ?thesis using True show_nat_length [of 10 "nat (- sint (sext32 x))" 9] by (simp add: show_int_def cstr_def)
next
  case False
  then have "take_bit 64 (sint (sext32 x)) = sint (sext32 x)" using sext32_range(2) [of x] by (intro take_bit_int_eq_self) simp_all
  then have "uint (sext32 x) = sint (sext32 x)" by (simp add: uint_sint)
  then have "unat (sext32 x) < 10 ^ Suc 9" using sext32_range(2) [of x] False by (simp add: unat_eq_nat_uint)
  then show ?thesis using False show_nat_length [of 10 "unat (sext32 x)" 9] by (simp add: show_int_def)
qed

lemma demote_text:
  "\<exists>out. format (cstr (''PID=%d exceeded time slice at tick=%d, demoting from level %d to %d'' @ newline))
    [VNum a, VNum b, VNum c, VNum d] = Some out \<and> length out \<le> 200"
  using show_int32_length [of a] show_int32_length [of b] show_int32_length [of c] show_int32_length [of d]
  by (simp add: format.simps cstr_def parse_conv_def Let_def newline_def)

lemma limit_text:
  "\<exists>out. format (cstr (''PID=%d reached time slice limit at tick=%d (already at lowest level %d)'' @ newline))
    [VNum a, VNum b, VNum c] = Some out \<and> length out \<le> 200"
  using show_int32_length [of a] show_int32_length [of b] show_int32_length [of c]
  by (simp add: format.simps cstr_def parse_conv_def Let_def newline_def)

lemma uart_polls_le: "uart_polls n vs \<noteq> None \<Longrightarrow> k \<le> n \<Longrightarrow> \<exists>ws. uart_polls k vs = Some ws"
  using uart_polls_add [of k "n - k" vs] by (auto split: option.splits)

section \<open>The end of a time slice\<close>

lemma upd_proc_uart [simp]: "panicked (upd_proc p f s) = panicked s" "uart_lsr (upd_proc p f s) = uart_lsr s"
  by (simp_all add: upd_proc_def)

lemma sent_proc [simp]:
  "procs (sent out vs s) = procs s" "queue (sent out vs s) = queue s" "qsize (sent out vs s) = qsize s"
  "current_policy (sent out vs s) = current_policy s" "ticks (sent out vs s) = ticks s"
  "cpus (sent out vs s) = cpus s" "tp (sent out vs s) = tp s" "intr_get (sent out vs s) = intr_get s"
  "in_kernel p (sent out vs s) = in_kernel p s"
  by (simp_all add: sent_def intr_get_def r_sstatus_def in_kernel_def lock_free_def mlfq_good_def mlfq_ok_def mlfq_list_def level_of_def)

lemma in_kernel_upd_proc:
  assumes "in_kernel p s" "unat (p_queue_level (f (procs s p))) < QUEUE_LEVELS"
  shows "in_kernel p (upd_proc p f s)"
  using assms by (auto simp: in_kernel_def lock_free_def mlfq_good_def mlfq_ok_def mlfq_list_def level_of_def upd_proc_def)

text \<open>A process that has left the CPU at the end of its slice waits at the back of queue \<open>l\<close>; its total is kept.\<close>

definition requeued :: "nat \<Rightarrow> nat \<Rightarrow> 'a proc_state_scheme \<Rightarrow> 'a proc_state_scheme \<Rightarrow> bool" where
  "requeued p l s s' \<longleftrightarrow> p_state (procs s' p) = RUNNABLE \<and> p_time_slice (procs s' p) = 0 \<and> level_of s' p = l \<and> mlfq_good s' \<and>
     mlfq_list s' l = remove1 (Some p) (mlfq_list s l) @ [Some p] \<and> (\<forall>k. k \<noteq> l \<longrightarrow> mlfq_list s' k = mlfq_list s k) \<and>
     p_total_ticks (procs s' p) = p_total_ticks (procs s p) \<and> (\<forall>q. q \<noteq> p \<longrightarrow> procs s' q = procs s q)"

lemma yield_requeued:
  assumes "in_kernel p t" "current_policy t = SCHED_MLFQ" "p_time_slice (procs t p) = 0" "level_of t p = l"
    and "queue t = queue s" "qsize t = qsize s" "\<forall>q. q \<noteq> p \<longrightarrow> procs t q = procs s q"
    and "p_total_ticks (procs t p) = p_total_ticks (procs s p)"
  shows "\<exists>s'. yield (with_held {} t) = Swtch (ResumeYield (intr_get t)) (with_held {ProcLock p} s') \<and> requeued p l s s'"
proof -
  note k = in_kernelD [OF assms(1)]
  let ?t = "\<lambda>q n. (upd_proc p (\<lambda>x. x\<lparr>p_last_runtime := last_burst (ticks t) x, p_state := RUNNABLE\<rparr>) t)\<lparr>queue := q, qsize := n\<rparr>"
  obtain q n where y: "yield (with_held {} t) = Swtch (ResumeYield (intr_get t)) (with_held {ProcLock p} (?t q n))"
    "mlfq_good (?t q n)"
    "\<forall>l. mlfq_list (?t q n) l = (if current_policy t = SCHED_MLFQ \<and> l = level_of t p
         then remove1 (Some p) (mlfq_list t l) @ [Some p] else mlfq_list t l)"
    using yield_with_held [OF k(1,2,5,4)] by (auto simp: Let_def)
  have "mlfq_list t l = mlfq_list s l" for l using assms(5,6) by (simp add: mlfq_list_def)
  then have "requeued p l s (?t q n)"
    using y(2,3) assms(2-4,7,8) by (simp add: requeued_def level_of_def upd_proc_def)
  with y(1) show ?thesis by blast
qed

lemma level_small:
  assumes "unat (w :: i32) < 3"
  shows "w <s of_nat QUEUE_LEVELS - 1 \<longleftrightarrow> unat w < 2" "unat (w + 1) = Suc (unat w)"
proof -
  have "w = of_nat (unat w)" by simp
  then obtain n where n: "w = of_nat n" "n < 3" using assms by blast
  then have "n = 0 \<or> n = 1 \<or> n = 2" by auto
  then show "w <s of_nat QUEUE_LEVELS - 1 \<longleftrightarrow> unat w < 2" "unat (w + 1) = Suc (unat w)"
    using n(1) by (auto simp: QUEUE_LEVELS_def word_sless_alt)
qed

lemma expire_yield:
  assumes "in_kernel p u" "current_policy u = SCHED_MLFQ" "level_of u p = l" "intr_get u = intr_get s"
    and "queue u = queue s" "qsize u = qsize s" "\<forall>q. q \<noteq> p \<longrightarrow> procs u q = procs s q"
    and "p_total_ticks (procs u p) = p_total_ticks (procs s p)"
  shows "\<exists>s'. yield (upd_proc p (\<lambda>x. x\<lparr>p_time_slice := 0\<rparr>) (with_held {} u)) =
    Swtch (ResumeYield (intr_get s)) (with_held {ProcLock p} s') \<and> requeued p l s s'"
proof -
  let ?t = "upd_proc p (\<lambda>x. x\<lparr>p_time_slice := 0\<rparr>) u"
  have "unat (p_queue_level (procs u p)) < QUEUE_LEVELS" using in_kernelD(2,4) [OF assms(1)] by (simp add: mlfq_good_def level_of_def)
  then have t: "in_kernel p ?t" using assms(1) by (intro in_kernel_upd_proc) simp_all
  have "intr_get ?t = intr_get s" using assms(4) by (simp add: intr_get_def r_sstatus_def upd_proc_def)
  then show ?thesis
    using yield_requeued [OF t, of l s] assms(2,3,5-8) by (simp add: lock_simps level_of_def)
qed

lemma mlfq_expire_done:
  assumes "in_kernel p s" "current_policy s = SCHED_MLFQ" "panicked s = 0" "uart_polls 200 (uart_lsr s) \<noteq> None"
  shows "\<exists>s'. mlfq_expire p (with_held {} s) = Swtch (ResumeYield (intr_get s)) (with_held {ProcLock p} s') \<and>
    requeued p (min (level_of s p + 1) 2) s s'"
proof -
  note k = in_kernelD [OF assms(1)]
  let ?x = "procs s p"
  have lv: "level_of s p < 3" using k(2,4) by (simp add: mlfq_good_def QUEUE_LEVELS_def)
  note lt = level_small [OF lv [unfolded level_of_def]]
  show ?thesis
  proof (cases "level_of s p < 2")
    case True
    obtain out vs where out: "format (cstr (''PID=%d exceeded time slice at tick=%d, demoting from level %d to %d'' @ newline))
      [VNum (scast (p_pid ?x)), VNum (ucast (ticks s)), VNum (scast (p_queue_level ?x)), VNum (scast (p_queue_level ?x + 1))] = Some out"
      "uart_polls (length out) (uart_lsr s) = Some vs"
      using demote_text uart_polls_le [OF assms(4)] by metis
    let ?u = "upd_proc p (\<lambda>x. x\<lparr>p_queue_level := p_queue_level x + 1\<rparr>) (sent out vs s)"
    have u: "in_kernel p ?u" "level_of ?u p = min (level_of s p + 1) 2"
      using True assms(1) lt(2) by (auto simp: level_of_def QUEUE_LEVELS_def intro!: in_kernel_upd_proc)
    have "\<exists>s'. yield (upd_proc p (\<lambda>x. x\<lparr>p_time_slice := 0\<rparr>) (with_held {} ?u)) =
        Swtch (ResumeYield (intr_get s)) (with_held {ProcLock p} s') \<and> requeued p (min (level_of s p + 1) 2) s s'"
      by (rule expire_yield [OF u(1) _ u(2)]) (use assms(2) in \<open>simp_all add: intr_get_def r_sstatus_def upd_proc_def sent_def\<close>)
    then show ?thesis
      using printf_done [OF _ _ k(3) assms(3) out, of "{}"] True lt(1) by (simp add: mlfq_expire_def Let_def lock_simps level_of_def)
  next
    case False
    obtain out vs where out: "format (cstr (''PID=%d reached time slice limit at tick=%d (already at lowest level %d)'' @ newline))
      [VNum (scast (p_pid ?x)), VNum (ucast (ticks s)), VNum (scast (p_queue_level ?x))] = Some out"
      "uart_polls (length out) (uart_lsr s) = Some vs"
      using limit_text uart_polls_le [OF assms(4)] by metis
    have u: "in_kernel p (sent out vs s)" "level_of (sent out vs s) p = min (level_of s p + 1) 2"
      using False assms(1) lv by (auto simp: level_of_def)
    have "\<exists>s'. yield (upd_proc p (\<lambda>x. x\<lparr>p_time_slice := 0\<rparr>) (with_held {} (sent out vs s))) =
        Swtch (ResumeYield (intr_get s)) (with_held {ProcLock p} s') \<and> requeued p (min (level_of s p + 1) 2) s s'"
      by (rule expire_yield [OF u(1) _ u(2)]) (use assms(2) in simp_all)
    then show ?thesis
      using printf_done [OF _ _ k(3) assms(3) out, of "{}"] False lt(1) by (simp add: mlfq_expire_def Let_def lock_simps level_of_def)
  qed
qed

section \<open>Properties\<close>

text \<open>The ticks a process may run at each level.\<close>

definition quantum :: "nat \<Rightarrow> nat" where
  "quantum l = [5, 10, 20] ! l"

lemma max_ticks_quantum:
  assumes "unat w < 3"
  shows "max_ticks w = Some (of_nat (quantum (unat w)))" "quantum (unat w) \<le> 20"
proof -
  have "w = of_nat (unat w)" by simp
  then obtain n where n: "w = of_nat n" "n < 3" using assms by blast
  then have "n = 0 \<or> n = 1 \<or> n = 2" by auto
  then show "max_ticks w = Some (of_nat (quantum (unat w)))" "quantum (unat w) \<le> 20"
    using n(1) by (auto simp: max_ticks_def quantum_def)
qed

text \<open>
  C8: A timer tick under MLFQ adds one to the total of the running process.  With ticks left in its slice the process
  goes on with one tick less; with the last one it leaves the CPU, starts a new slice one level down (or at the lowest level again), and
  waits at the back of the queue of that level.
\<close>

theorem mlfq_tick:
  assumes "in_kernel p s" "current_policy s = SCHED_MLFQ" "p_state (procs s p) = RUNNING" "panicked s = 0"
    and "uart_polls 200 (uart_lsr s) \<noteq> None" "p_time_slice (procs s p) = of_nat n" "n < quantum (level_of s p)"
  shows "if n + 1 < quantum (level_of s p)
    then user_tick p (with_held {} s) = Ret () (with_held {} (upd_proc p
      (\<lambda>x. x\<lparr>p_total_ticks := p_total_ticks x + 1, p_time_slice := of_nat (n + 1)\<rparr>) s))
    else \<exists>s'. user_tick p (with_held {} s) = Swtch (ResumeYield (intr_get s)) (with_held {ProcLock p} s') \<and>
      requeued p (min (level_of s p + 1) 2) (upd_proc p (\<lambda>x. x\<lparr>p_total_ticks := p_total_ticks x + 1\<rparr>) s) s'"
proof -
  note k = in_kernelD [OF assms(1)]
  have lv: "unat (p_queue_level (procs s p)) < 3" using k(2,4) by (simp add: mlfq_good_def QUEUE_LEVELS_def level_of_def)
  note q = max_ticks_quantum [OF lv]
  let ?t = "upd_proc p (\<lambda>x. x\<lparr>p_total_ticks := p_total_ticks x + 1, p_time_slice := of_nat (n + 1)\<rparr>) s"
  have pol: "SCHED_MLFQ = (4 :: i32)" "(4 :: i32) \<noteq> 0" by (simp_all add: SCHED_MLFQ_def)
  have "user_tick p (with_held {} s) =
      (if (of_nat (quantum (level_of s p)) :: i32) \<le>s of_nat (n + 1) then mlfq_expire p (with_held {} ?t) else Ret () (with_held {} ?t))"
    unfolding of_nat_add of_nat_1 using assms(2,3,6) q(1) by (simp add: user_tick_def Let_def lock_simps pol level_of_def upd_proc_def)
  moreover have "(of_nat (quantum (level_of s p)) :: i32) \<le>s of_nat (n + 1) \<longleftrightarrow> \<not> n + 1 < quantum (level_of s p)"
    using of_nat_sless [of "n + 1" "quantum (level_of s p)"] q(2) assms(7) by (auto simp: not_sle [symmetric] level_of_def)
  moreover have "in_kernel p ?t" using assms(1) lv by (intro in_kernel_upd_proc) (simp_all add: QUEUE_LEVELS_def)
  then have "\<exists>s'. mlfq_expire p (with_held {} ?t) = Swtch (ResumeYield (intr_get ?t)) (with_held {ProcLock p} s') \<and>
      requeued p (min (level_of ?t p + 1) 2) ?t s'"
    by (rule mlfq_expire_done) (use assms(2,4,5) in simp_all)
  moreover have "intr_get ?t = intr_get s" "level_of ?t p = level_of s p" by (simp_all add: intr_get_def r_sstatus_def upd_proc_def level_of_def)
  moreover have "requeued p l ?t s' = requeued p l (upd_proc p (\<lambda>x. x\<lparr>p_total_ticks := p_total_ticks x + 1\<rparr>) s) s'" for l s'
    by (auto simp: requeued_def mlfq_list_def)
  ultimately show ?thesis by simp
qed

section \<open>Witnesses\<close>

text \<open>Process 1 of \<open>demo_disk\<close> in its last tick at level 0.\<close>

definition demo_tick :: disk_state where
  "demo_tick = upd_proc 1 (\<lambda>x. x\<lparr>p_time_slice := 4\<rparr>) demo_disk"

lemma demo_disk_proc:
  "procs demo_disk (Suc 0) = (zero_proc\<lparr>p_state := RUNNING, p_pid := 1\<rparr>)\<lparr>p_pagetable := 0x80001000\<rparr>"
  "current_policy demo_disk = SCHED_MLFQ" "panicked demo_disk = 0" "uart_lsr demo_disk = replicate 5000 0x20"
  using demo_sync_sel by (simp_all add: demo_disk_defs demo_pipe_def demo_sl_def proc_state.defs sync_state.defs)

theorem mlfq_tick_witness:
  "\<exists>s'. user_tick 1 (with_held {} demo_tick) = Swtch (ResumeYield (intr_get demo_tick)) (with_held {ProcLock 1} s') \<and>
    level_of s' 1 = 1 \<and> p_time_slice (procs s' 1) = 0 \<and> mlfq_list s' 1 = [Some 3, Some 1]"
proof -
  have "in_kernel 1 demo_tick"
    unfolding demo_tick_def using demo_disk_kernel
    by (intro in_kernel_upd_proc) (simp_all add: demo_disk_proc QUEUE_LEVELS_def zero_proc_def)
  moreover have "uart_polls 200 (uart_lsr demo_tick) \<noteq> None" using polls_ready [of 200 4800] by (simp add: demo_tick_def demo_disk_proc)
  moreover have "mlfq_list demo_tick = mlfq_list demo_sync"
    by (rule ext) (simp add: mlfq_list_def demo_tick_def demo_disk_defs demo_pipe_def demo_sl_def proc_state.defs sync_state.defs)
  then have l: "level_of demo_tick 1 = 0" "mlfq_list demo_tick 1 = [Some 3]"
    by (simp_all add: demo_sync_lists level_of_def demo_tick_def demo_disk_proc zero_proc_def)
  ultimately obtain s' where "user_tick 1 (with_held {} demo_tick) = Swtch (ResumeYield (intr_get demo_tick)) (with_held {ProcLock 1} s')"
    "requeued 1 1 (upd_proc 1 (\<lambda>x. x\<lparr>p_total_ticks := p_total_ticks x + 1\<rparr>) demo_tick) s'"
    using mlfq_tick [of 1 demo_tick 4] by (auto simp: demo_tick_def demo_disk_proc zero_proc_def quantum_def)
  moreover have "mlfq_list (upd_proc 1 f demo_tick) = mlfq_list demo_tick" for f by (rule ext) (simp add: mlfq_list_def)
  ultimately show ?thesis using l by (auto simp: requeued_def)
qed

end
