(* ===== verification/BufCache.thy ===== *)
theory BufCache
  imports Bio DiskRw
begin

text \<open>
  The buffer cache as a list of buffers, most recently used first: \<open>bcache_list L s\<close> relates the
  pointers of the buffers to the list \<open>L\<close>.  \<open>bget\<close> is shown to look the block up in the list and to recycle
  its last unused buffer, and \<open>brelse\<close> to move a buffer to its front.
\<close>

section \<open>Doubly linked lists\<close>

text \<open>\<open>follows f a xs z\<close>: following \<open>f\<close> from \<open>a\<close> passes exactly \<open>xs\<close> and then reaches \<open>z\<close>.\<close>

fun follows :: "('c \<Rightarrow> 'c) \<Rightarrow> 'c \<Rightarrow> 'c list \<Rightarrow> 'c \<Rightarrow> bool" where
  "follows f a [] z \<longleftrightarrow> f a = z"
| "follows f a (x # xs) z \<longleftrightarrow> f a = x \<and> follows f x xs z"

lemma follows_append: "follows f a (xs @ y # ys) z \<longleftrightarrow> follows f a xs y \<and> follows f y ys z"
  by (induction xs arbitrary: a) auto

lemma follows_cong: "f a = g b \<Longrightarrow> \<forall>x \<in> set xs. f x = g x \<Longrightarrow> follows f a xs z \<longleftrightarrow> follows g b xs z"
  by (induction xs arbitrary: a b) auto

lemma follows_hd: "follows f a xs z \<Longrightarrow> f a = hd (xs @ [z])"
  by (cases xs) auto

lemma follows_step: "follows f a xs z \<Longrightarrow> f a \<in> insert z (set xs)"
  by (cases xs) auto

lemma follows_last: "follows f a xs z \<Longrightarrow> f (last (a # xs)) = z"
  by (induction xs arbitrary: a) auto

lemma follows_end: "follows f a xs z \<Longrightarrow> distinct (a # xs) \<Longrightarrow> follows (f(last (a # xs) := y)) a xs y"
proof (induction xs arbitrary: a)
  case (Cons x xs)
  then show ?case using last_in_set [of "x # xs"] by auto
qed simp

lemma follows_remove:
  assumes "follows f a (xs @ b # ys) z" "distinct (a # xs @ b # ys)"
  shows "follows (f(last (a # xs) := f b)) a (xs @ ys) z"
proof -
  have c: "follows f a xs b" "follows f b ys z" using assms(1) by (simp_all add: follows_append)
  have e: "follows (f(last (a # xs) := f b)) a xs (f b)" using follows_end [OF c(1)] assms(2) by simp
  have n: "last (a # xs) \<notin> set ys" using assms(2) last_in_set [of "a # xs"] by auto
  show ?thesis
  proof (cases ys)
    case Nil
    then show ?thesis using e c(2) by simp
  next
    case (Cons y ys')
    have "follows (f(last (a # xs) := f b)) y ys' z \<longleftrightarrow> follows f y ys' z"
      using n Cons by (intro follows_cong) auto
    then show ?thesis using e c(2) Cons by (simp add: follows_append)
  qed
qed

definition dlinked :: "('c \<Rightarrow> 'c) \<Rightarrow> ('c \<Rightarrow> 'c) \<Rightarrow> 'c \<Rightarrow> 'c list \<Rightarrow> bool" where
  "dlinked nxt prv h L \<longleftrightarrow> distinct (h # L) \<and> follows nxt h L h \<and> follows prv h (rev L) h"

lemma dlinked_front:
  assumes "dlinked nxt prv h L" "b \<noteq> h" "b \<notin> set L"
  shows "dlinked (nxt(b := nxt h, h := b)) (prv(b := h, nxt h := b)) h (b # L)"
proof -
  have d: "distinct (h # L)" "follows nxt h L h" "follows prv h (rev L) h" using assms(1) by (simp_all add: dlinked_def)
  have "follows (nxt(b := nxt h, h := b)) b L h \<longleftrightarrow> follows nxt h L h" using assms(2,3) d(1) by (intro follows_cong) auto
  moreover have h: "nxt h = last (h # rev L)" using follows_hd [OF d(2)] by (cases L) auto
  have "follows (prv(last (h # rev L) := b)) h (rev L) b" using follows_end [OF d(3)] d(1) by simp
  moreover have "follows (prv(b := h, nxt h := b)) h (rev L) b \<longleftrightarrow> follows (prv(nxt h := b)) h (rev L) b"
    using assms(2,3) by (intro follows_cong) auto
  moreover have "nxt h \<noteq> b" using h assms(2,3) last_in_set [of "h # rev L"] by auto
  ultimately show ?thesis using d assms(2,3) h by (simp add: dlinked_def follows_append)
qed

lemma dlinked_unlink:
  assumes "dlinked nxt prv h (xs @ b # ys)"
  shows "dlinked (nxt(prv b := nxt b)) (prv(nxt b := prv b)) h (xs @ ys)"
proof -
  have d: "distinct (h # xs @ b # ys)" "follows nxt h (xs @ b # ys) h" "follows prv h (rev ys @ b # rev xs) h"
    using assms by (simp_all add: dlinked_def)
  have "follows prv b (rev xs) h" "follows nxt b ys h" using d(2,3) by (simp_all add: follows_append)
  then have e: "prv b = last (h # xs)" "nxt b = last (h # rev ys)"
    using follows_hd by (force simp: last_rev hd_rev, force simp: last_rev hd_append)+
  show ?thesis
    using follows_remove [OF d(2)] follows_remove [OF d(3)] d(1) e by (auto simp: dlinked_def Int_commute)
qed

section \<open>The cache as a list\<close>

definition bcache_list :: "nat list \<Rightarrow> 'a disk_state_scheme \<Rightarrow> bool" where
  "bcache_list L s \<longleftrightarrow> dlinked (\<lambda>b. b_next (bufs s b)) (\<lambda>b. b_prev (bufs s b)) bhead L \<and> set L = {0..<NBUF}"

lemma bcache_list_length: "bcache_list L s \<Longrightarrow> length L = NBUF"
  using distinct_card [of L] by (simp add: bcache_list_def dlinked_def)

lemma bcache_list_cong:
  "(\<And>b. b_next (bufs s' b) = b_next (bufs s b) \<and> b_prev (bufs s' b) = b_prev (bufs s b)) \<Longrightarrow>
    bcache_list L s' = bcache_list L s"
  by (simp add: bcache_list_def)

lemma upd_buf_sel [simp]: "bufs (upd_buf b f s) = (bufs s)(b := f (bufs s b))"
  by (simp add: upd_buf_def)

lemma upd_buf_frame [simp]:
  "lock_free k (upd_buf b f s) = lock_free k s" "proc_locks_free (upd_buf b f s) = proc_locks_free s"
  "mlfq_good (upd_buf b f s) = mlfq_good s" "sleeplocks (upd_buf b f s) = sleeplocks s"
  "procs (upd_buf b f s) = procs s" "cpus (upd_buf b f s) = cpus s" "tp (upd_buf b f s) = tp s"
  by (simp_all add: upd_buf_def)

definition cached :: "u32 \<Rightarrow> u32 \<Rightarrow> 'a disk_state_scheme \<Rightarrow> nat \<Rightarrow> bool" where
  "cached dev blockno s b \<longleftrightarrow> b_dev (bufs s b) = dev \<and> b_blockno (bufs s b) = blockno"

lemma bget_find_list:
  assumes "follows (\<lambda>b. b_next (bufs s b)) a xs bhead" "bhead \<notin> set xs" "length xs \<le> k"
  shows "bget_find k (b_next (bufs s a)) dev blockno s =
    (case find (cached dev blockno s) xs of
       None \<Rightarrow> Ret None s
     | Some b \<Rightarrow> Ret (Some b) (upd_buf b (\<lambda>x. x\<lparr>b_refcnt := b_refcnt x + 1\<rparr>) s))"
  using assms
proof (induction xs arbitrary: a k)
  case Nil
  then show ?case by (cases k) simp_all
next
  case (Cons x xs)
  then obtain k' where "k = Suc k'" by (cases k) auto
  with Cons show ?case by (auto simp: cached_def)
qed

lemma bget_recycle_list:
  assumes "follows (\<lambda>b. b_prev (bufs s b)) a xs bhead" "bhead \<notin> set xs" "length xs \<le> k"
  shows "bget_recycle k (b_prev (bufs s a)) dev blockno s =
    (case find (\<lambda>b. b_refcnt (bufs s b) = 0) xs of
       None \<Rightarrow> Ret None s
     | Some b \<Rightarrow> Ret (Some b) (upd_buf b (\<lambda>x. x\<lparr>b_dev := dev, b_blockno := blockno, b_valid := 0, b_refcnt := 1\<rparr>) s))"
  using assms
proof (induction xs arbitrary: a k)
  case Nil
  then show ?case by (cases k) simp_all
next
  case (Cons x xs)
  then obtain k' where "k = Suc k'" by (cases k) auto
  with Cons show ?case by auto
qed

text \<open>The buffer \<open>bget\<close> chooses, and what it writes into it.\<close>

definition lru_choice :: "u32 \<Rightarrow> u32 \<Rightarrow> nat list \<Rightarrow> 'a disk_state_scheme \<Rightarrow> (nat \<times> (buf \<Rightarrow> buf)) option" where
  "lru_choice dev blockno L s =
     (case find (cached dev blockno s) L of
        Some b \<Rightarrow> Some (b, \<lambda>x. x\<lparr>b_refcnt := b_refcnt x + 1\<rparr>)
      | None \<Rightarrow>
          (case find (\<lambda>b. b_refcnt (bufs s b) = 0) (rev L) of
             Some b \<Rightarrow> Some (b, \<lambda>x. x\<lparr>b_dev := dev, b_blockno := blockno, b_valid := 0, b_refcnt := 1\<rparr>)
           | None \<Rightarrow> None))"

lemma find_in: "find P xs = Some x \<Longrightarrow> x \<in> set xs \<and> P x"
  by (induction xs) (auto split: if_splits)

lemma lru_choice_in: "lru_choice dev blockno L s = Some (b, f) \<Longrightarrow> b \<in> set L"
  by (auto simp: lru_choice_def split: option.splits dest!: find_in)

lemma lru_choice_links:
  "lru_choice dev blockno L s = Some (b, f) \<Longrightarrow> b_next (f x) = b_next x \<and> b_prev (f x) = b_prev x"
  by (auto simp: lru_choice_def split: option.splits)

lemma bget_lru:
  assumes "bcache_list L s" "lock_free BcacheLock s"
  shows "bget dev blockno (with_held {} s) =
    (case lru_choice dev blockno L s of
       None \<Rightarrow> Panic ''bget: no buffers''
     | Some (b, f) \<Rightarrow> bnd (acquiresleep (BufSL b) (with_held {} (upd_buf b f s))) (\<lambda>_ s. Ret b s))"
proof -
  let ?s = "with_held {BcacheLock} s"
  have B: "bufs ?s = bufs s" "cached dev blockno ?s = cached dev blockno s"
    by (simp_all add: cached_def fun_eq_iff with_held_disk)
  have d: "dlinked (\<lambda>b. b_next (bufs ?s b)) (\<lambda>b. b_prev (bufs ?s b)) bhead L" "length L \<le> NBUF"
    using assms(1) bcache_list_length [OF assms(1)] by (simp_all add: bcache_list_def B)
  have h: "bhead \<notin> set L" "bhead \<notin> set (rev L)" using d(1) by (simp_all add: dlinked_def)
  note fnd = bget_find_list [OF _ h(1) d(2), of ?s bhead dev blockno, unfolded B]
    and recycle = bget_recycle_list [of ?s bhead "rev L" NBUF dev blockno, unfolded B]
  have f: "follows (\<lambda>b. b_next (bufs s b)) bhead L bhead" "follows (\<lambda>b. b_prev (bufs s b)) bhead (rev L) bhead"
    using d(1) by (simp_all add: dlinked_def B)
  have "bget dev blockno (with_held {} s) = bnd (bget_find NBUF (b_next (bufs s bhead)) dev blockno ?s) (\<lambda>found s.
      case found of
        Some b \<Rightarrow> bnd (release BcacheLock s) (\<lambda>_ s. bnd (acquiresleep (BufSL b) s) (\<lambda>_ s. Ret b s))
      | None \<Rightarrow>
          bnd (bget_recycle NBUF (b_prev (bufs s bhead)) dev blockno s) (\<lambda>found s.
          case found of
            Some b \<Rightarrow> bnd (release BcacheLock s) (\<lambda>_ s. bnd (acquiresleep (BufSL b) s) (\<lambda>_ s. Ret b s))
          | None \<Rightarrow> Panic ''bget: no buffers''))"
    unfolding bget_def using assms(2) by (simp add: acquire_with_held with_held_disk)
  with fnd [OF f(1)] recycle [OF f(2) h(2)] d(2) assms(2) show ?thesis
    by (cases "find (cached dev blockno s) L"; cases "find (\<lambda>b. b_refcnt (bufs s b) = 0) (rev L)")
       (simp_all add: lru_choice_def disk_op_with_held release_last with_held_disk)
qed

section \<open>Releasing a buffer\<close>

definition nexts :: "'a disk_state_scheme \<Rightarrow> nat \<Rightarrow> nat" where "nexts s = (\<lambda>b. b_next (bufs s b))"
definition prevs :: "'a disk_state_scheme \<Rightarrow> nat \<Rightarrow> nat" where "prevs s = (\<lambda>b. b_prev (bufs s b))"

lemma links_upd:
  "nexts (upd_buf b (\<lambda>x. x\<lparr>b_next := v\<rparr>) s) = (nexts s)(b := v)" "prevs (upd_buf b (\<lambda>x. x\<lparr>b_next := v\<rparr>) s) = prevs s"
  "prevs (upd_buf b (\<lambda>x. x\<lparr>b_prev := v\<rparr>) s) = (prevs s)(b := v)" "nexts (upd_buf b (\<lambda>x. x\<lparr>b_prev := v\<rparr>) s) = nexts s"
  by (auto simp: nexts_def prevs_def)

lemma link_fold: "b_next (bufs s c) = nexts s c" "b_prev (bufs s c) = prevs s c"
  by (simp_all add: nexts_def prevs_def)

lemma bcache_list_links: "bcache_list L s \<longleftrightarrow> dlinked (nexts s) (prevs s) bhead L \<and> set L = {0..<NBUF}"
  by (simp add: bcache_list_def nexts_def prevs_def)

lemma brelse_move_list:
  assumes "dlinked (nexts s) (prevs s) bhead (xs @ b # ys)"
  shows "dlinked (nexts (brelse_move b s)) (prevs (brelse_move b s)) bhead (b # xs @ ys)"
proof -
  let ?n = "nexts s" and ?p = "prevs s"
  let ?n' = "?n(?p b := ?n b)" and ?p' = "?p(?n b := ?p b)"
  have u: "dlinked ?n' ?p' bhead (xs @ ys)" by (rule dlinked_unlink [OF assms])
  have d: "b \<noteq> bhead" "b \<notin> set (xs @ ys)" "distinct (bhead # xs @ b # ys)" using assms by (auto simp: dlinked_def)
  have f: "follows ?n b ys bhead" "follows ?p b (rev xs) bhead" using assms by (simp_all add: dlinked_def follows_append)
  have nb: "?n b \<noteq> b" "?p b \<noteq> b" using follows_step [OF f(1)] follows_step [OF f(2)] d by auto
  have "nexts (brelse_move b s) = ?n'(b := ?n' bhead, bhead := b)" "prevs (brelse_move b s) = ?p'(b := bhead, ?n' bhead := b)"
    using d(1) nb unfolding brelse_move_def Let_def link_fold links_upd by simp_all
  then show ?thesis using dlinked_front [OF u d(1,2)] by simp
qed

section \<open>What operations on buffers change\<close>

text \<open>Only buffers, their sleep-locks, the disk and the scheduling of processes differ between two states.\<close>

definition bio_step :: "'a disk_state_scheme \<Rightarrow> 'a disk_state_scheme \<Rightarrow> bool" where
  "bio_step s s' \<longleftrightarrow> (\<forall>i. core (procs s' i) = core (procs s i)) \<and>
     s' = s\<lparr>procs := procs s', queue := queue s', qsize := qsize s', sleeplocks := sleeplocks s', bufs := bufs s',
       virtio_writes := virtio_writes s', vd_used_idx := vd_used_idx s', vd_info_b := vd_info_b s', vio := vio s'\<rparr>"

lemma bio_stepI:
  "s' = s\<lparr>procs := P, queue := q, qsize := n, sleeplocks := l, bufs := B, virtio_writes := w, vd_used_idx := u,
     vd_info_b := i, vio := v\<rparr> \<Longrightarrow> (\<And>i. core (P i) = core (procs s i)) \<Longrightarrow> bio_step s s'"
  by (simp add: bio_step_def)

lemma bio_stepE:
  assumes "bio_step s s'"
  obtains P q n l B w u i v where "s' = s\<lparr>procs := P, queue := q, qsize := n, sleeplocks := l, bufs := B,
      virtio_writes := w, vd_used_idx := u, vd_info_b := i, vio := v\<rparr>" "\<And>i. core (P i) = core (procs s i)"
  using assms by (auto simp: bio_step_def)

lemma bio_step_refl [simp]: "bio_step s s"
  by (simp add: bio_step_def)

lemma bio_step_trans:
  assumes "bio_step s t" "bio_step t r"
  shows "bio_step s r"
proof (rule bio_stepE [OF assms(1)], rule bio_stepE [OF assms(2)])
  fix P q n l B w u i v P' q' n' l' B' w' u' i' v'
  assume t: "t = s\<lparr>procs := P, queue := q, qsize := n, sleeplocks := l, bufs := B, virtio_writes := w, vd_used_idx := u,
      vd_info_b := i, vio := v\<rparr>" "\<And>i. core (P i) = core (procs s i)"
    and r: "r = t\<lparr>procs := P', queue := q', qsize := n', sleeplocks := l', bufs := B', virtio_writes := w', vd_used_idx := u',
      vd_info_b := i', vio := v'\<rparr>" "\<And>i. core (P' i) = core (procs t i)"
  have "r = s\<lparr>procs := P', queue := q', qsize := n', sleeplocks := l', bufs := B', virtio_writes := w', vd_used_idx := u',
      vd_info_b := i', vio := v'\<rparr>"
    unfolding r(1) t(1) by simp
  then show ?thesis by (rule bio_stepI) (simp add: r(2) t)
qed

lemma bio_step_resched: "resched s s' \<Longrightarrow> bio_step s s'"
  by (elim reschedE) (simp add: bio_step_def)

lemma bio_step_upd:
  "bio_step s (upd_buf b f s)" "bio_step s (upd_sl lk g s)" "bio_step s (s\<lparr>vio := v\<rparr>)"
  "bio_step s (s\<lparr>virtio_writes := w, vd_used_idx := u, vd_info_b := i, vio := v\<rparr>)"
  by (simp_all add: bio_step_def upd_buf_def upd_sl_def)

lemma bio_step_sel:
  assumes "bio_step s s'"
  shows "tp s' = tp s" "cpus s' = cpus s" "locks s' = locks s" "mem s' = mem s" "ticks s' = ticks s"
    "vd_free s' = vd_free s" "virtio_dev s' = virtio_dev s" "disk_state.more s' = disk_state.more s"
    "p_pid (procs s' p) = p_pid (procs s p)" "lock_free k s' = lock_free k s"
proof -
  show "p_pid (procs s' p) = p_pid (procs s p)" using assms by (intro core_eqD(1)) (simp add: bio_step_def)
qed (rule bio_stepE [OF assms], simp add: lock_free_def)+

lemma in_kernel_upd [simp]: "in_kernel p (upd_buf b f s) = in_kernel p s" "in_kernel p (upd_sl lk g s) = in_kernel p s"
  by (simp_all add: in_kernel_def)

lemma disk_idle_upd [simp]: "disk_idle (upd_sl lk g s) = disk_idle s"
  by (simp add: disk_idle_def upd_sl_def)

section \<open>The invariant\<close>

text \<open>The list is well formed, and no block of a device is cached twice; device 0 marks buffers never used.\<close>

definition one_copy :: "'a disk_state_scheme \<Rightarrow> bool" where
  "one_copy s \<longleftrightarrow> (\<forall>a < NBUF. \<forall>b < NBUF. b_dev (bufs s a) \<noteq> 0 \<longrightarrow>
     cached (b_dev (bufs s a)) (b_blockno (bufs s a)) s b \<longrightarrow> a = b)"

definition bcache_ok :: "nat list \<Rightarrow> 'a disk_state_scheme \<Rightarrow> bool" where
  "bcache_ok L s \<longleftrightarrow> bcache_list L s \<and> one_copy s"

lemma one_copyD: "one_copy s \<Longrightarrow> a < NBUF \<Longrightarrow> b < NBUF \<Longrightarrow> cached dev n s a \<Longrightarrow> cached dev n s b \<Longrightarrow> dev \<noteq> 0 \<Longrightarrow> a = b"
  by (auto simp: one_copy_def cached_def)

lemma lru_choice_cases:
  assumes "lru_choice dev blockno L s = Some (b, f)"
  shows "(cached dev blockno s b \<and> f = (\<lambda>x. x\<lparr>b_refcnt := b_refcnt x + 1\<rparr>)) \<or>
    ((\<forall>c \<in> set L. \<not> cached dev blockno s c) \<and> b_refcnt (bufs s b) = 0 \<and>
     f = (\<lambda>x. x\<lparr>b_dev := dev, b_blockno := blockno, b_valid := 0, b_refcnt := 1\<rparr>))"
  using assms by (auto simp: lru_choice_def find_None_iff split: option.splits dest!: find_in)

lemma bget_keeps_ok:
  assumes "bcache_ok L s" "lru_choice dev blockno L s = Some (b, f)" "dev \<noteq> 0"
  shows "bcache_ok L (upd_buf b f s)" "cached dev blockno (upd_buf b f s) b" "b < NBUF"
    "b_refcnt (f (bufs s b)) = b_refcnt (bufs s b) + 1"
proof -
  have L: "set L = {0..<NBUF}" using assms(1) by (simp add: bcache_ok_def bcache_list_def)
  show b: "b < NBUF" using lru_choice_in [OF assms(2)] L by simp
  have "bcache_list L (upd_buf b f s) = bcache_list L s"
    by (rule bcache_list_cong) (simp add: lru_choice_links [OF assms(2)])
  moreover have "one_copy (upd_buf b f s)"
    using lru_choice_cases [OF assms(2)] assms(1) L unfolding bcache_ok_def one_copy_def cached_def by auto
  ultimately show "bcache_ok L (upd_buf b f s)" using assms(1) by (simp add: bcache_ok_def)
  show "cached dev blockno (upd_buf b f s) b" "b_refcnt (f (bufs s b)) = b_refcnt (bufs s b) + 1"
    using lru_choice_cases [OF assms(2)] by (auto simp: cached_def)
qed

section \<open>Blocks and their contents\<close>

lemma disk_block_put:
  assumes "unat n < 2 ^ 31" "unat m < 2 ^ 31"
  shows "disk_block (put_block n d v) m = (if m = n then d else disk_block v m)"
proof -
  have s: "unat (block_sector k) = 2 * unat k" if "unat k < 2 ^ 31" for k
  proof -
    have "k * 2 = of_nat (unat k * 2)" by simp
    moreover have "unat (of_nat (unat k * 2) :: u32) = unat k * 2" using that by (intro unat_of_nat_u32) simp
    ultimately show ?thesis by (simp add: block_sector_def BSIZE_def)
  qed
  have p: "unat (block_sector k + 1) = 2 * unat k + 1" if "unat k < 2 ^ 31" for k
    using unat_add_of_nat [of "block_sector k" 1] s [OF that] that by simp
  note e = s [OF assms(1)] s [OF assms(2)] p [OF assms(1)] p [OF assms(2)]
  have "block_sector m = block_sector n \<longleftrightarrow> m = n" "block_sector m + 1 = block_sector n + 1 \<longleftrightarrow> m = n"
    unfolding word_unat_eq_iff e by simp_all
  moreover have "block_sector m \<noteq> block_sector n + 1" "block_sector m + 1 \<noteq> block_sector n"
    unfolding word_unat_eq_iff e by presburger+
  ultimately show ?thesis by (auto simp: disk_block_def put_block_def)
qed

section \<open>\<open>brelse\<close>\<close>

definition payload :: "buf \<Rightarrow> buf" where
  "payload x = x\<lparr>b_prev := 0, b_next := 0\<rparr>"

lemma payload_upd [simp]: "payload (x\<lparr>b_next := v\<rparr>) = payload x" "payload (x\<lparr>b_prev := v\<rparr>) = payload x"
  by (simp_all add: payload_def)

lemma payload_eqD:
  assumes "payload x = payload y"
  shows "b_valid x = b_valid y" "b_disk x = b_disk y" "b_dev x = b_dev y" "b_blockno x = b_blockno y" "b_refcnt x = b_refcnt y"
  using arg_cong [OF assms, of b_valid] arg_cong [OF assms, of b_disk] arg_cong [OF assms, of b_dev]
    arg_cong [OF assms, of b_blockno] arg_cong [OF assms, of b_refcnt] by (simp_all add: payload_def)

lemma payload_link:
  "payload (bufs (upd_buf b (\<lambda>x. x\<lparr>b_next := v\<rparr>) s) c) = payload (bufs s c)"
  "payload (bufs (upd_buf b (\<lambda>x. x\<lparr>b_prev := v\<rparr>) s) c) = payload (bufs s c)"
  by simp_all

lemma payload_move: "payload (bufs (brelse_move b s) c) = payload (bufs s c)"
  unfolding brelse_move_def Let_def payload_link by (rule refl)

lemma upd_buf_frame_ex: "\<exists>B. t = s\<lparr>bufs := B\<rparr> \<Longrightarrow> \<exists>B. upd_buf b f t = s\<lparr>bufs := B\<rparr>"
  by (auto simp: upd_buf_def)

lemma brelse_move_frame: "\<exists>B. t = s\<lparr>bufs := B\<rparr> \<Longrightarrow> \<exists>B. brelse_move b t = s\<lparr>bufs := B\<rparr>"
  unfolding brelse_move_def Let_def by (intro upd_buf_frame_ex)

lemma lock_free_move [simp]: "lock_free k (brelse_move b s) = lock_free k s"
  unfolding brelse_move_def Let_def upd_buf_frame(1) by (rule refl)

lemma brelse_list:
  assumes "bcache_list L s" "b < NBUF" "\<And>c. nexts s' c = nexts s c" "\<And>c. prevs s' c = prevs s c"
  shows "bcache_list (b # remove1 b L) (brelse_move b s')" "bcache_list L s'"
proof -
  have L: "dlinked (nexts s') (prevs s') bhead L" "set L = {0..<NBUF}"
    using assms(1) by (simp_all add: bcache_list_links assms(3,4) ext [OF assms(3)] ext [OF assms(4)])
  then show "bcache_list L s'" by (simp add: bcache_list_links)
  obtain xs ys where "L = xs @ b # ys" using L(2) assms(2) split_list [of b L] by auto
  moreover from this have "remove1 b L = xs @ ys" using L(1) by (auto simp: dlinked_def remove1_append)
  ultimately show "bcache_list (b # remove1 b L) (brelse_move b s')"
    using brelse_move_list [of s' xs b ys] L by (auto simp: bcache_list_links)
qed

lemma brelse_move_with_held [lock_simps]: "brelse_move b (with_held H s) = with_held H (brelse_move b s)"
  by (simp add: brelse_move_def Let_def lock_simps)

lemma resched_upd_buf: "resched s s' \<Longrightarrow> resched (upd_buf b f s) (upd_buf b f s')"
  by (simp add: upd_buf_def resched_disk_sel(1) resched_disk_upd(1))

lemma brelse_done:
  assumes "in_kernel p s" "bcache_list L s" "b < NBUF"
    and "sl_locked (sleeplocks s (BufSL b)) \<noteq> 0" "sl_pid (sleeplocks s (BufSL b)) = p_pid (procs s p)"
  obtains B s' where "brelse b (with_held {} s) = Ret () (with_held {} s')"
    "resched ((upd_sl (BufSL b) (\<lambda>l. l\<lparr>sl_locked := 0, sl_pid := 0\<rparr>) s)\<lparr>bufs := B\<rparr>) s'" "in_kernel p s'"
    "\<forall>c. payload (B c) = payload (if c = b then (bufs s b)\<lparr>b_refcnt := b_refcnt (bufs s b) - 1\<rparr> else bufs s c)"
    "bcache_list (if b_refcnt (bufs s b) = 1 then b # remove1 b L else L) s'"
    "procs s' = wake_procs s (Some (BufLockChan b)) {0..<NPROC}"
proof -
  note k = in_kernelD [OF assms(1)]
  let ?s1 = "upd_sl (BufSL b) (\<lambda>l. l\<lparr>sl_locked := 0, sl_pid := 0\<rparr>) s" and ?c = "Some (BufLockChan b)"
  obtain q n where r: "releasesleep (BufSL b) (with_held {} s) = Ret () (with_held {} (wake_state ?s1 ?c [0..<NPROC] q n))"
      "woken_lists s ?c [0..<NPROC] (wake_state ?s1 ?c [0..<NPROC] q n)"
    using releasesleep_with_held [of "{}" "BufSL b" s] k(3-5) by (auto simp: user_locks_def)
  define s2 where "s2 = wake_state ?s1 ?c [0..<NPROC] q n"
  have s2: "resched ?s1 s2" "mlfq_good s2" using r(2) by (simp_all add: s2_def wake_state_resched woken_lists_def)
  have links: "nexts s3 = nexts s" "prevs s3 = prevs s" if "s3 = upd_buf b (\<lambda>x. x\<lparr>b_refcnt := b_refcnt x - 1\<rparr>) s2" for s3
    using resched_disk_sel(1) [OF s2(1)] that by (auto simp: nexts_def prevs_def upd_sl_def fun_eq_iff)
  have b2: "bufs s2 = bufs s" using resched_disk_sel(1) [OF s2(1)] by (simp add: upd_sl_def)
  define s3 where "s3 = upd_buf b (\<lambda>x. x\<lparr>b_refcnt := b_refcnt x - 1\<rparr>) s2"
  define s4 where "s4 = (if b_refcnt (bufs s b) = 1 then brelse_move b s3 else s3)"
  have "\<exists>B. s3 = s2\<lparr>bufs := B\<rparr>" by (auto simp: s3_def upd_buf_def)
  then have "\<exists>B. s4 = s2\<lparr>bufs := B\<rparr>" using brelse_move_frame [of s3 s2 b] by (simp add: s4_def)
  then obtain B where B: "s4 = s2\<lparr>bufs := B\<rparr>" ..
  have h: "holdingsleep (BufSL b) (with_held {} s) = Ret True (with_held {} s)"
    using holdingsleep_with_held [of "{}" "BufSL b" s p] assms(4,5) k(1,3) by simp
  have lf: "lock_free BcacheLock s2" "lock_free BcacheLock s4"
    using k(3) resched_hart(8) [OF s2(1)] by (simp_all add: B)
  have z: "b_refcnt (bufs s b) - 1 = 0 \<longleftrightarrow> b_refcnt (bufs s b) = 1" by simp
  have "brelse b (with_held {} s) = Ret () (with_held {} s4)"
    using h r(1) lf b2 z unfolding brelse_def
    by (simp add: s2_def [symmetric] acquire_with_held disk_op_with_held with_held_disk brelse_move_with_held release_last
        Let_def s3_def s4_def)
  moreover have "resched (?s1\<lparr>bufs := B\<rparr>) s4" using resched_disk_upd(1) [OF s2(1)] by (simp add: B)
  moreover have "in_kernel p s4" using in_kernel_resched [OF s2] assms(1) by (simp add: B)
  moreover have "\<forall>c. payload (B c) = payload (if c = b then (bufs s b)\<lparr>b_refcnt := b_refcnt (bufs s b) - 1\<rparr> else bufs s c)"
    using arg_cong [OF B, of bufs] b2 by (auto simp: s4_def s3_def payload_move split: if_splits)
  moreover have "bcache_list (if b_refcnt (bufs s b) = 1 then b # remove1 b L else L) s4"
    using brelse_list [OF assms(2,3), of s3] links [OF s3_def] by (simp add: s4_def)
  moreover have "procs s4 = wake_procs s ?c {0..<NPROC}"
    by (simp add: B s2_def wake_procs_def wakes_def fun_eq_iff)
  ultimately show ?thesis by (rule that)
qed

section \<open>\<open>binit\<close>\<close>

lemma binit_loop_list:
  assumes "dlinked (nexts s) (prevs s) bhead L" "distinct bs" "bhead \<notin> set bs" "set bs \<inter> set L = {}"
  shows "dlinked (nexts (binit_loop bs s)) (prevs (binit_loop bs s)) bhead (rev bs @ L)"
  using assms
proof (induction bs arbitrary: s L)
  case (Cons b bs)
  let ?s1 = "upd_buf b (\<lambda>x. x\<lparr>b_prev := bhead\<rparr>) (upd_buf b (\<lambda>x. x\<lparr>b_next := nexts s bhead\<rparr>) s)"
  let ?s2 = "initsleeplock (BufSL b) ''buffer'' ?s1"
  let ?s3 = "upd_buf bhead (\<lambda>x. x\<lparr>b_next := b\<rparr>) (upd_buf (nexts ?s2 bhead) (\<lambda>x. x\<lparr>b_prev := b\<rparr>) ?s2)"
  have i: "nexts (initsleeplock lk nm t) = nexts t" "prevs (initsleeplock lk nm t) = prevs t" for lk nm and t :: "'a disk_state_scheme"
    by (simp_all add: nexts_def prevs_def initsleeplock_def upd_sl_def initlock_def upd_lock_def)
  have n: "nexts ?s3 = (nexts s)(b := nexts s bhead, bhead := b)"
      "prevs ?s3 = (prevs s)(b := bhead, nexts s bhead := b)"
    using Cons.prems(3) unfolding links_upd i by simp_all
  have "dlinked (nexts ?s3) (prevs ?s3) bhead (b # L)"
    unfolding n using Cons.prems by (intro dlinked_front) auto
  then have "dlinked (nexts (binit_loop bs ?s3)) (prevs (binit_loop bs ?s3)) bhead (rev bs @ b # L)"
    using Cons.prems by (intro Cons.IH) auto
  moreover have "binit_loop (b # bs) s = binit_loop bs ?s3" by (simp add: Let_def link_fold)
  ultimately show ?case by simp
qed simp

lemma binit_list: "bcache_list (rev [0..<NBUF]) (binit s)"
proof -
  let ?s = "upd_buf bhead (\<lambda>x. x\<lparr>b_next := bhead\<rparr>) (upd_buf bhead (\<lambda>x. x\<lparr>b_prev := bhead\<rparr>) (initlock BcacheLock ''bcache'' s))"
  have "dlinked (nexts ?s) (prevs ?s) bhead []" by (simp add: dlinked_def links_upd)
  then have "dlinked (nexts (binit s)) (prevs (binit s)) bhead (rev [0..<NBUF] @ [])"
    unfolding binit_def Let_def by (rule binit_loop_list) (simp_all add: bhead_def)
  then show ?thesis by (simp add: bcache_list_links)
qed

section \<open>Properties\<close>

text \<open>
  C25: \<open>bget\<close> on a well-formed cache: the buffer it takes is the most recently used one that caches the
  block, or else the least recently used one nobody refers to, or it panics when there is none.  The
  cache stays well formed: the list is unchanged and no block has two buffers.  The caller gets the
  buffer locked, or goes to sleep on its lock.  Device number 0, which unused buffers carry, is excluded.
\<close>

theorem bget_single_copy:
  assumes "in_kernel p s" "bcache_ok L s" "dev \<noteq> 0"
  shows "case lru_choice dev blockno L s of
      None \<Rightarrow> bget dev blockno (with_held {} s) = Panic ''bget: no buffers''
    | Some (b, f) \<Rightarrow> b < NBUF \<and> bcache_ok L (upd_buf b f s) \<and> cached dev blockno (upd_buf b f s) b \<and>
        b_refcnt (f (bufs s b)) = b_refcnt (bufs s b) + 1 \<and>
        bget dev blockno (with_held {} s) =
          (if sl_locked (sleeplocks s (BufSL b)) = 0
           then Ret b (with_held {} (upd_sl (BufSL b) (\<lambda>l. l\<lparr>sl_locked := 1, sl_pid := p_pid (procs s p)\<rparr>) (upd_buf b f s)))
           else Swtch (ResumeSleep (BufLk b) (intr_get s))
             (with_held {ProcLock p} (upd_proc p (\<lambda>x. x\<lparr>p_chan := Some (BufLockChan b), p_state := SLEEPING\<rparr>) (upd_buf b f s))))"
proof (cases "lru_choice dev blockno L s")
  case None
  then show ?thesis using bget_lru [of L s dev blockno] assms(2) in_kernelD(3) [OF assms(1)] by (simp add: bcache_ok_def)
next
  case (Some bf)
  obtain b f where bf: "bf = (b, f)" by (cases bf)
  note k = in_kernelD [OF assms(1)]
  let ?t = "upd_buf b f s"
  have g: "bget dev blockno (with_held {} s) = bnd (acquiresleep (BufSL b) (with_held {} ?t)) (\<lambda>_ s. Ret b s)"
    using bget_lru [of L s dev blockno] assms(2) k(3) Some bf by (simp add: bcache_ok_def)
  have "intr_get ?t = intr_get s" by (simp add: intr_get_def r_sstatus_def upd_buf_def)
  then show ?thesis
    using bget_keeps_ok [OF assms(2) _ assms(3), of blockno b f] Some bf g k
      acquiresleep_free [of "{}" "BufSL b" ?t p] acquiresleep_busy [of "BufSL b" ?t p]
    by simp
qed

text \<open>
  \<open>brelse\<close> by the process that holds the buffer frees its lock, makes the processes that wait for it
  runnable and drops one reference; when that was the last one, the buffer becomes the most recently
  used.  The cache stays well formed.
\<close>

theorem brelse_moves_to_front:
  assumes "in_kernel p s" "bcache_ok L s" "b < NBUF"
    and "sl_locked (sleeplocks s (BufSL b)) \<noteq> 0" "sl_pid (sleeplocks s (BufSL b)) = p_pid (procs s p)"
  shows "\<exists>s'. brelse b (with_held {} s) = Ret () (with_held {} s') \<and> in_kernel p s' \<and>
    bcache_ok (if b_refcnt (bufs s b) = 1 then b # remove1 b L else L) s' \<and>
    sl_locked (sleeplocks s' (BufSL b)) = 0 \<and> b_refcnt (bufs s' b) = b_refcnt (bufs s b) - 1 \<and>
    (\<forall>i < NPROC. wakes s (Some (BufLockChan b)) i \<longrightarrow> p_state (procs s' i) = RUNNABLE)"
proof -
  have l: "bcache_list L s" "one_copy s" using assms(2) by (simp_all add: bcache_ok_def)
  obtain B s' where e: "brelse b (with_held {} s) = Ret () (with_held {} s')"
    "resched ((upd_sl (BufSL b) (\<lambda>l. l\<lparr>sl_locked := 0, sl_pid := 0\<rparr>) s)\<lparr>bufs := B\<rparr>) s'" "in_kernel p s'"
    "\<forall>c. payload (B c) = payload (if c = b then (bufs s b)\<lparr>b_refcnt := b_refcnt (bufs s b) - 1\<rparr> else bufs s c)"
    "bcache_list (if b_refcnt (bufs s b) = 1 then b # remove1 b L else L) s'"
    "procs s' = wake_procs s (Some (BufLockChan b)) {0..<NPROC}"
    by (rule brelse_done [OF assms(1) l(1) assms(3-5)])
  have B: "bufs s' = B" using resched_disk_sel(1) [OF e(2)] by simp
  have "b_dev (B c) = b_dev (bufs s c)" "b_blockno (B c) = b_blockno (bufs s c)" for c
    using payload_eqD(3,4) [OF e(4) [rule_format], of c] by auto
  then have "one_copy s'" using l(2) by (simp add: one_copy_def cached_def B)
  moreover have "sleeplocks s' (BufSL b) = (sleeplocks s (BufSL b))\<lparr>sl_locked := 0, sl_pid := 0\<rparr>"
    using e(2) by (auto elim!: reschedE)
  ultimately show ?thesis
    using e(1,3,5,6) payload_eqD(5) [OF e(4) [rule_format], of b] B
    by (intro exI [of _ s']) (auto simp: bcache_ok_def wake_procs_def)
qed

subsection \<open>Witnesses\<close>

text \<open>The buffers of \<open>demo_disk\<close>, with buffer 5 holding block 46 of device 1, locked by process 1.\<close>

definition demo_cache :: disk_state where
  "demo_cache = upd_sl (BufSL 5) (\<lambda>l. l\<lparr>sl_locked := 1, sl_pid := 1\<rparr>)
     (upd_buf 5 (\<lambda>x. x\<lparr>b_dev := 1, b_blockno := 46, b_valid := 1, b_refcnt := 1\<rparr>) demo_disk)"

lemma follows_down:
  "f 0 = z \<Longrightarrow> (\<And>i. i < n \<Longrightarrow> f (Suc i) = i) \<Longrightarrow> follows f n (rev [0..<n]) z"
  by (induction n) auto

lemma follows_up: "f n = z \<Longrightarrow> (\<And>i. i < n \<Longrightarrow> f i = Suc i) \<Longrightarrow> follows f 0 [Suc 0..<Suc n] z"
proof (induction n arbitrary: z)
  case (Suc n)
  then have "follows f 0 [Suc 0..<Suc n] (Suc n)" by simp
  with Suc.prems(1) show ?case by (simp add: follows_append)
qed simp

lemma demo_disk_list: "bcache_list (rev [0..<NBUF]) demo_disk"
proof -
  have n: "NBUF = 30" by (simp add: NBUF_def MAXOPBLOCKS_def)
  have "follows (\<lambda>b. b_next (bufs demo_disk b)) bhead (rev [0..<NBUF]) bhead"
    unfolding bhead_def by (rule follows_down) (simp_all add: demo_disk_defs n)
  moreover have "follows (\<lambda>b. b_prev (bufs demo_disk b)) 0 [Suc 0..<Suc 29] bhead"
    by (rule follows_up) (simp_all add: demo_disk_defs n bhead_def)
  then have "follows (\<lambda>b. b_prev (bufs demo_disk b)) bhead (0 # [Suc 0..<Suc 29]) bhead"
    by (simp add: demo_disk_defs n bhead_def)
  moreover have u: "0 # [Suc 0..<Suc 29] = [0..<NBUF]" unfolding n by (simp add: upt_rec)
  ultimately show ?thesis unfolding u by (simp add: bcache_list_def dlinked_def bhead_def)
qed

lemma demo_cache_ok: "bcache_ok (rev [0..<NBUF]) demo_cache"
proof -
  have "bcache_list (rev [0..<NBUF]) demo_cache = bcache_list (rev [0..<NBUF]) demo_disk"
    by (rule bcache_list_cong) (simp add: demo_cache_def upd_sl_def upd_buf_def)
  moreover have "one_copy demo_cache"
    by (auto simp: one_copy_def cached_def demo_cache_def demo_disk_defs upd_sl_def upd_buf_def)
  ultimately show ?thesis using demo_disk_list by (simp add: bcache_ok_def)
qed

lemma demo_cache_sel:
  "sl_locked (sleeplocks demo_cache (BufSL 5)) = 1" "sl_pid (sleeplocks demo_cache (BufSL 5)) = 1"
  "b_refcnt (bufs demo_cache 5) = 1" "p_pid (procs demo_cache 1) = 1"
  by (simp_all add: demo_cache_def demo_disk_defs upd_sl_def upd_buf_def demo_pipe_def sync_state.defs
      demo_sl_def proc_state.defs)

lemma demo_cache_kernel: "in_kernel 1 demo_cache"
  unfolding demo_cache_def in_kernel_upd by (rule demo_disk_kernel)

theorem bget_single_copy_witness:
  "bget 1 33 (with_held {} demo_cache) =
    Ret 0 (with_held {} (upd_sl (BufSL 0) (\<lambda>l. l\<lparr>sl_locked := 1, sl_pid := 1\<rparr>)
      (upd_buf 0 (\<lambda>x. x\<lparr>b_dev := 1, b_blockno := 33, b_valid := 0, b_refcnt := 1\<rparr>) demo_cache)))"
proof -
  have "find (cached 1 33 demo_cache) (rev [0..<NBUF]) = None"
    by (auto simp: find_None_iff cached_def demo_cache_def demo_disk_defs upd_sl_def upd_buf_def)
  moreover have "find (\<lambda>b. b_refcnt (bufs demo_cache b) = 0) [0..<NBUF] = Some 0"
    by (simp add: NBUF_def MAXOPBLOCKS_def upt_rec demo_cache_def demo_disk_defs upd_sl_def upd_buf_def)
  ultimately have "lru_choice 1 33 (rev [0..<NBUF]) demo_cache =
      Some (0, \<lambda>x. x\<lparr>b_dev := 1, b_blockno := 33, b_valid := 0, b_refcnt := 1\<rparr>)"
    by (simp add: lru_choice_def)
  moreover have "sl_locked (sleeplocks demo_cache (BufSL 0)) = 0"
    by (simp add: demo_cache_def demo_disk_defs upd_sl_def upd_buf_def demo_pipe_def demo_sl_def proc_state.defs sync_state.defs)
  ultimately show ?thesis
    using bget_single_copy [OF demo_cache_kernel demo_cache_ok, of 1 33] demo_cache_sel(4) by simp
qed

theorem brelse_moves_to_front_witness:
  "\<exists>s'. brelse 5 (with_held {} demo_cache) = Ret () (with_held {} s') \<and>
    bcache_ok (5 # remove1 5 (rev [0..<NBUF])) s' \<and> b_refcnt (bufs s' 5) = 0"
  using brelse_moves_to_front [OF demo_cache_kernel demo_cache_ok, of 5] demo_cache_sel(1-4)
  by (auto simp: NBUF_def MAXOPBLOCKS_def)

end
