(* ===== verification/BlockStore.thy ===== *)
theory BlockStore
  imports BufCache Log
begin

text \<open>
  The buffer cache and the disk as one store of blocks.  \<open>content s dev n\<close> is what a reader of block \<open>n\<close>
  sees: the data of the buffer that caches it, or the block on the disk.  The lemmas give each
  operation of \<open>bio.c\<close> by what it does to the contents, to the blocks on the disk and to the buffers.
\<close>

section \<open>Contents\<close>

definition holds :: "'a disk_state_scheme \<Rightarrow> u32 \<Rightarrow> u32 \<Rightarrow> nat \<Rightarrow> bool" where
  "holds s dev n b \<longleftrightarrow> b < NBUF \<and> cached dev n s b \<and> b_valid (bufs s b) \<noteq> 0"

definition content :: "'a disk_state_scheme \<Rightarrow> u32 \<Rightarrow> u32 \<Rightarrow> u8 list" where
  "content s dev n =
     (case find (holds s dev n) [0..<NBUF] of Some b \<Rightarrow> b_data (vio s) b | None \<Rightarrow> disk_block (vio s) n)"

lemma holds_unique: "one_copy s \<Longrightarrow> dev \<noteq> 0 \<Longrightarrow> holds s dev n a \<Longrightarrow> holds s dev n b \<Longrightarrow> a = b"
  using one_copyD [of s a b dev n] by (auto simp: holds_def)

lemma content_holds: "one_copy s \<Longrightarrow> dev \<noteq> 0 \<Longrightarrow> holds s dev n b \<Longrightarrow> content s dev n = b_data (vio s) b"
proof -
  assume a: "one_copy s" "dev \<noteq> 0" "holds s dev n b"
  then have "find (holds s dev n) [0..<NBUF] \<noteq> None" by (auto simp: find_None_iff holds_def)
  then obtain c where c: "find (holds s dev n) [0..<NBUF] = Some c" by auto
  with find_in [OF c] holds_unique [OF a(1,2) a(3), of c] show ?thesis by (simp add: content_def)
qed

lemma content_disk: "(\<And>b. \<not> holds s dev n b) \<Longrightarrow> content s dev n = disk_block (vio s) n"
  by (auto simp: content_def find_None_iff split: option.splits dest!: find_in)

lemma content_cong:
  "(\<And>b. holds s' dev n b = holds s dev n b) \<Longrightarrow> (\<And>b. holds s dev n b \<Longrightarrow> b_data (vio s') b = b_data (vio s) b) \<Longrightarrow>
    disk_block (vio s') n = disk_block (vio s) n \<Longrightarrow> content s' dev n = content s dev n"
proof -
  assume a: "\<And>b. holds s' dev n b = holds s dev n b" "\<And>b. holds s dev n b \<Longrightarrow> b_data (vio s') b = b_data (vio s) b"
    "disk_block (vio s') n = disk_block (vio s) n"
  have "holds s' dev n = holds s dev n" using a(1) by (rule ext)
  with a(2,3) show ?thesis by (auto simp: content_def split: option.splits dest!: find_in)
qed

text \<open>A buffer nobody refers to agrees with the disk, so recycling it loses nothing.\<close>

definition clean :: "'a disk_state_scheme \<Rightarrow> nat \<Rightarrow> bool" where
  "clean s b \<longleftrightarrow> (b_valid (bufs s b) \<noteq> 0 \<longrightarrow> b_data (vio s) b = disk_block (vio s) (b_blockno (bufs s b)))"

text \<open>
  The invariant of the store between operations.  The driver has one disk and ignores the device number,
  so all valid buffers belong to one device; sector numbers fit into 32 bits.
\<close>

definition store_ok :: "u32 \<Rightarrow> nat list \<Rightarrow> 'a disk_state_scheme \<Rightarrow> bool" where
  "store_ok dev L s \<longleftrightarrow> dev \<noteq> 0 \<and> bcache_ok L s \<and> disk_idle s \<and>
     (\<forall>b < NBUF. b_valid (bufs s b) \<noteq> 0 \<longrightarrow> b_dev (bufs s b) = dev \<and> unat (b_blockno (bufs s b)) < 2 ^ 31) \<and>
     (\<forall>b < NBUF. b_refcnt (bufs s b) = 0 \<longrightarrow> clean s b)"

lemma store_okD:
  assumes "store_ok dev L s"
  shows "bcache_ok L s" "bcache_list L s" "one_copy s" "disk_idle s" "dev \<noteq> 0"
    "b < NBUF \<Longrightarrow> b_refcnt (bufs s b) = 0 \<Longrightarrow> clean s b"
    "b < NBUF \<Longrightarrow> b_valid (bufs s b) \<noteq> 0 \<Longrightarrow> b_dev (bufs s b) = dev \<and> unat (b_blockno (bufs s b)) < 2 ^ 31"
  using assms by (auto simp: store_ok_def bcache_ok_def)

section \<open>\<open>bread\<close>\<close>

text \<open>The buffers \<open>bget\<close> may take for block \<open>n\<close> are not locked and not at the limit of their count.\<close>

definition available :: "u32 \<Rightarrow> u32 \<Rightarrow> 'a disk_state_scheme \<Rightarrow> bool" where
  "available dev n s \<longleftrightarrow> (\<exists>c < NBUF. cached dev n s c \<or> b_refcnt (bufs s c) = 0) \<and>
     (\<forall>c < NBUF. cached dev n s c \<or> b_refcnt (bufs s c) = 0 \<longrightarrow>
       sl_locked (sleeplocks s (BufSL c)) = 0 \<and> b_refcnt (bufs s c) + 1 \<noteq> 0)"

definition lock_buf :: "nat \<Rightarrow> nat \<Rightarrow> 'a disk_state_scheme \<Rightarrow> 'a disk_state_scheme" where
  "lock_buf p b s = upd_sl (BufSL b) (\<lambda>l. l\<lparr>sl_locked := 1, sl_pid := p_pid (procs s p)\<rparr>) s"

lemma bget_done:
  assumes "in_kernel p s" "bcache_ok L s" "dev \<noteq> 0" "available dev n s"
  obtains b f where "bget dev n (with_held {} s) = Ret b (with_held {} (lock_buf p b (upd_buf b f s)))"
    "lru_choice dev n L s = Some (b, f)"
proof -
  note k = in_kernelD [OF assms(1)]
  have l: "bcache_list L s" "set L = {0..<NBUF}" using assms(2) by (simp_all add: bcache_ok_def bcache_list_def)
  have "lru_choice dev n L s \<noteq> None"
    using assms(4) l(2) by (auto simp: lru_choice_def available_def find_None_iff split: option.splits)
  then obtain b f where bf: "lru_choice dev n L s = Some (b, f)" by auto
  have b: "b \<in> set L" by (rule lru_choice_in [OF bf])
  have "sl_locked (sleeplocks s (BufSL b)) = 0"
    using lru_choice_cases [OF bf] assms(4) b l(2) by (auto simp: available_def)
  then have "acquiresleep (BufSL b) (with_held {} (upd_buf b f s)) = Ret () (with_held {} (lock_buf p b (upd_buf b f s)))"
    using acquiresleep_free [of "{}" "BufSL b" "upd_buf b f s" p] k(1,3) by (simp add: lock_buf_def)
  with bget_lru [OF l(1) k(3), of dev n] bf that show ?thesis by simp
qed

lemma lock_buf_sel [simp]:
  "bufs (lock_buf p b s) = bufs s" "vio (lock_buf p b s) = vio s" "procs (lock_buf p b s) = procs s"
  "sleeplocks (lock_buf p b s) = (sleeplocks s)(BufSL b := (sleeplocks s (BufSL b))\<lparr>sl_locked := 1, sl_pid := p_pid (procs s p)\<rparr>)"
  "in_kernel q (lock_buf p b s) = in_kernel q s" "disk_idle (lock_buf p b s) = disk_idle s" "bcache_ok L (lock_buf p b s) = bcache_ok L s"
  by (simp_all add: lock_buf_def bcache_ok_def one_copy_def bcache_list_def cached_def) (simp_all add: upd_sl_def)

lemma lock_buf_step: "bio_step s (lock_buf p b (upd_buf b f s))"
  unfolding lock_buf_def by (rule bio_step_trans [OF bio_step_upd(1) bio_step_upd(2)])

lemma vio_upd_buf [simp]: "vio (upd_buf b f s) = vio s"
  by (simp add: upd_buf_def)

lemma bcache_ok_cong:
  assumes "\<And>c. b_next (bufs s' c) = b_next (bufs s c) \<and> b_prev (bufs s' c) = b_prev (bufs s c) \<and>
      b_dev (bufs s' c) = b_dev (bufs s c) \<and> b_blockno (bufs s' c) = b_blockno (bufs s c)"
  shows "bcache_ok L s' = bcache_ok L s"
  using bcache_list_cong [of s' s L] assms by (simp add: bcache_ok_def one_copy_def cached_def)

lemma disk_idle_upd_buf: "disk_idle s \<Longrightarrow> (\<And>x. b_disk (f x) = b_disk x) \<Longrightarrow> disk_idle (upd_buf b f s)"
  by (simp add: disk_idle_def upd_buf_def)

text \<open>What \<open>bread\<close> leaves behind.\<close>

definition bread_post :: "nat \<Rightarrow> nat list \<Rightarrow> u32 \<Rightarrow> u32 \<Rightarrow> 'a disk_state_scheme \<Rightarrow> nat \<Rightarrow> 'a disk_state_scheme \<Rightarrow> bool" where
  "bread_post p L dev n s b s' \<longleftrightarrow> in_kernel p s' \<and> bcache_ok L s' \<and> disk_idle s' \<and> bio_step s s' \<and> holds s' dev n b \<and>
     sleeplocks s' = (sleeplocks s)(BufSL b := (sleeplocks s (BufSL b))\<lparr>sl_locked := 1, sl_pid := p_pid (procs s p)\<rparr>) \<and>
     b_refcnt (bufs s' b) = b_refcnt (bufs s b) + 1 \<and> (\<forall>c. c \<noteq> b \<longrightarrow> bufs s' c = bufs s c) \<and>
     b_data (vio s') = (b_data (vio s))(b := content s dev n) \<and> v_sectors (vio s') = v_sectors (vio s) \<and>
     (cached dev n s b \<or> b_refcnt (bufs s b) = 0 \<and> (\<forall>c < NBUF. \<not> cached dev n s c))"

lemma bread_done:
  assumes "in_kernel p s" "bcache_ok L s" "disk_idle s" "dev \<noteq> 0" "available dev n s"
  obtains b s' where "bread dev n (with_held {} s) = Ret b (with_held {} s')" "bread_post p L dev n s b s'"
proof -
  have L: "set L = {0..<NBUF}" "one_copy s" using assms(2) by (simp_all add: bcache_ok_def bcache_list_def)
  obtain b f where g: "bget dev n (with_held {} s) = Ret b (with_held {} (lock_buf p b (upd_buf b f s)))"
      "lru_choice dev n L s = Some (b, f)"
    by (rule bget_done [OF assms(1,2,4,5)])
  note ok = bget_keeps_ok [OF assms(2) g(2) assms(4)] and c = lru_choice_cases [OF g(2), unfolded L(1)]
  define t where "t = lock_buf p b (upd_buf b f s)"
  have fb: "b_disk (f x) = b_disk x" for x using c by auto
  have t: "in_kernel p t" "bcache_ok L t" "disk_idle t" "bio_step s t" "vio t = vio s" "bufs t = (bufs s)(b := f (bufs s b))"
    using assms(1,3) ok(1) lock_buf_step by (simp_all add: t_def disk_idle_upd_buf [OF _ fb])
  have n: "b_blockno (bufs t b) = n" "b_dev (bufs t b) = dev" using ok(2) by (simp_all add: t(6) cached_def)
  have u: "holds s dev n a \<Longrightarrow> a = b" for a
    using c one_copyD [OF L(2) _ ok(3), of a dev n] assms(4) by (auto simp: holds_def)
  have cs: "cached dev n s b \<or> b_refcnt (bufs s b) = 0 \<and> (\<forall>c < NBUF. \<not> cached dev n s c)" using c by auto
  show ?thesis
  proof (cases "b_valid (f (bufs s b)) = 0")
    case False
    then have h: "holds s dev n b" "b_valid (f (bufs s b)) = b_valid (bufs s b)" using c ok(3) by (auto simp: holds_def)
    have "bread dev n (with_held {} s) = Ret b (with_held {} t)"
      using g(1) False t(6) by (simp add: bread_def with_held_disk t_def [symmetric])
    moreover have "bread_post p L dev n s b t"
      using t ok h content_holds [OF L(2) assms(4) h(1)] cs
      by (auto simp: bread_post_def holds_def cached_def t_def)
    ultimately show ?thesis by (rule that)
  next
    case True
    have "\<not> holds s dev n b" using True c by (auto simp: holds_def)
    then have co: "content s dev n = disk_block (vio s) n" using u by (intro content_disk) auto
    obtain v wr w inf s1 where d: "virtio_disk_rw b False (with_held {} t) = Ret () (with_held {} s1)"
      "resched (t\<lparr>virtio_writes := wr, vd_used_idx := w, vd_info_b := inf, vio := v\<rparr>) s1" "in_kernel p s1" "disk_idle s1"
      "transfer False b (b_blockno (bufs t b)) (vio t) v"
      by (rule virtio_disk_rw_done [OF t(1,3)])
    let ?s2 = "upd_buf b (\<lambda>x. x\<lparr>b_valid := 1\<rparr>) s1"
    have s1: "bufs s1 = bufs t" "vio s1 = v" "sleeplocks s1 = sleeplocks t"
      using d(2) by (auto elim!: reschedE)
    have "bread dev n (with_held {} s) = Ret b (with_held {} ?s2)"
      using g(1) True t(6) d(1) by (simp add: bread_def with_held_disk disk_op_with_held t_def [symmetric])
    moreover have "bio_step s ?s2"
      using bio_step_trans [OF t(4) bio_step_trans [OF bio_step_trans [OF bio_step_upd(4) bio_step_resched [OF d(2)]] bio_step_upd(1)]] .
    moreover have "bcache_ok L ?s2"
      using t(2) bcache_ok_cong [of ?s2 t L] s1(1) by simp
    ultimately show ?thesis
      using that d(3,5) disk_idle_upd_buf [OF d(4), of "\<lambda>x. x\<lparr>b_valid := 1\<rparr>" b] ok(2-4) s1 t(5,6) n co cs
      by (intro that [of b ?s2]) (auto simp: bread_post_def holds_def cached_def transfer_def t_def)
  qed
qed

lemma bread_post_holds:
  assumes "bread_post p L dev n s b s'" "one_copy s" "dev \<noteq> 0" "m \<noteq> n"
  shows "holds s' dev m c \<longleftrightarrow> c \<noteq> b \<and> holds s dev m c"
proof (cases "c = b")
  case True
  then show ?thesis using assms(1,4) by (auto simp: bread_post_def holds_def cached_def)
next
  case False
  then have "bufs s' c = bufs s c" using assms(1) by (simp add: bread_post_def)
  with False show ?thesis by (simp add: holds_def cached_def)
qed

lemma bread_content:
  assumes "bread_post p L dev n s b s'" "store_ok dev L s"
  shows "content s' dev m = content s dev m"
proof (cases "m = n")
  case True
  have "one_copy s'" "holds s' dev n b" "b_data (vio s') b = content s dev n"
    using assms(1) by (simp_all add: bread_post_def bcache_ok_def)
  with True show ?thesis using content_holds store_okD(5) [OF assms(2)] by metis
next
  case False
  note o = store_okD [OF assms(2)]
  note h = bread_post_holds [OF assms(1) o(3,5) False]
  have v: "b_data (vio s') c = b_data (vio s) c" if "c \<noteq> b" for c using assms(1) that by (simp add: bread_post_def)
  have db: "disk_block (vio s') m = disk_block (vio s) m" using assms(1) by (simp add: bread_post_def disk_block_def)
  show ?thesis
  proof (cases "holds s dev m b")
    case True
    then have "\<not> cached dev n s b" using False by (auto simp: holds_def cached_def)
    then have "b_refcnt (bufs s b) = 0" "b < NBUF" using assms(1) by (auto simp: bread_post_def holds_def)
    then have "b_data (vio s) b = disk_block (vio s) m" using o(6) True by (auto simp: clean_def holds_def cached_def)
    moreover have "\<not> holds s' dev m c" for c using h holds_unique [OF o(3,5) True] by blast
    ultimately show ?thesis using content_disk db content_holds [OF o(3,5) True] by metis
  next
    case False
    with h have "holds s' dev m c = holds s dev m c" for c by auto
    then show ?thesis
    proof (rule content_cong)
      fix c assume "holds s dev m c"
      with False have "c \<noteq> b" by blast
      then show "b_data (vio s') c = b_data (vio s) c" by (rule v)
    qed (rule db)
  qed
qed

lemma bread_store:
  assumes "in_kernel p s" "store_ok dev L s" "available dev n s" "unat n < 2 ^ 31"
  obtains b s' where "bread dev n (with_held {} s) = Ret b (with_held {} s')" "bread_post p L dev n s b s'" "store_ok dev L s'"
proof -
  note o = store_okD [OF assms(2)]
  obtain b s' where b: "bread dev n (with_held {} s) = Ret b (with_held {} s')" "bread_post p L dev n s b s'"
    by (rule bread_done [OF assms(1) o(1,4,5) assms(3)])
  have bp: "b < NBUF" "cached dev n s b \<or> b_refcnt (bufs s b) = 0" "b_refcnt (bufs s' b) = b_refcnt (bufs s b) + 1"
      "b_dev (bufs s' b) = dev" "b_blockno (bufs s' b) = n" "bcache_ok L s'" "disk_idle s'"
      "\<And>c. c \<noteq> b \<Longrightarrow> bufs s' c = bufs s c" "\<And>c. c \<noteq> b \<Longrightarrow> b_data (vio s') c = b_data (vio s) c" "v_sectors (vio s') = v_sectors (vio s)"
    using b(2) by (auto simp: bread_post_def holds_def cached_def)
  have "b_refcnt (bufs s' b) \<noteq> 0" using bp(1-3) assms(3) by (auto simp: available_def)
  then have "clean s' c" if "c < NBUF" "b_refcnt (bufs s' c) = 0" for c
    using that o(6) [of c] bp(8-10) by (cases "c = b") (auto simp: clean_def disk_block_def)
  moreover have "b_dev (bufs s' c) = dev \<and> unat (b_blockno (bufs s' c)) < 2 ^ 31" if "c < NBUF" "b_valid (bufs s' c) \<noteq> 0" for c
    using that o(7) [of c] bp(4,5,8) assms(4) by (cases "c = b") auto
  ultimately have "store_ok dev L s'" using o(5) bp(6,7) by (simp add: store_ok_def)
  with b show ?thesis by (rule that)
qed

section \<open>Writing, pinning and releasing\<close>

definition held_by :: "nat \<Rightarrow> 'a disk_state_scheme \<Rightarrow> nat \<Rightarrow> bool" where
  "held_by p s b \<longleftrightarrow> sl_locked (sleeplocks s (BufSL b)) \<noteq> 0 \<and> sl_pid (sleeplocks s (BufSL b)) = p_pid (procs s p)"

lemma bwrite_store:
  assumes "in_kernel p s" "store_ok dev L s" "holds s dev n b" "held_by p s b"
  obtains s' where "bwrite b (with_held {} s) = Ret () (with_held {} s')" "in_kernel p s'" "store_ok dev L s'" "bio_step s s'"
    "bufs s' = bufs s" "sleeplocks s' = sleeplocks s" "b_data (vio s') = b_data (vio s)"
    "\<forall>m. unat m < 2 ^ 31 \<longrightarrow> disk_block (vio s') m = (if m = n then b_data (vio s) b else disk_block (vio s) m)"
proof -
  note o = store_okD [OF assms(2)]
  have n: "b_blockno (bufs s b) = n" "b_dev (bufs s b) = dev" "b < NBUF" "b_valid (bufs s b) \<noteq> 0"
    using assms(3) by (simp_all add: holds_def cached_def)
  have n31: "unat n < 2 ^ 31" using o(7) [OF n(3,4)] n(1) by simp
  obtain v wr w inf s' where d: "virtio_disk_rw b True (with_held {} s) = Ret () (with_held {} s')"
    "resched (s\<lparr>virtio_writes := wr, vd_used_idx := w, vd_info_b := inf, vio := v\<rparr>) s'" "in_kernel p s'" "disk_idle s'"
    "transfer True b (b_blockno (bufs s b)) (vio s) v"
    by (rule virtio_disk_rw_done [OF assms(1) o(4)])
  have s': "bufs s' = bufs s" "vio s' = v" "sleeplocks s' = sleeplocks s" using d(2) by (auto elim!: reschedE)
  have bd: "b_data v = b_data (vio s)" "v_sectors v = v_sectors (put_block n (b_data (vio s) b) (vio s))"
    using d(5) n(1) by (simp_all add: transfer_def)
  have blk: "disk_block v m = (if m = n then b_data (vio s) b else disk_block (vio s) m)" if "unat m < 2 ^ 31" for m
    using disk_block_put [OF n31 that] bd(2) by (simp add: disk_block_def)
  have "clean s' c" if c: "c < NBUF" "b_refcnt (bufs s' c) = 0" for c
  proof (cases "b_valid (bufs s c) \<noteq> 0")
    case True
    then have "clean s c" "b_dev (bufs s c) = dev" "unat (b_blockno (bufs s c)) < 2 ^ 31" using o(6,7) c s'(1) by auto
    moreover have "b_blockno (bufs s c) = n \<Longrightarrow> c = b"
      using one_copyD [OF o(3) c(1) n(3), of dev n] o(5) n \<open>b_dev (bufs s c) = dev\<close> by (simp add: cached_def)
    ultimately show ?thesis using True by (auto simp: clean_def s' bd(1) blk)
  qed (simp add: clean_def s')
  moreover have "bcache_ok L s'" using o(1) bcache_ok_cong [of s' s L] s'(1) by simp
  ultimately have "store_ok dev L s'" using o(5,7) d(4) s'(1) by (simp add: store_ok_def)
  moreover have "bwrite b (with_held {} s) = Ret () (with_held {} s')"
    using holdingsleep_with_held [of "{}" "BufSL b" s p] in_kernelD(1,3) [OF assms(1)] assms(4) d(1)
    by (simp add: bwrite_def held_by_def)
  moreover have "bio_step s s'" by (rule bio_step_trans [OF bio_step_upd(4) bio_step_resched [OF d(2)]])
  ultimately show ?thesis using that d(3) s' bd(1) blk by simp
qed

lemma bwrite_content:
  assumes "store_ok dev L s" "holds s dev n b" "bufs s' = bufs s" "b_data (vio s') = b_data (vio s)"
    and "\<forall>m. unat m < 2 ^ 31 \<longrightarrow> disk_block (vio s') m = (if m = n then b_data (vio s) b else disk_block (vio s) m)"
    and "unat m < 2 ^ 31"
  shows "content s' dev m = content s dev m"
proof -
  have h: "holds s' dev k c = holds s dev k c" for k c using assms(3) by (simp add: holds_def cached_def)
  note o = store_okD [OF assms(1)]
  have o': "one_copy s'" using o(3) assms(3) by (simp add: one_copy_def cached_def)
  show ?thesis
  proof (cases "\<exists>c. holds s dev m c")
    case True
    then obtain c where c: "holds s dev m c" by blast
    with content_holds [OF o(3,5) c] content_holds [OF o' o(5), of m c] show ?thesis by (simp add: h assms(4))
  next
    case False
    then have "m \<noteq> n" using assms(2) by blast
    moreover have "content s dev m = disk_block (vio s) m" using False by (intro content_disk) blast
    moreover have "content s' dev m = disk_block (vio s') m" using False h by (intro content_disk) blast
    ultimately show ?thesis using assms(5,6) by simp
  qed
qed

lemma set_bdata_sel [simp]:
  "bufs (set_bdata b d s) = bufs s" "sleeplocks (set_bdata b d s) = sleeplocks s" "procs (set_bdata b d s) = procs s"
  "b_data (vio (set_bdata b d s)) = (b_data (vio s))(b := d)" "v_sectors (vio (set_bdata b d s)) = v_sectors (vio s)"
  "disk_block (vio (set_bdata b d s)) = disk_block (vio s)" "in_kernel p (set_bdata b d s) = in_kernel p s"
  "disk_idle (set_bdata b d s) = disk_idle s"
  by (simp_all add: set_bdata_def upd_vio_def disk_block_def fun_eq_iff) (simp add: disk_idle_def)

lemma set_bdata_with_held [lock_simps]: "set_bdata b d (with_held H s) = with_held H (set_bdata b d s)"
  by (simp add: set_bdata_def disk_op_with_held)

lemma set_bdata_step: "bio_step s (set_bdata b d s)"
  unfolding set_bdata_def upd_vio_def by (rule bio_step_upd(3))

lemma set_bdata_store:
  assumes "store_ok dev L s" "holds s dev n b" "b_refcnt (bufs s b) \<noteq> 0"
  shows "store_ok dev L (set_bdata b d s)" "content (set_bdata b d s) dev m = (if m = n then d else content s dev m)"
proof -
  note o = store_okD [OF assms(1)]
  let ?s = "set_bdata b d s"
  have h: "holds ?s dev k c = holds s dev k c" for k c by (simp add: holds_def cached_def)
  have "clean ?s c" if "c < NBUF" "b_refcnt (bufs s c) = 0" for c
    using o(6) [OF that] that assms(3) by (cases "c = b") (simp_all add: clean_def)
  moreover have ok: "bcache_ok L ?s" using o(1) bcache_ok_cong [of ?s s L] by simp
  ultimately show "store_ok dev L ?s" using assms(1) by (simp add: store_ok_def)
  show "content ?s dev m = (if m = n then d else content s dev m)"
  proof (cases "m = n")
    case True
    then show ?thesis using content_holds [of ?s dev n b] ok o(5) assms(2) h by (simp add: bcache_ok_def)
  next
    case False
    have "c \<noteq> b" if "holds s dev m c" for c using that assms(2) False by (auto simp: holds_def cached_def)
    then have "content ?s dev m = content s dev m" by (intro content_cong) (auto simp: h)
    with False show ?thesis by simp
  qed
qed

lemma content_payload:
  assumes "\<And>c. b_valid (bufs s' c) = b_valid (bufs s c) \<and> b_dev (bufs s' c) = b_dev (bufs s c) \<and> b_blockno (bufs s' c) = b_blockno (bufs s c)"
    and "vio s' = vio s"
  shows "content s' dev m = content s dev m"
  by (rule content_cong) (simp_all add: holds_def cached_def assms)

lemma bio_step_bufs: "bio_step s (s\<lparr>bufs := B\<rparr>)"
  by (simp add: bio_step_def)

lemma brelse_store:
  assumes "in_kernel p s" "store_ok dev L s" "b < NBUF" "held_by p s b" "b_refcnt (bufs s b) = 1 \<Longrightarrow> clean s b"
  obtains s' L' where "brelse b (with_held {} s) = Ret () (with_held {} s')" "in_kernel p s'" "store_ok dev L' s'" "bio_step s s'"
    "sleeplocks s' = (sleeplocks s)(BufSL b := (sleeplocks s (BufSL b))\<lparr>sl_locked := 0, sl_pid := 0\<rparr>)" "vio s' = vio s"
    "\<forall>c. payload (bufs s' c) = payload (if c = b then (bufs s b)\<lparr>b_refcnt := b_refcnt (bufs s b) - 1\<rparr> else bufs s c)"
    "\<forall>m. content s' dev m = content s dev m"
proof -
  note o = store_okD [OF assms(2)]
  let ?L = "if b_refcnt (bufs s b) = 1 then b # remove1 b L else L"
  have hl: "sl_locked (sleeplocks s (BufSL b)) \<noteq> 0" "sl_pid (sleeplocks s (BufSL b)) = p_pid (procs s p)"
    using assms(4) by (simp_all add: held_by_def)
  obtain B s' where e: "brelse b (with_held {} s) = Ret () (with_held {} s')"
    "resched ((upd_sl (BufSL b) (\<lambda>l. l\<lparr>sl_locked := 0, sl_pid := 0\<rparr>) s)\<lparr>bufs := B\<rparr>) s'" "in_kernel p s'"
    "\<forall>c. payload (B c) = payload (if c = b then (bufs s b)\<lparr>b_refcnt := b_refcnt (bufs s b) - 1\<rparr> else bufs s c)"
    "bcache_list ?L s'"
    using brelse_done [OF assms(1) o(2) assms(3) hl] by metis
  have s': "bufs s' = B" "vio s' = vio s" "sleeplocks s' = (sleeplocks s)(BufSL b := (sleeplocks s (BufSL b))\<lparr>sl_locked := 0, sl_pid := 0\<rparr>)"
    using e(2) by (auto elim!: reschedE simp: upd_sl_def)
  note pl = payload_eqD [OF e(4) [rule_format]]
  have same: "b_valid (B c) = b_valid (bufs s c)" "b_dev (B c) = b_dev (bufs s c)" "b_blockno (B c) = b_blockno (bufs s c)"
      "b_disk (B c) = b_disk (bufs s c)" "b_refcnt (B c) = (if c = b then b_refcnt (bufs s b) - 1 else b_refcnt (bufs s c))" for c
    using pl(1) [of c] pl(2) [of c] pl(3) [of c] pl(4) [of c] pl(5) [of c] by auto
  have i: "disk_idle s'"
    using o(4) resched_disk_sel [OF e(2)] same(4) by (simp add: disk_idle_def upd_sl_def)
  have "one_copy s'" using o(3) by (simp add: one_copy_def cached_def s'(1) same)
  moreover have "clean s' c" if "c < NBUF" "b_refcnt (bufs s' c) = 0" for c
    using o(6) [of c] assms(5) that by (cases "c = b") (auto simp: clean_def s'(1,2) same)
  ultimately have "store_ok dev ?L s'"
    using o(5,7) i e(5) by (simp add: store_ok_def bcache_ok_def s'(1) same)
  moreover have "bio_step s s'"
    using bio_step_resched [OF e(2)] bio_step_trans [OF bio_step_upd(2) [of s "BufSL b"] bio_step_bufs] bio_step_trans by blast
  moreover have "\<forall>m. content s' dev m = content s dev m" using content_payload [of s' s] by (simp add: s' same)
  ultimately show ?thesis using that e(1,3,4) s' by blast
qed

section \<open>Sequences of operations\<close>

text \<open>No process works on a buffer.\<close>

abbreviation refs :: "'a disk_state_scheme \<Rightarrow> nat \<Rightarrow> u32" where
  "refs s b \<equiv> b_refcnt (bufs s b)"

definition at_rest :: "nat \<Rightarrow> u32 \<Rightarrow> 'a disk_state_scheme \<Rightarrow> bool" where
  "at_rest p dev s \<longleftrightarrow> in_kernel p s \<and> (\<exists>L. store_ok dev L s) \<and>
     (\<forall>b < NBUF. sl_locked (sleeplocks s (BufSL b)) = 0 \<and> refs s b + 1 \<noteq> 0)"

text \<open>Process \<open>p\<close> has the block locked in the buffer.\<close>

definition has_open :: "nat \<Rightarrow> u32 \<Rightarrow> u32 \<Rightarrow> 'a disk_state_scheme \<Rightarrow> nat \<Rightarrow> bool" where
  "has_open p dev n s b \<longleftrightarrow> holds s dev n b \<and> held_by p s b \<and> refs s b \<noteq> 0"

lemma has_openD: "has_open p dev n s b \<Longrightarrow> b < NBUF \<and> holds s dev n b \<and> held_by p s b \<and> refs s b \<noteq> 0"
  by (simp add: has_open_def holds_def)

text \<open>Buffers in use keep their block.\<close>

definition keeps_used :: "'a disk_state_scheme \<Rightarrow> 'a disk_state_scheme \<Rightarrow> bool" where
  "keeps_used s s' \<longleftrightarrow> (\<forall>c < NBUF. refs s c \<noteq> 0 \<and> b_valid (bufs s c) \<noteq> 0 \<longrightarrow>
     b_valid (bufs s' c) \<noteq> 0 \<and> b_dev (bufs s' c) = b_dev (bufs s c) \<and> b_blockno (bufs s' c) = b_blockno (bufs s c))"

lemma bread_rest:
  assumes "bread_post p L dev n s b s'" "store_ok dev L s" "store_ok dev L s'" "refs s b + 1 \<noteq> 0"
  shows "has_open p dev n s' b" "keeps_used s s'" "bio_step s s'" "in_kernel p s'" "\<forall>m. content s' dev m = content s dev m"
    "disk_block (vio s') = disk_block (vio s)" "bdata b s' = content s dev n" "refs s' b = refs s b + 1"
    "\<forall>c. c \<noteq> b \<longrightarrow> bufs s' c = bufs s c \<and> sleeplocks s' (BufSL c) = sleeplocks s (BufSL c) \<and> b_data (vio s') c = b_data (vio s) c"
    "refs s b = 0 \<Longrightarrow> content s dev n = disk_block (vio s) n" "b < NBUF"
proof -
  note P = assms(1) [unfolded bread_post_def] and o = store_okD [OF assms(2)]
  show st: "bio_step s s'" "in_kernel p s'" "refs s' b = refs s b + 1" "bdata b s' = content s dev n"
    "\<forall>c. c \<noteq> b \<longrightarrow> bufs s' c = bufs s c \<and> sleeplocks s' (BufSL c) = sleeplocks s (BufSL c) \<and> b_data (vio s') c = b_data (vio s) c"
    "disk_block (vio s') = disk_block (vio s)" and b: "b < NBUF"
    using P by (auto simp: bdata_def disk_block_def fun_eq_iff holds_def)
  show "has_open p dev n s' b"
    using P assms(4) bio_step_sel(9) [OF st(1)] by (simp add: has_open_def held_by_def)
  show "\<forall>m. content s' dev m = content s dev m" using bread_content [OF assms(1,2)] by blast
  show "keeps_used s s'"
    unfolding keeps_used_def
  proof (intro allI impI)
    fix c assume c: "c < NBUF" "refs s c \<noteq> 0 \<and> b_valid (bufs s c) \<noteq> 0"
    show "b_valid (bufs s' c) \<noteq> 0 \<and> b_dev (bufs s' c) = b_dev (bufs s c) \<and> b_blockno (bufs s' c) = b_blockno (bufs s c)"
      using c P by (cases "c = b") (auto simp: holds_def cached_def)
  qed
  show "content s dev n = disk_block (vio s) n" if "refs s b = 0"
  proof (cases "\<exists>c. holds s dev n c")
    case True
    then obtain c where c: "holds s dev n c" by blast
    then have "c = b" using P b one_copyD [OF o(3) _ _ _ _ o(5), of c b n] by (auto simp: holds_def)
    with c that o(6) [of b] b content_holds [OF o(3,5) c] show ?thesis by (auto simp: clean_def holds_def cached_def)
  next
    case False
    then show ?thesis by (intro content_disk) blast
  qed
qed

lemma at_restD:
  assumes "at_rest p dev s"
  obtains L where "in_kernel p s" "store_ok dev L s" "\<forall>b < NBUF. sl_locked (sleeplocks s (BufSL b)) = 0 \<and> refs s b + 1 \<noteq> 0"
  using assms by (auto simp: at_rest_def)

lemma at_rest_available:
  "at_rest p dev s \<Longrightarrow> c < NBUF \<Longrightarrow> cached dev n s c \<or> refs s c = 0 \<Longrightarrow> available dev n s"
  by (auto simp: at_rest_def available_def)

text \<open>From \<open>s\<close> to \<open>s'\<close> the blocks \<open>f\<close> are rewritten, in the cache and on the disk, and nothing else happens.\<close>

definition rewritten :: "nat \<Rightarrow> u32 \<Rightarrow> (u32 \<Rightarrow> u8 list option) \<Rightarrow> 'a disk_state_scheme \<Rightarrow> 'a disk_state_scheme \<Rightarrow> bool" where
  "rewritten p dev f s s' \<longleftrightarrow> at_rest p dev s' \<and> bio_step s s' \<and>
     (\<forall>m. unat m < 2 ^ 31 \<longrightarrow> content s' dev m = (case f m of Some d \<Rightarrow> d | None \<Rightarrow> content s dev m) \<and>
       disk_block (vio s') m = (case f m of Some d \<Rightarrow> d | None \<Rightarrow> disk_block (vio s) m))"

lemma bufs_payload:
  assumes "payload x = payload y"
  shows "b_valid x = b_valid y" "b_dev x = b_dev y" "b_blockno x = b_blockno y" "b_refcnt x = b_refcnt y"
  using payload_eqD [OF assms] by simp_all

text \<open>Releasing the one open buffer.\<close>

lemma release_last_buf:
  assumes "in_kernel p s" "store_ok dev L s" "has_open p dev n s b" "refs s b = 1 \<Longrightarrow> clean s b"
    and "\<forall>c < NBUF. c \<noteq> b \<longrightarrow> sl_locked (sleeplocks s (BufSL c)) = 0 \<and> refs s c + 1 \<noteq> 0"
  obtains s' where "brelse b (with_held {} s) = Ret () (with_held {} s')" "at_rest p dev s'" "bio_step s s'" "vio s' = vio s"
    "\<forall>m. content s' dev m = content s dev m" "\<forall>c. refs s' c = (if c = b then refs s b - 1 else refs s c)"
    "\<forall>c. b_valid (bufs s' c) = b_valid (bufs s c) \<and> b_dev (bufs s' c) = b_dev (bufs s c) \<and> b_blockno (bufs s' c) = b_blockno (bufs s c)"
proof -
  have ho: "b < NBUF" "held_by p s b" "refs s b \<noteq> 0" using has_openD [OF assms(3)] by auto
  obtain s' L' where e: "brelse b (with_held {} s) = Ret () (with_held {} s')" "in_kernel p s'" "store_ok dev L' s'" "bio_step s s'"
    "sleeplocks s' = (sleeplocks s)(BufSL b := (sleeplocks s (BufSL b))\<lparr>sl_locked := 0, sl_pid := 0\<rparr>)" "vio s' = vio s"
    "\<forall>c. payload (bufs s' c) = payload (if c = b then (bufs s b)\<lparr>b_refcnt := b_refcnt (bufs s b) - 1\<rparr> else bufs s c)"
    "\<forall>m. content s' dev m = content s dev m"
    using brelse_store [OF assms(1,2) ho(1,2) assms(4)] by blast
  note pl = bufs_payload [OF e(7) [rule_format]]
  have f: "refs s' c = (if c = b then refs s b - 1 else refs s c)"
      "b_valid (bufs s' c) = b_valid (bufs s c) \<and> b_dev (bufs s' c) = b_dev (bufs s c) \<and> b_blockno (bufs s' c) = b_blockno (bufs s c)" for c
    using pl(1) [of c] pl(2) [of c] pl(3) [of c] pl(4) [of c] by auto
  have "at_rest p dev s'"
    unfolding at_rest_def
  proof (intro conjI exI allI impI)
    fix c assume "c < NBUF"
    then show "sl_locked (sleeplocks s' (BufSL c)) = 0" "refs s' c + 1 \<noteq> 0"
      using assms(5) ho(3) e(5) f(1) [of c] by auto
  qed (use e(2,3) in auto)
  then show ?thesis using that e(1,4,6,8) f by blast
qed

lemma rewrite_block:
  assumes "at_rest p dev s" "unat n < 2 ^ 31" "c < NBUF" "cached dev n s c \<or> refs s c = 0"
  obtains b s1 where "bread dev n (with_held {} s) = Ret b (with_held {} s1)" "bdata b s1 = content s dev n" "bio_step s s1"
    "\<And>d. \<exists>s'. bnd (bwrite b (with_held {} (set_bdata b d s1))) (\<lambda>_ s. brelse b s) = Ret () (with_held {} s') \<and>
      rewritten p dev [n \<mapsto> d] s s' \<and> keeps_used s s' \<and> (\<forall>c < NBUF. refs s' c = refs s c)"
proof -
  obtain L where r: "in_kernel p s" "store_ok dev L s" "\<forall>b < NBUF. sl_locked (sleeplocks s (BufSL b)) = 0 \<and> refs s b + 1 \<noteq> 0"
    using assms(1) by (rule at_restD)
  obtain b s1 where b: "bread dev n (with_held {} s) = Ret b (with_held {} s1)" "bread_post p L dev n s b s1" "store_ok dev L s1"
    by (rule bread_store [OF r(1,2) at_rest_available [OF assms(1,3,4)] assms(2)])
  have bn: "b < NBUF" using b(2) by (simp add: bread_post_def holds_def)
  note P = bread_rest [OF b(2) r(2) b(3), OF r(3) [rule_format, OF bn, THEN conjunct2]]
  have "\<exists>s'. bnd (bwrite b (with_held {} (set_bdata b d s1))) (\<lambda>_ s. brelse b s) = Ret () (with_held {} s') \<and>
      rewritten p dev [n \<mapsto> d] s s' \<and> keeps_used s s' \<and> (\<forall>c < NBUF. refs s' c = refs s c)" for d
  proof -
    let ?s2 = "set_bdata b d s1"
    have h: "holds s1 dev n b" "held_by p s1 b" "refs s1 b \<noteq> 0" using P(1) by (simp_all add: has_open_def)
    note sb = set_bdata_store [OF b(3) h(1,3), where d = d]
    have h2: "in_kernel p ?s2" "holds ?s2 dev n b" "held_by p ?s2 b"
      using P(4) h by (simp_all add: holds_def cached_def held_by_def)
    obtain s3 where w: "bwrite b (with_held {} ?s2) = Ret () (with_held {} s3)" "in_kernel p s3" "store_ok dev L s3" "bio_step ?s2 s3"
      "bufs s3 = bufs ?s2" "sleeplocks s3 = sleeplocks ?s2" "b_data (vio s3) = b_data (vio ?s2)"
      "\<forall>m. unat m < 2 ^ 31 \<longrightarrow> disk_block (vio s3) m = (if m = n then b_data (vio ?s2) b else disk_block (vio ?s2) m)"
      by (rule bwrite_store [OF h2(1) sb(1) h2(2,3)])
    have st: "bio_step s s3" by (rule bio_step_trans [OF bio_step_trans [OF P(3) set_bdata_step] w(4)])
    have ho: "has_open p dev n s3 b"
      using h w(5,6) bio_step_sel(9) [OF w(4)] by (simp add: has_open_def holds_def cached_def held_by_def)
    have cl: "clean s3 b" using h(1) w(5,7) w(8) assms(2) by (simp add: clean_def holds_def cached_def)
    have ul: "\<forall>c < NBUF. c \<noteq> b \<longrightarrow> sl_locked (sleeplocks s3 (BufSL c)) = 0 \<and> refs s3 c + 1 \<noteq> 0"
      using P(9) r(3) w(5,6) by simp
    obtain s' where e: "brelse b (with_held {} s3) = Ret () (with_held {} s')" "at_rest p dev s'" "bio_step s3 s'"
      "vio s' = vio s3" "\<forall>m. content s' dev m = content s3 dev m" "\<forall>c. refs s' c = (if c = b then refs s3 b - 1 else refs s3 c)"
      "\<forall>c. b_valid (bufs s' c) = b_valid (bufs s3 c) \<and> b_dev (bufs s' c) = b_dev (bufs s3 c) \<and> b_blockno (bufs s' c) = b_blockno (bufs s3 c)"
      using release_last_buf [OF w(2,3) ho cl ul] by blast
    have co: "content s' dev m = (if m = n then d else content s dev m)" if "unat m < 2 ^ 31" for m
      using e(5) bwrite_content [OF sb(1) h2(2) w(5,7,8) that] sb(2) P(5) by simp
    have "rewritten p dev [n \<mapsto> d] s s'" "keeps_used s s'"
      using e(2,4,7) co w(5,8) P(2,6) bio_step_trans [OF st e(3)] by (simp_all add: rewritten_def keeps_used_def)
    moreover have "\<forall>c < NBUF. refs s' c = refs s c" using e(6) w(5) P(8,9) by simp
    ultimately show ?thesis using w(1) e(1) by auto
  qed
  with b(1) P(3,7) that show ?thesis by blast
qed

text \<open>Two blocks opened one after the other.\<close>

lemma open_two:
  assumes "at_rest p dev s" "unat n < 2 ^ 31" "unat m < 2 ^ 31" "n \<noteq> m"
    and "\<exists>c < NBUF. cached dev n s c \<or> refs s c = 0"
    and "(\<exists>c < NBUF. cached dev m s c \<and> refs s c \<noteq> 0) \<or> (\<exists>c < NBUF. \<exists>d < NBUF. c \<noteq> d \<and> refs s c = 0 \<and> refs s d = 0)"
  obtains a b s1 s2 L where "bread dev n (with_held {} s) = Ret a (with_held {} s1)" "bread dev m (with_held {} s1) = Ret b (with_held {} s2)"
    "bio_step s s1" "bio_step s s2" "in_kernel p s2" "store_ok dev L s2" "has_open p dev n s2 a" "has_open p dev m s2 b" "a \<noteq> b"
    "keeps_used s s2" "\<forall>k. content s2 dev k = content s dev k" "disk_block (vio s2) = disk_block (vio s)"
    "bdata a s2 = content s dev n" "bdata b s2 = content s dev m" "refs s2 a = refs s a + 1" "refs s2 b = refs s b + 1"
    "\<forall>c. c \<noteq> a \<and> c \<noteq> b \<longrightarrow> bufs s2 c = bufs s c \<and> sleeplocks s2 (BufSL c) = sleeplocks s (BufSL c)"
    "refs s a = 0 \<Longrightarrow> content s dev n = disk_block (vio s) n" "refs s b = 0 \<Longrightarrow> content s dev m = disk_block (vio s) m"
proof -
  obtain L where r: "in_kernel p s" "store_ok dev L s" "\<forall>b < NBUF. sl_locked (sleeplocks s (BufSL b)) = 0 \<and> refs s b + 1 \<noteq> 0"
    using assms(1) by (rule at_restD)
  obtain a s1 where 1: "bread dev n (with_held {} s) = Ret a (with_held {} s1)" "bread_post p L dev n s a s1" "store_ok dev L s1"
    using bread_store [OF r(1,2) _ assms(2)] at_rest_available [OF assms(1)] assms(5) by blast
  have an: "a < NBUF" using 1(2) by (simp add: bread_post_def holds_def)
  note P = bread_rest [OF 1(2) r(2) 1(3), OF r(3) [rule_format, OF an, THEN conjunct2]]
  have "\<not> cached dev m s1 a" using P(1) assms(4) by (auto simp: has_open_def holds_def cached_def)
  moreover have ra: "refs s1 a \<noteq> 0" using P(1) by (simp add: has_open_def)
  ultimately have u: "c \<noteq> a" if "cached dev m s1 c \<or> refs s1 c = 0" for c using that by auto
  have "\<exists>c < NBUF. cached dev m s1 c \<or> refs s1 c = 0"
    using assms(6)
  proof
    assume "\<exists>c < NBUF. cached dev m s c \<and> refs s c \<noteq> 0"
    then obtain c where c: "c < NBUF" "cached dev m s c" "refs s c \<noteq> 0" by blast
    then have "c \<noteq> a" using 1(2) assms(4) by (auto simp: bread_post_def cached_def)
    with c P(9) show ?thesis by (auto simp: cached_def)
  next
    assume "\<exists>c < NBUF. \<exists>d < NBUF. c \<noteq> d \<and> refs s c = 0 \<and> refs s d = 0"
    then obtain c where "c < NBUF" "refs s c = 0" "c \<noteq> a" by metis
    with P(9) show ?thesis by auto
  qed
  then have "available dev m s1" using u P(9) r(3) by (auto simp: available_def)
  then obtain b s2 where 2: "bread dev m (with_held {} s1) = Ret b (with_held {} s2)" "bread_post p L dev m s1 b s2" "store_ok dev L s2"
    using bread_store [OF P(4) 1(3) _ assms(3)] by blast
  have ab: "b \<noteq> a" "b < NBUF" using u 2(2) by (auto simp: bread_post_def holds_def)
  have "refs s1 b + 1 \<noteq> 0" using ab r(3) P(9) by simp
  note Q = bread_rest [OF 2(2) 1(3) 2(3) this]
  have "keeps_used s s2"
    using P(2,8,9) Q(2) ra r(3) unfolding keeps_used_def by (metis)
  moreover have "has_open p dev n s2 a"
    using P(1) Q(9) ab bio_step_sel(9) [OF Q(3), of p] by (simp add: has_open_def holds_def cached_def held_by_def)
  moreover have "bdata a s2 = content s dev n" using P(7) Q(9) ab by (simp add: bdata_def)
  moreover have "bio_step s s2" by (rule bio_step_trans [OF P(3) Q(3)])
  moreover have "content s dev m = disk_block (vio s) m" if "refs s b = 0" using Q(10) P(5,6,9) ab that by simp
  ultimately show ?thesis
    using that 1(1) 2(1,3) P(3,5,6,8,9,10) Q(1,4-9) ab
    by (metis (no_types, lifting))
qed

text \<open>The open block \<open>y\<close> copied over the open block \<open>x\<close>, written to the disk, and both released.\<close>

lemma bunpin_with_held:
  "lock_free BcacheLock s \<Longrightarrow> bunpin b (with_held {} s) = Ret () (with_held {} (upd_buf b (\<lambda>x. x\<lparr>b_refcnt := b_refcnt x - 1\<rparr>) s))"
  by (simp add: bunpin_def acquire_with_held disk_op_with_held release_last)

lemma unpin_store:
  assumes "store_ok dev L s" "b < NBUF" "refs s b = 1 \<Longrightarrow> clean s b"
  shows "store_ok dev L (upd_buf b (\<lambda>x. x\<lparr>b_refcnt := b_refcnt x - 1\<rparr>) s)"
    "content (upd_buf b (\<lambda>x. x\<lparr>b_refcnt := b_refcnt x - 1\<rparr>) s) dev m = content s dev m"
proof -
  let ?s = "upd_buf b (\<lambda>x. x\<lparr>b_refcnt := b_refcnt x - 1\<rparr>) s"
  note o = store_okD [OF assms(1)]
  show "content ?s dev m = content s dev m" by (rule content_payload) auto
  have "clean ?s c" if "c < NBUF" "refs ?s c = 0" for c
    using o(6) [of c] assms(3) that by (cases "c = b") (auto simp: clean_def)
  moreover have "bcache_ok L ?s" using o(1) bcache_ok_cong [of ?s s L] by simp
  ultimately show "store_ok dev L ?s"
    using o(5,7) disk_idle_upd_buf [OF o(4), of "\<lambda>x. x\<lparr>b_refcnt := b_refcnt x - 1\<rparr>" b] by (simp add: store_ok_def)
qed

lemma release_two:
  assumes "in_kernel p s" "store_ok dev L s" "has_open p dev n s x" "has_open p dev m s y" "x \<noteq> y"
    and "clean s x" "refs s y = 1 \<Longrightarrow> clean s y"
    and "\<forall>c < NBUF. c \<noteq> x \<and> c \<noteq> y \<longrightarrow> sl_locked (sleeplocks s (BufSL c)) = 0 \<and> refs s c + 1 \<noteq> 0"
  obtains t s' where "brelse y (with_held {} s) = Ret () (with_held {} t)" "brelse x (with_held {} t) = Ret () (with_held {} s')"
    "at_rest p dev s'" "bio_step s s'" "vio s' = vio s" "\<forall>k. content s' dev k = content s dev k"
    "\<forall>c. refs s' c = (if c = x \<or> c = y then refs s c - 1 else refs s c)"
    "\<forall>c. b_valid (bufs s' c) = b_valid (bufs s c) \<and> b_dev (bufs s' c) = b_dev (bufs s c) \<and> b_blockno (bufs s' c) = b_blockno (bufs s c)"
proof -
  have y: "y < NBUF" "held_by p s y" "refs s y \<noteq> 0" using has_openD [OF assms(4)] by auto
  have x: "holds s dev n x" "held_by p s x" "refs s x \<noteq> 0" using has_openD [OF assms(3)] by auto
  obtain t L' where t: "brelse y (with_held {} s) = Ret () (with_held {} t)" "in_kernel p t" "store_ok dev L' t" "bio_step s t"
    "sleeplocks t = (sleeplocks s)(BufSL y := (sleeplocks s (BufSL y))\<lparr>sl_locked := 0, sl_pid := 0\<rparr>)" "vio t = vio s"
    "\<forall>c. payload (bufs t c) = payload (if c = y then (bufs s y)\<lparr>b_refcnt := b_refcnt (bufs s y) - 1\<rparr> else bufs s c)"
    "\<forall>m. content t dev m = content s dev m"
    using brelse_store [OF assms(1,2) y(1,2) assms(7)] by blast
  note pl = bufs_payload [OF t(7) [rule_format]]
  have f: "refs t c = (if c = y then refs s y - 1 else refs s c)"
      "b_valid (bufs t c) = b_valid (bufs s c) \<and> b_dev (bufs t c) = b_dev (bufs s c) \<and> b_blockno (bufs t c) = b_blockno (bufs s c)" for c
    using pl(1) [of c] pl(2) [of c] pl(3) [of c] pl(4) [of c] by auto
  have ho: "has_open p dev n t x"
    using x assms(5) f [of x] t(5) bio_step_sel(9) [OF t(4), of p] by (simp add: has_open_def holds_def cached_def held_by_def)
  have cl: "clean t x" using assms(6) f(2) [of x] t(6) by (simp add: clean_def)
  have ul: "\<forall>c < NBUF. c \<noteq> x \<longrightarrow> sl_locked (sleeplocks t (BufSL c)) = 0 \<and> refs t c + 1 \<noteq> 0"
    using assms(8) t(5) f(1) y(3) by auto
  obtain s' where e: "brelse x (with_held {} t) = Ret () (with_held {} s')" "at_rest p dev s'" "bio_step t s'" "vio s' = vio t"
    "\<forall>m. content s' dev m = content t dev m" "\<forall>c. refs s' c = (if c = x then refs t x - 1 else refs t c)"
    "\<forall>c. b_valid (bufs s' c) = b_valid (bufs t c) \<and> b_dev (bufs s' c) = b_dev (bufs t c) \<and> b_blockno (bufs s' c) = b_blockno (bufs t c)"
    using release_last_buf [OF t(2,3) ho cl ul] by blast
  have "\<forall>c. refs s' c = (if c = x \<or> c = y then refs s c - 1 else refs s c)" using e(6) f(1) assms(5) by simp
  then show ?thesis using that [OF t(1) e(1,2) bio_step_trans [OF t(4) e(3)]] e(4,5,7) t(6,8) f(2) by simp
qed

lemma copy_open:
  assumes "in_kernel p s" "store_ok dev L s" "has_open p dev n s x" "has_open p dev m s y" "x \<noteq> y" "n \<noteq> m" "unat m < 2 ^ 31"
    and "refs s y = 1 \<Longrightarrow> clean s y" "unpin \<Longrightarrow> refs s x \<noteq> 1"
    and "\<forall>c < NBUF. c \<noteq> x \<and> c \<noteq> y \<longrightarrow> sl_locked (sleeplocks s (BufSL c)) = 0 \<and> refs s c + 1 \<noteq> 0"
  obtains s3 s4 s5 s' where "bwrite x (with_held {} (set_bdata x (bdata y s) s)) = Ret () (with_held {} s3)"
    "(if unpin then bunpin x (with_held {} s3) else Ret () (with_held {} s3)) = Ret () (with_held {} s4)"
    "brelse y (with_held {} s4) = Ret () (with_held {} s5)" "brelse x (with_held {} s5) = Ret () (with_held {} s')"
    "at_rest p dev s'" "bio_step s s'"
    "\<forall>k. unat k < 2 ^ 31 \<longrightarrow> content s' dev k = (if k = n then bdata y s else content s dev k) \<and>
      disk_block (vio s') k = (if k = n then bdata y s else disk_block (vio s) k)"
    "\<forall>c. refs s' c = (if c = x then refs s x - (if unpin then 2 else 1) else if c = y then refs s c - 1 else refs s c)"
    "\<forall>c. b_valid (bufs s' c) = b_valid (bufs s c) \<and> b_dev (bufs s' c) = b_dev (bufs s c) \<and> b_blockno (bufs s' c) = b_blockno (bufs s c)"
proof -
  have x: "x < NBUF" "holds s dev n x" "held_by p s x" "refs s x \<noteq> 0" using has_openD [OF assms(3)] by auto
  have y: "holds s dev m y" "held_by p s y" "refs s y \<noteq> 0" using has_openD [OF assms(4)] by auto
  let ?s2 = "set_bdata x (bdata y s) s"
  note sb = set_bdata_store [OF assms(2) x(2,4), where d = "bdata y s"]
  have h2: "in_kernel p ?s2" "holds ?s2 dev n x" "held_by p ?s2 x"
    using assms(1) x by (simp_all add: holds_def cached_def held_by_def)
  obtain s3 where w: "bwrite x (with_held {} ?s2) = Ret () (with_held {} s3)" "in_kernel p s3" "store_ok dev L s3" "bio_step ?s2 s3"
    "bufs s3 = bufs ?s2" "sleeplocks s3 = sleeplocks ?s2" "b_data (vio s3) = b_data (vio ?s2)"
    "\<forall>m. unat m < 2 ^ 31 \<longrightarrow> disk_block (vio s3) m = (if m = n then b_data (vio ?s2) x else disk_block (vio ?s2) m)"
    by (rule bwrite_store [OF h2(1) sb(1) h2(2,3)])
  have n31: "unat n < 2 ^ 31" using store_okD(7) [OF assms(2) x(1)] x(2) by (simp add: holds_def cached_def)
  have cx: "clean s3 x" using x(2) w(5,7,8) n31 by (simp add: clean_def holds_def cached_def)
  define s4 where "s4 = (if unpin then upd_buf x (\<lambda>z. z\<lparr>b_refcnt := b_refcnt z - 1\<rparr>) s3 else s3)"
  have 4: "in_kernel p s4" "store_ok dev L s4" "bio_step s3 s4" "vio s4 = vio s3" "sleeplocks s4 = sleeplocks s" "procs s4 = procs s3"
      "\<forall>k. content s4 dev k = content s3 dev k"
    using w(2,3,6) unpin_store [OF w(3) x(1), OF cx] by (simp_all add: s4_def bio_step_upd)
  have b4: "bufs s4 c = (if c = x \<and> unpin then (bufs s x)\<lparr>b_refcnt := refs s x - 1\<rparr> else bufs s c)" for c
    using w(5) by (simp add: s4_def)
  have u: "(if unpin then bunpin x (with_held {} s3) else Ret () (with_held {} s3)) = Ret () (with_held {} s4)"
    using in_kernelD(3) [OF w(2)] by (simp add: s4_def bunpin_with_held)
  have pid: "p_pid (procs s4 p) = p_pid (procs s p)" using 4(6) bio_step_sel(9) [OF w(4), of p] by simp
  have rx: "refs s x - 1 \<noteq> 0" if unpin using assms(9) that by auto
  have hx: "has_open p dev n s4 x" using x rx b4 pid 4(5) by (auto simp: has_open_def holds_def cached_def held_by_def)
  have hy: "has_open p dev m s4 y" using y assms(5) b4 pid 4(5) by (auto simp: has_open_def holds_def cached_def held_by_def)
  have cy: "clean s4 y" if "refs s4 y = 1"
    using assms(5,6,7,8) that y(1) w(7,8) b4 [of y] by (auto simp: clean_def 4(4) holds_def cached_def)
  have cx4: "clean s4 x" using cx w(5) b4 [of x] by (simp add: clean_def 4(4))
  have ul: "\<forall>c < NBUF. c \<noteq> x \<and> c \<noteq> y \<longrightarrow> sl_locked (sleeplocks s4 (BufSL c)) = 0 \<and> refs s4 c + 1 \<noteq> 0"
    using assms(10) b4 4(5) by simp
  obtain s5 s' where e: "brelse y (with_held {} s4) = Ret () (with_held {} s5)" "brelse x (with_held {} s5) = Ret () (with_held {} s')"
    "at_rest p dev s'" "bio_step s4 s'" "vio s' = vio s4" "\<forall>k. content s' dev k = content s4 dev k"
    "\<forall>c. refs s' c = (if c = x \<or> c = y then refs s4 c - 1 else refs s4 c)"
    "\<forall>c. b_valid (bufs s' c) = b_valid (bufs s4 c) \<and> b_dev (bufs s' c) = b_dev (bufs s4 c) \<and> b_blockno (bufs s' c) = b_blockno (bufs s4 c)"
    using release_two [OF 4(1,2) hx hy assms(5) cx4 cy ul] by blast
  have "bio_step s s'"
    by (rule bio_step_trans [OF bio_step_trans [OF bio_step_trans [OF set_bdata_step w(4)] 4(3)] e(4)])
  moreover have "content s' dev k = (if k = n then bdata y s else content s dev k)" if "unat k < 2 ^ 31" for k
    using e(6) 4(7) bwrite_content [OF sb(1) h2(2) w(5,7,8) that] sb(2) by simp
  moreover have "disk_block (vio s') k = (if k = n then bdata y s else disk_block (vio s) k)" if "unat k < 2 ^ 31" for k
    using e(5) 4(4) w(8) that by simp
  moreover have "\<forall>c. refs s' c = (if c = x then refs s x - (if unpin then 2 else 1) else if c = y then refs s c - 1 else refs s c)"
    using e(7) b4 by simp
  ultimately show ?thesis using that [OF w(1) u e(1,2,3)] e(8) b4 by (auto split: if_splits)
qed

lemma rewritten_trans:
  assumes "rewritten p dev f s t" "rewritten p dev g t u"
  shows "rewritten p dev (f ++ g) s u"
  using assms bio_step_trans [of s t u] by (auto simp: rewritten_def map_add_def split: option.splits)

lemma rewritten_refl: "at_rest p dev s \<Longrightarrow> rewritten p dev Map.empty s s"
  by (simp add: rewritten_def)

end
