(* ===== verification/Codec.thy ===== *)
theory Codec
  imports Log
begin

text \<open>
  Numbers in blocks: what is stored in a field is read back from it, and other fields are untouched.
\<close>

lemma length_le_bytes [simp]: "length (le_bytes k v) = k"
  by (simp add: le_bytes_def)

lemma length_put_bytes_at [simp]: "off + length xs \<le> length bs \<Longrightarrow> length (put_bytes_at off xs bs) = length bs"
  by (simp add: put_bytes_at_def)

lemma nth_put_bytes_at:
  assumes "off + length xs \<le> length bs" "j < length bs"
  shows "put_bytes_at off xs bs ! j = (if off \<le> j \<and> j < off + length xs then xs ! (j - off) else bs ! j)"
  using assms by (auto simp: put_bytes_at_def nth_append min_def)

lemma get_le_le_bytes: "(\<Sum>i < k. unat (le_bytes n v ! i) * 256 ^ i) = v mod 256 ^ k" if "k \<le> n"
  using that
proof (induction k)
  case (Suc k)
  have u: "unat (of_nat x :: u8) = x mod 256" for x by (simp add: unsigned_of_nat take_bit_eq_mod)
  have "v mod 256 ^ Suc k = 256 ^ k * (v div 256 ^ k mod 256) + v mod 256 ^ k"
    using mod_mult2_eq [of v "256 ^ k" 256] by (simp add: mult.commute)
  with Suc show ?case by (simp add: le_bytes_def u)
qed simp

lemma get_put_le:
  assumes "off + k \<le> length bs"
  shows "get_le k off (put_bytes_at off (le_bytes k v) bs) = v mod 256 ^ k"
proof -
  have "put_bytes_at off (le_bytes k v) bs ! (off + i) = le_bytes k v ! i" if "i < k" for i
    using assms that by (simp add: nth_put_bytes_at)
  then show ?thesis using get_le_le_bytes [of k k v] by (simp add: get_le_def)
qed

lemma get_put_le_other:
  assumes "off + length xs \<le> length bs" "off' + k \<le> length bs" "off' + k \<le> off \<or> off + length xs \<le> off'"
  shows "get_le k off' (put_bytes_at off xs bs) = get_le k off' bs"
proof -
  have "put_bytes_at off xs bs ! (off' + i) = bs ! (off' + i)" if "i < k" for i
    using assms that by (auto simp: nth_put_bytes_at)
  then show ?thesis by (simp add: get_le_def)
qed

lemma get_put32 [simp]: "off + 4 \<le> length bs \<Longrightarrow> get32 off (put32 off v bs) = v"
  using get_put_le [of off 4 bs "unat v"] unat_u32_less [of v] by (simp add: get32_def put32_def)

lemma get_put32_other:
  "off + 4 \<le> length bs \<Longrightarrow> off' + 4 \<le> length bs \<Longrightarrow> off' + 4 \<le> off \<or> off + 4 \<le> off' \<Longrightarrow>
    get32 off' (put32 off v bs) = get32 off' bs"
  by (simp add: get32_def put32_def get_put_le_other)

lemma length_put32 [simp]: "off + 4 \<le> length bs \<Longrightarrow> length (put32 off v bs) = length bs"
  by (simp add: put32_def)

lemma get_put16 [simp]: "off + 2 \<le> length bs \<Longrightarrow> get16 off (put16 off v bs) = v"
proof -
  assume "off + 2 \<le> length bs"
  moreover have "unat v < 2 ^ LENGTH(16)" by (rule unsigned_less)
  ultimately show ?thesis using get_put_le [of off 2 bs "unat v"] by (simp add: get16_def put16_def)
qed

lemma get16_put_other:
  "off + 2 \<le> length bs \<Longrightarrow> off' + 2 \<le> length bs \<Longrightarrow> off' + 2 \<le> off \<or> off + 2 \<le> off' \<Longrightarrow>
    get16 off' (put16 off v bs) = get16 off' bs"
  "off + 4 \<le> length bs \<Longrightarrow> off' + 2 \<le> length bs \<Longrightarrow> off' + 2 \<le> off \<or> off + 4 \<le> off' \<Longrightarrow>
    get16 off' (put32 off w bs) = get16 off' bs"
  "off + 2 \<le> length bs \<Longrightarrow> off' + 4 \<le> length bs \<Longrightarrow> off' + 4 \<le> off \<or> off + 2 \<le> off' \<Longrightarrow>
    get32 off' (put16 off v bs) = get32 off' bs"
  by (simp_all add: get16_def put16_def put32_def get32_def get_put_le_other)

lemma length_put16 [simp]: "off + 2 \<le> length bs \<Longrightarrow> length (put16 off v bs) = length bs"
  by (simp add: put16_def)

text \<open>An array of numbers.\<close>

lemma put32_array:
  assumes "off + 4 * k \<le> length bs"
  shows "length (fold (\<lambda>i bs. put32 (off + 4 * i) (f i) bs) [0..<k] bs) = length bs"
    "i < k \<Longrightarrow> get32 (off + 4 * i) (fold (\<lambda>i bs. put32 (off + 4 * i) (f i) bs) [0..<k] bs) = f i"
    "off' + 4 \<le> off \<or> off + 4 * k \<le> off' \<Longrightarrow> off' + 4 \<le> length bs \<Longrightarrow>
      get32 off' (fold (\<lambda>i bs. put32 (off + 4 * i) (f i) bs) [0..<k] bs) = get32 off' bs"
proof -
  have "length (fold (\<lambda>i bs. put32 (off + 4 * i) (f i) bs) [0..<k] bs) = length bs \<and>
    (\<forall>i < k. get32 (off + 4 * i) (fold (\<lambda>i bs. put32 (off + 4 * i) (f i) bs) [0..<k] bs) = f i) \<and>
    (\<forall>off'. (off' + 4 \<le> off \<or> off + 4 * k \<le> off') \<and> off' + 4 \<le> length bs \<longrightarrow>
      get32 off' (fold (\<lambda>i bs. put32 (off + 4 * i) (f i) bs) [0..<k] bs) = get32 off' bs)"
    using assms
  proof (induction k)
    case (Suc k)
    let ?g = "fold (\<lambda>i bs. put32 (off + 4 * i) (f i) bs) [0..<k] bs"
    have IH: "length ?g = length bs" "\<And>i. i < k \<Longrightarrow> get32 (off + 4 * i) ?g = f i"
      "\<And>off'. off' + 4 \<le> off \<or> off + 4 * k \<le> off' \<Longrightarrow> off' + 4 \<le> length bs \<Longrightarrow> get32 off' ?g = get32 off' bs"
      using Suc by auto
    have "get32 off' (put32 (off + 4 * k) (f k) ?g) = get32 off' ?g"
      if "off' + 4 \<le> off + 4 * k \<or> off + 4 * Suc k \<le> off'" "off' + 4 \<le> length bs" for off'
      using that Suc.prems IH(1) by (intro get_put32_other) auto
    then show ?case using Suc.prems IH by (auto simp: less_Suc_eq)
  qed simp
  then show "length (fold (\<lambda>i bs. put32 (off + 4 * i) (f i) bs) [0..<k] bs) = length bs"
    "i < k \<Longrightarrow> get32 (off + 4 * i) (fold (\<lambda>i bs. put32 (off + 4 * i) (f i) bs) [0..<k] bs) = f i"
    "off' + 4 \<le> off \<or> off + 4 * k \<le> off' \<Longrightarrow> off' + 4 \<le> length bs \<Longrightarrow>
      get32 off' (fold (\<lambda>i bs. put32 (off + 4 * i) (f i) bs) [0..<k] bs) = get32 off' bs"
    by auto
qed

end
