(* ===== verification/LogStore.thy ===== *)
theory LogStore
  imports BlockStore Codec
begin

text \<open>
  The redo log on the store of blocks: what \<open>commit\<close> and \<open>recover_from_log\<close> do to the blocks of the disk.
\<close>

section \<open>The log and the store\<close>

lemma with_held_log [lock_simps]:
  "log_start (with_held H s) = log_start s" "log_size (with_held H s) = log_size s"
  "log_outstanding (with_held H s) = log_outstanding s" "log_committing (with_held H s) = log_committing s"
  "log_dev (with_held H s) = log_dev s" "log_lh_n (with_held H s) = log_lh_n s" "log_lh_block (with_held H s) = log_lh_block s"
  "(with_held H s)\<lparr>log_lh_n := n\<rparr> = with_held H (s\<lparr>log_lh_n := n\<rparr>)"
  "(with_held H s)\<lparr>log_lh_block := f\<rparr> = with_held H (s\<lparr>log_lh_block := f\<rparr>)"
  "(with_held H s)\<lparr>log_outstanding := x\<rparr> = with_held H (s\<lparr>log_outstanding := x\<rparr>)"
  "(with_held H s)\<lparr>log_committing := y\<rparr> = with_held H (s\<lparr>log_committing := y\<rparr>)"
  by (simp_all add: with_held_def intr_get_def r_sstatus_def cong: if_cong)

lemma log_len_with_held [lock_simps]: "log_len (with_held H s) = log_len s"
  by (simp add: log_len_def lock_simps)

lemma bdata_with_held [lock_simps]: "bdata b (with_held H s) = bdata b s"
  by (simp add: bdata_def with_held_disk)

lemma bio_step_log:
  assumes "bio_step s s'"
  shows "log_start s' = log_start s" "log_size s' = log_size s" "log_outstanding s' = log_outstanding s"
    "log_committing s' = log_committing s" "log_dev s' = log_dev s" "log_lh_n s' = log_lh_n s" "log_lh_block s' = log_lh_block s"
    "log_len s' = log_len s" "log_state.more s' = log_state.more s"
  unfolding log_len_def by (rule bio_stepE [OF assms], simp)+

lemma log_upd_frame [simp]:
  "in_kernel p (s\<lparr>log_lh_n := n\<rparr>) = in_kernel p s" "in_kernel p (s\<lparr>log_lh_block := f\<rparr>) = in_kernel p s"
  "lock_free k (s\<lparr>log_lh_n := n\<rparr>) = lock_free k s" "lock_free k (s\<lparr>log_lh_block := f\<rparr>) = lock_free k s"
  "store_ok dev L (s\<lparr>log_lh_n := n\<rparr>) = store_ok dev L s" "store_ok dev L (s\<lparr>log_lh_block := f\<rparr>) = store_ok dev L s"
  "at_rest p dev (s\<lparr>log_lh_n := n\<rparr>) = at_rest p dev s" "at_rest p dev (s\<lparr>log_lh_block := f\<rparr>) = at_rest p dev s"
  by (simp_all add: in_kernel_def lock_free_def mlfq_good_def mlfq_ok_def mlfq_list_def level_of_def
      cached_def store_ok_def bcache_ok_def bcache_list_def one_copy_def disk_idle_def clean_def at_rest_def)

lemma log_upd_bdata [simp]: "bdata b (s\<lparr>log_lh_n := n\<rparr>) = bdata b s" "bdata b (s\<lparr>log_lh_block := f\<rparr>) = bdata b s"
  by (simp_all add: bdata_def)

lemma log_upd_content [simp]:
  "content (s\<lparr>log_lh_n := n\<rparr>) dev m = content s dev m" "content (s\<lparr>log_lh_block := f\<rparr>) dev m = content s dev m"
  by (rule content_cong; simp add: holds_def cached_def)+

text \<open>Block \<open>i\<close> of the log, and where the header says it belongs.\<close>

definition log_blk :: "'a log_state_scheme \<Rightarrow> nat \<Rightarrow> u32" where
  "log_blk s i = log_start s + of_nat i + 1"

definition log_ok :: "nat \<Rightarrow> 'a log_state_scheme \<Rightarrow> bool" where
  "log_ok n s \<longleftrightarrow> n \<le> LOGSIZE \<and> unat (log_start s) + LOGSIZE < 2 ^ 31 \<and> inj_on (log_lh_block s) {..<n} \<and>
     (\<forall>i < n. unat (log_lh_block s i) < 2 ^ 31 \<and> (unat (log_lh_block s i) < unat (log_start s) \<or>
       unat (log_start s) + LOGSIZE < unat (log_lh_block s i)))"

lemma unat_log_blk:
  assumes "log_ok n s" "i < LOGSIZE"
  shows "unat (log_blk s i) = unat (log_start s) + Suc i"
proof -
  have "log_blk s i = of_nat (unat (log_start s) + Suc i)" by (simp add: log_blk_def)
  moreover have "unat (of_nat (unat (log_start s) + Suc i) :: u32) = unat (log_start s) + Suc i"
    using assms by (intro unat_of_nat_u32) (simp add: log_ok_def)
  ultimately show ?thesis by simp
qed

lemma log_ok_blocks:
  assumes "log_ok n s" "i < n" "j < LOGSIZE"
  shows "unat (log_blk s j) < 2 ^ 31" "unat (log_start s) < 2 ^ 31" "unat (log_lh_block s i) < 2 ^ 31"
    "log_lh_block s i \<noteq> log_blk s j" "log_lh_block s i \<noteq> log_start s" "log_blk s j \<noteq> log_start s"
    "j' < LOGSIZE \<Longrightarrow> log_blk s j' = log_blk s j \<longleftrightarrow> j' = j"
proof -
  note u = unat_log_blk [OF assms(1)]
  show "unat (log_blk s j) < 2 ^ 31" "unat (log_start s) < 2 ^ 31" "unat (log_lh_block s i) < 2 ^ 31"
    using assms u [OF assms(3)] by (auto simp: log_ok_def)
  have h: "unat (log_lh_block s i) < unat (log_start s) \<or> unat (log_start s) + LOGSIZE < unat (log_lh_block s i)"
    using assms(1,2) by (auto simp: log_ok_def)
  show "log_lh_block s i \<noteq> log_blk s j" "log_lh_block s i \<noteq> log_start s" "log_blk s j \<noteq> log_start s"
    unfolding word_unat_eq_iff u [OF assms(3)] using h assms(3) by auto
  show "log_blk s j' = log_blk s j \<longleftrightarrow> j' = j" if "j' < LOGSIZE"
    unfolding word_unat_eq_iff u [OF assms(3)] u [OF that] by simp
qed

lemma log_ok_step: "bio_step s s' \<Longrightarrow> log_ok n s' = log_ok n s" "bio_step s s' \<Longrightarrow> log_blk s' i = log_blk s i"
  by (simp_all add: log_ok_def log_blk_def bio_step_log)

section \<open>Installing a block\<close>

definition two_free :: "'a disk_state_scheme \<Rightarrow> bool" where
  "two_free s \<longleftrightarrow> (\<exists>c < NBUF. \<exists>d < NBUF. c \<noteq> d \<and> refs s c = 0 \<and> refs s d = 0)"

definition pinned :: "u32 \<Rightarrow> 'a disk_state_scheme \<Rightarrow> u32 \<Rightarrow> bool" where
  "pinned dev s n \<longleftrightarrow> (\<exists>c < NBUF. holds s dev n c \<and> refs s c \<noteq> 0)"

lemma pinned_open:
  assumes "pinned dev s n" "keeps_used s s'" "store_ok dev L s" "store_ok dev L' s'" "has_open p dev n s' b"
  shows "refs s b \<noteq> 0" "holds s dev n c \<longleftrightarrow> c = b"
proof -
  obtain d where d: "d < NBUF" "holds s dev n d" "refs s d \<noteq> 0" using assms(1) by (auto simp: pinned_def)
  then have "holds s' dev n d" using assms(2) by (auto simp: holds_def cached_def keeps_used_def)
  then have "d = b"
    using assms(5) holds_unique [OF store_okD(3,5) [OF assms(4)]] by (auto simp: has_open_def)
  with d show "refs s b \<noteq> 0" "holds s dev n c \<longleftrightarrow> c = b"
    using holds_unique [OF store_okD(3,5) [OF assms(3)]] by blast+
qed

lemma install_step:
  assumes "at_rest p (log_dev s) s" "log_ok n s" "i < n"
    and "if recovering then two_free s else (\<exists>c < NBUF. refs s c = 0) \<and> pinned (log_dev s) s (log_lh_block s i)"
  obtains s' where "install_trans_loop (i # ts) recovering (with_held {} s) = install_trans_loop ts recovering (with_held {} s')"
    "rewritten p (log_dev s) [log_lh_block s i \<mapsto> content s (log_dev s) (log_blk s i)] s s'" "keeps_used s s'"
    "\<forall>c < NBUF. refs s' c = (if \<not> recovering \<and> holds s (log_dev s) (log_lh_block s i) c then refs s c - 1 else refs s c)"
proof -
  let ?d = "log_dev s" and ?h = "log_lh_block s i" and ?l = "log_blk s i"
  have i: "i < LOGSIZE" using assms(2,3) by (simp add: log_ok_def)
  note g = log_ok_blocks [OF assms(2,3) i]
  obtain L0 where L0: "store_ok ?d L0 s" using assms(1) by (auto simp: at_rest_def)
  have f: "\<exists>c < NBUF. cached ?d ?l s c \<or> refs s c = 0"
      "(\<exists>c < NBUF. cached ?d ?h s c \<and> refs s c \<noteq> 0) \<or> (\<exists>c < NBUF. \<exists>d < NBUF. c \<noteq> d \<and> refs s c = 0 \<and> refs s d = 0)"
    using assms(4) by (auto simp: two_free_def pinned_def holds_def split: if_splits)
  obtain a b s1 s2 L where o: "bread ?d ?l (with_held {} s) = Ret a (with_held {} s1)" "bread ?d ?h (with_held {} s1) = Ret b (with_held {} s2)"
    "bio_step s s1" "bio_step s s2" "in_kernel p s2" "store_ok ?d L s2" "has_open p ?d ?l s2 a" "has_open p ?d ?h s2 b" "a \<noteq> b"
    "keeps_used s s2" "\<forall>k. content s2 ?d k = content s ?d k" "disk_block (vio s2) = disk_block (vio s)"
    "bdata a s2 = content s ?d ?l" "bdata b s2 = content s ?d ?h" "refs s2 a = refs s a + 1" "refs s2 b = refs s b + 1"
    "\<forall>c. c \<noteq> a \<and> c \<noteq> b \<longrightarrow> bufs s2 c = bufs s c \<and> sleeplocks s2 (BufSL c) = sleeplocks s (BufSL c)"
    "refs s a = 0 \<Longrightarrow> content s ?d ?l = disk_block (vio s) ?l"
    by (rule open_two [OF assms(1) g(1,3) g(4) [symmetric] f]) blast
  have pb: "refs s b \<noteq> 0" "\<forall>c. holds s ?d ?h c \<longleftrightarrow> c = b" if "\<not> recovering"
    using pinned_open [OF _ o(10) L0 o(6,8)] assms(4) that by auto
  have ca: "clean s2 a" if "refs s2 a = 1"
    using that o(7,12,13,15,18) by (simp add: clean_def bdata_def has_open_def holds_def cached_def)
  have ul: "\<forall>c < NBUF. c \<noteq> b \<and> c \<noteq> a \<longrightarrow> sl_locked (sleeplocks s2 (BufSL c)) = 0 \<and> refs s2 c + 1 \<noteq> 0"
    using o(17) assms(1) by (auto simp: at_rest_def)
  have rb: "refs s2 b \<noteq> 1" if "\<not> recovering" using pb(1) [OF that] o(16) by auto
  obtain s3 s4 s5 s' where e: "bwrite b (with_held {} (set_bdata b (bdata a s2) s2)) = Ret () (with_held {} s3)"
    "(if \<not> recovering then bunpin b (with_held {} s3) else Ret () (with_held {} s3)) = Ret () (with_held {} s4)"
    "brelse a (with_held {} s4) = Ret () (with_held {} s5)" "brelse b (with_held {} s5) = Ret () (with_held {} s')"
    "at_rest p ?d s'" "bio_step s2 s'"
    "\<forall>k. unat k < 2 ^ 31 \<longrightarrow> content s' ?d k = (if k = ?h then bdata a s2 else content s2 ?d k) \<and>
      disk_block (vio s') k = (if k = ?h then bdata a s2 else disk_block (vio s2) k)"
    "\<forall>c. refs s' c = (if c = b then refs s2 b - (if \<not> recovering then 2 else 1) else if c = a then refs s2 c - 1 else refs s2 c)"
    "\<forall>c. b_valid (bufs s' c) = b_valid (bufs s2 c) \<and> b_dev (bufs s' c) = b_dev (bufs s2 c) \<and> b_blockno (bufs s' c) = b_blockno (bufs s2 c)"
    by (rule copy_open [OF o(5,6,8,7) o(9) [symmetric] g(4) g(1) ca rb ul]) blast
  have "install_trans_loop (i # ts) recovering (with_held {} s) = install_trans_loop ts recovering (with_held {} s')"
    using o(1,2) e(1-4) i bio_step_log [OF o(3)]
    by (simp add: with_held_log log_blk_def bdata_with_held set_bdata_with_held split del: if_split)
  moreover have "rewritten p ?d [?h \<mapsto> content s ?d ?l] s s'"
    using e(5,7) o(11-13) bio_step_trans [OF o(4) e(6)] by (simp add: rewritten_def)
  moreover have "keeps_used s s'" using o(10) e(9) by (simp add: keeps_used_def)
  moreover have "\<forall>c < NBUF. refs s' c = (if \<not> recovering \<and> holds s ?d ?h c then refs s c - 1 else refs s c)"
    using e(8) o(9,15-17) pb(2) by (cases recovering) auto
  ultimately show ?thesis by (rule that)
qed

lemma pinned_keeps:
  assumes "pinned dev s n" "keeps_used s s'" "store_ok dev L s" "store_ok dev L' s'"
  shows "holds s' dev n c = holds s dev n c"
proof -
  obtain d where d: "d < NBUF" "holds s dev n d" "refs s d \<noteq> 0" using assms(1) by (auto simp: pinned_def)
  then have "holds s' dev n d" using assms(2) by (auto simp: holds_def cached_def keeps_used_def)
  with d(2) show ?thesis
    using holds_unique [OF store_okD(3,5) [OF assms(3)]] holds_unique [OF store_okD(3,5) [OF assms(4)]] by blast
qed

lemma holds_block: "holds s dev n c \<Longrightarrow> holds s dev m c \<Longrightarrow> n = m"
  by (simp add: holds_def cached_def)

definition install_map :: "'a log_state_scheme \<Rightarrow> nat list \<Rightarrow> u32 \<Rightarrow> u8 list option" where
  "install_map s is = map_of (map (\<lambda>i. (log_lh_block s i, content s (log_dev s) (log_blk s i))) is)"

lemma install_loop:
  assumes "at_rest p (log_dev s) s" "log_ok n s" "set is \<subseteq> {..<n}" "distinct is"
    and "if recovering then two_free s else (\<exists>c < NBUF. refs s c = 0) \<and> (\<forall>i \<in> set is. pinned (log_dev s) s (log_lh_block s i))"
  shows "\<exists>s'. install_trans_loop is recovering (with_held {} s) = Ret () (with_held {} s') \<and>
    rewritten p (log_dev s) (install_map s is) s s' \<and>
    (\<forall>c < NBUF. refs s' c = (if \<not> recovering \<and> (\<exists>i \<in> set is. holds s (log_dev s) (log_lh_block s i) c) then refs s c - 1 else refs s c))"
  using assms
proof (induction "is" arbitrary: s)
  case Nil
  then show ?case using rewritten_refl [of p "log_dev s" s] by (intro exI [of _ s]) (simp add: install_map_def)
next
  case (Cons i "is")
  let ?d = "log_dev s" and ?h = "log_lh_block s"
  have i: "i < n" "i \<notin> set is" "set is \<subseteq> {..<n}" "distinct is" using Cons.prems(3,4) by auto
  have "if recovering then two_free s else (\<exists>c < NBUF. refs s c = 0) \<and> pinned ?d s (?h i)" using Cons.prems(5) by auto
  from install_step [OF Cons.prems(1,2) i(1) this, of "is"] obtain s1 where
    e: "install_trans_loop (i # is) recovering (with_held {} s) = install_trans_loop is recovering (with_held {} s1)"
      "rewritten p ?d [?h i \<mapsto> content s ?d (log_blk s i)] s s1" "keeps_used s s1"
      "\<forall>c < NBUF. refs s1 c = (if \<not> recovering \<and> holds s ?d (?h i) c then refs s c - 1 else refs s c)"
    by blast
  have st: "bio_step s s1" "at_rest p ?d s1" using e(2) by (simp_all add: rewritten_def)
  note lg = bio_step_log [OF st(1)]
  obtain L L1 where L: "store_ok ?d L s" "store_ok ?d L1 s1" using Cons.prems(1) st(2) by (auto simp: at_rest_def)
  have hne: "?h j \<noteq> ?h i" if "j \<in> set is" for j
    using Cons.prems(2) i that by (auto simp: log_ok_def inj_on_def)
  have hs: "holds s1 ?d (?h j) c = holds s ?d (?h j) c" if "j \<in> set is" "\<not> recovering" for j c
    using pinned_keeps [OF _ e(3) L] Cons.prems(5) that by auto
  have p1: "if recovering then two_free s1 else (\<exists>c < NBUF. refs s1 c = 0) \<and> (\<forall>i \<in> set is. pinned ?d s1 (?h i))"
  proof (cases recovering)
    case True
    with e(4) Cons.prems(5) show ?thesis unfolding two_free_def by (metis (no_types, lifting))
  next
    case False
    then obtain c where c: "c < NBUF" "refs s c = 0" "pinned ?d s (?h i)" using Cons.prems(5) by auto
    then have "\<not> holds s ?d (?h i) c" using holds_unique [OF store_okD(3,5) [OF L(1)]] by (auto simp: pinned_def)
    then have "refs s1 c = 0" using e(4) c by auto
    moreover have "pinned ?d s1 (?h j)" if j: "j \<in> set is" for j
    proof -
      from j False Cons.prems(5) obtain b where b: "b < NBUF" "holds s ?d (?h j) b" "refs s b \<noteq> 0" by (auto simp: pinned_def)
      then have "\<not> holds s ?d (?h i) b" using holds_block hne [OF j] by metis
      then show ?thesis using b e(4) hs [OF j False] by (auto simp: pinned_def)
    qed
    ultimately show ?thesis using False c(1) by auto
  qed
  obtain s' where s': "install_trans_loop is recovering (with_held {} s1) = Ret () (with_held {} s')"
      "rewritten p ?d (install_map s1 is) s1 s'"
      "\<forall>c < NBUF. refs s' c = (if \<not> recovering \<and> (\<exists>i \<in> set is. holds s1 ?d (?h i) c) then refs s1 c - 1 else refs s1 c)"
    using Cons.IH [of s1, unfolded lg log_ok_step(1) [OF st(1)], OF st(2) Cons.prems(2) i(3,4) p1] by blast
  have "content s1 ?d (log_blk s j) = content s ?d (log_blk s j)" if "j \<in> set is" for j
  proof -
    have j: "j < n" "j < LOGSIZE" using that i(3) Cons.prems(2) by (auto simp: log_ok_def)
    note g = log_ok_blocks [OF Cons.prems(2) i(1) j(2)]
    show ?thesis using e(2) g(1,4) by (simp add: rewritten_def)
  qed
  then have "install_map s1 is = install_map s is"
    using log_ok_step(2) [OF st(1)] by (simp add: install_map_def lg cong: map_cong)
  moreover have "?h i \<notin> ?h ` set is" using hne by (metis imageE)
  then have "?h i \<notin> dom (install_map s is)" by (simp add: install_map_def dom_map_of_conv_image_fst image_image)
  then have "[?h i \<mapsto> content s ?d (log_blk s i)] ++ install_map s is = install_map s (i # is)"
    by (auto simp: install_map_def map_add_def fun_eq_iff dom_def split: option.splits)
  ultimately have "rewritten p ?d (install_map s (i # is)) s s'" using rewritten_trans [OF e(2) s'(2)] by simp
  moreover have "refs s' c = (if \<not> recovering \<and> (\<exists>j \<in> set (i # is). holds s ?d (?h j) c) then refs s c - 1 else refs s c)"
    if "c < NBUF" for c
  proof -
    have "\<not> (\<exists>j \<in> set is. holds s ?d (?h j) c)" if "holds s ?d (?h i) c" using that hne holds_block by metis
    moreover have "(\<exists>j \<in> set is. holds s1 ?d (?h j) c) = (\<exists>j \<in> set is. holds s ?d (?h j) c)" if "\<not> recovering"
      using hs that by simp
    ultimately show ?thesis
      using s'(3) [rule_format, OF \<open>c < NBUF\<close>] e(4) [rule_format, OF \<open>c < NBUF\<close>] by (cases recovering) auto
  qed
  ultimately show ?case using e(1) s'(1) by (intro exI [of _ s']) (simp del: install_trans_loop.simps)
qed

section \<open>Writing the log\<close>

lemma write_log_step:
  assumes "at_rest p (log_dev s) s" "log_ok n s" "i < n" "c < NBUF" "refs s c = 0" "pinned (log_dev s) s (log_lh_block s i)"
  obtains s' where "write_log_loop (i # ts) (with_held {} s) = write_log_loop ts (with_held {} s')"
    "rewritten p (log_dev s) [log_blk s i \<mapsto> content s (log_dev s) (log_lh_block s i)] s s'" "keeps_used s s'"
    "\<forall>c < NBUF. refs s' c = refs s c"
proof -
  let ?d = "log_dev s" and ?h = "log_lh_block s i" and ?l = "log_blk s i"
  have i: "i < LOGSIZE" using assms(2,3) by (simp add: log_ok_def)
  note g = log_ok_blocks [OF assms(2,3) i]
  obtain L0 where L0: "store_ok ?d L0 s" using assms(1) by (auto simp: at_rest_def)
  have f: "\<exists>c < NBUF. cached ?d ?l s c \<or> refs s c = 0"
      "(\<exists>c < NBUF. cached ?d ?h s c \<and> refs s c \<noteq> 0) \<or> (\<exists>c < NBUF. \<exists>d < NBUF. c \<noteq> d \<and> refs s c = 0 \<and> refs s d = 0)"
    using assms(4-6) by (auto simp: pinned_def holds_def)
  obtain a b s1 s2 L where o: "bread ?d ?l (with_held {} s) = Ret a (with_held {} s1)" "bread ?d ?h (with_held {} s1) = Ret b (with_held {} s2)"
    "bio_step s s1" "bio_step s s2" "in_kernel p s2" "store_ok ?d L s2" "has_open p ?d ?l s2 a" "has_open p ?d ?h s2 b" "a \<noteq> b"
    "keeps_used s s2" "\<forall>k. content s2 ?d k = content s ?d k" "disk_block (vio s2) = disk_block (vio s)"
    "bdata a s2 = content s ?d ?l" "bdata b s2 = content s ?d ?h" "refs s2 a = refs s a + 1" "refs s2 b = refs s b + 1"
    "\<forall>c. c \<noteq> a \<and> c \<noteq> b \<longrightarrow> bufs s2 c = bufs s c \<and> sleeplocks s2 (BufSL c) = sleeplocks s (BufSL c)"
    "refs s a = 0 \<Longrightarrow> content s ?d ?l = disk_block (vio s) ?l"
    by (rule open_two [OF assms(1) g(1,3) g(4) [symmetric] f]) blast
  have rb: "refs s b \<noteq> 0" by (rule pinned_open(1) [OF assms(6) o(10) L0 o(6,8)])
  have cb: "clean s2 b" if "refs s2 b = 1" using that rb o(16) by simp
  have ul: "\<forall>c < NBUF. c \<noteq> a \<and> c \<noteq> b \<longrightarrow> sl_locked (sleeplocks s2 (BufSL c)) = 0 \<and> refs s2 c + 1 \<noteq> 0"
    using o(17) assms(1) by (auto simp: at_rest_def)
  obtain s3 s4 s5 s' where e: "bwrite a (with_held {} (set_bdata a (bdata b s2) s2)) = Ret () (with_held {} s3)"
    "(if False then bunpin a (with_held {} s3) else Ret () (with_held {} s3)) = Ret () (with_held {} s4)"
    "brelse b (with_held {} s4) = Ret () (with_held {} s5)" "brelse a (with_held {} s5) = Ret () (with_held {} s')"
    "at_rest p ?d s'" "bio_step s2 s'"
    "\<forall>k. unat k < 2 ^ 31 \<longrightarrow> content s' ?d k = (if k = ?l then bdata b s2 else content s2 ?d k) \<and>
      disk_block (vio s') k = (if k = ?l then bdata b s2 else disk_block (vio s2) k)"
    "\<forall>c. refs s' c = (if c = a then refs s2 a - (if False then 2 else 1) else if c = b then refs s2 c - 1 else refs s2 c)"
    "\<forall>c. b_valid (bufs s' c) = b_valid (bufs s2 c) \<and> b_dev (bufs s' c) = b_dev (bufs s2 c) \<and> b_blockno (bufs s' c) = b_blockno (bufs s2 c)"
    by (rule copy_open [OF o(5,6,7,8) o(9) g(4) [symmetric] g(3) cb FalseE ul]) blast+
  have "write_log_loop (i # ts) (with_held {} s) = write_log_loop ts (with_held {} s')"
    using o(1,2) e(1-4) i bio_step_log [OF o(3)] by (simp add: with_held_log log_blk_def bdata_with_held set_bdata_with_held)
  moreover have "rewritten p ?d [?l \<mapsto> content s ?d ?h] s s'"
    using e(5,7) o(11,12,14) bio_step_trans [OF o(4) e(6)] by (simp add: rewritten_def)
  moreover have "keeps_used s s'" using o(10) e(9) by (simp add: keeps_used_def)
  moreover have "\<forall>c < NBUF. refs s' c = refs s c" using e(8) o(9,15-17) by auto
  ultimately show ?thesis by (rule that)
qed

lemma keeps_used_trans:
  "keeps_used s t \<Longrightarrow> keeps_used t u \<Longrightarrow> \<forall>c < NBUF. refs t c = refs s c \<Longrightarrow> keeps_used s u"
  by (simp add: keeps_used_def)

lemma pinned_refs:
  assumes "pinned dev s n" "keeps_used s s'" "store_ok dev L s" "store_ok dev L' s'" "\<forall>c < NBUF. refs s' c = refs s c"
  shows "pinned dev s' n"
  using assms(1,5) pinned_keeps [OF assms(1-4)] by (auto simp: pinned_def)

definition write_map :: "'a log_state_scheme \<Rightarrow> nat list \<Rightarrow> u32 \<Rightarrow> u8 list option" where
  "write_map s is = map_of (map (\<lambda>i. (log_blk s i, content s (log_dev s) (log_lh_block s i))) is)"

lemma write_log_loop_done:
  assumes "at_rest p (log_dev s) s" "log_ok n s" "set is \<subseteq> {..<n}" "distinct is" "c < NBUF" "refs s c = 0"
    and "\<forall>i \<in> set is. pinned (log_dev s) s (log_lh_block s i)"
  shows "\<exists>s'. write_log_loop is (with_held {} s) = Ret () (with_held {} s') \<and>
    rewritten p (log_dev s) (write_map s is) s s' \<and> keeps_used s s' \<and> (\<forall>c < NBUF. refs s' c = refs s c)"
  using assms
proof (induction "is" arbitrary: s)
  case Nil
  then show ?case using rewritten_refl [of p "log_dev s" s] by (intro exI [of _ s]) (simp add: write_map_def keeps_used_def)
next
  case (Cons i "is")
  let ?d = "log_dev s" and ?h = "log_lh_block s"
  have i: "i < n" "i \<notin> set is" "set is \<subseteq> {..<n}" "distinct is" using Cons.prems(3,4) by auto
  from write_log_step [OF Cons.prems(1,2) i(1) Cons.prems(5,6), of "is"] Cons.prems(7) obtain s1 where
    e: "write_log_loop (i # is) (with_held {} s) = write_log_loop is (with_held {} s1)"
      "rewritten p ?d [log_blk s i \<mapsto> content s ?d (?h i)] s s1" "keeps_used s s1" "\<forall>c < NBUF. refs s1 c = refs s c"
    by auto
  have st: "bio_step s s1" "at_rest p ?d s1" using e(2) by (simp_all add: rewritten_def)
  note lg = bio_step_log [OF st(1)] and lo = log_ok_step [OF st(1)]
  obtain L L1 where L: "store_ok ?d L s" "store_ok ?d L1 s1" using Cons.prems(1) st(2) by (auto simp: at_rest_def)
  have pn: "\<forall>j \<in> set is. pinned ?d s1 (?h j)" using pinned_refs [OF _ e(3) L e(4)] Cons.prems(7) by simp
  have c1: "refs s1 c = 0" using Cons.prems(5,6) e(4) by simp
  obtain s' where s': "write_log_loop is (with_held {} s1) = Ret () (with_held {} s')"
      "rewritten p ?d (write_map s1 is) s1 s'" "keeps_used s1 s'" "\<forall>c < NBUF. refs s' c = refs s1 c"
    using Cons.IH [of s1, unfolded lg lo(1), OF st(2) Cons.prems(2) i(3,4) Cons.prems(5) c1 pn] by blast
  have sz: "n \<le> LOGSIZE" using Cons.prems(2) by (simp add: log_ok_def)
  have "content s1 ?d (?h j) = content s ?d (?h j)" if "j \<in> set is" for j
  proof -
    have j: "j < n" "i < LOGSIZE" using that i(1,3) sz by auto
    note g = log_ok_blocks [OF Cons.prems(2) j]
    show ?thesis using e(2) g(3,4) by (simp add: rewritten_def)
  qed
  then have "write_map s1 is = write_map s is" by (simp add: write_map_def lg lo(2) cong: map_cong)
  moreover have "log_blk s j \<noteq> log_blk s i" if "j \<in> set is" for j
    using log_ok_blocks(7) [OF Cons.prems(2) i(1), of i j] that i sz by auto
  then have "log_blk s i \<notin> log_blk s ` set is" by (metis imageE)
  then have "log_blk s i \<notin> dom (write_map s is)" by (simp add: write_map_def dom_map_of_conv_image_fst image_image)
  then have "[log_blk s i \<mapsto> content s ?d (?h i)] ++ write_map s is = write_map s (i # is)"
    by (auto simp: write_map_def map_add_def fun_eq_iff dom_def split: option.splits)
  ultimately have "rewritten p ?d (write_map s (i # is)) s s'" using rewritten_trans [OF e(2) s'(2)] by simp
  moreover have "keeps_used s s'" by (rule keeps_used_trans [OF e(3) s'(3) e(4)])
  ultimately show ?case using e(1,4) s'(1,4) by (intro exI [of _ s']) (simp del: write_log_loop.simps)
qed

section \<open>The header block\<close>

definition head_image :: "'a log_state_scheme \<Rightarrow> u8 list \<Rightarrow> u8 list" where
  "head_image s d = fold (\<lambda>i hb. put32 (4 + 4 * i) (log_lh_block s i) hb) [0..<log_len s] (put32 0 (log_lh_n s) d)"

lemma BSIZE_LOG: "4 + 4 * LOGSIZE \<le> BSIZE"
  by (simp add: LOGSIZE_def BSIZE_def MAXOPBLOCKS_def)

lemma head_image_get:
  assumes "length d = BSIZE" "log_len s \<le> LOGSIZE"
  shows "length (head_image s d) = BSIZE" "get32 0 (head_image s d) = log_lh_n s"
    "i < log_len s \<Longrightarrow> get32 (4 + 4 * i) (head_image s d) = log_lh_block s i"
proof -
  have l: "4 + 4 * log_len s \<le> length (put32 0 (log_lh_n s) d)" using assms BSIZE_LOG by simp
  note A = put32_array [OF l, where f = "log_lh_block s"]
  have "length (put32 0 (log_lh_n s) d) = BSIZE" using assms BSIZE_LOG by simp
  then show "length (head_image s d) = BSIZE" unfolding head_image_def A(1) .
  show "get32 (4 + 4 * i) (head_image s d) = log_lh_block s i" if "i < log_len s" unfolding head_image_def by (rule A(2) [OF that])
  have "get32 0 (head_image s d) = get32 0 (put32 0 (log_lh_n s) d)"
    unfolding head_image_def using A(3) [of 0] l by simp
  also have "\<dots> = log_lh_n s" using assms BSIZE_LOG by simp
  finally show "get32 0 (head_image s d) = log_lh_n s" .
qed

lemma write_head_done:
  assumes "at_rest p (log_dev s) s" "log_len s \<le> LOGSIZE" "unat (log_start s) < 2 ^ 31" "c < NBUF" "refs s c = 0"
  obtains s' where "write_head (with_held {} s) = Ret () (with_held {} s')"
    "rewritten p (log_dev s) [log_start s \<mapsto> head_image s (content s (log_dev s) (log_start s))] s s'"
    "keeps_used s s'" "\<forall>c < NBUF. refs s' c = refs s c"
proof -
  obtain b s1 where r: "bread (log_dev s) (log_start s) (with_held {} s) = Ret b (with_held {} s1)"
    "bdata b s1 = content s (log_dev s) (log_start s)" "bio_step s s1"
    "\<forall>d. \<exists>s'. bnd (bwrite b (with_held {} (set_bdata b d s1))) (\<lambda>_ s. brelse b s) = Ret () (with_held {} s') \<and>
      rewritten p (log_dev s) [log_start s \<mapsto> d] s s' \<and> keeps_used s s' \<and> (\<forall>c < NBUF. refs s' c = refs s c)"
    by (rule rewrite_block [OF assms(1,3,4) disjI2, OF assms(5)]) blast
  have "write_head (with_held {} s) =
      bnd (bwrite b (with_held {} (set_bdata b (head_image s (content s (log_dev s) (log_start s))) s1))) (\<lambda>_ s. brelse b s)"
    using r(1,2) bio_step_log [OF r(3)] assms(2)
    by (simp add: write_head_def Let_def with_held_log bdata_with_held set_bdata_with_held log_len_with_held head_image_def)
  then show ?thesis using r(4) that by metis
qed

text \<open>What the header block says.\<close>

definition head_len :: "u8 list \<Rightarrow> nat" where
  "head_len d = nat (sint (get32 0 d))"

definition head_home :: "u8 list \<Rightarrow> nat \<Rightarrow> u32" where
  "head_home d i = get32 (4 + 4 * i) d"

definition with_head :: "u8 list \<Rightarrow> 'a log_state_scheme \<Rightarrow> 'a log_state_scheme" where
  "with_head d s = s\<lparr>log_lh_n := get32 0 d, log_lh_block := (\<lambda>i. if i < head_len d then head_home d i else log_lh_block s i)\<rparr>"

lemma with_head_sel [simp]:
  "log_len (with_head d s) = head_len d" "log_start (with_head d s) = log_start s" "log_dev (with_head d s) = log_dev s"
  "bufs (with_head d s) = bufs s" "vio (with_head d s) = vio s" "sleeplocks (with_head d s) = sleeplocks s" "procs (with_head d s) = procs s"
  "log_blk (with_head d s) i = log_blk s i" "log_lh_n (with_head d s) = get32 0 d"
  "i < head_len d \<Longrightarrow> log_lh_block (with_head d s) i = head_home d i"
  "in_kernel p (with_head d s) = in_kernel p s" "store_ok dev L (with_head d s) = store_ok dev L s"
  "at_rest p dev (with_head d s) = at_rest p dev s" "content (with_head d s) dev m = content s dev m"
  "two_free (with_head d s) = two_free s"
  by (simp_all add: with_head_def log_len_def head_len_def log_blk_def two_free_def)

lemma read_head_done:
  assumes "at_rest p (log_dev s) s" "unat (log_start s) < 2 ^ 31" "c < NBUF" "refs s c = 0"
    and "d = content s (log_dev s) (log_start s)" "head_len d \<le> LOGSIZE"
  obtains s1 s' where "read_head (with_held {} s) = Ret () (with_held {} s')" "bio_step s s1" "bio_step (with_head d s1) s'"
    "at_rest p (log_dev s) s'" "\<forall>m. content s' (log_dev s) m = content s (log_dev s) m" "disk_block (vio s') = disk_block (vio s)"
    "\<forall>c < NBUF. refs s' c = refs s c"
proof -
  let ?d = "log_dev s" and ?n = "log_start s"
  obtain L where r: "in_kernel p s" "store_ok ?d L s" "\<forall>b < NBUF. sl_locked (sleeplocks s (BufSL b)) = 0 \<and> refs s b + 1 \<noteq> 0"
    using assms(1) by (rule at_restD)
  obtain b s1 where b: "bread ?d ?n (with_held {} s) = Ret b (with_held {} s1)" "bread_post p L ?d ?n s b s1" "store_ok ?d L s1"
    by (rule bread_store [OF r(1,2) at_rest_available [OF assms(1,3) disjI2, OF assms(4)] assms(2)])
  have bn: "b < NBUF" using b(2) by (simp add: bread_post_def holds_def)
  note P = bread_rest [OF b(2) r(2) b(3), OF r(3) [rule_format, OF bn, THEN conjunct2]]
  let ?s2 = "with_head d s1"
  have h: "holds s1 ?d ?n b" "held_by p s1 b" "refs s1 b \<noteq> 0" using P(1) by (simp_all add: has_open_def)
  have ho: "has_open p ?d ?n ?s2 b" using h by (simp add: has_open_def holds_def cached_def held_by_def)
  have cl: "clean ?s2 b" if "refs ?s2 b = 1"
    using that P(6,7,8,10) h(1) by (simp add: clean_def bdata_def holds_def cached_def)
  have ul: "\<forall>c < NBUF. c \<noteq> b \<longrightarrow> sl_locked (sleeplocks ?s2 (BufSL c)) = 0 \<and> refs ?s2 c + 1 \<noteq> 0"
    using P(9) r(3) by simp
  have k: "in_kernel p ?s2" "store_ok ?d L ?s2" using P(4) b(3) by simp_all
  obtain s' where e: "brelse b (with_held {} ?s2) = Ret () (with_held {} s')" "at_rest p ?d s'" "bio_step ?s2 s'"
    "vio s' = vio ?s2" "\<forall>m. content s' ?d m = content ?s2 ?d m" "\<forall>c. refs s' c = (if c = b then refs ?s2 b - 1 else refs ?s2 c)"
    by (rule release_last_buf [OF k ho cl ul])
  have bd: "bdata b s1 = d" using P(7) assms(5) by simp
  have ln: "log_len (s1\<lparr>log_lh_n := get32 0 d\<rparr>) = head_len d" by (simp add: log_len_def head_len_def)
  have "read_head (with_held {} s) = Ret () (with_held {} s')"
    using e(1) assms(6)
    by (simp add: read_head_def Let_def with_held_log bdata_with_held log_len_with_held with_head_def head_home_def b(1) bd ln
        cong: if_cong)
  then show ?thesis
    by (rule that [OF _ P(3) e(3,2)]) (use e(4,5,6) P(5,6,8,9) in auto)
qed

section \<open>Recovery\<close>

text \<open>The block as recovery would leave it, read off the disk alone.\<close>

definition log_view :: "vio \<Rightarrow> u32 \<Rightarrow> u32 \<Rightarrow> u8 list" where
  "log_view v start m =
     (case find (\<lambda>i. head_home (disk_block v start) i = m) [0..<head_len (disk_block v start)] of
        Some i \<Rightarrow> disk_block v (start + of_nat i + 1) | None \<Rightarrow> disk_block v m)"

definition in_log :: "u32 \<Rightarrow> u32 \<Rightarrow> bool" where
  "in_log start m \<longleftrightarrow> unat start \<le> unat m \<and> unat m \<le> unat start + LOGSIZE"

definition head_ok :: "u32 \<Rightarrow> u8 list \<Rightarrow> bool" where
  "head_ok start d \<longleftrightarrow> length d = BSIZE \<and> head_len d \<le> LOGSIZE \<and> unat start + LOGSIZE < 2 ^ 31 \<and>
     inj_on (head_home d) {..<head_len d} \<and>
     (\<forall>i < head_len d. unat (head_home d i) < 2 ^ 31 \<and> \<not> in_log start (head_home d i))"

lemma map_of_find: "map_of (map (\<lambda>i. (f i, g i)) is) m = map_option g (find (\<lambda>i. f i = m) is)"
  by (induction "is") auto

lemma in_log_start: "in_log start start"
  by (simp add: in_log_def)

lemma in_log_blk: "log_ok n s \<Longrightarrow> i < LOGSIZE \<Longrightarrow> in_log (log_start s) (log_blk s i)"
  by (simp add: in_log_def unat_log_blk)

lemma log_ok_home: "log_ok n s \<Longrightarrow> i < n \<Longrightarrow> \<not> in_log (log_start s) (log_lh_block s i)"
  by (auto simp: log_ok_def in_log_def)

lemma head_ok_log: "head_ok (log_start s) d \<Longrightarrow> log_ok (head_len d) (with_head d s)"
  by (force simp: head_ok_def log_ok_def in_log_def inj_on_def)

lemma idle_content:
  assumes "at_rest p dev s" "\<forall>b < NBUF. refs s b = 0"
  shows "content s dev m = disk_block (vio s) m"
proof (cases "\<exists>c. holds s dev m c")
  case True
  then obtain c L where c: "holds s dev m c" "store_ok dev L s" using assms(1) by (auto simp: at_rest_def)
  note o = store_okD [OF c(2)]
  from c(1) o(6) [of c] assms(2) content_holds [OF o(3,5) c(1)] show ?thesis by (auto simp: clean_def holds_def cached_def)
next
  case False
  then show ?thesis by (intro content_disk) blast
qed

lemma head_len_zero: "length d = BSIZE \<Longrightarrow> head_len (put32 0 0 d) = 0"
  by (simp add: head_len_def BSIZE_def)

lemma clear_head:
  assumes "at_rest p (log_dev s) s" "unat (log_start s) < 2 ^ 31" "c < NBUF" "refs s c = 0"
  obtains s' where "write_head (with_held {} s\<lparr>log_lh_n := 0\<rparr>) = Ret () (with_held {} s')"
    "rewritten p (log_dev s) [log_start s \<mapsto> put32 0 0 (content s (log_dev s) (log_start s))] (s\<lparr>log_lh_n := 0\<rparr>) s'"
    "keeps_used s s'" "\<forall>c < NBUF. refs s' c = refs s c"
proof -
  have e: "log_len (s\<lparr>log_lh_n := 0\<rparr>) = 0" "head_image (s\<lparr>log_lh_n := 0\<rparr>) d = put32 0 0 d" for d
    by (simp_all add: log_len_def head_image_def)
  have a: "at_rest p (log_dev (s\<lparr>log_lh_n := 0\<rparr>)) (s\<lparr>log_lh_n := 0\<rparr>)" "log_len (s\<lparr>log_lh_n := 0\<rparr>) \<le> LOGSIZE"
    "unat (log_start (s\<lparr>log_lh_n := 0\<rparr>)) < 2 ^ 31" "refs (s\<lparr>log_lh_n := 0\<rparr>) c = 0"
    using assms e(1) by simp_all
  obtain s' where s': "write_head (with_held {} (s\<lparr>log_lh_n := 0\<rparr>)) = Ret () (with_held {} s')"
    "rewritten p (log_dev (s\<lparr>log_lh_n := 0\<rparr>)) [log_start (s\<lparr>log_lh_n := 0\<rparr>) \<mapsto>
        head_image (s\<lparr>log_lh_n := 0\<rparr>) (content (s\<lparr>log_lh_n := 0\<rparr>) (log_dev (s\<lparr>log_lh_n := 0\<rparr>)) (log_start (s\<lparr>log_lh_n := 0\<rparr>)))]
      (s\<lparr>log_lh_n := 0\<rparr>) s'"
    "keeps_used (s\<lparr>log_lh_n := 0\<rparr>) s'" "\<forall>c < NBUF. refs s' c = refs (s\<lparr>log_lh_n := 0\<rparr>) c"
    by (rule write_head_done [OF a(1-3) assms(3) a(4)])
  then show ?thesis by (intro that [of s']) (simp_all add: with_held_log e keeps_used_def)
qed

lemma install_map_find:
  assumes "\<And>i. i < n \<Longrightarrow> log_lh_block t i = h i" "\<And>i. i < n \<Longrightarrow> content t (log_dev t) (log_blk t i) = g i"
  shows "install_map t [0..<n] m = map_option g (find (\<lambda>i. h i = m) [0..<n])"
proof -
  have "install_map t [0..<n] = map_of (map (\<lambda>i. (h i, g i)) [0..<n])"
    unfolding install_map_def by (rule arg_cong [of _ _ map_of], rule map_cong) (simp_all add: assms)
  then show ?thesis by (simp add: map_of_find)
qed

lemma rewrittenD:
  assumes "rewritten p dev f s s'"
  shows "bio_step s s'" "at_rest p dev s'"
    "unat m < 2 ^ 31 \<Longrightarrow> content s' dev m = (case f m of Some d \<Rightarrow> d | None \<Rightarrow> content s dev m)"
    "unat m < 2 ^ 31 \<Longrightarrow> disk_block (vio s') m = (case f m of Some d \<Rightarrow> d | None \<Rightarrow> disk_block (vio s) m)"
  using assms by (auto simp: rewritten_def)

lemma recover_install:
  assumes "at_rest p (log_dev s) s" "\<forall>b < NBUF. refs s b = 0" "head_ok (log_start s) d" "d = disk_block (vio s) (log_start s)"
  obtains t u where "read_head (with_held {} s) = Ret () (with_held {} t)" "log_len t = head_len d"
    "install_trans_loop [0..<head_len d] True (with_held {} t) = Ret () (with_held {} u)"
    "at_rest p (log_dev s) u" "log_dev u = log_dev s" "log_start u = log_start s" "\<forall>b < NBUF. refs u b = 0"
    "content u (log_dev s) (log_start s) = d"
    "\<forall>m. unat m < 2 ^ 31 \<longrightarrow> disk_block (vio u) m = log_view (vio s) (log_start s) m"
proof -
  let ?d = "log_dev s" and ?st = "log_start s"
  note ic = idle_content [OF assms(1,2)]
  have d: "d = content s ?d ?st" "head_len d \<le> LOGSIZE" "unat ?st < 2 ^ 31" using ic assms(3,4) by (auto simp: head_ok_def)
  have z: "0 < NBUF" "refs s 0 = 0" using assms(2) by (auto simp: NBUF_def MAXOPBLOCKS_def)
  obtain s1 t where t: "read_head (with_held {} s) = Ret () (with_held {} t)" "bio_step s s1" "bio_step (with_head d s1) t"
    "at_rest p ?d t" "\<forall>m. content t ?d m = content s ?d m" "disk_block (vio t) = disk_block (vio s)"
    "\<forall>c < NBUF. refs t c = refs s c"
    by (rule read_head_done [OF assms(1) d(3) z d(1,2)])
  note l1 = bio_step_log [OF t(2)] and l2 = bio_step_log [OF t(3)]
  have lt: "log_dev t = ?d" "log_start t = ?st" "log_len t = head_len d" "i < head_len d \<Longrightarrow> log_lh_block t i = head_home d i"
      "log_blk t i = log_blk s i" for i
    using l1 l2 by (simp_all add: log_blk_def)
  have ok: "log_ok (head_len d) t" using head_ok_log [of s1 d] assms(3) l1 log_ok_step(1) [OF t(3)] by simp
  have "1 < NBUF" by (simp add: NBUF_def MAXOPBLOCKS_def)
  then have tf: "two_free t" unfolding two_free_def using t(7) assms(2) z(1) zero_neq_one by metis
  obtain u where u: "install_trans_loop [0..<head_len d] True (with_held {} t) = Ret () (with_held {} u)"
    "rewritten p ?d (install_map t [0..<head_len d]) t u" "\<forall>c < NBUF. refs u c = refs t c"
    using install_loop [of p t "head_len d" "[0..<head_len d]" True] t(4) ok tf by (auto simp: lt(1) atLeast0LessThan)
  note ru = rewrittenD [OF u(2)]
  have im: "install_map t [0..<head_len d] m =
      map_option (\<lambda>i. content s ?d (log_blk s i)) (find (\<lambda>i. head_home d i = m) [0..<head_len d])" for m
    by (rule install_map_find) (simp_all add: lt t(5))
  have "install_map t [0..<head_len d] ?st = None" using assms(3) in_log_start by (auto simp: im find_None_iff head_ok_def)
  then have "content u ?d ?st = d" using ru(3) [OF d(3)] t(5) d(1) by simp
  moreover have "disk_block (vio u) m = log_view (vio s) ?st m" if "unat m < 2 ^ 31" for m
    unfolding ru(4) [OF that] im by (simp add: t(6) log_view_def assms(4) ic log_blk_def split: option.splits)
  moreover have "log_dev u = ?d" "log_start u = ?st" "\<forall>b < NBUF. refs u b = 0"
    using bio_step_log [OF ru(1)] lt(1,2) u(3) t(7) assms(2) by simp_all
  ultimately show ?thesis using that [OF t(1) lt(3) u(1) ru(2)] by blast
qed

lemma recover_done:
  assumes "at_rest p (log_dev s) s" "\<forall>b < NBUF. refs s b = 0" "head_ok (log_start s) (disk_block (vio s) (log_start s))"
  obtains s' where "recover_from_log (with_held {} s) = Ret () (with_held {} s')" "at_rest p (log_dev s) s'"
    "log_lh_n s' = 0" "\<forall>b < NBUF. refs s' b = 0" "head_len (disk_block (vio s') (log_start s)) = 0"
    "\<forall>m. unat m < 2 ^ 31 \<and> m \<noteq> log_start s \<longrightarrow> disk_block (vio s') m = log_view (vio s) (log_start s) m"
proof -
  let ?d = "log_dev s" and ?st = "log_start s"
  define d where "d = disk_block (vio s) ?st"
  have d: "head_ok ?st d" "unat ?st < 2 ^ 31" "length d = BSIZE" using assms(3) by (auto simp: d_def head_ok_def)
  obtain t u where u: "read_head (with_held {} s) = Ret () (with_held {} t)" "log_len t = head_len d"
    "install_trans_loop [0..<head_len d] True (with_held {} t) = Ret () (with_held {} u)"
    "at_rest p ?d u" "log_dev u = ?d" "log_start u = ?st" "\<forall>b < NBUF. refs u b = 0" "content u ?d ?st = d"
    "\<forall>m. unat m < 2 ^ 31 \<longrightarrow> disk_block (vio u) m = log_view (vio s) ?st m"
    by (rule recover_install [OF assms(1,2) d(1) d_def])
  have z: "0 < NBUF" by (simp add: NBUF_def MAXOPBLOCKS_def)
  have cu: "at_rest p (log_dev u) u" "unat (log_start u) < 2 ^ 31" "refs u 0 = 0" using u(4-7) d(2) z by simp_all
  obtain s' where s': "write_head (with_held {} u\<lparr>log_lh_n := 0\<rparr>) = Ret () (with_held {} s')"
    "rewritten p (log_dev u) [log_start u \<mapsto> put32 0 0 (content u (log_dev u) (log_start u))] (u\<lparr>log_lh_n := 0\<rparr>) s'"
    "keeps_used u s'" "\<forall>c < NBUF. refs s' c = refs u c"
    by (rule clear_head [OF cu(1,2) z cu(3)])
  note rs = rewrittenD [OF s'(2), unfolded u(5,6,8)]
  have "recover_from_log (with_held {} s) = Ret () (with_held {} s')"
    using u(1,3) s'(1) by (simp add: recover_from_log_def install_trans_def log_len_with_held u(2))
  moreover have "log_lh_n s' = 0" using bio_step_log(6) [OF rs(1)] by simp
  moreover have "\<forall>b < NBUF. refs s' b = 0" using s'(4) u(7) by simp
  moreover have "head_len (disk_block (vio s') ?st) = 0" using rs(4) [OF d(2)] d(3) by (simp add: head_len_zero)
  moreover have "disk_block (vio s') m = log_view (vio s) ?st m" if "unat m < 2 ^ 31" "m \<noteq> ?st" for m
    using rs(4) [OF that(1)] that u(9) by simp
  ultimately show ?thesis using that rs(2) by blast
qed

end
