(* ===== verification/LogCommit.thy ===== *)
theory LogCommit
  imports LogStore
begin

text \<open>
  Committing a transaction, block write by block write: wherever a crash cuts \<open>commit\<close> off, recovery
  finds either none or all of the blocks of the transaction.
\<close>

section \<open>The stages of a commit\<close>

definition homes :: "'a log_state_scheme \<Rightarrow> u32 set" where
  "homes s = log_lh_block s ` {..<log_len s}"

text \<open>
  What the calls before leave: every logged block is pinned in the cache, the cache has a buffer to spare,
  and the blocks of the log are not homes.
\<close>

definition committable :: "nat \<Rightarrow> 'a log_state_scheme \<Rightarrow> bool" where
  "committable p s \<longleftrightarrow> at_rest p (log_dev s) s \<and> log_ok (log_len s) s \<and> (\<exists>c < NBUF. refs s c = 0) \<and>
     (\<forall>i < log_len s. pinned (log_dev s) s (log_lh_block s i)) \<and> length (content s (log_dev s) (log_start s)) = BSIZE"

lemma committableD:
  assumes "committable p s"
  obtains c where "at_rest p (log_dev s) s" "log_ok (log_len s) s" "c < NBUF" "refs s c = 0" "log_len s \<le> LOGSIZE"
    "\<forall>i < log_len s. pinned (log_dev s) s (log_lh_block s i)" "length (content s (log_dev s) (log_start s)) = BSIZE"
    "unat (log_start s) < 2 ^ 31"
  using assms by (auto simp: committable_def log_ok_def)

lemma write_map_out:
  assumes "log_ok n s" "k \<le> n" "\<not> in_log (log_start s) m \<or> m = log_start s"
  shows "write_map s [0..<k] m = None"
proof -
  have "log_blk s i \<noteq> m" if "i < k" for i
  proof -
    have i: "i < n" "i < LOGSIZE" using that assms(1,2) by (auto simp: log_ok_def)
    show ?thesis using assms(3) in_log_blk [OF assms(1) i(2)] log_ok_blocks(6) [OF assms(1) i] by auto
  qed
  then show ?thesis by (auto simp: write_map_def map_of_find find_None_iff)
qed

lemma write_map_blk:
  assumes "log_ok n s" "i < n"
  shows "write_map s [0..<n] (log_blk s i) = Some (content s (log_dev s) (log_lh_block s i))"
proof -
  have "distinct (map fst (map (\<lambda>i. (log_blk s i, content s (log_dev s) (log_lh_block s i))) [0..<n]))"
    using log_ok_blocks(7) [OF assms(1)] assms(1) by (auto simp: distinct_map inj_on_def log_ok_def comp_def)
  then show ?thesis unfolding write_map_def using assms(2) by (intro map_of_is_SomeI) auto
qed

lemma write_log_prefix:
  assumes "committable p s" "k \<le> log_len s"
  obtains t where "write_log_loop [0..<k] (with_held {} s) = Ret () (with_held {} t)"
    "rewritten p (log_dev s) (write_map s [0..<k]) s t" "keeps_used s t" "\<forall>c < NBUF. refs t c = refs s c"
proof -
  obtain c where c: "at_rest p (log_dev s) s" "log_ok (log_len s) s" "c < NBUF" "refs s c = 0"
    "\<forall>i < log_len s. pinned (log_dev s) s (log_lh_block s i)" by (rule committableD [OF assms(1)])
  show ?thesis
    using write_log_loop_done [OF c(1,2) _ _ c(3,4), of "[0..<k]"] c(5) assms(2) that by (auto simp: atLeast0LessThan)
qed

text \<open>After \<open>write_log\<close> and \<open>write_head\<close> the transaction is on the disk, in the log.\<close>

definition logged :: "nat \<Rightarrow> 'a log_state_scheme \<Rightarrow> 'a log_state_scheme \<Rightarrow> bool" where
  "logged p s t \<longleftrightarrow> at_rest p (log_dev s) t \<and> bio_step s t \<and> keeps_used s t \<and> (\<forall>c < NBUF. refs t c = refs s c) \<and>
     (\<forall>m. unat m < 2 ^ 31 \<and> \<not> in_log (log_start s) m \<longrightarrow>
        content t (log_dev s) m = content s (log_dev s) m \<and> disk_block (vio t) m = disk_block (vio s) m) \<and>
     (\<forall>i < log_len s. content t (log_dev s) (log_blk s i) = content s (log_dev s) (log_lh_block s i) \<and>
        disk_block (vio t) (log_blk s i) = content s (log_dev s) (log_lh_block s i)) \<and>
     content t (log_dev s) (log_start s) = head_image s (content s (log_dev s) (log_start s)) \<and>
     disk_block (vio t) (log_start s) = head_image s (content s (log_dev s) (log_start s))"

lemma write_log_head:
  assumes "committable p s"
  obtains t u where "write_log (with_held {} s) = Ret () (with_held {} t)" "write_head (with_held {} t) = Ret () (with_held {} u)"
    "logged p s u"
proof -
  let ?d = "log_dev s" and ?st = "log_start s"
  obtain c where c: "at_rest p ?d s" "log_ok (log_len s) s" "c < NBUF" "refs s c = 0" "log_len s \<le> LOGSIZE"
    "\<forall>i < log_len s. pinned ?d s (log_lh_block s i)" "length (content s ?d ?st) = BSIZE" "unat ?st < 2 ^ 31"
    by (rule committableD [OF assms(1)])
  obtain t where t: "write_log_loop [0..<log_len s] (with_held {} s) = Ret () (with_held {} t)"
    "rewritten p ?d (write_map s [0..<log_len s]) s t" "keeps_used s t" "\<forall>c < NBUF. refs t c = refs s c"
    by (rule write_log_prefix [OF assms order_refl])
  note rt = rewrittenD [OF t(2)] and lt = bio_step_log [OF rewrittenD(1) [OF t(2)]]
  have ct: "at_rest p (log_dev t) t" "log_len t \<le> LOGSIZE" "unat (log_start t) < 2 ^ 31" "refs t c = 0"
    using rt(2) c(3-5,8) t(4) by (simp_all add: lt)
  obtain u where u: "write_head (with_held {} t) = Ret () (with_held {} u)"
    "rewritten p (log_dev t) [log_start t \<mapsto> head_image t (content t (log_dev t) (log_start t))] t u"
    "keeps_used t u" "\<forall>c < NBUF. refs u c = refs t c"
    by (rule write_head_done [OF ct(1-3) c(3) ct(4)])
  have hi: "head_image t x = head_image s x" for x by (simp add: head_image_def lt)
  note ru = rewrittenD [OF u(2), unfolded lt hi]
  have wo: "write_map s [0..<log_len s] m = None" if "\<not> in_log ?st m \<or> m = ?st" for m
    by (rule write_map_out [OF c(2) order_refl that])
  have st: "content t ?d ?st = content s ?d ?st" using rt(3) [OF c(8)] wo by simp
  have "content u ?d m = content s ?d m \<and> disk_block (vio u) m = disk_block (vio s) m"
    if "unat m < 2 ^ 31" "\<not> in_log ?st m" for m
    using ru(3,4) [OF that(1)] rt(3,4) [OF that(1)] wo [of m] that(2) in_log_start [of ?st] by auto
  moreover have "content u ?d (log_blk s i) = content s ?d (log_lh_block s i) \<and>
      disk_block (vio u) (log_blk s i) = content s ?d (log_lh_block s i)" if "i < log_len s" for i
  proof -
    have i: "i < LOGSIZE" using that c(5) by simp
    note g = log_ok_blocks [OF c(2) that i]
    show ?thesis using ru(3,4) [OF g(1)] rt(3,4) [OF g(1)] write_map_blk [OF c(2) that] g(6) by simp
  qed
  moreover have "content u ?d ?st = head_image s (content s ?d ?st)" "disk_block (vio u) ?st = head_image s (content s ?d ?st)"
    using ru(3,4) [OF c(8)] st by simp_all
  moreover have "keeps_used s u" by (rule keeps_used_trans [OF t(3) u(3) t(4)])
  ultimately have "logged p s u"
    using ru(2) bio_step_trans [OF rt(1) ru(1)] u(4) t(4) by (simp add: logged_def)
  then show ?thesis using that t(1) u(1) by (simp add: write_log_def log_len_with_held)
qed

lemma install_prefix:
  assumes "committable p s" "logged p s t" "k \<le> log_len s"
  obtains u where "install_trans_loop [0..<k] False (with_held {} t) = Ret () (with_held {} u)"
    "rewritten p (log_dev s) (\<lambda>m. map_option (\<lambda>i. content s (log_dev s) m) (find (\<lambda>i. log_lh_block s i = m) [0..<k])) t u"
    "\<forall>c < NBUF. refs u c = (if \<exists>i < k. holds s (log_dev s) (log_lh_block s i) c then refs s c - 1 else refs s c)"
proof -
  let ?d = "log_dev s" and ?st = "log_start s"
  obtain c where c: "at_rest p ?d s" "log_ok (log_len s) s" "c < NBUF" "refs s c = 0" "log_len s \<le> LOGSIZE"
    "\<forall>i < log_len s. pinned ?d s (log_lh_block s i)"
    by (rule committableD [OF assms(1)])
  have t: "at_rest p ?d t" "bio_step s t" "keeps_used s t" "\<forall>c < NBUF. refs t c = refs s c"
      "i < log_len s \<Longrightarrow> content t ?d (log_blk s i) = content s ?d (log_lh_block s i)" for i
    using assms(2) by (auto simp: logged_def)
  note lt = bio_step_log [OF t(2)] log_ok_step [OF t(2)]
  obtain L L' where L: "store_ok ?d L s" "store_ok ?d L' t" using c(1) t(1) by (auto simp: at_rest_def)
  have pn: "pinned ?d t (log_lh_block s i)" if "i < log_len s" for i using pinned_refs [OF _ t(3) L t(4)] c(6) that by simp
  have hs: "holds t ?d (log_lh_block s i) c = holds s ?d (log_lh_block s i) c" if "i < log_len s" for i c
    using pinned_keeps [OF _ t(3) L] c(6) that by simp
  have "set [0..<k] \<subseteq> {..<log_len s}"
    "if False then two_free t else (\<exists>c < NBUF. refs t c = 0) \<and> (\<forall>i \<in> set [0..<k]. pinned ?d t (log_lh_block s i))"
    using c(3,4) t(4) pn assms(3) by auto
  then obtain u where u: "install_trans_loop [0..<k] False (with_held {} t) = Ret () (with_held {} u)"
    "rewritten p ?d (install_map t [0..<k]) t u"
    "\<forall>c < NBUF. refs u c = (if \<not> False \<and> (\<exists>i \<in> set [0..<k]. holds t ?d (log_lh_block s i) c) then refs t c - 1 else refs t c)"
    using install_loop [of p t "log_len s" "[0..<k]" False, unfolded lt, OF t(1) c(2) _ distinct_upt] by blast
  have im: "install_map t [0..<k] m = map_option (\<lambda>i. content s ?d (log_lh_block s i)) (find (\<lambda>i. log_lh_block s i = m) [0..<k])" for m
    by (rule install_map_find) (use t(5) assms(3) in \<open>simp_all add: lt\<close>)
  have "install_map t [0..<k] = (\<lambda>m. map_option (\<lambda>i. content s ?d m) (find (\<lambda>i. log_lh_block s i = m) [0..<k]))"
    unfolding im by (intro ext option.map_cong refl) (auto simp: find_Some_iff)
  moreover have "\<forall>c < NBUF. refs u c = (if \<exists>i < k. holds s ?d (log_lh_block s i) c then refs s c - 1 else refs s c)"
    using u(3) t(4) hs assms(3) by (simp add: Bex_def cong: conj_cong)
  ultimately show ?thesis using that u(1,2) by simp
qed

section \<open>Crashes\<close>

lemma unlogged_view:
  assumes "committable p s" "k \<le> log_len s" "rewritten p (log_dev s) (write_map s [0..<k]) s t"
    "head_len (disk_block (vio s) (log_start s)) = 0" "unat m < 2 ^ 31" "\<not> in_log (log_start s) m"
  shows "log_view (vio t) (log_start s) m = disk_block (vio s) m"
proof -
  obtain c where c: "log_ok (log_len s) s" "unat (log_start s) < 2 ^ 31" by (rule committableD [OF assms(1)])
  have "write_map s [0..<k] (log_start s) = None" "write_map s [0..<k] m = None"
    using write_map_out [OF c(1) assms(2)] assms(6) by simp_all
  then have "disk_block (vio t) (log_start s) = disk_block (vio s) (log_start s)" "disk_block (vio t) m = disk_block (vio s) m"
    using rewrittenD(4) [OF assms(3) c(2)] rewrittenD(4) [OF assms(3,5)] by simp_all
  then show ?thesis using assms(4) by (simp add: log_view_def)
qed

lemma home_not_start: "log_ok n s \<Longrightarrow> i < n \<Longrightarrow> log_lh_block s i \<noteq> log_start s"
  using log_ok_home [of n s i] in_log_start [of "log_start s"] by auto

lemma logged_view:
  assumes "committable p s" "logged p s t" "k \<le> log_len s"
    and u: "rewritten p (log_dev s) (\<lambda>m. map_option (\<lambda>i. content s (log_dev s) m) (find (\<lambda>i. log_lh_block s i = m) [0..<k])) t u"
    and m: "unat m < 2 ^ 31" "\<not> in_log (log_start s) m"
  shows "log_view (vio u) (log_start s) m = (if m \<in> homes s then content s (log_dev s) m else disk_block (vio s) m)"
proof -
  let ?d = "log_dev s" and ?st = "log_start s"
  obtain c where c: "log_ok (log_len s) s" "unat ?st < 2 ^ 31" "log_len s \<le> LOGSIZE" "length (content s ?d ?st) = BSIZE"
    by (rule committableD [OF assms(1)])
  have keep: "disk_block (vio u) b = disk_block (vio t) b" if "unat b < 2 ^ 31" "\<forall>i < k. log_lh_block s i \<noteq> b" for b
  proof -
    have "find (\<lambda>i. log_lh_block s i = b) [0..<k] = None" using that(2) by (auto simp: find_None_iff)
    then show ?thesis using rewrittenD(4) [OF u that(1)] by simp
  qed
  have "\<forall>i < k. log_lh_block s i \<noteq> ?st" using home_not_start [OF c(1)] assms(3) by simp
  then have h: "disk_block (vio u) ?st = head_image s (content s ?d ?st)" using keep [OF c(2)] assms(2) by (simp add: logged_def)
  have hl: "head_len (head_image s x) = log_len s" "i < log_len s \<Longrightarrow> head_home (head_image s x) i = log_lh_block s i"
    if "x = content s ?d ?st" for x i
    using head_image_get [of x s] c(3,4) that by (simp_all add: head_len_def head_home_def log_len_def)
  have "find (\<lambda>i. head_home (disk_block (vio u) ?st) i = m) [0..<head_len (disk_block (vio u) ?st)] =
      find (\<lambda>i. log_lh_block s i = m) [0..<log_len s]"
    unfolding h hl(1) [OF refl] by (rule find_cong) (simp_all add: hl(2))
  note v = log_view_def [of "vio u" ?st m, unfolded this]
  show ?thesis
  proof (cases "find (\<lambda>i. log_lh_block s i = m) [0..<log_len s]")
    case None
    then have "m \<notin> homes s" "\<forall>i < k. log_lh_block s i \<noteq> m" using assms(3) by (auto simp: find_None_iff homes_def)
    with None v keep [OF m(1)] m assms(2) show ?thesis by (simp add: logged_def)
  next
    case (Some i)
    then have i: "i < log_len s" "log_lh_block s i = m" "m \<in> homes s" "i < LOGSIZE" using c(3) by (auto simp: find_Some_iff homes_def)
    have "\<forall>j < k. log_lh_block s j \<noteq> log_blk s i" using log_ok_blocks(4) [OF c(1) _ i(4)] assms(3) by simp
    then have "disk_block (vio u) (log_blk s i) = content s ?d m"
      using keep [OF log_ok_blocks(1) [OF c(1) i(1,4)]] assms(2) i by (simp add: logged_def)
    with Some v i(3) show ?thesis by (simp add: log_blk_def)
  qed
qed

lemma clear_logged:
  assumes "committable p s" "logged p s t"
  obtains u s' where "install_trans_loop [0..<log_len s] False (with_held {} t) = Ret () (with_held {} u)"
    "write_head (with_held {} u\<lparr>log_lh_n := 0\<rparr>) = Ret () (with_held {} s')" "at_rest p (log_dev s) s'" "log_len s' = 0"
    "\<forall>m. unat m < 2 ^ 31 \<and> \<not> in_log (log_start s) m \<longrightarrow> content s' (log_dev s) m = content s (log_dev s) m \<and>
       disk_block (vio s') m = (if m \<in> homes s then content s (log_dev s) m else disk_block (vio s) m)"
    "head_len (disk_block (vio s') (log_start s)) = 0"
    "\<forall>c < NBUF. refs s' c = (if \<exists>m \<in> homes s. holds s (log_dev s) m c then refs s c - 1 else refs s c)"
proof -
  let ?d = "log_dev s" and ?st = "log_start s" and ?n = "log_len s"
  let ?f = "\<lambda>m. map_option (\<lambda>i. content s ?d m) (find (\<lambda>i. log_lh_block s i = m) [0..<?n])"
  obtain c where c: "at_rest p ?d s" "log_ok ?n s" "c < NBUF" "refs s c = 0" "?n \<le> LOGSIZE"
    "\<forall>i < ?n. pinned ?d s (log_lh_block s i)" "length (content s ?d ?st) = BSIZE" "unat ?st < 2 ^ 31"
    by (rule committableD [OF assms(1)])
  obtain L where L: "store_ok ?d L s" using c(1) by (auto simp: at_rest_def)
  obtain u where u: "install_trans_loop [0..<?n] False (with_held {} t) = Ret () (with_held {} u)" "rewritten p ?d ?f t u"
    "\<forall>c < NBUF. refs u c = (if \<exists>i < ?n. holds s ?d (log_lh_block s i) c then refs s c - 1 else refs s c)"
    by (rule install_prefix [OF assms order_refl])
  have t: "bio_step s t" using assms(2) by (simp add: logged_def)
  note ru = rewrittenD [OF u(2)]
  note lu = bio_step_log [OF bio_step_trans [OF t ru(1)]]
  have "\<not> holds s ?d (log_lh_block s i) c" if "i < ?n" for i
    using c(4,6) that holds_unique [OF store_okD(3,5) [OF L]] by (auto simp: pinned_def)
  then have cu: "at_rest p (log_dev u) u" "unat (log_start u) < 2 ^ 31" "refs u c = 0" using ru(2) c(3,4,8) u(3) by (auto simp: lu)
  obtain s' where s': "write_head (with_held {} u\<lparr>log_lh_n := 0\<rparr>) = Ret () (with_held {} s')"
    "rewritten p (log_dev u) [log_start u \<mapsto> put32 0 0 (content u (log_dev u) (log_start u))] (u\<lparr>log_lh_n := 0\<rparr>) s'"
    "keeps_used u s'" "\<forall>c < NBUF. refs s' c = refs u c"
    by (rule clear_head [OF cu(1,2) c(3) cu(3)])
  note rs = rewrittenD [OF s'(2), unfolded lu]
  have "?f ?st = None" using home_not_start [OF c(2)] by (auto simp: find_None_iff)
  then have "length (content u ?d ?st) = BSIZE"
    using ru(3) [OF c(8)] assms(2) head_image_get(1) [OF c(7,5)] by (simp add: logged_def)
  then have "head_len (disk_block (vio s') ?st) = 0" using rs(4) [OF c(8)] by (simp add: head_len_zero)
  moreover have "log_len s' = 0" using bio_step_log(8) [OF rs(1)] by (simp add: log_len_def)
  moreover have "content s' ?d m = content s ?d m \<and> disk_block (vio s') m = (if m \<in> homes s then content s ?d m else disk_block (vio s) m)"
    if m: "unat m < 2 ^ 31" "\<not> in_log ?st m" for m
  proof -
    have "m \<in> homes s \<longleftrightarrow> find (\<lambda>i. log_lh_block s i = m) [0..<?n] \<noteq> None" by (auto simp: find_None_iff homes_def)
    moreover have "content t ?d m = content s ?d m" "disk_block (vio t) m = disk_block (vio s) m"
      using assms(2) m by (auto simp: logged_def)
    moreover have "m \<noteq> ?st" using m(2) in_log_start by auto
    ultimately show ?thesis using rs(3,4) [OF m(1)] ru(3,4) [OF m(1)] by auto
  qed
  moreover have "\<forall>c < NBUF. refs s' c = (if \<exists>m \<in> homes s. holds s ?d m c then refs s c - 1 else refs s c)"
    using s'(4) u(3) by (auto simp: homes_def)
  ultimately show ?thesis using that [OF u(1) s'(1) rs(2)] by blast
qed

lemma commit_done:
  assumes "committable p s"
  shows "\<exists>s'. commit (with_held {} s) = Ret () (with_held {} s') \<and> at_rest p (log_dev s) s' \<and> log_len s' = 0 \<and>
    head_len (disk_block (vio s') (log_start s)) = (if log_len s = 0 then head_len (disk_block (vio s) (log_start s)) else 0) \<and>
    (\<forall>m. unat m < 2 ^ 31 \<and> \<not> in_log (log_start s) m \<longrightarrow> content s' (log_dev s) m = content s (log_dev s) m \<and>
       disk_block (vio s') m = (if m \<in> homes s then content s (log_dev s) m else disk_block (vio s) m)) \<and>
    (\<forall>c < NBUF. refs s' c = (if \<exists>m \<in> homes s. holds s (log_dev s) m c then refs s c - 1 else refs s c))"
proof (cases "0 <s log_lh_n s")
  case True
  obtain t u where u: "write_log (with_held {} s) = Ret () (with_held {} t)" "write_head (with_held {} t) = Ret () (with_held {} u)"
    "logged p s u" by (rule write_log_head [OF assms])
  obtain v s' where s': "install_trans_loop [0..<log_len s] False (with_held {} u) = Ret () (with_held {} v)"
    "write_head (with_held {} v\<lparr>log_lh_n := 0\<rparr>) = Ret () (with_held {} s')" "at_rest p (log_dev s) s'" "log_len s' = 0"
    "\<forall>m. unat m < 2 ^ 31 \<and> \<not> in_log (log_start s) m \<longrightarrow> content s' (log_dev s) m = content s (log_dev s) m \<and>
       disk_block (vio s') m = (if m \<in> homes s then content s (log_dev s) m else disk_block (vio s) m)"
    "head_len (disk_block (vio s') (log_start s)) = 0"
    "\<forall>c < NBUF. refs s' c = (if \<exists>m \<in> homes s. holds s (log_dev s) m c then refs s c - 1 else refs s c)"
    by (rule clear_logged [OF assms u(3)])
  have "log_len u = log_len s" using u(3) bio_step_log(8) by (auto simp: logged_def)
  then have "commit (with_held {} s) = Ret () (with_held {} s')"
    using True u(1,2) s'(1,2) by (simp add: commit_def with_held_log install_trans_def log_len_with_held)
  moreover have "log_len s \<noteq> 0" using True by (auto simp: log_len_def word_sless_alt unat_eq_zero)
  ultimately show ?thesis using s'(3-7) by (intro exI [of _ s'] conjI) simp_all
next
  case False
  then have n: "log_len s = 0" by (simp add: log_len_def word_sless_alt)
  have "at_rest p (log_dev s) s" using assms by (simp add: committable_def)
  with False n show ?thesis by (intro exI [of _ s]) (simp add: commit_def with_held_log homes_def)
qed

section \<open>Properties\<close>

text \<open>
  C11: \<open>recover_from_log\<close>, run after a reboot when no buffer is in use, returns; it leaves in every block
  outside the header what the log says belongs there (the logged copy for a block the header lists, its old
  content otherwise) and empties the log.
\<close>

theorem recover_from_log_installs:
  assumes "at_rest p (log_dev s) s" "\<forall>b < NBUF. refs s b = 0" "head_ok (log_start s) (disk_block (vio s) (log_start s))"
  shows "\<exists>s'. recover_from_log (with_held {} s) = Ret () (with_held {} s') \<and> at_rest p (log_dev s) s' \<and> log_lh_n s' = 0 \<and>
    head_len (disk_block (vio s') (log_start s)) = 0 \<and>
    (\<forall>m. unat m < 2 ^ 31 \<and> m \<noteq> log_start s \<longrightarrow> disk_block (vio s') m = log_view (vio s) (log_start s) m)"
  by (rule recover_done [OF assms]) blast

text \<open>
  C10: \<open>commit\<close> returns with an empty log, in memory and, when there was a transaction to write, in the header
  on the disk; on the disk every block of the transaction has the content it has in the cache, every other
  block outside the log is what it was, and each logged buffer loses the reference that pinned it.
\<close>

theorem commit_writes_transaction:
  assumes "committable p s"
  shows "\<exists>s'. commit (with_held {} s) = Ret () (with_held {} s') \<and> at_rest p (log_dev s) s' \<and> log_len s' = 0 \<and>
    head_len (disk_block (vio s') (log_start s)) = (if log_len s = 0 then head_len (disk_block (vio s) (log_start s)) else 0) \<and>
    (\<forall>m. unat m < 2 ^ 31 \<and> \<not> in_log (log_start s) m \<longrightarrow> content s' (log_dev s) m = content s (log_dev s) m \<and>
       disk_block (vio s') m = (if m \<in> homes s then content s (log_dev s) m else disk_block (vio s) m)) \<and>
    (\<forall>c < NBUF. refs s' c = (if \<exists>m \<in> homes s. holds s (log_dev s) m c then refs s c - 1 else refs s c))"
  by (rule commit_done [OF assms])

lemma write_log_loop_append: "write_log_loop (xs @ ys) = (\<lambda>s. bnd (write_log_loop xs s) (\<lambda>_. write_log_loop ys))"
  by (induction xs) (rule ext, simp add: bnd_assoc Let_def if_distrib [of "\<lambda>x. bnd x f" for f] cong: if_cong)+

lemma install_trans_loop_append:
  "install_trans_loop (xs @ ys) r = (\<lambda>s. bnd (install_trans_loop xs r s) (\<lambda>_. install_trans_loop ys r))"
  by (induction xs) (rule ext, simp add: bnd_assoc Let_def if_distrib [of "\<lambda>x. bnd x f" for f] cong: if_cong)+

lemma upto_split: "k \<le> n \<Longrightarrow> [0..<n] = [0..<k] @ [k..<n]"
  using upt_add_eq_append [of 0 k "n - k"] by simp

lemma write_map_other:
  assumes "rewritten p (log_dev s) (write_map s [0..<k]) s t" "unat m < 2 ^ 31" "m \<notin> log_blk s ` {..<k}"
  shows "disk_block (vio t) m = disk_block (vio s) m"
proof -
  have "write_map s [0..<k] m = None" using assms(3) by (auto simp: write_map_def map_of_eq_None_iff)
  then show ?thesis using rewrittenD(4) [OF assms(1,2)] by simp
qed

text \<open>The states \<open>commit\<close> passes through while it writes the log, and while it installs.\<close>

lemma commit_at_write:
  assumes "committable p s" "k \<le> log_len s" "0 <s log_lh_n s"
  obtains t where "write_log_loop [0..<k] (with_held {} s) = Ret () (with_held {} t)"
    "rewritten p (log_dev s) (write_map s [0..<k]) s t"
    "commit (with_held {} s) = bnd (write_log_loop [k..<log_len s] (with_held {} t)) (\<lambda>_ s. bnd (write_head s) (\<lambda>_ s.
        bnd (install_trans False s) (\<lambda>_ s. write_head (s\<lparr>log_lh_n := 0\<rparr>))))"
proof -
  obtain t where t: "write_log_loop [0..<k] (with_held {} s) = Ret () (with_held {} t)"
    "rewritten p (log_dev s) (write_map s [0..<k]) s t" by (rule write_log_prefix [OF assms(1,2)])
  have "write_log (with_held {} s) = write_log_loop [k..<log_len s] (with_held {} t)"
    using t(1) by (simp add: write_log_def log_len_with_held upto_split [OF assms(2)] write_log_loop_append)
  then show ?thesis using that t assms(3) by (simp add: commit_def with_held_log)
qed

lemma commit_at_install:
  assumes "committable p s" "k \<le> log_len s" "0 <s log_lh_n s"
  shows "\<exists>r u v. write_log (with_held {} s) = Ret () (with_held {} r) \<and> write_head (with_held {} r) = Ret () (with_held {} u) \<and>
      install_trans_loop [0..<k] False (with_held {} u) = Ret () (with_held {} v) \<and>
      commit (with_held {} s) = bnd (install_trans_loop [k..<log_len s] False (with_held {} v)) (\<lambda>_ s. write_head (s\<lparr>log_lh_n := 0\<rparr>)) \<and>
      (\<forall>m. unat m < 2 ^ 31 \<and> \<not> in_log (log_start s) m \<longrightarrow>
         disk_block (vio v) m = (if m \<in> log_lh_block s ` {..<k} then content s (log_dev s) m else disk_block (vio s) m) \<and>
         log_view (vio v) (log_start s) m = (if m \<in> homes s then content s (log_dev s) m else disk_block (vio s) m))"
proof -
  obtain t u where u: "write_log (with_held {} s) = Ret () (with_held {} t)" "write_head (with_held {} t) = Ret () (with_held {} u)"
    "logged p s u" by (rule write_log_head [OF assms(1)])
  obtain v where v: "install_trans_loop [0..<k] False (with_held {} u) = Ret () (with_held {} v)"
    "rewritten p (log_dev s) (\<lambda>m. map_option (\<lambda>i. content s (log_dev s) m) (find (\<lambda>i. log_lh_block s i = m) [0..<k])) u v"
    by (rule install_prefix [OF assms(1) u(3) assms(2)])
  have "log_len u = log_len s" using u(3) bio_step_log(8) by (auto simp: logged_def)
  then have "install_trans False (with_held {} u) = install_trans_loop [k..<log_len s] False (with_held {} v)"
    using v(1) by (simp add: install_trans_def log_len_with_held upto_split [OF assms(2)] install_trans_loop_append)
  then have c: "commit (with_held {} s) = bnd (install_trans_loop [k..<log_len s] False (with_held {} v)) (\<lambda>_ s. write_head (s\<lparr>log_lh_n := 0\<rparr>))"
    using assms(3) u(1,2) by (simp add: commit_def with_held_log)
  have d: "disk_block (vio v) m = (if m \<in> log_lh_block s ` {..<k} then content s (log_dev s) m else disk_block (vio s) m)"
    if m: "unat m < 2 ^ 31" "\<not> in_log (log_start s) m" for m
  proof -
    have "m \<in> log_lh_block s ` {..<k} \<longleftrightarrow> find (\<lambda>i. log_lh_block s i = m) [0..<k] \<noteq> None" by (auto simp: find_None_iff)
    moreover have "disk_block (vio u) m = disk_block (vio s) m" using u(3) m by (auto simp: logged_def)
    ultimately show ?thesis using rewrittenD(4) [OF v(2) m(1)] by auto
  qed
  show ?thesis
    by (intro exI conjI allI impI, rule u(1), rule u(2), rule v(1), rule c)
      (use d logged_view [OF assms(1) u(3) assms(2) v(2)] in auto)
qed

text \<open>
  C9: A crash during \<open>commit\<close> never leaves half a transaction.  \<open>commit\<close> passes through the state \<open>t\<close> that the
  first \<open>k\<close> rounds of \<open>write_log\<close> leave, in which only \<open>k\<close> blocks of the log differ on the disk and recovery finds the
  old content of every block; then through the state \<open>v\<close> that \<open>write_log\<close>, \<open>write_head\<close> and the first \<open>k\<close> rounds of
  \<open>install_trans\<close> leave, in which the first \<open>k\<close> blocks of the transaction are at home and recovery finds the new
  content of all of them; and so it does when \<open>commit\<close> has returned.
\<close>

theorem commit_crash_atomic:
  assumes "committable p s" "head_len (disk_block (vio s) (log_start s)) = 0" "k \<le> log_len s" "0 <s log_lh_n s"
  shows "(\<exists>t. write_log_loop [0..<k] (with_held {} s) = Ret () (with_held {} t) \<and>
      commit (with_held {} s) = bnd (write_log_loop [k..<log_len s] (with_held {} t)) (\<lambda>_ s. bnd (write_head s) (\<lambda>_ s.
        bnd (install_trans False s) (\<lambda>_ s. write_head (s\<lparr>log_lh_n := 0\<rparr>)))) \<and>
      (\<forall>m. unat m < 2 ^ 31 \<and> m \<notin> log_blk s ` {..<k} \<longrightarrow> disk_block (vio t) m = disk_block (vio s) m) \<and>
      (\<forall>m. unat m < 2 ^ 31 \<and> \<not> in_log (log_start s) m \<longrightarrow> log_view (vio t) (log_start s) m = disk_block (vio s) m)) \<and>
    (\<exists>r u v. write_log (with_held {} s) = Ret () (with_held {} r) \<and> write_head (with_held {} r) = Ret () (with_held {} u) \<and>
      install_trans_loop [0..<k] False (with_held {} u) = Ret () (with_held {} v) \<and>
      commit (with_held {} s) = bnd (install_trans_loop [k..<log_len s] False (with_held {} v)) (\<lambda>_ s. write_head (s\<lparr>log_lh_n := 0\<rparr>)) \<and>
      (\<forall>m. unat m < 2 ^ 31 \<and> \<not> in_log (log_start s) m \<longrightarrow>
         disk_block (vio v) m = (if m \<in> log_lh_block s ` {..<k} then content s (log_dev s) m else disk_block (vio s) m) \<and>
         log_view (vio v) (log_start s) m = (if m \<in> homes s then content s (log_dev s) m else disk_block (vio s) m))) \<and>
    (\<exists>s'. commit (with_held {} s) = Ret () (with_held {} s') \<and>
      (\<forall>m. unat m < 2 ^ 31 \<and> \<not> in_log (log_start s) m \<longrightarrow>
         log_view (vio s') (log_start s) m = (if m \<in> homes s then content s (log_dev s) m else disk_block (vio s) m)))"
proof (intro conjI)
  show "\<exists>t. write_log_loop [0..<k] (with_held {} s) = Ret () (with_held {} t) \<and>
      commit (with_held {} s) = bnd (write_log_loop [k..<log_len s] (with_held {} t)) (\<lambda>_ s. bnd (write_head s) (\<lambda>_ s.
        bnd (install_trans False s) (\<lambda>_ s. write_head (s\<lparr>log_lh_n := 0\<rparr>)))) \<and>
      (\<forall>m. unat m < 2 ^ 31 \<and> m \<notin> log_blk s ` {..<k} \<longrightarrow> disk_block (vio t) m = disk_block (vio s) m) \<and>
      (\<forall>m. unat m < 2 ^ 31 \<and> \<not> in_log (log_start s) m \<longrightarrow> log_view (vio t) (log_start s) m = disk_block (vio s) m)"
    by (rule commit_at_write [OF assms(1,3,4)])
      (use unlogged_view [OF assms(1,3) _ assms(2)] write_map_other in blast)
  show "\<exists>r u v. write_log (with_held {} s) = Ret () (with_held {} r) \<and> write_head (with_held {} r) = Ret () (with_held {} u) \<and>
      install_trans_loop [0..<k] False (with_held {} u) = Ret () (with_held {} v) \<and>
      commit (with_held {} s) = bnd (install_trans_loop [k..<log_len s] False (with_held {} v)) (\<lambda>_ s. write_head (s\<lparr>log_lh_n := 0\<rparr>)) \<and>
      (\<forall>m. unat m < 2 ^ 31 \<and> \<not> in_log (log_start s) m \<longrightarrow>
         disk_block (vio v) m = (if m \<in> log_lh_block s ` {..<k} then content s (log_dev s) m else disk_block (vio s) m) \<and>
         log_view (vio v) (log_start s) m = (if m \<in> homes s then content s (log_dev s) m else disk_block (vio s) m))"
    by (rule commit_at_install [OF assms(1,3,4)])
  show "\<exists>s'. commit (with_held {} s) = Ret () (with_held {} s') \<and>
      (\<forall>m. unat m < 2 ^ 31 \<and> \<not> in_log (log_start s) m \<longrightarrow>
         log_view (vio s') (log_start s) m = (if m \<in> homes s then content s (log_dev s) m else disk_block (vio s) m))"
    using commit_done [OF assms(1)] assms(4) by (auto simp: log_view_def log_len_def word_sless_alt)
qed

section \<open>Witnesses\<close>

text \<open>
  A transaction of one block: buffer 5 holds block 46 with new content, pinned.  \<open>demo_crash\<close> is the disk of a
  machine that stopped after the header for this transaction was written.
\<close>

definition demo_commit :: log_state where
  "demo_commit = disk_state.extend
     (upd_vio (\<lambda>v. v\<lparr>v_sectors := \<lambda>_. replicate 512 0, b_data := (b_data v)(5 := replicate 1024 7)\<rparr>)
       (upd_buf 5 (\<lambda>x. x\<lparr>b_dev := 1, b_blockno := 46, b_valid := 1, b_refcnt := 1\<rparr>) demo_disk))
     (log_state.fields 2 30 0 1 1 1 (\<lambda>_. 46))"

definition demo_crash :: log_state where
  "demo_crash = disk_state.extend
     (upd_vio (\<lambda>v. v\<lparr>v_sectors := (\<lambda>_. replicate 512 0)(4 := [1, 0, 0, 0, 46, 0, 0, 0] @ replicate 504 0,
         6 := replicate 512 7, 7 := replicate 512 7)\<rparr>) demo_disk)
     (log_state.fields 2 30 0 0 1 0 (\<lambda>_. 0))"

lemmas demo_log_defs = demo_commit_def demo_crash_def disk_state.defs log_state.defs

lemma extend_kernel: "in_kernel p (disk_state.extend s l) = in_kernel p s"
  by (simp add: disk_state.defs in_kernel_def lock_free_def mlfq_good_def mlfq_ok_def mlfq_list_def level_of_def)

lemma in_kernel_upd_vio: "in_kernel p (upd_vio f s) = in_kernel p s"
  by (simp add: upd_vio_def in_kernel_def)

lemma demo_log_kernel: "in_kernel 1 demo_commit" "in_kernel 1 demo_crash"
  using demo_disk_kernel by (simp_all add: demo_commit_def demo_crash_def extend_kernel in_kernel_upd_vio)

lemma demo_log_idle: "disk_idle demo_commit" "disk_idle demo_crash"
  using demo_disk_idle by (simp_all add: disk_idle_def demo_log_defs upd_buf_def upd_vio_def)

lemma demo_log_rest: "at_rest 1 1 demo_commit" "at_rest 1 1 demo_crash"
proof -
  have "bcache_list (rev [0..<NBUF]) demo_commit = bcache_list (rev [0..<NBUF]) demo_disk"
    "bcache_list (rev [0..<NBUF]) demo_crash = bcache_list (rev [0..<NBUF]) demo_disk"
    by (rule bcache_list_cong; simp add: demo_log_defs upd_vio_def upd_buf_def)+
  moreover have "one_copy demo_commit" "one_copy demo_crash"
    by (auto simp: one_copy_def cached_def demo_log_defs demo_disk_defs upd_vio_def upd_buf_def)
  ultimately have b: "bcache_ok (rev [0..<NBUF]) demo_commit" "bcache_ok (rev [0..<NBUF]) demo_crash"
    using demo_disk_list by (simp_all add: bcache_ok_def)
  have "sl_locked (sleeplocks demo_disk (BufSL c)) = 0" for c
    by (simp add: demo_disk_defs demo_pipe_def demo_sl_def proc_state.defs sync_state.defs)
  then show "at_rest 1 1 demo_commit" "at_rest 1 1 demo_crash"
    using b demo_log_idle demo_log_kernel
    by (auto simp: at_rest_def store_ok_def clean_def demo_log_defs demo_disk_defs upd_vio_def upd_buf_def intro!: exI [of _ "rev [0..<NBUF]"])
qed

lemma demo_commit_sel:
  "log_dev demo_commit = 1" "log_start demo_commit = 2" "log_len demo_commit = 1" "log_lh_block demo_commit i = 46"
  "holds demo_commit 1 n c \<longleftrightarrow> c = 5 \<and> n = 46" "refs demo_commit 5 = 1" "refs demo_commit 0 = 0"
  "disk_block (vio demo_commit) n = replicate 1024 0"
proof -
  show "disk_block (vio demo_commit) n = replicate 1024 0"
    by (simp add: demo_log_defs disk_block_def upd_vio_def replicate_add [symmetric])
qed (auto simp: demo_log_defs demo_disk_defs log_len_def holds_def cached_def upd_vio_def upd_buf_def NBUF_def MAXOPBLOCKS_def)

lemma demo_commit_content: "content demo_commit 1 n = (if n = 46 then replicate 1024 7 else replicate 1024 0)"
proof (cases "n = 46")
  case True
  obtain L where "store_ok 1 L demo_commit" using demo_log_rest(1) by (auto simp: at_rest_def)
  note o = store_okD(3,5) [OF this]
  show ?thesis using content_holds [OF o, of 46 5] True demo_commit_sel(5) by (simp add: demo_log_defs upd_vio_def)
next
  case False
  then show ?thesis using content_disk [of demo_commit 1 n] demo_commit_sel(5,8) by simp
qed

lemma demo_commit_homes: "homes demo_commit = {46}"
  by (auto simp: homes_def demo_commit_sel)

lemma demo_committable: "committable 1 demo_commit"
proof -
  have "\<exists>c < NBUF. refs demo_commit c = 0" "\<exists>c < NBUF. holds demo_commit 1 46 c \<and> refs demo_commit c \<noteq> 0"
    using demo_commit_sel(5-7) by (auto simp: NBUF_def MAXOPBLOCKS_def intro: exI [of _ 0])
  then show ?thesis
    using demo_log_rest(1) demo_commit_content
    by (simp add: committable_def demo_commit_sel log_ok_def pinned_def LOGSIZE_def MAXOPBLOCKS_def BSIZE_def lessThan_Suc)
qed

theorem commit_writes_transaction_witness:
  "committable 1 demo_commit \<and> (\<exists>s'. commit (with_held {} demo_commit) = Ret () (with_held {} s') \<and> log_len s' = 0 \<and>
    head_len (disk_block (vio s') 2) = 0 \<and>
    disk_block (vio s') 46 = replicate 1024 7 \<and> disk_block (vio s') 47 = replicate 1024 0 \<and> refs s' 5 = 0)"
proof -
  obtain s' where s': "commit (with_held {} demo_commit) = Ret () (with_held {} s')" "log_len s' = 0"
    "head_len (disk_block (vio s') 2) = 0"
    "\<forall>m. unat m < 2 ^ 31 \<and> \<not> in_log 2 m \<longrightarrow> content s' 1 m = content demo_commit 1 m \<and>
       disk_block (vio s') m = (if m \<in> homes demo_commit then content demo_commit 1 m else disk_block (vio demo_commit) m)"
    "\<forall>c < NBUF. refs s' c = (if \<exists>m \<in> homes demo_commit. holds demo_commit 1 m c then refs demo_commit c - 1 else refs demo_commit c)"
    using commit_writes_transaction [OF demo_committable] unfolding demo_commit_sel(1-3) by auto
  have "disk_block (vio s') 46 = replicate 1024 7" "disk_block (vio s') 47 = replicate 1024 0"
    using s'(4) [rule_format, of 46] s'(4) [rule_format, of 47]
    by (simp_all add: demo_commit_homes demo_commit_content demo_commit_sel in_log_def LOGSIZE_def MAXOPBLOCKS_def)
  moreover have "refs s' 5 = 0" using s'(5) [rule_format, of 5] by (simp add: demo_commit_homes demo_commit_sel NBUF_def MAXOPBLOCKS_def)
  ultimately show ?thesis using demo_committable s'(1-3) by blast
qed

theorem commit_crash_atomic_witness:
  "head_len (disk_block (vio demo_commit) 2) = 0 \<and>
   (\<exists>r u v. write_log (with_held {} demo_commit) = Ret () (with_held {} r) \<and> write_head (with_held {} r) = Ret () (with_held {} u) \<and>
      install_trans_loop [0..<0] False (with_held {} u) = Ret () (with_held {} v) \<and> disk_block (vio v) 46 = replicate 1024 0 \<and>
      log_view (vio v) 2 46 = replicate 1024 7 \<and> log_view (vio v) 2 47 = replicate 1024 0)"
proof -
  have z: "head_len (disk_block (vio demo_commit) 2) = 0" by (simp add: demo_commit_sel head_len_def get32_def get_le_def)
  have o: "unat (46 :: u32) < 2 ^ 31 \<and> \<not> in_log 2 46" "unat (47 :: u32) < 2 ^ 31 \<and> \<not> in_log 2 47"
    by (simp_all add: in_log_def LOGSIZE_def MAXOPBLOCKS_def)
  have n: "0 <s log_lh_n demo_commit" by (simp add: demo_log_defs word_sless_alt)
  obtain r u v where v: "write_log (with_held {} demo_commit) = Ret () (with_held {} r)" "write_head (with_held {} r) = Ret () (with_held {} u)"
    "install_trans_loop [0..<0] False (with_held {} u) = Ret () (with_held {} v)"
    "\<forall>m. unat m < 2 ^ 31 \<and> \<not> in_log 2 m \<longrightarrow>
      disk_block (vio v) m = (if m \<in> log_lh_block demo_commit ` {..<0} then content demo_commit 1 m else disk_block (vio demo_commit) m) \<and>
      log_view (vio v) 2 m = (if m \<in> homes demo_commit then content demo_commit 1 m else disk_block (vio demo_commit) m)"
    using commit_crash_atomic [OF demo_committable, unfolded demo_commit_sel(1-3), OF z le0 n] by blast
  show ?thesis using z v(1-3) v(4) [rule_format, OF o(1)] v(4) [rule_format, OF o(2)]
    by (auto simp: demo_commit_homes demo_commit_content demo_commit_sel(8))
qed

lemma demo_crash_sel:
  "log_dev demo_crash = 1" "log_start demo_crash = 2" "refs demo_crash c = 0"
  "disk_block (vio demo_crash) 2 = [1, 0, 0, 0, 46, 0, 0, 0] @ replicate 1016 0" "disk_block (vio demo_crash) 3 = replicate 1024 7"
  "disk_block (vio demo_crash) 47 = replicate 1024 0"
  by (simp_all add: demo_log_defs demo_disk_defs upd_vio_def disk_block_def block_sector_def BSIZE_def replicate_add [symmetric])

lemma get32_bytes:
  "get32 off bs = of_nat (unat (bs ! off) + unat (bs ! (off + 1)) * 256 + unat (bs ! (off + 2)) * 65536 + unat (bs ! (off + 3)) * 16777216)"
  by (simp add: get32_def get_le_def lessThan_nat_numeral lessThan_Suc)

lemma demo_crash_head: "head_len (disk_block (vio demo_crash) 2) = 1" "head_home (disk_block (vio demo_crash) 2) 0 = 46"
  by (simp_all add: demo_crash_sel head_len_def head_home_def get32_bytes)

theorem recover_from_log_installs_witness:
  "\<exists>s'. recover_from_log (with_held {} demo_crash) = Ret () (with_held {} s') \<and> log_lh_n s' = 0 \<and>
    disk_block (vio s') 46 = replicate 1024 7 \<and> disk_block (vio s') 47 = replicate 1024 0"
proof -
  have h: "head_ok (log_start demo_crash) (disk_block (vio demo_crash) (log_start demo_crash))"
    using demo_crash_head by (simp add: head_ok_def demo_crash_sel LOGSIZE_def MAXOPBLOCKS_def BSIZE_def in_log_def lessThan_Suc)
  have "at_rest 1 (log_dev demo_crash) demo_crash" "\<forall>b < NBUF. refs demo_crash b = 0"
    using demo_log_rest(2) by (simp_all add: demo_crash_sel)
  from recover_from_log_installs [OF this h] obtain s' where
    s': "recover_from_log (with_held {} demo_crash) = Ret () (with_held {} s')" "log_lh_n s' = 0"
    "\<forall>m. unat m < 2 ^ 31 \<and> m \<noteq> 2 \<longrightarrow> disk_block (vio s') m = log_view (vio demo_crash) 2 m"
    unfolding demo_crash_sel(1,2) by blast
  have "log_view (vio demo_crash) 2 46 = replicate 1024 7" "log_view (vio demo_crash) 2 47 = replicate 1024 0"
    by (simp_all add: log_view_def demo_crash_head demo_crash_sel(5,6))
  with s' show ?thesis by (intro exI [of _ s']) simp
qed

end
