(* ===== verification/LogOps.thy ===== *)
theory LogOps
  imports LogCommit
begin

text \<open>
  How operations share the log: \<open>begin_op\<close> reserves \<open>MAXOPBLOCKS\<close> blocks for the operation, \<open>log_write\<close> uses
  the reservation only for a block the transaction does not contain yet.
\<close>

section \<open>Reservations\<close>

text \<open>\<open>B\<close> lists, for each operation in progress, the blocks it may still add to the log.\<close>

definition log_budget :: "nat list \<Rightarrow> 'a log_state_scheme \<Rightarrow> bool" where
  "log_budget B s \<longleftrightarrow> log_lh_n s = of_nat (log_len s) \<and> log_outstanding s = of_nat (length B) \<and>
     length B * MAXOPBLOCKS \<le> LOGSIZE \<and> (\<forall>x \<in> set B. x \<le> MAXOPBLOCKS) \<and> log_len s + sum_list B \<le> LOGSIZE"

lemma log_budgetD:
  assumes "log_budget B s"
  shows "log_lh_n s = of_nat (log_len s)" "log_outstanding s = of_nat (length B)" "length B \<le> 3" "log_len s \<le> 30"
    "log_len s + sum_list B \<le> 30"
  using assms by (simp_all add: log_budget_def LOGSIZE_def MAXOPBLOCKS_def)

lemma sum_list_bound: "\<forall>x \<in> set B. x \<le> (k :: nat) \<Longrightarrow> sum_list B \<le> length B * k"
  by (induction B) auto

lemma room_iff:
  assumes "log_budget B s"
  shows "of_nat LOGSIZE <s log_lh_n s + (log_outstanding s + 1) * of_nat MAXOPBLOCKS \<longleftrightarrow>
    LOGSIZE < log_len s + Suc (length B) * MAXOPBLOCKS"
proof -
  note b = log_budgetD [OF assms]
  have "log_lh_n s + (log_outstanding s + 1) * of_nat MAXOPBLOCKS = (of_nat (log_len s + Suc (length B) * MAXOPBLOCKS) :: i32)"
    unfolding b(1,2) by (simp add: algebra_simps)
  moreover have "log_len s + Suc (length B) * MAXOPBLOCKS < 2 ^ 31" "LOGSIZE < 2 ^ 31"
    using b(3,4) by (simp_all add: LOGSIZE_def MAXOPBLOCKS_def)
  ultimately show ?thesis by (simp only: of_nat_sless)
qed

lemma log_budget_begin:
  assumes "log_budget B s" "\<not> LOGSIZE < log_len s + Suc (length B) * MAXOPBLOCKS"
  shows "log_budget (MAXOPBLOCKS # B) (s\<lparr>log_outstanding := log_outstanding s + 1\<rparr>)"
  using assms sum_list_bound [of B MAXOPBLOCKS] by (auto simp: log_budget_def log_len_def)

section \<open>Adding a block\<close>

definition logged_blocks :: "'a log_state_scheme \<Rightarrow> u32 list" where
  "logged_blocks s = map (log_lh_block s) [0..<log_len s]"

lemma log_index_find: "log_index is n s = (case find (\<lambda>i. log_lh_block s i = n) is of Some i \<Rightarrow> i | None \<Rightarrow> log_len s)"
  by (induction "is") auto

lemma log_index_with_held: "log_index is n (with_held H s) = log_index is n s"
  by (simp add: log_index_find with_held_log log_len_with_held cong: option.case_cong)

lemma upd_buf_log [simp]: "log_lh_n (upd_buf b g s) = log_lh_n s" "log_lh_block (upd_buf b g s) = log_lh_block s"
  "log_outstanding (upd_buf b g s) = log_outstanding s"
  by (simp_all add: upd_buf_def)

lemma log_len_upd: "log_len (s\<lparr>log_lh_block := f\<rparr>) = log_len s" "log_len (upd_buf b g s) = log_len s"
  by (simp_all add: log_len_def)

lemma logged_find:
  "n \<notin> set (logged_blocks s) \<longleftrightarrow> find (\<lambda>i. log_lh_block s i = n) [0..<log_len s] = None"
  by (auto simp: find_None_iff logged_blocks_def)

lemma find_upto: "find P [0..<n] = Some i \<Longrightarrow> i < n \<and> P i"
  by (auto simp: find_Some_iff)

lemma log_index_cases:
  "n \<notin> set (logged_blocks s) \<Longrightarrow> log_index [0..<log_len s] n s = log_len s"
  "n \<in> set (logged_blocks s) \<Longrightarrow> log_index [0..<log_len s] n s < log_len s \<and> log_lh_block s (log_index [0..<log_len s] n s) = n"
  using logged_find [of n s] by (auto simp: log_index_find dest: find_upto)

section \<open>Properties\<close>

text \<open>
  C22: \<open>begin_op\<close> admits an operation when no commit is under way and the log has room for the blocks already
  logged and \<open>MAXOPBLOCKS\<close> more for every operation including the new one, and then reserves them; otherwise
  the caller sleeps on the log.
\<close>

theorem begin_op_reserves:
  assumes "in_kernel p s" "log_budget B s"
  shows "if log_committing s \<noteq> 0 \<or> LOGSIZE < log_len s + Suc (length B) * MAXOPBLOCKS
    then begin_op (with_held {} s) = Swtch (ResumeSleep LogLock (intr_get s))
      (with_held {ProcLock p} (upd_proc p (\<lambda>x. x\<lparr>p_chan := Some LogChan, p_state := SLEEPING\<rparr>) s))
    else begin_op (with_held {} s) = Ret () (with_held {} (s\<lparr>log_outstanding := log_outstanding s + 1\<rparr>)) \<and>
      log_budget (MAXOPBLOCKS # B) (s\<lparr>log_outstanding := log_outstanding s + 1\<rparr>)"
proof -
  note k = in_kernelD [OF assms(1)]
  have u: "user_locks {LogLock}" by (simp add: user_locks_def)
  note sl = sleep_with_held [OF k(1,2,5,3) u, of LogChan]
  have b: "begin_op (with_held {} s) = begin_op_loop (with_held {LogLock} s)" using k(3) by (simp add: begin_op_def acquire_with_held)
  have f: "lock_free LogLock (s\<lparr>log_outstanding := log_outstanding s + 1\<rparr>)" using k(3) by (simp add: lock_free_def)
  show ?thesis
  proof (cases "log_committing s \<noteq> 0 \<or> LOGSIZE < log_len s + Suc (length B) * MAXOPBLOCKS")
    case True
    then show ?thesis unfolding b using sl room_iff [OF assms(2)] by (subst begin_op_loop.simps) (auto simp: with_held_log)
  next
    case False
    then show ?thesis
      unfolding b using room_iff [OF assms(2)] log_budget_begin [OF assms(2)] f
      by (subst begin_op_loop.simps) (simp add: with_held_log release_last)
  qed
qed

lemma log_budget_use:
  assumes "log_budget B s" "i < length B" "0 < B ! i"
  shows "log_budget (B[i := B ! i - 1]) (s\<lparr>log_lh_n := log_lh_n s + 1\<rparr>)" "log_len (s\<lparr>log_lh_n := log_lh_n s + 1\<rparr>) = Suc (log_len s)"
    "log_len s < LOGSIZE"
proof -
  note b = log_budgetD [OF assms(1)]
  have "B ! i \<le> sum_list B" using assms(2) by (intro member_le_sum_list) simp_all
  then show n: "log_len s < LOGSIZE" using b(5) assms(3) by (simp add: LOGSIZE_def MAXOPBLOCKS_def)
  have "log_lh_n s + 1 = of_nat (Suc (log_len s))" using b(1) by simp
  moreover have "sint (of_nat (Suc (log_len s)) :: i32) = int (Suc (log_len s))"
    using b(4) by (intro sint_of_nat_small) simp
  ultimately have "nat (sint (log_lh_n s + 1)) = Suc (log_len s)" by (simp del: of_nat_Suc)
  then show l: "log_len (s\<lparr>log_lh_n := log_lh_n s + 1\<rparr>) = Suc (log_len s)" by (simp add: log_len_def)
  have "sum_list (B[i := B ! i - 1]) = sum_list B - 1" using assms(2,3) by (simp add: sum_list_update member_le_sum_list)
  then have "Suc (log_len s) + sum_list (B[i := B ! i - 1]) \<le> LOGSIZE"
    using assms(1) \<open>B ! i \<le> sum_list B\<close> assms(3) by (simp add: log_budget_def)
  moreover have "\<forall>x \<in> set (B[i := B ! i - 1]). x \<le> MAXOPBLOCKS"
  proof
    fix x assume "x \<in> set (B[i := B ! i - 1])"
    then have "x \<in> set B \<or> x = B ! i - 1" using set_update_subset_insert by fastforce
    then show "x \<le> MAXOPBLOCKS" using assms(1) nth_mem [OF assms(2)] by (auto simp: log_budget_def intro: le_trans [OF diff_le_self])
  qed
  ultimately show "log_budget (B[i := B ! i - 1]) (s\<lparr>log_lh_n := log_lh_n s + 1\<rparr>)"
    using assms(1) l by (simp add: log_budget_def)
qed

text \<open>The state after a block that is new to the transaction has been added.\<close>

definition log_pin :: "nat \<Rightarrow> u32 \<Rightarrow> 'a log_state_scheme \<Rightarrow> 'a log_state_scheme" where
  "log_pin b n s = (upd_buf b (\<lambda>x. x\<lparr>b_refcnt := b_refcnt x + 1\<rparr>)
     (s\<lparr>log_lh_block := (log_lh_block s)(log_len s := n)\<rparr>))\<lparr>log_lh_n := log_lh_n s + 1\<rparr>"

lemma log_write_done:
  assumes "in_kernel p s" "log_budget B s" "i < length B" "0 < B ! i" "log_lh_n s <s log_size s - 1" "n = b_blockno (bufs s b)"
  shows "log_write b (with_held {} s) = Ret () (with_held {} (if n \<in> set (logged_blocks s) then s else log_pin b n s))"
proof -
  note k = in_kernelD [OF assms(1)] and b = log_budgetD [OF assms(2)] and u = log_budget_use [OF assms(2-4)]
  let ?i = "log_index [0..<log_len s] n s"
  let ?s1 = "s\<lparr>log_lh_block := (log_lh_block s)(?i := n)\<rparr>"
  let ?s2 = "upd_buf b (\<lambda>x. x\<lparr>b_refcnt := b_refcnt x + 1\<rparr>) ?s1"
  have "\<not> of_nat LOGSIZE \<le>s log_lh_n s"
    using u(3) b(1) of_nat_sless [of "log_len s" LOGSIZE] by (simp add: LOGSIZE_def MAXOPBLOCKS_def not_sle)
  moreover have "\<not> log_size s - 1 \<le>s log_lh_n s" using assms(5) by (simp add: not_sle)
  moreover have "\<not> log_outstanding s <s 1" using b(2,3) assms(3) of_nat_sless [of "length B" 1] by auto
  ultimately have w: "log_write b (with_held {} s) =
      (if ?i = log_len s then Ret () (with_held {} (?s2\<lparr>log_lh_n := log_lh_n ?s2 + 1\<rparr>)) else Ret () (with_held {} ?s1))"
    using k(3) assms(6)
    by (simp add: log_write_def acquire_with_held with_held_log with_held_disk log_len_with_held Let_def bpin_def disk_op_with_held release_with_held
        log_index_with_held log_len_upd
        cong: if_cong)
  show ?thesis
  proof (cases "n \<in> set (logged_blocks s)")
    case True
    then have "?s1 = s" "?i \<noteq> log_len s" using log_index_cases(2) [of n s] by (auto simp: fun_upd_idem)
    then show ?thesis using w True by auto
  next
    case False
    then show ?thesis using w log_index_cases(1) [OF False] by (simp add: log_pin_def)
  qed
qed

lemma log_pin_done:
  assumes "log_budget B s" "i < length B" "0 < B ! i"
  shows "logged_blocks (log_pin b n s) = logged_blocks s @ [n]" "log_budget (B[i := B ! i - 1]) (log_pin b n s)"
proof -
  note u = log_budget_use [OF assms]
  have l: "log_len (log_pin b n s) = Suc (log_len s)" using u(2) by (simp add: log_len_def log_pin_def)
  show "logged_blocks (log_pin b n s) = logged_blocks s @ [n]" unfolding logged_blocks_def l by (simp add: log_pin_def)
  show "log_budget (B[i := B ! i - 1]) (log_pin b n s)" using u(1) by (simp add: log_budget_def log_len_def log_pin_def)
qed

text \<open>
  C23: \<open>log_write\<close> by an operation with reserved space, while the disk has room for the block, returns: a block
  the transaction contains is absorbed without effect; a new block is appended to the header, its buffer is
  pinned, and one reserved block is used.
\<close>

theorem log_write_absorbs:
  assumes "in_kernel p s" "log_budget B s" "i < length B" "0 < B ! i" "log_lh_n s <s log_size s - 1" "n = b_blockno (bufs s b)"
  shows "\<exists>s'. log_write b (with_held {} s) = Ret () (with_held {} s') \<and>
    (if n \<in> set (logged_blocks s) then s' = s
     else logged_blocks s' = logged_blocks s @ [n] \<and> log_budget (B[i := B ! i - 1]) s' \<and>
       bufs s' = (bufs s)(b := (bufs s b)\<lparr>b_refcnt := b_refcnt (bufs s b) + 1\<rparr>))"
  using log_write_done [OF assms] log_pin_done [OF assms(2-4), of b n] by (auto simp: log_pin_def fun_eq_iff)

text \<open>
  C24: The log that \<open>mkfs\<close> makes (\<open>sb.nlog = LOGSIZE\<close> blocks including the header) is one block too small for what
  \<open>begin_op\<close> reserves: with \<open>LOGSIZE - 1\<close> blocks logged, an operation that still has a reserved block panics
  in \<open>log_write\<close>.
\<close>

theorem log_write_panics_on_reserved_block:
  assumes "in_kernel p s" "log_budget B s" "log_size s = of_nat LOGSIZE" "log_len s = LOGSIZE - 1" "i < length B" "0 < B ! i"
  shows "log_write b (with_held {} s) = Panic ''too big a transaction''"
proof -
  note k = in_kernelD [OF assms(1)] and b = log_budgetD [OF assms(2)]
  have "log_size s - 1 = log_lh_n s" using b(1) assms(3,4) by (simp add: LOGSIZE_def MAXOPBLOCKS_def)
  then show ?thesis using k(3) by (simp add: log_write_def acquire_with_held with_held_log word_sle_eq)
qed

section \<open>Witnesses\<close>

lemma in_kernel_outstanding: "in_kernel p (s\<lparr>log_outstanding := n\<rparr>) = in_kernel p s"
  by (simp add: in_kernel_def lock_free_def mlfq_good_def mlfq_ok_def mlfq_list_def level_of_def)

theorem begin_op_reserves_witness:
  "begin_op (with_held {} demo_crash) = Ret () (with_held {} (demo_crash\<lparr>log_outstanding := log_outstanding demo_crash + 1\<rparr>))"
proof -
  have "log_len demo_crash = 0" "log_committing demo_crash = 0" "log_budget [] demo_crash"
    by (simp_all add: log_budget_def log_len_def demo_log_defs)
  then show ?thesis using begin_op_reserves [OF demo_log_kernel(2), of "[]"] by (simp add: LOGSIZE_def MAXOPBLOCKS_def)
qed

theorem log_write_absorbs_witness:
  "\<exists>s'. log_write 3 (with_held {} (demo_commit\<lparr>log_outstanding := 1\<rparr>)) = Ret () (with_held {} s') \<and> logged_blocks s' = [46, 0]"
proof -
  let ?s = "demo_commit\<lparr>log_outstanding := 1\<rparr>"
  have l: "logged_blocks ?s = [46]" by (simp add: logged_blocks_def log_len_def demo_log_defs)
  have "in_kernel 1 ?s" using demo_log_kernel(1) by (simp add: in_kernel_outstanding)
  moreover have "log_budget [9] ?s" by (simp add: log_budget_def log_len_def demo_log_defs LOGSIZE_def MAXOPBLOCKS_def)
  moreover have "log_lh_n ?s <s log_size ?s - 1" by (simp add: demo_log_defs word_sless_alt)
  moreover have "b_blockno (bufs ?s 3) = 0" by (simp add: demo_log_defs demo_disk_defs upd_vio_def upd_buf_def)
  ultimately show ?thesis using log_write_absorbs [of 1 ?s "[9]" 0 0 3] by (auto simp: l)
qed

theorem log_write_panics_on_reserved_block_witness:
  "log_write 3 (with_held {} (demo_crash\<lparr>log_outstanding := 3, log_lh_n := 29\<rparr>)) = Panic ''too big a transaction''"
proof -
  let ?s = "demo_crash\<lparr>log_outstanding := 3, log_lh_n := 29\<rparr>"
  have "in_kernel 1 ?s" using demo_log_kernel(2) by (simp add: in_kernel_outstanding)
  moreover have "log_budget [0, 0, 1] ?s" by (simp add: log_budget_def log_len_def LOGSIZE_def MAXOPBLOCKS_def)
  moreover have "log_size ?s = of_nat LOGSIZE" "log_len ?s = LOGSIZE - 1"
    by (simp_all add: demo_log_defs LOGSIZE_def MAXOPBLOCKS_def log_len_def)
  ultimately show ?thesis using log_write_panics_on_reserved_block [of 1 ?s "[0, 0, 1]" 2 3] by simp
qed

end
