(* ===== verification/Txn.thy ===== *)
theory Txn
  imports LogOps
begin

text \<open>
  Operations of the file system inside a transaction: reading a block, and changing a block through the log.
  The cache then has the new content, the disk the old one, and the buffers in use are exactly those of the
  logged blocks.
\<close>

section \<open>The invariant of a transaction\<close>

definition in_txn :: "nat \<Rightarrow> nat list \<Rightarrow> 'a log_state_scheme \<Rightarrow> bool" where
  "in_txn p B s \<longleftrightarrow> at_rest p (log_dev s) s \<and> log_budget B s \<and>
     log_len s + sum_list B < unat (log_size s) \<and> unat (log_size s) < 2 ^ 31 \<and>
     (\<forall>m \<in> set (logged_blocks s). \<exists>c. holds s (log_dev s) m c) \<and>
     (\<forall>c < NBUF. refs s c = (if \<exists>m \<in> set (logged_blocks s). holds s (log_dev s) m c then 1 else 0))"

lemma in_txn_room:
  assumes "in_txn p B s" "i < length B" "0 < B ! i"
  shows "log_lh_n s <s log_size s - 1"
proof -
  have k: "log_len s + sum_list B < unat (log_size s)" "unat (log_size s) < 2 ^ 31" and b: "log_lh_n s = of_nat (log_len s)" "log_len s \<le> 30"
    using assms(1) log_budgetD [of B s] by (auto simp: in_txn_def)
  have "B ! i \<le> sum_list B" using assms(2) by (intro member_le_sum_list) simp_all
  then have l: "log_len s < unat (log_size s) - 1" using k(1) assms(3) by simp
  have "log_size s - 1 = of_nat (unat (log_size s) - 1)" using k(1) by (simp add: of_nat_diff)
  then show ?thesis
    using of_nat_sless [of "log_len s" "unat (log_size s) - 1"] l k(2) unfolding b(1) by (simp del: of_nat_diff)
qed

lemma in_txn_free:
  assumes "in_txn p B s" "log_len s < NBUF"
  obtains c where "c < NBUF" "refs s c = 0"
proof -
  obtain L where L: "store_ok (log_dev s) L s" using assms(1) by (auto simp: in_txn_def at_rest_def)
  have r: "\<exists>m \<in> set (logged_blocks s). holds s (log_dev s) m c" if "c < NBUF" "refs s c \<noteq> 0" for c
    using assms(1) that by (auto simp: in_txn_def split: if_splits)
  have "\<exists>c < NBUF. refs s c = 0"
  proof (rule ccontr)
    assume na: "\<not> ?thesis"
    then have "(\<lambda>c. b_blockno (bufs s c)) ` {..<NBUF} \<subseteq> set (logged_blocks s)"
      using r by (fastforce simp: holds_def cached_def)
    moreover have "inj_on (\<lambda>c. b_blockno (bufs s c)) {..<NBUF}"
    proof (rule inj_onI)
      fix a b assume ab: "a \<in> {..<NBUF}" "b \<in> {..<NBUF}" "b_blockno (bufs s a) = b_blockno (bufs s b)"
      from na r ab(1,2) have "\<exists>m. holds s (log_dev s) m a" "\<exists>m. holds s (log_dev s) m b" by blast+
      then show "a = b" using ab(3) holds_unique [OF store_okD(3,5) [OF L]] by (fastforce simp: holds_def cached_def)
    qed
    ultimately have "NBUF \<le> card (set (logged_blocks s))" using card_inj_on_le [of _ "{..<NBUF}"] by fastforce
    also have "\<dots> \<le> log_len s" using card_length [of "logged_blocks s"] by (simp add: logged_blocks_def)
    finally show False using assms(2) by simp
  qed
  then show ?thesis using that by blast
qed

lemma log_pin_sel [simp]:
  "log_dev (log_pin b n s) = log_dev s" "log_start (log_pin b n s) = log_start s" "log_size (log_pin b n s) = log_size s"
  "bufs (log_pin b n s) = (bufs s)(b := (bufs s b)\<lparr>b_refcnt := b_refcnt (bufs s b) + 1\<rparr>)"
  "vio (log_pin b n s) = vio s" "sleeplocks (log_pin b n s) = sleeplocks s" "procs (log_pin b n s) = procs s"
  "log_state.more (log_pin b n s) = log_state.more s" "panicked (log_pin b n s) = panicked s" "uart_lsr (log_pin b n s) = uart_lsr s"
  by (simp_all add: log_pin_def upd_buf_def)

lemma log_pin_kernel [simp]: "in_kernel p (log_pin b n s) = in_kernel p s"
  by (simp add: log_pin_def)

lemma pin_store:
  assumes "store_ok dev L s" "refs s b + 1 \<noteq> 0"
  shows "store_ok dev L (log_pin b n s)" "content (log_pin b n s) dev m = content s dev m"
proof -
  note o = store_okD [OF assms(1)]
  show "content (log_pin b n s) dev m = content s dev m" by (rule content_payload) simp_all
  have "clean (log_pin b n s) c" if "c < NBUF" "refs (log_pin b n s) c = 0" for c
    using o(6) [of c] assms(2) that by (cases "c = b") (auto simp: clean_def)
  moreover have "bcache_ok L (log_pin b n s)" using o(1) bcache_ok_cong [of "log_pin b n s" s L] by simp
  moreover have "disk_idle (log_pin b n s)" using o(4) by (simp add: disk_idle_def log_pin_def upd_buf_def)
  ultimately show "store_ok dev L (log_pin b n s)" using o(5,7) by (simp add: store_ok_def)
qed

text \<open>What stays the same of the log and of the layers above it.\<close>

definition log_frame :: "'a log_state_scheme \<Rightarrow> 'a log_state_scheme \<Rightarrow> bool" where
  "log_frame s s' \<longleftrightarrow> log_start s' = log_start s \<and> log_size s' = log_size s \<and> log_dev s' = log_dev s \<and>
     panicked s' = panicked s \<and> uart_lsr s' = uart_lsr s \<and> log_state.more s' = log_state.more s"

lemma bio_step_uart:
  assumes "bio_step s s'"
  shows "panicked s' = panicked s" "uart_lsr s' = uart_lsr s"
  by (rule bio_stepE [OF assms], simp)+

lemma log_frame_bio: "bio_step s s' \<Longrightarrow> log_frame s s'"
  by (simp add: log_frame_def bio_step_log bio_step_uart)

lemma log_frame_trans: "log_frame s t \<Longrightarrow> log_frame t u \<Longrightarrow> log_frame s u"
  by (simp add: log_frame_def)

lemma log_frame_pin: "log_frame s (log_pin b n s)"
  by (simp add: log_frame_def)

lemma bio_step_logged: "bio_step s s' \<Longrightarrow> logged_blocks s' = logged_blocks s" "bio_step s s' \<Longrightarrow> log_budget B s' = log_budget B s"
  by (simp_all add: logged_blocks_def log_budget_def bio_step_log)

section \<open>Changing a block\<close>

text \<open>The reservation left after block \<open>n\<close> has been logged by operation \<open>i\<close>.\<close>

definition use_budget :: "nat \<Rightarrow> u32 \<Rightarrow> 'a log_state_scheme \<Rightarrow> nat list \<Rightarrow> nat list" where
  "use_budget i n s B = (if n \<in> set (logged_blocks s) then B else B[i := B ! i - 1])"

text \<open>Inside the transaction the blocks of \<open>f\<close> have been given their new contents and logged.\<close>

definition txn_wrote :: "nat \<Rightarrow> nat list \<Rightarrow> (u32 \<Rightarrow> u8 list option) \<Rightarrow> 'a log_state_scheme \<Rightarrow> 'a log_state_scheme \<Rightarrow> bool" where
  "txn_wrote p B f s s' \<longleftrightarrow> in_txn p B s' \<and> log_frame s s' \<and> disk_block (vio s') = disk_block (vio s) \<and>
     set (logged_blocks s') = set (logged_blocks s) \<union> dom f \<and>
     (\<forall>m. content s' (log_dev s) m = (case f m of Some d \<Rightarrow> d | None \<Rightarrow> content s (log_dev s) m))"

text \<open>Block \<open>n\<close> has been read into buffer \<open>b\<close>; every other buffer is as before.\<close>

definition txn_opened :: "nat \<Rightarrow> nat list \<Rightarrow> u32 \<Rightarrow> 'a log_state_scheme \<Rightarrow> nat \<Rightarrow> 'a log_state_scheme \<Rightarrow> bool" where
  "txn_opened p L n s b s1 \<longleftrightarrow> bdata b s1 = content s (log_dev s) n \<and> bio_step s s1 \<and> in_kernel p s1 \<and> store_ok (log_dev s) L s1 \<and>
     has_open p (log_dev s) n s1 b \<and> refs s b = (if n \<in> set (logged_blocks s) then 1 else 0) \<and> refs s1 b = refs s b + 1 \<and>
     (\<forall>c. c \<noteq> b \<longrightarrow> bufs s1 c = bufs s c \<and> sleeplocks s1 (BufSL c) = sleeplocks s (BufSL c)) \<and>
     (\<forall>m. content s1 (log_dev s) m = content s (log_dev s) m) \<and> disk_block (vio s1) = disk_block (vio s) \<and>
     (\<forall>c < NBUF. c \<noteq> b \<longrightarrow> sl_locked (sleeplocks s1 (BufSL c)) = 0 \<and> refs s1 c + 1 \<noteq> 0) \<and> (refs s b = 0 \<longrightarrow> clean s1 b) \<and> keeps_used s s1"

lemma txn_open:
  assumes "in_txn p B s" "log_len s < NBUF" "unat n < 2 ^ 31"
  obtains b L s1 where "bread (log_dev s) n (with_held {} s) = Ret b (with_held {} s1)" "txn_opened p L n s b s1"
proof -
  let ?d = "log_dev s"
  obtain c where c: "c < NBUF" "refs s c = 0" by (rule in_txn_free [OF assms(1,2)])
  have ar: "at_rest p ?d s" using assms(1) by (simp add: in_txn_def)
  obtain L where r: "in_kernel p s" "store_ok ?d L s" "\<forall>b < NBUF. sl_locked (sleeplocks s (BufSL b)) = 0 \<and> refs s b + 1 \<noteq> 0"
    using ar by (rule at_restD)
  obtain b s1 where b: "bread ?d n (with_held {} s) = Ret b (with_held {} s1)" "bread_post p L ?d n s b s1" "store_ok ?d L s1"
    by (rule bread_store [OF r(1,2) at_rest_available [OF ar c(1) disjI2, OF c(2)] assms(3)])
  have bn: "b < NBUF" using b(2) by (simp add: bread_post_def holds_def)
  note P = bread_rest [OF b(2) r(2) b(3), OF r(3) [rule_format, OF bn, THEN conjunct2]]
  have hb: "holds s1 ?d n b" using P(1) by (simp add: has_open_def)
  have keep: "holds s1 ?d m a" if "holds s ?d m a" "refs s a \<noteq> 0" for m a
    using P(2) that by (auto simp: keeps_used_def holds_def cached_def)
  have ref: "refs s b = (if \<exists>m \<in> set (logged_blocks s). holds s ?d m b then 1 else 0)" using assms(1) bn by (simp add: in_txn_def)
  have "(\<exists>m \<in> set (logged_blocks s). holds s ?d m b) \<longleftrightarrow> n \<in> set (logged_blocks s)"
  proof
    assume ex: "\<exists>m \<in> set (logged_blocks s). holds s ?d m b"
    then have "refs s b \<noteq> 0" using ref by simp
    with ex obtain m where "m \<in> set (logged_blocks s)" "holds s1 ?d m b" using keep by blast
    then show "n \<in> set (logged_blocks s)" using holds_block [OF hb] by blast
  next
    assume n: "n \<in> set (logged_blocks s)"
    then obtain a where a: "holds s ?d n a" using assms(1) by (auto simp: in_txn_def)
    then have "refs s a \<noteq> 0" using assms(1) n by (auto simp: in_txn_def holds_def)
    then have "a = b" using keep [OF a] hb holds_unique [OF store_okD(3,5) [OF b(3)]] by blast
    with a n show "\<exists>m \<in> set (logged_blocks s). holds s ?d m b" by blast
  qed
  then have rb: "refs s b = (if n \<in> set (logged_blocks s) then 1 else 0)" using ref by simp
  have cl: "clean s1 b" if "refs s b = 0" using that P(6,7,10) hb by (simp add: clean_def bdata_def holds_def cached_def)
  have "txn_opened p L n s b s1"
    unfolding txn_opened_def using b(3) P(1-9) rb r(3) cl by auto
  with b(1) show ?thesis by (rule that)
qed

lemma txn_openedD:
  assumes "txn_opened p L n s b s1"
  shows "bdata b s1 = content s (log_dev s) n" "bio_step s s1" "in_kernel p s1" "store_ok (log_dev s) L s1"
    "holds s1 (log_dev s) n b" "held_by p s1 b" "b < NBUF" "refs s b = (if n \<in> set (logged_blocks s) then 1 else 0)"
    "refs s1 b = refs s b + 1" "c \<noteq> b \<Longrightarrow> bufs s1 c = bufs s c" "content s1 (log_dev s) m = content s (log_dev s) m"
    "disk_block (vio s1) = disk_block (vio s)" "c \<noteq> b \<Longrightarrow> c < NBUF \<Longrightarrow> sl_locked (sleeplocks s1 (BufSL c)) = 0 \<and> refs s1 c + 1 \<noteq> 0"
    "refs s b = 0 \<Longrightarrow> clean s1 b" "refs s1 b \<noteq> 0" "keeps_used s s1"
  using assms by (auto simp: txn_opened_def has_open_def holds_def)

text \<open>The changed buffer in the log, before it is released.\<close>

definition txn_logged :: "nat \<Rightarrow> u8 list \<Rightarrow> u32 \<Rightarrow> 'a log_state_scheme \<Rightarrow> 'a log_state_scheme \<Rightarrow> 'a log_state_scheme" where
  "txn_logged b d n s s1 = (if n \<in> set (logged_blocks s) then set_bdata b d s1 else log_pin b n (set_bdata b d s1))"

lemma txn_log_write:
  assumes "in_txn p B s" "i < length B" "0 < B ! i" "txn_opened p L n s b s1"
  shows "log_write b (with_held {} (set_bdata b d s1)) = Ret () (with_held {} (txn_logged b d n s s1))"
    "log_frame s (txn_logged b d n s s1)" "log_budget (use_budget i n s B) (txn_logged b d n s s1)"
    "logged_blocks (txn_logged b d n s s1) = (if n \<in> set (logged_blocks s) then logged_blocks s else logged_blocks s @ [n])"
    "log_len (txn_logged b d n s s1) + sum_list (use_budget i n s B) = log_len s + sum_list B"
proof -
  note o = txn_openedD [OF assms(4)]
  let ?s2 = "set_bdata b d s1"
  have st2: "bio_step s ?s2" by (rule bio_step_trans [OF o(2) set_bdata_step])
  note l2 = bio_step_log [OF st2] bio_step_logged [OF st2]
  have bud: "log_budget B s" using assms(1) by (simp add: in_txn_def)
  note pin = log_pin_done [of B ?s2 i b n, unfolded l2, OF bud assms(2,3)]
  have "log_write b (with_held {} ?s2) = Ret () (with_held {} (if n \<in> set (logged_blocks ?s2) then ?s2 else log_pin b n ?s2))"
    by (rule log_write_done [of p _ B i])
      (use o(3,5) assms(2,3) bud in_txn_room [OF assms(1-3)] in \<open>simp_all add: l2 holds_def cached_def\<close>)
  then show "log_write b (with_held {} ?s2) = Ret () (with_held {} (txn_logged b d n s s1))" by (simp add: txn_logged_def l2)
  show "log_frame s (txn_logged b d n s s1)"
    using log_frame_bio [OF st2] log_frame_trans [OF log_frame_bio [OF st2] log_frame_pin] by (simp add: txn_logged_def)
  show "log_budget (use_budget i n s B) (txn_logged b d n s s1)"
    "logged_blocks (txn_logged b d n s s1) = (if n \<in> set (logged_blocks s) then logged_blocks s else logged_blocks s @ [n])"
    using pin bud by (simp_all add: txn_logged_def use_budget_def l2)
  have "length (logged_blocks (log_pin b n ?s2)) = Suc (log_len s)" unfolding pin(1) by (simp add: logged_blocks_def)
  then have "log_len (log_pin b n ?s2) = Suc (log_len s)" by (simp add: logged_blocks_def)
  moreover have "sum_list (B[i := B ! i - 1]) + 1 = sum_list B"
    using assms(2,3) member_le_sum_list [of "B ! i" B] by (simp add: sum_list_update)
  ultimately show "log_len (txn_logged b d n s s1) + sum_list (use_budget i n s B) = log_len s + sum_list B"
    by (simp add: txn_logged_def use_budget_def l2)
qed

lemma opened_other:
  assumes "in_txn p B s" "txn_opened p L n s b s1" "m \<in> set (logged_blocks s)" "m \<noteq> n" "holds s (log_dev s) m c"
  shows "c \<noteq> b"
proof
  note o = txn_openedD [OF assms(2)]
  assume "c = b"
  then have "refs s b \<noteq> 0" using assms(1,3,5) by (auto simp: in_txn_def holds_def)
  then have "holds s1 (log_dev s) m b" using assms(5) o(16) \<open>c = b\<close> by (auto simp: keeps_used_def holds_def cached_def)
  then show False using holds_block [OF o(5)] assms(4) by blast
qed

lemma txn_logged_state:
  assumes "txn_opened p L n s b s1"
  shows "in_kernel p (txn_logged b d n s s1)" "store_ok (log_dev s) L (txn_logged b d n s s1)" "has_open p (log_dev s) n (txn_logged b d n s s1) b"
    "refs (txn_logged b d n s s1) b = 2" "c \<noteq> b \<Longrightarrow> bufs (txn_logged b d n s s1) c = bufs s1 c"
    "sleeplocks (txn_logged b d n s s1) = sleeplocks s1" "disk_block (vio (txn_logged b d n s s1)) = disk_block (vio s1)"
    "content (txn_logged b d n s s1) (log_dev s) m = (if m = n then d else content s1 (log_dev s) m)"
proof -
  note o = txn_openedD [OF assms]
  note sb = set_bdata_store [OF o(4,5,15), where d = d]
  have r: "refs s1 b = (if n \<in> set (logged_blocks s) then 2 else 1)" using o(8,9) by simp
  then have "refs (set_bdata b d s1) b + 1 \<noteq> 0" by simp
  note pn = pin_store [OF sb(1) this, of n]
  show "in_kernel p (txn_logged b d n s s1)" "store_ok (log_dev s) L (txn_logged b d n s s1)"
    "content (txn_logged b d n s s1) (log_dev s) m = (if m = n then d else content s1 (log_dev s) m)"
    using o(3) sb pn by (simp_all add: txn_logged_def)
  show "has_open p (log_dev s) n (txn_logged b d n s s1) b" "refs (txn_logged b d n s s1) b = 2"
    "c \<noteq> b \<Longrightarrow> bufs (txn_logged b d n s s1) c = bufs s1 c"
    using o(5,6,7) r by (auto simp: txn_logged_def has_open_def holds_def cached_def held_by_def)
qed (simp_all add: txn_logged_def)

lemma txn_release:
  assumes "in_txn p B s" "i < length B" "0 < B ! i" "txn_opened p L n s b s1"
  obtains s' where "brelse b (with_held {} (txn_logged b d n s s1)) = Ret () (with_held {} s')" "txn_wrote p (use_budget i n s B) [n \<mapsto> d] s s'"
proof -
  let ?d = "log_dev s" and ?s3 = "txn_logged b d n s s1"
  note o = txn_openedD [OF assms(4)] and w = txn_log_write [OF assms, where d = d] and t = txn_logged_state [OF assms(4), where d = d]
  have ul: "\<forall>c < NBUF. c \<noteq> b \<longrightarrow> sl_locked (sleeplocks ?s3 (BufSL c)) = 0 \<and> refs ?s3 c + 1 \<noteq> 0" using o(13) t(5,6) by auto
  have cl: "clean ?s3 b" if "refs ?s3 b = 1" using that t(4) by simp
  obtain s' where e: "brelse b (with_held {} ?s3) = Ret () (with_held {} s')" "at_rest p ?d s'" "bio_step ?s3 s'" "vio s' = vio ?s3"
    "\<forall>m. content s' ?d m = content ?s3 ?d m" "\<forall>c. refs s' c = (if c = b then refs ?s3 b - 1 else refs ?s3 c)"
    "\<forall>c. b_valid (bufs s' c) = b_valid (bufs ?s3 c) \<and> b_dev (bufs s' c) = b_dev (bufs ?s3 c) \<and> b_blockno (bufs s' c) = b_blockno (bufs ?s3 c)"
    by (rule release_last_buf [OF t(1-3) cl ul])
  note l = bio_step_log [OF e(3)] bio_step_logged [OF e(3)]
  have h3: "holds s' ?d m c = holds ?s3 ?d m c" for m c using e(7) by (simp add: holds_def cached_def)
  have hc: "holds s' ?d m c = holds s ?d m c" if "c \<noteq> b" for m c using that h3 t(5) o(10) by (simp add: holds_def cached_def)
  have hb: "holds s' ?d n b" using t(3) h3 by (simp add: has_open_def)
  obtain L' where L': "store_ok ?d L' s'" using e(2) by (auto simp: at_rest_def)
  have hn: "c = b" if "holds s' ?d n c" for c using that hb holds_unique [OF store_okD(3,5) [OF L']] by blast
  have lg: "set (logged_blocks s') = insert n (set (logged_blocks s))" using w(4) l by auto
  have dv: "log_dev s' = ?d" "log_size s' = log_size s" using l w(2) by (simp_all add: log_frame_def)
  have "\<exists>c. holds s' ?d m c" if m: "m \<in> set (logged_blocks s')" for m
  proof (cases "m = n")
    case False
    with m lg obtain c where c: "m \<in> set (logged_blocks s)" "holds s ?d m c" using assms(1) by (auto simp: in_txn_def)
    then show ?thesis using hc opened_other [OF assms(1,4) c(1) False c(2)] by blast
  qed (use hb in blast)
  moreover have "refs s' c = (if \<exists>m \<in> set (logged_blocks s'). holds s' ?d m c then 1 else 0)" if "c < NBUF" for c
  proof (cases "c = b")
    case True
    then show ?thesis using e(6) t(4) hb lg by auto
  next
    case False
    then have "refs s' c = refs s c" "(\<exists>m \<in> set (logged_blocks s'). holds s' ?d m c) = (\<exists>m \<in> set (logged_blocks s). holds s ?d m c)"
      using e(6) t(5) o(10) hn [of c] hc [of c] lg by auto
    then show ?thesis using assms(1) that by (simp add: in_txn_def)
  qed
  ultimately have "in_txn p (use_budget i n s B) s'"
    using e(2) w(3,5) assms(1) l dv unfolding in_txn_def by (simp only: dv) simp
  moreover have "log_frame s s'" using log_frame_trans [OF w(2) log_frame_bio [OF e(3)]] .
  ultimately have "txn_wrote p (use_budget i n s B) [n \<mapsto> d] s s'"
    using e(4,5) t(7,8) o(11,12) lg by (simp add: txn_wrote_def)
  with e(1) show ?thesis by (rule that)
qed

lemma txn_update:
  assumes "in_txn p B s" "i < length B" "0 < B ! i" "unat n < 2 ^ 31"
  obtains b s1 where "bread (log_dev s) n (with_held {} s) = Ret b (with_held {} s1)" "bdata b s1 = content s (log_dev s) n"
    "log_frame s s1"
    "\<forall>d. \<exists>s'. bnd (log_write b (with_held {} (set_bdata b d s1))) (\<lambda>_ s. brelse b s) = Ret () (with_held {} s') \<and>
      txn_wrote p (use_budget i n s B) [n \<mapsto> d] s s'"
proof -
  have bud: "log_budget B s" using assms(1) by (simp add: in_txn_def)
  have lt: "log_len s < NBUF" using log_budget_use(3) [OF bud assms(2,3)] by (simp add: LOGSIZE_def NBUF_def)
  obtain b L s1 where b: "bread (log_dev s) n (with_held {} s) = Ret b (with_held {} s1)" "txn_opened p L n s b s1"
    by (rule txn_open [OF assms(1) lt assms(4)])
  note o = txn_openedD [OF b(2)]
  have "\<exists>s'. bnd (log_write b (with_held {} (set_bdata b d s1))) (\<lambda>_ s. brelse b s) = Ret () (with_held {} s') \<and>
      txn_wrote p (use_budget i n s B) [n \<mapsto> d] s s'" for d
  proof -
    obtain s' where "brelse b (with_held {} (txn_logged b d n s s1)) = Ret () (with_held {} s')"
      "txn_wrote p (use_budget i n s B) [n \<mapsto> d] s s'" by (rule txn_release [OF assms(1-3) b(2)])
    then show ?thesis using txn_log_write(1) [OF assms(1-3) b(2), of d] by (intro exI [of _ s']) simp
  qed
  then show ?thesis using that [OF b(1) o(1) log_frame_bio [OF o(2)]] by blast
qed

lemma txn_read:
  assumes "in_txn p B s" "log_len s < NBUF" "unat n < 2 ^ 31"
  obtains b s1 s' where "bread (log_dev s) n (with_held {} s) = Ret b (with_held {} s1)" "bdata b s1 = content s (log_dev s) n"
    "log_frame s s1" "brelse b (with_held {} s1) = Ret () (with_held {} s')" "txn_wrote p B Map.empty s s'"
proof -
  let ?d = "log_dev s"
  obtain b L s1 where b: "bread ?d n (with_held {} s) = Ret b (with_held {} s1)" "txn_opened p L n s b s1"
    by (rule txn_open [OF assms])
  note o = txn_openedD [OF b(2)]
  have ho: "has_open p ?d n s1 b" using o(5,6,15) by (simp add: has_open_def)
  have cl: "clean s1 b" if "refs s1 b = 1" using that o(9,14) by simp
  have ul: "\<forall>c < NBUF. c \<noteq> b \<longrightarrow> sl_locked (sleeplocks s1 (BufSL c)) = 0 \<and> refs s1 c + 1 \<noteq> 0" using o(13) by auto
  obtain s' where e: "brelse b (with_held {} s1) = Ret () (with_held {} s')" "at_rest p ?d s'" "bio_step s1 s'" "vio s' = vio s1"
    "\<forall>m. content s' ?d m = content s1 ?d m" "\<forall>c. refs s' c = (if c = b then refs s1 b - 1 else refs s1 c)"
    "\<forall>c. b_valid (bufs s' c) = b_valid (bufs s1 c) \<and> b_dev (bufs s' c) = b_dev (bufs s1 c) \<and> b_blockno (bufs s' c) = b_blockno (bufs s1 c)"
    by (rule release_last_buf [OF o(3,4) ho cl ul])
  have st: "bio_step s s'" by (rule bio_step_trans [OF o(2) e(3)])
  note l = bio_step_log [OF st] bio_step_logged [OF st]
  have h1: "holds s' ?d m c = holds s1 ?d m c" for m c using e(7) by (simp add: holds_def cached_def)
  have hc: "holds s' ?d m c = holds s ?d m c" if "c \<noteq> b" for m c using that h1 o(10) by (simp add: holds_def cached_def)
  have hb: "holds s' ?d m b \<longleftrightarrow> m = n" for m using o(5) h1 holds_block by blast
  have rf: "refs s' c = refs s c" for c using e(6) o(9,10) by simp
  have "\<exists>c. holds s' ?d m c" if m: "m \<in> set (logged_blocks s)" for m
  proof -
    obtain c where "holds s ?d m c" using assms(1) m by (auto simp: in_txn_def)
    then show ?thesis using hb hc opened_other [OF assms(1) b(2) m] by metis
  qed
  moreover have "refs s' c = (if \<exists>m \<in> set (logged_blocks s). holds s' ?d m c then 1 else 0)" if "c < NBUF" for c
    using assms(1) that rf hc hb o(8) by (cases "c = b") (auto simp: in_txn_def)
  ultimately have "in_txn p B s'" using e(2) assms(1) unfolding in_txn_def by (simp only: l) simp
  then have "txn_wrote p B Map.empty s s'" using log_frame_bio [OF st] e(4,5) o(11,12) l by (simp add: txn_wrote_def)
  with b(1) o(1) log_frame_bio [OF o(2)] e(1) show ?thesis by (rule that)
qed

lemma txn_wrote_trans:
  assumes "txn_wrote p B f s t" "txn_wrote p B' g t u"
  shows "txn_wrote p B' (f ++ g) s u"
  using assms log_frame_trans [of s t u] by (auto simp: txn_wrote_def map_add_def log_frame_def split: option.splits)

end
