(* ===== verification/BlockAlloc.thy ===== *)
theory BlockAlloc
  imports Txn Fs Output
begin

text \<open>
  The block allocator of \<open>kernel/fs.c\<close> inside a transaction, for a file system whose bitmap is one block.
\<close>

section \<open>The bitmap\<close>

lemma bit_mask_bit: "bit (bit_mask i) k \<longleftrightarrow> k = i mod 8"
  by (auto simp: bit_mask_def bit_simps)

lemma mask_used: "w AND bit_mask i \<noteq> 0 \<longleftrightarrow> bit w (i mod 8)"
proof
  assume "bit w (i mod 8)"
  then have "bit (w AND bit_mask i) (i mod 8)" by (simp add: bit_and_iff bit_mask_bit)
  then show "w AND bit_mask i \<noteq> 0" by auto
next
  assume "w AND bit_mask i \<noteq> 0"
  then obtain k where "bit (w AND bit_mask i) k" by (metis bit_eqI bit_0_eq bot_apply bot_bool_def)
  then show "bit w (i mod 8)" by (auto simp: bit_and_iff bit_mask_bit)
qed

lemma bit_used_set:
  assumes "n div 8 < length bs"
  shows "bit_used (set_bit_used n bs) m \<longleftrightarrow> m = n \<or> bit_used bs m"
proof (cases "m div 8 = n div 8")
  case True
  have "m = n \<longleftrightarrow> m mod 8 = n mod 8" using True by (metis div_mult_mod_eq)
  then show ?thesis using True assms by (auto simp: bit_used_def set_bit_used_def mask_used bit_or_iff bit_mask_bit)
next
  case False
  then show ?thesis using assms by (auto simp: bit_used_def set_bit_used_def)
qed

lemma length_set_bit_used [simp]: "length (set_bit_used n bs) = length bs"
  by (simp add: set_bit_used_def)

lemma balloc_scan_find: "balloc_scan [k..<n] 0 sz bs = find (\<lambda>i. \<not> bit_used bs i) [k..<min sz n]"
proof (induction "n - k" arbitrary: k)
  case (Suc d)
  then have "k < n" by simp
  then have s: "balloc_scan [k..<n] 0 sz bs =
      (if \<not> k < sz then None else if \<not> bit_used bs k then Some k else balloc_scan [Suc k..<n] 0 sz bs)"
    by (simp add: upt_conv_Cons)
  show ?case unfolding s using Suc.hyps(1) [of "Suc k"] Suc.hyps(2) by (cases "k < sz") (auto simp: upt_conv_Cons)
qed simp

section \<open>Zeroing and allocating\<close>

lemma log_frame_sb: "log_frame s s' \<Longrightarrow> sb s' = sb s"
  by (cases s, cases s') (simp add: log_frame_def)

lemma sb_with_held [simp]: "sb (with_held H s) = sb s"
  by (simp add: with_held_def)

lemma bzero_done:
  assumes "in_txn p B s" "i < length B" "0 < B ! i" "unat n < 2 ^ 31"
  obtains s' where "bzero (log_dev s) n (with_held {} s) = Ret () (with_held {} s')"
    "txn_wrote p (use_budget i n s B) [n \<mapsto> replicate BSIZE 0] s s'"
proof -
  obtain b s1 where u: "bread (log_dev s) n (with_held {} s) = Ret b (with_held {} s1)" "bdata b s1 = content s (log_dev s) n" "log_frame s s1"
    "\<forall>d. \<exists>s'. bnd (log_write b (with_held {} (set_bdata b d s1))) (\<lambda>_ s. brelse b s) = Ret () (with_held {} s') \<and>
      txn_wrote p (use_budget i n s B) [n \<mapsto> d] s s'"
    by (rule txn_update [OF assms])
  from u(4) obtain s' where "bnd (log_write b (with_held {} (set_bdata b (replicate BSIZE 0) s1))) (\<lambda>_ s. brelse b s) = Ret () (with_held {} s')"
    "txn_wrote p (use_budget i n s B) [n \<mapsto> replicate BSIZE 0] s s'" by blast
  then show ?thesis using that u(1) by (simp add: bzero_def set_bdata_with_held)
qed

lemma use_budget_left: "i < length B \<Longrightarrow> 2 \<le> B ! i \<Longrightarrow> i < length (use_budget i n s B) \<and> 0 < use_budget i n s B ! i"
  by (simp add: use_budget_def)

text \<open>A file system whose bitmap is one block, which is itself marked as in use.\<close>

definition one_bitmap :: "superblock \<Rightarrow> u8 list \<Rightarrow> bool" where
  "one_bitmap x bs \<longleftrightarrow> 0 < unat (sb_size x) \<and> unat (sb_size x) \<le> BPB \<and> unat (sb_bmapstart x) < unat (sb_size x) \<and>
     length bs = BSIZE \<and> bit_used bs (unat (sb_bmapstart x))"

lemma balloc_unfold:
  assumes "one_bitmap (sb s) bs"
  shows "balloc dev s = balloc_loop [0] dev s" "BBLOCK (of_nat 0) (sb s) = sb_bmapstart (sb s)"
    "balloc_scan [0..<BPB] 0 (unat (sb_size (sb s))) bs = find (\<lambda>i. \<not> bit_used bs i) [0..<unat (sb_size (sb s))]"
proof -
  have "(unat (sb_size (sb s)) + BPB - 1) div BPB = 1" using assms by (auto simp: one_bitmap_def BPB_def BSIZE_def intro: div_nat_eqI)
  then show "balloc dev s = balloc_loop [0] dev s" by (simp add: balloc_def)
qed (use assms in \<open>simp_all add: balloc_scan_find one_bitmap_def min_absorb1 BBLOCK_def\<close>)

lemma balloc_found:
  assumes "in_txn p B s" "i < length B" "2 \<le> B ! i" "bs = content s (log_dev s) (sb_bmapstart (sb s))" "one_bitmap (sb s) bs"
    and "find (\<lambda>i. \<not> bit_used bs i) [0..<unat (sb_size (sb s))] = Some n"
  obtains s' where "balloc (log_dev s) (with_held {} s) = Ret (of_nat n) (with_held {} s')"
    "txn_wrote p (use_budget i (of_nat n) s (use_budget i (sb_bmapstart (sb s)) s B)) [sb_bmapstart (sb s) \<mapsto> set_bit_used n bs, of_nat n \<mapsto> replicate BSIZE 0] s s'"
proof -
  let ?bm = "sb_bmapstart (sb s)"
  have n: "n < unat (sb_size (sb s))" "\<not> bit_used bs n" "n \<le> 8192" "n \<noteq> unat ?bm"
    using assms(5,6) by (auto simp: find_Some_iff one_bitmap_def BPB_def BSIZE_def)
  have bm: "unat ?bm < 2 ^ 31" "unat (of_nat n :: u32) = n" using assms(5) n(3) by (auto simp: one_bitmap_def BPB_def BSIZE_def unat_of_nat_u32)
  then have n31: "unat (of_nat n :: u32) < 2 ^ 31" "of_nat n \<noteq> ?bm" using n(3,4) by auto
  have "0 < B ! i" using assms(3) by simp
  from txn_update [OF assms(1,2) this bm(1)] obtain b s1 where
    u: "bread (log_dev s) ?bm (with_held {} s) = Ret b (with_held {} s1)" "bdata b s1 = content s (log_dev s) ?bm" "log_frame s s1"
    "\<forall>d. \<exists>s'. bnd (log_write b (with_held {} (set_bdata b d s1))) (\<lambda>_ s. brelse b s) = Ret () (with_held {} s') \<and>
      txn_wrote p (use_budget i ?bm s B) [?bm \<mapsto> d] s s'" by blast
  from u(4) obtain t where t: "bnd (log_write b (with_held {} (set_bdata b (set_bit_used n bs) s1))) (\<lambda>_ s. brelse b s) = Ret () (with_held {} t)"
    "txn_wrote p (use_budget i ?bm s B) [?bm \<mapsto> set_bit_used n bs] s t" by blast
  have T: "in_txn p (use_budget i ?bm s B) t" "log_dev t = log_dev s" using t(2) by (simp_all add: txn_wrote_def log_frame_def)
  note ub = use_budget_left [OF assms(2,3), of ?bm s]
  obtain s' where z: "bzero (log_dev t) (of_nat n) (with_held {} t) = Ret () (with_held {} s')"
    "txn_wrote p (use_budget i (of_nat n) t (use_budget i ?bm s B)) [of_nat n \<mapsto> replicate BSIZE 0] t s'"
    by (rule bzero_done [OF T(1) conjunct1 [OF ub] conjunct2 [OF ub] n31(1)])
  obtain w where w: "log_write b (with_held {} (set_bdata b (set_bit_used n bs) s1)) = Ret () w" "brelse b w = Ret () (with_held {} t)"
    using t(1) by (auto simp: bnd_Ret_iff)
  note bu = balloc_unfold [of "with_held {} s" bs, unfolded sb_with_held, OF assms(5)]
  have "balloc (log_dev s) (with_held {} s) = Ret (of_nat n) (with_held {} s')"
    using u(1,2) w z(1) assms(4,6) bu(2,3) log_frame_sb [OF u(3)]
    by (simp add: bu(1) T(2) bdata_with_held set_bdata_with_held)
  moreover have "[?bm \<mapsto> set_bit_used n bs] ++ [of_nat n \<mapsto> replicate BSIZE 0] = [?bm \<mapsto> set_bit_used n bs, of_nat n \<mapsto> replicate BSIZE 0]"
    by simp
  moreover have "use_budget i (of_nat n) t B' = use_budget i (of_nat n) s B'" for B'
    using t(2) n31(2) by (simp add: use_budget_def txn_wrote_def)
  ultimately show ?thesis using that txn_wrote_trans [OF t(2) z(2)] by simp
qed

section \<open>Running out of blocks\<close>

lemma sent_sel2 [simp]: "bufs (sent out vs s) = bufs s" "vio (sent out vs s) = vio s" "sleeplocks (sent out vs s) = sleeplocks s"
  "vd_free (sent out vs s) = vd_free s" "vd_used_idx (sent out vs s) = vd_used_idx s" "virtio_dev (sent out vs s) = virtio_dev s"
  "log_dev (sent out vs s) = log_dev s" "log_size (sent out vs s) = log_size s" "log_start (sent out vs s) = log_start s"
  "log_lh_n (sent out vs s) = log_lh_n s" "log_lh_block (sent out vs s) = log_lh_block s" "log_outstanding (sent out vs s) = log_outstanding s"
  "log_state.more (sent out vs s) = log_state.more s"
  by (simp_all add: sent_def)

lemma sent_kernel [simp]: "in_kernel p (sent out vs s) = in_kernel p s"
  by (simp add: sent_def in_kernel_def lock_free_def mlfq_good_def mlfq_ok_def mlfq_list_def level_of_def)

lemma sent_store [simp]: "holds (sent out vs s) d n c = holds s d n c" "log_len (sent out vs s) = log_len s"
  "logged_blocks (sent out vs s) = logged_blocks s" "log_budget B (sent out vs s) = log_budget B s"
  "store_ok d L (sent out vs s) = store_ok d L s" "at_rest p d (sent out vs s) = at_rest p d s"
  by (simp_all add: holds_def cached_def log_len_def logged_blocks_def log_budget_def store_ok_def bcache_ok_def bcache_list_def
      one_copy_def disk_idle_def clean_def at_rest_def)

lemma sent_content [simp]: "content (sent out vs s) d m = content s d m" for s :: "'a log_state_scheme"
  by (rule content_cong) simp_all

lemma sent_in_txn: "in_txn p B (sent out vs s) = in_txn p B s"
  by (simp add: in_txn_def)

lemma out_of_blocks_text: "format (cstr (''balloc: out of blocks'' @ newline)) [] = Some (cstr (''balloc: out of blocks'' @ newline))"
  by (simp add: format.simps cstr_def newline_def)

lemma balloc_full:
  assumes "in_txn p B s" "log_len s < NBUF" "bs = content s (log_dev s) (sb_bmapstart (sb s))" "one_bitmap (sb s) bs"
    and "find (\<lambda>i. \<not> bit_used bs i) [0..<unat (sb_size (sb s))] = None" "panicked s = 0" "uart_polls 22 (uart_lsr s) = Some vs"
  obtains s' where "balloc (log_dev s) (with_held {} s) = Ret 0 (with_held {} s')" "in_txn p B s'" "set (logged_blocks s') = set (logged_blocks s)"
    "\<forall>m. content s' (log_dev s) m = content s (log_dev s) m" "disk_block (vio s') = disk_block (vio s)"
proof -
  let ?bm = "sb_bmapstart (sb s)" and ?out = "cstr (''balloc: out of blocks'' @ newline)"
  have bm: "unat ?bm < 2 ^ 31" using assms(4) by (auto simp: one_bitmap_def BPB_def BSIZE_def)
  obtain b s1 t where r: "bread (log_dev s) ?bm (with_held {} s) = Ret b (with_held {} s1)" "bdata b s1 = content s (log_dev s) ?bm"
    "log_frame s s1" "brelse b (with_held {} s1) = Ret () (with_held {} t)" "txn_wrote p B Map.empty s t"
    by (rule txn_read [OF assms(1,2) bm])
  note bu = balloc_unfold [of "with_held {} s" bs, unfolded sb_with_held, OF assms(4)]
  have t: "in_txn p B t" "log_frame s t" "in_kernel p t" using r(5) by (auto simp: txn_wrote_def in_txn_def at_rest_def)
  have "length ?out = 22" by (simp add: cstr_def newline_def)
  then have p: "printf (''balloc: out of blocks'' @ newline) [] (with_held {} t) = Ret 0 (with_held {} (sent ?out vs t))"
    by (intro printf_done) (use in_kernelD(3) [OF t(3)] assms(6,7) t(2) out_of_blocks_text in \<open>simp_all add: log_frame_def\<close>)
  have "balloc (log_dev s) (with_held {} s) = Ret 0 (with_held {} (sent ?out vs t))"
    using r(1,2,4) p assms(3,5) bu(2,3) log_frame_sb [OF r(3)] by (simp add: bu(1) bdata_with_held)
  moreover have "in_txn p B (sent ?out vs t)" using t(1) by (simp add: sent_in_txn)
  moreover have "set (logged_blocks (sent ?out vs t)) = set (logged_blocks s)" using r(5) by (simp add: txn_wrote_def)
  moreover have "\<forall>m. content (sent ?out vs t) (log_dev s) m = content s (log_dev s) m" "disk_block (vio (sent ?out vs t)) = disk_block (vio s)"
    using r(5) by (simp_all add: txn_wrote_def)
  ultimately show ?thesis by (rule that)
qed

section \<open>Property\<close>

text \<open>
  C21: \<open>balloc\<close> in a transaction with two reserved blocks, on a file system whose bitmap is one block, returns the
  first block whose bit in the bitmap is clear.  It sets exactly that bit and zeroes that block, changes no other
  block, and does both through the log: the two blocks are in the log, pinned in the cache and paid for from
  the reservation, and the disk is as before.  When every bit is set it prints a message and returns 0 with
  nothing changed or logged.
\<close>

theorem balloc_allocates_first_free:
  assumes "in_txn p B s" "i < length B" "2 \<le> B ! i" "bs = content s (log_dev s) (sb_bmapstart (sb s))" "one_bitmap (sb s) bs"
    and "panicked s = 0" "uart_polls 22 (uart_lsr s) \<noteq> None"
  shows "case find (\<lambda>i. \<not> bit_used bs i) [0..<unat (sb_size (sb s))] of
      None \<Rightarrow> \<exists>s'. balloc (log_dev s) (with_held {} s) = Ret 0 (with_held {} s') \<and> in_txn p B s' \<and>
        set (logged_blocks s') = set (logged_blocks s) \<and>
        (\<forall>m. content s' (log_dev s) m = content s (log_dev s) m) \<and> disk_block (vio s') = disk_block (vio s)
    | Some n \<Rightarrow> \<exists>s'. balloc (log_dev s) (with_held {} s) = Ret (of_nat n) (with_held {} s') \<and>
        (\<forall>m. bit_used (content s' (log_dev s) (sb_bmapstart (sb s))) m \<longleftrightarrow> m = n \<or> bit_used bs m) \<and>
        content s' (log_dev s) (of_nat n) = replicate BSIZE 0 \<and>
        (\<forall>m. m \<noteq> sb_bmapstart (sb s) \<and> m \<noteq> of_nat n \<longrightarrow> content s' (log_dev s) m = content s (log_dev s) m) \<and>
        disk_block (vio s') = disk_block (vio s) \<and>
        set (logged_blocks s') = set (logged_blocks s) \<union> {sb_bmapstart (sb s), of_nat n} \<and>
        in_txn p (use_budget i (of_nat n) s (use_budget i (sb_bmapstart (sb s)) s B)) s'"
proof (cases "find (\<lambda>i. \<not> bit_used bs i) [0..<unat (sb_size (sb s))]")
  case None
  obtain vs where vs: "uart_polls 22 (uart_lsr s) = Some vs" using assms(7) by blast
  have "log_len s < NBUF"
    using log_budget_use(3) [of B s i] assms(1-3) by (simp add: in_txn_def LOGSIZE_def NBUF_def)
  then show ?thesis unfolding None option.case
    by (rule balloc_full [OF assms(1) _ assms(4,5) None assms(6) vs]) (intro exI conjI)
next
  case (Some n)
  let ?bm = "sb_bmapstart (sb s)"
  have n: "n \<noteq> unat ?bm" "n div 8 < length bs" "n < 8192"
    using assms(5) Some by (auto simp: find_Some_iff one_bitmap_def BPB_def BSIZE_def)
  have "unat (of_nat n :: u32) = n" using n(3) by (intro unat_of_nat_u32) simp
  then have ne: "of_nat n \<noteq> ?bm" using n(1) by metis
  obtain s' where "balloc (log_dev s) (with_held {} s) = Ret (of_nat n) (with_held {} s')"
    "txn_wrote p (use_budget i (of_nat n) s (use_budget i ?bm s B)) [?bm \<mapsto> set_bit_used n bs, of_nat n \<mapsto> replicate BSIZE 0] s s'"
    by (rule balloc_found [OF assms(1-5) Some])
  then show ?thesis using Some ne bit_used_set [OF n(2)] by (auto simp: txn_wrote_def intro!: exI [of _ s'])
qed

section \<open>Witness\<close>

text \<open>A disk of a hundred blocks of which the first 46 are in use.\<close>

definition demo_alloc :: fs_state where
  "demo_alloc = log_state.extend (disk_state.extend
     (upd_vio (\<lambda>v. v\<lparr>v_sectors := (\<lambda>_. replicate 512 0)(90 := replicate 5 255 @ [63] @ replicate 506 0)\<rparr>) demo_disk)
     (log_state.fields 2 30 1 0 1 0 (\<lambda>_. 0)))
     (fs_state.fields \<lparr>sb_magic = 0x10203040, sb_size = 100, sb_nblocks = 54, sb_ninodes = 16, sb_nlog = 30, sb_logstart = 2,
       sb_inodestart = 32, sb_bmapstart = 45\<rparr> (\<lambda>_. \<lparr>i_dev = 0, i_inum = 0, i_ref = 0, i_valid = 0, i_type = 0, i_major = 0, i_minor = 0,
       i_nlink = 0, i_size = 0, i_addrs = \<lambda>_. 0\<rparr>))"

lemmas demo_alloc_defs = demo_alloc_def log_state.defs disk_state.defs fs_state.defs

lemma demo_alloc_rest: "at_rest 1 1 demo_alloc"
proof -
  have "in_kernel 1 demo_alloc"
    using demo_disk_kernel
    by (simp add: demo_alloc_defs upd_vio_def in_kernel_def lock_free_def mlfq_good_def mlfq_ok_def mlfq_list_def level_of_def)
  moreover have "bcache_list (rev [0..<NBUF]) demo_alloc = bcache_list (rev [0..<NBUF]) demo_disk"
    by (rule bcache_list_cong) (simp add: demo_alloc_defs upd_vio_def)
  moreover have "one_copy demo_alloc" by (auto simp: one_copy_def cached_def demo_alloc_defs demo_disk_defs upd_vio_def)
  moreover have "disk_idle demo_alloc" using demo_disk_idle by (simp add: disk_idle_def demo_alloc_defs upd_vio_def)
  moreover have "sl_locked (sleeplocks demo_disk (BufSL c)) = 0" for c
    by (simp add: demo_disk_defs demo_pipe_def demo_sl_def proc_state.defs sync_state.defs)
  ultimately show ?thesis
    using demo_disk_list
    by (auto simp: at_rest_def store_ok_def bcache_ok_def clean_def demo_alloc_defs demo_disk_defs upd_vio_def intro!: exI [of _ "rev [0..<NBUF]"])
qed

lemma demo_alloc_sel:
  "log_dev demo_alloc = 1" "sb_bmapstart (sb demo_alloc) = 45" "unat (sb_size (sb demo_alloc)) = 100" "panicked demo_alloc = 0"
  "uart_lsr demo_alloc = replicate 5000 0x20" "\<not> holds demo_alloc d n c" "logged_blocks demo_alloc = []" "refs demo_alloc c = 0"
  "disk_block (vio demo_alloc) 45 = replicate 5 255 @ [63] @ replicate 1018 0"
  by (simp_all add: demo_alloc_defs demo_disk_defs upd_vio_def holds_def cached_def logged_blocks_def log_len_def disk_block_def
      block_sector_def BSIZE_def replicate_add [symmetric])

lemma demo_alloc_txn: "in_txn 1 [10] demo_alloc"
proof -
  have "log_budget [10] demo_alloc" "log_len demo_alloc = 0" "log_size demo_alloc = 30"
    by (simp_all add: log_budget_def demo_alloc_defs log_len_def MAXOPBLOCKS_def LOGSIZE_def)
  then show ?thesis using demo_alloc_rest by (simp add: in_txn_def demo_alloc_sel)
qed

lemma demo_alloc_bits:
  assumes "bs = replicate 5 255 @ [63] @ replicate 1018 0" "j \<le> 46"
  shows "bit_used bs j \<longleftrightarrow> j \<noteq> 46"
proof -
  have ff: "bit (255 :: u8) k" if "k < 8" for k
  proof -
    have m: "(255 :: u8) = mask 8" by (simp add: mask_eq_exp_minus_1)
    show ?thesis unfolding m using that by (simp add: bit_mask_iff)
  qed
  have six: "bit (63 :: u8) k \<longleftrightarrow> k < 6" if "k < 8" for k
  proof -
    have m: "(63 :: u8) = mask 6" by (simp add: mask_eq_exp_minus_1)
    show ?thesis unfolding m using that by (simp add: bit_mask_iff)
  qed
  show ?thesis
  proof (cases "j < 40")
    case True
    then have "bs ! (j div 8) = 255" using assms(1) by (simp add: nth_append)
    then show ?thesis using ff [of "j mod 8"] True by (simp add: bit_used_def mask_used)
  next
    case False
    then have d: "j div 8 = 5" "j mod 8 = j - 40" using assms(2) by presburger+
    then have "bs ! (j div 8) = 63" using assms(1) by (simp add: nth_append)
    then show ?thesis using six [of "j mod 8"] d assms(2) False by (auto simp: bit_used_def mask_used)
  qed
qed

theorem balloc_allocates_first_free_witness:
  "\<exists>s'. balloc 1 (with_held {} demo_alloc) = Ret 46 (with_held {} s') \<and> content s' 1 46 = replicate BSIZE 0 \<and>
    bit_used (content s' 1 45) 46 \<and> set (logged_blocks s') = {45, 46} \<and> in_txn 1 [8] s'"
proof -
  define bs :: "u8 list" where "bs = replicate 5 255 @ [63] @ replicate 1018 0"
  have c: "content demo_alloc 1 45 = bs" using content_disk [of demo_alloc 1 45] demo_alloc_sel(6,9) by (simp add: bs_def)
  have f: "find (\<lambda>i. \<not> bit_used bs i) [0..<100] = Some 46"
    unfolding find_Some_iff using demo_alloc_bits [OF bs_def] by (intro exI [of _ 46]) auto
  have "one_bitmap (sb demo_alloc) bs"
    using demo_alloc_bits [OF bs_def, of 45] by (simp add: one_bitmap_def demo_alloc_sel BPB_def BSIZE_def bs_def)
  moreover have "uart_polls 22 (replicate 5000 0x20) \<noteq> None" using polls_ready [of 22 4978] by simp
  ultimately show ?thesis
    using balloc_allocates_first_free [OF demo_alloc_txn, of 0 bs] f c by (auto simp: demo_alloc_sel use_budget_def)
qed

end
