(* ===== verification/Paths.thy ===== *)
theory Paths
  imports Dir
begin

text \<open>
  Path names: repeated \<open>skipelem\<close>, as \<open>namex\<close> uses it, yields the parts of the path between slashes.
\<close>

section \<open>The parts of a path\<close>

fun split_path :: "u8 list \<Rightarrow> u8 list list" where
  "split_path [] = [[]]"
| "split_path (c # cs) =
     (if c = slash then [] # split_path cs
      else case split_path cs of [] \<Rightarrow> [[c]] | e # es \<Rightarrow> (c # e) # es)"

definition path_elems :: "u8 list \<Rightarrow> u8 list list" where
  "path_elems path = filter (\<lambda>e. e \<noteq> []) (split_path path)"

lemma split_path_neq_Nil [simp]: "split_path path \<noteq> []"
  by (induction path) (auto split: list.splits)

lemma split_path_span: "split_path path = takeWhile (\<lambda>c. c \<noteq> slash) path #
    (case dropWhile (\<lambda>c. c \<noteq> slash) path of [] \<Rightarrow> [] | c # cs \<Rightarrow> split_path cs)"
  by (induction path) auto

lemma path_elems_slashes: "path_elems (dropWhile (\<lambda>c. c = slash) path) = path_elems path"
  by (induction path) (auto simp: path_elems_def)

lemma path_elems_Nil: "path_elems path = [] \<longleftrightarrow> dropWhile (\<lambda>c. c = slash) path = []"
proof -
  have "path_elems path \<noteq> []" if "dropWhile (\<lambda>c. c = slash) path = c # cs" for c cs
  proof -
    have "c \<noteq> slash" using hd_dropWhile [of "\<lambda>c. c = slash" path] that by simp
    then have "path_elems (c # cs) \<noteq> []" by (auto simp: path_elems_def split: list.splits)
    then show ?thesis using path_elems_slashes [of path] that by simp
  qed
  moreover have "path_elems [] = []" by (simp add: path_elems_def)
  ultimately show ?thesis using path_elems_slashes [of path] by (cases "dropWhile (\<lambda>c. c = slash) path") auto
qed

lemma path_elems_step:
  assumes "path = c # cs" "c \<noteq> slash"
  shows "path_elems path = takeWhile (\<lambda>c. c \<noteq> slash) path # path_elems (dropWhile (\<lambda>c. c \<noteq> slash) path)"
proof -
  let ?rest = "dropWhile (\<lambda>c. c \<noteq> slash) path"
  have "takeWhile (\<lambda>c. c \<noteq> slash) path \<noteq> []" using assms by simp
  then have "path_elems path = takeWhile (\<lambda>c. c \<noteq> slash) path #
      filter (\<lambda>e. e \<noteq> []) (case ?rest of [] \<Rightarrow> [] | c # cs \<Rightarrow> split_path cs)"
    unfolding path_elems_def by (subst split_path_span) simp
  moreover have "filter (\<lambda>e. e \<noteq> []) (case xs of [] \<Rightarrow> [] | c # cs \<Rightarrow> split_path cs) = path_elems xs"
    if "xs = [] \<or> hd xs = slash" for xs
    using that by (cases xs) (auto simp: path_elems_def)
  moreover have "?rest = [] \<or> hd ?rest = slash" using hd_dropWhile [of "\<lambda>c. c \<noteq> slash" path] by auto
  ultimately show ?thesis by metis
qed

section \<open>Names\<close>

text \<open>The name in a buffer of \<open>DIRSIZ\<close> bytes.\<close>

definition name_of :: "u8 list \<Rightarrow> u8 list" where
  "name_of name = takeWhile (\<lambda>c. c \<noteq> 0) (take DIRSIZ name)"

lemma name_of_put:
  assumes "length name = DIRSIZ" "0 \<notin> set e"
  shows "name_of (if length e \<ge> DIRSIZ then put_bytes_at 0 (take DIRSIZ e) name else put_bytes_at 0 (e @ [0]) name) = take DIRSIZ e"
proof (cases "length e \<ge> DIRSIZ")
  case True
  have "takeWhile (\<lambda>c. c \<noteq> 0) (take DIRSIZ e) = take DIRSIZ e" using assms(2) by (intro takeWhile_eq_all_conv [THEN iffD2]) (auto dest: in_set_takeD)
  then show ?thesis using True assms(1) by (simp add: name_of_def put_bytes_at_def)
next
  case False
  have "takeWhile (\<lambda>c. c \<noteq> 0) (e @ 0 # x) = e" for x using assms(2) by (intro takeWhile_tail [THEN trans]) auto
  then show ?thesis using False assms(1) by (simp add: name_of_def put_bytes_at_def take_Cons')
qed

text \<open>The names \<open>namex\<close> looks up in turn.\<close>

function skip_names :: "u8 list \<Rightarrow> u8 list \<Rightarrow> u8 list list" where
  "skip_names path name =
     (case skipelem path name of None \<Rightarrow> [] | Some (path, name) \<Rightarrow> name_of name # skip_names path name)"
  by pat_completeness auto
termination by (relation "measure (\<lambda>(path, name). length path)") (auto dest: skipelem_shorter)

declare skip_names.simps [simp del]

lemma skipelem_elem:
  assumes "length name = DIRSIZ" "0 \<notin> set path" "dropWhile (\<lambda>c. c = slash) path = c # cs"
  obtains rest name' e where "skipelem path name = Some (rest, name')" "path_elems path = e # path_elems rest"
    "name_of name' = take DIRSIZ e" "length name' = DIRSIZ" "0 \<notin> set rest"
proof -
  let ?p = "c # cs" let ?e = "takeWhile (\<lambda>c. c \<noteq> slash) ?p" let ?rest = "dropWhile (\<lambda>c. c = slash) (dropWhile (\<lambda>c. c \<noteq> slash) ?p)"
  let ?n = "if length ?e \<ge> DIRSIZ then put_bytes_at 0 (take DIRSIZ ?e) name else put_bytes_at 0 (?e @ [0]) name"
  have c: "c \<noteq> slash" using hd_dropWhile [of "\<lambda>c. c = slash" path] assms(3) by simp
  have p: "0 \<notin> set ?p" using assms(2,3) set_dropWhileD [of _ "\<lambda>c. c = slash" path] by force
  have e: "0 \<notin> set ?e" "0 \<notin> set ?rest" using p by (meson set_takeWhileD set_dropWhileD)+
  have "skipelem path name = Some (?rest, ?n)" unfolding skipelem_def assms(3) Let_def by simp
  moreover have "path_elems path = ?e # path_elems ?rest"
    using path_elems_slashes [of path] path_elems_step [of ?p, OF refl c] unfolding assms(3) by (simp only: path_elems_slashes)
  moreover have "length ?n = DIRSIZ" using assms(1) by (auto simp: put_bytes_at_def)
  ultimately show ?thesis using that name_of_put [OF assms(1) e(1)] e(2) by blast
qed

section \<open>Property\<close>

text \<open>
  C30: The names \<open>namex\<close> looks up, taken from the path by repeated \<open>skipelem\<close>, are the non-empty parts of the
  path between slashes, each cut to \<open>DIRSIZ\<close> characters.
\<close>

theorem skipelem_splits_path:
  assumes "length name = DIRSIZ" "0 \<notin> set path"
  shows "skip_names path name = map (take DIRSIZ) (path_elems path)"
  using assms
proof (induction path name rule: skip_names.induct)
  case (1 path name)
  show ?case
  proof (cases "dropWhile (\<lambda>c. c = slash) path")
    case Nil
    then have "skipelem path name = None" unfolding skipelem_def Let_def by simp
    then show ?thesis using Nil path_elems_Nil [of path] by (simp add: skip_names.simps)
  next
    case (Cons c cs)
    from skipelem_elem [OF "1.prems" Cons] obtain rest name' e where
      r: "skipelem path name = Some (rest, name')" "path_elems path = e # path_elems rest"
      "name_of name' = take DIRSIZ e" "length name' = DIRSIZ" "0 \<notin> set rest" .
    then show ?thesis using "1.IH" [OF r(1) refl] by (simp add: skip_names.simps)
  qed
qed

theorem skipelem_splits_path_witness:
  "skip_names (cstr ''//usr/bin/a_very_long_file_name'') (replicate 14 0) = map cstr [''usr'', ''bin'', ''a_very_long_fi'']"
proof -
  have "0 \<notin> set (cstr ''//usr/bin/a_very_long_file_name'')" by (simp add: cstr_def)
  then have "skip_names (cstr ''//usr/bin/a_very_long_file_name'') (replicate 14 0) =
      map (take DIRSIZ) (path_elems (cstr ''//usr/bin/a_very_long_file_name''))"
    by (intro skipelem_splits_path) (simp_all add: DIRSIZ_def)
  then show ?thesis by (simp add: path_elems_def cstr_def slash_def DIRSIZ_def)
qed

end
