(* ===== verification/Usys.thy ===== *)
theory Usys
  imports Prelude
begin

text \<open>
  The system-call interface of user programs: the declarations of \<open>user/user.h\<close>, whose stubs
  \<open>user/usys.pl\<close> generates.  A stub puts its arguments into registers, executes \<open>ecall\<close> and returns
  register \<open>a0\<close>.  A user program only sees the value in \<open>a0\<close> and the bytes the kernel stored through
  a pointer argument, so a program is modelled as a function of the kernel's \<^emph>\<open>replies\<close> to its next
  calls; the calls it makes, with what the kernel reads through their pointer arguments, are recorded
  in \<open>calls\<close>, the oldest first.

  A user function of C type \<open>T f(args)\<close> is modelled as \<open>f args s\<close> of type \<open>(state, T) uout\<close>.  It returns
  (\<open>URet\<close>), or ends the process (\<open>UExit\<close>), or is still in the last of its calls when the replies are
  used up (\<open>UWait\<close>), or does what the C standard leaves undefined (\<open>UFault\<close>), or does not end: its recursion is
  deeper than the model allows, or a loop goes round a broken free list for ever (\<open>UFuel\<close>, used by the parser of the
  shell and its calls of \<open>malloc\<close>, and shown not to occur there).
\<close>

section \<open>Calls and replies\<close>

datatype ucall =
    U_fork | U_wait bool | U_pipe | U_write i32 "u8 list" | U_read i32 nat | U_close i32 | U_kill i32
  | U_exec "u8 list" "u8 list list" | U_open "u8 list" i32 | U_mknod "u8 list" u16 u16 | U_unlink "u8 list"
  | U_fstat i32 | U_link "u8 list" "u8 list" | U_mkdir "u8 list" | U_chdir "u8 list" | U_dup i32 | U_getpid
  | U_sbrk i32 | U_sleep i32 | U_uptime | U_set_sched i32 | U_set_priority i32 i32 | U_top
  | U_fork_with_priority i32 | U_get_waiting_time i32 | U_yield

type_synonym reply = "u64 \<times> u8 list"

record user_state =
  replies :: "reply list"
  calls :: "ucall list"

datatype ('s, 'a) uout = URet 'a 's | UExit i32 's | UWait 's | UFault | UFuel

fun ubnd :: "('s, 'a) uout \<Rightarrow> ('a \<Rightarrow> 's \<Rightarrow> ('s, 'b) uout) \<Rightarrow> ('s, 'b) uout" where
  "ubnd (URet a s) f = f a s"
| "ubnd (UExit v s) f = UExit v s"
| "ubnd (UWait s) f = UWait s"
| "ubnd UFault f = UFault"
| "ubnd UFuel f = UFuel"

lemma ubnd_cong [fundef_cong]:
  "x = y \<Longrightarrow> (\<And>a s. y = URet a s \<Longrightarrow> f a s = g a s) \<Longrightarrow> ubnd x f = ubnd y g"
  by (cases y) auto

lemma ubnd_assoc: "ubnd (ubnd x f) g = ubnd x (\<lambda>a s. ubnd (f a s) g)"
  by (cases x) auto

lemma ubnd_UFuel_iff: "ubnd x f = UFuel \<longleftrightarrow> x = UFuel \<or> (\<exists>a s. x = URet a s \<and> f a s = UFuel)"
  by (cases x) auto

lemma ubnd_URet_iff: "ubnd x f = URet b t \<longleftrightarrow> (\<exists>a s. x = URet a s \<and> f a s = URet b t)"
  by (cases x) auto

definition usys :: "ucall \<Rightarrow> 'a user_state_scheme \<Rightarrow> ('a user_state_scheme, reply) uout" where
  "usys c s =
     (case replies s of
        [] \<Rightarrow> UWait (s\<lparr>calls := calls s @ [c]\<rparr>)
      | r # rs \<Rightarrow> URet r (s\<lparr>replies := rs, calls := calls s @ [c]\<rparr>))"

lemma usys_replies: "usys c s = URet r t \<Longrightarrow> replies s = r # replies t"
  by (auto simp: usys_def split: list.splits)

text \<open>A call whose stub returns \<open>int\<close>, and one that also stores bytes through a pointer.\<close>

definition icall :: "ucall \<Rightarrow> 'a user_state_scheme \<Rightarrow> ('a user_state_scheme, i32) uout" where
  "icall c s = ubnd (usys c s) (\<lambda>r s. URet (ucast (fst r)) s)"

definition dcall :: "ucall \<Rightarrow> 'a user_state_scheme \<Rightarrow> ('a user_state_scheme, i32 \<times> u8 list) uout" where
  "dcall c s = ubnd (usys c s) (\<lambda>r s. URet (ucast (fst r), snd r) s)"

lemma icall_replies: "icall c s = URet v t \<Longrightarrow> length (replies t) < length (replies s)"
  by (auto simp: icall_def ubnd_URet_iff dest: usys_replies)

lemma dcall_replies: "dcall c s = URet v t \<Longrightarrow> length (replies t) < length (replies s)"
  by (auto simp: dcall_def ubnd_URet_iff dest: usys_replies)

lemma icall_reply:
  "replies s = (v, bs) # rs \<Longrightarrow> icall c s = URet (ucast v) (s\<lparr>replies := rs, calls := calls s @ [c]\<rparr>)"
  by (simp add: icall_def usys_def)

lemma dcall_reply:
  "replies s = (v, bs) # rs \<Longrightarrow> dcall c s = URet (ucast v, bs) (s\<lparr>replies := rs, calls := calls s @ [c]\<rparr>)"
  by (simp add: dcall_def usys_def)

text \<open>\<open>exit\<close> does not return.\<close>

definition uexit :: "i32 \<Rightarrow> 's \<Rightarrow> ('s, 'a) uout" where
  "uexit v s = UExit v s"

text \<open>Bytes stored into an array from an index on; a byte past the end of the array is not representable.\<close>

definition store_bytes :: "nat \<Rightarrow> u8 list \<Rightarrow> u8 list \<Rightarrow> u8 list" where
  "store_bytes off bs buf = take (length buf) (take off buf @ bs @ drop (off + length bs) buf)"

lemma length_store_bytes [simp]: "off \<le> length buf \<Longrightarrow> length (store_bytes off bs buf) = length buf"
  by (simp add: store_bytes_def)

lemma store_bytes_fits:
  "off + length bs \<le> length buf \<Longrightarrow> store_bytes off bs buf = take off buf @ bs @ drop (off + length bs) buf"
  by (simp add: store_bytes_def)

text \<open>A C \<open>int\<close> that is not negative.\<close>

lemma sint_nonneg:
  assumes "0 \<le>s (n :: i32)"
  shows "sint n = int (unat n)"
proof -
  have "0 \<le> sint n" using assms by (simp add: word_sle_eq)
  moreover have "uint n = sint n mod 2 ^ 32" by (simp add: uint_sint take_bit_eq_mod)
  moreover have "sint n < 2 ^ 31" using sint_lt [of n] by simp
  ultimately show ?thesis by simp
qed

end
