(* ===== verification/Umalloc.thy ===== *)
theory Umalloc
  imports Usys
begin

text \<open>
  The memory allocator of user programs, \<open>user/umalloc.c\<close>.  A header is stored at the address of its block;
  \<open>hdrs\<close> is the memory seen as headers.  Sizes count units of the size of a header, 16 bytes.  \<open>base\<close> is
  the address the linker gave the static header \<open>base\<close>.  The loops over the circular free list need not end
  on a broken list: such a call has the value \<open>None\<close>.
\<close>

record header =
  h_ptr :: u64
  h_size :: u32

record heap_state = user_state +
  hdrs :: "u64 \<Rightarrow> header"
  base :: u64
  freep :: u64

definition set_ptr :: "u64 \<Rightarrow> u64 \<Rightarrow> 'a heap_state_scheme \<Rightarrow> 'a heap_state_scheme" where
  "set_ptr p v s = s\<lparr>hdrs := (hdrs s)(p := (hdrs s p)\<lparr>h_ptr := v\<rparr>)\<rparr>"

definition set_size :: "u64 \<Rightarrow> u32 \<Rightarrow> 'a heap_state_scheme \<Rightarrow> 'a heap_state_scheme" where
  "set_size p v s = s\<lparr>hdrs := (hdrs s)(p := (hdrs s p)\<lparr>h_size := v\<rparr>)\<rparr>"

definition ptr_at :: "'a heap_state_scheme \<Rightarrow> u64 \<Rightarrow> u64" where
  "ptr_at s p = h_ptr (hdrs s p)"

definition size_at :: "'a heap_state_scheme \<Rightarrow> u64 \<Rightarrow> u32" where
  "size_at s p = h_size (hdrs s p)"

text \<open>\<open>p + n\<close> for a pointer to a header.\<close>

definition hdr_plus :: "u64 \<Rightarrow> u32 \<Rightarrow> u64" where
  "hdr_plus p n = p + 16 * ucast n"

section \<open>\<open>free\<close>\<close>

text \<open>The search for the place of \<open>bp\<close>: \<open>bp\<close> goes between the result and its successor.\<close>

partial_function (option) free_search :: "(u64 \<Rightarrow> header) \<Rightarrow> u64 \<Rightarrow> u64 \<Rightarrow> u64 option" where
  "free_search h bp p =
     (if bp > p \<and> bp < h_ptr (h p) then Some p
      else if p \<ge> h_ptr (h p) \<and> (bp > p \<or> bp < h_ptr (h p)) then Some p
      else free_search h bp (h_ptr (h p)))"

definition free_insert :: "u64 \<Rightarrow> u64 \<Rightarrow> 'a heap_state_scheme \<Rightarrow> 'a heap_state_scheme" where
  "free_insert bp p s =
     (let s = (if hdr_plus bp (size_at s bp) = ptr_at s p
               then let s = set_size bp (size_at s bp + size_at s (ptr_at s p)) s
                    in set_ptr bp (ptr_at s (ptr_at s p)) s
               else set_ptr bp (ptr_at s p) s);
          s = (if hdr_plus p (size_at s p) = bp
               then let s = set_size p (size_at s p + size_at s bp) s in set_ptr p (ptr_at s bp) s
               else set_ptr p bp s)
      in s\<lparr>freep := p\<rparr>)"

definition ufree :: "u64 \<Rightarrow> 'a heap_state_scheme \<Rightarrow> 'a heap_state_scheme option" where
  "ufree ap s =
     (let bp = ap - 16 in
      map_option (\<lambda>p. free_insert bp p s) (free_search (hdrs s) bp (freep s)))"

section \<open>\<open>malloc\<close>\<close>

text \<open>\<open>morecore\<close>; the argument of \<open>sbrk\<close> is an \<open>int\<close>.\<close>

definition morecore :: "u32 \<Rightarrow> 'a heap_state_scheme \<Rightarrow> ('a heap_state_scheme, u64) uout option" where
  "morecore nu s =
     (let nu = (if nu < 4096 then 4096 else nu) in
      case usys (U_sbrk (ucast (ucast nu * 16 :: u64))) s of
        URet r s \<Rightarrow>
          (let p = fst r in
           if p = -1 then Some (URet 0 s)
           else map_option (\<lambda>s. URet (freep s) s) (ufree (hdr_plus p 1) (set_size p nu s)))
      | UWait s \<Rightarrow> Some (UWait s)
      | UExit v s \<Rightarrow> Some (UExit v s)
      | UFault \<Rightarrow> Some UFault
      | UFuel \<Rightarrow> Some UFuel)"

definition malloc_take :: "u32 \<Rightarrow> u64 \<Rightarrow> u64 \<Rightarrow> 'a heap_state_scheme \<Rightarrow> ('a heap_state_scheme, u64) uout" where
  "malloc_take nunits prevp p s =
     (if size_at s p = nunits
      then URet (hdr_plus p 1) ((set_ptr prevp (ptr_at s p) s)\<lparr>freep := prevp\<rparr>)
      else let s = set_size p (size_at s p - nunits) s;
               q = hdr_plus p (size_at s p)
           in URet (hdr_plus q 1) ((set_size q nunits s)\<lparr>freep := prevp\<rparr>))"

partial_function (option) malloc_loop ::
    "u32 \<Rightarrow> u64 \<Rightarrow> u64 \<Rightarrow> 'a heap_state_scheme \<Rightarrow> ('a heap_state_scheme, u64) uout option" where
  "malloc_loop nunits prevp p s =
     (if size_at s p \<ge> nunits then Some (malloc_take nunits prevp p s)
      else if p = freep s
      then case morecore nunits s of
             None \<Rightarrow> None
           | Some (URet p s) \<Rightarrow> if p = 0 then Some (URet 0 s) else malloc_loop nunits p (ptr_at s p) s
           | Some r \<Rightarrow> Some r
      else malloc_loop nunits p (ptr_at s p) s)"

definition malloc_units :: "u32 \<Rightarrow> u32" where
  "malloc_units nbytes = ucast ((ucast nbytes + 16 - 1) div 16 + 1 :: u64)"

definition malloc_init :: "'a heap_state_scheme \<Rightarrow> 'a heap_state_scheme" where
  "malloc_init s = (if freep s = 0 then set_size (base s) 0 (set_ptr (base s) (base s) (s\<lparr>freep := base s\<rparr>)) else s)"

definition umalloc :: "u32 \<Rightarrow> 'a heap_state_scheme \<Rightarrow> ('a heap_state_scheme, u64) uout option" where
  "umalloc nbytes s =
     (let s = malloc_init s in malloc_loop (malloc_units nbytes) (freep s) (ptr_at s (freep s)) s)"

declare free_search.simps [code] malloc_loop.simps [code]

section \<open>The free list\<close>

text \<open>\<open>ptr_path h p as q\<close>: following \<open>ptr\<close> from \<open>p\<close> visits the nodes \<open>as\<close> and arrives at \<open>q\<close>.\<close>

fun ptr_path :: "(u64 \<Rightarrow> u64) \<Rightarrow> u64 \<Rightarrow> u64 list \<Rightarrow> u64 \<Rightarrow> bool" where
  "ptr_path h p [] q \<longleftrightarrow> p = q"
| "ptr_path h p (a # as) q \<longleftrightarrow> p = a \<and> ptr_path h (h a) as q"

lemma path_append: "ptr_path h p (as @ bs) q \<longleftrightarrow> (\<exists>c. ptr_path h p as c \<and> ptr_path h c bs q)"
  by (induction as arbitrary: p) auto

lemma path_upd [simp]: "a \<notin> set as \<Longrightarrow> ptr_path (h(a := v)) p as q \<longleftrightarrow> ptr_path h p as q"
  by (induction as arbitrary: p) auto

text \<open>The first address after a block.\<close>

definition end_at :: "'a heap_state_scheme \<Rightarrow> u64 \<Rightarrow> nat" where
  "end_at s p = unat p + 16 * unat (size_at s p)"

definition block :: "'a heap_state_scheme \<Rightarrow> u64 \<Rightarrow> nat set" where
  "block s p = {unat p ..< end_at s p}"

definition free_bytes :: "u64 list \<Rightarrow> 'a heap_state_scheme \<Rightarrow> nat set" where
  "free_bytes as s = (\<Union>a \<in> set as. block s a)"

text \<open>
  The representation invariant: the free list is the circle through \<open>base\<close> and the blocks \<open>as\<close>, which have
  increasing addresses, do not overlap and do not even touch; the live blocks, named by the addresses of
  their headers, overlap neither them nor each other.  Process memory ends below \<open>2 ^ 36\<close>, so that no sum of sizes
  overflows.
\<close>

definition block_ok :: "'a heap_state_scheme \<Rightarrow> u64 \<Rightarrow> bool" where
  "block_ok s p \<longleftrightarrow> unat (base s) + 16 \<le> unat p \<and> end_at s p \<le> 2 ^ 36 \<and> 0 < unat (size_at s p)"

definition apart :: "'a heap_state_scheme \<Rightarrow> u64 \<Rightarrow> u64 \<Rightarrow> bool" where
  "apart s a b \<longleftrightarrow> end_at s a \<le> unat b \<or> end_at s b \<le> unat a"

definition heap_rep :: "u64 list \<Rightarrow> u64 set \<Rightarrow> 'a heap_state_scheme \<Rightarrow> bool" where
  "heap_rep as live s \<longleftrightarrow>
     base s \<noteq> 0 \<and> size_at s (base s) = 0 \<and>
     ptr_path (ptr_at s) (base s) (base s # as) (base s) \<and> freep s \<in> set (base s # as) \<and>
     sorted_wrt (\<lambda>a b. end_at s a < unat b) as \<and> set as \<inter> live = {} \<and> (\<forall>a \<in> set as \<union> live. block_ok s a) \<and>
     (\<forall>a \<in> live. \<forall>b \<in> set as \<union> live - {a}. apart s a b)"

section \<open>Searching the list\<close>

lemma state_sel [simp]:
  "ptr_at (set_ptr p v s) = (ptr_at s)(p := v)" "ptr_at (set_size p n s) = ptr_at s" "ptr_at (s\<lparr>freep := q\<rparr>) = ptr_at s"
  "size_at (set_size p n s) = (size_at s)(p := n)" "size_at (set_ptr p v s) = size_at s" "size_at (s\<lparr>freep := q\<rparr>) = size_at s"
  "base (set_ptr p v s) = base s" "base (set_size p n s) = base s" "freep (set_ptr p v s) = freep s" "freep (set_size p n s) = freep s"
  "replies (set_ptr p v s) = replies s" "replies (set_size p n s) = replies s" "calls (set_ptr p v s) = calls s" "calls (set_size p n s) = calls s"
  by (auto simp: set_ptr_def set_size_def ptr_at_def size_at_def fun_eq_iff)

lemma free_search_path:
  assumes "ptr_path (\<lambda>a. h_ptr (h a)) f zs q"
    and "\<And>z. z \<in> set zs \<Longrightarrow> \<not> (bp > z \<and> bp < h_ptr (h z)) \<and> \<not> (z \<ge> h_ptr (h z) \<and> (bp > z \<or> bp < h_ptr (h z)))"
  shows "free_search h bp f = free_search h bp q"
  using assms
proof (induction zs arbitrary: f)
  case (Cons z zs)
  have "free_search h bp z = free_search h bp (h_ptr (h z))"
    using Cons.prems(2) [of z] by (subst free_search.simps) (simp only: list.set_intros if_False)
  also have "\<dots> = free_search h bp q" using Cons by simp
  finally show ?case using Cons.prems(1) by simp
qed simp

text \<open>Where a path starts at a node of a list, it follows the rest of the list.\<close>

lemma path_from:
  assumes "ptr_path h a (us @ f # vs) c"
  shows "ptr_path h f (f # vs) c"
  using assms by (auto simp: path_append)

lemma path_sorted_next:
  assumes "ptr_path h a (us @ f # vs) c" "sorted_wrt (\<lambda>x y. unat x < unat y) (us @ f # vs)" "vs \<noteq> []"
  shows "h f = hd vs" "f < h f"
  using assms by (auto simp: path_append sorted_wrt_append neq_Nil_conv word_less_nat_alt)

lemma free_search_finds:
  assumes pa: "ptr_path (\<lambda>a. h_ptr (h a)) b (us @ p # ys) b" and so: "sorted_wrt (\<lambda>x y. unat x < unat y) (us @ p # ys)"
    and hd: "hd (us @ [p]) = b" and lo: "unat p < unat bp" and hi: "\<forall>y \<in> set ys. unat bp < unat y" and f: "f \<in> set (us @ p # ys)"
  shows "free_search h bp f = Some p"
proof -
  let ?h = "\<lambda>a. h_ptr (h a)"
  have P: "?h p = hd (ys @ [b])" using pa by (cases ys) (auto simp: path_append)
  have bp: "unat b \<le> unat p" using hd so by (cases us) (auto simp: sorted_wrt_append)
  have at_p: "free_search h bp p = Some p"
    using lo hi P bp by (subst free_search.simps) (cases ys; simp add: word_less_nat_alt word_le_nat_alt)
  have up: "free_search h bp g = Some p" if g: "g \<in> set us" for g
  proof -
    obtain u1 u2 where u: "us = u1 @ g # u2" using g by (auto dest: split_list)
    have "ptr_path ?h g (g # u2) p" using pa unfolding u by (auto simp: path_append)
    moreover have "\<not> (bp > z \<and> bp < ?h z) \<and> \<not> (z \<ge> ?h z \<and> (bp > z \<or> bp < ?h z))" if "z \<in> set (g # u2)" for z
    proof -
      have "z \<in> set us" using that u by auto
      then obtain w1 w2 where w: "us = w1 @ z # w2" by (auto dest: split_list)
      have "?h z = hd (w2 @ p # ys)" "z < ?h z"
        using path_sorted_next [of ?h b w1 z "w2 @ p # ys" b] pa so unfolding w by simp_all
      moreover have "unat (hd (w2 @ p # ys)) \<le> unat p" using so unfolding w by (cases w2) (auto simp: sorted_wrt_append)
      ultimately show ?thesis using lo by (auto simp: word_less_nat_alt word_le_nat_alt)
    qed
    ultimately show ?thesis using free_search_path [of h g "g # u2" p bp] at_p by simp
  qed
  have b: "free_search h bp b = Some p" using hd up [of b] at_p by (cases us) auto
  have dn: "free_search h bp g = Some p" if g: "g \<in> set ys" for g
  proof -
    obtain y1 y2 where y: "ys = y1 @ g # y2" using g by (auto dest: split_list)
    have "ptr_path ?h g (g # y2) b" using pa unfolding y by (auto simp: path_append)
    moreover have "\<not> (bp > z \<and> bp < ?h z) \<and> \<not> (z \<ge> ?h z \<and> (bp > z \<or> bp < ?h z))" if "z \<in> set (g # y2)" for z
    proof -
      have zy: "unat bp < unat z" using that hi y by auto
      have "z \<in> set ys" using that y by auto
      then obtain w1 w2 where w: "ys = w1 @ z # w2" by (auto dest: split_list)
      show ?thesis
      proof (cases w2)
        case Nil
        then have "?h z = b" using pa unfolding w by (auto simp: path_append)
        then show ?thesis using zy bp lo by (auto simp: word_less_nat_alt word_le_nat_alt)
      next
        case (Cons c cs)
        then have "z < ?h z" using path_sorted_next [of ?h b "us @ p # w1" z w2 b] pa so unfolding w by simp
        then show ?thesis using zy by (auto simp: word_less_nat_alt word_le_nat_alt)
      qed
    qed
    ultimately show ?thesis using free_search_path [of h g "g # y2" b bp] b by simp
  qed
  show ?thesis using f up at_p dn by auto
qed

section \<open>Inserting a block\<close>

lemma end_at_upd [simp]:
  "end_at (set_ptr p v s) = end_at s" "end_at (set_size p n s) = (end_at s)(p := unat p + 16 * unat n)"
  "end_at (s\<lparr>freep := q\<rparr>) = end_at s"
  by (auto simp: end_at_def fun_eq_iff)

lemma unat_hdr_plus: "end_at s p < 2 ^ 64 \<Longrightarrow> unat (hdr_plus p (size_at s p)) = end_at s p"
  using unat_add_of_nat [of p "16 * unat (size_at s p)"]
  by (simp add: hdr_plus_def end_at_def)

lemma hdr_plus_eq: "end_at s p < 2 ^ 64 \<Longrightarrow> hdr_plus p (size_at s p) = q \<longleftrightarrow> end_at s p = unat q"
  using unat_hdr_plus [of s p] by (auto simp: word_unat_eq_iff)

text \<open>The size of two adjacent blocks.\<close>

lemma unat_size_sum:
  assumes "0 < unat a" "end_at s a = unat b" "end_at s b \<le> 2 ^ 36"
  shows "unat a + 16 * unat (size_at s a + size_at s b) = end_at s b"
proof -
  have e: "unat a + 16 * (unat (size_at s a) + unat (size_at s b)) = end_at s b" using assms(2) by (simp add: end_at_def)
  then have "unat (size_at s a) + unat (size_at s b) < 2 ^ 32" using assms(1,3) by simp
  then have "unat (size_at s a + size_at s b) = unat (size_at s a) + unat (size_at s b)" by (subst unat_add_lem [THEN iffD1]) simp_all
  with e show ?thesis by simp
qed

text \<open>The nodes with \<open>base\<close>, which is an empty block.\<close>

lemma heap_rep_nodes:
  "heap_rep as live s \<longleftrightarrow>
     base s \<noteq> 0 \<and> size_at s (base s) = 0 \<and>
     ptr_path (ptr_at s) (base s) (base s # as) (base s) \<and> freep s \<in> set (base s # as) \<and>
     sorted_wrt (\<lambda>a b. end_at s a < unat b) (base s # as) \<and> set as \<inter> live = {} \<and> (\<forall>a \<in> set as \<union> live. block_ok s a) \<and>
     (\<forall>a \<in> live. \<forall>b \<in> set as \<union> live - {a}. apart s a b)"
proof -
  have "end_at s (base s) < unat a" if "size_at s (base s) = 0" "block_ok s a" for a
    using that by (simp add: end_at_def block_ok_def)
  then show ?thesis unfolding heap_rep_def by auto
qed

lemma block_ok_end: "block_ok s a \<Longrightarrow> unat a < end_at s a \<and> 16 \<le> unat a"
  unfolding block_ok_def end_at_def by linarith

lemma sorted_end_imp_less: "sorted_wrt (\<lambda>a b. end_at s a < unat b) as \<Longrightarrow> sorted_wrt (\<lambda>a b. unat a < unat b) as"
  by (erule sorted_wrt_mono_rel [rotated]) (simp add: end_at_def)

lemma sorted_less_distinct: "sorted_wrt (\<lambda>a b. unat a < unat b) as \<Longrightarrow> distinct as"
  by (induction as) auto

text \<open>The nodes after a given one, and the nodes that remain when some are cut out, as a set.\<close>

lemma nodes_after: "b # as = us @ p # ys \<Longrightarrow> set ys \<subseteq> set as"
  by (cases us) auto

lemma nodes_set:
  assumes "b # as = us @ p # zs" "distinct (us @ p # zs)"
  shows "set as = set (us @ p # zs) - {b}"
proof -
  have "distinct (b # as)" using assms by simp
  then show ?thesis unfolding assms(1) [symmetric] by auto
qed

lemma nodes_tl: "b # as = us @ p # zs \<Longrightarrow> \<exists>as'. b # as' = us @ p # zs'"
  by (cases us) auto

text \<open>
  The block \<open>bp\<close>, joined with its successor where they touch: \<open>n\<close> is its size then, \<open>rest\<close> the nodes after it,
  \<open>pre\<close> the node it swallowed.
\<close>

definition joined :: "u64 set \<Rightarrow> 'a heap_state_scheme \<Rightarrow> u64 \<Rightarrow> u32 \<Rightarrow> u64 list \<Rightarrow> u64 list \<Rightarrow> bool" where
  "joined live s bp n pre rest \<longleftrightarrow>
     0 < unat n \<and> unat bp + 16 * unat n \<le> 2 ^ 36 \<and> end_at s bp \<le> unat bp + 16 * unat n \<and>
     (\<forall>r \<in> set rest. unat bp + 16 * unat n < unat r) \<and>
     {unat bp ..< unat bp + 16 * unat n} = block s bp \<union> free_bytes pre s \<and>
     (\<forall>a \<in> live - {bp}. unat bp + 16 * unat n \<le> unat a \<or> end_at s a \<le> unat bp)"

lemma join_successor:
  fixes s :: "'a heap_state_scheme"
  assumes rep: "heap_rep as live s" and bp: "bp \<in> live" and N: "base s # as = us @ p # ys" and hi: "\<forall>y \<in> set ys. unat bp < unat y"
  obtains n rest pre where
    "(if hdr_plus bp (size_at s bp) = ptr_at s p
      then let s = set_size bp (size_at s bp + size_at s (ptr_at s p)) s in set_ptr bp (ptr_at s (ptr_at s p)) s
      else set_ptr bp (ptr_at s p) s) = set_ptr bp (hd (rest @ [base s])) (set_size bp n s)"
    "ys = pre @ rest" "joined live s bp n pre rest"
proof -
  note R = rep [unfolded heap_rep_nodes]
  have so: "sorted_wrt (\<lambda>a b. end_at s a < unat b) (us @ p # ys)" and pa: "ptr_path (ptr_at s) (base s) (us @ p # ys) (base s)"
    using R N by simp_all
  have yas: "set ys \<subseteq> set as" by (rule nodes_after [OF N])
  have okb: "block_ok s bp" using R bp by blast
  have ok: "block_ok s y" if "y \<in> set ys" for y using R yas that by blast
  have yl: "y \<notin> live" "y \<in> set as" if "y \<in> set ys" for y using R yas that by blast+
  have after: "\<forall>y \<in> set ys. end_at s bp \<le> unat y"
  proof
    fix y assume y: "y \<in> set ys"
    then have "apart s bp y" using R bp yl [OF y] by blast
    then show "end_at s bp \<le> unat y" using hi y by (auto simp: apart_def end_at_def)
  qed
  have ap: "\<forall>a \<in> live - {bp}. end_at s bp \<le> unat a \<or> end_at s a \<le> unat bp" using R bp by (auto simp: apart_def)
  have nx: "ptr_at s p = hd (ys @ [base s])" using pa by (cases ys) (auto simp: path_append)
  have e: "end_at s bp < 2 ^ 64" using okb by (simp add: block_ok_def)
  show thesis
  proof (cases "ys \<noteq> [] \<and> end_at s bp = unat (hd ys)")
    case True
    then obtain q zs where y: "ys = q # zs" "end_at s bp = unat q" by (cases ys) auto
    have okq: "block_ok s q" using ok [of q] y by simp
    have q: "ptr_at s p = q" "ptr_at s q = hd (zs @ [base s])" "q \<noteq> bp"
      using nx pa y okb by (cases zs; auto simp: path_append block_ok_def end_at_def)+
    have sz: "unat bp + 16 * unat (size_at s bp + size_at s q) = end_at s q"
      using unat_size_sum [OF _ y(2)] okb okq by (simp add: block_ok_def)
    show thesis
    proof (rule that [of zs "size_at s bp + size_at s q" "[q]"])
      show "(if hdr_plus bp (size_at s bp) = ptr_at s p
          then let s = set_size bp (size_at s bp + size_at s (ptr_at s p)) s in set_ptr bp (ptr_at s (ptr_at s p)) s
          else set_ptr bp (ptr_at s p) s) = set_ptr bp (hd (zs @ [base s])) (set_size bp (size_at s bp + size_at s q) s)"
        using q y e by (simp add: hdr_plus_eq Let_def)
      show "joined live s bp (size_at s bp + size_at s q) [q] zs"
        unfolding joined_def
      proof (intro conjI)
        show "0 < unat (size_at s bp + size_at s q)" using sz y okq okb by (simp add: block_ok_def end_at_def)
        show "{unat bp..<unat bp + 16 * unat (size_at s bp + size_at s q)} = block s bp \<union> free_bytes [q] s"
          unfolding sz using y(2) by (auto simp: block_def free_bytes_def end_at_def)
        show "\<forall>a\<in>live - {bp}. unat bp + 16 * unat (size_at s bp + size_at s q) \<le> unat a \<or> end_at s a \<le> unat bp"
        proof
          fix a assume a: "a \<in> live - {bp}"
          then have "apart s a q" "block_ok s a" using R yl [of q] y by auto
          then show "unat bp + 16 * unat (size_at s bp + size_at s q) \<le> unat a \<or> end_at s a \<le> unat bp"
            unfolding sz using bspec [OF ap a] y(2) block_ok_end [of s a] by (auto simp: apart_def)
        qed
      qed (use sz y okq so in \<open>simp_all add: block_ok_def end_at_def sorted_wrt_append\<close>)
    qed (use y in simp)
  next
    case False
    have "hdr_plus bp (size_at s bp) \<noteq> ptr_at s p"
      using False nx okb by (cases ys) (auto simp: hdr_plus_eq [OF e] block_ok_def end_at_def)
    moreover have "set_size bp (size_at s bp) s = s" by (simp add: set_size_def size_at_def)
    moreover have "\<forall>r \<in> set ys. end_at s bp < unat r"
    proof (cases ys)
      case (Cons q zs)
      then have "end_at s bp < unat q" "\<forall>r \<in> set zs. unat q < unat r"
        using False after sorted_end_imp_less [OF so] by (simp_all add: sorted_wrt_append)
      with Cons show ?thesis by auto
    qed simp
    ultimately show thesis
      using okb ap nx
      by (intro that [of ys "size_at s bp" "[]"]) (simp_all add: joined_def block_ok_def block_def free_bytes_def end_at_def)
  qed
qed

lemma path_swap:
  assumes "ptr_path h b (us @ p # pre @ rest) c" "distinct (us @ p # pre @ rest)" "bp \<notin> set (us @ p # pre @ rest)"
  shows "ptr_path (h(bp := hd (rest @ [c]), p := bp)) b (us @ p # bp # rest) c"
    and "ptr_path (h(bp := v, p := hd (rest @ [c]))) b (us @ p # rest) c"
proof -
  obtain x where x: "ptr_path h b us x" "x = p" "ptr_path h (hd (rest @ [c])) rest c"
    using assms(1) by (cases rest) (auto simp: path_append)
  show "ptr_path (h(bp := hd (rest @ [c]), p := bp)) b (us @ p # bp # rest) c"
    "ptr_path (h(bp := v, p := hd (rest @ [c]))) b (us @ p # rest) c"
    using x assms(2,3) by (auto simp: path_append)
qed

lemma free_bytes_cong:
  "(\<And>a. a \<in> set as \<Longrightarrow> size_at t a = size_at s a) \<Longrightarrow> free_bytes as t = free_bytes as s"
  by (simp add: free_bytes_def block_def end_at_def)

lemma free_bytes_append: "free_bytes (as @ bs) s = free_bytes as s \<union> free_bytes bs s"
  by (simp add: free_bytes_def)

lemma free_bytes_nodes: "size_at s (base s) = 0 \<Longrightarrow> free_bytes as s = free_bytes (base s # as) s"
  by (simp add: free_bytes_def block_def end_at_def)

lemma sorted_upd [simp]:
  "p \<notin> set as \<Longrightarrow> sorted_wrt (\<lambda>a b. (f(p := v)) a < unat b) as \<longleftrightarrow> sorted_wrt (\<lambda>a b. f a < unat b) as"
  by (induction as) auto

lemma insert_separate:
  fixes s :: "'a heap_state_scheme"
  assumes rep: "heap_rep as live s" and bp: "bp \<in> live" and N: "base s # as = us @ p # pre @ rest"
    and J: "joined live s bp n pre rest" and lo: "end_at s p < unat bp"
    and t: "t = (set_ptr p bp (set_ptr bp (hd (rest @ [base s])) (set_size bp n s)))\<lparr>freep := p\<rparr>"
    and N': "base s # as' = us @ p # bp # rest"
  shows "heap_rep as' (live - {bp}) t" "free_bytes as' t = free_bytes as s \<union> block s bp"
    "\<forall>a \<in> live - {bp}. size_at t a = size_at s a"
proof -
  note R = rep [unfolded heap_rep_nodes] and J = J [unfolded joined_def]
  have so: "sorted_wrt (\<lambda>a b. end_at s a < unat b) (us @ p # pre @ rest)" and pa: "ptr_path (ptr_at s) (base s) (us @ p # pre @ rest) (base s)"
    using R N by simp_all
  note di = sorted_less_distinct [OF sorted_end_imp_less [OF so]]
  have asN: "set as = set (us @ p # pre @ rest) - {base s}" by (rule nodes_set [OF N di])
  have okb: "block_ok s bp" using R bp by blast
  have bpb: "bp \<noteq> base s" using okb by (auto simp: block_ok_def)
  have bpN: "bp \<notin> set (us @ p # pre @ rest)" using R bp bpb unfolding asN [symmetric] by (auto simp: asN)
  have asN': "set as' = set (us @ p # bp # rest) - {base s}" by (rule nodes_set [OF N']) (use di bpN in auto)
  have sub: "set as' \<subseteq> insert bp (set as)" unfolding asN asN' by auto
  have E: "end_at t = (end_at s)(bp := unat bp + 16 * unat n)" "size_at t = (size_at s)(bp := n)" "base t = base s" "freep t = p"
    "ptr_at t = (ptr_at s)(bp := hd (rest @ [base s]), p := bp)"
    by (simp_all add: t)
  have "\<forall>x \<in> set us. end_at s x < unat bp"
    using so lo by (auto simp: sorted_wrt_append end_at_def intro: order.strict_trans2 dest!: bspec)
  then have so': "sorted_wrt (\<lambda>a b. end_at t a < unat b) (us @ p # bp # rest)"
    using so J lo bpN unfolding E(1) by (auto simp: sorted_wrt_append simp del: fun_upd_apply) auto
  have ok: "block_ok t a" if "a \<in> set as' \<union> (live - {bp})" for a
  proof (cases "a = bp")
    case True
    then show ?thesis using okb J by (simp add: block_ok_def E)
  next
    case False
    then have "block_ok s a" using that R sub by blast
    then show ?thesis using False by (simp add: block_ok_def E)
  qed
  have ap: "apart t a b" if "a \<in> live - {bp}" "b \<in> set as' \<union> (live - {bp}) - {a}" for a b
  proof (cases "b = bp")
    case True
    then show ?thesis using that J by (auto simp: apart_def E)
  next
    case False
    then have "apart s a b" using that R sub by blast
    then show ?thesis using False that by (simp add: apart_def E)
  qed
  show "heap_rep as' (live - {bp}) t"
    unfolding heap_rep_nodes E(3,4) N'
  proof (intro conjI)
    show "ptr_path (ptr_at t) (base s) (us @ p # bp # rest) (base s)" unfolding E(5) by (rule path_swap(1) [OF pa di bpN])
    show "set as' \<inter> (live - {bp}) = {}" using R sub by blast
  qed (use R so' ok ap bpb in \<open>simp_all add: E\<close>)
  have fb: "free_bytes (us @ [p]) t = free_bytes (us @ [p]) s" "free_bytes rest t = free_bytes rest s"
    by (rule free_bytes_cong; use bpN in \<open>auto simp: E\<close>)+
  have "free_bytes as' t = free_bytes (us @ [p]) t \<union> {unat bp ..< unat bp + 16 * unat n} \<union> free_bytes rest t"
    using free_bytes_nodes [of t as'] R bpb unfolding E(3) N' by (auto simp: E free_bytes_def block_def)
  also have "\<dots> = free_bytes (us @ [p]) s \<union> block s bp \<union> free_bytes pre s \<union> free_bytes rest s"
    using J fb by blast
  also have "\<dots> = free_bytes as s \<union> block s bp"
    using free_bytes_nodes [of s as] R unfolding N by (auto simp: free_bytes_def)
  finally show "free_bytes as' t = free_bytes as s \<union> block s bp" .
  show "\<forall>a \<in> live - {bp}. size_at t a = size_at s a" by (simp add: E)
qed

lemma insert_merged:
  fixes s :: "'a heap_state_scheme"
  assumes rep: "heap_rep as live s" and bp: "bp \<in> live" and N: "base s # as = us @ p # pre @ rest"
    and J: "joined live s bp n pre rest" and lo: "end_at s p = unat bp"
    and t: "t = (set_ptr p (hd (rest @ [base s])) (set_size p (size_at s p + n) (set_ptr bp v (set_size bp n s))))\<lparr>freep := p\<rparr>"
    and N': "base s # as' = us @ p # rest"
  shows "heap_rep as' (live - {bp}) t" "free_bytes as' t = free_bytes as s \<union> block s bp"
    "\<forall>a \<in> live - {bp}. size_at t a = size_at s a"
proof -
  note R = rep [unfolded heap_rep_nodes] and J = J [unfolded joined_def]
  have so: "sorted_wrt (\<lambda>a b. end_at s a < unat b) (us @ p # pre @ rest)" and pa: "ptr_path (ptr_at s) (base s) (us @ p # pre @ rest) (base s)"
    using R N by simp_all
  note di = sorted_less_distinct [OF sorted_end_imp_less [OF so]]
  have asN: "set as = set (us @ p # pre @ rest) - {base s}" by (rule nodes_set [OF N di])
  have asN': "set as' = set (us @ p # rest) - {base s}" by (rule nodes_set [OF N']) (use di in auto)
  have sub: "set as' \<subseteq> set as" unfolding asN asN' by auto
  have okb: "block_ok s bp" using R bp by blast
  have bpb: "bp \<noteq> base s" using okb by (auto simp: block_ok_def)
  have bpN: "bp \<notin> set (us @ p # pre @ rest)" using R bp bpb unfolding asN [symmetric] by (auto simp: asN)
  have pb: "p \<noteq> base s" using lo R okb by (auto simp: block_ok_def end_at_def)
  have okp: "block_ok s p" "p \<notin> live" using R asN pb by auto
  have e: "unat p + 16 * unat (size_at s p + n) = unat bp + 16 * unat n"
    using unat_size_sum [of p "set_size bp n s" bp] lo J bpN block_ok_end [OF okp(1)] by (auto split: if_splits)
  have E: "end_at t = (end_at s)(bp := unat bp + 16 * unat n, p := unat bp + 16 * unat n)" "size_at t = (size_at s)(bp := n, p := size_at s p + n)"
    "base t = base s" "freep t = p" "ptr_at t = (ptr_at s)(bp := v, p := hd (rest @ [base s]))"
    by (simp_all add: t e)
  have so': "sorted_wrt (\<lambda>a b. end_at t a < unat b) (us @ p # rest)"
    using so J bpN di unfolding E(1) by (auto simp: sorted_wrt_append simp del: fun_upd_apply) auto
  have ok: "block_ok t a" if "a \<in> set as' \<union> (live - {bp})" for a
  proof (cases "a = p")
    case True
    then show ?thesis using okp J e block_ok_end [OF okb] lo by (simp add: block_ok_def E end_at_def)
  next
    case False
    then have "block_ok s a" "a \<noteq> bp" using that R sub bp by blast+
    then show ?thesis using False by (simp add: block_ok_def E)
  qed
  have ap: "apart t a b" if "a \<in> live - {bp}" "b \<in> set as' \<union> (live - {bp}) - {a}" for a b
  proof (cases "b = p")
    case True
    then have "apart s a p" "block_ok s a" "unat bp + 16 * unat n \<le> unat a \<or> end_at s a \<le> unat bp"
      using that R asN pb J by auto
    then show ?thesis using True that lo okp block_ok_end [of s a] by (auto simp: apart_def E)
  next
    case False
    then have "apart s a b" "b \<noteq> bp" using that R sub bp by blast+
    then show ?thesis using False that okp by (auto simp: apart_def E)
  qed
  show "heap_rep as' (live - {bp}) t"
    unfolding heap_rep_nodes E(3,4) N'
  proof (intro conjI)
    show "ptr_path (ptr_at t) (base s) (us @ p # rest) (base s)" unfolding E(5) by (rule path_swap(2) [OF pa di bpN])
    show "set as' \<inter> (live - {bp}) = {}" using R sub by blast
  qed (use R so' ok ap bpb pb in \<open>simp_all add: E\<close>)
  have fb: "free_bytes us t = free_bytes us s" "free_bytes rest t = free_bytes rest s"
    by (rule free_bytes_cong; use bpN di in \<open>auto simp: E\<close>)+
  have p: "block t p = block s p \<union> {unat bp ..< unat bp + 16 * unat n}"
    using lo block_ok_end [OF okp(1)] by (auto simp: block_def E)
  have "free_bytes as' t = free_bytes us t \<union> block t p \<union> free_bytes rest t"
    using free_bytes_nodes [of t as'] R bpb pb unfolding E(3) N' by (auto simp: E free_bytes_def)
  also have "\<dots> = free_bytes us s \<union> block s p \<union> block s bp \<union> free_bytes pre s \<union> free_bytes rest s"
    using J fb p by blast
  also have "\<dots> = free_bytes as s \<union> block s bp"
    using free_bytes_nodes [of s as] R unfolding N by (auto simp: free_bytes_def)
  finally show "free_bytes as' t = free_bytes as s \<union> block s bp" .
  show "\<forall>a \<in> live - {bp}. size_at t a = size_at s a" using okp(2) by (auto simp: E)
qed

text \<open>\<open>free\<close> gives the list the bytes of the block, and leaves the other live blocks alone.\<close>

lemma free_insert_rep:
  fixes s :: "'a heap_state_scheme"
  assumes rep: "heap_rep as live s" and bp: "bp \<in> live" and N: "base s # as = us @ p # ys"
    and lo: "unat p < unat bp" and hi: "\<forall>y \<in> set ys. unat bp < unat y"
  shows "\<exists>as'. heap_rep as' (live - {bp}) (free_insert bp p s) \<and>
    free_bytes as' (free_insert bp p s) = free_bytes as s \<union> block s bp \<and>
    (\<forall>a \<in> live - {bp}. size_at (free_insert bp p s) a = size_at s a)"
proof -
  note R = rep [unfolded heap_rep_nodes]
  obtain n rest pre where J:
    "(if hdr_plus bp (size_at s bp) = ptr_at s p
      then let s = set_size bp (size_at s bp + size_at s (ptr_at s p)) s in set_ptr bp (ptr_at s (ptr_at s p)) s
      else set_ptr bp (ptr_at s p) s) = set_ptr bp (hd (rest @ [base s])) (set_size bp n s)"
    "ys = pre @ rest" "joined live s bp n pre rest"
    by (rule join_successor [OF rep bp N hi])
  note N = N [unfolded J(2)]
  have "p \<in> set (base s # as)" unfolding N by simp
  then have p: "end_at s p \<le> unat bp" "p \<noteq> bp" "end_at s p < 2 ^ 64"
  proof -
    assume "p \<in> set (base s # as)"
    then consider "p = base s" | "p \<in> set as" by auto
    then have "end_at s p \<le> unat bp"
    proof cases
      case 1
      then show ?thesis using R lo by (simp add: end_at_def)
    next
      case 2
      then have "apart s bp p" using R bp by blast
      then show ?thesis using lo by (auto simp: apart_def end_at_def)
    qed
    then show "end_at s p \<le> unat bp" "p \<noteq> bp" "end_at s p < 2 ^ 64" using lo order.strict_trans1 [OF _ unat_u64_less] by auto
  qed
  have I: "free_insert bp p s =
    (if end_at s p = unat bp
     then set_ptr p (hd (rest @ [base s])) (set_size p (size_at s p + n) (set_ptr bp (hd (rest @ [base s])) (set_size bp n s)))
     else set_ptr p bp (set_ptr bp (hd (rest @ [base s])) (set_size bp n s)))\<lparr>freep := p\<rparr>"
    unfolding free_insert_def J(1) using p hdr_plus_eq [OF p(3), of bp] by (simp add: Let_def)
  show ?thesis
  proof (cases "end_at s p = unat bp")
    case True
    obtain as' where "base s # as' = us @ p # rest" using nodes_tl [OF N] by blast
    from insert_merged [OF rep bp N J(3) True refl this] show ?thesis unfolding I if_P [OF True] by blast
  next
    case False
    then have lt: "end_at s p < unat bp" using p(1) by simp
    obtain as' where "base s # as' = us @ p # bp # rest" using nodes_tl [OF N] by blast
    from insert_separate [OF rep bp N J(3) lt refl this] show ?thesis unfolding I if_not_P [OF False] by blast
  qed
qed

section \<open>\<open>free\<close>\<close>

lemma free_insert_frame [simp]:
  "replies (free_insert bp p s) = replies s" "calls (free_insert bp p s) = calls s" "base (free_insert bp p s) = base s"
  by (simp_all add: free_insert_def Let_def)

text \<open>Every address in the range of the blocks has its place in the sorted list.\<close>

lemma sorted_place:
  "sorted_wrt (\<lambda>a b. unat a < unat b) (b # as) \<Longrightarrow> unat b < unat bp \<Longrightarrow> bp \<notin> set as \<Longrightarrow>
    \<exists>us p ys. b # as = us @ p # ys \<and> unat p < unat bp \<and> (\<forall>y \<in> set ys. unat bp < unat y)"
proof (induction as arbitrary: b)
  case Nil
  then show ?case by (intro exI [of _ "[]"]) auto
next
  case (Cons c cs)
  have "unat c \<noteq> unat bp" using Cons.prems(3) by (auto simp: word_unat_eq_iff)
  then consider "unat bp < unat c" | "unat c < unat bp" by linarith
  then show ?case
  proof cases
    case 1
    then show ?thesis using Cons.prems by (intro exI [of _ "[]"]) auto
  next
    case 2
    have "sorted_wrt (\<lambda>a b. unat a < unat b) (c # cs)" "bp \<notin> set cs" using Cons.prems by simp_all
    from Cons.IH [OF this(1) 2 this(2)] obtain us p ys
      where P: "c # cs = us @ p # ys" "unat p < unat bp" "\<forall>y \<in> set ys. unat bp < unat y" by blast
    then have "b # c # cs = (b # us) @ p # ys" by simp
    with P(2,3) show ?thesis by blast
  qed
qed

lemma hdr_plus_one [simp]: "hdr_plus p 1 - 16 = p"
  by (simp add: hdr_plus_def)

lemma ufree_rep:
  fixes s :: "'a heap_state_scheme"
  assumes rep: "heap_rep as live s" and bp: "bp \<in> live"
  shows "\<exists>as' s'. ufree (hdr_plus bp 1) s = Some s' \<and> heap_rep as' (live - {bp}) s' \<and>
    free_bytes as' s' = free_bytes as s \<union> block s bp \<and> (\<forall>a \<in> live - {bp}. size_at s' a = size_at s a) \<and>
    replies s' = replies s \<and> calls s' = calls s \<and> base s' = base s"
proof -
  note R = rep [unfolded heap_rep_nodes]
  have so: "sorted_wrt (\<lambda>a b. unat a < unat b) (base s # as)" using R sorted_end_imp_less by blast
  have "block_ok s bp" "bp \<notin> set as" using R bp by blast+
  moreover from this(1) have "unat (base s) < unat bp" by (simp add: block_ok_def)
  ultimately obtain us p ys where P: "base s # as = us @ p # ys" "unat p < unat bp" "\<forall>y \<in> set ys. unat bp < unat y"
    using sorted_place [OF so, of bp] by auto
  have "free_search (hdrs s) bp (freep s) = Some p"
  proof (rule free_search_finds)
    show "ptr_path (\<lambda>a. h_ptr (hdrs s a)) (base s) (us @ p # ys) (base s)" using R unfolding P(1) ptr_at_def by blast
    show "hd (us @ [p]) = base s" using P(1) by (cases us) auto
    show "sorted_wrt (\<lambda>x y. unat x < unat y) (us @ p # ys)" using so unfolding P(1) .
    show "freep s \<in> set (us @ p # ys)" using R unfolding P(1) by blast
  qed (rule P)+
  then have "ufree (hdr_plus bp 1) s = Some (free_insert bp p s)" by (simp add: ufree_def Let_def)
  with free_insert_rep [OF rep bp P] show ?thesis by (metis free_insert_frame)
qed

section \<open>Taking a block\<close>

lemma free_apart:
  assumes "sorted_wrt (\<lambda>a b. end_at s a < unat b) as" "a \<in> set as" "b \<in> set as" "a \<noteq> b"
  shows "apart s a b"
  using assms by (induction as) (auto simp: apart_def less_imp_le)

lemma sorted_shrink:
  "(\<And>a. a \<in> set as \<Longrightarrow> f a \<le> g a) \<Longrightarrow> sorted_wrt (\<lambda>a b. g a < unat b) as \<Longrightarrow> sorted_wrt (\<lambda>a b. f a < unat b) as"
  for f g :: "u64 \<Rightarrow> nat"
  by (induction as) (auto intro: order.strict_trans1)

lemma cut_out: "T = V \<union> P \<Longrightarrow> S = V \<union> P' \<Longrightarrow> P' = P \<union> Q \<Longrightarrow> P \<inter> Q = {} \<Longrightarrow> V \<inter> P' = {} \<Longrightarrow> T = S - Q \<and> Q \<subseteq> S"
  by blast

lemma block_apart: "apart s a b \<Longrightarrow> block s a \<inter> block s b = {}"
  by (auto simp: apart_def block_def)

lemma path_cut:
  assumes "ptr_path h b (us @ r # p # ys) c" "distinct (us @ r # p # ys)"
  shows "ptr_path (h(r := h p)) b (us @ r # ys) c"
  using assms by (auto simp: path_append)

lemma take_exact:
  fixes s :: "'a heap_state_scheme"
  assumes rep: "heap_rep as live s" and N: "base s # as = us @ prevp # p # ys"
    and t: "t = (set_ptr prevp (ptr_at s p) s)\<lparr>freep := prevp\<rparr>" and N': "base s # as' = us @ prevp # ys"
  shows "heap_rep as' (insert p live) t" "free_bytes as' t = free_bytes as s - block s p" "block s p \<subseteq> free_bytes as s" "p \<notin> live"
proof -
  note R = rep [unfolded heap_rep_nodes]
  have so: "sorted_wrt (\<lambda>a b. end_at s a < unat b) (us @ prevp # p # ys)" and pa: "ptr_path (ptr_at s) (base s) (us @ prevp # p # ys) (base s)"
    using R N by simp_all
  note di = sorted_less_distinct [OF sorted_end_imp_less [OF so]]
  have asN: "set as = set (us @ prevp # p # ys) - {base s}" by (rule nodes_set [OF N di])
  have asN': "set as' = set (us @ prevp # ys) - {base s}" by (rule nodes_set [OF N']) (use di in auto)
  have pas: "p \<in> set as" using nodes_after [OF N] by simp
  then have sub: "set as = insert p (set as')" "p \<notin> set as'" unfolding asN asN' using di by auto
  have ap: "apart s p b" if "b \<in> set as'" for b
    using free_apart [of s as p b] R pas that sub by (auto simp: sorted_wrt.simps)
  have E: "end_at t = end_at s" "size_at t = size_at s" "base t = base s" "freep t = prevp" "ptr_at t = (ptr_at s)(prevp := ptr_at s p)"
    by (simp_all add: t)
  have okt: "block_ok t a \<longleftrightarrow> block_ok s a" "apart t a b \<longleftrightarrow> apart s a b" for a b by (simp_all add: block_ok_def apart_def E)
  show "heap_rep as' (insert p live) t"
    unfolding heap_rep_nodes E(3,4) N' okt
  proof (intro conjI)
    show "ptr_path (ptr_at t) (base s) (us @ prevp # ys) (base s)" unfolding E(5) by (rule path_cut [OF pa di])
    show "sorted_wrt (\<lambda>a b. end_at t a < unat b) (us @ prevp # ys)" using so unfolding E(1) by (auto simp: sorted_wrt_append)
    show "\<forall>a\<in>insert p live. \<forall>b\<in>set as' \<union> insert p live - {a}. apart s a b"
      using R sub ap by (auto simp: apart_def)
  qed (use R sub in \<open>auto simp: E\<close>)
  have "free_bytes as' t = free_bytes as' s" by (rule free_bytes_cong) (simp add: E)
  moreover have "free_bytes as' s \<inter> block s p = {}" using ap block_apart unfolding free_bytes_def by blast
  ultimately show "free_bytes as' t = free_bytes as s - block s p" using sub(1) unfolding free_bytes_def by auto
  show "block s p \<subseteq> free_bytes as s" using pas unfolding free_bytes_def by blast
  show "p \<notin> live" using R pas by blast
qed

lemma take_tail:
  fixes s :: "'a heap_state_scheme"
  assumes rep: "heap_rep as live s" and p: "p \<in> set as" and r: "r \<in> set (base s # as)"
    and n: "0 < unat n" "unat n < unat (size_at s p)"
    and q: "q = hdr_plus p (size_at s p - n)"
    and t: "t = (set_size q n (set_size p (size_at s p - n) s))\<lparr>freep := r\<rparr>"
  shows "heap_rep as (insert q live) t" "free_bytes as t = free_bytes as s - block t q" "block t q \<subseteq> free_bytes as s" "q \<notin> live"
    "size_at t q = n" "\<forall>a \<in> live. size_at t a = size_at s a"
proof -
  note R = rep [unfolded heap_rep_nodes]
  have okp: "block_ok s p" and pl: "p \<notin> live" using R p by blast+
  have m: "unat (size_at s p - n) = unat (size_at s p) - unat n" using n by (simp add: unat_sub word_le_nat_alt)
  have "unat p + 16 * unat (size_at s p - n) \<le> end_at s p" unfolding m by (simp add: end_at_def)
  then have "unat p + 16 * unat (size_at s p - n) < 2 ^ 64" using okp by (simp add: block_ok_def)
  then have uq: "unat q = unat p + 16 * (unat (size_at s p) - unat n)"
    using unat_hdr_plus [of "set_size p (size_at s p - n) s" p] m unfolding q by (simp add: end_at_def)
  then have q1: "unat p < unat q" "unat q < end_at s p" "unat q + 16 * unat n = end_at s p" using n by (simp_all add: end_at_def)
  have far: "apart s p b" if "b \<in> set as \<union> live - {p}" for b
  proof (cases "b \<in> live")
    case True
    then show ?thesis using R p pl by (auto simp: apart_def)
  next
    case False
    then show ?thesis using free_apart [of s as p b] R p that by auto
  qed
  have qn: "q \<notin> set as \<union> live"
  proof
    assume "q \<in> set as \<union> live"
    then have "apart s p q" "block_ok s q" using far [of q] R q1(1) by auto
    then show False using q1 block_ok_end [of s q] by (auto simp: apart_def)
  qed
  have qb: "q \<noteq> base s" "p \<noteq> base s" using okp q1 by (auto simp: block_ok_def)
  have E: "end_at t = (end_at s)(p := unat q, q := end_at s p)" "size_at t = (size_at s)(p := size_at s p - n, q := n)"
    "base t = base s" "freep t = r" "ptr_at t = ptr_at s"
    using uq m q1 by (simp_all add: t)
  have okq: "block_ok t q" "block_ok t p" using okp q1 n m qn p by (auto simp: block_ok_def E)
  have okt: "block_ok t a" if "a \<in> set as \<union> live" for a
    using okq R that qn by (cases "a = p") (auto simp: block_ok_def E)
  have apq: "apart t q b" if "b \<in> set as \<union> live" for b
    using far [of b] q1 that qn by (cases "b = p") (auto simp: apart_def E)
  have apt: "apart t a b" if "a \<in> live" "b \<in> set as \<union> live - {a}" for a b
  proof (cases "b = p")
    case True
    then show ?thesis using far [of a] that pl qn q1 by (auto simp: apart_def E)
  next
    case False
    then show ?thesis using R that pl qn by (auto simp: apart_def E)
  qed
  have "end_at t a \<le> end_at s a" if "a \<in> set (base s # as)" for a using that qn qb q1 by (auto simp: E)
  then have so: "sorted_wrt (\<lambda>a b. end_at t a < unat b) (base s # as)"
    using R by (intro sorted_shrink [of "base s # as" "end_at t" "end_at s"]) blast+
  have sym: "apart t a q" if "a \<in> live" for a using apq [of a] that by (auto simp: apart_def)
  show "heap_rep as (insert q live) t"
    unfolding heap_rep_nodes E(3,4,5)
  proof (intro conjI)
    show "size_at t (base s) = 0" using R qb by (simp add: E)
    show "set as \<inter> insert q live = {}" using R qn by blast
    show "\<forall>a\<in>set as \<union> insert q live. block_ok t a" using okt okq by blast
    show "\<forall>a\<in>insert q live. \<forall>b\<in>set as \<union> insert q live - {a}. apart t a b" using apq apt sym by blast
  qed (use R so r in blast)+
  have B: "block s p = block t p \<union> block t q" "block t p \<inter> block t q = {}"
    using q1 qn p by (auto simp: block_def E)
  have ne: "block t a = block s a" if "a \<in> set as - {p}" for a using that qn by (auto simp: block_def E)
  have U: "free_bytes as t = \<Union> (block s ` (set as - {p})) \<union> block t p" "free_bytes as s = \<Union> (block s ` (set as - {p})) \<union> block s p"
    using p ne unfolding free_bytes_def by blast+
  have "\<Union> (block s ` (set as - {p})) \<inter> block s p = {}" using far block_apart by blast
  from cut_out [OF U B this] show "free_bytes as t = free_bytes as s - block t q" "block t q \<subseteq> free_bytes as s" by simp_all
  show "q \<notin> live" "size_at t q = n" "\<forall>a \<in> live. size_at t a = size_at s a" using qn pl by (auto simp: E)
qed

section \<open>\<open>malloc\<close>\<close>

lemma malloc_take_frame:
  "malloc_take n prevp p s = URet r t \<Longrightarrow> replies t = replies s \<and> calls t = calls s \<and> base t = base s"
  by (auto simp: malloc_take_def Let_def split: if_splits)

text \<open>What a successful \<open>malloc\<close> of \<open>n\<close> units does: the block \<open>b\<close> moves from the free bytes to the live blocks.\<close>

definition took :: "u32 \<Rightarrow> u64 list \<Rightarrow> u64 set \<Rightarrow> 'a heap_state_scheme \<Rightarrow> u64 \<Rightarrow> u64 list \<Rightarrow> 'a heap_state_scheme \<Rightarrow> bool" where
  "took n as live s b as' t \<longleftrightarrow>
     heap_rep as' (insert b live) t \<and> b \<notin> live \<and> size_at t b = n \<and>
     block t b \<subseteq> free_bytes as s \<and> free_bytes as' t = free_bytes as s - block t b \<and>
     (\<forall>a \<in> live. size_at t a = size_at s a) \<and> base t = base s"

lemma malloc_take_rep:
  fixes s :: "'a heap_state_scheme"
  assumes rep: "heap_rep as live s" and N: "base s # as = us @ prevp # p # ys" and n: "0 < n" "n \<le> size_at s p"
  shows "\<exists>b as' t. malloc_take n prevp p s = URet (hdr_plus b 1) t \<and> took n as live s b as' t \<and> replies t = replies s \<and> calls t = calls s"
proof (cases "size_at s p = n")
  case True
  let ?t = "(set_ptr prevp (ptr_at s p) s)\<lparr>freep := prevp\<rparr>"
  obtain as' where "base s # as' = us @ prevp # ys" using nodes_tl [OF N] by blast
  from take_exact [OF rep N refl this] have "took n as live s p as' ?t"
    using True by (simp add: took_def block_def end_at_def)
  moreover have "malloc_take n prevp p s = URet (hdr_plus p 1) ?t" using True by (simp add: malloc_take_def)
  ultimately show ?thesis by fastforce
next
  case False
  let ?q = "hdr_plus p (size_at s p - n)"
  let ?t = "(set_size ?q n (set_size p (size_at s p - n) s))\<lparr>freep := prevp\<rparr>"
  have p: "p \<in> set as" using nodes_after [OF N] by simp
  have r: "prevp \<in> set (base s # as)" unfolding N by simp
  have "n < size_at s p" using False n(2) by simp
  then have "0 < unat n" "unat n < unat (size_at s p)" using n(1) by (simp_all add: word_less_nat_alt)
  from take_tail [OF rep p r this refl refl] have "took n as live s ?q as ?t" by (simp add: took_def)
  moreover have "malloc_take n prevp p s = URet (hdr_plus ?q 1) ?t" using False by (simp add: malloc_take_def Let_def)
  ultimately show ?thesis by fastforce
qed

lemma path_last: "ptr_path h (h f) zs p \<Longrightarrow> h (last (f # zs)) = p"
  by (induction zs arbitrary: f) auto

lemma malloc_loop_skip:
  assumes "ptr_path (ptr_at s) q zs r" "\<forall>z \<in> set zs. size_at s z < n \<and> z \<noteq> freep s"
  shows "malloc_loop n prevp q s = malloc_loop n (last (prevp # zs)) r s"
  using assms
proof (induction zs arbitrary: q prevp)
  case (Cons z zs)
  have "malloc_loop n prevp z s = malloc_loop n z (ptr_at s z) s"
    using Cons.prems(2) by (subst malloc_loop.simps) (auto simp: not_le)
  also have "\<dots> = malloc_loop n (last (z # zs)) r s" using Cons by simp
  finally show ?case using Cons.prems(1) by simp
qed simp

text \<open>The nodes from the successor of \<open>freep\<close> around the circle back to it.\<close>

lemma circle_from:
  assumes "ptr_path h b (b # as) b" "distinct (b # as)" "f \<in> set (b # as)"
  obtains zs where "ptr_path h (h f) (zs @ [f]) (h f)" "set (zs @ [f]) = set (b # as)" "f \<notin> set zs" "distinct zs"
proof -
  obtain us ys where N: "b # as = us @ f # ys" using assms(3) by (meson split_list)
  have P: "ptr_path h b us f" "ptr_path h (h f) ys b" using assms(1) unfolding N by (auto simp: path_append)
  have "ptr_path h (h f) ((ys @ us) @ [f]) (h f)" using P by (auto simp: path_append)
  moreover have "set ((ys @ us) @ [f]) = set (b # as)" unfolding N by auto
  moreover have "f \<notin> set (ys @ us)" "distinct (ys @ us)" using assms(2) unfolding N by auto
  ultimately show thesis by (rule that)
qed

lemma successor_in_list:
  assumes "ptr_path h b (b # as) b" "r \<in> set (b # as)" "h r = p" "p \<noteq> b"
  obtains us ys where "b # as = us @ r # p # ys"
proof -
  obtain us vs where N: "b # as = us @ r # vs" using assms(2) by (meson split_list)
  have "ptr_path h (h r) vs b" using assms(1) unfolding N by (auto simp: path_append)
  then obtain ws where "vs = p # ws" using assms(3,4) by (cases vs) auto
  with N show thesis by (intro that [of us ws]) simp
qed

lemma malloc_loop_fit:
  fixes s :: "'a heap_state_scheme"
  assumes rep: "heap_rep as live s" and n: "0 < n" and fit: "\<exists>a \<in> set as. n \<le> size_at s a"
  shows "\<exists>b as' t. malloc_loop n (freep s) (ptr_at s (freep s)) s = Some (URet (hdr_plus b 1) t) \<and>
    took n as live s b as' t \<and> replies t = replies s \<and> calls t = calls s"
proof -
  note R = rep [unfolded heap_rep_nodes]
  have di: "distinct (base s # as)" using R sorted_less_distinct [OF sorted_end_imp_less] by blast
  let ?f = "freep s"
  obtain zs where Z: "ptr_path (ptr_at s) (ptr_at s ?f) (zs @ [?f]) (ptr_at s ?f)" "set (zs @ [?f]) = set (base s # as)" "?f \<notin> set zs" "distinct zs"
    using circle_from [of "ptr_at s" "base s" as ?f] R di by metis
  have "\<exists>a \<in> set (zs @ [?f]). n \<le> size_at s a" unfolding Z(2) using fit by auto
  then obtain xs p ws where X: "zs @ [?f] = xs @ p # ws" "n \<le> size_at s p" "\<forall>x \<in> set xs. \<not> n \<le> size_at s x"
    using split_list_first_prop [of "zs @ [?f]" "\<lambda>a. n \<le> size_at s a"] by blast
  have xf: "?f \<notin> set xs" using X(1) Z(3) by (cases ws rule: rev_cases) auto
  have pa: "ptr_path (ptr_at s) (ptr_at s ?f) xs p" using Z(1) unfolding X(1) by (auto simp: path_append)
  have "malloc_loop n ?f (ptr_at s ?f) s = malloc_loop n (last (?f # xs)) p s"
    using X(3) xf by (intro malloc_loop_skip [OF pa]) (auto simp: not_le)
  also have "\<dots> = Some (malloc_take n (last (?f # xs)) p s)" using X(2) by (subst malloc_loop.simps) simp
  finally have L: "malloc_loop n ?f (ptr_at s ?f) s = Some (malloc_take n (last (?f # xs)) p s)" .
  have "p \<noteq> base s" using X(2) n R by (auto simp: word_le_nat_alt word_less_nat_alt)
  moreover have "last (?f # xs) \<in> set (base s # as)"
  proof -
    have "set (?f # xs) \<subseteq> set (zs @ [?f])" using X(1) by (metis Un_upper1 insert_subset in_set_conv_decomp set_append set_simps(2))
    then show ?thesis using last_in_set [of "?f # xs"] unfolding Z(2) by blast
  qed
  ultimately obtain us ys where "base s # as = us @ last (?f # xs) # p # ys"
    using successor_in_list [of "ptr_at s" "base s" as "last (?f # xs)" p] path_last [OF pa] R by metis
  from malloc_take_rep [OF rep this n X(2)] L show ?thesis by auto
qed

text \<open>Without a block that is large enough the loop arrives at \<open>freep\<close> and calls \<open>morecore\<close>.\<close>

lemma malloc_loop_nofit:
  assumes rep: "heap_rep as live s" and n: "0 < n" and nofit: "\<forall>a \<in> set as. size_at s a < n"
  shows "malloc_loop n (freep s) (ptr_at s (freep s)) s =
    (case morecore n s of
       None \<Rightarrow> None
     | Some (URet p s) \<Rightarrow> if p = 0 then Some (URet 0 s) else malloc_loop n p (ptr_at s p) s
     | Some r \<Rightarrow> Some r)"
proof -
  note R = rep [unfolded heap_rep_nodes]
  have di: "distinct (base s # as)" using R sorted_less_distinct [OF sorted_end_imp_less] by blast
  let ?f = "freep s"
  obtain zs where Z: "ptr_path (ptr_at s) (ptr_at s ?f) (zs @ [?f]) (ptr_at s ?f)" "set (zs @ [?f]) = set (base s # as)" "?f \<notin> set zs" "distinct zs"
    using circle_from [of "ptr_at s" "base s" as ?f] R di by metis
  have small: "\<forall>a \<in> set (zs @ [?f]). size_at s a < n" unfolding Z(2) using R n nofit by simp
  have pa: "ptr_path (ptr_at s) (ptr_at s ?f) zs ?f" using Z(1) by (auto simp: path_append)
  have "malloc_loop n ?f (ptr_at s ?f) s = malloc_loop n (last (?f # zs)) ?f s"
    using small Z(3) by (intro malloc_loop_skip [OF pa]) auto
  also have "\<dots> = (case morecore n s of
       None \<Rightarrow> None
     | Some (URet p s) \<Rightarrow> if p = 0 then Some (URet 0 s) else malloc_loop n p (ptr_at s p) s
     | Some r \<Rightarrow> Some r)"
    using small by (subst malloc_loop.simps) (simp add: not_le [symmetric])
  finally show ?thesis .
qed

text \<open>Free blocks do not touch, so free bytes in a row lie in one block.\<close>

lemma free_row_in_block:
  assumes rep: "heap_rep as live s" and sub: "{x ..< y} \<subseteq> free_bytes as s" and xy: "x < y"
  obtains a where "a \<in> set as" "unat a \<le> x" "y \<le> end_at s a"
proof -
  have so: "sorted_wrt (\<lambda>a b. end_at s a < unat b) as" using rep by (simp add: heap_rep_def)
  obtain a where a: "a \<in> set as" "unat a \<le> x" "x < end_at s a"
    using sub xy by (fastforce simp: free_bytes_def block_def)
  have "y \<le> end_at s a"
  proof (rule ccontr)
    assume "\<not> y \<le> end_at s a"
    then have "end_at s a \<in> free_bytes as s" using sub a by auto
    then obtain b where b: "b \<in> set as" "unat b \<le> end_at s a" "end_at s a < end_at s b" by (auto simp: free_bytes_def block_def)
    then have "a \<noteq> b" by auto
    then have "end_at s a < unat b \<or> end_at s b < unat a"
      using so a(1) b(1) by (induction as) auto
    then show False using b a by auto
  qed
  with a show thesis by (intro that)
qed

text \<open>What \<open>sbrk\<close> promises: \<open>k\<close> bytes from \<open>p\<close> on that the process did not have before.\<close>

definition new_core :: "nat \<Rightarrow> u64 \<Rightarrow> u64 list \<Rightarrow> u64 set \<Rightarrow> 'a heap_state_scheme \<Rightarrow> bool" where
  "new_core k p as live s \<longleftrightarrow> unat (base s) + 16 \<le> unat p \<and> unat p + k \<le> 2 ^ 36 \<and>
     (\<forall>a \<in> set as \<union> live. end_at s a \<le> unat p \<or> unat p + k \<le> unat a)"

definition core_units :: "u32 \<Rightarrow> u32" where
  "core_units n = (if n < 4096 then 4096 else n)"

lemma core_units_ge: "4096 \<le> unat (core_units n)" "unat n \<le> unat (core_units n)"
  by (auto simp: core_units_def not_less word_less_nat_alt)

lemma heap_rep_calls [simp]:
  "heap_rep as live (s\<lparr>replies := rs, calls := cs\<rparr>) = heap_rep as live s" "free_bytes as (s\<lparr>replies := rs, calls := cs\<rparr>) = free_bytes as s"
  "size_at (s\<lparr>replies := rs, calls := cs\<rparr>) = size_at s" "end_at (s\<lparr>replies := rs, calls := cs\<rparr>) = end_at s"
proof -
  show e: "size_at (s\<lparr>replies := rs, calls := cs\<rparr>) = size_at s" "end_at (s\<lparr>replies := rs, calls := cs\<rparr>) = end_at s"
    by (simp_all add: size_at_def end_at_def fun_eq_iff)
  moreover have "ptr_at (s\<lparr>replies := rs, calls := cs\<rparr>) = ptr_at s" by (simp add: ptr_at_def fun_eq_iff)
  ultimately show "heap_rep as live (s\<lparr>replies := rs, calls := cs\<rparr>) = heap_rep as live s"
    "free_bytes as (s\<lparr>replies := rs, calls := cs\<rparr>) = free_bytes as s"
    by (simp_all add: heap_rep_def block_ok_def apart_def free_bytes_def block_def)
qed

text \<open>New memory, with its size stored, is a live block.\<close>

lemma new_block_rep:
  fixes s :: "'a heap_state_scheme"
  assumes rep: "heap_rep as live s" and k: "0 < unat k" and core: "new_core (16 * unat k) p as live s"
  shows "heap_rep as (insert p live) (set_size p k s)" "free_bytes as (set_size p k s) = free_bytes as s" "p \<notin> live"
proof -
  note R = rep [unfolded heap_rep_nodes] and C = core [unfolded new_core_def]
  let ?t = "set_size p k s"
  have pn: "p \<notin> set as \<union> live"
  proof
    assume p: "p \<in> set as \<union> live"
    then have "block_ok s p" using R by blast
    moreover have "end_at s p \<le> unat p \<or> unat p + 16 * unat k \<le> unat p" using p C by blast
    ultimately show False using k block_ok_end [of s p] by auto
  qed
  have pb: "p \<noteq> base s" using C by auto
  have E: "end_at ?t = (end_at s)(p := unat p + 16 * unat k)" "size_at ?t = (size_at s)(p := k)" "base ?t = base s" "freep ?t = freep s"
    "ptr_at ?t = ptr_at s" by simp_all
  have ok: "block_ok ?t a" if "a \<in> set as \<union> insert p live" for a
    using R C k that pn by (cases "a = p") (auto simp: block_ok_def)
  have ap: "apart ?t p b" if "b \<in> set as \<union> live" for b using C that pn by (auto simp: apart_def)
  have ap': "apart ?t a p" if "a \<in> live" for a using ap [of a] that by (auto simp: apart_def)
  have ap'': "apart ?t a b" if "a \<in> live" "b \<in> set as \<union> live - {a}" for a b
    using R that pn by (auto simp: apart_def)
  show "heap_rep as (insert p live) ?t"
    unfolding heap_rep_nodes E(3,4,5)
  proof (intro conjI)
    show "size_at ?t (base s) = 0" using R pb by simp
    show "sorted_wrt (\<lambda>a b. end_at ?t a < unat b) (base s # as)" unfolding E(1) by (subst sorted_upd) (use R pb pn in simp_all)
    show "set as \<inter> insert p live = {}" using R pn by blast
    show "\<forall>a\<in>set as \<union> insert p live. block_ok ?t a" using ok by blast
    show "\<forall>a\<in>insert p live. \<forall>b\<in>set as \<union> insert p live - {a}. apart ?t a b" using ap ap' ap'' by blast
  qed (use R in blast)+
  show "free_bytes as ?t = free_bytes as s" by (rule free_bytes_cong) (use pn in auto)
  show "p \<notin> live" using pn by blast
qed

lemma morecore_rep:
  fixes s :: "'a heap_state_scheme"
  assumes rep: "heap_rep as live s" and r: "replies s = (p, x) # rs" "p \<noteq> -1" and core: "new_core (16 * unat (core_units n)) p as live s"
  shows "\<exists>as' t. morecore n s = Some (URet (freep t) t) \<and> heap_rep as' live t \<and>
    free_bytes as' t = free_bytes as s \<union> {unat p ..< unat p + 16 * unat (core_units n)} \<and> (\<forall>a \<in> live. size_at t a = size_at s a) \<and>
    replies t = rs \<and> calls t = calls s @ [U_sbrk (ucast (ucast (core_units n) * 16 :: u64))] \<and> base t = base s"
proof -
  let ?c = "U_sbrk (ucast (ucast (core_units n) * 16 :: u64))" and ?k = "core_units n"
  define s1 where "s1 = s\<lparr>replies := rs, calls := calls s @ [?c]\<rparr>"
  have k: "0 < unat ?k" using core_units_ge [of n] by simp
  have rep1: "heap_rep as live s1" "new_core (16 * unat ?k) p as live s1" using rep core by (simp_all add: s1_def new_core_def)
  note B = new_block_rep [OF rep1(1) k rep1(2)]
  have "ufree (hdr_plus p 1) (set_size p ?k s1) \<noteq> None" using ufree_rep [OF B(1), of p] by force
  then obtain t as' where T: "ufree (hdr_plus p 1) (set_size p ?k s1) = Some t" "heap_rep as' live t"
    "free_bytes as' t = free_bytes as s1 \<union> block (set_size p ?k s1) p" "\<forall>a \<in> live. size_at t a = size_at (set_size p ?k s1) a"
    "replies t = rs" "calls t = calls s @ [?c]" "base t = base s"
    using ufree_rep [OF B(1), of p] B(2,3) by (auto simp: s1_def)
  have "morecore n s = Some (URet (freep t) t)"
    using r T(1) by (simp add: morecore_def core_units_def [symmetric] usys_def s1_def Let_def)
  moreover have "\<forall>a \<in> live. size_at t a = size_at s a" using T(4) B(3) by (auto simp: s1_def)
  moreover have "free_bytes as' t = free_bytes as s \<union> {unat p ..< unat p + 16 * unat ?k}"
    using T(3) by (simp add: s1_def block_def)
  ultimately show ?thesis using T by blast
qed

section \<open>Properties\<close>

text \<open>The number of units holds the header and at least \<open>nbytes\<close> bytes.\<close>

lemma malloc_units_enough: "unat (malloc_units nbytes) = (unat nbytes + 15) div 16 + 1"
  "unat nbytes + 16 \<le> 16 * unat (malloc_units nbytes)" "16 * unat (malloc_units nbytes) < unat nbytes + 32"
proof -
  have b: "unat nbytes < 4294967296" by simp
  have k: "(unat nbytes + 15) div 16 + 1 < 4294967296" using b by linarith
  have u: "unat (of_nat m :: u64) = m" if "m < 8589934592" for m using that by (intro unat_of_nat_u64) simp
  have e: "ucast nbytes + 16 - 1 = (of_nat (unat nbytes + 15) :: u64)" by (simp add: add.commute)
  have "unat ((ucast nbytes + 16 - 1) div 16 :: u64) = (unat nbytes + 15) div 16"
    unfolding e using u [of "unat nbytes + 15"] b by (simp add: unat_div del: of_nat_add)
  then have "(ucast nbytes + 16 - 1) div 16 = (of_nat ((unat nbytes + 15) div 16) :: u64)"
    using u [of "(unat nbytes + 15) div 16"] k unfolding word_unat_eq_iff by linarith
  then have "malloc_units nbytes = ucast (of_nat ((unat nbytes + 15) div 16 + 1) :: u64)"
    unfolding malloc_units_def by (simp add: add.commute)
  then have "unat (malloc_units nbytes) = take_bit 32 ((unat nbytes + 15) div 16 + 1)"
    using u [of "(unat nbytes + 15) div 16 + 1"] k by (simp add: unsigned_ucast_eq)
  also have "\<dots> = (unat nbytes + 15) div 16 + 1" using k by (simp add: take_bit_nat_eq_self)
  finally show m: "unat (malloc_units nbytes) = (unat nbytes + 15) div 16 + 1" .
  show "unat nbytes + 16 \<le> 16 * unat (malloc_units nbytes)" "16 * unat (malloc_units nbytes) < unat nbytes + 32"
    using m by linarith+
qed

text \<open>The memory behind the header of a block that large.\<close>

lemma block_payload:
  assumes "heap_rep as live t" "b \<in> live" "size_at t b = malloc_units nbytes"
  shows "hdr_plus b 1 \<noteq> 0 \<and> {unat (hdr_plus b 1) ..< unat (hdr_plus b 1) + unat nbytes} \<subseteq> block t b"
proof -
  have "block_ok t b" using assms(1,2) by (simp add: heap_rep_def)
  then have "unat b + 16 * unat (malloc_units nbytes) \<le> 2 ^ 36" using assms(3) by (simp add: block_ok_def end_at_def)
  note e = this malloc_units_enough(2) [of nbytes]
  then have h: "unat (hdr_plus b 1) = unat b + 16" using unat_add_of_nat [of b 16] by (simp add: hdr_plus_def)
  then have "hdr_plus b 1 \<noteq> 0" by auto
  moreover have "{unat (hdr_plus b 1) ..< unat (hdr_plus b 1) + unat nbytes} \<subseteq> block t b"
    unfolding h block_def end_at_def assms(3) using e by auto
  ultimately show ?thesis ..
qed

lemma ucast_times16: "ucast (ucast k * 16 :: u64) = 16 * (k :: u32)"
proof -
  have "(ucast k * 16 :: u64) = of_nat (unat k * 16)" by simp
  moreover have "take_bit 64 (unat k * 16) = unat k * 16" using unat_u32_less [of k] by (intro take_bit_nat_eq_self) (simp del: unat_u32_less)
  ultimately have "ucast (ucast k * 16 :: u64) = (of_nat (unat k * 16) :: u32)" by (simp add: unsigned_of_nat del: of_nat_mult)
  then show ?thesis by (simp add: mult.commute)
qed

lemma sbrk_arg:
  assumes "16 * unat k < 2 ^ 31"
  shows "nat (sint (16 * k :: i32)) = 16 * unat k"
proof -
  have e: "16 * k = of_nat (16 * unat k)" by simp
  show ?thesis unfolding e sint_of_nat_small [OF assms] by (rule nat_int)
qed

text \<open>With new memory the block is found, so \<open>malloc\<close> asks for memory at most once.\<close>

lemma malloc_loop_grows:
  fixes s :: "'a heap_state_scheme"
  assumes rep: "heap_rep as live s" and n0: "0 < n" and small: "\<forall>a \<in> set as. size_at s a < n"
    and r: "replies s = (p, x) # rs" "p \<noteq> -1" and new: "new_core (16 * unat (core_units n)) p as live s"
  shows "\<exists>b as' t. malloc_loop n (freep s) (ptr_at s (freep s)) s = Some (URet (hdr_plus b 1) t) \<and>
    heap_rep as' (insert b live) t \<and> size_at t b = n \<and> b \<notin> live \<and> (\<forall>a \<in> live. size_at t a = size_at s a) \<and>
    block t b \<subseteq> free_bytes as s \<union> {unat p ..< unat p + 16 * unat (core_units n)} \<and>
    free_bytes as' t = free_bytes as s \<union> {unat p ..< unat p + 16 * unat (core_units n)} - block t b \<and>
    calls t = calls s @ [U_sbrk (16 * core_units n)]"
proof -
  let ?core = "{unat p ..< unat p + 16 * unat (core_units n)}"
  obtain as' t where T: "morecore n s = Some (URet (freep t) t)" "heap_rep as' live t"
    "free_bytes as' t = free_bytes as s \<union> ?core" "\<forall>a \<in> live. size_at t a = size_at s a"
    "calls t = calls s @ [U_sbrk (16 * core_units n)]"
    using morecore_rep [OF rep r new] by (auto simp: ucast_times16)
  have "\<exists>a \<in> set as'. n \<le> size_at t a"
  proof -
    have "unat p < unat p + 16 * unat (core_units n)" using core_units_ge [of n] by simp
    moreover have "?core \<subseteq> free_bytes as' t" unfolding T(3) by blast
    ultimately obtain a where "a \<in> set as'" "unat a \<le> unat p" "unat p + 16 * unat (core_units n) \<le> end_at t a"
      using free_row_in_block [OF T(2)] by metis
    then have "a \<in> set as'" "unat n \<le> unat (size_at t a)" using core_units_ge(2) [of n] by (simp_all add: end_at_def)
    then show ?thesis by (auto simp: word_le_nat_alt)
  qed
  from malloc_loop_fit [OF T(2) n0 this] obtain b as'' u where U:
    "malloc_loop n (freep t) (ptr_at t (freep t)) t = Some (URet (hdr_plus b 1) u)" "took n as' live t b as'' u" "calls u = calls t"
    by blast
  have "freep t \<noteq> 0" using T(2) block_ok_end [of t 0] by (auto simp: heap_rep_def)
  then have "malloc_loop n (freep s) (ptr_at s (freep s)) s = Some (URet (hdr_plus b 1) u)"
    unfolding malloc_loop_nofit [OF rep n0 small] T(1) using U(1) by simp
  then show ?thesis using T U(2,3) unfolding took_def by auto
qed

text \<open>
  C31: For a request below \<open>2 ^ 31 - 32\<close> bytes, which keeps the argument of \<open>sbrk\<close> positive, \<open>malloc\<close> always returns.  It
  returns null only when no free block is large enough and \<open>sbrk\<close> failed; then the heap is unchanged.  Otherwise it
  returns the address after the header of a block whose size is \<open>nbytes\<close> rounded up to units and one unit for the
  header, so that the \<open>nbytes\<close> bytes from there on are in the block.  The block is taken from the free bytes (extended by
  new memory where needed), overlaps no live block and no free one, and no live block changes.
\<close>

theorem malloc_allocates:
  fixes s :: "'a heap_state_scheme" and nbytes :: u32
  defines "n \<equiv> of_nat ((unat nbytes + 15) div 16 + 1)"
    and "serves \<equiv> \<lambda>b t. hdr_plus b 1 \<noteq> 0 \<and> {unat (hdr_plus b 1) ..< unat (hdr_plus b 1) + unat nbytes} \<subseteq> block (t :: 'a heap_state_scheme) b"
  assumes rep: "heap_rep as live (malloc_init s)" and small: "unat nbytes < 2 ^ 31 - 32"
    and r: "replies s = (p, x) # rs" and core: "p \<noteq> -1 \<Longrightarrow> new_core (nat (sint (16 * core_units n))) p as live (malloc_init s)"
  shows "(\<exists>b as' t. umalloc nbytes s = Some (URet (hdr_plus b 1) t) \<and> took n as live (malloc_init s) b as' t \<and> serves b t \<and> calls t = calls s) \<or>
    (\<forall>a \<in> set as. size_at (malloc_init s) a < n) \<and>
    (if p = -1 then umalloc nbytes s = Some (URet 0 ((malloc_init s)\<lparr>replies := rs, calls := calls s @ [U_sbrk (16 * core_units n)]\<rparr>))
     else \<exists>b as' t. umalloc nbytes s = Some (URet (hdr_plus b 1) t) \<and> heap_rep as' (insert b live) t \<and> size_at t b = n \<and> b \<notin> live \<and>
       serves b t \<and> (\<forall>a \<in> live. size_at t a = size_at (malloc_init s) a) \<and>
       (let core = {unat p ..< unat p + 16 * unat (core_units n)} in
        block t b \<subseteq> free_bytes as (malloc_init s) \<union> core \<and> free_bytes as' t = free_bytes as (malloc_init s) \<union> core - block t b) \<and>
       calls t = calls s @ [U_sbrk (16 * core_units n)])"
proof -
  let ?s = "malloc_init s"
  have nu: "n = malloc_units nbytes" unfolding n_def malloc_units_enough(1) [symmetric] by simp
  have pay: "serves b t" if "heap_rep as' (insert b live) t" "size_at t b = n" for b as' and t :: "'a heap_state_scheme"
    unfolding serves_def using block_payload [OF that(1) _ that(2) [unfolded nu]] by simp
  have f: "replies ?s = replies s" "calls ?s = calls s" by (simp_all add: malloc_init_def)
  have n0: "0 < n" using malloc_units_enough(2) [of nbytes] by (simp add: nu word_less_nat_alt)
  have "16 * unat (core_units n) < 2 ^ 31"
    using malloc_units_enough(3) [of nbytes] small by (simp add: nu core_units_def)
  then have core: "p \<noteq> -1 \<Longrightarrow> new_core (16 * unat (core_units n)) p as live ?s" using core by (simp add: sbrk_arg)
  note c = ucast_times16
  have M: "umalloc nbytes s = malloc_loop n (freep ?s) (ptr_at ?s (freep ?s)) ?s" by (simp add: umalloc_def nu Let_def)
  show ?thesis
  proof (cases "\<exists>a \<in> set as. n \<le> size_at ?s a")
    case True
    from malloc_loop_fit [OF rep n0 True] show ?thesis unfolding M using f(2) pay unfolding took_def by metis
  next
    case False
    then have small: "\<forall>a \<in> set as. size_at ?s a < n" by (simp add: not_le)
    note L = malloc_loop_nofit [OF rep n0 small]
    show ?thesis
    proof (cases "p = -1")
      case True
      then have "morecore n ?s = Some (URet 0 (?s\<lparr>replies := rs, calls := calls s @ [U_sbrk (16 * core_units n)]\<rparr>))"
        using r f by (simp add: morecore_def core_units_def [symmetric] usys_def c Let_def)
      then show ?thesis using small True unfolding M L by simp
    next
      case False
      then have "new_core (16 * unat (core_units n)) p as live ?s" by (rule core)
      then obtain b as' t where t: "malloc_loop n (freep ?s) (ptr_at ?s (freep ?s)) ?s = Some (URet (hdr_plus b 1) t)"
        "heap_rep as' (insert b live) t" "size_at t b = n" "b \<notin> live" "\<forall>a \<in> live. size_at t a = size_at ?s a"
        "block t b \<subseteq> free_bytes as ?s \<union> {unat p ..< unat p + 16 * unat (core_units n)}"
        "free_bytes as' t = free_bytes as ?s \<union> {unat p ..< unat p + 16 * unat (core_units n)} - block t b"
        "calls t = calls s @ [U_sbrk (16 * core_units n)]"
        using malloc_loop_grows [OF rep n0 small _ False, of x rs] r f by auto
      show ?thesis unfolding M Let_def if_not_P [OF False]
        by (intro disjI2 conjI exI, rule small) (rule t pay [OF t(2,3)])+
    qed
  qed
qed

text \<open>
  C32: \<open>free\<close> of a live block always returns.  It gives exactly the bytes of the block to the free list, which stays
  sorted by address with no two blocks that touch, and changes no other live block.
\<close>

theorem free_returns_block:
  fixes s :: "'a heap_state_scheme"
  assumes "heap_rep as live s" "bp \<in> live"
  shows "\<exists>as' t. ufree (hdr_plus bp 1) s = Some t \<and> heap_rep as' (live - {bp}) t \<and>
    free_bytes as' t = free_bytes as s \<union> block s bp \<and> (\<forall>a \<in> live - {bp}. size_at t a = size_at s a) \<and> calls t = calls s"
  using ufree_rep [OF assms] by blast

text \<open>
  A request of about \<open>2 ^ 31\<close> bytes or more, on a heap that is still empty, makes \<open>morecore\<close> call \<open>sbrk\<close> with a negative
  number; the address in the reply is then taken for the start of that many new bytes, and \<open>malloc\<close> returns a
  pointer that is not null.
\<close>

lemma malloc_huge:
  fixes s :: "'a heap_state_scheme" and nbytes :: u32
  defines "k \<equiv> 16 * malloc_units nbytes"
  assumes nb: "2 ^ 31 - 16 \<le> unat nbytes" "unat nbytes \<le> 2 ^ 32 - 48" and f: "freep s = 0" "base s \<noteq> 0" "unat (base s) + 16 \<le> unat p"
    and p: "unat p < 2 ^ 32" and r: "replies s = (p, x) # rs"
  shows "k <s 0 \<and> (\<exists>b t. umalloc nbytes s = Some (URet (hdr_plus b 1) t) \<and> hdr_plus b 1 \<noteq> 0 \<and> calls t = calls s @ [U_sbrk k])"
proof -
  let ?n = "malloc_units nbytes" and ?s = "malloc_init s"
  note e = malloc_units_enough(2,3) [of nbytes]
  have u: "2 ^ 31 \<le> 16 * unat ?n" "16 * unat ?n < 2 ^ 32" using e nb by simp_all
  have cu: "core_units ?n = ?n" using u(1) by (simp add: core_units_def word_less_nat_alt)
  have n0: "0 < ?n" using u(1) by (simp add: word_less_nat_alt)
  have "k = of_nat (16 * unat ?n)" by (simp add: k_def)
  then have "2 ^ 31 \<le> unat k" using u by (simp add: unat_of_nat_u32 del: of_nat_mult)
  moreover have "unat k < 2 ^ 31" if "0 \<le>s k" using sint_nonneg [OF that] sint_lt [of k] by (simp del: of_nat_unat)
  ultimately have neg: "k <s 0" by (auto simp: not_sle [symmetric])
  have s: "?s = set_size (base s) 0 (set_ptr (base s) (base s) (s\<lparr>freep := base s\<rparr>))" using f by (simp add: malloc_init_def)
  have rep: "heap_rep [] {} ?s" unfolding s using f by (simp add: heap_rep_def)
  have core: "new_core (16 * unat (core_units ?n)) p [] {} ?s" unfolding cu s using f p u by (simp add: new_core_def)
  have "p \<noteq> -1" using p by (auto simp: unsigned_minus_1_eq_mask mask_eq_exp_minus_1)
  have f': "replies ?s = (p, x) # rs" "calls ?s = calls s" using r by (simp_all add: malloc_init_def)
  obtain b as' t where "umalloc nbytes s = Some (URet (hdr_plus b 1) t)" "heap_rep as' {b} t" "calls t = calls s @ [U_sbrk k]"
    using malloc_loop_grows [OF rep n0 _ f'(1) \<open>p \<noteq> -1\<close> core] unfolding umalloc_def Let_def cu k_def f'(2) by auto
  moreover have "hdr_plus b 1 \<noteq> 0"
  proof -
    have "block_ok t b" using calculation(2) by (simp add: heap_rep_def)
    then have "unat b + 16 < 2 ^ 64" by (simp add: block_ok_def end_at_def)
    then have "unat (hdr_plus b 1) = unat b + 16" using unat_add_of_nat [of b 16] by (simp add: hdr_plus_def)
    then show ?thesis by auto
  qed
  ultimately show ?thesis using neg by blast
qed

section \<open>Witnesses\<close>

text \<open>A process that has not used its heap, whose next \<open>sbrk\<close> will return \<open>0x4000\<close>.\<close>

definition demo_heap :: heap_state where
  "demo_heap = \<lparr>replies = [(0x4000, [])], calls = [], hdrs = (\<lambda>_. \<lparr>h_ptr = 0, h_size = 0\<rparr>), base = 0x3000, freep = 0\<rparr>"

lemma demo_heap_rep: "heap_rep [] {} (malloc_init demo_heap)"
  by (simp add: heap_rep_def malloc_init_def demo_heap_def ptr_at_def size_at_def set_ptr_def set_size_def)

theorem malloc_allocates_witness:
  "\<exists>b as' t. umalloc 100 demo_heap = Some (URet (hdr_plus b 1) t) \<and> heap_rep as' {b} t \<and>
    {unat (hdr_plus b 1) ..< unat (hdr_plus b 1) + 100} \<subseteq> block t b \<and> calls t = [U_sbrk 65536]"
proof -
  have u: "of_nat ((unat (100 :: u32) + 15) div 16 + 1) = (8 :: u32)" "core_units 8 = 4096" by (simp_all add: core_units_def)
  have "new_core (nat (sint (16 * (4096 :: u32)))) 0x4000 [] {} (malloc_init demo_heap)"
    by (simp add: new_core_def malloc_init_def demo_heap_def)
  have r: "replies demo_heap = [(0x4000, [])]" by (simp add: demo_heap_def)
  from malloc_allocates [where nbytes = 100 and p = "0x4000" and x = "[]" and rs = "[]", OF demo_heap_rep, unfolded u, OF _ r] \<open>new_core _ _ _ _ _\<close>
  consider b as' t where "took 8 [] {} (malloc_init demo_heap) b as' t"
      "{unat (hdr_plus b 1) ..< unat (hdr_plus b 1) + 100} \<subseteq> block t b"
    | b as' t where "umalloc 100 demo_heap = Some (URet (hdr_plus b 1) t)" "heap_rep as' {b} t"
      "{unat (hdr_plus b 1) ..< unat (hdr_plus b 1) + 100} \<subseteq> block t b" "calls t = calls demo_heap @ [U_sbrk 65536]"
    by auto
  then show ?thesis
  proof cases
    case 1
    then have "{unat (hdr_plus b 1) ..< unat (hdr_plus b 1) + 100} \<subseteq> {}" by (simp add: took_def free_bytes_def)
    then show ?thesis by simp
  next
    case 2
    then show ?thesis by (auto simp: demo_heap_def)
  qed
qed

text \<open>One live block of 6 units right before a free one.\<close>

definition demo_live :: heap_state where
  "demo_live = \<lparr>replies = [], calls = [],
     hdrs = (\<lambda>_. \<lparr>h_ptr = 0, h_size = 0\<rparr>)(0x3000 := \<lparr>h_ptr = 0x4060, h_size = 0\<rparr>, 0x4060 := \<lparr>h_ptr = 0x3000, h_size = 10\<rparr>,
       0x4000 := \<lparr>h_ptr = 0, h_size = 6\<rparr>),
     base = 0x3000, freep = 0x4060\<rparr>"

theorem free_returns_block_witness:
  "\<exists>as' t. ufree 0x4010 demo_live = Some t \<and> heap_rep as' {} t \<and> free_bytes as' t = {0x4000 ..< 0x4100}"
proof -
  have "heap_rep [0x4060] {0x4000} demo_live"
    by (simp add: heap_rep_def demo_live_def ptr_at_def size_at_def block_ok_def apart_def end_at_def)
  from free_returns_block [where bp = "0x4000", OF this]
  have "\<exists>as' t. ufree 0x4010 demo_live = Some t \<and> heap_rep as' {} t \<and>
      free_bytes as' t = free_bytes [0x4060] demo_live \<union> block demo_live 0x4000"
    by (auto simp: hdr_plus_def)
  moreover have "free_bytes [0x4060] demo_live \<union> block demo_live 0x4000 = {0x4000 ..< 0x4100}"
    by (auto simp: free_bytes_def block_def end_at_def size_at_def demo_live_def)
  ultimately show ?thesis by simp
qed

end
