(* ===== verification/Ulib.thy ===== *)
theory Ulib
  imports Usys Memory
begin

text \<open>
  The C library of user programs, \<open>user/ulib.c\<close>.  As for \<open>kernel/string.c\<close>, the \<open>mem*\<close> routines work on
  memory and the \<open>str*\<close> routines on the list of bytes from the pointer on, whose terminating NUL follows
  where the list ends.
\<close>

section \<open>Strings\<close>

text \<open>\<open>while((*s++ = *t++) != 0)\<close>: the loop of \<open>strcpy\<close> at index \<open>i\<close> of the destination array.\<close>

function u_strcpy_loop :: "u8 list \<Rightarrow> nat \<Rightarrow> u8 list \<Rightarrow> u8 list" where
  "u_strcpy_loop s i t = (if deref t \<noteq> 0 then u_strcpy_loop (s[i := deref t]) (i + 1) (tl t) else s[i := deref t])"
  by pat_completeness auto
termination by (relation "measure (\<lambda>(s, i, t). length t)") (auto simp: deref_def split: list.splits)

declare u_strcpy_loop.simps [simp del]

definition u_strcpy :: "u8 list \<Rightarrow> u8 list \<Rightarrow> u8 list" where
  "u_strcpy s t = u_strcpy_loop s 0 t"

function u_strcmp :: "u8 list \<Rightarrow> u8 list \<Rightarrow> int" where
  "u_strcmp p q = (if deref p \<noteq> 0 \<and> deref p = deref q then u_strcmp (tl p) (tl q) else uint (deref p) - uint (deref q))"
  by pat_completeness auto
termination by (relation "measure (\<lambda>(p, q). length p)") (auto simp: deref_def split: list.splits)

declare u_strcmp.simps [simp del]

function u_strlen_loop :: "u8 list \<Rightarrow> nat \<Rightarrow> nat" where
  "u_strlen_loop s n = (if deref (drop n s) \<noteq> 0 then u_strlen_loop s (n + 1) else n)"
  by pat_completeness auto
termination by (relation "measure (\<lambda>(s, n). length s - n)") (auto simp: deref_def not_le split: list.splits dest!: arg_cong [where f = length])

declare u_strlen_loop.simps [simp del]

definition u_strlen :: "u8 list \<Rightarrow> nat" where
  "u_strlen s = u_strlen_loop s 0"

text \<open>The pointer \<open>strchr\<close> returns, as the list from there on.\<close>

fun u_strchr :: "u8 list \<Rightarrow> u8 \<Rightarrow> u8 list option" where
  "u_strchr [] c = None"
| "u_strchr (d # s) c = (if d = 0 then None else if d = c then Some (d # s) else u_strchr s c)"

function u_atoi_loop :: "u8 list \<Rightarrow> i32 \<Rightarrow> i32" where
  "u_atoi_loop s n =
     (if 48 \<le> deref s \<and> deref s \<le> 57 then u_atoi_loop (tl s) (n * 10 + ucast (deref s) - 48) else n)"
  by pat_completeness auto
termination by (relation "measure (\<lambda>(s, n). length s)") (auto simp: deref_def split: list.splits)

declare u_atoi_loop.simps [simp del]

definition u_atoi :: "u8 list \<Rightarrow> i32" where
  "u_atoi s = u_atoi_loop s 0"

section \<open>Memory\<close>

definition u_memset :: "u64 \<Rightarrow> i32 \<Rightarrow> u32 \<Rightarrow> memory \<Rightarrow> memory" where
  "u_memset dst c n m = fold (\<lambda>i m. m(dst + of_nat i := ucast c)) [0..<unat n] m"

text \<open>\<open>n\<close> is an \<open>int\<close>: the loops run while \<open>n-- > 0\<close>, and \<open>dst += n\<close> adds it with its sign.\<close>

definition u_memmove :: "u64 \<Rightarrow> u64 \<Rightarrow> i32 \<Rightarrow> memory \<Rightarrow> memory" where
  "u_memmove vdst vsrc n m =
     (if vsrc > vdst then copy_up vdst vsrc (nat (sint n)) m
      else copy_down (vdst + scast n) (vsrc + scast n) (nat (sint n)) m)"

text \<open>\<open>char\<close> is unsigned on this machine.\<close>

fun u_memcmp_loop :: "u64 \<Rightarrow> u64 \<Rightarrow> nat \<Rightarrow> memory \<Rightarrow> i32" where
  "u_memcmp_loop p1 p2 0 m = 0"
| "u_memcmp_loop p1 p2 (Suc n) m =
     (if m p1 \<noteq> m p2 then ucast (m p1) - ucast (m p2) else u_memcmp_loop (p1 + 1) (p2 + 1) n m)"

definition u_memcmp :: "u64 \<Rightarrow> u64 \<Rightarrow> u32 \<Rightarrow> memory \<Rightarrow> i32" where
  "u_memcmp s1 s2 n m = u_memcmp_loop s1 s2 (unat n) m"

definition u_memcpy :: "u64 \<Rightarrow> u64 \<Rightarrow> u32 \<Rightarrow> memory \<Rightarrow> memory" where
  "u_memcpy dst src n m = u_memmove dst src n m"

section \<open>Input and files\<close>

text \<open>
  The loop of \<open>gets\<close>; \<open>k\<close> is the room left for characters, and the value the characters read.  A reply of
  one or more to \<open>read(0, &c, 1)\<close> has stored \<open>c\<close>.
\<close>

function gets_loop :: "nat \<Rightarrow> 'a user_state_scheme \<Rightarrow> ('a user_state_scheme, u8 list) uout" where
  "gets_loop k s =
     (if k = 0 then URet [] s
      else ubnd (dcall (U_read 0 1) s) (\<lambda>(cc, bs) s.
           if cc <s 1 then URet [] s
           else let c = deref bs in
                if c = 10 \<or> c = 13 then URet [c] s
                else ubnd (gets_loop (k - 1) s) (\<lambda>cs s. URet (c # cs) s)))"
  by pat_completeness auto
termination by (relation "measure fst") auto

declare gets_loop.simps [simp del]

text \<open>\<open>gets(buf, max)\<close> on the array \<open>buf\<close>.\<close>

definition gets :: "u8 list \<Rightarrow> nat \<Rightarrow> 'a user_state_scheme \<Rightarrow> ('a user_state_scheme, u8 list) uout" where
  "gets buf nbuf s = ubnd (gets_loop (nbuf - 1) s) (\<lambda>cs s. URet (store_bytes 0 (cs @ [0]) buf) s)"

text \<open>\<open>kernel/fcntl.h\<close>.\<close>

definition uO_RDONLY :: i32 where "uO_RDONLY = 0"
definition uO_WRONLY :: i32 where "uO_WRONLY = 1"
definition uO_RDWR :: i32 where "uO_RDWR = 2"
definition uO_CREATE :: i32 where "uO_CREATE = 0x200"
definition uO_TRUNC :: i32 where "uO_TRUNC = 0x400"

definition u_stat :: "u8 list \<Rightarrow> 'a user_state_scheme \<Rightarrow> ('a user_state_scheme, i32 \<times> u8 list) uout" where
  "u_stat n s =
     ubnd (icall (U_open (cstring n) uO_RDONLY) s) (\<lambda>fd s.
     if fd <s 0 then URet (-1, []) s
     else ubnd (dcall (U_fstat fd) s) (\<lambda>r s. ubnd (icall (U_close fd) s) (\<lambda>_ s. URet r s)))"

text \<open>\<open>start\<close>, the entry point of every program.\<close>

definition start :: "('s \<Rightarrow> ('s, i32) uout) \<Rightarrow> 's \<Rightarrow> ('s, unit) uout" where
  "start main s = ubnd (main s) (\<lambda>_ s. uexit 0 s)"

section \<open>Facts\<close>

lemma u_strlen_loop_eq: "u_strlen_loop s n = n + length (cstring (drop n s))"
  by (induction s n rule: u_strlen_loop.induct)
     (auto simp: u_strlen_loop.simps cstring_nonzero cstring_zero drop_Suc drop_tl)

lemma u_strlen_cstring: "u_strlen s = length (cstring s)"
  by (simp add: u_strlen_def u_strlen_loop_eq)

lemma cstring_id: "0 \<notin> set s \<Longrightarrow> cstring s = s"
  by (auto simp: cstring_def takeWhile_eq_all_conv)

lemma cstring_append_NUL: "0 \<notin> set s \<Longrightarrow> cstring (s @ 0 # t) = s"
  by (induction s) (auto simp: cstring_def)

lemma cstring_Nil: "cstring s = [] \<longleftrightarrow> deref s = 0"
  by (cases s) (auto simp: cstring_def deref_def)

lemma no_NUL_cstring [simp]: "0 \<notin> set (cstring s)"
  by (auto simp: cstring_def dest: set_takeWhileD)

lemma deref_NUL_iff: "0 \<notin> set s \<Longrightarrow> deref s = 0 \<longleftrightarrow> s = []"
  by (cases s) (auto simp: deref_def)

lemma u_strchr_None: "u_strchr s c = None \<longleftrightarrow> c = 0 \<or> c \<notin> set (cstring s)"
  by (induction s) (auto simp: cstring_def)

lemma u_strchr_Some:
  "u_strchr s c = Some q \<longleftrightarrow> c \<noteq> 0 \<and> (\<exists>pre t. s = pre @ c # t \<and> q = c # t \<and> 0 \<notin> set pre \<and> c \<notin> set pre)"
proof (induction s)
  case (Cons d s)
  show ?case
  proof (cases "d = 0 \<or> d = c")
    case True
    then show ?thesis by (auto simp: Cons_eq_append_conv)
  next
    case False
    then have "u_strchr (d # s) c = Some q \<longleftrightarrow> u_strchr s c = Some q" by simp
    also have "\<dots> \<longleftrightarrow> c \<noteq> 0 \<and> (\<exists>pre t. d # s = pre @ c # t \<and> q = c # t \<and> 0 \<notin> set pre \<and> c \<notin> set pre)"
      unfolding Cons.IH using False by (fastforce simp: Cons_eq_append_conv)
    finally show ?thesis .
  qed
qed simp

lemma u_strcmp_zero_iff: "u_strcmp p q = 0 \<longleftrightarrow> cstring p = cstring q"
proof (induction p q rule: u_strcmp.induct)
  case (1 p q)
  show ?case
  proof (cases "deref p \<noteq> 0 \<and> deref p = deref q")
    case True
    then have "deref p \<noteq> 0" "deref q \<noteq> 0" "deref p = deref q" by auto
    then show ?thesis using 1 [OF True] by (simp add: u_strcmp.simps [of p] cstring_nonzero)
  next
    case False
    then show ?thesis
      by (cases "deref p = 0"; cases "deref q = 0")
         (auto simp: u_strcmp.simps [of p] cstring_nonzero cstring_zero word_uint_eq_iff)
  qed
qed

lemma length_u_strcpy_loop [simp]: "length (u_strcpy_loop s i t) = length s"
  by (induction s i t rule: u_strcpy_loop.induct) (simp add: u_strcpy_loop.simps)

lemma u_strcpy_loop_eq:
  "i + length (cstring t) < length s \<Longrightarrow>
    u_strcpy_loop s i t = take i s @ cstring t @ 0 # drop (i + length (cstring t) + 1) s"
proof (induction s i t rule: u_strcpy_loop.induct)
  case (1 s i t)
  show ?case
  proof (cases "deref t = 0")
    case True
    then show ?thesis using 1(2) by (simp add: u_strcpy_loop.simps cstring_zero upd_conv_take_nth_drop)
  next
    case False
    then show ?thesis using 1
      by (subst u_strcpy_loop.simps) (simp add: cstring_nonzero take_Suc_conv_app_nth)
  qed
qed

lemma u_strcpy_copies: "length (cstring t) < length s \<Longrightarrow> cstring (u_strcpy s t) = cstring t"
  by (simp add: u_strcpy_def u_strcpy_loop_eq cstring_append_NUL)


section \<open>\<open>memmove\<close>\<close>

lemma u_memmove_apply:
  assumes "unat src + unat n \<le> 2 ^ 64" "unat dst + unat n \<le> 2 ^ 64" "0 \<le>s n"
  shows "u_memmove dst src n m a = (if unat (a - dst) < unat n then m (src + (a - dst)) else m a)"
proof -
  have n: "nat (sint n) = unat n" "unat n \<le> 2 ^ 64" "scast n = (of_nat (unat n) :: u64)"
    using unat_u32_less [of n] sint_nonneg [OF assms(3)] by (simp_all del: unat_u32_less of_nat_unat add: scast_eq)
  show ?thesis
  proof (cases "src > dst")
    case True
    then show ?thesis
      using copy_up_apply [OF n(2), of dst src m a] no_wrap_diff [OF assms(1) True] by (simp add: u_memmove_def n(1))
  next
    case False
    have "dst = src \<or> unat n \<le> unat (src - dst)"
      using no_wrap_diff [OF assms(2), of src] False by (cases "dst = src") auto
    from copy_down_apply [OF n(2) this, of m a] show ?thesis using False by (simp add: u_memmove_def n)
  qed
qed

text \<open>
  The \<open>memmove\<close> of the user library and the kernel's choose the direction of the copy by different
  tests; for a length that is not negative and regions inside the address space they are the same function.
\<close>

lemma user_memmove_is_kernel_memmove:
  assumes "unat src + unat n \<le> 2 ^ 64" "unat dst + unat n \<le> 2 ^ 64" "0 \<le>s n"
  shows "u_memmove dst src n m = memmove dst src n m"
  by (rule ext) (simp add: u_memmove_apply [OF assms] memmove_apply [OF assms(1,2)])

end
