(* ===== verification/Uprintf.thy ===== *)
theory Uprintf
  imports Ulib Printf
begin

text \<open>
  Formatted output of user programs, \<open>user/printf.c\<close>: every character is a \<open>write\<close> of one byte, whose
  result is ignored.  Arguments are those of the kernel's \<open>printf\<close>, see \<^typ>\<open>va\<close>.
\<close>

definition u_digits :: "u8 list" where
  "u_digits = cstr ''0123456789ABCDEF''"

definition u_putc :: "i32 \<Rightarrow> u8 \<Rightarrow> 'a user_state_scheme \<Rightarrow> ('a user_state_scheme, unit) uout" where
  "u_putc fd c s = ubnd (icall (U_write fd [c]) s) (\<lambda>_ s. URet () s)"

primrec u_puts :: "i32 \<Rightarrow> u8 list \<Rightarrow> 'a user_state_scheme \<Rightarrow> ('a user_state_scheme, unit) uout" where
  "u_puts fd [] s = URet () s"
| "u_puts fd (c # cs) s = ubnd (u_putc fd c s) (\<lambda>_ s. u_puts fd cs s)"

section \<open>Numbers\<close>

text \<open>The \<open>do\<close> loop fills \<open>buf\<close> from the least digit on; a base below 2, never used, would not end.\<close>

function u_printint_digits :: "u32 \<Rightarrow> u32 \<Rightarrow> u8 list" where
  "u_printint_digits x base =
     (if base < 2 then []
      else u_digits ! unat (x mod base) # (if x div base \<noteq> 0 then u_printint_digits (x div base) base else []))"
  by pat_completeness auto
termination
proof (relation "measure (\<lambda>(x, base). unat x)", simp)
  fix x base :: u32
  assume b: "\<not> base < 2" and x: "x div base \<noteq> 0"
  then have "1 < unat base" by (simp add: word_less_nat_alt)
  moreover have "unat x \<noteq> 0" using x by (auto simp: unat_eq_zero)
  ultimately have "unat x div unat base < unat x" by (intro div_less_dividend) simp_all
  then show "((x div base, base), x, base) \<in> measure (\<lambda>(x, base). unat x)" by (simp add: unat_div)
qed

declare u_printint_digits.simps [simp del]

text \<open>The contents of \<open>buf\<close>, of 16 characters, before it is printed backwards.\<close>

definition u_printint_buf :: "i32 \<Rightarrow> u32 \<Rightarrow> bool \<Rightarrow> u8 list" where
  "u_printint_buf xx base sign =
     (let neg = sign \<and> xx <s 0;
          x = (if neg then - xx else xx)
      in u_printint_digits x base @ (if neg then cstr ''-'' else []))"

definition u_printint :: "i32 \<Rightarrow> i32 \<Rightarrow> u32 \<Rightarrow> bool \<Rightarrow> 'a user_state_scheme \<Rightarrow> ('a user_state_scheme, unit) uout" where
  "u_printint fd xx base sign s =
     (let buf = u_printint_buf xx base sign
      in if length buf > 16 then UFault else u_puts fd (rev buf) s)"

primrec u_printptr_loop :: "nat \<Rightarrow> i32 \<Rightarrow> u64 \<Rightarrow> 'a user_state_scheme \<Rightarrow> ('a user_state_scheme, unit) uout" where
  "u_printptr_loop 0 fd x s = URet () s"
| "u_printptr_loop (Suc k) fd x s =
     ubnd (u_putc fd (u_digits ! unat (drop_bit 60 x)) s) (\<lambda>_ s. u_printptr_loop k fd (push_bit 4 x) s)"

definition u_printptr :: "i32 \<Rightarrow> u64 \<Rightarrow> 'a user_state_scheme \<Rightarrow> ('a user_state_scheme, unit) uout" where
  "u_printptr fd x s =
     ubnd (u_putc fd 48 s) (\<lambda>_ s. ubnd (u_putc fd 120 s) (\<lambda>_ s. u_printptr_loop 16 fd x s))"

section \<open>\<open>vprintf\<close>\<close>

text \<open>
  The conversion at \<open>c0\<close>, the first byte of \<open>fmt\<close>, in state \<open>'%'\<close>.  The third component of \<open>ConvInt\<close>
  plays no role here: \<open>printint\<close> takes an \<open>int\<close> whichever type \<open>va_arg\<close> read.
\<close>

definition vprintf_conv :: "u8 list \<Rightarrow> conv" where
  "vprintf_conv fmt =
     (let c0 = deref fmt;
          c1 = (if c0 \<noteq> 0 then deref (tl fmt) else 0);
          c2 = (if c1 \<noteq> 0 then deref (tl (tl fmt)) else 0);
          d = 100; l = 108; u = 117; x = 120 in
      if c0 = d then ConvInt 10 True True 0
      else if c0 = l \<and> c1 = d then ConvInt 10 True False 1
      else if c0 = l \<and> c1 = l \<and> c2 = d then ConvInt 10 True False 2
      else if c0 = u then ConvInt 10 False True 0
      else if c0 = l \<and> c1 = u then ConvInt 10 False False 1
      else if c0 = l \<and> c1 = l \<and> c2 = u then ConvInt 10 False False 2
      else if c0 = x then ConvInt 16 False True 0
      else if c0 = l \<and> c1 = x then ConvInt 16 False False 1
      else if c0 = l \<and> c1 = l \<and> c2 = x then ConvInt 16 False False 2
      else if c0 = 112 then ConvPtr
      else if c0 = 115 then ConvStr
      else if c0 = 37 then ConvPercent
      else ConvOther c0)"

text \<open>The loop over the format; \<open>pct\<close> is \<open>state == '%'\<close>.\<close>

function vprintf_loop :: "i32 \<Rightarrow> u8 list \<Rightarrow> bool \<Rightarrow> va list \<Rightarrow> 'a user_state_scheme \<Rightarrow> ('a user_state_scheme, unit) uout" where
  "vprintf_loop fd [] pct ap s = URet () s"
| "vprintf_loop fd (c0 # fmt) pct ap s =
     (if c0 = 0 then URet () s
      else if \<not> pct then
        if c0 = 37 then vprintf_loop fd fmt True ap s
        else ubnd (u_putc fd c0 s) (\<lambda>_ s. vprintf_loop fd fmt False ap s)
      else case vprintf_conv (c0 # fmt) of
        ConvInt base sign wide k \<Rightarrow>
          (case va_num ap of
             None \<Rightarrow> UFault
           | Some (x, ap) \<Rightarrow> ubnd (u_printint fd (ucast x) (ucast base) sign s) (\<lambda>_ s. vprintf_loop fd (drop k fmt) False ap s))
      | ConvPtr \<Rightarrow>
          (case va_num ap of
             None \<Rightarrow> UFault
           | Some (x, ap) \<Rightarrow> ubnd (u_printptr fd x s) (\<lambda>_ s. vprintf_loop fd fmt False ap s))
      | ConvStr \<Rightarrow>
          (case ap of
             VStr p # ap \<Rightarrow>
               ubnd (u_puts fd (case p of None \<Rightarrow> cstr ''(null)'' | Some cs \<Rightarrow> cstring cs) s) (\<lambda>_ s. vprintf_loop fd fmt False ap s)
           | _ \<Rightarrow> UFault)
      | ConvPercent \<Rightarrow> ubnd (u_putc fd 37 s) (\<lambda>_ s. vprintf_loop fd fmt False ap s)
      | ConvEnd \<Rightarrow> URet () s
      | ConvOther c \<Rightarrow> ubnd (u_putc fd 37 s) (\<lambda>_ s. ubnd (u_putc fd c s) (\<lambda>_ s. vprintf_loop fd fmt False ap s)))"
  by pat_completeness auto
termination by (relation "measure (\<lambda>(fd, fmt, pct, ap, s). length fmt)") auto

declare vprintf_loop.simps [simp del]

definition vprintf :: "i32 \<Rightarrow> u8 list \<Rightarrow> va list \<Rightarrow> 'a user_state_scheme \<Rightarrow> ('a user_state_scheme, unit) uout" where
  "vprintf fd fmt ap s = vprintf_loop fd fmt False ap s"

definition u_fprintf :: "i32 \<Rightarrow> string \<Rightarrow> va list \<Rightarrow> 'a user_state_scheme \<Rightarrow> ('a user_state_scheme, unit) uout" where
  "u_fprintf fd fmt ap s = vprintf fd (cstr fmt) ap s"

definition u_printf :: "string \<Rightarrow> va list \<Rightarrow> 'a user_state_scheme \<Rightarrow> ('a user_state_scheme, unit) uout" where
  "u_printf fmt ap s = vprintf 1 (cstr fmt) ap s"

section \<open>The text of a format\<close>

text \<open>A number in a base, as digits from the most significant on.\<close>

function num_text :: "nat \<Rightarrow> nat \<Rightarrow> u8 list" where
  "num_text b n = (if b < 2 \<or> n < b then [u_digits ! n] else num_text b (n div b) @ [u_digits ! (n mod b)])"
  by pat_completeness auto
termination by (relation "measure snd") auto

declare num_text.simps [simp del]

definition int_text :: "nat \<Rightarrow> bool \<Rightarrow> i32 \<Rightarrow> u8 list" where
  "int_text b sign x = (if sign \<and> sint x < 0 then cstr ''-'' @ num_text b (nat (- sint x)) else num_text b (unat x))"

definition hex_text :: "u64 \<Rightarrow> u8 list" where
  "hex_text x = cstr ''0x'' @ map (\<lambda>i. u_digits ! unat (drop_bit 60 (push_bit (4 * i) x))) [0..<16]"

text \<open>What a format prints, \<open>None\<close> where an argument is missing or of the wrong kind.\<close>

function text_of :: "u8 list \<Rightarrow> va list \<Rightarrow> u8 list option" where
  "text_of [] ap = Some []"
| "text_of (c # fmt) ap =
     (if c = 0 \<or> c = 37 \<and> deref fmt = 0 then Some []
      else if c \<noteq> 37 then map_option (Cons c) (text_of fmt ap)
      else case vprintf_conv fmt of
        ConvInt base sign wide k \<Rightarrow>
          (case va_num ap of
             None \<Rightarrow> None
           | Some (x, ap) \<Rightarrow> map_option (append (int_text (unat base) sign (ucast x))) (text_of (drop (Suc k) fmt) ap))
      | ConvPtr \<Rightarrow> (case va_num ap of None \<Rightarrow> None | Some (x, ap) \<Rightarrow> map_option (append (hex_text x)) (text_of (tl fmt) ap))
      | ConvStr \<Rightarrow>
          (case ap of
             VStr p # ap \<Rightarrow> map_option (append (case p of None \<Rightarrow> cstr ''(null)'' | Some cs \<Rightarrow> cstring cs)) (text_of (tl fmt) ap)
           | _ \<Rightarrow> None)
      | ConvPercent \<Rightarrow> map_option (Cons 37) (text_of (tl fmt) ap)
      | ConvEnd \<Rightarrow> None
      | ConvOther d \<Rightarrow> map_option (append [37, d]) (text_of (tl fmt) ap))"
  by pat_completeness auto
termination by (relation "measure (\<lambda>(fmt, ap). length fmt)") auto

declare text_of.simps [simp del]

section \<open>\<open>printf\<close> prints the text\<close>

lemma u_puts_append: "u_puts fd (xs @ ys) s = ubnd (u_puts fd xs s) (\<lambda>_ s. u_puts fd ys s)"
  by (induction xs arbitrary: s) (simp_all add: ubnd_assoc)

text \<open>With enough replies all bytes are written, one call each.\<close>

lemma u_puts_done:
  "length cs \<le> length (replies s) \<Longrightarrow>
    u_puts fd cs s = URet () (s\<lparr>replies := drop (length cs) (replies s), calls := calls s @ map (\<lambda>c. U_write fd [c]) cs\<rparr>)"
proof (induction cs arbitrary: s)
  case (Cons c cs)
  then obtain v bs rs where "replies s = (v, bs) # rs" by (cases "replies s") auto
  with Cons show ?case by (simp add: u_putc_def icall_reply)
qed simp

lemma u_printint_digits_text: "2 \<le> base \<Longrightarrow> rev (u_printint_digits x base) = num_text (unat base) (unat x)"
proof (induction x base rule: u_printint_digits.induct)
  case (1 x base)
  have b: "\<not> base < 2" "2 \<le> unat base" using "1.prems" by (auto simp: word_le_nat_alt not_less)
  show ?case
  proof (cases "x div base = 0")
    case True
    then have "unat x < unat base" using b(2) by (metis div_eq_0_iff not_numeral_le_zero unat_0 unat_div)
    then show ?thesis using b True by (simp add: u_printint_digits.simps [of x] num_text.simps [of _ "unat x"] unat_mod)
  next
    case False
    then have "\<not> unat x < unat base" by (metis div_less unat_div unat_eq_zero)
    then show ?thesis
      using b False "1.IH" [OF b(1) False "1.prems"]
      by (simp add: u_printint_digits.simps [of x] num_text.simps [of _ "unat x"] unat_mod unat_div)
  qed
qed

lemma num_text_length: "2 \<le> b \<Longrightarrow> n < b ^ Suc k \<Longrightarrow> length (num_text b n) \<le> Suc k"
proof (induction k arbitrary: n)
  case 0
  then show ?case by (simp add: num_text.simps)
next
  case (Suc k)
  have "n div b < b ^ Suc k" using Suc.prems by (simp add: div_less_iff_less_mult mult.commute)
  then show ?case using Suc.IH [of "n div b"] Suc.prems(1) by (simp add: num_text.simps [of b n])
qed

lemma u_printint_buf_text:
  assumes "2 \<le> base"
  shows "rev (u_printint_buf xx base sign) = int_text (unat base) sign xx"
proof -
  have u: "uint (word_of_int k :: u32) = k" if "0 \<le> k" "k < 2 ^ 32" for k
    using that by (simp add: unsigned_of_int take_bit_int_eq_self)
  have "unat (- xx) = nat (- sint xx)" if "sint xx < 0"
  proof -
    have "uint (- xx) = - sint xx" using u [of "- sint xx"] sint_ge [of xx] that by simp
    then show ?thesis by (metis nat_uint_eq)
  qed
  then show ?thesis
    using u_printint_digits_text [OF assms]
    by (auto simp: u_printint_buf_def Let_def int_text_def word_sless_alt cstr_def)
qed

text \<open>A number of 32 bits in base 10 or 16 always fits into \<open>buf\<close>.\<close>

lemma num_text_fits:
  assumes "b = 10 \<or> b = 16" "n < 2 ^ 32"
  shows "length (num_text b n) \<le> 10"
proof -
  have "n < b ^ Suc 9" using assms by (elim disjE) simp_all
  then show ?thesis using num_text_length [of b n 9] assms(1) by auto
qed

lemma int_text_fits:
  assumes "b = 10 \<or> b = 16"
  shows "length (int_text b sign x) \<le> 11"
proof -
  have "nat (- sint x) < 2 ^ 32" using sint_ge [of x] by simp
  moreover have "unat x < 2 ^ 32" by simp
  ultimately have "length (num_text b (nat (- sint x))) \<le> 10" "length (num_text b (unat x)) \<le> 10"
    using num_text_fits [OF assms] by blast+
  then show ?thesis by (simp add: int_text_def cstr_def)
qed

lemma u_printint_text:
  assumes "base = 10 \<or> base = 16"
  shows "u_printint fd xx base sign s = u_puts fd (int_text (unat base) sign xx) s"
proof -
  have b: "2 \<le> base" "unat base = 10 \<or> unat base = 16" using assms by auto
  have "length (u_printint_buf xx base sign) \<le> 11"
    using int_text_fits [OF b(2), of sign xx] unfolding u_printint_buf_text [OF b(1), symmetric] by simp
  then show ?thesis using u_printint_buf_text [OF b(1)] by (simp add: u_printint_def Let_def)
qed

lemma u_printptr_loop_text:
  "u_printptr_loop k fd x s = u_puts fd (map (\<lambda>i. u_digits ! unat (drop_bit 60 (push_bit (4 * i) x))) [0..<k]) s"
proof (induction k arbitrary: x s)
  case (Suc k)
  have "map (\<lambda>i. u_digits ! unat (drop_bit 60 (push_bit (4 * i) x))) [0..<Suc k] =
      u_digits ! unat (drop_bit 60 x) # map (\<lambda>i. u_digits ! unat (drop_bit 60 (push_bit (4 * i) (push_bit 4 x)))) [0..<k]"
    unfolding map_upt_Suc by (simp add: push_bit_push_bit add.commute)
  then show ?case using Suc by (simp only: u_printptr_loop.simps u_puts.simps)
qed simp

lemma u_printptr_text: "u_printptr fd x s = u_puts fd (hex_text x) s"
  by (simp add: u_printptr_def hex_text_def cstr_def u_printptr_loop_text)

lemma vprintf_conv_cases: "vprintf_conv fmt = ConvInt base sign wide k \<Longrightarrow> base = 10 \<or> base = 16" "vprintf_conv fmt \<noteq> ConvEnd"
  by (auto simp: vprintf_conv_def Let_def split: if_splits)

lemma va_num_Some_iff: "va_num ap = Some y \<longleftrightarrow> (\<exists>x ap'. ap = VNum x # ap' \<and> y = (x, ap'))"
  by (cases ap rule: va_num.cases) auto

lemma vprintf_loop_pct:
  "deref fmt = 0 \<Longrightarrow> vprintf_loop fd fmt True ap s = URet () s"
  by (cases fmt) (simp_all add: vprintf_loop.simps deref_def)

lemma vprintf_loop_text: "text_of fmt ap = Some out \<Longrightarrow> vprintf_loop fd fmt False ap s = u_puts fd out s"
proof (induction fmt ap arbitrary: out s rule: text_of.induct)
  case (1 ap)
  then show ?case by (simp add: text_of.simps vprintf_loop.simps)
next
  case (2 c fmt ap)
  consider "c = 0" | "c = 37" "deref fmt = 0" | "c \<noteq> 0" "c \<noteq> 37" | d r where "c = 37" "fmt = d # r" "d \<noteq> 0"
    by (cases fmt) (auto simp: deref_def)
  then show ?case
  proof cases
    case 1
    then show ?thesis using "2.prems" by (simp add: text_of.simps vprintf_loop.simps)
  next
    case 2
    then show ?thesis using "2.prems" by (simp add: text_of.simps vprintf_loop.simps vprintf_loop_pct)
  next
    case 3
    then show ?thesis using "2.prems" "2.IH"(1) by (auto simp: text_of.simps vprintf_loop.simps cong: ubnd_cong)
  next
    case 4
    have c: "\<not> (c = 0 \<or> c = 37 \<and> deref fmt = 0)" "\<not> c \<noteq> 37" using 4 by (simp_all add: deref_def)
    have L: "vprintf_loop fd (c # fmt) False ap s = vprintf_loop fd (d # r) True ap s" using 4 by (simp add: vprintf_loop.simps)
    note P = "2.prems" [unfolded text_of.simps if_not_P [OF c(1)] if_not_P [OF c(2)]]
    show ?thesis
    proof (cases "vprintf_conv fmt")
      case (ConvInt base sign wide k)
      then obtain x ap' t where x: "ap = VNum x # ap'" "text_of (drop (Suc k) fmt) ap' = Some t"
        "out = int_text (unat base) sign (ucast x) @ t"
        using P by (auto simp: va_num_Some_iff split: option.splits)
      have "vprintf_loop fd (drop (Suc k) fmt) False ap' s' = u_puts fd t s'" for s' :: "'a user_state_scheme"
        using "2.IH"(2) [OF c ConvInt _ refl x(2)] x(1) by simp
      moreover have "unat (ucast base :: u32) = unat base" "(ucast base :: u32) = 10 \<or> (ucast base :: u32) = 16"
        using vprintf_conv_cases(1) [OF ConvInt] by auto
      ultimately show ?thesis
        unfolding L using ConvInt x 4 by (simp add: vprintf_loop.simps u_printint_text u_puts_append cong: ubnd_cong)
    next
      case ConvPtr
      then show ?thesis
        unfolding L using P "2.IH"(3) [OF c ConvPtr] 4
        by (auto simp: va_num_Some_iff vprintf_loop.simps u_printptr_text u_puts_append split: option.splits cong: ubnd_cong)
    next
      case ConvStr
      then show ?thesis
        unfolding L using P "2.IH"(4) [OF c ConvStr] 4
        by (auto simp: vprintf_loop.simps u_puts_append split: list.splits va.splits cong: ubnd_cong)
    next
      case ConvPercent
      then show ?thesis unfolding L using P "2.IH"(5) [OF c ConvPercent] 4 by (auto simp: vprintf_loop.simps cong: ubnd_cong)
    next
      case ConvEnd
      then show ?thesis using vprintf_conv_cases(2) by blast
    next
      case (ConvOther e)
      then show ?thesis unfolding L using P "2.IH"(6) [OF c ConvOther] 4 by (auto simp: vprintf_loop.simps ubnd_assoc cong: ubnd_cong)
    qed
  qed
qed

text \<open>Printing a text is what a program that only uses \<open>printf\<close> for output does.\<close>

lemma u_printf_text: "text_of (cstr fmt) ap = Some out \<Longrightarrow> u_printf fmt ap s = u_puts 1 out s"
  by (simp add: u_printf_def vprintf_def vprintf_loop_text)

lemma u_fprintf_text: "text_of (cstr fmt) ap = Some out \<Longrightarrow> u_fprintf fd fmt ap s = u_puts fd out s"
  by (simp add: u_fprintf_def vprintf_def vprintf_loop_text)

section \<open>\<open>atoi\<close> reads what \<open>printf\<close> prints\<close>

lemma u_digit: "d < 10 \<Longrightarrow> u_digits ! d = of_nat (48 + d)"
  by (auto simp: u_digits_def cstr_def less_Suc_eq numeral_eq_Suc nth_Cons')

lemma u_atoi_loop_digit:
  assumes "d < 10"
  shows "u_atoi_loop (u_digits ! d # s) n = u_atoi_loop s (n * 10 + of_nat d)"
proof -
  have "unat (u_digits ! d) = 48 + d" using assms
    by (simp add: u_digit unsigned_of_nat take_bit_nat_eq_self del: of_nat_add)
  moreover have "(ucast w :: i32) = of_nat (unat w)" for w :: u8 by simp
  ultimately have "48 \<le> u_digits ! d" "u_digits ! d \<le> 57" "(ucast (u_digits ! d) :: i32) = of_nat (48 + d)"
    using assms by (simp_all only: word_le_nat_alt) simp_all
  then show ?thesis by (subst u_atoi_loop.simps) (simp add: deref_def)
qed

lemma u_atoi_loop_num_text:
  "u_atoi_loop (num_text 10 m @ s) n = u_atoi_loop s (n * 10 ^ length (num_text 10 m) + of_nat m)"
proof (induction m arbitrary: n s rule: less_induct)
  case (less m)
  show ?case
  proof (cases "m < 10")
    case True
    then show ?thesis by (simp add: num_text.simps u_atoi_loop_digit)
  next
    case False
    have "u_atoi_loop (num_text 10 (m div 10) @ u_digits ! (m mod 10) # s) n =
        u_atoi_loop s ((n * 10 ^ length (num_text 10 (m div 10)) + of_nat (m div 10)) * 10 + of_nat (m mod 10))"
      using less [of "m div 10"] False by (simp add: u_atoi_loop_digit)
    moreover have "of_nat (m div 10) * 10 + of_nat (m mod 10) = (of_nat m :: i32)"
      by (metis div_mult_mod_eq of_nat_add of_nat_mult of_nat_numeral)
    ultimately show ?thesis using False by (simp add: num_text.simps [of 10 m] distrib_right mult.assoc add.assoc power_Suc2 del: power_Suc)
  qed
qed

text \<open>
  A number that is not negative, printed in decimal, is read back by \<open>atoi\<close>; what follows it may be any
  string that does not start with a digit.
\<close>

theorem atoi_reads_printed_number:
  assumes "0 \<le>s x" "\<not> (48 \<le> deref rest \<and> deref rest \<le> 57)"
  shows "u_printint fd x 10 True s = u_puts fd (int_text 10 True x) s \<and> u_atoi (int_text 10 True x @ rest) = x"
proof -
  have "\<not> sint x < 0" using sint_nonneg [OF assms(1)] by simp
  then have t: "int_text 10 True x = num_text 10 (unat x)" by (simp add: int_text_def)
  have "u_atoi_loop rest n = n" for n using assms(2) by (subst u_atoi_loop.simps) auto
  then have "u_atoi (int_text 10 True x @ rest) = x" unfolding t by (simp add: u_atoi_def u_atoi_loop_num_text)
  then show ?thesis by (simp add: u_printint_text)
qed

theorem atoi_reads_printed_number_witness: "u_atoi (int_text 10 True 42 @ [32, 55]) = 42"
  using atoi_reads_printed_number [of 42 "[32, 55]" 1 "\<lparr>replies = [], calls = []\<rparr>"] by (simp add: deref_def word_sle_eq)

text \<open>
  \<open>printf\<close> of user programs writes exactly the text of its format and arguments to standard output, one
  byte with each call of \<open>write\<close>, and ignores the results of these calls.
\<close>

theorem user_printf_writes_text:
  assumes "text_of (cstr fmt) ap = Some out" "length out \<le> length (replies s)"
  shows "u_printf fmt ap s =
    URet () (s\<lparr>replies := drop (length out) (replies s), calls := calls s @ map (\<lambda>c. U_write 1 [c]) out\<rparr>)"
  by (simp add: u_printf_text [OF assms(1)] u_puts_done [OF assms(2)])

theorem user_printf_writes_text_witness:
  "u_printf ''%s=%.'' [VStr (Some (cstr ''n''))] \<lparr>replies = replicate 4 (-1, []), calls = []\<rparr> =
    URet () \<lparr>replies = [], calls = map (\<lambda>c. U_write 1 [c]) (cstr ''n=%.'')\<rparr>"
proof -
  have "text_of (cstr ''%s=%.'') [VStr (Some (cstr ''n''))] = Some (cstr ''n=%.'')"
    by (simp add: text_of.simps cstr_def vprintf_conv_def deref_def cstring_def Let_def)
  from user_printf_writes_text [OF this, of "\<lparr>replies = replicate 4 (-1, []), calls = []\<rparr>"]
  show ?thesis by (simp add: cstr_def)
qed

end
