(* ===== verification/Grep.thy ===== *)
theory Grep
  imports Uprintf
begin

text \<open>
  The program \<open>grep\<close>, \<open>user/grep.c\<close>: the pattern matcher, and the loop that cuts the input into lines.  A pattern or
  a text is the list of bytes from the pointer on, up to and without its NUL or with more bytes after it.
\<close>

section \<open>The matcher\<close>

lemma length_tl_deref: "deref s \<noteq> 0 \<Longrightarrow> length (tl s) < length s"
  by (cases s) (auto simp: deref_def)

function matchhere :: "u8 list \<Rightarrow> u8 list \<Rightarrow> bool" and matchstar :: "u8 \<Rightarrow> u8 list \<Rightarrow> u8 list \<Rightarrow> bool" where
  "matchhere re tx =
     (if deref re = 0 then True
      else if deref (tl re) = 42 then matchstar (deref re) (tl (tl re)) tx
      else if deref re = 36 \<and> deref (tl re) = 0 then deref tx = 0
      else if deref tx \<noteq> 0 \<and> (deref re = 46 \<or> deref re = deref tx) then matchhere (tl re) (tl tx)
      else False)"
| "matchstar c re tx =
     (if matchhere re tx then True
      else if deref tx \<noteq> 0 \<and> (deref tx = c \<or> c = 46) then matchstar c re (tl tx)
      else False)"
  by pat_completeness auto

termination
  by (relation "inv_image (less_than <*lex*> less_than <*lex*> less_than)
        (\<lambda>x. case x of Inl (re, tx) \<Rightarrow> (length re, length tx, 0) | Inr (c, re, tx) \<Rightarrow> (length re, length tx, Suc 0))")
     (auto dest: length_tl_deref simp: less_diff_conv)

declare matchhere.simps [simp del] matchstar.simps [simp del]

function match_loop :: "u8 list \<Rightarrow> u8 list \<Rightarrow> bool" where
  "match_loop re tx = (if matchhere re tx then True else if deref tx \<noteq> 0 then match_loop re (tl tx) else False)"
  by pat_completeness auto
termination by (relation "measure (\<lambda>(re, tx). length tx)") (auto dest: length_tl_deref)

declare match_loop.simps [simp del]

definition match :: "u8 list \<Rightarrow> u8 list \<Rightarrow> bool" where
  "match re tx = (if deref re = 94 then matchhere (tl re) tx else match_loop re tx)"

section \<open>\<open>grep\<close> and \<open>main\<close>\<close>

lemma u_strchr_index:
  assumes "u_strchr (drop p buf) c = Some q"
  shows "p \<le> length buf - length q" "length buf - Suc (length buf - length q) < length buf - p"
proof -
  obtain pre t where "drop p buf = pre @ c # t" "q = c # t" using assms unfolding u_strchr_Some by blast
  then have "length buf - p = length pre + length q" "0 < length q" by (auto dest: arg_cong [where f = length])
  then show "p \<le> length buf - length q" "length buf - Suc (length buf - length q) < length buf - p" by linarith+
qed

text \<open>The inner loop: \<open>p\<close> is the index in \<open>buf\<close> of the line that starts there, \<open>qi\<close> that of the newline after it.\<close>

function grep_lines :: "u8 list \<Rightarrow> nat \<Rightarrow> u8 list \<Rightarrow> 'a user_state_scheme \<Rightarrow> ('a user_state_scheme, nat \<times> u8 list) uout" where
  "grep_lines pattern p buf s =
     (case u_strchr (drop p buf) 10 of
        None \<Rightarrow> URet (p, buf) s
      | Some q \<Rightarrow>
          (let qi = length buf - length q; buf = buf[qi := 0] in
           if match pattern (drop p buf)
           then let buf = buf[qi := 10] in
                ubnd (icall (U_write 1 (take (qi + 1 - p) (drop p buf))) s) (\<lambda>_ s. grep_lines pattern (qi + 1) buf s)
           else grep_lines pattern (qi + 1) buf s))"
  by pat_completeness auto

termination
  by (relation "measure (\<lambda>(pattern, p, buf, s). length buf - p)") (auto dest: u_strchr_index)

declare grep_lines.simps [simp del]

lemma grep_lines_replies: "grep_lines pattern p buf s = URet r t \<Longrightarrow> length (replies t) \<le> length (replies s)"
proof (induction pattern p buf s rule: grep_lines.induct)
  case (1 pattern p buf s)
  show ?case
  proof (cases "u_strchr (drop p buf) 10")
    case None
    then show ?thesis using "1.prems" by (simp add: grep_lines.simps [of pattern p])
  next
    case (Some q)
    let ?qi = "length buf - length q"
    show ?thesis
    proof (cases "match pattern (drop p (buf[?qi := 0]))")
      case True
      then obtain v u where "icall (U_write 1 (take (?qi + 1 - p) (drop p (buf[?qi := 10])))) s = URet v u"
        "grep_lines pattern (?qi + 1) (buf[?qi := 10]) u = URet r t"
        using "1.prems" Some by (auto simp: grep_lines.simps [of pattern p] Let_def ubnd_URet_iff)
      then show ?thesis using "1.IH"(1) [OF Some refl refl True refl] icall_replies by fastforce
    next
      case False
      then show ?thesis using "1.prems" "1.IH"(2) [OF Some refl refl] Some by (simp add: grep_lines.simps [of pattern p] Let_def)
    qed
  qed
qed

text \<open>
  The outer loop; \<open>buf\<close> is the array of 1024 bytes, whose first \<open>m\<close> bytes are a line not yet complete.
\<close>

function grep_loop :: "u8 list \<Rightarrow> i32 \<Rightarrow> nat \<Rightarrow> u8 list \<Rightarrow> 'a user_state_scheme \<Rightarrow> ('a user_state_scheme, u8 list) uout" where
  "grep_loop pattern fd m buf s =
     ubnd (dcall (U_read fd (1024 - m - 1)) s) (\<lambda>r s.
     let n = fst r; bs = snd r in
     if \<not> 0 <s n then URet buf s
     else let m' = m + unat n in
       if m' \<ge> 1024 then UFault
       else ubnd (grep_lines pattern 0 ((store_bytes m bs buf)[m' := 0]) s) (\<lambda>r s.
            let p = fst r; buf = snd r; m = m' - p
            in grep_loop pattern fd m (store_bytes 0 (take m (drop p buf)) buf) s))"
  by pat_completeness auto

termination
  by (relation "measure (\<lambda>(pattern, fd, m, buf, s). length (replies s))")
     (auto dest!: dcall_replies grep_lines_replies)

declare grep_loop.simps [simp del]

definition grep :: "u8 list \<Rightarrow> i32 \<Rightarrow> u8 list \<Rightarrow> 'a user_state_scheme \<Rightarrow> ('a user_state_scheme, u8 list) uout" where
  "grep pattern fd buf s = grep_loop pattern fd 0 buf s"

primrec grep_files :: "u8 list \<Rightarrow> u8 list list \<Rightarrow> u8 list \<Rightarrow> 'a user_state_scheme \<Rightarrow> ('a user_state_scheme, i32) uout" where
  "grep_files pattern [] buf s = uexit 0 s"
| "grep_files pattern (f # fs) buf s =
     ubnd (icall (U_open (cstring f) uO_RDONLY) s) (\<lambda>fd s.
     if fd <s 0 then ubnd (u_printf (''grep: cannot open %s'' @ [CHR 10]) [VStr (Some f)] s) (\<lambda>_ s. uexit 1 s)
     else ubnd (grep pattern fd buf s) (\<lambda>buf s.
          ubnd (icall (U_close fd) s) (\<lambda>_ s. grep_files pattern fs buf s)))"

text \<open>\<open>main\<close>, with the arguments \<open>argv[0]\<close> to \<open>argv[argc-1]\<close>; the array \<open>buf\<close> is zero when the program starts.\<close>

definition grep_main :: "u8 list list \<Rightarrow> 'a user_state_scheme \<Rightarrow> ('a user_state_scheme, i32) uout" where
  "grep_main argv s =
     (let argc = length argv; buf = replicate 1024 0 in
      if argc \<le> 1 then ubnd (u_fprintf 2 (''usage: grep pattern [file ...]'' @ [CHR 10]) [] s) (\<lambda>_ s. uexit 1 s)
      else if argc \<le> 2 then ubnd (grep (argv ! 1) 0 buf s) (\<lambda>_ s. uexit 0 s)
      else grep_files (argv ! 1) (drop 2 argv) buf s)"

section \<open>What a pattern means\<close>

text \<open>
  A pattern is a sequence of items, each a character or a dot, possibly starred, with an optional anchor at
  the end.
\<close>

datatype item = One u8 | Star u8

definition fits :: "u8 \<Rightarrow> u8 \<Rightarrow> bool" where
  "fits c d \<longleftrightarrow> c = 46 \<or> c = d"

function items_of :: "u8 list \<Rightarrow> item list \<times> bool" where
  "items_of re =
     (case re of
        [] \<Rightarrow> ([], False)
      | c # re' \<Rightarrow>
          if re' \<noteq> [] \<and> hd re' = 42 then (let (is, e) = items_of (tl re') in (Star c # is, e))
          else if c = 36 \<and> re' = [] then ([], True)
          else (let (is, e) = items_of re' in (One c # is, e)))"
  by pat_completeness auto
termination by (relation "measure length") auto

declare items_of.simps [simp del]

text \<open>The words a sequence of items denotes.\<close>

fun denotes :: "item list \<Rightarrow> u8 list \<Rightarrow> bool" where
  "denotes [] w \<longleftrightarrow> w = []"
| "denotes (One c # is) w \<longleftrightarrow> (\<exists>d v. w = d # v \<and> fits c d \<and> denotes is v)"
| "denotes (Star c # is) w \<longleftrightarrow> (\<exists>u v. w = u @ v \<and> (\<forall>d \<in> set u. fits c d) \<and> denotes is v)"

text \<open>A text begins with a word of the pattern, and is one where the pattern is anchored at the end.\<close>

definition begins_with :: "item list \<times> bool \<Rightarrow> u8 list \<Rightarrow> bool" where
  "begins_with p tx \<longleftrightarrow> (\<exists>w v. tx = w @ v \<and> denotes (fst p) w \<and> (snd p \<longrightarrow> v = []))"

definition occurs :: "u8 list \<Rightarrow> u8 list \<Rightarrow> bool" where
  "occurs re tx \<longleftrightarrow>
     (if re \<noteq> [] \<and> hd re = 94 then begins_with (items_of (tl re)) tx
      else \<exists>u v. tx = u @ v \<and> begins_with (items_of re) v)"

lemma begins_with_One: "begins_with (One c # is, e) tx \<longleftrightarrow> (\<exists>d v. tx = d # v \<and> fits c d \<and> begins_with (is, e) v)"
proof
  assume "begins_with (One c # is, e) tx"
  then obtain w v where "tx = w @ v" "denotes (One c # is) w" "e \<longrightarrow> v = []" unfolding begins_with_def by auto
  then obtain d u where "tx = d # u @ v" "fits c d" "denotes is u" "e \<longrightarrow> v = []" by auto
  then show "\<exists>d v. tx = d # v \<and> fits c d \<and> begins_with (is, e) v" by (auto simp: begins_with_def)
next
  assume "\<exists>d v. tx = d # v \<and> fits c d \<and> begins_with (is, e) v"
  then obtain d w v where t: "tx = (d # w) @ v" "fits c d" "denotes is w" "e \<longrightarrow> v = []" unfolding begins_with_def by auto
  then have "denotes (One c # is) (d # w)" by simp
  with t(1,4) show "begins_with (One c # is, e) tx" unfolding begins_with_def fst_conv snd_conv by blast
qed

lemma begins_with_Star_iff:
  "begins_with (Star c # is, e) tx \<longleftrightarrow> (\<exists>u t. tx = u @ t \<and> (\<forall>d \<in> set u. fits c d) \<and> begins_with (is, e) t)" (is "?l \<longleftrightarrow> ?r")
proof
  assume ?l
  then obtain ws v where ws: "tx = ws @ v" "denotes (Star c # is) ws" "e \<longrightarrow> v = []" unfolding begins_with_def by auto
  then obtain u w where u: "ws = u @ w" "\<forall>d \<in> set u. fits c d" "denotes is w" by auto
  then have "tx = u @ w @ v" "begins_with (is, e) (w @ v)" using ws by (auto simp: begins_with_def)
  with u(2) show ?r by blast
next
  assume ?r
  then obtain u w v where u: "tx = u @ w @ v" "\<forall>d \<in> set u. fits c d" "denotes is w" "e \<longrightarrow> v = []"
    unfolding begins_with_def fst_conv snd_conv by blast
  have "denotes (Star c # is) (u @ w)" unfolding denotes.simps using u(2,3) by blast
  moreover have "tx = (u @ w) @ v" using u(1) by simp
  ultimately show ?l unfolding begins_with_def fst_conv snd_conv using u(4) by blast
qed

lemma begins_with_Star:
  "begins_with (Star c # is, e) tx \<longleftrightarrow>
     begins_with (is, e) tx \<or> (\<exists>d v. tx = d # v \<and> fits c d \<and> begins_with (Star c # is, e) v)" (is "?l \<longleftrightarrow> ?r")
proof
  assume ?l
  then obtain u t where u: "tx = u @ t" "\<forall>d \<in> set u. fits c d" "begins_with (is, e) t" unfolding begins_with_Star_iff by blast
  show ?r
  proof (cases u)
    case (Cons d w)
    then have "tx = d # w @ t" "fits c d" "begins_with (Star c # is, e) (w @ t)"
      using u unfolding begins_with_Star_iff by auto
    then show ?thesis by blast
  qed (use u in simp)
next
  assume ?r
  then consider "begins_with (is, e) tx" | d v where "tx = d # v" "fits c d" "begins_with (Star c # is, e) v" by blast
  then show ?l
  proof cases
    case 1
    then show ?thesis unfolding begins_with_Star_iff by (intro exI [of _ "[]"] exI [of _ tx]) simp
  next
    case 2
    then obtain u t where "v = u @ t" "\<forall>d \<in> set u. fits c d" "begins_with (is, e) t" unfolding begins_with_Star_iff by blast
    then show ?thesis unfolding begins_with_Star_iff using 2 by (intro exI [of _ "d # u"] exI [of _ t]) simp
  qed
qed

section \<open>The matcher finds the pattern\<close>

lemma matchhere_begins:
  "matchhere re tx \<longleftrightarrow> begins_with (items_of (cstring re)) (cstring tx)"
  "matchstar c re tx \<longleftrightarrow> (case items_of (cstring re) of (is, e) \<Rightarrow> begins_with (Star c # is, e) (cstring tx))"
proof (induction re tx and c re tx rule: matchhere_matchstar.induct)
  case (1 re tx)
  show ?case
  proof (cases "deref re = 0")
    case True
    then show ?thesis by (simp add: matchhere.simps [of re] cstring_zero items_of.simps [of "[]"] begins_with_def)
  next
    case c: False
    show ?thesis
    proof (cases "deref (tl re) = 42")
      case True
      then have "cstring re = deref re # 42 # cstring (tl (tl re))" using c cstring_nonzero [of re] cstring_nonzero [of "tl re"] by simp
      then show ?thesis using "1.IH"(1) [OF c True] c True
        by (simp add: matchhere.simps [of re] items_of.simps [of "_ # _"] split: prod.splits)
    next
      case s: False
      have h: "\<not> (cstring (tl re) \<noteq> [] \<and> hd (cstring (tl re)) = 42)"
        using s cstring_nonzero [of "tl re"] cstring_zero [of "tl re"] by (cases "deref (tl re) = 0") auto
      have e: "cstring (tl re) = [] \<longleftrightarrow> deref (tl re) = 0" by (rule cstring_Nil)
      show ?thesis
      proof (cases "deref re = 36 \<and> deref (tl re) = 0")
        case True
        then have "items_of (cstring re) = ([], True)"
          using c cstring_nonzero [of re] e h by (simp add: items_of.simps [of "_ # _"])
        moreover have "cstring tx = [] \<longleftrightarrow> deref tx = 0" by (rule cstring_Nil)
        ultimately show ?thesis using True c s by (simp add: matchhere.simps [of re] begins_with_def)
      next
        case f: False
        obtain "is" a where i: "items_of (cstring (tl re)) = (is, a)" by (cases "items_of (cstring (tl re))")
        have "items_of (cstring re) = (One (deref re) # is, a)"
          using c cstring_nonzero [of re] e h f i by (auto simp: items_of.simps [of "_ # _"])
        moreover have "matchhere re tx \<longleftrightarrow> deref tx \<noteq> 0 \<and> fits (deref re) (deref tx) \<and> matchhere (tl re) (tl tx)"
          using c s f by (auto simp: matchhere.simps [of re] fits_def)
        moreover have "matchhere (tl re) (tl tx) \<longleftrightarrow> begins_with (is, a) (cstring (tl tx))"
          if "deref tx \<noteq> 0" "fits (deref re) (deref tx)"
          using "1.IH"(2) [OF c s f] that i by (auto simp: fits_def)
        ultimately show ?thesis
          using cstring_nonzero [of tx] cstring_zero [of tx] by (cases "deref tx = 0") (auto simp: begins_with_One)
      qed
    qed
  qed
next
  case (2 c re tx)
  obtain "is" a where i: "items_of (cstring re) = (is, a)" by (cases "items_of (cstring re)")
  have m: "matchstar c re tx \<longleftrightarrow> matchhere re tx \<or> deref tx \<noteq> 0 \<and> fits c (deref tx) \<and> matchstar c re (tl tx)"
    by (auto simp: matchstar.simps [of c re tx] fits_def)
  have "matchstar c re (tl tx) \<longleftrightarrow> begins_with (Star c # is, a) (cstring (tl tx))"
    if "\<not> matchhere re tx" "deref tx \<noteq> 0" "fits c (deref tx)"
    using "2.IH"(2) that i by (auto simp: fits_def)
  then show ?case
    using "2.IH"(1) i m begins_with_Star [of c "is" a "cstring tx"] cstring_nonzero [of tx] cstring_zero [of tx]
    by (cases "deref tx = 0") auto
qed

lemma match_loop_occurs:
  "match_loop re tx \<longleftrightarrow> (\<exists>u v. cstring tx = u @ v \<and> begins_with (items_of (cstring re)) v)"
proof (induction re tx rule: match_loop.induct)
  case (1 re tx)
  show ?case
  proof (cases "matchhere re tx \<or> deref tx = 0")
    case True
    then show ?thesis by (auto simp: match_loop.simps [of re tx] matchhere_begins(1) cstring_zero)
  next
    case False
    then have "match_loop re tx \<longleftrightarrow> match_loop re (tl tx)" "cstring tx = deref tx # cstring (tl tx)"
      by (simp_all add: match_loop.simps [of re tx] cstring_nonzero)
    then show ?thesis using 1 False by (auto simp: matchhere_begins(1) Cons_eq_append_conv)
  qed
qed

lemma match_decides: "match re tx \<longleftrightarrow> occurs (cstring re) (cstring tx)"
proof -
  have "deref re = 94 \<longleftrightarrow> cstring re \<noteq> [] \<and> hd (cstring re) = 94"
    using cstring_nonzero [of re] cstring_zero [of re] by (cases "deref re = 0") auto
  moreover have "tl (cstring re) = cstring (tl re)" if "deref re = 94" using that cstring_nonzero [of re] by simp
  ultimately show ?thesis by (auto simp: match_def occurs_def matchhere_begins(1) match_loop_occurs)
qed

text \<open>
  C38: \<open>match\<close> of \<open>grep\<close> decides the regular expressions it supports: it returns true exactly when some part of
  the text, the beginning of it for a pattern that starts with a caret, is a word that the pattern denotes and
  that reaches the end of the text if the pattern ends with a dollar sign.
\<close>

theorem match_decides_pattern: "match re tx \<longleftrightarrow> occurs (cstring re) (cstring tx)"
  by (rule match_decides)

section \<open>\<open>grep\<close> prints the lines that match\<close>

text \<open>The complete lines of a text, and the incomplete one at its end.\<close>

fun split_lines :: "u8 list \<Rightarrow> u8 list list \<times> u8 list" where
  "split_lines [] = ([], [])"
| "split_lines (c # cs) =
     (let (ls, r) = split_lines cs in
      if c = 10 then ([] # ls, r) else case ls of [] \<Rightarrow> ([], c # r) | l # ls \<Rightarrow> ((c # l) # ls, r))"

lemma split_lines_none: "10 \<notin> set cs \<Longrightarrow> split_lines cs = ([], cs)"
  by (induction cs) auto

lemma split_lines_line: "10 \<notin> set l \<Longrightarrow> split_lines (l @ 10 # cs) = (l # fst (split_lines cs), snd (split_lines cs))"
  by (induction l) (auto split: prod.splits)

lemma length_split_lines: "length (snd (split_lines cs)) \<le> length cs"
  by (induction cs) (auto split: prod.splits list.splits)

lemma split_lines_rest: "10 \<notin> set (snd (split_lines cs)) \<and> set (snd (split_lines cs)) \<subseteq> set cs"
  by (induction cs) (auto split: prod.splits list.splits)

lemma split_lines_append:
  "split_lines (xs @ ys) =
    (fst (split_lines xs) @ fst (split_lines (snd (split_lines xs) @ ys)), snd (split_lines (snd (split_lines xs) @ ys)))"
proof (induction "length xs" arbitrary: xs rule: less_induct)
  case less
  show ?case
  proof (cases "10 \<in> set xs")
    case True
    then obtain l t where "xs = l @ 10 # t" "10 \<notin> set l" by (meson split_list_first)
    then show ?thesis using less [of t] by (simp add: split_lines_line)
  qed (simp add: split_lines_none)
qed

text \<open>The lines of \<open>tx\<close> that match, and the calls that print them.\<close>

definition hits :: "u8 list \<Rightarrow> u8 list \<Rightarrow> u8 list list" where
  "hits pattern tx = filter (match pattern) (fst (split_lines tx))"

definition print_lines :: "u8 list list \<Rightarrow> ucall list" where
  "print_lines ls = map (\<lambda>l. U_write 1 (l @ [10])) ls"

lemma match_NUL: "0 \<notin> set l \<Longrightarrow> match pattern (l @ 0 # t) = match pattern l"
  by (simp add: match_decides cstring_append_NUL cstring_id)

lemma grep_lines_done:
  assumes "drop p buf = tx @ 0 # tail" "0 \<notin> set tx" "p \<le> length buf" "length (hits pattern tx) \<le> length (replies s)"
  shows "\<exists>p' buf'. grep_lines pattern p buf s =
      URet (p', buf') (s\<lparr>replies := drop (length (hits pattern tx)) (replies s), calls := calls s @ print_lines (hits pattern tx)\<rparr>) \<and>
    p' + length (snd (split_lines tx)) = p + length tx \<and> length buf' = length buf \<and> drop p' buf' = snd (split_lines tx) @ 0 # tail"
  using assms
proof (induction "length tx" arbitrary: p buf tx s rule: less_induct)
  case less
  show ?case
  proof (cases "10 \<in> set tx")
    case False
    have "u_strchr (drop p buf) 10 = None" using False less.prems by (simp add: u_strchr_None cstring_append_NUL)
    then show ?thesis using False less.prems by (simp add: grep_lines.simps [of pattern p] hits_def print_lines_def split_lines_none)
  next
    case True
    then obtain l t where l: "tx = l @ 10 # t" "10 \<notin> set l" by (meson split_list_first)
    let ?qi = "p + length l"
    have B: "drop p buf = l @ 10 # t @ 0 # tail" using less.prems(1) l by simp
    have len: "length buf = ?qi + Suc (length t + Suc (length tail))"
      using arg_cong [OF B, of length] less.prems(3) by simp
    have q: "u_strchr (drop p buf) 10 = Some (10 # t @ 0 # tail)"
      unfolding u_strchr_Some
      by (rule conjI, simp, rule exI [of _ l], rule exI [of _ "t @ 0 # tail"]) (use B l less.prems(2) in auto)
    have buf: "buf = take p buf @ l @ 10 # t @ 0 # tail" using B by (metis append_take_drop_id)
    have u: "buf[?qi := v] = take p buf @ l @ v # t @ 0 # tail" for v
      using less.prems(3) by (subst buf) (simp add: list_update_append)
    have b0: "drop p (buf[?qi := 0]) = l @ 0 # t @ 0 # tail" "drop (?qi + 1) (buf[?qi := v]) = t @ 0 # tail" "buf[?qi := 10] = buf" for v
      using less.prems(3) buf by (simp_all add: u)
    have m: "match pattern (drop p (buf[?qi := 0])) = match pattern l"
      unfolding b0 using less.prems(2) l by (intro match_NUL) simp
    have sl: "split_lines tx = (l # fst (split_lines t), snd (split_lines t))" unfolding l using l(2) by (rule split_lines_line)
    have L: "grep_lines pattern p buf s =
      (if match pattern l then ubnd (icall (U_write 1 (l @ [10])) s) (\<lambda>_ s. grep_lines pattern (?qi + 1) buf s)
       else grep_lines pattern (?qi + 1) (buf[?qi := 0]) s)"
      unfolding grep_lines.simps [of pattern p buf] q using len m B by (simp add: Let_def b0(3))
    show ?thesis
    proof (cases "match pattern l")
      case True
      then have h: "hits pattern tx = l # hits pattern t" by (simp add: hits_def sl)
      then obtain v bs rs where r: "replies s = (v, bs) # rs" using less.prems(4) by (cases "replies s") auto
      let ?s = "s\<lparr>replies := rs, calls := calls s @ [U_write 1 (l @ [10])]\<rparr>"
      from less.hyps [of t "?qi + 1" buf ?s] obtain p' buf' where
        "grep_lines pattern (?qi + 1) buf ?s =
          URet (p', buf') (?s\<lparr>replies := drop (length (hits pattern t)) rs, calls := calls s @ [U_write 1 (l @ [10])] @ print_lines (hits pattern t)\<rparr>)"
        "p' + length (snd (split_lines t)) = ?qi + 1 + length t" "length buf' = length buf" "drop p' buf' = snd (split_lines t) @ 0 # tail"
        using b0(2) [of 10] l less.prems len r h by (auto simp: b0(3))
      then show ?thesis unfolding L h sl using True r by (auto simp: icall_reply l print_lines_def)
    next
      case False
      then have h: "hits pattern tx = hits pattern t" by (simp add: hits_def sl)
      from less.hyps [of t "?qi + 1" "buf[?qi := 0]" s] obtain p' buf' where
        "grep_lines pattern (?qi + 1) (buf[?qi := 0]) s =
          URet (p', buf') (s\<lparr>replies := drop (length (hits pattern t)) (replies s), calls := calls s @ print_lines (hits pattern t)\<rparr>)"
        "p' + length (snd (split_lines t)) = ?qi + 1 + length t" "length buf' = length buf" "drop p' buf' = snd (split_lines t) @ 0 # tail"
        using b0(2) [of 0] l less.prems len h by auto
      then show ?thesis unfolding L h sl using False by (auto simp: l)
    qed
  qed
qed

text \<open>
  Replies that serve the input in \<open>chunks\<close>: each call of \<open>read\<close> returns the next chunk, which fits behind the
  incomplete line \<open>pend\<close>; the calls of \<open>write\<close> may return anything; the last call of \<open>read\<close> returns the end of the
  file or an error.
\<close>

fun served :: "u8 list \<Rightarrow> u8 list \<Rightarrow> u8 list list \<Rightarrow> reply list \<Rightarrow> bool" where
  "served pattern pend chunks [] \<longleftrightarrow> False"
| "served pattern pend [] ((v, bs) # rs) \<longleftrightarrow> \<not> 0 <s (ucast v :: i32)"
| "served pattern pend (c # chunks) ((v, bs) # rs) \<longleftrightarrow>
     v = of_nat (length c) \<and> bs = c \<and> c \<noteq> [] \<and> length pend + length c < 1024 \<and>
     (let k = length (hits pattern (pend @ c))
      in k \<le> length rs \<and> served pattern (snd (split_lines (pend @ c))) chunks (drop k rs))"

fun is_write :: "ucall \<Rightarrow> bool" where
  "is_write (U_write fd bs) = True"
| "is_write _ = False"

lemma filter_print_lines [simp]: "filter is_write (print_lines ls) = print_lines ls"
  by (induction ls) (simp_all add: print_lines_def)

lemma grep_loop_done:
  "served pattern pend chunks (replies s) \<Longrightarrow> 10 \<notin> set pend \<Longrightarrow> 0 \<notin> set (pend @ concat chunks) \<Longrightarrow>
    length buf = 1024 \<Longrightarrow> take (length pend) buf = pend \<Longrightarrow> length pend < 1024 \<Longrightarrow>
    \<exists>buf' t. grep_loop pattern fd (length pend) buf s = URet buf' t \<and>
      filter is_write (calls t) = filter is_write (calls s) @ print_lines (hits pattern (pend @ concat chunks))"
proof (induction chunks arbitrary: pend buf s)
  case Nil
  then obtain v bs rs where r: "replies s = (v, bs) # rs" "\<not> 0 <s (ucast v :: i32)" by (cases "replies s") auto
  then show ?case using Nil.prems(2) by (subst grep_loop.simps) (simp add: dcall_reply hits_def split_lines_none print_lines_def)
next
  case (Cons c chunks)
  let ?m = "length pend" and ?tx = "pend @ c"
  let ?k = "length (hits pattern ?tx)" and ?pend = "snd (split_lines ?tx)"
  obtain v bs rs where "replies s = (v, bs) # rs" using Cons.prems(1) by (cases "replies s") auto
  then have r: "replies s = (of_nat (length c), c) # rs" and c: "c \<noteq> []" "?m + length c < 1024" "?k \<le> length rs"
    "served pattern ?pend chunks (drop ?k rs)" using Cons.prems(1) by (simp_all add: Let_def)
  let ?s = "s\<lparr>replies := rs, calls := calls s @ [U_read fd (1024 - ?m - 1)]\<rparr>"
  have v: "(ucast (of_nat (length c) :: u64) :: i32) = of_nat (length c)" "unat (of_nat (length c) :: i32) = length c"
    using c(2) by (simp_all add: unsigned_of_nat take_bit_nat_eq_self)
  have pos: "0 <s (of_nat (length c) :: i32)" using c(1,2) sint_of_nat_small [of "length c"] by (simp add: word_sless_alt)
  let ?b = "(store_bytes ?m c buf)[?m + length c := 0]"
  have b: "?b = ?tx @ 0 # drop (?m + length c + 1) buf"
    using c(2) Cons.prems(4,5) by (simp add: store_bytes_fits list_update_append Cons_nth_drop_Suc [symmetric] drop_update_cancel)
  have lb: "length (store_bytes ?m c buf) = 1024" using Cons.prems(4) c(2) by simp
  have "drop 0 ?b = ?tx @ 0 # drop (?m + length c + 1) buf" "0 \<notin> set ?tx" "?k \<le> length (replies ?s)" using b Cons.prems(3) c(3) by simp_all
  from grep_lines_done [OF this(1,2) _ this(3)] obtain p' buf' where G:
    "grep_lines pattern 0 ?b ?s = URet (p', buf') (?s\<lparr>replies := drop ?k rs, calls := calls ?s @ print_lines (hits pattern ?tx)\<rparr>)"
    "p' + length ?pend = length ?tx" "length buf' = 1024" "drop p' buf' = ?pend @ 0 # drop (?m + length c + 1) buf"
    using lb by auto
  let ?t = "?s\<lparr>replies := drop ?k rs, calls := calls ?s @ print_lines (hits pattern ?tx)\<rparr>"
  let ?buf = "store_bytes 0 (take (length ?pend) (drop p' buf')) buf'"
  have pl: "length ?pend < 1024" using length_split_lines [of ?tx] c(2) by simp
  have B: "?buf = ?pend @ drop (length ?pend) buf'" using G(3,4) pl by (simp add: store_bytes_def)
  have "?m + length c - p' = length ?pend" using G(2) by simp
  then have "grep_loop pattern fd ?m buf s = grep_loop pattern fd (length ?pend) ?buf ?t"
    using r v pos c(2) G(1) by (subst grep_loop.simps) (simp add: dcall_reply Let_def)
  moreover have "\<exists>buf'' t. grep_loop pattern fd (length ?pend) ?buf ?t = URet buf'' t \<and>
      filter is_write (calls t) = filter is_write (calls ?t) @ print_lines (hits pattern (?pend @ concat chunks))"
    using split_lines_rest [of ?tx] Cons.prems(3) c(4) pl G(3) B by (intro Cons.IH) auto
  moreover have "hits pattern (pend @ concat (c # chunks)) = hits pattern ?tx @ hits pattern (?pend @ concat chunks)"
    using split_lines_append [of ?tx "concat chunks"] by (simp add: hits_def)
  ultimately show ?case by (auto simp: print_lines_def)
qed

text \<open>
  C39: \<open>grep\<close> prints exactly the complete lines of its input that match the pattern, in order, however the
  input is cut into the pieces that \<open>read\<close> returns, as long as every line fits into the buffer and the input has
  no NUL byte.
\<close>

theorem grep_prints_matching_lines:
  assumes "served pattern [] chunks (replies s)" "0 \<notin> set (concat chunks)" "length buf = 1024"
  shows "\<exists>buf' t. grep pattern fd buf s = URet buf' t \<and>
    filter is_write (calls t) =
      filter is_write (calls s) @ map (\<lambda>l. U_write 1 (l @ [10])) (filter (match pattern) (fst (split_lines (concat chunks))))"
  using grep_loop_done [of pattern "[]" chunks s buf fd] assms by (simp add: grep_def hits_def print_lines_def)

theorem grep_prints_matching_lines_witness:
  "\<exists>buf' t. grep [98] 3 (replicate 1024 0) \<lparr>replies = [(2, [97, 98]), (3, [10, 99, 10]), (1, []), (0, [])], calls = []\<rparr> = URet buf' t \<and>
    filter is_write (calls t) = [U_write 1 [97, 98, 10]]"
proof -
  have m: "match [98] [97, 98]" "\<not> match [98] [99]"
    by (simp_all add: match_def match_loop.simps matchhere.simps deref_def)
  have "served [98] [] [[97, 98], [10, 99, 10]] [(2, [97, 98]), (3, [10, 99, 10]), (1, []), (0, [])]"
    by (simp add: hits_def m)
  from grep_prints_matching_lines [of _ _ "\<lparr>replies = [(2, [97, 98]), (3, [10, 99, 10]), (1, []), (0, [])], calls = []\<rparr>", simplified, OF this]
  show ?thesis by (simp add: m)
qed

end
