(* ===== verification/Shell.thy ===== *)
theory Shell
  imports Uprintf Umalloc
begin

text \<open>
  The shell, \<open>user/sh.c\<close>.  The line being parsed is the list of bytes before its NUL; a pointer into it is an
  index, and \<open>es\<close> is its length.  The memory of the nodes comes from \<open>malloc\<close>, whose heap is part of the state;
  their contents are a datatype, which stands for the pointers between the distinct blocks \<open>malloc\<close> returns.
\<close>

section \<open>Commands\<close>

text \<open>
  \<open>struct execcmd\<close> with the pairs of \<open>argv\<close> and \<open>eargv\<close> before the null pointer, \<open>redircmd\<close> with \<open>cmd\<close>, \<open>file\<close>,
  \<open>efile\<close>, \<open>mode\<close> and \<open>fd\<close>, \<open>pipecmd\<close>, \<open>listcmd\<close> and \<open>backcmd\<close>.
\<close>

datatype cmd =
    EXEC "(nat \<times> nat) list"
  | REDIR cmd nat nat i32 i32
  | PIPE cmd cmd
  | LIST cmd cmd
  | BACK cmd

definition MAXARGS :: nat where "MAXARGS = 10"

definition sh_panic :: "string \<Rightarrow> 'a user_state_scheme \<Rightarrow> ('a user_state_scheme, 'b) uout" where
  "sh_panic m s = ubnd (u_fprintf 2 (''%s'' @ [CHR 10]) [VStr (Some (cstr m))] s) (\<lambda>_ s. uexit 1 s)"

definition fork1 :: "'a user_state_scheme \<Rightarrow> ('a user_state_scheme, i32) uout" where
  "fork1 s = ubnd (icall U_fork s) (\<lambda>pid s. if pid = -1 then sh_panic ''fork'' s else URet pid s)"

section \<open>Constructors\<close>

text \<open>
  \<open>malloc(sizeof(*cmd))\<close> followed by \<open>memset\<close>: the constructors do not test the result, so the store through a null
  pointer is what a failed \<open>malloc\<close> leads to.  The loops of \<open>malloc\<close> need not end on a broken heap, which is \<open>UFuel\<close>
  here.
\<close>

definition malloc_node :: "u32 \<Rightarrow> 'a heap_state_scheme \<Rightarrow> ('a heap_state_scheme, unit) uout" where
  "malloc_node n s =
     (case umalloc n s of
        None \<Rightarrow> UFuel
      | Some r \<Rightarrow> ubnd r (\<lambda>p s. if p = 0 then UFault else URet () s))"

definition execcmd :: "'a heap_state_scheme \<Rightarrow> ('a heap_state_scheme, cmd) uout" where
  "execcmd s = ubnd (malloc_node 168 s) (\<lambda>_ s. URet (EXEC []) s)"

definition redircmd :: "cmd \<Rightarrow> nat \<Rightarrow> nat \<Rightarrow> i32 \<Rightarrow> i32 \<Rightarrow> 'a heap_state_scheme \<Rightarrow> ('a heap_state_scheme, cmd) uout" where
  "redircmd subcmd file efile mode fd s = ubnd (malloc_node 40 s) (\<lambda>_ s. URet (REDIR subcmd file efile mode fd) s)"

definition pipecmd :: "cmd \<Rightarrow> cmd \<Rightarrow> 'a heap_state_scheme \<Rightarrow> ('a heap_state_scheme, cmd) uout" where
  "pipecmd left right s = ubnd (malloc_node 24 s) (\<lambda>_ s. URet (PIPE left right) s)"

definition listcmd :: "cmd \<Rightarrow> cmd \<Rightarrow> 'a heap_state_scheme \<Rightarrow> ('a heap_state_scheme, cmd) uout" where
  "listcmd left right s = ubnd (malloc_node 24 s) (\<lambda>_ s. URet (LIST left right) s)"

definition backcmd :: "cmd \<Rightarrow> 'a heap_state_scheme \<Rightarrow> ('a heap_state_scheme, cmd) uout" where
  "backcmd subcmd s = ubnd (malloc_node 16 s) (\<lambda>_ s. URet (BACK subcmd) s)"

section \<open>Tokens\<close>

definition whitespace :: "u8 list" where "whitespace = [32, 9, 13, 10, 11]"
definition symbols :: "u8 list" where "symbols = cstr ''<|>&;()''"

definition char_at :: "u8 list \<Rightarrow> nat \<Rightarrow> u8" where
  "char_at line i = deref (drop i line)"

text \<open>\<open>while(s < es && strchr(whitespace, *s)) s++\<close>, and the loop over the characters of a word.\<close>

function skip_white :: "u8 list \<Rightarrow> nat \<Rightarrow> nat" where
  "skip_white line i = (if i < length line \<and> u_strchr whitespace (char_at line i) \<noteq> None then skip_white line (i + 1) else i)"
  by pat_completeness auto
termination by (relation "measure (\<lambda>(line, i). length line - i)") auto

function skip_word :: "u8 list \<Rightarrow> nat \<Rightarrow> nat" where
  "skip_word line i =
     (if i < length line \<and> u_strchr whitespace (char_at line i) = None \<and> u_strchr symbols (char_at line i) = None
      then skip_word line (i + 1) else i)"
  by pat_completeness auto
termination by (relation "measure (\<lambda>(line, i). length line - i)") auto

declare skip_white.simps [simp del] skip_word.simps [simp del]

text \<open>\<open>gettoken\<close>: the value returned, \<open>*q\<close>, \<open>*eq\<close> and the new \<open>*ps\<close>.\<close>

definition gettoken :: "u8 list \<Rightarrow> nat \<Rightarrow> u8 \<times> nat \<times> nat \<times> nat" where
  "gettoken line i =
     (let q = skip_white line i; c = char_at line q;
          (ret, e) =
            (if c = 0 then (0, q)
             else if c \<in> {124, 40, 41, 59, 38, 60} then (c, q + 1)
             else if c = 62 then if char_at line (q + 1) = 62 then (43, q + 2) else (62, q + 1)
             else (97, skip_word line q))
      in (ret, q, e, skip_white line e))"

definition peek :: "u8 list \<Rightarrow> nat \<Rightarrow> u8 list \<Rightarrow> nat \<times> bool" where
  "peek line i toks = (let j = skip_white line i in (j, char_at line j \<noteq> 0 \<and> u_strchr toks (char_at line j) \<noteq> None))"

text \<open>\<open>gettoken(ps, es, 0, 0)\<close> where only the new position is used.\<close>

definition skiptok :: "u8 list \<Rightarrow> nat \<Rightarrow> nat" where
  "skiptok line i = snd (snd (snd (gettoken line i)))"

lemma skip_white_ge: "i \<le> skip_white line i"
  by (induction line i rule: skip_white.induct) (subst skip_white.simps, auto)

lemma skip_word_ge: "i \<le> skip_word line i"
  by (induction line i rule: skip_word.induct) (subst skip_word.simps, auto)

lemma char_at_less: "char_at line i \<noteq> 0 \<Longrightarrow> i < length line"
  by (rule ccontr) (simp add: char_at_def deref_def)

lemma skip_word_advances:
  assumes "char_at line i \<noteq> 0" "u_strchr whitespace (char_at line i) = None" "u_strchr symbols (char_at line i) = None"
  shows "i < skip_word line i"
  using assms char_at_less [OF assms(1)] skip_word_ge [of "i + 1" line] by (subst skip_word.simps) simp

lemma skip_white_stops: "skip_white line i < length line \<Longrightarrow> u_strchr whitespace (char_at line (skip_white line i)) = None"
  by (induction line i rule: skip_white.induct) (subst (asm) skip_white.simps, subst skip_white.simps, auto split: if_splits)

text \<open>A token that is not the end of the line has at least one character.\<close>

lemma gettoken_advances:
  assumes "gettoken line i = (ret, q, e, j)" "ret \<noteq> 0"
  shows "i \<le> q" "q < e" "e \<le> j" "q < length line"
proof -
  let ?q = "skip_white line i"
  have q: "q = ?q" "j = skip_white line e" using assms(1) by (auto simp: gettoken_def Let_def split: if_splits)
  have c: "char_at line ?q \<noteq> 0" using assms by (auto simp: gettoken_def Let_def)
  have "?q < length line" by (rule char_at_less [OF c])
  then have w: "u_strchr whitespace (char_at line ?q) = None" by (rule skip_white_stops)
  have "?q < e"
  proof (cases "char_at line ?q \<in> {124, 40, 41, 59, 38, 60, 62}")
    case True
    then show ?thesis using assms(1) c by (auto simp: gettoken_def Let_def split: if_splits)
  next
    case False
    then have "u_strchr symbols (char_at line ?q) = None" by (auto simp: symbols_def cstr_def)
    from skip_word_advances [OF c w this] show ?thesis using assms(1) c False by (auto simp: gettoken_def Let_def)
  qed
  then show "i \<le> q" "q < e" "e \<le> j" "q < length line"
    using q skip_white_ge [of i line] skip_white_ge [of e line] char_at_less [OF c] by auto
qed

lemma peek_token:
  assumes "peek line i toks = (j, True)"
  shows "i \<le> j" "fst (gettoken line j) \<noteq> 0" "j < skiptok line j" "j < length line"
proof -
  have j: "j = skip_white line i" "char_at line j \<noteq> 0" using assms by (auto simp: peek_def Let_def)
  have "skip_white line j = j"
    using skip_white_stops [of line i] j char_at_less [OF j(2)] by (subst skip_white.simps) simp
  then have f: "fst (gettoken line j) \<noteq> 0" using j(2) by (auto simp: gettoken_def Let_def)
  obtain ret q e k where g: "gettoken line j = (ret, q, e, k)" by (rule prod_cases4)
  with f have "ret \<noteq> 0" by simp
  note a = gettoken_advances [OF g this]
  show "i \<le> j" unfolding j(1) by (rule skip_white_ge)
  show "fst (gettoken line j) \<noteq> 0" by (rule f)
  show "j < skiptok line j" using a by (simp add: skiptok_def g)
  show "j < length line" by (rule char_at_less [OF j(2)])
qed

section \<open>The parser\<close>

text \<open>
  The loop of \<open>parseredirs\<close>.  In the loop of \<open>parseexec\<close> the node \<open>cmd\<close> whose arguments grow is the innermost
  one of \<open>ret\<close>, which \<open>parseredirs\<close> has wrapped: \<open>add_arg\<close> stores an argument there.
\<close>

function parseredirs :: "u8 list \<Rightarrow> cmd \<Rightarrow> nat \<Rightarrow> 'a heap_state_scheme \<Rightarrow> ('a heap_state_scheme, cmd \<times> nat) uout" where
  "parseredirs line cmd i s =
     (let j = fst (peek line i (cstr ''<>'')) in
      if \<not> snd (peek line i (cstr ''<>'')) then URet (cmd, j) s
      else let tok = fst (gettoken line j); i1 = skiptok line j in
        case gettoken line i1 of (tok2, q, e, i2) \<Rightarrow>
          if tok2 \<noteq> 97 then sh_panic ''missing file for redirection'' s
          else ubnd
            (if tok = 60 then redircmd cmd q e uO_RDONLY 0 s
             else if tok = 62 then redircmd cmd q e (uO_WRONLY OR uO_CREATE OR uO_TRUNC) 1 s
             else if tok = 43 then redircmd cmd q e (uO_WRONLY OR uO_CREATE) 1 s
             else URet cmd s) (\<lambda>cmd s. parseredirs line cmd i2 s))"
  by pat_completeness auto
termination
proof (relation "measure (\<lambda>(line, cmd, i, s). length line - i)", simp)
  fix line :: "u8 list" and cmd i and s :: "'a heap_state_scheme" and j tok i1 tok2 q e i2 x y z cmd' s'
  assume j: "j = fst (peek line i (cstr ''<>''))" and b: "\<not> \<not> snd (peek line i (cstr ''<>''))" and i1: "i1 = skiptok line j"
    and g: "(tok2, x) = gettoken line i1" "(q, y) = x" "(e, i2) = y" and t: "\<not> tok2 \<noteq> 97"
  have "peek line i (cstr ''<>'') = (j, True)" using j b by (cases "peek line i (cstr ''<>'')") auto
  note p = peek_token [OF this]
  have "gettoken line i1 = (tok2, q, e, i2)" "tok2 \<noteq> 0" using g t by auto
  note a = gettoken_advances [OF this]
  have "i < i2" "i < length line" using p a i1 by auto
  then show "((line, cmd', i2, s'), line, cmd, i, s) \<in> measure (\<lambda>(line, cmd, i, s). length line - i)" by simp
qed

declare parseredirs.simps [simp del]

primrec add_arg :: "nat \<Rightarrow> nat \<Rightarrow> cmd \<Rightarrow> cmd" where
  "add_arg q e (EXEC av) = EXEC (av @ [(q, e)])"
| "add_arg q e (REDIR c file efile mode fd) = REDIR (add_arg q e c) file efile mode fd"
| "add_arg q e (PIPE l r) = PIPE l r"
| "add_arg q e (LIST l r) = LIST l r"
| "add_arg q e (BACK c) = BACK c"

function parse_args :: "u8 list \<Rightarrow> cmd \<Rightarrow> nat \<Rightarrow> nat \<Rightarrow> 'a heap_state_scheme \<Rightarrow> ('a heap_state_scheme, cmd \<times> nat) uout" where
  "parse_args line ret argc i s =
     (let j = fst (peek line i (cstr ''|)&;'')) in
      if snd (peek line i (cstr ''|)&;'')) then URet (ret, j) s
      else case gettoken line j of (tok, q, e, i1) \<Rightarrow>
        if tok = 0 then URet (ret, i1) s
        else if tok \<noteq> 97 then sh_panic ''syntax'' s
        else if argc + 1 \<ge> MAXARGS then sh_panic ''too many args'' s
        else ubnd (parseredirs line (add_arg q e ret) i1 s) (\<lambda>r s. parse_args line (fst r) (argc + 1) (snd r) s))"
  by pat_completeness auto
termination by (relation "measure (\<lambda>(line, ret, argc, i, s). MAXARGS - argc)") auto

declare parse_args.simps [simp del]

text \<open>\<open>while(peek(ps, es, "&"))\<close> of \<open>parseline\<close>.\<close>

function parse_backs :: "u8 list \<Rightarrow> cmd \<Rightarrow> nat \<Rightarrow> 'a heap_state_scheme \<Rightarrow> ('a heap_state_scheme, cmd \<times> nat) uout" where
  "parse_backs line cmd i s =
     (let j = fst (peek line i (cstr ''&'')) in
      if snd (peek line i (cstr ''&''))
      then ubnd (backcmd cmd s) (\<lambda>cmd s. parse_backs line cmd (skiptok line j) s)
      else URet (cmd, j) s)"
  by pat_completeness auto
termination
proof (relation "measure (\<lambda>(line, cmd, i, s). length line - i)", simp)
  fix line :: "u8 list" and cmd i j cmd' and s s' :: "'a heap_state_scheme"
  assume "j = fst (peek line i (cstr ''&''))" "snd (peek line i (cstr ''&''))"
  then have "peek line i (cstr ''&'') = (j, True)" by (cases "peek line i (cstr ''&'')") auto
  from peek_token [OF this]
  show "((line, cmd', skiptok line j, s'), line, cmd, i, s) \<in> measure (\<lambda>(line, cmd, i, s). length line - i)" by auto
qed

declare parse_backs.simps [simp del]

text \<open>
  The recursive functions, with a bound on the depth of their calls.
\<close>

fun parseline :: "nat \<Rightarrow> u8 list \<Rightarrow> nat \<Rightarrow> 'a heap_state_scheme \<Rightarrow> ('a heap_state_scheme, cmd \<times> nat) uout"
  and parsepipe :: "nat \<Rightarrow> u8 list \<Rightarrow> nat \<Rightarrow> 'a heap_state_scheme \<Rightarrow> ('a heap_state_scheme, cmd \<times> nat) uout"
  and parseexec :: "nat \<Rightarrow> u8 list \<Rightarrow> nat \<Rightarrow> 'a heap_state_scheme \<Rightarrow> ('a heap_state_scheme, cmd \<times> nat) uout"
  and parseblock :: "nat \<Rightarrow> u8 list \<Rightarrow> nat \<Rightarrow> 'a heap_state_scheme \<Rightarrow> ('a heap_state_scheme, cmd \<times> nat) uout" where
  "parseline 0 line i s = UFuel"
| "parseline (Suc n) line i s =
     ubnd (parsepipe n line i s) (\<lambda>r s.
     ubnd (parse_backs line (fst r) (snd r) s) (\<lambda>r s.
     let j = fst (peek line (snd r) (cstr '';'')) in
     if snd (peek line (snd r) (cstr '';''))
     then ubnd (parseline n line (skiptok line j) s) (\<lambda>r2 s.
          ubnd (listcmd (fst r) (fst r2) s) (\<lambda>cmd s. URet (cmd, snd r2) s))
     else URet (fst r, j) s))"
| "parsepipe 0 line i s = UFuel"
| "parsepipe (Suc n) line i s =
     ubnd (parseexec n line i s) (\<lambda>r s.
     let j = fst (peek line (snd r) (cstr ''|'')) in
     if snd (peek line (snd r) (cstr ''|''))
     then ubnd (parsepipe n line (skiptok line j) s) (\<lambda>r2 s.
          ubnd (pipecmd (fst r) (fst r2) s) (\<lambda>cmd s. URet (cmd, snd r2) s))
     else URet (fst r, j) s)"
| "parseexec 0 line i s = UFuel"
| "parseexec (Suc n) line i s =
     (let j = fst (peek line i (cstr ''('')) in
      if snd (peek line i (cstr ''('')) then parseblock n line j s
      else ubnd (execcmd s) (\<lambda>ret s.
           ubnd (parseredirs line ret j s) (\<lambda>r s. parse_args line (fst r) 0 (snd r) s)))"
| "parseblock 0 line i s = UFuel"
| "parseblock (Suc n) line i s =
     (let j = fst (peek line i (cstr ''('')) in
      if \<not> snd (peek line i (cstr ''('')) then sh_panic ''parseblock'' s
      else ubnd (parseline n line (skiptok line j) s) (\<lambda>r s.
        let j = fst (peek line (snd r) (cstr '')'')) in
        if \<not> snd (peek line (snd r) (cstr '')'')) then sh_panic ''syntax - missing )'' s
        else parseredirs line (fst r) (skiptok line j) s))"

text \<open>The stores of \<open>nulterminate\<close> into the buffer.\<close>

primrec nulterminate :: "cmd \<Rightarrow> u8 list \<Rightarrow> u8 list" where
  "nulterminate (EXEC av) buf = fold (\<lambda>(q, e) buf. buf[e := 0]) av buf"
| "nulterminate (REDIR c file efile mode fd) buf = (nulterminate c buf)[efile := 0]"
| "nulterminate (PIPE l r) buf = nulterminate r (nulterminate l buf)"
| "nulterminate (LIST l r) buf = nulterminate r (nulterminate l buf)"
| "nulterminate (BACK c) buf = nulterminate c buf"

text \<open>\<open>parsecmd\<close>: the command, and the buffer with its strings terminated.\<close>

definition parsecmd :: "u8 list \<Rightarrow> 'a heap_state_scheme \<Rightarrow> ('a heap_state_scheme, cmd \<times> u8 list) uout" where
  "parsecmd buf s =
     (let line = cstring buf; es = length line in
      ubnd (parseline (4 * es + 4) line 0 s) (\<lambda>r s.
      let j = fst (peek line (snd r) []) in
      if j \<noteq> es
      then ubnd (u_fprintf 2 (''leftovers: %s'' @ [CHR 10]) [VStr (Some (drop j line))] s) (\<lambda>_ s. sh_panic ''syntax'' s)
      else URet (fst r, nulterminate (fst r) buf) s))"

section \<open>Running commands\<close>

text \<open>
  \<open>runcmd\<close>; the strings of a command are in \<open>buf\<close>.  \<open>exec\<close> replaces the program when it succeeds, so a reply to it
  means that it failed.
\<close>

definition str_at :: "u8 list \<Rightarrow> nat \<Rightarrow> u8 list" where
  "str_at buf q = cstring (drop q buf)"

text \<open>The two numbers that \<open>pipe\<close> stores.\<close>

definition pipe_fd :: "u8 list \<Rightarrow> nat \<Rightarrow> i32" where
  "pipe_fd bs i = foldr (\<lambda>b x. push_bit 8 x OR ucast b) (take 4 (drop i bs)) 0"

primrec runcmd :: "cmd \<Rightarrow> u8 list \<Rightarrow> 'a user_state_scheme \<Rightarrow> ('a user_state_scheme, unit) uout" where
  "runcmd (EXEC av) buf s =
     (if av = [] then uexit 1 s
      else let argv = map (\<lambda>(q, e). str_at buf q) av in
        ubnd (icall (U_exec (hd argv) argv) s) (\<lambda>_ s.
        ubnd (u_fprintf 2 (''exec %s failed'' @ [CHR 10]) [VStr (Some (hd argv))] s) (\<lambda>_ s. uexit 0 s)))"
| "runcmd (REDIR c file efile mode fd) buf s =
     ubnd (icall (U_close fd) s) (\<lambda>_ s.
     ubnd (icall (U_open (str_at buf file) mode) s) (\<lambda>r s.
     if r <s 0
     then ubnd (u_fprintf 2 (''open %s failed'' @ [CHR 10]) [VStr (Some (str_at buf file))] s) (\<lambda>_ s. uexit 1 s)
     else ubnd (runcmd c buf s) (\<lambda>_ s. uexit 0 s)))"
| "runcmd (LIST l r) buf s =
     ubnd (fork1 s) (\<lambda>pid s.
     ubnd (if pid = 0 then runcmd l buf s else URet () s) (\<lambda>_ s.
     ubnd (icall (U_wait False) s) (\<lambda>_ s.
     ubnd (runcmd r buf s) (\<lambda>_ s. uexit 0 s))))"
| "runcmd (PIPE l r) buf s =
     ubnd (dcall U_pipe s) (\<lambda>(v, bs) s.
     if v <s 0 then sh_panic ''pipe'' s
     else let p0 = pipe_fd bs 0; p1 = pipe_fd bs 4 in
       ubnd (fork1 s) (\<lambda>pid s.
       ubnd (if pid = 0
             then ubnd (icall (U_close 1) s) (\<lambda>_ s. ubnd (icall (U_dup p1) s) (\<lambda>_ s.
                  ubnd (icall (U_close p0) s) (\<lambda>_ s. ubnd (icall (U_close p1) s) (\<lambda>_ s. runcmd l buf s))))
             else URet () s) (\<lambda>_ s.
       ubnd (fork1 s) (\<lambda>pid s.
       ubnd (if pid = 0
             then ubnd (icall (U_close 0) s) (\<lambda>_ s. ubnd (icall (U_dup p0) s) (\<lambda>_ s.
                  ubnd (icall (U_close p0) s) (\<lambda>_ s. ubnd (icall (U_close p1) s) (\<lambda>_ s. runcmd r buf s))))
             else URet () s) (\<lambda>_ s.
       ubnd (icall (U_close p0) s) (\<lambda>_ s.
       ubnd (icall (U_close p1) s) (\<lambda>_ s.
       ubnd (icall (U_wait False) s) (\<lambda>_ s.
       ubnd (icall (U_wait False) s) (\<lambda>_ s. uexit 0 s)))))))))"
| "runcmd (BACK c) buf s =
     ubnd (fork1 s) (\<lambda>pid s.
     ubnd (if pid = 0 then runcmd c buf s else URet () s) (\<lambda>_ s. uexit 0 s))"

section \<open>The main loop\<close>

definition getcmd :: "u8 list \<Rightarrow> nat \<Rightarrow> 'a user_state_scheme \<Rightarrow> ('a user_state_scheme, i32 \<times> u8 list) uout" where
  "getcmd buf nbuf s =
     ubnd (icall (U_write 2 (cstr ''$ '')) s) (\<lambda>_ s.
     ubnd (gets (store_bytes 0 (replicate nbuf 0) buf) nbuf s) (\<lambda>buf s.
     URet (if char_at buf 0 = 0 then -1 else 0, buf) s))"

function open_console :: "'a user_state_scheme \<Rightarrow> ('a user_state_scheme, unit) uout" where
  "open_console s =
     ubnd (icall (U_open (cstr ''console'') uO_RDWR) s) (\<lambda>fd s.
     if fd <s 0 then URet () s
     else if 3 \<le>s fd then ubnd (icall (U_close fd) s) (\<lambda>_ s. URet () s)
     else open_console s)"
  by pat_completeness auto
termination by (relation "measure (\<lambda>s. length (replies s))") (auto dest: icall_replies)

declare open_console.simps [simp del]

lemma gets_loop_replies: "gets_loop k s = URet cs t \<Longrightarrow> length (replies t) \<le> length (replies s)"
proof (induction k arbitrary: s cs)
  case 0
  then show ?case by (simp add: gets_loop.simps)
next
  case (Suc k)
  then obtain cc bs u where u: "dcall (U_read 0 1) s = URet (cc, bs) u"
    by (subst (asm) gets_loop.simps) (auto simp: ubnd_URet_iff)
  show ?case
  proof (cases "cc <s 1 \<or> deref bs = 10 \<or> deref bs = 13")
    case True
    then show ?thesis using Suc.prems u dcall_replies [OF u] by (subst (asm) gets_loop.simps) (auto split: if_splits)
  next
    case False
    then obtain ds where "gets_loop k u = URet ds t"
      using Suc.prems u by (subst (asm) gets_loop.simps) (auto simp: ubnd_URet_iff)
    then show ?thesis using Suc.IH dcall_replies [OF u] by fastforce
  qed
qed

lemma getcmd_replies: "getcmd buf n s = URet r t \<Longrightarrow> length (replies t) < length (replies s)"
  by (auto simp: getcmd_def gets_def ubnd_URet_iff dest!: icall_replies gets_loop_replies)

lemma u_puts_replies: "u_puts fd cs s = URet () t \<Longrightarrow> length (replies t) \<le> length (replies s)"
  by (induction cs arbitrary: s) (fastforce simp: u_putc_def ubnd_URet_iff dest: icall_replies)+

lemma cd_failed_text:
  "u_fprintf 2 (''cannot cd %s'' @ [CHR 10]) [VStr (Some x)] s = u_puts 2 (cstr ''cannot cd '' @ cstring x @ [10]) s"
  by (rule u_fprintf_text) (simp add: text_of.simps cstr_def vprintf_conv_def deref_def Let_def)

lemma sh_panic_no_return: "sh_panic m s \<noteq> URet r t"
  by (simp add: sh_panic_def ubnd_URet_iff uexit_def)

lemma fork1_replies: "fork1 s = URet pid t \<Longrightarrow> length (replies t) < length (replies s)"
  by (auto simp: fork1_def ubnd_URet_iff sh_panic_no_return dest: icall_replies split: if_splits)

text \<open>\<open>runcmd\<close> never returns.\<close>

lemma runcmd_no_return: "runcmd c buf s \<noteq> URet r t"
  by (induction c arbitrary: s)
     (auto simp: ubnd_URet_iff uexit_def sh_panic_no_return Let_def split: if_splits prod.splits)

text \<open>The loop that reads and runs commands; the child process runs the command and does not come back.\<close>

function sh_loop :: "u8 list \<Rightarrow> 'a heap_state_scheme \<Rightarrow> ('a heap_state_scheme, i32) uout" where
  "sh_loop buf s =
     ubnd (getcmd buf 100 s) (\<lambda>r s.
     let buf = snd r in
     if fst r <s 0 then uexit 0 s
     else if char_at buf 0 = 99 \<and> char_at buf 1 = 100 \<and> char_at buf 2 = 32
     then let buf = buf[u_strlen buf - 1 := 0] in
       ubnd (icall (U_chdir (cstring (drop 3 buf))) s) (\<lambda>r s.
       ubnd (if r <s 0 then u_fprintf 2 (''cannot cd %s'' @ [CHR 10]) [VStr (Some (drop 3 buf))] s else URet () s) (\<lambda>_ s.
       sh_loop buf s))
     else ubnd (fork1 s) (\<lambda>pid s.
       ubnd (if pid = 0 then ubnd (parsecmd buf s) (\<lambda>r s. runcmd (fst r) (snd r) s) else URet () s) (\<lambda>_ s.
       ubnd (icall (U_wait False) s) (\<lambda>_ s. sh_loop buf s))))"
  by pat_completeness auto
termination
  by (relation "measure (\<lambda>(buf, s). length (replies s))")
     (auto simp: ubnd_URet_iff runcmd_no_return cd_failed_text [simplified] dest!: getcmd_replies fork1_replies icall_replies u_puts_replies
       split: if_splits)

declare sh_loop.simps [simp del]

definition sh_main :: "'a heap_state_scheme \<Rightarrow> ('a heap_state_scheme, i32) uout" where
  "sh_main s = ubnd (open_console s) (\<lambda>_ s. sh_loop (replicate 100 0) s)"

end
