(* ===== verification/ShellTree.thy ===== *)
theory ShellTree
  imports Shell
begin

text \<open>
  The parser of the shell without its memory: the same grammar with the commands built as trees at once.  It is
  what the parser of \<open>Shell\<close> computes as long as \<open>malloc\<close> succeeds.
\<close>

function tree_redirs :: "u8 list \<Rightarrow> cmd \<Rightarrow> nat \<Rightarrow> 'a user_state_scheme \<Rightarrow> ('a user_state_scheme, cmd \<times> nat) uout" where
  "tree_redirs line cmd i s =
     (let j = fst (peek line i (cstr ''<>'')) in
      if \<not> snd (peek line i (cstr ''<>'')) then URet (cmd, j) s
      else let tok = fst (gettoken line j); i1 = skiptok line j in
        case gettoken line i1 of (tok2, q, e, i2) \<Rightarrow>
          if tok2 \<noteq> 97 then sh_panic ''missing file for redirection'' s
          else tree_redirs line
            (if tok = 60 then REDIR cmd q e uO_RDONLY 0
             else if tok = 62 then REDIR cmd q e (uO_WRONLY OR uO_CREATE OR uO_TRUNC) 1
             else if tok = 43 then REDIR cmd q e (uO_WRONLY OR uO_CREATE) 1
             else cmd) i2 s)"
  by pat_completeness auto
termination
proof (relation "measure (\<lambda>(line, cmd, i, s). length line - i)", simp)
  fix line :: "u8 list" and cmd i and s :: "'a user_state_scheme" and j tok i1 tok2 q e i2 x y z
  assume j: "j = fst (peek line i (cstr ''<>''))" and b: "\<not> \<not> snd (peek line i (cstr ''<>''))" and i1: "i1 = skiptok line j"
    and g: "(tok2, x) = gettoken line i1" "(q, y) = x" "(e, i2) = y" and t: "\<not> tok2 \<noteq> 97"
  have "peek line i (cstr ''<>'') = (j, True)" using j b by (cases "peek line i (cstr ''<>'')") auto
  note p = peek_token [OF this]
  have "gettoken line i1 = (tok2, q, e, i2)" "tok2 \<noteq> 0" using g t by auto
  note a = gettoken_advances [OF this]
  have "i < i2" "i < length line" using p a i1 by auto
  then show "((line, if tok = 60 then REDIR cmd q e uO_RDONLY 0 else if tok = 62 then REDIR cmd q e (uO_WRONLY OR uO_CREATE OR uO_TRUNC) 1
      else if tok = 43 then REDIR cmd q e (uO_WRONLY OR uO_CREATE) 1 else cmd, i2, s), line, cmd, i, s)
      \<in> measure (\<lambda>(line, cmd, i, s). length line - i)" by simp
qed

declare tree_redirs.simps [simp del]

function tree_args :: "u8 list \<Rightarrow> cmd \<Rightarrow> nat \<Rightarrow> nat \<Rightarrow> 'a user_state_scheme \<Rightarrow> ('a user_state_scheme, cmd \<times> nat) uout" where
  "tree_args line ret argc i s =
     (let j = fst (peek line i (cstr ''|)&;'')) in
      if snd (peek line i (cstr ''|)&;'')) then URet (ret, j) s
      else case gettoken line j of (tok, q, e, i1) \<Rightarrow>
        if tok = 0 then URet (ret, i1) s
        else if tok \<noteq> 97 then sh_panic ''syntax'' s
        else if argc + 1 \<ge> MAXARGS then sh_panic ''too many args'' s
        else ubnd (tree_redirs line (add_arg q e ret) i1 s) (\<lambda>r s. tree_args line (fst r) (argc + 1) (snd r) s))"
  by pat_completeness auto
termination by (relation "measure (\<lambda>(line, ret, argc, i, s). MAXARGS - argc)") auto

declare tree_args.simps [simp del]



function tree_backs :: "u8 list \<Rightarrow> cmd \<Rightarrow> nat \<Rightarrow> cmd \<times> nat" where
  "tree_backs line cmd i =
     (let j = fst (peek line i (cstr ''&'')) in
      if snd (peek line i (cstr ''&'')) then tree_backs line (BACK cmd) (skiptok line j) else (cmd, j))"
  by pat_completeness auto
termination
proof (relation "measure (\<lambda>(line, cmd, i). length line - i)", simp)
  fix line :: "u8 list" and cmd i j
  assume "j = fst (peek line i (cstr ''&''))" "snd (peek line i (cstr ''&''))"
  then have "peek line i (cstr ''&'') = (j, True)" by (cases "peek line i (cstr ''&'')") auto
  from peek_token [OF this] show "((line, BACK cmd, skiptok line j), line, cmd, i) \<in> measure (\<lambda>(line, cmd, i). length line - i)"
    by auto
qed

declare tree_backs.simps [simp del]

text \<open>
  The recursive functions, with a bound on the depth of their calls.
\<close>

fun tree_line :: "nat \<Rightarrow> u8 list \<Rightarrow> nat \<Rightarrow> 'a user_state_scheme \<Rightarrow> ('a user_state_scheme, cmd \<times> nat) uout"
  and tree_pipe :: "nat \<Rightarrow> u8 list \<Rightarrow> nat \<Rightarrow> 'a user_state_scheme \<Rightarrow> ('a user_state_scheme, cmd \<times> nat) uout"
  and tree_exec :: "nat \<Rightarrow> u8 list \<Rightarrow> nat \<Rightarrow> 'a user_state_scheme \<Rightarrow> ('a user_state_scheme, cmd \<times> nat) uout"
  and tree_block :: "nat \<Rightarrow> u8 list \<Rightarrow> nat \<Rightarrow> 'a user_state_scheme \<Rightarrow> ('a user_state_scheme, cmd \<times> nat) uout" where
  "tree_line 0 line i s = UFuel"
| "tree_line (Suc n) line i s =
     ubnd (tree_pipe n line i s) (\<lambda>r s.
     let r = tree_backs line (fst r) (snd r); j = fst (peek line (snd r) (cstr '';'')) in
     if snd (peek line (snd r) (cstr '';''))
     then ubnd (tree_line n line (skiptok line j) s) (\<lambda>r2 s. URet (LIST (fst r) (fst r2), snd r2) s)
     else URet (fst r, j) s)"
| "tree_pipe 0 line i s = UFuel"
| "tree_pipe (Suc n) line i s =
     ubnd (tree_exec n line i s) (\<lambda>r s.
     let j = fst (peek line (snd r) (cstr ''|'')) in
     if snd (peek line (snd r) (cstr ''|''))
     then ubnd (tree_pipe n line (skiptok line j) s) (\<lambda>r2 s. URet (PIPE (fst r) (fst r2), snd r2) s)
     else URet (fst r, j) s)"
| "tree_exec 0 line i s = UFuel"
| "tree_exec (Suc n) line i s =
     (let j = fst (peek line i (cstr ''('')) in
      if snd (peek line i (cstr ''('')) then tree_block n line j s
      else ubnd (tree_redirs line (EXEC []) j s) (\<lambda>r s. tree_args line (fst r) 0 (snd r) s))"
| "tree_block 0 line i s = UFuel"
| "tree_block (Suc n) line i s =
     (let j = fst (peek line i (cstr ''('')) in
      if \<not> snd (peek line i (cstr ''('')) then sh_panic ''parseblock'' s
      else ubnd (tree_line n line (skiptok line j) s) (\<lambda>r s.
        let j = fst (peek line (snd r) (cstr '')'')) in
        if \<not> snd (peek line (snd r) (cstr '')'')) then sh_panic ''syntax - missing )'' s
        else tree_redirs line (fst r) (skiptok line j) s))"


text \<open>What follows the parse in \<open>parsecmd\<close>.\<close>

definition tree_cmd :: "u8 list \<Rightarrow> 'a user_state_scheme \<Rightarrow> ('a user_state_scheme, cmd \<times> u8 list) uout" where
  "tree_cmd buf s =
     (let line = cstring buf; es = length line in
      ubnd (tree_line (4 * es + 4) line 0 s) (\<lambda>r s.
      let j = fst (peek line (snd r) []) in
      if j \<noteq> es
      then ubnd (u_fprintf 2 (''leftovers: %s'' @ [CHR 10]) [VStr (Some (drop j line))] s) (\<lambda>_ s. sh_panic ''syntax'' s)
      else URet (fst r, nulterminate (fst r) buf) s))"

end
