(* ===== verification/ShellHeap.thy ===== *)
theory ShellHeap
  imports ShellTree
begin

text \<open>
  The heap of the process that parses a line.  It starts unused; the first \<open>malloc\<close> gets 65536 bytes from \<open>sbrk\<close>,
  and every node is cut from the end of that one free block.
\<close>

section \<open>One free block\<close>

text \<open>The free list is \<open>base\<close> and one block of \<open>f\<close> units.\<close>

definition arena :: "nat \<Rightarrow> 'a heap_state_scheme \<Rightarrow> bool" where
  "arena f s \<longleftrightarrow> (\<exists>p. base s \<noteq> 0 \<and> freep s = base s \<and> size_at s (base s) = 0 \<and> ptr_at s (base s) = p \<and> ptr_at s p = base s \<and>
     unat (size_at s p) = f \<and> unat (base s) + 16 \<le> unat p \<and> unat p + 16 * f \<le> 2 ^ 36)"

text \<open>The heap has never been used, and the next reply is the start of the 65536 bytes \<open>sbrk\<close> adds behind the data.\<close>

definition unused :: "'a heap_state_scheme \<Rightarrow> bool" where
  "unused s \<longleftrightarrow> freep s = 0 \<and> base s \<noteq> 0 \<and>
     (case replies s of [] \<Rightarrow> False | (p, x) # rs \<Rightarrow> p \<noteq> -1 \<and> unat (base s) + 16 \<le> unat p \<and> unat p + 65536 \<le> 2 ^ 36)"

text \<open>There is room for \<open>n\<close> more units.\<close>

definition room :: "nat \<Rightarrow> 'a heap_state_scheme \<Rightarrow> bool" where
  "room n s \<longleftrightarrow> (\<exists>f. arena f s \<and> n < f) \<or> unused s \<and> n < 4096"

lemma room_mono: "room n s \<Longrightarrow> m \<le> n \<Longrightarrow> room m s"
  by (auto simp: room_def)

text \<open>What allocating does to the rest of the state: \<open>sbrk\<close> is called by the first allocation only.\<close>

definition grown_from :: "'a heap_state_scheme \<Rightarrow> 'a heap_state_scheme \<Rightarrow> bool" where
  "grown_from s t \<longleftrightarrow> freep t \<noteq> 0 \<and> calls t = calls s @ (if freep s = 0 then [U_sbrk 65536] else []) \<and>
     replies t = (if freep s = 0 then tl (replies s) else replies s)"

lemma grown_from_refl: "freep s \<noteq> 0 \<Longrightarrow> grown_from s s"
  by (simp add: grown_from_def)

lemma grown_from_trans: "grown_from s t \<Longrightarrow> grown_from t u \<Longrightarrow> grown_from s u"
  by (auto simp: grown_from_def)

lemma unat_hdr_plus_units: "unat p + 16 * unat n < 2 ^ 64 \<Longrightarrow> unat (hdr_plus p n) = unat p + 16 * unat n"
  using unat_add_of_nat [of p "16 * unat n"] by (simp add: hdr_plus_def)

lemma malloc_arena:
  assumes "arena f s" "0 < unat n" "unat n < f"
  obtains q t where "malloc_loop n (freep s) (ptr_at s (freep s)) s = Some (URet (hdr_plus q 1) t)" "hdr_plus q 1 \<noteq> 0"
    "arena (f - unat n) t" "replies t = replies s" "calls t = calls s"
proof -
  obtain p where p: "base s \<noteq> 0" "freep s = base s" "size_at s (base s) = 0" "ptr_at s (base s) = p" "ptr_at s p = base s"
    "unat (size_at s p) = f" "unat (base s) + 16 \<le> unat p" "unat p + 16 * f \<le> 2 ^ 36" using assms(1) by (auto simp: arena_def)
  let ?m = "size_at s p - n" and ?q = "hdr_plus p (size_at s p - n)"
  have m: "unat ?m = f - unat n" using assms(3) p(6) by (simp add: unat_sub_if' word_le_nat_alt)
  have q: "unat ?q = unat p + 16 * (f - unat n)" using unat_hdr_plus_units [of p ?m] m p(8) by simp
  then have ne: "?q \<noteq> p" "?q \<noteq> base s" "p \<noteq> base s" using assms(3) p(7) by auto
  have q1: "unat (hdr_plus ?q 1) = unat ?q + 16" using unat_hdr_plus_units [of ?q 1] q p(8) by simp
  let ?t = "(set_size ?q n (set_size p ?m s))\<lparr>freep := base s\<rparr>"
  have "size_at s p \<ge> n" "size_at s p \<noteq> n" using assms(3) p(6) by (auto simp: word_le_nat_alt)
  then have "malloc_loop n (freep s) (ptr_at s (freep s)) s = Some (URet (hdr_plus ?q 1) ?t)"
    using p(2,4) by (subst malloc_loop.simps) (simp add: malloc_take_def Let_def)
  moreover have "hdr_plus ?q 1 \<noteq> 0" using q1 by auto
  moreover have "arena (f - unat n) ?t"
    unfolding arena_def using p ne m by (intro exI [of _ p]) simp
  moreover have "replies ?t = replies s" "calls ?t = calls s" by simp_all
  ultimately show ?thesis by (rule that)
qed

lemma morecore_unused:
  assumes "freep s = base s" "base s \<noteq> 0" "ptr_at s (base s) = base s" "size_at s (base s) = 0" "n < 4096"
    "replies s = (p, x) # rs" "p \<noteq> -1" "unat (base s) + 16 \<le> unat p" "unat p + 65536 \<le> 2 ^ 36"
  obtains t where "morecore n s = Some (URet (base s) t)" "arena 4096 t" "base t = base s" "ptr_at t (base s) = p" "replies t = rs"
    "calls t = calls s @ [U_sbrk 65536]"
proof -
  let ?s1 = "s\<lparr>replies := rs, calls := calls s @ [U_sbrk 65536]\<rparr>" and ?b = "base s"
  let ?s2 = "set_size p 4096 ?s1"
  have e: "unat (hdr_plus p 4096) = unat p + 65536" using unat_hdr_plus_units [of p 4096] assms(9) by simp
  have ne: "p \<noteq> ?b" "hdr_plus p 4096 \<noteq> ?b" "?b < p" using e assms(8) by (auto simp: word_less_nat_alt)
  have f1: "ptr_at ?s1 = ptr_at s" "size_at ?s1 = size_at s" by (simp_all add: ptr_at_def size_at_def fun_eq_iff)
  have "h_ptr (hdrs ?s2 ?b) = ?b" using assms(3) ne(1) by (simp add: set_size_def ptr_at_def)
  then have "free_search (hdrs ?s2) p ?b = Some ?b" using ne(3) by (subst free_search.simps) simp
  moreover have "hdr_plus p 1 - 16 = p" by (simp add: hdr_plus_def)
  ultimately have u: "ufree (hdr_plus p 1) ?s2 = Some (free_insert p ?b ?s2)" using assms(1) by (simp add: ufree_def)
  let ?t = "(set_ptr ?b p (set_ptr p ?b ?s2))\<lparr>freep := ?b\<rparr>"
  have "hdr_plus ?b 0 = ?b" by (simp add: hdr_plus_def)
  then have t: "free_insert p ?b ?s2 = ?t" using ne f1 assms(3,4) by (simp add: free_insert_def Let_def)
  have "morecore n s = Some (URet ?b ?t)" using assms(5-7) u t by (simp add: morecore_def usys_def Let_def)
  moreover have "arena 4096 ?t" unfolding arena_def using assms(2,4,8,9) ne f1 by (intro exI [of _ p]) simp
  moreover have "base ?t = ?b" "ptr_at ?t ?b = p" "replies ?t = rs" "calls ?t = calls s @ [U_sbrk 65536]" using ne by simp_all
  ultimately show ?thesis by (rule that)
qed

lemma node_units:
  assumes "nbytes \<le> (168 :: u32)"
  shows "0 < unat (malloc_units nbytes)" "unat (malloc_units nbytes) \<le> 12" "malloc_units nbytes < 4096" "\<not> malloc_units nbytes \<le> 0"
proof -
  have "unat nbytes \<le> 168" using assms by (simp add: word_le_nat_alt)
  then show n: "0 < unat (malloc_units nbytes)" "unat (malloc_units nbytes) \<le> 12" unfolding malloc_units_enough(1) by simp_all
  then show "malloc_units nbytes < 4096" "\<not> malloc_units nbytes \<le> 0" by (simp_all add: word_less_nat_alt word_le_nat_alt)
qed

lemma malloc_room_arena:
  assumes "arena f u" "N < f" "nbytes \<le> 168" "12 \<le> N"
    and "umalloc nbytes s = malloc_loop (malloc_units nbytes) (freep u) (ptr_at u (freep u)) u"
    and "calls u = calls s @ (if freep s = 0 then [U_sbrk 65536] else [])" "replies u = (if freep s = 0 then tl (replies s) else replies s)"
  shows "\<exists>q t. umalloc nbytes s = Some (URet (hdr_plus q 1) t) \<and> hdr_plus q 1 \<noteq> 0 \<and> room (N - 12) t \<and> grown_from s t"
proof -
  let ?n = "malloc_units nbytes"
  note n = node_units [OF assms(3)]
  have "unat ?n < f" using assms(2,4) n by simp
  then obtain q t where t: "malloc_loop ?n (freep u) (ptr_at u (freep u)) u = Some (URet (hdr_plus q 1) t)" "hdr_plus q 1 \<noteq> 0"
    "arena (f - unat ?n) t" "replies t = replies u" "calls t = calls u" by (rule malloc_arena [OF assms(1) n(1)])
  have "N - 12 < f - unat ?n" using assms(2,4) n by simp
  then have "room (N - 12) t" using t(3) by (auto simp: room_def)
  moreover have "freep t \<noteq> 0" using t(3) by (auto simp: arena_def)
  then have "grown_from s t" using assms(6,7) t(4,5) by (simp add: grown_from_def)
  ultimately show ?thesis using assms(5) t(1,2) by metis
qed

lemma malloc_room:
  assumes "room N s" "nbytes \<le> 168" "12 \<le> N"
  shows "\<exists>q t. umalloc nbytes s = Some (URet (hdr_plus q 1) t) \<and> hdr_plus q 1 \<noteq> 0 \<and> room (N - 12) t \<and> grown_from s t"
proof -
  let ?n = "malloc_units nbytes"
  note n = node_units [OF assms(2)]
  from assms(1) consider f where "arena f s" "N < f" | "unused s" "N < 4096" by (auto simp: room_def)
  then show ?thesis
  proof cases
    case 1
    then have "freep s \<noteq> 0" by (auto simp: arena_def)
    then show ?thesis by (intro malloc_room_arena [OF 1 assms(2,3)]) (simp_all add: umalloc_def malloc_init_def)
  next
    case 2
    obtain p x rs where r: "replies s = (p, x) # rs" "p \<noteq> -1" "unat (base s) + 16 \<le> unat p" "unat p + 65536 \<le> 2 ^ 36" "freep s = 0" "base s \<noteq> 0"
      using 2(1) by (auto simp: unused_def split: list.splits)
    let ?s = "malloc_init s"
    have i: "freep ?s = base s" "base ?s = base s" "ptr_at ?s (base s) = base s" "size_at ?s (base s) = 0" "replies ?s = replies s" "calls ?s = calls s"
      using r(5) by (simp_all add: malloc_init_def)
    obtain t where t: "morecore ?n ?s = Some (URet (base s) t)" "arena 4096 t" "base t = base s" "ptr_at t (base s) = p" "replies t = rs"
      "calls t = calls s @ [U_sbrk 65536]"
      by (rule morecore_unused [of ?s ?n p x rs]) (use i r n in simp_all)
    have "freep t = base s" using t(2,3) by (auto simp: arena_def)
    moreover have "umalloc nbytes s = malloc_loop ?n (base s) (ptr_at t (base s)) t"
      unfolding umalloc_def Let_def i(1,3) by (subst malloc_loop.simps) (use i(1,4) n(4) t(1) r(6) in simp)
    ultimately show ?thesis using r(1,5) t(5,6) by (intro malloc_room_arena [OF t(2) 2(2) assms(2,3)]) simp_all
  qed
qed

text \<open>So the constructors succeed, at twelve units at most each.\<close>

lemma malloc_node_room:
  assumes "room N s" "nbytes \<le> 168" "12 \<le> N"
  obtains t where "malloc_node nbytes s = URet () t" "room (N - 12) t" "grown_from s t"
  using malloc_room [OF assms] that by (auto simp: malloc_node_def)

text \<open>When the first \<open>sbrk\<close> fails, the first constructor writes through a null pointer.\<close>

lemma malloc_node_fails:
  assumes "freep s = 0" "base s \<noteq> 0" "replies s = (-1, x) # rs" "nbytes \<le> 168"
  shows "malloc_node nbytes s = UFault"
proof -
  let ?n = "malloc_units nbytes" and ?s = "malloc_init s"
  note n = node_units(3,4) [OF assms(4)]
  have i: "freep ?s = base s" "ptr_at ?s (base s) = base s" "size_at ?s (base s) = 0" "replies ?s = replies s"
    using assms(1) by (simp_all add: malloc_init_def)
  have "\<exists>t. morecore ?n ?s = Some (URet 0 t)" using n(1) i(4) assms(3) by (simp add: morecore_def usys_def Let_def)
  then obtain t where "morecore ?n ?s = Some (URet 0 t)" ..
  then have "umalloc nbytes s = Some (URet 0 t)"
    unfolding umalloc_def Let_def i(1,2) by (subst malloc_loop.simps) (use i(1,3) n(2) in simp)
  then show ?thesis by (simp add: malloc_node_def)
qed

end
