(* ===== verification/ShellParse.thy ===== *)
theory ShellParse
  imports ShellHeap
begin

text \<open>
  The parser of the shell: it ends on every input, the commands it returns are well formed and their
  strings are the words of the line, and it reads back every command that is written out.
\<close>

section \<open>How a call ends\<close>

text \<open>
  A call that does not return has exited with status 1 after the newline of a message on file descriptor 2, or is still
  in the \<open>write\<close> of a byte of it, the call for which there is no reply.
\<close>

definition ended :: "('s user_state_scheme, 'a) uout \<Rightarrow> bool" where
  "ended r \<longleftrightarrow> (\<exists>t ws. r = UExit 1 t \<and> calls t = ws @ [U_write 2 [10]]) \<or>
     (\<exists>t ws c. r = UWait t \<and> calls t = ws @ [U_write 2 [c]] \<and> replies t = [])"

lemma u_puts_cases:
  "(\<exists>t. u_puts fd cs s = URet () t \<and> calls t = calls s @ map (\<lambda>c. U_write fd [c]) cs) \<or>
   (\<exists>t ws c. u_puts fd cs s = UWait t \<and> calls t = ws @ [U_write fd [c]] \<and> replies t = [])"
proof (induction cs arbitrary: s)
  case (Cons c cs)
  show ?case
  proof (cases "replies s")
    case Nil
    then show ?thesis by (simp add: u_putc_def icall_def usys_def)
  next
    case (Cons r rs)
    then show ?thesis using Cons.IH [of "s\<lparr>replies := rs, calls := calls s @ [U_write fd [c]]\<rparr>"]
      by (cases r) (simp add: u_putc_def icall_reply)
  qed
qed simp

lemma sh_panic_ended: "ended (sh_panic m s)"
proof -
  have "u_fprintf 2 (''%s'' @ [CHR 10]) [VStr (Some (cstr m))] s = u_puts 2 (cstring (cstr m) @ [10]) s"
    by (rule u_fprintf_text) (simp add: text_of.simps cstr_def vprintf_conv_def deref_def Let_def)
  then show ?thesis using u_puts_cases [of 2 "cstring (cstr m) @ [10]" s]
    by (auto simp: sh_panic_def ended_def uexit_def)
qed

lemma ended_ubnd: "ended r \<Longrightarrow> ended (ubnd r f)"
  by (auto simp: ended_def)

section \<open>Tokens\<close>

definition word_char :: "u8 \<Rightarrow> bool" where
  "word_char c \<longleftrightarrow> c \<noteq> 0 \<and> c \<notin> set whitespace \<and> c \<notin> set symbols"

lemma strchr_sets:
  "u_strchr whitespace c = None \<longleftrightarrow> c = 0 \<or> c \<notin> set whitespace" "u_strchr symbols c = None \<longleftrightarrow> c = 0 \<or> c \<notin> set symbols"
  by (auto simp: whitespace_def symbols_def cstr_def)

text \<open>A word of the line, from \<open>q\<close> up to \<open>e\<close>.\<close>

definition tok_ok :: "u8 list \<Rightarrow> nat \<Rightarrow> nat \<Rightarrow> bool" where
  "tok_ok line q e \<longleftrightarrow> q < e \<and> e \<le> length line \<and> (\<forall>k. q \<le> k \<and> k < e \<longrightarrow> word_char (line ! k)) \<and>
     (e < length line \<longrightarrow> \<not> word_char (line ! e))"

lemma char_at_nth: "i < length line \<Longrightarrow> char_at line i = line ! i"
  by (simp add: char_at_def deref_def Cons_nth_drop_Suc [symmetric])

lemma skip_word_spec:
  assumes "0 \<notin> set line" "i \<le> length line"
  shows "skip_word line i \<le> length line \<and> (\<forall>k. i \<le> k \<and> k < skip_word line i \<longrightarrow> word_char (line ! k)) \<and>
    (skip_word line i < length line \<longrightarrow> \<not> word_char (line ! skip_word line i))"
  using assms
proof (induction line i rule: skip_word.induct)
  case (1 line i)
  show ?case
  proof (cases "i < length line \<and> u_strchr whitespace (char_at line i) = None \<and> u_strchr symbols (char_at line i) = None")
    case True
    then have "line ! i \<noteq> 0" using "1.prems"(1) by (metis nth_mem)
    then have "word_char (line ! i)" using True char_at_nth [of i line] by (auto simp: word_char_def strchr_sets)
    moreover have "skip_word line i = skip_word line (i + 1)" using True by (subst skip_word.simps) simp
    moreover note "1.IH" [OF True "1.prems"(1)]
    moreover have "i + 1 \<le> k" if "i \<le> k" "k \<noteq> i" for k using that by simp
    ultimately show ?thesis using True by (metis Suc_eq_plus1 Suc_leI)
  next
    case False
    then have e: "skip_word line i = i" by (subst skip_word.simps) auto
    have "\<not> word_char (line ! i)" if "i < length line" using False that by (auto simp: char_at_nth word_char_def strchr_sets)
    then show ?thesis unfolding e using "1.prems" by auto
  qed
qed

lemma gettoken_word:
  assumes "gettoken line i = (97, q, e, j)" "0 \<notin> set line"
  shows "tok_ok line q e"
proof -
  have c: "char_at line q \<noteq> 0" "q = skip_white line i" "e = skip_word line q"
    using assms(1) by (auto simp: gettoken_def Let_def split: if_splits)
  have q: "q < length line" by (rule char_at_less [OF c(1)])
  have "q < e" using gettoken_advances [OF assms(1)] by simp
  then show ?thesis using skip_word_spec [OF assms(2), of q] q c(3) by (simp add: tok_ok_def)
qed

section \<open>Well-formed commands\<close>

fun redir_ok :: "i32 \<Rightarrow> i32 \<Rightarrow> bool" where
  "redir_ok mode fd \<longleftrightarrow> mode = uO_RDONLY \<and> fd = 0 \<or>
     (mode = (uO_WRONLY OR uO_CREATE OR uO_TRUNC) \<or> mode = (uO_WRONLY OR uO_CREATE)) \<and> fd = 1"

primrec cmd_ok :: "u8 list \<Rightarrow> cmd \<Rightarrow> bool" where
  "cmd_ok line (EXEC av) \<longleftrightarrow> length av < MAXARGS \<and> (\<forall>(q, e) \<in> set av. tok_ok line q e)"
| "cmd_ok line (REDIR c q e mode fd) \<longleftrightarrow> cmd_ok line c \<and> tok_ok line q e \<and> redir_ok mode fd"
| "cmd_ok line (PIPE l r) \<longleftrightarrow> cmd_ok line l \<and> cmd_ok line r"
| "cmd_ok line (LIST l r) \<longleftrightarrow> cmd_ok line l \<and> cmd_ok line r"
| "cmd_ok line (BACK c) \<longleftrightarrow> cmd_ok line c"

text \<open>The arguments of the innermost command below redirections.\<close>

fun core :: "cmd \<Rightarrow> (nat \<times> nat) list option" where
  "core (EXEC av) = Some av"
| "core (REDIR c q e mode fd) = core c"
| "core _ = None"

lemma add_arg_ok:
  assumes "core c = Some av" "cmd_ok line c" "tok_ok line q e" "length av + 1 < MAXARGS"
  shows "core (add_arg q e c) = Some (av @ [(q, e)])" "cmd_ok line (add_arg q e c)"
  using assms by (induction c) auto

text \<open>A successful parse from position \<open>i\<close> changes nothing, ends at \<open>i\<close> or later and has a result with property \<open>P\<close>.\<close>

definition parses :: "'s user_state_scheme \<Rightarrow> nat \<Rightarrow> (cmd \<Rightarrow> bool) \<Rightarrow> ('s user_state_scheme, cmd \<times> nat) uout \<Rightarrow> bool" where
  "parses s i P r \<longleftrightarrow> ended r \<or> (\<exists>c j. r = URet (c, j) s \<and> i \<le> j \<and> P c)"

lemma parses_bind:
  assumes "parses s i P r" "\<And>c j. P c \<Longrightarrow> i \<le> j \<Longrightarrow> parses s j Q (f (c, j) s)"
  shows "parses s i Q (ubnd r f)"
  using assms ended_ubnd by (fastforce simp: parses_def)

lemma parses_panic: "parses s i P (sh_panic m t)"
  by (simp add: parses_def sh_panic_ended)

lemma parses_mono: "parses s j P r \<Longrightarrow> i \<le> j \<Longrightarrow> (\<And>c. P c \<Longrightarrow> Q c) \<Longrightarrow> parses s i Q r"
  by (auto simp: parses_def)

lemma parses_le: "parses s j P r \<Longrightarrow> i \<le> j \<Longrightarrow> parses s i P r"
  by (rule parses_mono)

lemma peek_le: "i \<le> fst (peek line i toks)"
  by (simp add: peek_def Let_def skip_white_ge)

lemma peek_skip:
  assumes "snd (peek line i toks)"
  shows "i < skiptok line (fst (peek line i toks))" "i < length line"
  using peek_token [of line i toks "fst (peek line i toks)"] assms by (cases "peek line i toks"; auto)+

lemma tree_redirs_step:
  assumes "snd (peek line i (cstr ''<>''))" "gettoken line (skiptok line (fst (peek line i (cstr ''<>'')))) = (97, q, e, i2)"
    "0 \<notin> set line" "cmd_ok line cmd"
  shows "\<exists>c. tree_redirs line cmd i s = tree_redirs line c i2 s \<and> cmd_ok line c \<and> core c = core cmd"
proof -
  have t: "tok_ok line q e" by (rule gettoken_word [OF assms(2,3)])
  let ?t = "fst (gettoken line (fst (peek line i (cstr ''<>''))))"
  let ?c = "if ?t = 60 then REDIR cmd q e uO_RDONLY 0 else if ?t = 62 then REDIR cmd q e (uO_WRONLY OR uO_CREATE OR uO_TRUNC) 1
    else if ?t = 43 then REDIR cmd q e (uO_WRONLY OR uO_CREATE) 1 else cmd"
  have "tree_redirs line cmd i s = tree_redirs line ?c i2 s"
    using assms(1,2) by (subst tree_redirs.simps) (simp add: Let_def)
  moreover have "cmd_ok line ?c" "core ?c = core cmd" using t assms(4) by simp_all
  ultimately show ?thesis by blast
qed

lemma tree_redirs_parses:
  "0 \<notin> set line \<Longrightarrow> cmd_ok line cmd \<Longrightarrow> parses s i (\<lambda>c. cmd_ok line c \<and> core c = core cmd) (tree_redirs line cmd i s)"
proof (induction "length line - i" arbitrary: cmd i rule: less_induct)
  case less
  let ?p = "peek line i (cstr ''<>'')"
  obtain tok2 q e i2 where g: "gettoken line (skiptok line (fst ?p)) = (tok2, q, e, i2)" by (rule prod_cases4)
  consider "\<not> snd ?p" | "snd ?p" "tok2 \<noteq> 97" | "snd ?p" "tok2 = 97" by blast
  then show ?case
  proof cases
    case 1
    then have "tree_redirs line cmd i s = URet (cmd, fst ?p) s" by (subst tree_redirs.simps) (simp add: Let_def)
    then show ?thesis using less.prems(2) peek_le [of i line "cstr ''<>''"] by (simp add: parses_def)
  next
    case 2
    then have "tree_redirs line cmd i s = sh_panic ''missing file for redirection'' s"
      using g by (subst tree_redirs.simps) (simp add: Let_def)
    then show ?thesis by (simp add: parses_panic)
  next
    case 3
    note g = g [unfolded 3(2)]
    obtain c where c: "tree_redirs line cmd i s = tree_redirs line c i2 s" "cmd_ok line c" "core c = core cmd"
      using tree_redirs_step [OF 3(1) g less.prems] by blast
    have "i < i2" "i < length line" using gettoken_advances [OF g] peek_skip [OF 3(1)] by auto
    then have "parses s i2 (\<lambda>c. cmd_ok line c \<and> core c = core cmd) (tree_redirs line c i2 s)" "i \<le> i2"
      using less.hyps [of i2 c] less.prems(1) c by simp_all
    then show ?thesis unfolding c(1) by (rule parses_le)
  qed
qed

lemma gettoken_le: "gettoken line i = (tok, q, e, j) \<Longrightarrow> i \<le> j"
  using gettoken_advances [of line i tok q e j] skip_white_ge by (cases "tok = 0") (auto simp: gettoken_def Let_def split: if_splits intro: order_trans)

lemma tree_args_parses:
  "0 \<notin> set line \<Longrightarrow> cmd_ok line ret \<Longrightarrow> core ret = Some av \<Longrightarrow> length av = argc \<Longrightarrow>
    parses s i (cmd_ok line) (tree_args line ret argc i s)"
proof (induction "MAXARGS - argc" arbitrary: ret argc av i rule: less_induct)
  case less
  let ?p = "peek line i (cstr ''|)&;'')"
  obtain tok q e i1 where g: "gettoken line (fst ?p) = (tok, q, e, i1)" by (rule prod_cases4)
  have i1: "i \<le> i1" "i \<le> fst ?p" using gettoken_le [OF g] peek_le [of i line "cstr ''|)&;''"] by auto
  consider "snd ?p" | "\<not> snd ?p" "tok = 0" | "\<not> snd ?p" "tok \<noteq> 0" "tok \<noteq> 97 \<or> argc + 1 \<ge> MAXARGS"
    | "\<not> snd ?p" "tok = 97" "argc + 1 < MAXARGS" by fastforce
  then show ?case
  proof cases
    case 1
    then have "tree_args line ret argc i s = URet (ret, fst ?p) s" by (subst tree_args.simps) (simp add: Let_def)
    then show ?thesis using less.prems(2) i1 by (simp add: parses_def)
  next
    case 2
    then have "tree_args line ret argc i s = URet (ret, i1) s" using g by (subst tree_args.simps) (simp add: Let_def)
    then show ?thesis using less.prems(2) i1 by (simp add: parses_def)
  next
    case 3
    then have "\<exists>m. tree_args line ret argc i s = sh_panic m s" using g by (subst tree_args.simps) (auto simp: Let_def)
    then show ?thesis using parses_panic by metis
  next
    case 4
    note a = add_arg_ok [OF less.prems(3,2) gettoken_word [OF g [unfolded 4(2)] less.prems(1)]]
    have l: "length av + 1 < MAXARGS" using 4(3) less.prems(4) by simp
    have "tree_args line ret argc i s = ubnd (tree_redirs line (add_arg q e ret) i1 s) (\<lambda>r s. tree_args line (fst r) (argc + 1) (snd r) s)"
      using 4 g by (subst tree_args.simps) (simp add: Let_def)
    moreover have "parses s i1 (cmd_ok line) (ubnd (tree_redirs line (add_arg q e ret) i1 s) (\<lambda>r s. tree_args line (fst r) (argc + 1) (snd r) s))"
    proof (rule parses_bind [OF tree_redirs_parses [OF less.prems(1) a(2) [OF l]]])
      fix c j assume "cmd_ok line c \<and> core c = core (add_arg q e ret)"
      then show "parses s j (cmd_ok line) (tree_args line (fst (c, j)) (argc + 1) (snd (c, j)) s)"
        using less.hyps [of "argc + 1" c "av @ [(q, e)]" j] less.prems(1,4) a(1) [OF l] 4(3) by simp
    qed
    ultimately show ?thesis using i1(1) parses_le by metis
  qed
qed

lemma tree_backs_ok:
  "cmd_ok line cmd \<Longrightarrow> cmd_ok line (fst (tree_backs line cmd i)) \<and> i \<le> snd (tree_backs line cmd i)"
proof (induction "length line - i" arbitrary: cmd i rule: less_induct)
  case less
  let ?p = "peek line i (cstr ''&'')"
  show ?case
  proof (cases "snd ?p")
    case True
    then have e: "tree_backs line cmd i = tree_backs line (BACK cmd) (skiptok line (fst ?p))"
      by (subst tree_backs.simps) (simp add: Let_def)
    have "cmd_ok line (BACK cmd)" using less.prems by simp
    from less.hyps [OF diff_less_mono2 [OF peek_skip [OF True]] this] show ?thesis unfolding e using peek_skip(1) [OF True] by linarith
  next
    case False
    then have "tree_backs line cmd i = (cmd, fst ?p)" by (subst tree_backs.simps) (simp add: Let_def)
    then show ?thesis using less.prems peek_le [of i line "cstr ''&''"] by simp
  qed
qed

text \<open>Behind a separator that was seen, and otherwise at the position after the blanks.\<close>

lemma parses_sep:
  assumes "i \<le> k" "cmd_ok line c"
    "\<And>j. j > i \<Longrightarrow> i < length line \<Longrightarrow> parses s j (cmd_ok line) (f j s)"
    "\<And>r. cmd_ok line r \<Longrightarrow> cmd_ok line (g c r)"
  shows "parses s i (cmd_ok line) (let j = fst (peek line k t) in
    if snd (peek line k t) then ubnd (f (skiptok line j) s) (\<lambda>r2 s. URet (g c (fst r2), snd r2) s) else URet (c, j) s)"
proof (cases "snd (peek line k t)")
  case True
  note p = peek_skip [OF True]
  have "parses s (skiptok line (fst (peek line k t))) (cmd_ok line)
      (ubnd (f (skiptok line (fst (peek line k t))) s) (\<lambda>r2 s. URet (g c (fst r2), snd r2) s))"
    using p assms(1,4) by (intro parses_bind [OF assms(3)]) (auto simp: parses_def)
  then have "parses s i (cmd_ok line) (ubnd (f (skiptok line (fst (peek line k t))) s) (\<lambda>r2 s. URet (g c (fst r2), snd r2) s))"
    by (rule parses_le) (use p assms(1) in simp)
  then show ?thesis using True by (simp add: Let_def)
next
  case False
  have "i \<le> fst (peek line k t)" using peek_le [of k line t] assms(1) by simp
  then show ?thesis using False assms(2) by (simp add: Let_def parses_def)
qed

lemma tree_exec_step:
  assumes "\<And>j. j \<ge> i \<Longrightarrow> j < length line \<Longrightarrow> parses s j (cmd_ok line) (tree_block n line j s)" "0 \<notin> set line"
  shows "parses s i (cmd_ok line) (tree_exec (Suc n) line i s)"
proof (cases "snd (peek line i (cstr ''(''))")
  case True
  let ?j = "fst (peek line i (cstr ''(''))"
  have "peek line i (cstr ''('') = (?j, True)" using True by (metis prod.collapse)
  then have "i \<le> ?j" "?j < length line" using peek_token by blast+
  then show ?thesis using True assms(1) [of ?j] parses_le by (auto simp: Let_def)
next
  case False
  let ?j = "fst (peek line i (cstr ''(''))"
  have "parses s ?j (cmd_ok line) (ubnd (tree_redirs line (EXEC []) ?j s) (\<lambda>r s. tree_args line (fst r) 0 (snd r) s))"
    by (rule parses_bind [OF tree_redirs_parses]) (auto simp: assms(2) MAXARGS_def intro!: tree_args_parses)
  then show ?thesis using False parses_le [OF _ peek_le [of i line "cstr ''(''"]] by (simp add: Let_def)
qed

lemma tree_block_step:
  assumes "\<And>j. j > i \<Longrightarrow> i < length line \<Longrightarrow> parses s j (cmd_ok line) (tree_line n line j s)" "0 \<notin> set line"
  shows "parses s i (cmd_ok line) (tree_block (Suc n) line i s)"
proof (cases "snd (peek line i (cstr ''(''))")
  case True
  note p = peek_skip [OF True]
  let ?j = "skiptok line (fst (peek line i (cstr ''('')))"
  let ?f = "\<lambda>r s. let j = fst (peek line (snd r) (cstr '')'')) in
        if \<not> snd (peek line (snd r) (cstr '')'')) then sh_panic ''syntax - missing )'' s
        else tree_redirs line (fst r) (skiptok line j) s"
  have "parses s ?j (cmd_ok line) (ubnd (tree_line n line ?j s) ?f)"
  proof (rule parses_bind [OF assms(1) [OF p]])
    fix c k assume c: "cmd_ok line c" and k: "?j \<le> k"
    show "parses s k (cmd_ok line) (?f (c, k) s)"
    proof (cases "snd (peek line k (cstr '')''))")
      case T: True
      have "parses s (skiptok line (fst (peek line k (cstr '')'')))) (\<lambda>x. cmd_ok line x \<and> core x = core c)
          (tree_redirs line c (skiptok line (fst (peek line k (cstr '')'')))) s)"
        by (rule tree_redirs_parses [OF assms(2) c])
      then have "parses s k (cmd_ok line) (tree_redirs line c (skiptok line (fst (peek line k (cstr '')'')))) s)"
        by (rule parses_mono) (use peek_skip(1) [OF T] in simp_all)
      then show ?thesis using T by (simp add: Let_def)
    qed (simp add: Let_def parses_panic)
  qed
  then have "parses s i (cmd_ok line) (ubnd (tree_line n line ?j s) ?f)" by (rule parses_le) (use p(1) in simp)
  then show ?thesis using True by (simp add: Let_def)
qed (simp add: Let_def parses_panic)

lemma parser_parses:
  assumes z: "0 \<notin> set line"
  shows "(4 * (length line - i) + 4 \<le> n \<longrightarrow> parses s i (cmd_ok line) (tree_line n line i s)) \<and>
    (4 * (length line - i) + 3 \<le> n \<longrightarrow> parses s i (cmd_ok line) (tree_pipe n line i s)) \<and>
    (4 * (length line - i) + 2 \<le> n \<longrightarrow> parses s i (cmd_ok line) (tree_exec n line i s)) \<and>
    (4 * (length line - i) + 1 \<le> n \<longrightarrow> parses s i (cmd_ok line) (tree_block n line i s))"
proof (induction n arbitrary: i)
  case (Suc n)
  note IH = Suc.IH [THEN conjunct1, rule_format] Suc.IH [THEN conjunct2, THEN conjunct1, rule_format]
    Suc.IH [THEN conjunct2, THEN conjunct2, THEN conjunct1, rule_format]
    Suc.IH [THEN conjunct2, THEN conjunct2, THEN conjunct2, rule_format]
  show ?case
  proof (intro conjI impI)
    assume n: "4 * (length line - i) + 4 \<le> Suc n"
    show "parses s i (cmd_ok line) (tree_line (Suc n) line i s)" unfolding tree_line.simps
    proof (rule parses_bind [OF IH(2)])
      fix c j assume "cmd_ok line c" "i \<le> j"
      then show "parses s j (cmd_ok line) (let r = tree_backs line (fst (c, j)) (snd (c, j)); j = fst (peek line (snd r) (cstr '';'')) in
          if snd (peek line (snd r) (cstr '';''))
          then ubnd (tree_line n line (skiptok line j) s) (\<lambda>r2 s. URet (LIST (fst r) (fst r2), snd r2) s)
          else URet (fst r, j) s)"
        using tree_backs_ok [of line c j] n unfolding Let_def [of "tree_backs _ _ _"]
        by (intro parses_sep [where f = "tree_line n line" and g = LIST] IH(1)) auto
    qed (use n in simp)
  next
    assume n: "4 * (length line - i) + 3 \<le> Suc n"
    show "parses s i (cmd_ok line) (tree_pipe (Suc n) line i s)" unfolding tree_pipe.simps
    proof (rule parses_bind [OF IH(3)])
      fix c j assume "cmd_ok line c" "i \<le> j"
      then show "parses s j (cmd_ok line) (let k = fst (peek line (snd (c, j)) (cstr ''|'')) in
          if snd (peek line (snd (c, j)) (cstr ''|''))
          then ubnd (tree_pipe n line (skiptok line k) s) (\<lambda>r2 s. URet (PIPE (fst (c, j)) (fst r2), snd r2) s)
          else URet (fst (c, j), k) s)"
        using n unfolding fst_conv snd_conv by (intro parses_sep [where f = "tree_pipe n line" and g = PIPE] IH(2)) auto
    qed (use n in simp)
  next
    assume "4 * (length line - i) + 2 \<le> Suc n"
    then show "parses s i (cmd_ok line) (tree_exec (Suc n) line i s)" by (intro tree_exec_step z IH(4)) auto
  next
    assume "4 * (length line - i) + 1 \<le> Suc n"
    then show "parses s i (cmd_ok line) (tree_block (Suc n) line i s)" by (intro tree_block_step z IH(1)) auto
  qed
qed simp

section \<open>The parser and its memory\<close>

text \<open>
  The parser of \<open>Shell\<close> computes what the parser on trees does, as long as the heap has room: for two nodes per
  character that is left on the line, and \<open>e\<close> units more.
\<close>

definition roomy :: "u8 list \<Rightarrow> nat \<Rightarrow> nat \<Rightarrow> 'a heap_state_scheme \<Rightarrow> bool" where
  "roomy line i e s \<longleftrightarrow> room (24 * (length line - i) + e) s"

lemma roomy_mono: "roomy line i e s \<Longrightarrow> i \<le> j \<Longrightarrow> e' \<le> e \<Longrightarrow> roomy line j e' s"
  unfolding roomy_def by (erule room_mono) (simp add: add_mono diff_le_mono2)

lemma roomy_next: "roomy line i e s \<Longrightarrow> i < j \<Longrightarrow> i < length line \<Longrightarrow> e' \<le> e + 24 \<Longrightarrow> roomy line j e' s"
  unfolding roomy_def by (erule room_mono) simp

definition sim :: "u8 list \<Rightarrow> nat \<Rightarrow> 'b heap_state_scheme \<Rightarrow> ('s user_state_scheme, cmd \<times> nat) uout \<Rightarrow> ('b heap_state_scheme, cmd \<times> nat) uout \<Rightarrow> bool" where
  "sim line e s rt r \<longleftrightarrow> ended rt \<and> ended r \<or> rt = UFuel \<or>
     (\<exists>c j u t. rt = URet (c, j) u \<and> r = URet (c, j) t \<and> grown_from s t \<and> roomy line j e t)"

lemma sim_panic: "sim line e s (sh_panic m u) (sh_panic m' t)"
  by (simp add: sim_def sh_panic_ended)

lemma sim_bind:
  assumes "sim line e s rt r" "\<And>c j u t. freep t \<noteq> 0 \<Longrightarrow> roomy line j e t \<Longrightarrow> sim line e' t (ft (c, j) u) (f (c, j) t)"
  shows "sim line e' s (ubnd rt ft) (ubnd r f)"
proof -
  from assms(1) consider "ended rt" "ended r" | "rt = UFuel"
    | c j u t where "rt = URet (c, j) u" "r = URet (c, j) t" "grown_from s t" "roomy line j e t" unfolding sim_def by blast
  then show ?thesis
  proof cases
    case 3
    have "freep t \<noteq> 0" using 3(3) by (simp add: grown_from_def)
    from assms(2) [OF this 3(4)] show ?thesis using 3 grown_from_trans [OF 3(3)] unfolding sim_def by fastforce
  qed (simp_all add: sim_def ended_ubnd)
qed

text \<open>A constructor, and what continues with its node.\<close>

lemma sim_node:
  assumes "roomy line i (e + 12) s" "nbytes \<le> 168" "\<And>t. freep t \<noteq> 0 \<Longrightarrow> roomy line i e t \<Longrightarrow> sim line e' t rt (f t)"
  shows "sim line e' s rt (ubnd (malloc_node nbytes s) (\<lambda>_ s. f s))"
proof -
  obtain t where t: "malloc_node nbytes s = URet () t" "room (24 * (length line - i) + (e + 12) - 12) t" "grown_from s t"
    by (rule malloc_node_room [OF assms(1) [unfolded roomy_def] assms(2)]) auto
  have "freep t \<noteq> 0" "roomy line i e t" using t(2,3) by (simp_all add: grown_from_def roomy_def)
  from assms(3) [OF this] show ?thesis using t(1) grown_from_trans [OF t(3)] unfolding sim_def by auto
qed

lemma tree_redirs_sim:
  fixes s :: "'a heap_state_scheme"
  shows "freep s \<noteq> 0 \<Longrightarrow> roomy line i e s \<Longrightarrow> sim line e s (tree_redirs line cmd i u) (parseredirs line cmd i s)"
proof (induction "length line - i" arbitrary: cmd i s rule: less_induct)
  case less
  let ?p = "peek line i (cstr ''<>'')"
  obtain tok2 q e2 i2 where g: "gettoken line (skiptok line (fst ?p)) = (tok2, q, e2, i2)" by (rule prod_cases4)
  consider "\<not> snd ?p" | "snd ?p" "tok2 \<noteq> 97" | "snd ?p" "tok2 = 97" by blast
  then show ?case
  proof cases
    case 1
    then have "sim line e s (URet (cmd, fst ?p) u) (URet (cmd, fst ?p) s)"
      using grown_from_refl [OF less.prems(1)] roomy_mono [OF less.prems(2) peek_le order_refl] by (simp add: sim_def)
    then show ?thesis using 1 by (subst tree_redirs.simps, subst parseredirs.simps) (simp add: Let_def)
  next
    case 2
    then show ?thesis using g by (subst tree_redirs.simps, subst parseredirs.simps) (simp add: Let_def sim_panic)
  next
    case 3
    note g = g [unfolded 3(2)]
    have i: "i < i2" "i < length line" using gettoken_advances [OF g] peek_skip [OF 3(1)] by auto
    have st: "sim line e t (tree_redirs line c i2 u) (parseredirs line c i2 t)" if "freep t \<noteq> 0" "roomy line i2 e t"
      for c and t :: "'a heap_state_scheme" by (rule less.hyps [OF _ that]) (use i in simp)
    have r: "roomy line i2 (e + 12) s" by (rule roomy_next [OF less.prems(2) i]) simp
    have "sim line e s (tree_redirs line c i2 u) (ubnd (malloc_node 40 s) (\<lambda>_ s. parseredirs line c i2 s))" for c
      by (rule sim_node [OF r]) (use st in simp_all)
    moreover have "sim line e s (tree_redirs line cmd i2 u) (parseredirs line cmd i2 s)"
      by (rule st [OF less.prems(1) roomy_mono [OF r order_refl]]) simp
    ultimately show ?thesis
      using 3 g by (subst tree_redirs.simps, subst parseredirs.simps) (simp add: Let_def redircmd_def ubnd_assoc)
  qed
qed

lemma tree_args_sim:
  fixes s :: "'a heap_state_scheme"
  shows "freep s \<noteq> 0 \<Longrightarrow> roomy line i e s \<Longrightarrow> sim line e s (tree_args line ret argc i u) (parse_args line ret argc i s)"
proof (induction "MAXARGS - argc" arbitrary: ret argc i s u rule: less_induct)
  case less
  let ?p = "peek line i (cstr ''|)&;'')"
  obtain tok q e2 i1 where g: "gettoken line (fst ?p) = (tok, q, e2, i1)" by (rule prod_cases4)
  have i1: "i \<le> i1" "i \<le> fst ?p" using gettoken_le [OF g] peek_le [of i line "cstr ''|)&;''"] by auto
  have ret: "sim line e s (URet (ret, j) u) (URet (ret, j) s)" if "i \<le> j" for j
    using grown_from_refl [OF less.prems(1)] roomy_mono [OF less.prems(2) that order_refl] by (simp add: sim_def)
  consider "snd ?p" | "\<not> snd ?p" "tok = 0" | "\<not> snd ?p" "tok \<noteq> 0" "tok \<noteq> 97 \<or> argc + 1 \<ge> MAXARGS"
    | "\<not> snd ?p" "tok = 97" "argc + 1 < MAXARGS" by fastforce
  then show ?case
  proof cases
    case 1
    then show ?thesis using ret [OF i1(2)] by (subst tree_args.simps, subst parse_args.simps) (simp add: Let_def)
  next
    case 2
    then show ?thesis using ret [OF i1(1)] g by (subst tree_args.simps, subst parse_args.simps) (simp add: Let_def)
  next
    case 3
    then show ?thesis using g by (subst tree_args.simps, subst parse_args.simps) (auto simp: Let_def sim_panic)
  next
    case 4
    have "sim line e s (ubnd (tree_redirs line (add_arg q e2 ret) i1 u) (\<lambda>r s. tree_args line (fst r) (argc + 1) (snd r) s))
        (ubnd (parseredirs line (add_arg q e2 ret) i1 s) (\<lambda>r s. parse_args line (fst r) (argc + 1) (snd r) s))"
      by (rule sim_bind [OF tree_redirs_sim [OF less.prems(1) roomy_mono [OF less.prems(2) i1(1) order_refl]]])
        (use less.hyps 4(3) in simp)
    then show ?thesis using 4 g by (subst tree_args.simps, subst parse_args.simps) (simp add: Let_def)
  qed
qed

lemma tree_backs_sim:
  fixes s :: "'a heap_state_scheme"
  shows "freep s \<noteq> 0 \<Longrightarrow> roomy line i e s \<Longrightarrow> sim line e s (URet (tree_backs line cmd i) u) (parse_backs line cmd i s)"
proof (induction "length line - i" arbitrary: cmd i s rule: less_induct)
  case less
  let ?p = "peek line i (cstr ''&'')"
  show ?case
  proof (cases "snd ?p")
    case True
    note p = peek_skip [OF True]
    have r: "roomy line (skiptok line (fst ?p)) (e + 12) s" by (rule roomy_next [OF less.prems(2) p]) simp
    have "sim line e s (URet (tree_backs line (BACK cmd) (skiptok line (fst ?p))) u)
        (ubnd (malloc_node 16 s) (\<lambda>_ s. parse_backs line (BACK cmd) (skiptok line (fst ?p)) s))"
      by (rule sim_node [OF r]) (use less.hyps p in simp_all)
    then show ?thesis using True by (subst tree_backs.simps, subst parse_backs.simps) (simp add: Let_def backcmd_def ubnd_assoc)
  next
    case False
    then have "sim line e s (URet (cmd, fst ?p) u) (URet (cmd, fst ?p) s)"
      using grown_from_refl [OF less.prems(1)] roomy_mono [OF less.prems(2) peek_le order_refl] by (simp add: sim_def)
    then show ?thesis using False by (subst tree_backs.simps, subst parse_backs.simps) (simp add: Let_def)
  qed
qed

text \<open>Behind a separator that was seen the right operand follows, then the node for both.\<close>

lemma sim_sep:
  assumes "freep s \<noteq> 0" "roomy line i e s" "nbytes \<le> 168"
    and "\<And>j. roomy line j (e + 24) s \<Longrightarrow> sim line (e + 12) s (ft j u) (f j s)"
  shows "sim line e s (let j = fst (peek line i t) in
      if snd (peek line i t) then ubnd (ft (skiptok line j) u) (\<lambda>r2 s. URet (g (fst r2), snd r2) s) else URet (c, j) u)
    (let j = fst (peek line i t) in
      if snd (peek line i t) then ubnd (f (skiptok line j) s) (\<lambda>r2 s. ubnd (malloc_node nbytes s) (\<lambda>_ s. URet (g (fst r2), snd r2) s))
      else URet (c, j) s)"
proof (cases "snd (peek line i t)")
  case True
  note p = peek_skip [OF True]
  let ?j = "skiptok line (fst (peek line i t))"
  have "sim line (e + 12) s (ft ?j u) (f ?j s)" by (rule assms(4)) (rule roomy_next [OF assms(2) p order_refl])
  then have "sim line e s (ubnd (ft ?j u) (\<lambda>r2 s. URet (g (fst r2), snd r2) s))
      (ubnd (f ?j s) (\<lambda>r2 s. ubnd (malloc_node nbytes s) (\<lambda>_ s. URet (g (fst r2), snd r2) s)))"
  proof (rule sim_bind)
    fix c' j' and u' :: "'c user_state_scheme" and t' :: "'a heap_state_scheme"
    assume "roomy line j' (e + 12) t'"
    then show "sim line e t' (URet (g (fst (c', j')), snd (c', j')) u') (ubnd (malloc_node nbytes t') (\<lambda>_ s. URet (g (fst (c', j')), snd (c', j')) s))"
      by (rule sim_node [OF _ assms(3)]) (simp add: sim_def grown_from_refl)
  qed
  then show ?thesis using True by (simp add: Let_def)
next
  case False
  then show ?thesis
    using grown_from_refl [OF assms(1)] roomy_mono [OF assms(2) peek_le order_refl] by (simp add: Let_def sim_def)
qed

lemma parser_sim:
  fixes s :: "'a heap_state_scheme" and u :: "'b user_state_scheme"
  shows "roomy line i (e + 12) s \<Longrightarrow>
    sim line e s (tree_line n line i u) (parseline n line i s) \<and> sim line e s (tree_pipe n line i u) (parsepipe n line i s) \<and>
    sim line e s (tree_exec n line i u) (parseexec n line i s) \<and> sim line e s (tree_block n line i u) (parseblock n line i s)"
proof (induction n arbitrary: i e s u)
  case (Suc n)
  note IH = Suc.IH [THEN conjunct1] Suc.IH [THEN conjunct2, THEN conjunct1] Suc.IH [THEN conjunct2, THEN conjunct2, THEN conjunct1]
    Suc.IH [THEN conjunct2, THEN conjunct2, THEN conjunct2]
  have n24: "(24 :: u32) \<le> 168" by simp
  have IH1: "roomy line j (e + 24) s \<Longrightarrow> sim line (e + 12) s (tree_line n line j u) (parseline n line j s)"
    "roomy line j (e + 24) s \<Longrightarrow> sim line (e + 12) s (tree_pipe n line j u) (parsepipe n line j s)"
    for j and s :: "'a heap_state_scheme" and u :: "'b user_state_scheme" using IH(1,2) [of j "e + 12" s] by (simp_all add: add.commute)
  show ?case
  proof (intro conjI)
    show "sim line e s (tree_line (Suc n) line i u) (parseline (Suc n) line i s)"
      unfolding tree_line.simps parseline.simps
    proof (rule sim_bind [OF IH(2) [OF Suc.prems]])
      fix c j and u :: "'b user_state_scheme" and t :: "'a heap_state_scheme"
      assume t: "freep t \<noteq> 0" "roomy line j e t"
      let ?ft = "\<lambda>r u. let j = fst (peek line (snd r) (cstr '';'')) in if snd (peek line (snd r) (cstr '';''))
          then ubnd (tree_line n line (skiptok line j) u) (\<lambda>r2 s. URet (LIST (fst r) (fst r2), snd r2) s) else URet (fst r, j) u"
      let ?f = "\<lambda>r s. let j = fst (peek line (snd r) (cstr '';'')) in if snd (peek line (snd r) (cstr '';''))
          then ubnd (parseline n line (skiptok line j) s) (\<lambda>r2 s. ubnd (malloc_node 24 s) (\<lambda>_ s. URet (LIST (fst r) (fst r2), snd r2) s)) else URet (fst r, j) s"
      have "sim line e t (ubnd (URet (tree_backs line c j) u) ?ft) (ubnd (parse_backs line c j t) ?f)"
        by (rule sim_bind [OF tree_backs_sim [OF t]], unfold fst_conv snd_conv, erule (1) sim_sep [OF _ _ n24 IH1(1)])
      then show "sim line e t (let r = tree_backs line (fst (c, j)) (snd (c, j)); j = fst (peek line (snd r) (cstr '';'')) in
          if snd (peek line (snd r) (cstr '';''))
          then ubnd (tree_line n line (skiptok line j) u) (\<lambda>r2 s. URet (LIST (fst r) (fst r2), snd r2) s) else URet (fst r, j) u)
        (ubnd (parse_backs line (fst (c, j)) (snd (c, j)) t) (\<lambda>r s. let j = fst (peek line (snd r) (cstr '';'')) in
          if snd (peek line (snd r) (cstr '';''))
          then ubnd (parseline n line (skiptok line j) s) (\<lambda>r2 s. ubnd (listcmd (fst r) (fst r2) s) (\<lambda>cmd s. URet (cmd, snd r2) s))
          else URet (fst r, j) s))"
        by (simp only: Let_def listcmd_def ubnd_assoc ubnd.simps fst_conv snd_conv)
    qed
  next
    show "sim line e s (tree_pipe (Suc n) line i u) (parsepipe (Suc n) line i s)"
      unfolding tree_pipe.simps parsepipe.simps pipecmd_def ubnd_assoc ubnd.simps
      by (rule sim_bind [OF IH(3) [OF Suc.prems]], unfold fst_conv snd_conv, erule (1) sim_sep [OF _ _ n24 IH1(2)])
  next
    let ?j = "fst (peek line i (cstr ''(''))"
    have j: "roomy line ?j (e + 12) s" by (rule roomy_mono [OF Suc.prems peek_le order_refl])
    have "sim line e s (ubnd (tree_redirs line (EXEC []) ?j u) (\<lambda>r s. tree_args line (fst r) 0 (snd r) s))
        (ubnd (malloc_node 168 s) (\<lambda>_ s. ubnd (parseredirs line (EXEC []) ?j s) (\<lambda>r s. parse_args line (fst r) 0 (snd r) s)))"
    proof (rule sim_node [OF j order_refl])
      fix t :: "'a heap_state_scheme"
      assume t: "freep t \<noteq> 0" "roomy line ?j e t"
      show "sim line e t (ubnd (tree_redirs line (EXEC []) ?j u) (\<lambda>r s. tree_args line (fst r) 0 (snd r) s))
        (ubnd (parseredirs line (EXEC []) ?j t) (\<lambda>r s. parse_args line (fst r) 0 (snd r) s))"
        by (rule sim_bind [OF tree_redirs_sim [OF t]]) (simp add: tree_args_sim)
    qed
    then show "sim line e s (tree_exec (Suc n) line i u) (parseexec (Suc n) line i s)"
      using IH(4) [OF j] by (simp add: Let_def execcmd_def ubnd_assoc)
  next
    show "sim line e s (tree_block (Suc n) line i u) (parseblock (Suc n) line i s)"
    proof (cases "snd (peek line i (cstr ''(''))")
      case True
      note p = peek_skip [OF True]
      have r: "roomy line (skiptok line (fst (peek line i (cstr ''('')))) (e + 12) s" by (rule roomy_next [OF Suc.prems p]) simp
      have st: "sim line e t (if \<not> snd (peek line j (cstr '')'')) then sh_panic ''syntax - missing )'' v
            else tree_redirs line c (skiptok line (fst (peek line j (cstr '')'')))) v)
          (if \<not> snd (peek line j (cstr '')'')) then sh_panic ''syntax - missing )'' t
            else parseredirs line c (skiptok line (fst (peek line j (cstr '')'')))) t)"
        if "freep t \<noteq> 0" "roomy line j e t" for c j and v :: "'b user_state_scheme" and t :: "'a heap_state_scheme"
      proof (cases "snd (peek line j (cstr '')''))")
        case True
        have "roomy line (skiptok line (fst (peek line j (cstr '')'')))) e t"
          by (rule roomy_mono [OF that(2) _ order_refl]) (use peek_skip(1) [OF True] in simp)
        then show ?thesis using True tree_redirs_sim [OF that(1)] by simp
      qed (simp add: sim_panic)
      have nn: "\<not> \<not> snd (peek line i (cstr ''(''))" using True by simp
      show ?thesis unfolding tree_block.simps parseblock.simps Let_def if_not_P [OF nn]
        by (rule sim_bind [OF IH(1) [OF r]], unfold fst_conv snd_conv, erule (1) st)
    qed (simp add: Let_def sim_panic)
  qed
qed (simp add: sim_def)

text \<open>Whatever the heap is: a command that is returned is the one the parser on trees returns.\<close>

lemma parseredirs_tree: "parseredirs line cmd i s = URet (c, j) t \<Longrightarrow> tree_redirs line cmd i u = URet (c, j) u"
proof (induction "length line - i" arbitrary: cmd i s rule: less_induct)
  case less
  let ?p = "peek line i (cstr ''<>'')"
  obtain tok2 q e i2 where g: "gettoken line (skiptok line (fst ?p)) = (tok2, q, e, i2)" by (rule prod_cases4)
  consider "\<not> snd ?p" | "snd ?p" "tok2 \<noteq> 97" | "snd ?p" "tok2 = 97" by blast
  then show ?case
  proof cases
    case 1
    then show ?thesis using less.prems by (subst tree_redirs.simps, subst (asm) parseredirs.simps) (simp add: Let_def)
  next
    case 2
    then show ?thesis using less.prems g by (subst (asm) parseredirs.simps) (simp add: Let_def sh_panic_no_return)
  next
    case 3
    note g = g [unfolded 3(2)]
    have i: "length line - i2 < length line - i" using gettoken_advances [OF g] peek_skip [OF 3(1)] by auto
    let ?t = "fst (gettoken line (fst ?p))"
    let ?c = "if ?t = 60 then REDIR cmd q e uO_RDONLY 0 else if ?t = 62 then REDIR cmd q e (uO_WRONLY OR uO_CREATE OR uO_TRUNC) 1
      else if ?t = 43 then REDIR cmd q e (uO_WRONLY OR uO_CREATE) 1 else cmd"
    have "\<exists>s'. parseredirs line ?c i2 s' = URet (c, j) t"
      using less.prems 3 g by (subst (asm) parseredirs.simps) (auto simp: Let_def redircmd_def ubnd_URet_iff split: if_splits)
    then have "tree_redirs line ?c i2 u = URet (c, j) u" using less.hyps [OF i] by blast
    then show ?thesis using 3 g by (subst tree_redirs.simps) (simp add: Let_def)
  qed
qed

lemma parse_args_tree: "parse_args line ret argc i s = URet (c, j) t \<Longrightarrow> tree_args line ret argc i u = URet (c, j) u"
proof (induction "MAXARGS - argc" arbitrary: ret argc i s rule: less_induct)
  case less
  let ?p = "peek line i (cstr ''|)&;'')"
  obtain tok q e i1 where g: "gettoken line (fst ?p) = (tok, q, e, i1)" by (rule prod_cases4)
  consider "snd ?p \<or> tok = 0" | "\<not> snd ?p" "tok \<noteq> 0" "tok \<noteq> 97 \<or> argc + 1 \<ge> MAXARGS" | "\<not> snd ?p" "tok = 97" "argc + 1 < MAXARGS"
    by fastforce
  then show ?case
  proof cases
    case 1
    then show ?thesis using less.prems g by (subst tree_args.simps, subst (asm) parse_args.simps) (auto simp: Let_def)
  next
    case 2
    then show ?thesis using less.prems g by (subst (asm) parse_args.simps) (auto simp: Let_def sh_panic_no_return split: if_splits)
  next
    case 3
    then obtain c' j' s' where a: "parseredirs line (add_arg q e ret) i1 s = URet (c', j') s'" "parse_args line c' (argc + 1) j' s' = URet (c, j) t"
      using less.prems g by (subst (asm) parse_args.simps) (auto simp: Let_def ubnd_URet_iff)
    have "tree_args line c' (argc + 1) j' u = URet (c, j) u" by (rule less.hyps [OF _ a(2)]) (use 3(3) in simp)
    then show ?thesis using parseredirs_tree [OF a(1), of u] 3 g by (subst tree_args.simps) (simp add: Let_def)
  qed
qed

lemma parse_backs_tree: "parse_backs line cmd i s = URet r t \<Longrightarrow> tree_backs line cmd i = r"
proof (induction "length line - i" arbitrary: cmd i s rule: less_induct)
  case less
  let ?p = "peek line i (cstr ''&'')"
  show ?case
  proof (cases "snd ?p")
    case True
    then have "\<exists>s'. parse_backs line (BACK cmd) (skiptok line (fst ?p)) s' = URet r t"
      using less.prems by (subst (asm) parse_backs.simps) (auto simp: Let_def backcmd_def ubnd_URet_iff)
    then have "tree_backs line (BACK cmd) (skiptok line (fst ?p)) = r" using less.hyps [OF diff_less_mono2 [OF peek_skip [OF True]]] by blast
    then show ?thesis using True by (subst tree_backs.simps) (simp add: Let_def)
  next
    case False
    then show ?thesis using less.prems by (subst tree_backs.simps, subst (asm) parse_backs.simps) (simp add: Let_def)
  qed
qed

lemma parser_tree:
  "(parseline n line i s = URet (c, j) t \<longrightarrow> tree_line n line i u = URet (c, j) u) \<and>
   (parsepipe n line i s = URet (c, j) t \<longrightarrow> tree_pipe n line i u = URet (c, j) u) \<and>
   (parseexec n line i s = URet (c, j) t \<longrightarrow> tree_exec n line i u = URet (c, j) u) \<and>
   (parseblock n line i s = URet (c, j) t \<longrightarrow> tree_block n line i u = URet (c, j) u)"
proof (induction n arbitrary: i s c j t)
  case (Suc n)
  note IH = Suc.IH [THEN conjunct1, rule_format] Suc.IH [THEN conjunct2, THEN conjunct1, rule_format]
    Suc.IH [THEN conjunct2, THEN conjunct2, THEN conjunct1, rule_format]
    Suc.IH [THEN conjunct2, THEN conjunct2, THEN conjunct2, rule_format]
  show ?case
  proof (intro conjI impI)
    assume "parseline (Suc n) line i s = URet (c, j) t"
    then obtain c1 j1 s1 c2 j2 s2 where a: "parsepipe n line i s = URet (c1, j1) s1" "parse_backs line c1 j1 s1 = URet (c2, j2) s2"
      "(let j = fst (peek line j2 (cstr '';'')) in if snd (peek line j2 (cstr '';''))
        then ubnd (parseline n line (skiptok line j) s2) (\<lambda>r2 s. ubnd (listcmd c2 (fst r2) s) (\<lambda>cmd s. URet (cmd, snd r2) s))
        else URet (c2, j) s2) = URet (c, j) t" unfolding parseline.simps ubnd_URet_iff split_paired_Ex fst_conv snd_conv by blast
    then show "tree_line (Suc n) line i u = URet (c, j) u"
      using IH(2) [OF a(1)] parse_backs_tree [OF a(2)] by (auto simp: ubnd_URet_iff Let_def listcmd_def dest: IH(1) split: if_splits)
  next
    assume "parsepipe (Suc n) line i s = URet (c, j) t"
    then show "tree_pipe (Suc n) line i u = URet (c, j) u"
      by (auto simp: ubnd_URet_iff Let_def pipecmd_def dest!: IH(2) IH(3) split: if_splits)
  next
    assume "parseexec (Suc n) line i s = URet (c, j) t"
    then show "tree_exec (Suc n) line i u = URet (c, j) u"
      by (auto simp: ubnd_URet_iff Let_def execcmd_def dest!: IH(4) parseredirs_tree [where u = u] parse_args_tree [where u = u] split: if_splits)
  next
    assume "parseblock (Suc n) line i s = URet (c, j) t"
    then show "tree_block (Suc n) line i u = URet (c, j) u"
      by (auto simp: ubnd_URet_iff Let_def sh_panic_no_return dest!: IH(1) parseredirs_tree [where u = u] split: if_splits)
  qed
qed simp

text \<open>Without memory the first node is a store through a null pointer: no message comes before it.\<close>

lemma parser_faults:
  assumes "freep s = 0" "base s \<noteq> 0" "replies s = (-1, x) # rs"
  shows "(4 * (length line - i) + 4 \<le> n \<longrightarrow> parseline n line i s = UFault) \<and>
    (4 * (length line - i) + 3 \<le> n \<longrightarrow> parsepipe n line i s = UFault) \<and>
    (4 * (length line - i) + 2 \<le> n \<longrightarrow> parseexec n line i s = UFault) \<and>
    (4 * (length line - i) + 1 \<le> n \<longrightarrow> snd (peek line i (cstr ''('')) \<longrightarrow> parseblock n line i s = UFault)"
proof (induction n arbitrary: i)
  case (Suc n)
  note IH = Suc.IH [THEN conjunct1, rule_format] Suc.IH [THEN conjunct2, THEN conjunct1, rule_format]
    Suc.IH [THEN conjunct2, THEN conjunct2, THEN conjunct1, rule_format]
    Suc.IH [THEN conjunct2, THEN conjunct2, THEN conjunct2, rule_format]
  let ?j = "fst (peek line i (cstr ''(''))"
  have e: "parseexec (Suc n) line i s = UFault" if "4 * (length line - i) + 2 \<le> Suc n"
  proof (cases "snd (peek line i (cstr ''(''))")
    case True
    have "skip_white line ?j = ?j"
      using skip_white_stops [of line i] True char_at_less [of line ?j] by (subst skip_white.simps) (auto simp: peek_def Let_def)
    then have "snd (peek line ?j (cstr ''(''))" using True by (simp add: peek_def Let_def)
    then show ?thesis using True IH(4) [of ?j] that peek_le [of i line "cstr ''(''"] by (simp add: Let_def)
  qed (use malloc_node_fails [OF assms] in \<open>simp add: Let_def execcmd_def\<close>)
  have b: "parseblock (Suc n) line i s = UFault" if "4 * (length line - i) + 1 \<le> Suc n" "snd (peek line i (cstr ''(''))"
    using IH(1) [of "skiptok line ?j"] peek_skip [OF that(2)] that by (simp add: Let_def)
  show ?case using IH(2,3) [of i] e b by auto
qed simp

section \<open>\<open>parsecmd\<close> ends, with a command or with a message\<close>

lemma leftovers_text:
  "text_of (cstr (''leftovers: %s'' @ [CHR 10])) [VStr (Some w)] = Some (cstr ''leftovers: '' @ cstring w @ [10])"
  by (simp add: text_of.simps cstr_def vprintf_conv_def deref_def Let_def)

lemma leftovers_ended:
  "ended (ubnd (u_fprintf 2 (''leftovers: %s'' @ [CHR 10]) [VStr (Some w)] s) (\<lambda>_ s. sh_panic ''syntax'' s))"
  using u_puts_cases [of 2 "cstr ''leftovers: '' @ cstring w @ [10]" s] sh_panic_ended
  by (auto simp: u_fprintf_text [OF leftovers_text, simplified] ended_def [of "UWait _"])

text \<open>With room for the nodes, \<open>parsecmd\<close> returns where the parser on trees does, and ends with a message otherwise.\<close>

lemma parsecmd_room:
  fixes s :: "'a heap_state_scheme" and u :: user_state
  assumes "room (24 * length (cstring buf) + 12) s"
  shows "(\<exists>c t. tree_cmd buf u = URet (c, nulterminate c buf) u \<and> parsecmd buf s = URet (c, nulterminate c buf) t \<and> grown_from s t) \<or>
    ended (tree_cmd buf u) \<and> ended (parsecmd buf s)"
proof -
  let ?line = "cstring buf" and ?n = "4 * length (cstring buf) + 4"
  have p: "parses u 0 (cmd_ok ?line) (tree_line ?n ?line 0 u)" using parser_parses [of ?line 0 ?n u] by simp
  have "roomy ?line 0 (0 + 12) s" using assms by (simp add: roomy_def)
  then have "sim ?line 0 s (tree_line ?n ?line 0 u) (parseline ?n ?line 0 s)" using parser_sim [of ?line 0 0 s ?n u] by blast
  then consider "ended (tree_line ?n ?line 0 u)" "ended (parseline ?n ?line 0 s)" | "tree_line ?n ?line 0 u = UFuel"
    | c j v t where "tree_line ?n ?line 0 u = URet (c, j) v" "parseline ?n ?line 0 s = URet (c, j) t" "grown_from s t" unfolding sim_def by blast
  then show ?thesis
  proof cases
    case 1
    then show ?thesis by (auto simp: parsecmd_def tree_cmd_def Let_def ended_ubnd)
  next
    case 2
    then show ?thesis using p by (auto simp: parses_def ended_def)
  next
    case 3
    then have "v = u" using p by (auto simp: parses_def ended_def)
    then show ?thesis using 3
      by (cases "fst (peek ?line j []) = length ?line") (auto simp: parsecmd_def tree_cmd_def Let_def leftovers_ended [simplified])
  qed
qed

text \<open>
  C33: \<open>parsecmd\<close> ends on every line the shell can read (its buffer has 100 bytes), in a process that has not used its
  heap.  It calls \<open>sbrk\<close> once, for 65536 bytes, which is enough for the nodes of any such line.  If that call fails, the
  first constructor writes through the null pointer \<open>malloc\<close> returned.  Otherwise \<open>parsecmd\<close> returns a command and the
  buffer with its strings terminated, having made no other call; or the process exits with status 1 after a message
  on file descriptor 2, or is still in one of the writes of that message, for which there is no reply.  The recursion never gets deeper than
  \<open>4 * strlen(s) + 4\<close> calls.
\<close>

theorem parsecmd_ends:
  assumes "freep s = 0" "base s \<noteq> 0" "length (cstring buf) < 100" "replies s = (p, x) # rs"
    and "p \<noteq> -1 \<Longrightarrow> unat (base s) + 16 \<le> unat p \<and> unat p + 65536 \<le> 2 ^ 36"
  shows "if p = -1 then parsecmd buf s = UFault
    else (\<exists>c t. parsecmd buf s = URet (c, nulterminate c buf) t \<and> calls t = calls s @ [U_sbrk 65536] \<and> replies t = rs) \<or>
      (\<exists>t ws. parsecmd buf s = UExit 1 t \<and> calls t = ws @ [U_write 2 [10]]) \<or>
      (\<exists>t ws c. parsecmd buf s = UWait t \<and> calls t = ws @ [U_write 2 [c]] \<and> replies t = [])"
proof (cases "p = -1")
  case True
  then have "parseline (4 * length (cstring buf) + 4) (cstring buf) 0 s = UFault"
    using parser_faults [of s x rs "cstring buf" 0 "4 * length (cstring buf) + 4"] assms(1,2,4) by simp
  then show ?thesis using True by (simp add: parsecmd_def Let_def)
next
  case False
  then have "unused s" using assms(1,2,4,5) by (simp add: unused_def)
  then have "room (24 * length (cstring buf) + 12) s" using assms(3) by (simp add: room_def)
  then show ?thesis
    using parsecmd_room [of buf s "\<lparr>replies = [], calls = []\<rparr>"] False assms(1,4) by (auto simp: ended_def grown_from_def)
qed

section \<open>The strings of a command\<close>

primrec tokens :: "cmd \<Rightarrow> (nat \<times> nat) list" where
  "tokens (EXEC av) = av"
| "tokens (REDIR c q e mode fd) = (q, e) # tokens c"
| "tokens (PIPE l r) = tokens l @ tokens r"
| "tokens (LIST l r) = tokens l @ tokens r"
| "tokens (BACK c) = tokens c"

lemma cmd_ok_tokens: "cmd_ok line c \<Longrightarrow> (q, e) \<in> set (tokens c) \<Longrightarrow> tok_ok line q e"
  by (induction c) auto

lemma nth_fold_NUL:
  "k < length buf \<Longrightarrow> fold (\<lambda>(q, e) buf. buf[e := 0]) av buf ! k = (if k \<in> snd ` set av then (0::u8) else buf ! k)"
proof (induction av arbitrary: buf)
  case (Cons a av)
  then show ?case by (cases a; cases "k \<in> snd ` set av") (simp_all add: nth_list_update)
qed simp

lemma length_fold_NUL [simp]: "length (fold (\<lambda>(q, e) buf. buf[e := (0::u8)]) av buf) = length buf"
  by (induction av arbitrary: buf) auto

lemma length_nulterminate [simp]: "length (nulterminate c buf) = length buf"
  by (induction c arbitrary: buf) auto

lemma nth_nulterminate:
  "k < length buf \<Longrightarrow> nulterminate c buf ! k = (if k \<in> snd ` set (tokens c) then 0 else buf ! k)"
proof (induction c arbitrary: buf)
  case (REDIR c q e mode fd)
  then show ?case by (cases "k = e") simp_all
next
  case (PIPE l r)
  then show ?case by (simp add: image_Un)
next
  case (LIST l r)
  then show ?case by (simp add: image_Un)
qed (simp_all add: nth_fold_NUL)

lemma cstring_prefix:
  assumes "k < length (cstring buf)"
  shows "cstring buf ! k = buf ! k" "k < length buf"
  using assms takeWhile_nth length_takeWhile_le [of "\<lambda>c. c \<noteq> 0" buf] unfolding cstring_def by auto

lemma str_at_token:
  assumes ok: "cmd_ok (cstring buf) c" and n: "length (cstring buf) < length buf" and t: "(q, e) \<in> set (tokens c)"
  shows "str_at (nulterminate c buf) q = take (e - q) (drop q buf)"
proof -
  let ?b = "nulterminate c buf" and ?w = "take (e - q) (drop q buf)"
  note te = cmd_ok_tokens [OF ok t, unfolded tok_ok_def]
  have e: "q < e" "e < length buf" using te n by auto
  have w: "word_char (buf ! k)" if "q \<le> k" "k < e" for k
    using te that cstring_prefix(1) [of k buf] by auto
  have ends: "k \<notin> snd ` set (tokens c)" if k: "q \<le> k" "k < e" for k
  proof
    assume "k \<in> snd ` set (tokens c)"
    then obtain q' where "(q', k) \<in> set (tokens c)" by auto
    from cmd_ok_tokens [OF ok this] have "k < length (cstring buf) \<longrightarrow> \<not> word_char (cstring buf ! k)" by (simp add: tok_ok_def)
    moreover have "k < length (cstring buf)" using te k by auto
    ultimately show False using te k by auto
  qed
  have "take (e - q) (drop q ?b) = ?w"
    by (rule nth_equalityI) (use e ends in \<open>auto simp: nth_nulterminate\<close>)
  moreover have "drop e ?b = 0 # drop (e + 1) ?b"
    using e t by (force simp: Cons_nth_drop_Suc [symmetric] nth_nulterminate)
  moreover have "drop q ?b = take (e - q) (drop q ?b) @ drop e ?b"
    using e by (metis append_take_drop_id drop_drop le_add_diff_inverse2 less_imp_le)
  moreover have "0 \<notin> set ?w" using w e by (auto simp: in_set_conv_nth word_char_def)
  ultimately show ?thesis unfolding str_at_def by (metis cstring_append_NUL)
qed

text \<open>
  C34: A command that \<open>parsecmd\<close> returns is well formed: fewer than \<open>MAXARGS\<close> arguments, redirections of
  descriptor 0 for reading or 1 for writing, and every argument and file name is a non-empty word of the line that no
  blank or symbol interrupts. In the buffer it returns, the string at the start of each is exactly that word.
\<close>

theorem parsecmd_well_formed:
  assumes "parsecmd buf s = URet (c, buf') t" "length (cstring buf) < length buf"
  shows "cmd_ok (cstring buf) c \<and> (\<forall>(q, e) \<in> set (tokens c). str_at buf' q = take (e - q) (drop q buf))"
proof -
  let ?line = "cstring buf" and ?n = "4 * length (cstring buf) + 4" and ?u = "\<lparr>replies = [], calls = []\<rparr> :: user_state"
  from assms(1) obtain c' j t' where c: "parseline ?n ?line 0 s = URet (c', j) t'" by (auto simp: parsecmd_def Let_def ubnd_URet_iff)
  then have t: "tree_line ?n ?line 0 ?u = URet (c', j) ?u" using parser_tree [of ?n ?line 0 s c' j t' ?u] by blast
  have "parses ?u 0 (cmd_ok ?line) (tree_line ?n ?line 0 ?u)" using parser_parses [of ?line 0 ?n ?u] by simp
  then have ok: "cmd_ok ?line c'" using t by (auto simp: parses_def ended_def)
  have "c' = c \<and> buf' = nulterminate c buf"
    using assms(1) c by (cases "fst (peek ?line j []) = length ?line") (auto simp: parsecmd_def Let_def ubnd_URet_iff sh_panic_no_return)
  then show ?thesis using ok str_at_token [OF _ assms(2)] by auto
qed

section \<open>Witnesses\<close>

lemma demo_parse:
  "case parsecmd (cstr ''ls >f'' @ [0]) demo_heap of
     URet r t \<Rightarrow> r = (REDIR (EXEC [(0, 2)]) 4 5 (uO_WRONLY OR uO_CREATE OR uO_TRUNC) 1, cstr ''ls'' @ [0] @ cstr ''>f'' @ [0])
   | _ \<Rightarrow> False"
  by code_simp

theorem parsecmd_ends_witness:
  "\<exists>c t. parsecmd (cstr ''ls >f'' @ [0]) demo_heap = URet (c, nulterminate c (cstr ''ls >f'' @ [0])) t \<and> calls t = [U_sbrk 65536]"
proof -
  have "length (cstring (cstr ''ls >f'' @ [0])) < 100" by code_simp
  moreover have "replies demo_heap = (0x4000, []) # []" "freep demo_heap = 0" "base demo_heap = 0x3000" "calls demo_heap = []"
    by (simp_all add: demo_heap_def)
  ultimately show ?thesis using parsecmd_ends [of demo_heap "cstr ''ls >f'' @ [0]" "0x4000" "[]" "[]"] demo_parse by (auto split: uout.splits)
qed

theorem parsecmd_well_formed_witness:
  "cmd_ok (cstr ''ls >f'') (REDIR (EXEC [(0, 2)]) 4 5 (uO_WRONLY OR uO_CREATE OR uO_TRUNC) 1) \<and>
   str_at (cstr ''ls'' @ [0] @ cstr ''>f'' @ [0]) 0 = cstr ''ls'' \<and> str_at (cstr ''ls'' @ [0] @ cstr ''>f'' @ [0]) 4 = cstr ''f''"
proof -
  obtain t where p: "parsecmd (cstr ''ls >f'' @ [0]) demo_heap =
    URet (REDIR (EXEC [(0, 2)]) 4 5 (uO_WRONLY OR uO_CREATE OR uO_TRUNC) 1, cstr ''ls'' @ [0] @ cstr ''>f'' @ [0]) t"
    using demo_parse by (auto split: uout.splits)
  have l: "length (cstring (cstr ''ls >f'' @ [0])) < length (cstr ''ls >f'' @ [0])" by code_simp
  from parsecmd_well_formed [OF p l] show ?thesis by (simp add: cstr_def cstring_def)
qed

end
