(* ===== verification/ShellPrint.thy ===== *)
theory ShellPrint
  imports ShellParse
begin

text \<open>
  Commands as trees of strings, their text on a line, and that the parser of the shell reads every such
  text back: the grammar the functions of \<open>sh.c\<close> implement.
\<close>

section \<open>Commands with their strings\<close>

datatype redir = From | Onto | Append

datatype scmd = SExec "u8 list list" | SRedir scmd "u8 list" redir | SPipe scmd scmd | SList scmd scmd | SBack scmd

definition redir_of :: "i32 \<Rightarrow> redir" where
  "redir_of mode = (if mode = uO_RDONLY then From else if mode = (uO_WRONLY OR uO_CREATE OR uO_TRUNC) then Onto else Append)"

primrec strings :: "u8 list \<Rightarrow> cmd \<Rightarrow> scmd" where
  "strings line (EXEC av) = SExec (map (\<lambda>(q, e). take (e - q) (drop q line)) av)"
| "strings line (REDIR c q e mode fd) = SRedir (strings line c) (take (e - q) (drop q line)) (redir_of mode)"
| "strings line (PIPE l r) = SPipe (strings line l) (strings line r)"
| "strings line (LIST l r) = SList (strings line l) (strings line r)"
| "strings line (BACK c) = SBack (strings line c)"

text \<open>The text of a command: words end with a blank, and what is not a simple command stands in parentheses.\<close>

primrec redir_text :: "redir \<Rightarrow> u8 list" where
  "redir_text From = [60]"
| "redir_text Onto = [62]"
| "redir_text Append = [62, 62]"

primrec simple :: "scmd \<Rightarrow> bool" where
  "simple (SExec ws) = True"
| "simple (SRedir c f m) = True"
| "simple (SPipe l r) = False"
| "simple (SList l r) = False"
| "simple (SBack c) = False"

definition paren :: "scmd \<Rightarrow> u8 list \<Rightarrow> u8 list" where
  "paren c p = (if simple c then p else 40 # p @ [41])"

primrec cmd_text :: "scmd \<Rightarrow> u8 list" where
  "cmd_text (SExec ws) = concat (map (\<lambda>w. w @ [32]) ws)"
| "cmd_text (SRedir c f m) = paren c (cmd_text c) @ redir_text m @ f @ [32]"
| "cmd_text (SPipe l r) = paren l (cmd_text l) @ 124 # paren r (cmd_text r)"
| "cmd_text (SList l r) = paren l (cmd_text l) @ 59 # paren r (cmd_text r)"
| "cmd_text (SBack c) = paren c (cmd_text c) @ [38]"

definition word_ok :: "u8 list \<Rightarrow> bool" where
  "word_ok w \<longleftrightarrow> w \<noteq> [] \<and> (\<forall>c \<in> set w. word_char c)"

primrec scmd_ok :: "scmd \<Rightarrow> bool" where
  "scmd_ok (SExec ws) \<longleftrightarrow> length ws < MAXARGS \<and> (\<forall>w \<in> set ws. word_ok w)"
| "scmd_ok (SRedir c f m) \<longleftrightarrow> scmd_ok c \<and> word_ok f"
| "scmd_ok (SPipe l r) \<longleftrightarrow> scmd_ok l \<and> scmd_ok r"
| "scmd_ok (SList l r) \<longleftrightarrow> scmd_ok l \<and> scmd_ok r"
| "scmd_ok (SBack c) \<longleftrightarrow> scmd_ok c"

section \<open>Tokens at a position\<close>

text \<open>What follows position \<open>i\<close> does not start with a blank.\<close>

definition inked :: "u8 list \<Rightarrow> bool" where
  "inked xs \<longleftrightarrow> xs = [] \<or> hd xs \<noteq> 0 \<and> hd xs \<notin> set whitespace"

lemma char_at_drop: "drop i line = xs \<Longrightarrow> char_at line i = deref xs"
  by (simp add: char_at_def)

lemma skip_white_inked: "drop i line = xs \<Longrightarrow> inked xs \<Longrightarrow> skip_white line i = i"
  by (subst skip_white.simps) (auto simp: char_at_def inked_def strchr_sets deref_def hd_drop_conv_nth split: list.splits)

lemma drop_Cons_next: "drop i line = x # xs \<Longrightarrow> drop (Suc i) line = xs \<and> i < length line"
  by (metis drop_eq_Nil2 drop_Suc list.sel(3) not_le_imp_less list.distinct(1) tl_drop)

lemma drop_append_next: "drop i line = xs @ ys \<Longrightarrow> drop (i + length xs) line = ys"
  by (metis add.commute append_eq_conv_conj drop_drop)

lemma skip_white_blank:
  assumes "drop i line = 32 # xs" "inked xs"
  shows "skip_white line i = i + 1"
  using drop_Cons_next [OF assms(1)] skip_white_inked [of "Suc i" line xs] assms
  by (subst skip_white.simps) (simp add: char_at_def deref_def strchr_sets, simp add: whitespace_def)

lemma skip_word_word:
  assumes "drop i line = w @ 32 # xs" "\<forall>c \<in> set w. word_char c"
  shows "skip_word line i = i + length w"
  using assms
proof (induction w arbitrary: i)
  case Nil
  then show ?case by (subst skip_word.simps) (simp add: char_at_def deref_def strchr_sets, simp add: whitespace_def)
next
  case (Cons c w)
  then have "drop (Suc i) line = w @ 32 # xs" "i < length line" using drop_Cons_next [of i line c "w @ 32 # xs"] by auto
  then show ?case using Cons by (subst skip_word.simps) (simp add: char_at_def deref_def strchr_sets word_char_def)
qed

lemma word_char_inked: "w \<noteq> [] \<Longrightarrow> word_char (hd w) \<Longrightarrow> inked (w @ xs)"
  by (cases w) (auto simp: inked_def word_char_def)

lemma word_char_symbols: "word_char c \<Longrightarrow> c \<notin> {0, 124, 40, 41, 59, 38, 60, 62}"
  by (auto simp: word_char_def symbols_def cstr_def)

lemma gettoken_at_word:
  assumes "drop i line = w @ 32 # xs" "word_ok w" "inked xs"
  shows "gettoken line i = (97, i, i + length w, i + length w + 1)"
proof -
  have w: "w \<noteq> []" "word_char (hd w)" "\<forall>c \<in> set w. word_char c" using assms(2) by (auto simp: word_ok_def)
  have "skip_white line i = i" by (rule skip_white_inked [OF assms(1)]) (rule word_char_inked [OF w(1,2)])
  moreover have "char_at line i = hd w" using assms(1) w(1) by (cases w) (simp_all add: char_at_def deref_def)
  moreover have "skip_white line (i + length w) = i + length w + 1"
    by (rule skip_white_blank [OF drop_append_next [OF assms(1)] assms(3)])
  ultimately show ?thesis using word_char_symbols [OF w(2)] skip_word_word [OF assms(1) w(3)]
    by (simp add: gettoken_def Let_def)
qed

lemma gettoken_at_symbol:
  assumes "drop i line = c # xs" "c \<in> {124, 40, 41, 59, 38, 60}" "inked xs"
  shows "gettoken line i = (c, i, i + 1, i + 1)" "skiptok line i = i + 1"
proof -
  have "inked (c # xs)" using assms(2) by (auto simp: inked_def whitespace_def)
  then have "skip_white line i = i" by (rule skip_white_inked [OF assms(1)])
  moreover have "skip_white line (i + 1) = i + 1" using drop_Cons_next [OF assms(1)] assms(3) by (intro skip_white_inked) auto
  ultimately show "gettoken line i = (c, i, i + 1, i + 1)"
    using assms(2) by (auto simp: gettoken_def Let_def char_at_drop [OF assms(1)] deref_def)
  then show "skiptok line i = i + 1" by (simp add: skiptok_def)
qed

lemma gettoken_at_redir:
  assumes "drop i line = redir_text m @ f @ xs" "word_char (hd f)" "f \<noteq> []"
  shows "fst (gettoken line i) = (case m of From \<Rightarrow> 60 | Onto \<Rightarrow> 62 | Append \<Rightarrow> 43)"
    "skiptok line i = i + length (redir_text m)"
proof -
  have f: "inked (f @ xs)" by (rule word_char_inked [OF assms(3,2)])
  have "inked (redir_text m @ f @ xs)" by (cases m) (simp_all add: inked_def whitespace_def)
  then have w: "skip_white line i = i" by (rule skip_white_inked [OF assms(1)])
  have e: "skip_white line (i + length (redir_text m)) = i + length (redir_text m)"
    by (rule skip_white_inked [OF drop_append_next [OF assms(1)] f])
  have c: "char_at line i = hd (redir_text m)" using assms(1) by (cases m) (simp_all add: char_at_def deref_def)
  have d: "char_at line (Suc i) = (if m = Append then 62 else hd f)" if "m \<noteq> From"
    using assms(1,3) drop_Cons_next [of i line] that by (cases m; cases f) (auto simp: char_at_def deref_def)
  have "hd f \<noteq> 62" using word_char_symbols [OF assms(2)] by simp
  then have g: "gettoken line i = (case m of From \<Rightarrow> 60 | Onto \<Rightarrow> 62 | Append \<Rightarrow> 43, i, i + length (redir_text m), i + length (redir_text m))"
    using w e c d by (cases m) (simp_all add: gettoken_def Let_def)
  then show "fst (gettoken line i) = (case m of From \<Rightarrow> 60 | Onto \<Rightarrow> 62 | Append \<Rightarrow> 43)" by simp
  show "skiptok line i = i + length (redir_text m)" using g by (simp add: skiptok_def)
qed

lemma peek_at:
  assumes "drop i line = xs" "inked xs"
  shows "fst (peek line i toks) = i" "snd (peek line i toks) \<longleftrightarrow> xs \<noteq> [] \<and> hd xs \<in> set (cstring toks)"
  using skip_white_inked [OF assms] assms(2)
  by (auto simp: peek_def Let_def char_at_drop [OF assms(1)] u_strchr_None inked_def deref_def split: list.splits)

section \<open>Steps of the parser\<close>

text \<open>The rest of \<open>tree_exec\<close> once a command with \<open>argc\<close> arguments is read, and the rest of \<open>tree_block\<close>.\<close>

definition rest_of :: "u8 list \<Rightarrow> nat option \<Rightarrow> cmd \<Rightarrow> nat \<Rightarrow> 'a user_state_scheme \<Rightarrow> ('a user_state_scheme, cmd \<times> nat) uout" where
  "rest_of line k c i s =
     (case k of None \<Rightarrow> tree_redirs line c i s
      | Some argc \<Rightarrow> ubnd (tree_redirs line c i s) (\<lambda>r s. tree_args line (fst r) argc (snd r) s))"

definition follows :: "u8 list \<Rightarrow> bool" where
  "follows xs \<longleftrightarrow> xs = [] \<or> hd xs \<in> {60, 62, 124, 41, 38, 59}"

definition stops :: "u8 list \<Rightarrow> bool" where
  "stops xs \<longleftrightarrow> xs = [] \<or> hd xs \<in> {124, 41, 38, 59}"

lemma follows_inked: "follows xs \<Longrightarrow> inked xs"
  by (auto simp: follows_def inked_def whitespace_def)

lemma stops_follows: "stops xs \<Longrightarrow> follows xs"
  by (auto simp: follows_def stops_def)

lemma cstring_lits [simp]:
  "cstring (cstr ''<>'') = [60, 62]" "cstring (cstr ''|)&;'') = [124, 41, 38, 59]" "cstring (cstr ''('') = [40]"
  "cstring (cstr '')'') = [41]" "cstring (cstr '';'') = [59]" "cstring (cstr ''|'') = [124]" "cstring (cstr ''&'') = [38]"
  "cstring [] = []"
  by (simp_all add: cstring_def cstr_def)

lemma tree_redirs_none:
  assumes "drop i line = xs" "inked xs" "xs = [] \<or> hd xs \<notin> {60, 62}"
  shows "tree_redirs line c i s = URet (c, i) s"
  using peek_at [OF assms(1,2), of "cstr ''<>''"] assms(3) by (subst tree_redirs.simps) (auto simp: Let_def)

lemma rest_of_stops:
  assumes "drop i line = xs" "stops xs"
  shows "rest_of line k c i s = URet (c, i) s"
proof -
  note "in" = follows_inked [OF stops_follows [OF assms(2)]]
  have "tree_redirs line c i s = URet (c, i) s"
    by (rule tree_redirs_none [OF assms(1) "in"]) (use assms(2) in \<open>auto simp: stops_def\<close>)
  moreover have "tree_args line c argc i s = URet (c, i) s" for argc
  proof (cases "xs = []")
    case True
    then have "gettoken line i = (0, i, i, i)"
      using skip_white_inked [OF assms(1) "in"] char_at_drop [OF assms(1)] by (simp add: gettoken_def Let_def deref_def)
    then show ?thesis using peek_at [OF assms(1) "in", of "cstr ''|)&;''"] True by (subst tree_args.simps) (simp add: Let_def)
  next
    case False
    then show ?thesis using peek_at [OF assms(1) "in", of "cstr ''|)&;''"] assms(2) by (subst tree_args.simps) (simp add: Let_def stops_def)
  qed
  ultimately show ?thesis by (simp add: rest_of_def split: option.split)
qed

lemma rest_of_word:
  assumes "drop i line = w @ 32 # xs" "word_ok w" "inked xs" "argc + 1 < MAXARGS"
  shows "rest_of line (Some argc) c i s = rest_of line (Some (argc + 1)) (add_arg i (i + length w) c) (i + length w + 1) s"
proof -
  have w: "w \<noteq> []" "word_char (hd w)" using assms(2) by (auto simp: word_ok_def)
  have ink: "inked (w @ 32 # xs)" by (rule word_char_inked [OF w])
  note s = word_char_symbols [OF w(2)]
  have "tree_redirs line c i s = URet (c, i) s" by (rule tree_redirs_none [OF assms(1) ink]) (use s w in simp)
  moreover have "\<not> snd (peek line i (cstr ''|)&;''))" "fst (peek line i (cstr ''|)&;'')) = i"
    using peek_at [OF assms(1) ink, of "cstr ''|)&;''"] s w by simp_all
  ultimately show ?thesis using gettoken_at_word [OF assms(1-3)] assms(4)
    unfolding rest_of_def by (simp, subst tree_args.simps) (simp add: Let_def)
qed

definition redir_mode :: "redir \<Rightarrow> i32" where
  "redir_mode m = (case m of From \<Rightarrow> uO_RDONLY | Onto \<Rightarrow> uO_WRONLY OR uO_CREATE OR uO_TRUNC | Append \<Rightarrow> uO_WRONLY OR uO_CREATE)"

lemma redir_of_mode [simp]: "redir_of (redir_mode m) = m"
  by (cases m) (simp_all add: redir_of_def redir_mode_def uO_RDONLY_def uO_WRONLY_def uO_CREATE_def uO_TRUNC_def)

lemma rest_of_redir:
  assumes "drop i line = redir_text m @ f @ 32 # xs" "word_ok f" "inked xs"
  shows "\<exists>q e fd. rest_of line k c i s = rest_of line k (REDIR c q e (redir_mode m) fd) (i + length (redir_text m @ f) + 1) s \<and>
    take (e - q) (drop q line) = f"
proof -
  have f: "f \<noteq> []" "word_char (hd f)" using assms(2) by (auto simp: word_ok_def)
  note g = gettoken_at_redir [OF assms(1) f(2,1)]
  let ?j = "i + length (redir_text m)"
  have j: "drop ?j line = f @ 32 # xs" by (rule drop_append_next [OF assms(1)])
  have ink: "inked (redir_text m @ f @ 32 # xs)" by (cases m) (simp_all add: inked_def whitespace_def)
  have "snd (peek line i (cstr ''<>''))" "fst (peek line i (cstr ''<>'')) = i"
    using peek_at [OF assms(1) ink, of "cstr ''<>''"] by (cases m; simp)+
  then have "tree_redirs line c i s = tree_redirs line (REDIR c ?j (?j + length f) (redir_mode m) (if m = From then 0 else 1)) (?j + length f + 1) s"
    using g gettoken_at_word [OF j assms(2,3)] by (subst tree_redirs.simps, cases m) (simp_all add: Let_def redir_mode_def)
  moreover have "take (?j + length f - ?j) (drop ?j line) = f" using j by simp
  ultimately show ?thesis
    by (intro exI [of _ ?j] exI [of _ "?j + length f"] exI [of _ "if m = From then 0 else 1"])
      (simp add: rest_of_def add.assoc split: option.split)
qed

text \<open>The words of a simple command.\<close>

lemma strings_add_arg:
  "strings line c = SExec ws \<Longrightarrow> strings line (add_arg q e c) = SExec (ws @ [take (e - q) (drop q line)])"
  by (cases c) auto

lemma rest_of_words:
  assumes "drop i line = concat (map (\<lambda>w. w @ [32]) ws) @ xs" "\<forall>w \<in> set ws. word_ok w" "inked xs" "argc + length ws < MAXARGS"
    "strings line c = SExec vs"
  shows "\<exists>c'. strings line c' = SExec (vs @ ws) \<and>
    rest_of line (Some argc) c i s = rest_of line (Some (argc + length ws)) c' (i + length (concat (map (\<lambda>w. w @ [32]) ws))) s"
  using assms
proof (induction ws arbitrary: i argc c vs)
  case (Cons w ws)
  let ?t = "concat (map (\<lambda>w. w @ [32]) ws) @ xs"
  have d: "drop i line = w @ 32 # ?t" using Cons.prems(1) by simp
  have t: "inked ?t" using Cons.prems(2,3) word_char_inked by (cases ws) (auto simp: word_ok_def)
  have n: "drop (i + length w + 1) line = ?t"
    using drop_append_next [of i line "w @ [32]" ?t] d by simp
  have v: "strings line (add_arg i (i + length w) c) = SExec (vs @ [w])"
    using strings_add_arg [OF Cons.prems(5), of i "i + length w"] d by simp
  obtain c' where "strings line c' = SExec ((vs @ [w]) @ ws)"
      "rest_of line (Some (argc + 1)) (add_arg i (i + length w) c) (i + length w + 1) s =
       rest_of line (Some (argc + 1 + length ws)) c' (i + length w + 1 + length (concat (map (\<lambda>w. w @ [32]) ws))) s"
    using Cons.IH [OF n _ Cons.prems(3) _ v, of "argc + 1"] Cons.prems(2,4) by auto
  moreover have "rest_of line (Some argc) c i s = rest_of line (Some (argc + 1)) (add_arg i (i + length w) c) (i + length w + 1) s"
    using Cons.prems(2,4) by (intro rest_of_word [OF d _ t]) auto
  ultimately show ?case by (intro exI [of _ c']) (simp add: ac_simps)
qed auto

section \<open>Reading a text back\<close>

primrec arg_count :: "scmd \<Rightarrow> nat option" where
  "arg_count (SExec ws) = Some (length ws)"
| "arg_count (SRedir c f m) = arg_count c"
| "arg_count (SPipe l r) = None"
| "arg_count (SList l r) = None"
| "arg_count (SBack c) = None"

abbreviation atom_text :: "scmd \<Rightarrow> u8 list" where
  "atom_text c \<equiv> paren c (cmd_text c)"

lemma redir_follows: "follows (redir_text m @ xs)"
  by (cases m) (simp_all add: follows_def)

lemma atom_text_inked:
  "scmd_ok c \<Longrightarrow> follows rest \<Longrightarrow> inked (atom_text c @ rest) \<and> ((atom_text c @ rest \<noteq> [] \<and> hd (atom_text c @ rest) = 40) = (arg_count c = None))"
proof (induction c arbitrary: rest)
  case (SExec ws)
  show ?case
  proof (cases ws)
    case Nil
    then have "atom_text (SExec ws) @ rest = rest" by (simp add: paren_def)
    moreover have "rest = [] \<or> hd rest \<noteq> 40" using SExec.prems(2) by (auto simp: follows_def)
    ultimately show ?thesis using follows_inked [OF SExec.prems(2)] by auto
  next
    case (Cons w ws')
    then have w: "w \<noteq> []" "word_char (hd w)" using SExec.prems by (auto simp: word_ok_def)
    then show ?thesis using Cons word_char_symbols [OF w(2)] word_char_inked [OF w] by (simp add: paren_def)
  qed
next
  case (SRedir c f m)
  have t: "atom_text (SRedir c f m) @ rest = atom_text c @ redir_text m @ f @ 32 # rest" by (simp add: paren_def [of "SRedir _ _ _"])
  have "scmd_ok c" using SRedir.prems by simp
  from SRedir.IH [OF this redir_follows] show ?case unfolding t arg_count.simps .
qed (simp_all add: paren_def inked_def whitespace_def)

lemma cmd_text_inked: "scmd_ok c \<Longrightarrow> follows rest \<Longrightarrow> inked (cmd_text c @ rest)"
  using atom_text_inked [of _ "_ # _"] atom_text_inked [of c rest] by (cases c) (simp_all add: paren_def [of "SRedir _ _ _"] paren_def [of "SExec _"] follows_def)

text \<open>\<open>tree_exec\<close> reads the text of a command in parentheses where needed, up to what may follow it.\<close>

definition reads :: "u8 list \<Rightarrow> 'a user_state_scheme \<Rightarrow> scmd \<Rightarrow> bool" where
  "reads line s sc \<longleftrightarrow>
     (\<forall>i n rest. drop i line = atom_text sc @ rest \<longrightarrow> follows rest \<longrightarrow> 4 * (length line - i) + 2 \<le> n \<longrightarrow>
       (\<exists>c. strings line c = sc \<and> tree_exec n line i s = rest_of line (arg_count sc) c (i + length (atom_text sc)) s))"

lemma reads_exec:
  assumes "reads line s sc" "drop i line = atom_text sc @ rest" "stops rest" "4 * (length line - i) + 2 \<le> n"
  shows "\<exists>c. strings line c = sc \<and> tree_exec n line i s = URet (c, i + length (atom_text sc)) s"
  using assms rest_of_stops [OF drop_append_next [OF assms(2)] assms(3)] stops_follows [OF assms(3)]
  unfolding reads_def by metis

lemma reads_pipe:
  assumes "reads line s sc" "drop i line = atom_text sc @ rest" "stops rest" "rest \<noteq> [] \<Longrightarrow> hd rest \<noteq> 124"
    "4 * (length line - i) + 3 \<le> n"
  shows "\<exists>c. strings line c = sc \<and> tree_pipe n line i s = URet (c, i + length (atom_text sc)) s"
proof -
  obtain m where m: "n = Suc m" "4 * (length line - i) + 2 \<le> m" using assms(5) by (cases n) auto
  obtain c where c: "strings line c = sc" "tree_exec m line i s = URet (c, i + length (atom_text sc)) s"
    using reads_exec [OF assms(1-3) m(2)] by blast
  show ?thesis
    using c m(1) assms(4) peek_at [OF drop_append_next [OF assms(2)] follows_inked [OF stops_follows [OF assms(3)]], of "cstr ''|''"]
    by (auto simp: Let_def)
qed

text \<open>A whole line: a command at the end, or before a closing parenthesis.\<close>

definition closes :: "u8 list \<Rightarrow> bool" where
  "closes rest \<longleftrightarrow> rest = [] \<or> hd rest = 41"

lemma closes_stops: "closes rest \<Longrightarrow> stops rest"
  by (auto simp: closes_def stops_def)

lemma closes_peek:
  assumes "drop i line = rest" "closes rest"
  shows "peek line i (cstr '';'') = (i, False)" "peek line i (cstr ''&'') = (i, False)" "peek line i (cstr ''|'') = (i, False)"
    "peek line i (cstr '')'') = (i, rest \<noteq> [])" "peek line i [] = (i, False)"
  using peek_at [OF assms(1) follows_inked [OF stops_follows [OF closes_stops [OF assms(2)]]]] assms(2)
  by (auto simp: prod_eq_iff closes_def)

lemma tree_line_pipe:
  assumes "tree_pipe n line i s = URet (c, j) s" "drop j line = rest" "closes rest"
  shows "tree_line (Suc n) line i s = URet (c, j) s"
proof -
  have "tree_backs line c j = (c, j)" by (subst tree_backs.simps) (simp add: closes_peek [OF assms(2,3)])
  then show ?thesis using assms(1) by (simp add: Let_def closes_peek [OF assms(2,3)])
qed

lemma reads_line:
  assumes "reads line s sc" "drop i line = atom_text sc @ rest" "closes rest" "4 * (length line - i) + 4 \<le> n"
  shows "\<exists>c. strings line c = sc \<and> tree_line n line i s = URet (c, i + length (atom_text sc)) s"
proof -
  obtain m where m: "n = Suc m" "4 * (length line - i) + 3 \<le> m" using assms(4) by (cases n) auto
  obtain c where c: "strings line c = sc" "tree_pipe m line i s = URet (c, i + length (atom_text sc)) s"
    using reads_pipe [OF assms(1,2) closes_stops [OF assms(3)] _ m(2)] assms(3) by (auto simp: closes_def)
  from tree_line_pipe [OF c(2) drop_append_next [OF assms(2)] assms(3)] show ?thesis using c(1) m(1) by blast
qed

lemma peek_symbol:
  assumes "drop i line = c # xs" "c \<in> {124, 40, 41, 59, 38}" "inked xs"
  shows "fst (peek line i toks) = i" "snd (peek line i toks) \<longleftrightarrow> c \<in> set (cstring toks)" "skiptok line i = i + 1"
    "drop (i + 1) line = xs" "4 * (length line - (i + 1)) + 4 \<le> 4 * (length line - i)"
proof -
  have "inked (c # xs)" using assms(2) by (auto simp: inked_def whitespace_def)
  from peek_at [OF assms(1) this] show "fst (peek line i toks) = i" "snd (peek line i toks) \<longleftrightarrow> c \<in> set (cstring toks)" by simp_all
  show "skiptok line i = i + 1" by (rule gettoken_at_symbol(2) [OF assms(1) _ assms(3)]) (use assms(2) in auto)
  show "drop (i + 1) line = xs" "4 * (length line - (i + 1)) + 4 \<le> 4 * (length line - i)" using drop_Cons_next [OF assms(1)] by auto
qed

lemma line_SPipe:
  assumes "reads line s l" "reads line s r" "drop i line = cmd_text (SPipe l r) @ rest" "closes rest" "scmd_ok r"
    "4 * (length line - i) + 4 \<le> n"
  shows "\<exists>c. strings line c = SPipe l r \<and> tree_line n line i s = URet (c, i + length (cmd_text (SPipe l r))) s"
proof -
  obtain m where m: "n = Suc (Suc m)" "4 * (length line - i) + 2 \<le> m" using that [of "n - 2"] assms(6) by simp
  let ?j = "i + length (atom_text l)"
  have d: "drop i line = atom_text l @ 124 # atom_text r @ rest" using assms(3) by simp
  note f = stops_follows [OF closes_stops [OF assms(4)]]
  have "(124 :: u8) \<in> {124, 40, 41, 59, 38}" by simp
  note p = peek_symbol [OF drop_append_next [OF d] this conjunct1 [OF atom_text_inked [OF assms(5) f]]]
  obtain c1 where c1: "strings line c1 = l" "tree_exec m line i s = URet (c1, ?j) s"
    using reads_exec [OF assms(1) d _ m(2)] by (auto simp: stops_def)
  have "4 * (length line - (?j + 1)) + 3 \<le> m" using p(5) m(2) by linarith
  then obtain c2 where c2: "strings line c2 = r" "tree_pipe m line (?j + 1) s = URet (c2, ?j + 1 + length (atom_text r)) s"
    using reads_pipe [OF assms(2) p(4) closes_stops [OF assms(4)], of m] assms(4) by (auto simp: closes_def)
  have "tree_pipe (Suc m) line i s = URet (PIPE c1 c2, ?j + 1 + length (atom_text r)) s"
    using c1(2) c2(2) p by (simp add: Let_def)
  from tree_line_pipe [OF this drop_append_next [OF p(4)] assms(4)]
  show ?thesis using c1(1) c2(1) m(1) by (intro exI [of _ "PIPE c1 c2"]) (simp add: add.assoc)
qed

lemma line_SList:
  assumes "reads line s l" "reads line s r" "drop i line = cmd_text (SList l r) @ rest" "closes rest" "scmd_ok r"
    "4 * (length line - i) + 4 \<le> n"
  shows "\<exists>c. strings line c = SList l r \<and> tree_line n line i s = URet (c, i + length (cmd_text (SList l r))) s"
proof -
  obtain m where m: "n = Suc m" "4 * (length line - i) + 3 \<le> m" using that [of "n - 1"] assms(6) by simp
  let ?j = "i + length (atom_text l)"
  have d: "drop i line = atom_text l @ 59 # atom_text r @ rest" using assms(3) by simp
  note f = stops_follows [OF closes_stops [OF assms(4)]]
  have "(59 :: u8) \<in> {124, 40, 41, 59, 38}" by simp
  note p = peek_symbol [OF drop_append_next [OF d] this conjunct1 [OF atom_text_inked [OF assms(5) f]]]
  obtain c1 where c1: "strings line c1 = l" "tree_pipe m line i s = URet (c1, ?j) s"
    using reads_pipe [OF assms(1) d _ _ m(2)] by (auto simp: stops_def)
  have "4 * (length line - (?j + 1)) + 4 \<le> m" using p(5) m(2) by linarith
  then obtain c2 where c2: "strings line c2 = r" "tree_line m line (?j + 1) s = URet (c2, ?j + 1 + length (atom_text r)) s"
    using reads_line [OF assms(2) p(4) assms(4), of m] by blast
  have "tree_backs line c1 ?j = (c1, ?j)" by (subst tree_backs.simps) (simp add: Let_def p(1,2))
  then have "tree_line (Suc m) line i s = URet (LIST c1 c2, ?j + 1 + length (atom_text r)) s"
    using c1(2) c2(2) p(1-3) by (simp add: Let_def)
  then show ?thesis using c1(1) c2(1) m(1) by (intro exI [of _ "LIST c1 c2"]) (simp add: add.assoc)
qed

lemma line_SBack:
  assumes "reads line s c0" "drop i line = cmd_text (SBack c0) @ rest" "closes rest" "4 * (length line - i) + 4 \<le> n"
  shows "\<exists>c. strings line c = SBack c0 \<and> tree_line n line i s = URet (c, i + length (cmd_text (SBack c0))) s"
proof -
  obtain m where m: "n = Suc m" "4 * (length line - i) + 3 \<le> m" using that [of "n - 1"] assms(4) by simp
  let ?j = "i + length (atom_text c0)"
  have d: "drop i line = atom_text c0 @ 38 # rest" using assms(2) by simp
  have "(38 :: u8) \<in> {124, 40, 41, 59, 38}" by simp
  note p = peek_symbol [OF drop_append_next [OF d] this follows_inked [OF stops_follows [OF closes_stops [OF assms(3)]]]]
  note q = closes_peek [OF p(4) assms(3)]
  obtain c where c: "strings line c = c0" "tree_pipe m line i s = URet (c, ?j) s"
    using reads_pipe [OF assms(1) d _ _ m(2)] by (auto simp: stops_def)
  have "tree_backs line (BACK c) (?j + 1) = (BACK c, ?j + 1)" using q by (subst tree_backs.simps) simp
  then have "tree_backs line c ?j = (BACK c, ?j + 1)" by (subst tree_backs.simps) (simp add: Let_def p(1-3))
  then have "tree_line (Suc m) line i s = URet (BACK c, ?j + 1) s"
    using c(2) q by (simp add: Let_def)
  then show ?thesis using c(1) m(1) by (intro exI [of _ "BACK c"]) (simp add: add.assoc)
qed

text \<open>A command in parentheses.\<close>

lemma reads_paren:
  assumes n: "\<not> simple sc" "arg_count sc = None" "scmd_ok sc"
    and l: "\<And>i n rest. drop i line = cmd_text sc @ rest \<Longrightarrow> closes rest \<Longrightarrow> 4 * (length line - i) + 4 \<le> n \<Longrightarrow>
      \<exists>c. strings line c = sc \<and> tree_line n line i s = URet (c, i + length (cmd_text sc)) s"
  shows "reads line s sc"
  unfolding reads_def
proof (intro allI impI)
  fix i k rest
  assume d: "drop i line = atom_text sc @ rest" and f: "follows rest" and k: "4 * (length line - i) + 2 \<le> k"
  obtain m where m: "k = Suc (Suc m)" "4 * (length line - i) \<le> m" using that [of "k - 2"] k by simp
  have d: "drop i line = 40 # cmd_text sc @ 41 # rest" using d n(1) by (simp add: paren_def)
  have f': "follows (41 # rest)" by (simp add: follows_def)
  have "(40 :: u8) \<in> {124, 40, 41, 59, 38}" by simp
  note p = peek_symbol [OF d this cmd_text_inked [OF n(3) f']]
  let ?j = "i + 1 + length (cmd_text sc)"
  have m': "4 * (length line - (i + 1)) + 4 \<le> m" using p(5) m(2) by linarith
  have "closes (41 # rest)" by (simp add: closes_def)
  then obtain c where c: "strings line c = sc" "tree_line m line (i + 1) s = URet (c, ?j) s"
    using l [OF p(4) _ m'] by blast
  have "(41 :: u8) \<in> {124, 40, 41, 59, 38}" by simp
  note q = peek_symbol [OF drop_append_next [OF p(4)] this follows_inked [OF f]]
  have "tree_block (Suc m) line i s = tree_redirs line c (?j + 1) s" using c(2) p(1-3) q(1-3) by (simp add: Let_def)
  then have "tree_exec k line i s = tree_redirs line c (?j + 1) s" using m(1) p(1,2) by (simp add: Let_def)
  moreover have "i + length (atom_text sc) = ?j + 1" using n(1) by (simp add: paren_def)
  ultimately show "\<exists>c. strings line c = sc \<and> tree_exec k line i s = rest_of line (arg_count sc) c (i + length (atom_text sc)) s"
    using c(1) n(2) by (intro exI [of _ c]) (simp add: rest_of_def)
qed

lemma reads_simple:
  assumes "\<And>i n rest. drop i line = cmd_text sc @ rest \<Longrightarrow> follows rest \<Longrightarrow> 4 * (length line - i) + 2 \<le> n \<Longrightarrow>
      \<exists>c. strings line c = sc \<and> tree_exec n line i s = rest_of line (arg_count sc) c (i + length (cmd_text sc)) s" "simple sc"
  shows "reads line s sc"
  using assms unfolding reads_def paren_def by simp

lemma reads_text: "scmd_ok sc \<Longrightarrow> reads line s sc"
proof (induction sc)
  case (SExec ws)
  show ?case
  proof (rule reads_simple)
    fix i k rest
    assume d: "drop i line = cmd_text (SExec ws) @ rest" and f: "follows rest" and k: "4 * (length line - i) + 2 \<le> k"
    obtain m where m: "k = Suc m" using k by (cases k) auto
    have t: "inked (cmd_text (SExec ws) @ rest)" by (rule cmd_text_inked [OF SExec f])
    have "fst (peek line i (cstr ''('')) = i" "\<not> snd (peek line i (cstr ''(''))"
      using peek_at [OF d t, of "cstr ''(''"] atom_text_inked [OF SExec f] by (auto simp: paren_def)
    then have "tree_exec k line i s = rest_of line (Some 0) (EXEC []) i s" using m by (simp add: Let_def rest_of_def)
    then show "\<exists>c. strings line c = SExec ws \<and>
        tree_exec k line i s = rest_of line (arg_count (SExec ws)) c (i + length (cmd_text (SExec ws))) s"
      using rest_of_words [of i line ws rest 0 "EXEC []" "[]" s] d SExec follows_inked [OF f] by auto
  qed simp
next
  case (SRedir c0 f m)
  show ?case
  proof (rule reads_simple)
    fix i k rest
    assume d: "drop i line = cmd_text (SRedir c0 f m) @ rest" and fo: "follows rest" and k: "4 * (length line - i) + 2 \<le> k"
    have d: "drop i line = atom_text c0 @ redir_text m @ f @ 32 # rest" using d by simp
    obtain c where c: "strings line c = c0" "tree_exec k line i s = rest_of line (arg_count c0) c (i + length (atom_text c0)) s"
      using SRedir.IH SRedir.prems d redir_follows k unfolding reads_def by (metis scmd_ok.simps(2))
    obtain q e fd where q: "rest_of line (arg_count c0) c (i + length (atom_text c0)) s =
        rest_of line (arg_count c0) (REDIR c q e (redir_mode m) fd) (i + length (atom_text c0) + length (redir_text m @ f) + 1) s"
        "take (e - q) (drop q line) = f"
      using rest_of_redir [OF drop_append_next [OF d] _ follows_inked [OF fo]] SRedir.prems by (metis scmd_ok.simps(2))
    show "\<exists>c. strings line c = SRedir c0 f m \<and>
        tree_exec k line i s = rest_of line (arg_count (SRedir c0 f m)) c (i + length (cmd_text (SRedir c0 f m))) s"
      using c q by (intro exI [of _ "REDIR c q e (redir_mode m) fd"]) (simp add: add.assoc)
  qed simp
next
  case (SPipe l r)
  then show ?case by (intro reads_paren) (simp_all add: line_SPipe del: cmd_text.simps)
next
  case (SList l r)
  then show ?case by (intro reads_paren) (simp_all add: line_SList del: cmd_text.simps)
next
  case (SBack c)
  then show ?case by (intro reads_paren) (simp_all add: line_SBack del: cmd_text.simps)
qed

lemma line_text:
  assumes "scmd_ok sc" "drop i line = cmd_text sc @ rest" "closes rest" "4 * (length line - i) + 4 \<le> n"
  shows "\<exists>c. strings line c = sc \<and> tree_line n line i s = URet (c, i + length (cmd_text sc)) s"
proof (cases "simple sc")
  case True
  then show ?thesis using reads_line [OF reads_text [OF assms(1)] _ assms(3,4)] assms(2) by (simp add: paren_def)
next
  case False
  show ?thesis
  proof (cases sc)
    case (SPipe l r)
    then show ?thesis using assms by (simp add: line_SPipe reads_text del: cmd_text.simps)
  next
    case (SList l r)
    then show ?thesis using assms by (simp add: line_SList reads_text del: cmd_text.simps)
  next
    case (SBack c)
    then show ?thesis using assms by (simp add: line_SBack reads_text del: cmd_text.simps)
  qed (use False in simp_all)
qed

text \<open>
  C35: The parser reads back every command that is written out: for the text of a command (words end with a
  blank, redirections stand behind the command, operands that are not simple stand in parentheses), \<open>parsecmd\<close>
  returns a command whose strings and structure are exactly those of the text, without a message and with no system
  call but the \<open>sbrk\<close> of a heap that was unused.  The heap has room for two nodes per character of the text; an
  unused one has it for every line the shell can read.
\<close>

theorem parsecmd_reads_text:
  assumes "scmd_ok sc" "cstring buf = cmd_text sc" "room (24 * length (cstring buf) + 12) s"
  shows "\<exists>c t. parsecmd buf s = URet (c, nulterminate c buf) t \<and> strings (cstring buf) c = sc \<and>
    calls t = calls s @ (if freep s = 0 then [U_sbrk 65536] else [])"
proof -
  let ?line = "cstring buf" and ?u = "\<lparr>replies = [], calls = []\<rparr> :: user_state"
  have d: "drop 0 ?line = cmd_text sc @ []" using assms(2) by simp
  have z: "closes []" by (simp add: closes_def)
  obtain c where c: "strings ?line c = sc" "tree_line (4 * length ?line + 4) ?line 0 ?u = URet (c, length ?line) ?u"
    using line_text [OF assms(1) d z, of "4 * length ?line + 4" ?u] assms(2) by auto
  have "peek ?line (length ?line) [] = (length ?line, False)" by (rule closes_peek(5) [OF _ z]) simp
  then have "tree_cmd buf ?u = URet (c, nulterminate c buf) ?u" using c(2) by (simp add: tree_cmd_def Let_def)
  then show ?thesis using parsecmd_room [OF assms(3), of ?u] c(1) by (auto simp: ended_def grown_from_def)
qed

theorem parsecmd_reads_text_witness:
  "\<exists>c t. parsecmd (cstr ''(cat a |wc >>b );(ls &)'' @ [0]) demo_heap =
      URet (c, nulterminate c (cstr ''(cat a |wc >>b );(ls &)'' @ [0])) t \<and>
    strings (cstring (cstr ''(cat a |wc >>b );(ls &)'' @ [0])) c =
      SList (SPipe (SExec [cstr ''cat'', cstr ''a'']) (SRedir (SExec [cstr ''wc'']) (cstr ''b'') Append)) (SBack (SExec [cstr ''ls''])) \<and>
    calls t = [U_sbrk 65536]"
proof -
  let ?buf = "cstr ''(cat a |wc >>b );(ls &)'' @ [0]"
  let ?sc = "SList (SPipe (SExec [cstr ''cat'', cstr ''a'']) (SRedir (SExec [cstr ''wc'']) (cstr ''b'') Append)) (SBack (SExec [cstr ''ls'']))"
  have ok: "scmd_ok ?sc" "cstring ?buf = cmd_text ?sc" by code_simp+
  have "24 * length (cstring ?buf) + 12 < 4096" by code_simp
  then have "room (24 * length (cstring ?buf) + 12) demo_heap" by (simp add: room_def unused_def demo_heap_def)
  from parsecmd_reads_text [OF ok this] show ?thesis by (simp add: demo_heap_def)
qed

end
