(* ===== verification/Utils.thy ===== *)
theory Utils
  imports Shell
begin

text \<open>
  The small user programs: \<open>cat\<close>, \<open>echo\<close>, \<open>wc\<close>, \<open>kill\<close>, \<open>ln\<close>, \<open>mkdir\<close>, \<open>rm\<close>, \<open>ls\<close>, \<open>init\<close>, \<open>setpolicy\<close>, \<open>top\<close>,
  \<open>zombie\<close>, \<open>forktest\<close> and \<open>stressfs\<close>. Each \<open>main\<close> takes the strings \<open>argv[0]\<close> to \<open>argv[argc-1]\<close>. A line
  that a program prints ends with the character 10, written at the end of its format.
\<close>

section \<open>Printing uses up replies\<close>

definition no_more :: "('a user_state_scheme, 'b) uout \<Rightarrow> 'a user_state_scheme \<Rightarrow> bool" where
  "no_more r s \<longleftrightarrow> (\<forall>a t. r = URet a t \<longrightarrow> length (replies t) \<le> length (replies s))"

lemma no_more_ubnd: "no_more r s \<Longrightarrow> (\<And>a t. no_more (f a t) t) \<Longrightarrow> no_more (ubnd r f) s"
  by (fastforce simp: no_more_def ubnd_URet_iff)

lemma no_more_simps [simp]: "no_more (URet a s) s" "no_more UFault s" "no_more (uexit v t) s"
  by (simp_all add: no_more_def uexit_def)

lemma no_more_icall [simp]: "no_more (icall c s) s"
  using icall_replies by (fastforce simp: no_more_def)

lemma no_more_putc [simp]: "no_more (u_putc fd c s) s"
  by (simp add: u_putc_def no_more_ubnd)

lemma no_more_puts [simp]: "no_more (u_puts fd cs s) s"
  by (induction cs arbitrary: s) (simp_all add: no_more_ubnd)

lemma no_more_printptr [simp]: "no_more (u_printptr fd x s) s"
proof -
  have "no_more (u_printptr_loop k fd x s) s" for k x and s :: "'a user_state_scheme"
    by (induction k arbitrary: x s) (simp_all add: no_more_ubnd)
  then show ?thesis by (simp add: u_printptr_def no_more_ubnd)
qed

lemma no_more_printint [simp]: "no_more (u_printint fd x b sign s) s"
  by (simp add: u_printint_def Let_def)

lemma no_more_vprintf: "no_more (vprintf_loop fd fmt pct ap s) s"
proof (induction "length fmt" arbitrary: fmt pct ap s rule: less_induct)
  case less
  show ?case
  proof (cases fmt)
    case (Cons c0 f)
    have IH: "no_more (vprintf_loop fd (drop k f) pct ap t) t" for k pct ap and t :: "'a user_state_scheme"
      using less.hyps [of "drop k f"] Cons by simp
    note IH0 = IH [of 0, simplified]
    show ?thesis unfolding Cons
      by (subst vprintf_loop.simps) (auto split: conv.split option.split list.split va.split simp: IH0 intro!: no_more_ubnd IH)
  qed (simp add: vprintf_loop.simps)
qed

lemma u_printf_replies: "u_printf fmt ap s = URet () t \<Longrightarrow> length (replies t) \<le> length (replies s)"
  using no_more_vprintf by (fastforce simp: no_more_def u_printf_def vprintf_def)

lemma u_stat_replies: "u_stat n s = URet r t \<Longrightarrow> length (replies t) < length (replies s)"
  by (fastforce simp: u_stat_def ubnd_URet_iff split: if_splits dest: icall_replies dcall_replies)

section \<open>\<open>cat.c\<close>\<close>

function cat_loop :: "i32 \<Rightarrow> u8 list \<Rightarrow> 'a user_state_scheme \<Rightarrow> ('a user_state_scheme, u8 list) uout" where
  "cat_loop fd buf s =
     ubnd (dcall (U_read fd 512) s) (\<lambda>r s.
     let n = fst r; buf = store_bytes 0 (snd r) buf in
     if 0 <s n then
       if unat n > 512 then UFault
       else ubnd (icall (U_write 1 (take (unat n) buf)) s) (\<lambda>w s.
            if w \<noteq> n then ubnd (u_fprintf 2 (''cat: write error'' @ [CHR 10]) [] s) (\<lambda>_ s. uexit 1 s)
            else cat_loop fd buf s)
     else if n <s 0 then ubnd (u_fprintf 2 (''cat: read error'' @ [CHR 10]) [] s) (\<lambda>_ s. uexit 1 s)
     else URet buf s)"
  by pat_completeness auto
termination
  by (relation "measure (\<lambda>(fd, buf, s). length (replies s))") (auto dest!: dcall_replies icall_replies)

declare cat_loop.simps [simp del]

primrec cat_files :: "u8 list list \<Rightarrow> u8 list \<Rightarrow> 'a user_state_scheme \<Rightarrow> ('a user_state_scheme, i32) uout" where
  "cat_files [] buf s = uexit 0 s"
| "cat_files (f # fs) buf s =
     ubnd (icall (U_open (cstring f) uO_RDONLY) s) (\<lambda>fd s.
     if fd <s 0 then ubnd (u_fprintf 2 (''cat: cannot open %s'' @ [CHR 10]) [VStr (Some f)] s) (\<lambda>_ s. uexit 1 s)
     else ubnd (cat_loop fd buf s) (\<lambda>buf s. ubnd (icall (U_close fd) s) (\<lambda>_ s. cat_files fs buf s)))"

definition cat_main :: "u8 list list \<Rightarrow> 'a user_state_scheme \<Rightarrow> ('a user_state_scheme, i32) uout" where
  "cat_main argv s =
     (if length argv \<le> 1 then ubnd (cat_loop 0 (replicate 512 0) s) (\<lambda>_ s. uexit 0 s)
      else cat_files (tl argv) (replicate 512 0) s)"

section \<open>\<open>echo.c\<close>\<close>

fun echo_args :: "u8 list list \<Rightarrow> 'a user_state_scheme \<Rightarrow> ('a user_state_scheme, i32) uout" where
  "echo_args [] s = uexit 0 s"
| "echo_args (a # as) s =
     ubnd (icall (U_write 1 (take (u_strlen a) a)) s) (\<lambda>_ s.
     ubnd (icall (U_write 1 (if as \<noteq> [] then [32] else [10])) s) (\<lambda>_ s. echo_args as s))"

definition echo_main :: "u8 list list \<Rightarrow> 'a user_state_scheme \<Rightarrow> ('a user_state_scheme, i32) uout" where
  "echo_main argv s = echo_args (tl argv) s"

section \<open>\<open>wc.c\<close>\<close>

text \<open>The counts of lines, words and characters, and \<open>inword\<close>.\<close>

type_synonym counts = "i32 \<times> i32 \<times> i32 \<times> bool"

definition wc_byte :: "u8 \<Rightarrow> counts \<Rightarrow> counts" where
  "wc_byte b = (\<lambda>(l, w, c, inword).
     let c = c + 1; l = (if b = 10 then l + 1 else l) in
     if u_strchr [32, 13, 9, 10, 11] b \<noteq> None then (l, w, c, False)
     else if \<not> inword then (l, w + 1, c, True) else (l, w, c, inword))"

function wc_loop :: "i32 \<Rightarrow> u8 list \<Rightarrow> counts \<Rightarrow> 'a user_state_scheme \<Rightarrow> ('a user_state_scheme, i32 \<times> u8 list \<times> counts) uout" where
  "wc_loop fd buf k s =
     ubnd (dcall (U_read fd 512) s) (\<lambda>r s.
     let n = fst r; buf = store_bytes 0 (snd r) buf in
     if 0 <s n then
       if unat n > 512 then UFault else wc_loop fd buf (fold wc_byte (take (unat n) buf) k) s
     else URet (n, buf, k) s)"
  by pat_completeness auto
termination
  by (relation "measure (\<lambda>(fd, buf, k, s). length (replies s))") (auto dest!: dcall_replies)

declare wc_loop.simps [simp del]

definition wc :: "i32 \<Rightarrow> u8 list \<Rightarrow> u8 list \<Rightarrow> 'a user_state_scheme \<Rightarrow> ('a user_state_scheme, u8 list) uout" where
  "wc fd name buf s =
     ubnd (wc_loop fd buf (0, 0, 0, False) s) (\<lambda>(n, buf, l, w, c, inword) s.
     if n <s 0 then ubnd (u_printf (''wc: read error'' @ [CHR 10]) [] s) (\<lambda>_ s. uexit 1 s)
     else ubnd (u_printf (''%d %d %d %s'' @ [CHR 10]) [VNum (scast l), VNum (scast w), VNum (scast c), VStr (Some name)] s)
       (\<lambda>_ s. URet buf s))"

primrec wc_files :: "u8 list list \<Rightarrow> u8 list \<Rightarrow> 'a user_state_scheme \<Rightarrow> ('a user_state_scheme, i32) uout" where
  "wc_files [] buf s = uexit 0 s"
| "wc_files (f # fs) buf s =
     ubnd (icall (U_open (cstring f) uO_RDONLY) s) (\<lambda>fd s.
     if fd <s 0 then ubnd (u_printf (''wc: cannot open %s'' @ [CHR 10]) [VStr (Some f)] s) (\<lambda>_ s. uexit 1 s)
     else ubnd (wc fd f buf s) (\<lambda>buf s. ubnd (icall (U_close fd) s) (\<lambda>_ s. wc_files fs buf s)))"

definition wc_main :: "u8 list list \<Rightarrow> 'a user_state_scheme \<Rightarrow> ('a user_state_scheme, i32) uout" where
  "wc_main argv s =
     (if length argv \<le> 1 then ubnd (wc 0 [] (replicate 512 0) s) (\<lambda>_ s. uexit 0 s)
      else wc_files (tl argv) (replicate 512 0) s)"

section \<open>\<open>kill.c\<close>, \<open>ln.c\<close>, \<open>mkdir.c\<close>, \<open>rm.c\<close>\<close>

primrec kill_args :: "u8 list list \<Rightarrow> 'a user_state_scheme \<Rightarrow> ('a user_state_scheme, i32) uout" where
  "kill_args [] s = uexit 0 s"
| "kill_args (a # as) s = ubnd (icall (U_kill (u_atoi a)) s) (\<lambda>_ s. kill_args as s)"

definition kill_main :: "u8 list list \<Rightarrow> 'a user_state_scheme \<Rightarrow> ('a user_state_scheme, i32) uout" where
  "kill_main argv s =
     (if length argv < 2 then ubnd (u_fprintf 2 (''usage: kill pid...'' @ [CHR 10]) [] s) (\<lambda>_ s. uexit 1 s)
      else kill_args (tl argv) s)"

definition ln_main :: "u8 list list \<Rightarrow> 'a user_state_scheme \<Rightarrow> ('a user_state_scheme, i32) uout" where
  "ln_main argv s =
     (if length argv \<noteq> 3 then ubnd (u_fprintf 2 (''Usage: ln old new'' @ [CHR 10]) [] s) (\<lambda>_ s. uexit 1 s)
      else ubnd (icall (U_link (cstring (argv ! 1)) (cstring (argv ! 2))) s) (\<lambda>r s.
           ubnd (if r <s 0 then u_fprintf 2 (''link %s %s: failed'' @ [CHR 10]) [VStr (Some (argv ! 1)), VStr (Some (argv ! 2))] s
                 else URet () s) (\<lambda>_ s. uexit 0 s)))"

primrec mkdir_args :: "u8 list list \<Rightarrow> 'a user_state_scheme \<Rightarrow> ('a user_state_scheme, i32) uout" where
  "mkdir_args [] s = uexit 0 s"
| "mkdir_args (a # as) s =
     ubnd (icall (U_mkdir (cstring a)) s) (\<lambda>r s.
     if r <s 0 then ubnd (u_fprintf 2 (''mkdir: %s failed to create'' @ [CHR 10]) [VStr (Some a)] s) (\<lambda>_ s. uexit 0 s)
     else mkdir_args as s)"

definition mkdir_main :: "u8 list list \<Rightarrow> 'a user_state_scheme \<Rightarrow> ('a user_state_scheme, i32) uout" where
  "mkdir_main argv s =
     (if length argv < 2 then ubnd (u_fprintf 2 (''Usage: mkdir files...'' @ [CHR 10]) [] s) (\<lambda>_ s. uexit 1 s)
      else mkdir_args (tl argv) s)"

primrec rm_args :: "u8 list list \<Rightarrow> 'a user_state_scheme \<Rightarrow> ('a user_state_scheme, i32) uout" where
  "rm_args [] s = uexit 0 s"
| "rm_args (a # as) s =
     ubnd (icall (U_unlink (cstring a)) s) (\<lambda>r s.
     if r <s 0 then ubnd (u_fprintf 2 (''rm: %s failed to delete'' @ [CHR 10]) [VStr (Some a)] s) (\<lambda>_ s. uexit 0 s)
     else rm_args as s)"

definition rm_main :: "u8 list list \<Rightarrow> 'a user_state_scheme \<Rightarrow> ('a user_state_scheme, i32) uout" where
  "rm_main argv s =
     (if length argv < 2 then ubnd (u_fprintf 2 (''Usage: rm files...'' @ [CHR 10]) [] s) (\<lambda>_ s. uexit 1 s)
      else rm_args (tl argv) s)"

section \<open>\<open>ls.c\<close>\<close>

text \<open>\<open>for(p=path+strlen(path); p >= path && *p != '/'; p--) ; p++\<close>, with \<open>p = path + k - 1\<close>.\<close>

fun after_slash :: "u8 list \<Rightarrow> nat \<Rightarrow> nat" where
  "after_slash path 0 = 0"
| "after_slash path (Suc k) = (if deref (drop k path) = 47 then Suc k else after_slash path k)"

text \<open>The last byte of the static array \<open>buf\<close> is never written and stays zero.\<close>

definition fmtname :: "u8 list \<Rightarrow> u8 list" where
  "fmtname path =
     (let p = drop (after_slash path (u_strlen path + 1)) path; n = u_strlen p in
      if n \<ge> 14 then p else store_bytes n (replicate (14 - n) 32) (store_bytes 0 (take n p) (replicate 15 0)))"

text \<open>
  Fields of \<open>struct stat\<close> (\<open>ino\<close> at 4, \<open>type\<close> at 8, \<open>size\<close> at 16) and of \<open>struct dirent\<close> (\<open>inum\<close> at 0, \<open>name\<close> at 2)
  in the bytes that the kernel stored.
\<close>

definition half_at :: "u8 list \<Rightarrow> nat \<Rightarrow> u16" where
  "half_at bs i = push_bit 8 (ucast (bs ! (i + 1))) OR ucast (bs ! i)"

definition st_ino :: "u8 list \<Rightarrow> i32" where "st_ino st = pipe_fd st 4"
definition st_type :: "u8 list \<Rightarrow> i32" where "st_type st = scast (half_at st 8)"
definition st_size :: "u8 list \<Rightarrow> i32" where "st_size st = pipe_fd st 16"

definition ls_line :: "u8 list \<Rightarrow> u8 list \<Rightarrow> 'a user_state_scheme \<Rightarrow> ('a user_state_scheme, unit) uout" where
  "ls_line path st s =
     u_printf (''%s %d %d %d'' @ [CHR 10])
       [VStr (Some (fmtname path)), VNum (scast (st_type st)), VNum (scast (st_ino st)), VNum (scast (st_size st))] s"

text \<open>
  The loop over the entries of a directory. \<open>buf\<close> holds \<open>path\<close> and a slash, and the name of the entry behind it.
  A successful \<open>read\<close> fills \<open>de\<close> and a successful \<open>stat\<close> fills \<open>st\<close>; reading what was not filled is undefined.
\<close>

function ls_entries :: "i32 \<Rightarrow> u8 list \<Rightarrow> 'a user_state_scheme \<Rightarrow> ('a user_state_scheme, unit) uout" where
  "ls_entries fd path s =
     ubnd (dcall (U_read fd 16) s) (\<lambda>r s.
     let de = snd r in
     if fst r \<noteq> 16 then URet () s
     else if length de \<noteq> 16 then UFault
     else if half_at de 0 = 0 then ls_entries fd path s
     else let buf = cstring path @ [47] @ drop 2 de @ [0] in
       ubnd (u_stat buf s) (\<lambda>q s.
       if fst q <s 0 then ubnd (u_printf (''ls: cannot stat %s'' @ [CHR 10]) [VStr (Some buf)] s) (\<lambda>_ s. ls_entries fd path s)
       else if length (snd q) \<noteq> 24 then UFault
       else ubnd (ls_line buf (snd q) s) (\<lambda>_ s. ls_entries fd path s)))"
  by pat_completeness auto
termination
  by (relation "measure (\<lambda>(fd, path, s). length (replies s))")
    (fastforce simp: ls_line_def dest!: dcall_replies u_stat_replies u_printf_replies)+

declare ls_entries.simps [simp del]

definition ls :: "u8 list \<Rightarrow> 'a user_state_scheme \<Rightarrow> ('a user_state_scheme, unit) uout" where
  "ls path s =
     ubnd (icall (U_open (cstring path) uO_RDONLY) s) (\<lambda>fd s.
     if fd <s 0 then u_fprintf 2 (''ls: cannot open %s'' @ [CHR 10]) [VStr (Some path)] s
     else ubnd (dcall (U_fstat fd) s) (\<lambda>r s.
       if fst r <s 0 then ubnd (u_fprintf 2 (''ls: cannot stat %s'' @ [CHR 10]) [VStr (Some path)] s) (\<lambda>_ s.
         ubnd (icall (U_close fd) s) (\<lambda>_ s. URet () s))
       else if length (snd r) \<noteq> 24 then UFault
       else ubnd (if st_type (snd r) = 3 \<or> st_type (snd r) = 2 then ls_line path (snd r) s
                  else if st_type (snd r) = 1 then
                    if u_strlen path + 1 + 14 + 1 > 512 then u_printf (''ls: path too long'' @ [CHR 10]) [] s
                    else ls_entries fd path s
                  else URet () s) (\<lambda>_ s.
            ubnd (icall (U_close fd) s) (\<lambda>_ s. URet () s))))"

primrec ls_args :: "u8 list list \<Rightarrow> 'a user_state_scheme \<Rightarrow> ('a user_state_scheme, i32) uout" where
  "ls_args [] s = uexit 0 s"
| "ls_args (a # as) s = ubnd (ls a s) (\<lambda>_ s. ls_args as s)"

definition ls_main :: "u8 list list \<Rightarrow> 'a user_state_scheme \<Rightarrow> ('a user_state_scheme, i32) uout" where
  "ls_main argv s =
     (if length argv < 2 then ubnd (ls (cstr ''.'') s) (\<lambda>_ s. uexit 0 s) else ls_args (tl argv) s)"

section \<open>\<open>init.c\<close>\<close>

text \<open>The inner loop waits for the shell \<open>pid\<close>; the outer one starts it again.\<close>

function init_wait :: "i32 \<Rightarrow> 'a user_state_scheme \<Rightarrow> ('a user_state_scheme, unit) uout" where
  "init_wait pid s =
     ubnd (icall (U_wait False) s) (\<lambda>wpid s.
     if wpid = pid then URet () s
     else if wpid <s 0 then ubnd (u_printf (''init: wait returned an error'' @ [CHR 10]) [] s) (\<lambda>_ s. uexit 1 s)
     else init_wait pid s)"
  by pat_completeness auto
termination by (relation "measure (\<lambda>(pid, s). length (replies s))") (auto dest: icall_replies)

declare init_wait.simps [simp del]

lemma init_wait_replies: "init_wait pid s = URet () t \<Longrightarrow> length (replies t) < length (replies s)"
proof (induction pid s rule: init_wait.induct)
  case (1 pid s)
  from "1.prems" obtain w u where u: "icall (U_wait False) s = URet w u" by (subst (asm) init_wait.simps) (auto simp: ubnd_URet_iff)
  show ?case using "1.prems" "1.IH" [OF u] icall_replies [OF u] u
    by (subst (asm) init_wait.simps) (auto simp: ubnd_URet_iff uexit_def split: if_splits)
qed

function init_loop :: "'a user_state_scheme \<Rightarrow> ('a user_state_scheme, i32) uout" where
  "init_loop s =
     ubnd (u_printf (''init: starting sh'' @ [CHR 10]) [] s) (\<lambda>_ s.
     ubnd (icall U_fork s) (\<lambda>pid s.
     if pid <s 0 then ubnd (u_printf (''init: fork failed'' @ [CHR 10]) [] s) (\<lambda>_ s. uexit 1 s)
     else if pid = 0 then
       ubnd (icall (U_exec (cstr ''sh'') [cstr ''sh'']) s) (\<lambda>_ s.
       ubnd (u_printf (''init: exec sh failed'' @ [CHR 10]) [] s) (\<lambda>_ s. uexit 1 s))
     else ubnd (init_wait pid s) (\<lambda>_ s. init_loop s)))"
  by pat_completeness auto
termination
  by (relation "measure (\<lambda>s. length (replies s))") (fastforce dest!: u_printf_replies icall_replies init_wait_replies)+

declare init_loop.simps [simp del]

definition init_main :: "'a user_state_scheme \<Rightarrow> ('a user_state_scheme, i32) uout" where
  "init_main s =
     ubnd (icall (U_open (cstr ''console'') uO_RDWR) s) (\<lambda>r s.
     ubnd (if r <s 0
           then ubnd (icall (U_mknod (cstr ''console'') 1 0) s) (\<lambda>_ s.
                ubnd (icall (U_open (cstr ''console'') uO_RDWR) s) (\<lambda>_ s. URet () s))
           else URet () s) (\<lambda>_ s.
     ubnd (icall (U_dup 0) s) (\<lambda>_ s.
     ubnd (icall (U_dup 0) s) (\<lambda>_ s. init_loop s))))"

section \<open>\<open>setpolicy.c\<close>, \<open>top.c\<close>, \<open>zombie.c\<close>\<close>

definition setpolicy_main :: "u8 list list \<Rightarrow> 'a user_state_scheme \<Rightarrow> ('a user_state_scheme, i32) uout" where
  "setpolicy_main argv s =
     (if length argv < 2
      then ubnd (u_printf (''Usage: setpolicy [0=RR | 1=FCFS | 2=Priority | 3=HRRN| 4=MLFQ]'' @ [CHR 10]) [] s) (\<lambda>_ s. uexit 1 s)
      else let mode = u_atoi (argv ! 1) in
        ubnd (icall (U_set_sched mode) s) (\<lambda>r s.
        ubnd (if r <s 0 then u_printf (''Failed to set scheduler policy: %d'' @ [CHR 10]) [VNum (scast mode)] s
              else if mode = 0 then u_printf (''Scheduler policy set to Round-Robin (RR)'' @ [CHR 10]) [] s
              else if mode = 1 then u_printf (''Scheduler policy set to First-Come First-Served (FCFS)'' @ [CHR 10]) [] s
              else if mode = 2 then u_printf (''Scheduler policy set to Priority Scheduling'' @ [CHR 10]) [] s
              else if mode = 3 then u_printf (''Scheduler policy set to HRRN'' @ [CHR 10]) [] s
              else if mode = 4 then u_printf (''Scheduler policy set to MLFQ'' @ [CHR 10]) [] s
              else u_printf (''Scheduler policy set to Unknown mode: %d'' @ [CHR 10]) [VNum (scast mode)] s)
          (\<lambda>_ s. uexit 0 s)))"

definition top_main :: "'a user_state_scheme \<Rightarrow> ('a user_state_scheme, i32) uout" where
  "top_main s = ubnd (icall U_top s) (\<lambda>_ s. uexit 0 s)"

definition zombie_main :: "'a user_state_scheme \<Rightarrow> ('a user_state_scheme, i32) uout" where
  "zombie_main s =
     ubnd (icall U_fork s) (\<lambda>pid s.
     ubnd (if 0 <s pid then ubnd (icall (U_sleep 5) s) (\<lambda>_ s. URet () s) else URet () s) (\<lambda>_ s. uexit 0 s))"

section \<open>\<open>forktest.c\<close>\<close>

definition ft_print :: "string \<Rightarrow> 'a user_state_scheme \<Rightarrow> ('a user_state_scheme, unit) uout" where
  "ft_print m s = ubnd (icall (U_write 1 (take (u_strlen (cstr m)) (cstr m))) s) (\<lambda>_ s. URet () s)"

text \<open>The number of successful forks; \<open>k\<close> more are to be tried.\<close>

primrec ft_forks :: "nat \<Rightarrow> nat \<Rightarrow> 'a user_state_scheme \<Rightarrow> ('a user_state_scheme, nat) uout" where
  "ft_forks 0 n s = URet n s"
| "ft_forks (Suc k) n s =
     ubnd (icall U_fork s) (\<lambda>pid s.
     if pid <s 0 then URet n s else if pid = 0 then uexit 0 s else ft_forks k (n + 1) s)"

primrec ft_waits :: "nat \<Rightarrow> 'a user_state_scheme \<Rightarrow> ('a user_state_scheme, unit) uout" where
  "ft_waits 0 s = URet () s"
| "ft_waits (Suc n) s =
     ubnd (icall (U_wait False) s) (\<lambda>r s.
     if r <s 0 then ubnd (ft_print (''wait stopped early'' @ [CHR 10]) s) (\<lambda>_ s. uexit 1 s) else ft_waits n s)"

definition forktest :: "'a user_state_scheme \<Rightarrow> ('a user_state_scheme, unit) uout" where
  "forktest s =
     ubnd (ft_print (''fork test'' @ [CHR 10]) s) (\<lambda>_ s.
     ubnd (ft_forks 1000 0 s) (\<lambda>n s.
     if n = 1000 then ubnd (ft_print (''fork claimed to work N times!'' @ [CHR 10]) s) (\<lambda>_ s. uexit 1 s)
     else ubnd (ft_waits n s) (\<lambda>_ s.
          ubnd (icall (U_wait False) s) (\<lambda>r s.
          if r \<noteq> -1 then ubnd (ft_print (''wait got too many'' @ [CHR 10]) s) (\<lambda>_ s. uexit 1 s)
          else ft_print (''fork test OK'' @ [CHR 10]) s))))"

definition forktest_main :: "'a user_state_scheme \<Rightarrow> ('a user_state_scheme, i32) uout" where
  "forktest_main s = ubnd (forktest s) (\<lambda>_ s. uexit 0 s)"

section \<open>\<open>stressfs.c\<close>\<close>

text \<open>\<open>for(i = 0; i < 4; i++) if(fork() > 0) break;\<close>\<close>

primrec stress_forks :: "nat \<Rightarrow> nat \<Rightarrow> 'a user_state_scheme \<Rightarrow> ('a user_state_scheme, nat) uout" where
  "stress_forks 0 i s = URet i s"
| "stress_forks (Suc k) i s = ubnd (icall U_fork s) (\<lambda>pid s. if 0 <s pid then URet i s else stress_forks k (i + 1) s)"

text \<open>A call made \<open>k\<close> times.\<close>

primrec times :: "nat \<Rightarrow> ucall \<Rightarrow> 'a user_state_scheme \<Rightarrow> ('a user_state_scheme, unit) uout" where
  "times 0 c s = URet () s"
| "times (Suc k) c s = ubnd (icall c s) (\<lambda>_ s. times k c s)"

definition stressfs_main :: "'a user_state_scheme \<Rightarrow> ('a user_state_scheme, i32) uout" where
  "stressfs_main s =
     ubnd (u_printf (''stressfs starting'' @ [CHR 10]) [] s) (\<lambda>_ s.
     let data = replicate 512 97 in
     ubnd (stress_forks 4 0 s) (\<lambda>i s.
     ubnd (u_printf (''write %d'' @ [CHR 10]) [VNum (of_nat i)] s) (\<lambda>_ s.
     let path = (cstr ''stressfs0'')[8 := 48 + of_nat i] in
     ubnd (icall (U_open path (uO_CREATE OR uO_RDWR)) s) (\<lambda>fd s.
     ubnd (times 20 (U_write fd data) s) (\<lambda>_ s.
     ubnd (icall (U_close fd) s) (\<lambda>_ s.
     ubnd (u_printf (''read'' @ [CHR 10]) [] s) (\<lambda>_ s.
     ubnd (icall (U_open path uO_RDONLY) s) (\<lambda>fd s.
     ubnd (times 20 (U_read fd 512) s) (\<lambda>_ s.
     ubnd (icall (U_close fd) s) (\<lambda>_ s.
     ubnd (icall (U_wait False) s) (\<lambda>_ s. uexit 0 s)))))))))))"

end
