(* ===== verification/UtilFacts.thy ===== *)
theory UtilFacts
  imports Utils
begin

text \<open>What the small user programs do with the kernel's replies.\<close>

section \<open>\<open>cat\<close> copies its input\<close>

text \<open>The kernel serves an input in pieces: each \<open>read\<close> returns a piece and each \<open>write\<close> takes it all.\<close>

definition piece :: "u8 list \<Rightarrow> bool" where
  "piece c \<longleftrightarrow> 0 < length c \<and> length c \<le> 512"

definition copied :: "u8 list list \<Rightarrow> reply list" where
  "copied cs = concat (map (\<lambda>c. [(of_nat (length c), c), (of_nat (length c), [])]) cs) @ [(0, [])]"

lemma piece_length:
  assumes "piece c"
  shows "0 <s (ucast (of_nat (length c) :: u64) :: i32)" "unat (ucast (of_nat (length c) :: u64) :: i32) = length c"
    "\<not> (ucast (of_nat (length c) :: u64) :: i32) <s 0"
proof -
  have e: "(ucast (of_nat (length c) :: u64) :: i32) = of_nat (length c)" by (rule bit_word_eqI) (simp add: bit_simps)
  have l: "length c < 2 ^ 31" using assms by (simp add: piece_def)
  have s: "sint (of_nat (length c) :: i32) = int (length c)" using l by (simp add: signed_of_nat signed_take_bit_int_eq_self)
  show "0 <s (ucast (of_nat (length c) :: u64) :: i32)" "\<not> (ucast (of_nat (length c) :: u64) :: i32) <s 0"
    using s assms by (auto simp: e word_sless_alt piece_def)
  show "unat (ucast (of_nat (length c) :: u64) :: i32) = length c" using l by (simp add: e unat_of_nat)
qed

lemma cat_loop_done:
  assumes "\<forall>c \<in> set cs. piece c" "replies s = copied cs @ rs" "length buf = 512"
  shows "\<exists>buf'. length buf' = 512 \<and> cat_loop fd buf s =
    URet buf' (s\<lparr>replies := rs, calls := calls s @ concat (map (\<lambda>c. [U_read fd 512, U_write 1 c]) cs) @ [U_read fd 512]\<rparr>)"
  using assms
proof (induction cs arbitrary: buf s)
  case Nil
  then have "dcall (U_read fd 512) s = URet (0, []) (s\<lparr>replies := rs, calls := calls s @ [U_read fd 512]\<rparr>)"
    by (simp add: dcall_reply copied_def)
  then show ?case using Nil.prems(3) by (subst cat_loop.simps) (simp add: Let_def store_bytes_def)
next
  case (Cons c cs)
  let ?s = "s\<lparr>replies := copied cs @ rs, calls := calls s @ [U_read fd 512, U_write 1 c]\<rparr>"
  have p: "piece c" using Cons.prems(1) by simp
  have t: "take (length c) (store_bytes 0 c buf) = c" using Cons.prems(3) p by (simp add: store_bytes_def piece_def)
  have r: "dcall (U_read fd 512) s = URet (ucast (of_nat (length c) :: u64), c)
      (s\<lparr>replies := (of_nat (length c), []) # copied cs @ rs, calls := calls s @ [U_read fd 512]\<rparr>)"
    by (rule dcall_reply) (use Cons.prems(2) in \<open>simp add: copied_def\<close>)
  have "cat_loop fd buf s = cat_loop fd (store_bytes 0 c buf) ?s"
    using r t piece_length [OF p] p by (subst cat_loop.simps) (simp add: Let_def icall_reply piece_def)
  moreover obtain buf' where "length buf' = 512" "cat_loop fd (store_bytes 0 c buf) ?s =
      URet buf' (?s\<lparr>replies := rs, calls := calls ?s @ concat (map (\<lambda>c. [U_read fd 512, U_write 1 c]) cs) @ [U_read fd 512]\<rparr>)"
    using Cons.IH [of ?s "store_bytes 0 c buf"] Cons.prems(1,3) by auto
  ultimately show ?case by auto
qed

definition written :: "ucall list \<Rightarrow> u8 list" where
  "written cs = concat (map (\<lambda>c. case c of U_write fd bs \<Rightarrow> if fd = 1 then bs else [] | _ \<Rightarrow> []) cs)"

text \<open>
  \<open>cat\<close> without arguments reads its standard input to the end, writes exactly those bytes in order to its
  standard output, however the input is cut into pieces, and exits with status 0.
\<close>

theorem cat_copies_input:
  assumes "\<forall>c \<in> set cs. 0 < length c \<and> length c \<le> 512" "replies s = copied cs @ rs"
  shows "\<exists>t. cat_main [cstr ''cat''] s = UExit 0 t \<and> replies t = rs \<and> written (calls t) = written (calls s) @ concat cs"
proof -
  have w: "concat (map (\<lambda>c. case c of U_write fd bs \<Rightarrow> if fd = 1 then bs else [] | _ \<Rightarrow> [])
      (concat (map (\<lambda>c. [U_read 0 512, U_write 1 c]) cs))) = concat cs"
    by (induction cs) simp_all
  obtain buf where "cat_loop 0 (replicate 512 0) s =
      URet buf (s\<lparr>replies := rs, calls := calls s @ concat (map (\<lambda>c. [U_read 0 512, U_write 1 c]) cs) @ [U_read 0 512]\<rparr>)"
    using cat_loop_done [of cs s rs "replicate 512 0" 0] assms by (auto simp: piece_def)
  then show ?thesis by (simp add: cat_main_def uexit_def written_def w)
qed

theorem cat_copies_input_witness:
  "\<exists>t. cat_main [cstr ''cat''] \<lparr>replies = [(2, [104, 105]), (2, []), (1, [10]), (1, []), (0, [])], calls = []\<rparr> = UExit 0 t \<and>
    replies t = [] \<and> written (calls t) = [104, 105, 10]"
  using cat_copies_input [of "[[104, 105], [10]]" "\<lparr>replies = [(2, [104, 105]), (2, []), (1, [10]), (1, []), (0, [])], calls = []\<rparr>" "[]"]
  by (simp add: copied_def written_def)

section \<open>\<open>wc\<close> counts\<close>

definition blank :: "u8 \<Rightarrow> bool" where
  "blank b \<longleftrightarrow> b \<in> {32, 13, 9, 10, 11}"

text \<open>The words of a text: a word starts where a byte that is not blank follows a blank or the beginning.\<close>

fun word_starts :: "bool \<Rightarrow> u8 list \<Rightarrow> nat" where
  "word_starts inside [] = 0"
| "word_starts inside (b # bs) = (if blank b then word_starts False bs else (if inside then 0 else 1) + word_starts True bs)"

lemma fold_wc_byte:
  "fold wc_byte bs (l, w, c, inside) =
    (l + of_nat (count_list bs 10), w + of_nat (word_starts inside bs), c + of_nat (length bs),
     if bs = [] then inside else \<not> blank (last bs))"
proof (induction bs arbitrary: l w c inside)
  case (Cons b bs)
  have "wc_byte b (l, w, c, inside) = (l + of_nat (count_list [b] 10), w + of_nat (word_starts inside [b]), c + 1, \<not> blank b)"
    by (auto simp: wc_byte_def Let_def blank_def split: if_splits)
  then show ?case using Cons.IH by (auto simp: blank_def)
qed simp

definition served_pieces :: "u8 list list \<Rightarrow> reply list" where
  "served_pieces cs = map (\<lambda>c. (of_nat (length c), c)) cs @ [(0, [])]"

lemma wc_loop_done:
  assumes "\<forall>c \<in> set cs. piece c" "replies s = served_pieces cs @ rs" "length buf = 512"
  shows "\<exists>buf'. wc_loop fd buf k s =
    URet (0, buf', fold wc_byte (concat cs) k) (s\<lparr>replies := rs, calls := calls s @ replicate (length cs + 1) (U_read fd 512)\<rparr>)"
  using assms
proof (induction cs arbitrary: buf k s)
  case Nil
  then have "dcall (U_read fd 512) s = URet (0, []) (s\<lparr>replies := rs, calls := calls s @ [U_read fd 512]\<rparr>)"
    by (simp add: dcall_reply served_pieces_def)
  then show ?case by (subst wc_loop.simps) (simp add: Let_def)
next
  case (Cons c cs)
  let ?s = "s\<lparr>replies := served_pieces cs @ rs, calls := calls s @ [U_read fd 512]\<rparr>"
  have p: "piece c" using Cons.prems(1) by simp
  have t: "take (length c) (store_bytes 0 c buf) = c" using Cons.prems(3) p by (simp add: store_bytes_def piece_def)
  have r: "dcall (U_read fd 512) s = URet (ucast (of_nat (length c) :: u64), c) ?s"
    by (rule dcall_reply) (use Cons.prems(2) in \<open>simp add: served_pieces_def\<close>)
  have "wc_loop fd buf k s = wc_loop fd (store_bytes 0 c buf) (fold wc_byte c k) ?s"
    using r t piece_length [OF p] p by (subst wc_loop.simps) (simp add: Let_def piece_def)
  then show ?case using Cons.IH [of ?s "store_bytes 0 c buf" "fold wc_byte c k"] Cons.prems(1,3) by auto
qed

lemma ucast_scast [simp]: "ucast (scast x :: u64) = (x :: i32)"
  by (rule bit_word_eqI) (simp add: bit_simps)

lemma wc_text:
  "text_of (cstr (''%d %d %d %s'' @ [CHR 10])) [VNum (scast (l :: i32)), VNum (scast (w :: i32)), VNum (scast (c :: i32)), VStr (Some name)] =
    Some (int_text 10 True l @ 32 # int_text 10 True w @ 32 # int_text 10 True c @ 32 # cstring name @ [10])"
  by (simp add: text_of.simps cstr_def vprintf_conv_def deref_def Let_def)

text \<open>
  C37: \<open>wc\<close> prints the numbers of lines, words and bytes of its whole input, however the input is cut into
  pieces: a word split between two pieces counts once. The numbers are C ints.
\<close>

theorem wc_prints_counts:
  assumes "\<forall>c \<in> set cs. 0 < length c \<and> length c \<le> 512" "replies s = served_pieces cs @ replicate n r"
    "line = int_text 10 True (of_nat (count_list (concat cs) 10)) @ 32 # int_text 10 True (of_nat (word_starts False (concat cs))) @
      32 # int_text 10 True (of_nat (length (concat cs))) @ 32 # cstring name @ [10]"
    "length line \<le> n" "length buf = 512"
  shows "\<exists>buf' t. wc fd name buf s = URet buf' t \<and>
    calls t = calls s @ replicate (length cs + 1) (U_read fd 512) @ map (\<lambda>b. U_write 1 [b]) line"
proof -
  let ?s = "s\<lparr>replies := replicate n r, calls := calls s @ replicate (length cs + 1) (U_read fd 512)\<rparr>"
  let ?b = "concat cs"
  obtain buf' where "wc_loop fd buf (0, 0, 0, False) s = URet (0, buf', fold wc_byte ?b (0, 0, 0, False)) ?s"
    using wc_loop_done [of cs s "replicate n r" buf fd "(0, 0, 0, False)"] assms(1,2,5) by (auto simp: piece_def)
  then have "wc fd name buf s = ubnd (u_puts 1 line ?s) (\<lambda>_ s. URet buf' s)"
    by (simp add: wc_def fold_wc_byte u_printf_text [OF wc_text, simplified] assms(3) cong: ubnd_cong)
  then show ?thesis using u_puts_done [of line ?s 1] assms(4) by simp
qed

theorem wc_prints_counts_witness:
  "\<exists>buf' t. wc 3 (cstr ''f'') (replicate 512 0) \<lparr>replies = [(3, [97, 32, 98]), (2, [99, 10]), (0, [])] @ replicate 8 (1, []), calls = []\<rparr> = URet buf' t \<and>
    calls t = [U_read 3 512, U_read 3 512, U_read 3 512] @ map (\<lambda>b. U_write 1 [b]) (cstr ''1 2 5 f'' @ [10])"
proof -
  have n: "int_text 10 True 1 = [49]" "int_text 10 True 2 = [50]" "int_text 10 True 5 = [53]"
    by (simp_all add: int_text_def num_text.simps u_digits_def cstr_def)
  let ?s = "\<lparr>replies = [(3, [97, 32, 98]), (2, [99, 10]), (0, [])] @ replicate 8 (1, []), calls = []\<rparr> :: user_state"
  have "\<exists>buf' t. wc 3 (cstr ''f'') (replicate 512 0) ?s = URet buf' t \<and>
      calls t = calls ?s @ replicate (length [[97, 32, 98], [99, 10 :: u8]] + 1) (U_read 3 512) @ map (\<lambda>b. U_write 1 [b]) (cstr ''1 2 5 f'' @ [10])"
    by (rule wc_prints_counts [where n = 8 and r = "(1, [])"])
      (simp_all add: served_pieces_def blank_def n cstr_def cstring_def)
  then show ?thesis by (simp add: numeral_eq_Suc)
qed

section \<open>\<open>ls\<close> prints the last part of a path\<close>

text \<open>The part of a path behind its last slash.\<close>

definition base_name :: "u8 list \<Rightarrow> u8 list" where
  "base_name path = rev (takeWhile (\<lambda>c. c \<noteq> 47) (rev path))"

lemma after_slash_base:
  "k \<le> length path \<Longrightarrow> drop (after_slash path k) (take k path) = base_name (take k path)"
proof (induction k)
  case (Suc k)
  then have "take (Suc k) path = take k path @ [path ! k]" "deref (drop k path) = path ! k"
    by (simp_all add: take_Suc_conv_app_nth deref_def Cons_nth_drop_Suc [symmetric])
  moreover have "after_slash path k \<le> k" by (induction k) simp_all
  ultimately show ?case using Suc by (simp add: base_name_def)
qed (simp add: base_name_def)

text \<open>
  The name that \<open>ls\<close> prints for a path is the part behind its last slash, padded with blanks to \<open>DIRSIZ\<close>
  characters when it is shorter; a longer one is printed whole.
\<close>

theorem fmtname_pads:
  assumes "0 \<notin> set path"
  shows "cstring (fmtname path) = base_name path @ replicate (14 - length (base_name path)) 32"
proof -
  have c: "cstring path = path" unfolding cstring_def takeWhile_eq_all_conv using assms by metis
  let ?p = "drop (after_slash path (Suc (length path))) path"
  have p: "?p = base_name path" using after_slash_base [of "length path" path] by (simp add: deref_def)
  have z: "0 \<notin> set (base_name path)" using assms by (auto simp: base_name_def dest: set_takeWhileD)
  then have l: "cstring ?p = base_name path" unfolding p cstring_def takeWhile_eq_all_conv by metis
  then have "u_strlen ?p = length (base_name path)" by (simp add: u_strlen_cstring)
  note l = l this
  show ?thesis
  proof (cases "14 \<le> length (base_name path)")
    case True
    then show ?thesis using l p by (simp add: fmtname_def Let_def u_strlen_cstring c)
  next
    case False
    let ?n = "length (base_name path)"
    have "store_bytes ?n (replicate (14 - ?n) 32) (store_bytes 0 (base_name path) (replicate 15 0)) =
        (base_name path @ replicate (14 - ?n) 32) @ [0]"
      using False by (simp add: store_bytes_def)
    moreover have "0 \<notin> set (base_name path @ replicate (14 - ?n) 32)" using z by auto
    ultimately have "cstring (store_bytes ?n (replicate (14 - ?n) 32) (store_bytes 0 (base_name path) (replicate 15 0))) =
        base_name path @ replicate (14 - ?n) 32" using cstring_append_NUL by metis
    then show ?thesis using False l p by (simp add: fmtname_def Let_def u_strlen_cstring c)
  qed
qed

theorem fmtname_pads_witness: "cstring (fmtname (cstr ''bin/ls'')) = cstr ''ls            ''"
proof -
  have "0 \<notin> set (cstr ''bin/ls'')" by code_simp
  moreover have "base_name (cstr ''bin/ls'') @ replicate (14 - length (base_name (cstr ''bin/ls''))) 32 = cstr ''ls            ''" by code_simp
  ultimately show ?thesis using fmtname_pads by metis
qed

section \<open>\<open>init\<close> keeps a shell running\<close>

lemma init_wait_done:
  assumes "\<forall>r \<in> set ws. ucast (fst r) \<noteq> pid \<and> \<not> (ucast (fst r) :: i32) <s 0" "ucast (fst p) = pid" "replies s = ws @ p # rs"
  shows "init_wait pid s = URet () (s\<lparr>replies := rs, calls := calls s @ replicate (length ws + 1) (U_wait False)\<rparr>)"
  using assms
proof (induction ws arbitrary: s)
  case Nil
  then show ?case by (cases p) (subst init_wait.simps, simp add: icall_reply)
next
  case (Cons w ws)
  let ?s = "s\<lparr>replies := ws @ p # rs, calls := calls s @ [U_wait False]\<rparr>"
  have "init_wait pid s = init_wait pid ?s"
    using Cons.prems by (cases w) (subst init_wait.simps, simp add: icall_reply)
  then show ?case using Cons.IH [of ?s] Cons.prems(1,2) by simp
qed

lemma starting_text: "text_of (cstr (''init: starting sh'' @ [CHR 10])) [] = Some (cstr ''init: starting sh'' @ [10])"
  by (simp add: text_of.simps cstr_def deref_def)

text \<open>
  C36: \<open>init\<close> keeps a shell running: once the shell it started has ended, and however many orphans \<open>wait\<close>
  returned before, it is back at the start of its loop, which announces and forks the next shell.
\<close>

theorem init_restarts_shell:
  assumes "length ms = 18" "replies s = ms @ f # ws @ p # rs" "0 <s (ucast (fst f) :: i32)" "ucast (fst p) = (ucast (fst f) :: i32)"
    "\<forall>r \<in> set ws. ucast (fst r) \<noteq> (ucast (fst f) :: i32) \<and> \<not> (ucast (fst r) :: i32) <s 0"
  shows "\<exists>t. init_loop s = init_loop t \<and> replies t = rs \<and>
    calls t = calls s @ map (\<lambda>b. U_write 1 [b]) (cstr ''init: starting sh'' @ [10]) @ [U_fork] @ replicate (length ws + 1) (U_wait False)"
proof -
  let ?m = "cstr ''init: starting sh'' @ [10]"
  let ?u = "s\<lparr>replies := f # ws @ p # rs, calls := calls s @ map (\<lambda>b. U_write 1 [b]) ?m\<rparr>"
  let ?v = "s\<lparr>replies := ws @ p # rs, calls := calls s @ map (\<lambda>b. U_write 1 [b]) ?m @ [U_fork]\<rparr>"
  let ?t = "?v\<lparr>replies := rs, calls := calls ?v @ replicate (length ws + 1) (U_wait False)\<rparr>"
  have l: "length ?m = 18" by (simp add: cstr_def)
  have a: "u_printf (''init: starting sh'' @ [CHR 10]) [] s = URet () ?u"
    using u_puts_done [of ?m s 1] assms(1,2) l unfolding u_printf_text [OF starting_text] by simp
  have b: "icall U_fork ?u = URet (ucast (fst f)) ?v" by (cases f) (simp add: icall_reply)
  have c: "init_wait (ucast (fst f)) ?v = URet () ?t" by (rule init_wait_done [OF assms(5,4)]) simp
  have "\<not> (ucast (fst f) :: i32) <s 0" "(ucast (fst f) :: i32) \<noteq> 0" using assms(3) by (auto simp: word_sless_alt)
  then have "init_loop s = init_loop ?t" by (subst init_loop.simps) (simp only: a b c ubnd.simps if_False)
  then show ?thesis by (intro exI [of _ ?t]) simp
qed

theorem init_restarts_shell_witness:
  "\<exists>t. init_loop \<lparr>replies = replicate 18 (1, []) @ [(2, []), (7, []), (2, [])], calls = []\<rparr> = init_loop t \<and> replies t = [] \<and>
    calls t = map (\<lambda>b. U_write 1 [b]) (cstr ''init: starting sh'' @ [10]) @ [U_fork, U_wait False, U_wait False]"
  using init_restarts_shell [of "replicate 18 (1, [])" "\<lparr>replies = replicate 18 (1, []) @ [(2, []), (7, []), (2, [])], calls = []\<rparr>" "(2, [])" "[(7, [])]" "(2, [])" "[]"]
  by (simp add: word_sless_alt)

end
