(* ===== verification/Mkfs.thy ===== *)
theory Mkfs
  imports Dir Codec
begin

text \<open>
  \<open>mkfs/mkfs.c\<close>, the program that builds the file-system image on the host. The image file is the list of its
  sectors; the host's \<open>lseek\<close>, \<open>read\<close> and \<open>write\<close> work on it without errors of the device, so that \<open>die\<close> is
  reached where a file cannot be opened and where a sector behind the end of the image is read. The host is
  little-endian, as \<open>main\<close> assumes (it stores \<open>sb.magic\<close> and reads \<open>sb.inodestart\<close> without conversion).
  A \<open>struct dinode\<close> is the list of its 64 bytes: \<open>type\<close>, \<open>major\<close>, \<open>minor\<close> and \<open>nlink\<close> at 0, 2, 4 and 6, \<open>size\<close> at 8, \<open>addrs\<close>
  from 12 on; a \<open>struct dirent\<close> is \<open>inum\<close> at 0 and \<open>name\<close> at 2.
\<close>

section \<open>Parameters of the image\<close>

definition FSSIZE :: nat where "FSSIZE = 2000"
definition NINODES :: nat where "NINODES = 200"
definition nbitmap :: nat where "nbitmap = FSSIZE div BPB + 1"
definition ninodeblocks :: nat where "ninodeblocks = NINODES div IPB + 1"
definition nlog :: nat where "nlog = LOGSIZE"
definition nmeta :: nat where "nmeta = 2 + nlog + ninodeblocks + nbitmap"
definition nblocks :: nat where "nblocks = FSSIZE - nmeta"

definition xshort :: "u16 \<Rightarrow> u16" where
  "xshort x = get16 0 [ucast x, ucast (drop_bit 8 x)]"

definition xint :: "u32 \<Rightarrow> u32" where
  "xint x = get32 0 [ucast x, ucast (drop_bit 8 x), ucast (drop_bit 16 x), ucast (drop_bit 24 x)]"

definition mk_sb :: superblock where
  "mk_sb = \<lparr>sb_magic = FSMAGIC, sb_size = xint (of_nat FSSIZE), sb_nblocks = xint (of_nat nblocks),
     sb_ninodes = xint (of_nat NINODES), sb_nlog = xint (of_nat nlog), sb_logstart = xint 2,
     sb_inodestart = xint (of_nat (2 + nlog)), sb_bmapstart = xint (of_nat (2 + nlog + ninodeblocks))\<rparr>"

text \<open>\<open>memset(buf, 0, sizeof(buf)); memmove(buf, &sb, sizeof(sb))\<close>\<close>

definition mk_sb_block :: "u8 list" where
  "mk_sb_block =
     put32 28 (sb_bmapstart mk_sb) (put32 24 (sb_inodestart mk_sb) (put32 20 (sb_logstart mk_sb) (put32 16 (sb_nlog mk_sb)
     (put32 12 (sb_ninodes mk_sb) (put32 8 (sb_nblocks mk_sb) (put32 4 (sb_size mk_sb) (put32 0 (sb_magic mk_sb)
     (replicate BSIZE 0))))))))"

section \<open>Sectors\<close>

datatype mkerr = Usage | Die "u8 list" | Assertion

record mkfs_state =
  image :: "u8 list list"
  freeinode :: u32
  freeblock :: u32

fun mbind :: "mkerr + 'a \<times> mkfs_state \<Rightarrow> ('a \<Rightarrow> mkfs_state \<Rightarrow> mkerr + 'b \<times> mkfs_state) \<Rightarrow> mkerr + 'b \<times> mkfs_state" where
  "mbind (Inl e) f = Inl e"
| "mbind (Inr (a, s)) f = f a s"

lemma mbind_cong [fundef_cong]: "x = y \<Longrightarrow> (\<And>a s. y = Inr (a, s) \<Longrightarrow> f a s = g a s) \<Longrightarrow> mbind x f = mbind y g"
  by (cases y) auto

text \<open>The sector at the position \<open>sec * BSIZE\<close>, an unsigned int.\<close>

definition sector :: "u32 \<Rightarrow> nat" where
  "sector sec = unat (sec * of_nat BSIZE) div BSIZE"

definition wsect :: "u32 \<Rightarrow> u8 list \<Rightarrow> mkfs_state \<Rightarrow> mkerr + unit \<times> mkfs_state" where
  "wsect sec buf s =
     (let i = sector sec; img = image s in
      Inr ((), s\<lparr>image := if i < length img then img[i := buf]
                           else img @ replicate (i - length img) (replicate BSIZE 0) @ [buf]\<rparr>))"

definition rsect :: "u32 \<Rightarrow> mkfs_state \<Rightarrow> mkerr + u8 list \<times> mkfs_state" where
  "rsect sec s = (if sector sec < length (image s) then Inr (image s ! sector sec, s) else Inl (Die (cstr ''read'')))"

section \<open>Inodes\<close>

definition winode :: "u32 \<Rightarrow> u8 list \<Rightarrow> mkfs_state \<Rightarrow> mkerr + unit \<times> mkfs_state" where
  "winode inum ip s =
     (let bn = IBLOCK inum mk_sb in
      mbind (rsect bn s) (\<lambda>buf s. wsect bn (put_bytes_at (unat inum mod IPB * 64) ip buf) s))"

definition rinode :: "u32 \<Rightarrow> mkfs_state \<Rightarrow> mkerr + u8 list \<times> mkfs_state" where
  "rinode inum s =
     (let bn = IBLOCK inum mk_sb in
      mbind (rsect bn s) (\<lambda>buf s. Inr (take 64 (drop (unat inum mod IPB * 64) buf), s)))"

definition mk_ialloc :: "u16 \<Rightarrow> mkfs_state \<Rightarrow> mkerr + u32 \<times> mkfs_state" where
  "mk_ialloc type s =
     (let inum = freeinode s;
          din = put32 8 (xint 0) (put16 6 (xshort 1) (put16 0 (xshort type) (replicate 64 0))) in
      mbind (winode inum din (s\<lparr>freeinode := inum + 1\<rparr>)) (\<lambda>_ s. Inr (inum, s)))"

definition mk_balloc :: "nat \<Rightarrow> mkfs_state \<Rightarrow> mkerr + unit \<times> mkfs_state" where
  "mk_balloc used s =
     (if \<not> used < BPB then Inl Assertion
      else wsect (sb_bmapstart mk_sb)
        (fold (\<lambda>i buf. buf[i div 8 := buf ! (i div 8) OR push_bit (i mod 8) 1]) [0..<used] (replicate BSIZE 0)) s)"

section \<open>Files\<close>

definition din_addr :: "nat \<Rightarrow> u8 list \<Rightarrow> u32" where
  "din_addr i din = get32 (12 + 4 * i) din"

definition set_din_addr :: "nat \<Rightarrow> u32 \<Rightarrow> u8 list \<Rightarrow> u8 list" where
  "set_din_addr i a din = put32 (12 + 4 * i) a din"

text \<open>\<open>if(xint(din.addrs[i]) == 0) din.addrs[i] = xint(freeblock++)\<close>\<close>

definition claim :: "nat \<Rightarrow> u8 list \<Rightarrow> mkfs_state \<Rightarrow> u8 list \<times> mkfs_state" where
  "claim i din s =
     (if xint (din_addr i din) = 0
      then (set_din_addr i (xint (freeblock s)) din, s\<lparr>freeblock := freeblock s + 1\<rparr>) else (din, s))"

text \<open>The address \<open>x\<close> of block \<open>fbn\<close> of the file, and the new \<open>din\<close>.\<close>

definition iappend_block :: "nat \<Rightarrow> u8 list \<Rightarrow> mkfs_state \<Rightarrow> mkerr + (u32 \<times> u8 list) \<times> mkfs_state" where
  "iappend_block fbn din s =
     (if fbn < NDIRECT then
        let (din, s) = claim fbn din s in Inr ((xint (din_addr fbn din), din), s)
      else
        let (din, s) = claim NDIRECT din s; ia = xint (din_addr NDIRECT din); k = 4 * (fbn - NDIRECT) in
        mbind (rsect ia s) (\<lambda>indirect s.
        if get32 k indirect = 0 then
          let x = freeblock s; indirect = put32 k (xint x) indirect in
          mbind (wsect ia indirect (s\<lparr>freeblock := x + 1\<rparr>)) (\<lambda>_ s. Inr ((xint (get32 k indirect), din), s))
        else Inr ((xint (get32 k indirect), din), s)))"

lemma block_end: "off < BSIZE + off div BSIZE * BSIZE"
proof -
  have "off mod BSIZE < BSIZE" by (rule mod_less_divisor) (simp add: BSIZE_def)
  then show ?thesis using div_mult_mod_eq [of off BSIZE] by linarith
qed

text \<open>The \<open>while\<close> loop; \<open>p\<close> are the bytes still to be appended.\<close>

function iappend_loop :: "u8 list \<Rightarrow> nat \<Rightarrow> u8 list \<Rightarrow> mkfs_state \<Rightarrow> mkerr + (nat \<times> u8 list) \<times> mkfs_state" where
  "iappend_loop p off din s =
     (if p = [] then Inr ((off, din), s)
      else let fbn = off div BSIZE in
        if \<not> fbn < MAXFILE then Inl Assertion
        else mbind (iappend_block fbn din s) (\<lambda>r s.
          let x = fst r; n1 = min (length p) ((fbn + 1) * BSIZE - off) in
          mbind (rsect x s) (\<lambda>buf s.
          mbind (wsect x (put_bytes_at (off - fbn * BSIZE) (take n1 p) buf) s) (\<lambda>_ s.
          iappend_loop (drop n1 p) (off + n1) (snd r) s))))"
  by pat_completeness auto
termination by (relation "measure (\<lambda>(p, off, din, s). length p)") (auto simp: block_end)

declare iappend_loop.simps [simp del]

definition iappend :: "u32 \<Rightarrow> u8 list \<Rightarrow> mkfs_state \<Rightarrow> mkerr + unit \<times> mkfs_state" where
  "iappend inum p s =
     mbind (rinode inum s) (\<lambda>din s.
     mbind (iappend_loop p (unat (xint (get32 8 din))) din s) (\<lambda>(off, din) s.
     winode inum (put32 8 (xint (of_nat off)) din) s))"

section \<open>\<open>main\<close>\<close>

definition mk_dirent :: "u32 \<Rightarrow> u8 list \<Rightarrow> u8 list" where
  "mk_dirent inum name = put_bytes_at 2 name (put16 0 (xshort (ucast inum)) (replicate 16 0))"

text \<open>\<open>while((cc = read(fd, buf, sizeof(buf))) > 0) iappend(inum, buf, cc)\<close>, on the bytes of the file.\<close>

function append_file :: "u32 \<Rightarrow> u8 list \<Rightarrow> mkfs_state \<Rightarrow> mkerr + unit \<times> mkfs_state" where
  "append_file inum bs s =
     (if bs = [] then Inr ((), s)
      else mbind (iappend inum (take BSIZE bs) s) (\<lambda>_ s. append_file inum (drop BSIZE bs) s))"
  by pat_completeness auto
termination by (relation "measure (\<lambda>(inum, bs, s). length bs)") (auto simp: BSIZE_def)

declare append_file.simps [simp del]

definition shortname :: "u8 list \<Rightarrow> u8 list" where
  "shortname arg = (if strncmp arg (cstr ''user/'') 5 = 0 then drop 5 arg else arg)"

definition skip_underscore :: "u8 list \<Rightarrow> u8 list" where
  "skip_underscore nm = (if deref nm = 95 then tl nm else nm)"

text \<open>The loop over the files; \<open>host\<close> gives the contents of a file of the host that can be opened.\<close>

primrec add_files :: "(u8 list \<Rightarrow> u8 list option) \<Rightarrow> u32 \<Rightarrow> u8 list list \<Rightarrow> mkfs_state \<Rightarrow> mkerr + unit \<times> mkfs_state" where
  "add_files host rootino [] s = Inr ((), s)"
| "add_files host rootino (arg # args) s =
     (let nm = shortname arg in
      if 47 \<in> set (cstring nm) then Inl Assertion
      else case host arg of
        None \<Rightarrow> Inl (Die arg)
      | Some bs \<Rightarrow>
          let nm = skip_underscore nm in
          if \<not> length (cstring nm) \<le> DIRSIZ then Inl Assertion
          else mbind (mk_ialloc T_FILE s) (\<lambda>inum s.
            mbind (iappend rootino (mk_dirent inum (strncpy (replicate DIRSIZ 0) nm (int DIRSIZ))) s) (\<lambda>_ s.
            mbind (append_file inum bs s) (\<lambda>_ s. add_files host rootino args s))))"

primrec zero_sectors :: "nat list \<Rightarrow> mkfs_state \<Rightarrow> mkerr + unit \<times> mkfs_state" where
  "zero_sectors [] s = Inr ((), s)"
| "zero_sectors (i # is) s = mbind (wsect (of_nat i) (replicate BSIZE 0) s) (\<lambda>_ s. zero_sectors is s)"

text \<open>\<open>opens\<close> tells whether the host could open the image file \<open>argv[1]\<close>, which is then empty.\<close>

definition mkfs_main :: "u8 list list \<Rightarrow> bool \<Rightarrow> (u8 list \<Rightarrow> u8 list option) \<Rightarrow> mkerr + unit \<times> mkfs_state" where
  "mkfs_main argv opens host =
     (if length argv < 2 then Inl Usage
      else if \<not> opens then Inl (Die (argv ! 1))
      else mbind (zero_sectors [0..<FSSIZE] \<lparr>image = [], freeinode = 1, freeblock = of_nat nmeta\<rparr>) (\<lambda>_ s.
        mbind (wsect 1 mk_sb_block s) (\<lambda>_ s.
        mbind (mk_ialloc T_DIR s) (\<lambda>rootino s.
        if rootino \<noteq> ROOTINO then Inl Assertion
        else mbind (iappend rootino (mk_dirent rootino (cstr ''.'')) s) (\<lambda>_ s.
          mbind (iappend rootino (mk_dirent rootino (cstr ''..'')) s) (\<lambda>_ s.
          mbind (add_files host rootino (drop 2 argv) s) (\<lambda>_ s.
          mbind (rinode rootino s) (\<lambda>din s.
          let off = unat (xint (get32 8 din)); off = (off div BSIZE + 1) * BSIZE in
          mbind (winode rootino (put32 8 (xint (of_nat off)) din) s) (\<lambda>_ s.
          mk_balloc (unat (freeblock s)) s)))))))))"

end
