(* ===== verification/MkfsImage.thy ===== *)
theory MkfsImage
  imports Mkfs BlockAlloc
begin

text \<open>
  The image while \<open>mkfs\<close> builds it, as the invariant \<open>fs_image\<close>: each inode so far holds its file in blocks of its own
  below \<open>freeblock\<close>, and the blocks above are zero.  \<open>ialloc\<close> adds an empty file, \<open>iappend\<close> appends to one file and
  leaves the others as they are.
\<close>

section \<open>Numbers\<close>

lemma of_nat_drop_bit: "(of_nat (unat (x :: 'a::len word) div 2 ^ n) :: u8) = ucast (drop_bit n x)"
proof -
  have "unat x div 2 ^ n = unat (drop_bit n x)" unfolding unat_drop_bit_eq by (simp only: drop_bit_eq_div)
  then show ?thesis by (simp only: of_nat_unat)
qed

lemma xint_id [simp]: "xint x = x"
proof -
  have "[ucast x, ucast (drop_bit 8 x), ucast (drop_bit 16 x), ucast (drop_bit 24 x)] = le_bytes 4 (unat x)"
    using of_nat_drop_bit [of x 0] of_nat_drop_bit [of x 8] of_nat_drop_bit [of x 16] of_nat_drop_bit [of x 24]
    by (simp add: le_bytes_def upt_rec)
  then show ?thesis using get_le_le_bytes [of 4 4 "unat x"] unat_u32_less [of x] by (simp add: xint_def get32_def get_le_def)
qed

lemma xshort_id [simp]: "xshort x = x"
proof -
  have "[ucast x, ucast (drop_bit 8 x)] = le_bytes 2 (unat x)"
    using of_nat_drop_bit [of x 0] of_nat_drop_bit [of x 8] by (simp add: le_bytes_def upt_rec)
  moreover have "unat x < 2 ^ LENGTH(16)" by (rule unsigned_less)
  ultimately show ?thesis using get_le_le_bytes [of 2 2 "unat x"] by (simp add: xshort_def get16_def get_le_def)
qed

lemma mkfs_layout:
  "FSSIZE = 2000" "BSIZE = 1024" "nlog = 30" "ninodeblocks = 13" "nbitmap = 1" "nmeta = 46" "nblocks = 1954" "IPB = 16" "BPB = 8192"
  "MAXFILE = 268" "NDIRECT = 12"
  by (simp_all add: FSSIZE_def BSIZE_def nlog_def LOGSIZE_def MAXOPBLOCKS_def ninodeblocks_def NINODES_def IPB_def nbitmap_def BPB_def
      nmeta_def nblocks_def MAXFILE_def NDIRECT_def NINDIRECT_def)

lemma mk_sb_fields:
  "mk_sb = \<lparr>sb_magic = FSMAGIC, sb_size = 2000, sb_nblocks = 1954, sb_ninodes = 200, sb_nlog = 30, sb_logstart = 2,
     sb_inodestart = 32, sb_bmapstart = 45\<rparr>"
  by (simp add: mk_sb_def mkfs_layout NINODES_def)

lemma sector_small:
  assumes "unat sec < 2000"
  shows "sector sec = unat sec"
proof -
  have "unat (sec * 1024) = unat sec * 1024 mod 2 ^ 32" by (simp add: unat_word_ariths)
  then have "unat (sec * 1024) = unat sec * 1024" using assms by simp
  then show ?thesis by (simp add: sector_def mkfs_layout)
qed

section \<open>Sectors and inodes of an image\<close>

definition sectors_ok :: "u8 list list \<Rightarrow> bool" where
  "sectors_ok img \<longleftrightarrow> length img = 2000 \<and> (\<forall>b < 2000. length (img ! b) = 1024)"

lemma rsect_small: "sectors_ok (image s) \<Longrightarrow> unat sec < 2000 \<Longrightarrow> rsect sec s = Inr (image s ! unat sec, s)"
  by (simp add: rsect_def sector_small sectors_ok_def)

lemma wsect_small:
  "sectors_ok (image s) \<Longrightarrow> unat sec < 2000 \<Longrightarrow> wsect sec buf s = Inr ((), s\<lparr>image := (image s)[unat sec := buf]\<rparr>)"
  by (simp add: wsect_def sector_small sectors_ok_def)

lemma sectors_ok_upd: "sectors_ok img \<Longrightarrow> length buf = 1024 \<Longrightarrow> sectors_ok (img[b := buf])"
  by (metis length_list_update nth_list_update_eq nth_list_update_neq sectors_ok_def)

definition din_at :: "u8 list list \<Rightarrow> nat \<Rightarrow> u8 list" where
  "din_at img i = take 64 (drop (i mod 16 * 64) (img ! (32 + i div 16)))"

definition with_din :: "nat \<Rightarrow> u8 list \<Rightarrow> u8 list list \<Rightarrow> u8 list list" where
  "with_din i din img = img[32 + i div 16 := put_bytes_at (i mod 16 * 64) din (img ! (32 + i div 16))]"

lemma inode_slot: "(i :: nat) < 200 \<Longrightarrow> 32 + i div 16 < 45" "(i :: nat) mod 16 * 64 + 64 \<le> 1024"
  using mod_less_divisor [of 16 i] by (auto simp del: mod_less_divisor)

lemma IBLOCK_mk_sb:
  assumes "unat inum < 200"
  shows "unat (IBLOCK inum mk_sb) = 32 + unat inum div 16"
proof -
  have "unat (inum div 16) = unat inum div 16" by (simp add: unat_div)
  then have "unat (inum div 16 + 32) = (unat inum div 16 + 32) mod 2 ^ 32" by (simp add: unat_word_ariths)
  then have "unat (inum div 16 + 32) = unat inum div 16 + 32" using assms by simp
  then show ?thesis by (simp add: IBLOCK_def mk_sb_fields mkfs_layout)
qed

lemma rinode_small:
  "sectors_ok (image s) \<Longrightarrow> unat inum < 200 \<Longrightarrow> rinode inum s = Inr (din_at (image s) (unat inum), s)"
  using inode_slot(1) [of "unat inum"] by (simp add: rinode_def Let_def rsect_small IBLOCK_mk_sb din_at_def mkfs_layout)

lemma winode_small:
  "sectors_ok (image s) \<Longrightarrow> unat inum < 200 \<Longrightarrow> winode inum din s = Inr ((), s\<lparr>image := with_din (unat inum) din (image s)\<rparr>)"
  using inode_slot(1) [of "unat inum"] by (simp add: winode_def Let_def rsect_small wsect_small IBLOCK_mk_sb with_din_def mkfs_layout)

lemma with_din_frame:
  assumes "sectors_ok img" "i < 200" "length din = 64"
  shows "sectors_ok (with_din i din img)" "din_at (with_din i din img) i = din"
    "j < 200 \<Longrightarrow> j \<noteq> i \<Longrightarrow> din_at (with_din i din img) j = din_at img j"
    "b < 32 \<or> 45 \<le> b \<Longrightarrow> with_din i din img ! b = img ! b"
proof -
  let ?o = "i mod 16 * 64" and ?k = "32 + i div 16"
  have k: "?k < 2000" "length (img ! ?k) = 1024" using inode_slot(1) [OF assms(2)] assms(1) by (auto simp: sectors_ok_def)
  have o: "?o + 64 \<le> 1024" using inode_slot(2) .
  show "sectors_ok (with_din i din img)" using assms(1,3) k o by (simp add: with_din_def sectors_ok_upd)
  have n: "with_din i din img ! ?k = put_bytes_at ?o din (img ! ?k)" using k(1) assms(1) by (simp add: with_din_def sectors_ok_def)
  show "din_at (with_din i din img) i = din" unfolding din_at_def n using k(2) o assms(3) by (simp add: put_bytes_at_def)
  show "with_din i din img ! b = img ! b" if "b < 32 \<or> 45 \<le> b" using that inode_slot(1) [OF assms(2)] by (auto simp: with_din_def)
  show "din_at (with_din i din img) j = din_at img j" if j: "j < 200" "j \<noteq> i"
  proof (cases "j div 16 = i div 16")
    case True
    then have m: "j mod 16 \<noteq> i mod 16" using j(2) div_mult_mod_eq by metis
    have "take 64 (drop (j mod 16 * 64) (put_bytes_at ?o din (img ! ?k))) = take 64 (drop (j mod 16 * 64) (img ! ?k))"
    proof (rule nth_equalityI)
      fix x assume "x < length (take 64 (drop (j mod 16 * 64) (put_bytes_at ?o din (img ! ?k))))"
      then have x: "x < 64" "j mod 16 * 64 + x < 1024" using k(2) o assms(3) by auto
      have "\<not> (?o \<le> j mod 16 * 64 + x \<and> j mod 16 * 64 + x < ?o + 64)" using m x(1) by (cases "j mod 16 < i mod 16") auto
      then show "take 64 (drop (j mod 16 * 64) (put_bytes_at ?o din (img ! ?k))) ! x = take 64 (drop (j mod 16 * 64) (img ! ?k)) ! x"
        using x k(2) o assms(3) by (auto simp: nth_put_bytes_at)
    qed (use k(2) o assms(3) in simp)
    then show ?thesis unfolding din_at_def True n .
  next
    case False
    then show ?thesis by (simp add: din_at_def with_din_def)
  qed
qed

section \<open>The blocks of a file\<close>

lemma unat_block: "b \<le> 2000 \<Longrightarrow> unat (of_nat b :: u32) = b"
  by (simp add: unat_of_nat)

text \<open>Block \<open>k\<close> of a file, through the indirect block from 12 on: what the kernel's \<open>bmap\<close> looks up.\<close>

definition faddr :: "u8 list list \<Rightarrow> u8 list \<Rightarrow> nat \<Rightarrow> nat" where
  "faddr img din k = unat (if k < 12 then din_addr k din else get32 (4 * (k - 12)) (img ! unat (din_addr 12 din)))"

text \<open>The blocks a file of \<open>n\<close> blocks uses, its indirect block included.\<close>

definition owned :: "u8 list list \<Rightarrow> u8 list \<Rightarrow> nat \<Rightarrow> nat list" where
  "owned img din n = (if 12 < n then [unat (din_addr 12 din)] else []) @ map (faddr img din) [0..<n]"

definition blocks_of :: "u8 list list \<Rightarrow> u8 list \<Rightarrow> nat \<Rightarrow> u8 list" where
  "blocks_of img din n = concat (map (\<lambda>k. img ! faddr img din k) [0..<n])"

lemma blocks_of_Suc: "blocks_of img din (n + 1) = blocks_of img din n @ img ! faddr img din n"
  by (simp add: blocks_of_def)

lemma blocks_of_cong:
  "(\<And>k. k < n \<Longrightarrow> img' ! faddr img' din' k = img ! faddr img din k) \<Longrightarrow> blocks_of img' din' n = blocks_of img din n"
  unfolding blocks_of_def by (rule arg_cong [where f = concat], rule map_cong) auto

definition wf_file :: "u8 list list \<Rightarrow> nat \<Rightarrow> u8 list \<Rightarrow> nat \<Rightarrow> bool" where
  "wf_file img fb din n \<longleftrightarrow>
     length din = 64 \<and> n \<le> 268 \<and> distinct (owned img din n) \<and> set (owned img din n) \<subseteq> {46..<fb} \<and>
     (\<forall>k. n \<le> k \<and> k < 12 \<longrightarrow> din_addr k din = 0) \<and> (n \<le> 12 \<longrightarrow> din_addr 12 din = 0) \<and>
     (12 < n \<longrightarrow> (\<forall>k. n \<le> k \<and> k < 268 \<longrightarrow> faddr img din k = 0))"

definition fresh :: "u8 list list \<Rightarrow> nat \<Rightarrow> bool" where
  "fresh img fb \<longleftrightarrow> (\<forall>b. fb \<le> b \<and> b < 2000 \<longrightarrow> img ! b = replicate 1024 0)"

definition cost :: "nat \<Rightarrow> nat" where
  "cost n = (if 12 < n then n + 1 else n)"

lemma cost_mono: "m \<le> n \<Longrightarrow> cost m \<le> cost n"
  by (simp add: cost_def)

lemma file_frame:
  assumes "wf_file img fb din n" "\<And>b. b \<in> set (owned img din n) \<Longrightarrow> img' ! b = img ! b" "fb \<le> fb'"
  shows "owned img' din n = owned img din n" "blocks_of img' din n = blocks_of img din n" "wf_file img' fb' din n"
proof -
  have ia: "img' ! unat (din_addr 12 din) = img ! unat (din_addr 12 din)" if "12 < n" using that assms(2) by (simp add: owned_def)
  have a: "faddr img' din k = faddr img din k" if "k < n \<or> 12 < n" for k using that ia by (auto simp: faddr_def)
  show o: "owned img' din n = owned img din n" using a by (simp add: owned_def)
  show "blocks_of img' din n = blocks_of img din n" using a assms(2) by (intro blocks_of_cong) (simp add: owned_def)
  have "set (owned img din n) \<subseteq> {46..<fb'}" using assms(1,3) by (auto simp: wf_file_def)
  then show "wf_file img' fb' din n" using assms(1) a unfolding wf_file_def o by simp
qed

lemma din_addr_set:
  assumes "length din = 64" "i \<le> 12" "j \<le> 12"
  shows "din_addr j (set_din_addr i a din) = (if j = i then a else din_addr j din)"
proof (cases "j = i")
  case False
  then have "12 + 4 * j + 4 \<le> 12 + 4 * i \<or> 12 + 4 * i + 4 \<le> 12 + 4 * j" by auto
  then show ?thesis using False assms by (simp add: din_addr_def set_din_addr_def get_put32_other)
qed (use assms in \<open>simp add: din_addr_def set_din_addr_def\<close>)

lemma set_din_addr_frame:
  assumes "length din = 64" "i \<le> 12"
  shows "length (set_din_addr i a din) = 64" "take 12 (set_din_addr i a din) = take 12 din"
  using assms by (simp_all add: set_din_addr_def put32_def put_bytes_at_def)

text \<open>
  A file that grows from \<open>n\<close> to \<open>n'\<close> blocks: its new blocks are zero, come from the free ones, and no block
  of another file changes.
\<close>

definition grown :: "u8 list list \<Rightarrow> nat \<Rightarrow> u8 list \<Rightarrow> nat \<Rightarrow> u8 list list \<Rightarrow> nat \<Rightarrow> u8 list \<Rightarrow> nat \<Rightarrow> bool" where
  "grown img fb din n img' fb' din' n' \<longleftrightarrow>
     sectors_ok img' \<and> wf_file img' fb' din' n' \<and> fb' + cost n = fb + cost n' \<and> fresh img' fb' \<and>
     blocks_of img' din' n' = blocks_of img din n @ replicate ((n' - n) * 1024) 0 \<and>
     (\<forall>b. b \<notin> set (owned img' din' n') \<longrightarrow> img' ! b = img ! b) \<and>
     set (owned img' din' n') \<subseteq> set (owned img din n) \<union> {fb..<fb'} \<and> set (owned img din n) \<subseteq> set (owned img' din' n') \<and>
     take 12 din' = take 12 din"

lemma block_exists:
  assumes "wf_file img fb din n" "k < n"
  shows "faddr img din k \<noteq> 0" "faddr img din k < fb" "12 < n \<Longrightarrow> unat (din_addr 12 din) \<noteq> 0" "12 < n \<Longrightarrow> unat (din_addr 12 din) < fb"
proof -
  have "set (owned img din n) \<subseteq> {46..<fb}" using assms(1) by (simp add: wf_file_def)
  moreover have "faddr img din k \<in> set (owned img din n)" "12 < n \<Longrightarrow> unat (din_addr 12 din) \<in> set (owned img din n)"
    using assms(2) by (simp_all add: owned_def)
  ultimately show "faddr img din k \<noteq> 0" "faddr img din k < fb" "12 < n \<Longrightarrow> unat (din_addr 12 din) \<noteq> 0" "12 < n \<Longrightarrow> unat (din_addr 12 din) < fb"
    by fastforce+
qed

lemma grow_none:
  assumes "wf_file (image s) fb din n" "sectors_ok (image s)" "fresh (image s) fb" "fb \<le> 2000" "n = fbn + 1"
  shows "iappend_block fbn din s = Inr ((of_nat (faddr (image s) din fbn), din), s)" "grown (image s) fb din n (image s) fb din n"
proof -
  note e = block_exists [OF assms(1), of fbn]
  show "grown (image s) fb din n (image s) fb din n" using assms by (simp add: grown_def)
  show "iappend_block fbn din s = Inr ((of_nat (faddr (image s) din fbn), din), s)"
  proof (cases "fbn < 12")
    case True
    then have "din_addr fbn din \<noteq> 0" "of_nat (faddr (image s) din fbn) = din_addr fbn din" using e(1) assms(5) by (auto simp: faddr_def)
    then show ?thesis using True by (simp add: iappend_block_def claim_def mkfs_layout)
  next
    case False
    let ?ia = "din_addr 12 din"
    have ia: "?ia \<noteq> 0" "unat ?ia < 2000" using e(3,4) False assms(4,5) by auto
    have x: "get32 (4 * (fbn - 12)) (image s ! unat ?ia) \<noteq> 0" "of_nat (faddr (image s) din fbn) = get32 (4 * (fbn - 12)) (image s ! unat ?ia)"
      using e(1) assms(5) False by (auto simp: faddr_def)
    show ?thesis using False ia x rsect_small [OF assms(2) ia(2)]
      by (simp add: iappend_block_def claim_def mkfs_layout Let_def)
  qed
qed

lemma grow_direct:
  assumes w: "wf_file (image s) fb din n" "sectors_ok (image s)" "fresh (image s) fb" "fb < 2000" "46 \<le> fb"
    and n: "n < 12" and f: "freeblock s = of_nat fb"
  defines "din' \<equiv> set_din_addr n (of_nat fb) din"
  shows "iappend_block n din s = Inr ((of_nat (faddr (image s) din' n), din'), s\<lparr>freeblock := of_nat (fb + 1)\<rparr>)"
    "grown (image s) fb din n (image s) (fb + 1) din' (n + 1)"
proof -
  have l: "length din = 64" and z: "din_addr n din = 0" "din_addr 12 din = 0" "\<And>k. n \<le> k \<Longrightarrow> k < 12 \<Longrightarrow> din_addr k din = 0"
    using w(1) n by (auto simp: wf_file_def)
  have u: "unat (of_nat fb :: u32) = fb" using w(4) by (simp add: unat_of_nat)
  note d = din_addr_set [OF l, of n, folded din'_def]
  have a: "faddr (image s) din' k = (if k = n then fb else faddr (image s) din k)" if "k \<le> n" for k
    using that n u d [of k] by (simp add: faddr_def din'_def)
  have o: "owned (image s) din' (n + 1) = owned (image s) din n @ [fb]"
    using n a by (simp add: owned_def cong: map_cong)
  have "blocks_of (image s) din' n = blocks_of (image s) din n" by (rule blocks_of_cong) (use a in simp)
  then have b: "blocks_of (image s) din' (n + 1) = blocks_of (image s) din n @ replicate 1024 0"
    unfolding blocks_of_Suc using a [of n] w(3,4) by (simp add: fresh_def)
  have "set (owned (image s) din n) \<subseteq> {46..<fb}" "distinct (owned (image s) din n)" using w(1) by (simp_all add: wf_file_def)
  then have "wf_file (image s) (fb + 1) din' (n + 1)" unfolding wf_file_def o
    using l n z d w(5) set_din_addr_frame(1) [OF l, of n] by (auto simp: din'_def)
  then show "grown (image s) fb din n (image s) (fb + 1) din' (n + 1)"
    using w n l b o by (simp add: grown_def cost_def fresh_def din'_def set_din_addr_frame subset_insertI)
  show "iappend_block n din s = Inr ((of_nat (faddr (image s) din' n), din'), s\<lparr>freeblock := of_nat (fb + 1)\<rparr>)"
    using n z f d [of n] a [of n] by (simp add: iappend_block_def claim_def mkfs_layout din'_def)
qed

lemma grow_first_indirect:
  assumes w: "wf_file (image s) fb din 12" "sectors_ok (image s)" "fresh (image s) fb" "fb + 1 < 2000" "46 \<le> fb"
    and f: "freeblock s = of_nat fb"
  defines "din' \<equiv> set_din_addr 12 (of_nat fb) din" and "img' \<equiv> (image s)[fb := put32 0 (of_nat (fb + 1)) (replicate 1024 0)]"
  shows "iappend_block 12 din s = Inr ((of_nat (faddr img' din' 12), din'), s\<lparr>image := img', freeblock := of_nat (fb + 2)\<rparr>)"
    "grown (image s) fb din 12 img' (fb + 2) din' 13"
proof -
  let ?z = "replicate 1024 0 :: u8 list" and ?x = "of_nat (fb + 1) :: u32"
  have l: "length din = 64" and z: "din_addr 12 din = 0" using w(1) by (auto simp: wf_file_def)
  have u: "unat (of_nat fb :: u32) = fb" "unat ?x = fb + 1" by (rule unat_block, use w(4) in simp)+
  note d = din_addr_set [OF l, of 12, folded din'_def]
  have ia: "din_addr 12 din' = of_nat fb" using d [of 12] by (simp add: din'_def)
  have len: "length (image s) = 2000" using w(2) by (simp add: sectors_ok_def)
  have i: "img' ! fb = put32 0 ?x ?z" "\<And>b. b \<noteq> fb \<Longrightarrow> img' ! b = image s ! b" using w(4) len by (simp_all add: img'_def)
  have zero: "get32 k ?z = 0" if "k + 4 \<le> 1024" for k using that by (simp add: get32_def get_le_def)
  have a: "faddr img' din' k = (if k < 12 then faddr (image s) din k else if k = 12 then fb + 1 else 0)" if "k < 268" for k
  proof -
    have "get32 (4 * (k - 12)) (put32 0 ?x ?z) = 0" if "12 < k" using that \<open>k < 268\<close> zero [of "4 * (k - 12)"] by (subst get_put32_other) auto
    then show ?thesis using that d [of k] ia u by (auto simp: faddr_def din'_def i(1))
  qed
  have own: "set (owned (image s) din 12) \<subseteq> {46..<fb}" "distinct (owned (image s) din 12)" using w(1) by (simp_all add: wf_file_def)
  have m: "map (faddr img' din') [0..<13] = map (faddr (image s) din) [0..<12] @ [fb + 1]"
    using a upt_Suc_append [of 0 12] by simp
  have o: "owned img' din' 13 = fb # owned (image s) din 12 @ [fb + 1]"
    unfolding owned_def m using ia u by simp
  have "blocks_of img' din' 12 = blocks_of (image s) din 12"
  proof (rule blocks_of_cong)
    fix k :: nat assume k: "k < 12"
    then have "faddr (image s) din k \<in> set (owned (image s) din 12)" by (simp add: owned_def)
    then have "faddr (image s) din k \<noteq> fb" using own(1) by auto
    then show "img' ! faddr img' din' k = image s ! faddr (image s) din k" using a [of k] k i(2) by simp
  qed
  then have b: "blocks_of img' din' 13 = blocks_of (image s) din 12 @ ?z"
    using blocks_of_Suc [of img' din' 12] a [of 12] i(2) [of "fb + 1"] w(3,4) by (simp add: fresh_def)
  have ok: "sectors_ok img'" unfolding img'_def by (intro sectors_ok_upd w(2)) simp
  have "wf_file img' (fb + 2) din' 13" unfolding wf_file_def o using own w(5) a set_din_addr_frame(1) [OF l, of 12]
    by (auto simp: din'_def)
  then show "grown (image s) fb din 12 img' (fb + 2) din' 13"
    using ok b o i w(3) set_din_addr_frame(2) [OF l] by (auto simp: grown_def cost_def fresh_def din'_def)
  have g: "claim 12 din s = (din', s\<lparr>freeblock := of_nat (fb + 1)\<rparr>)" using z f by (simp add: claim_def din'_def)
  have r: "rsect (of_nat fb) (s\<lparr>freeblock := of_nat (fb + 1)\<rparr>) = Inr (?z, s\<lparr>freeblock := of_nat (fb + 1)\<rparr>)"
    using rsect_small [of "s\<lparr>freeblock := of_nat (fb + 1)\<rparr>" "of_nat fb"] w(2-4) u by (simp add: fresh_def)
  have ws: "wsect (of_nat fb) (put32 0 ?x ?z) (s\<lparr>freeblock := of_nat (fb + 2)\<rparr>) = Inr ((), s\<lparr>image := img', freeblock := of_nat (fb + 2)\<rparr>)"
    using wsect_small [of "s\<lparr>freeblock := of_nat (fb + 2)\<rparr>" "of_nat fb"] w(2,4) u by (simp add: img'_def)
  show "iappend_block 12 din s = Inr ((of_nat (faddr img' din' 12), din'), s\<lparr>image := img', freeblock := of_nat (fb + 2)\<rparr>)"
    using g r ws ia a [of 12] zero [of 0] by (simp add: iappend_block_def mkfs_layout Let_def add.commute)
qed

lemma grow_indirect:
  assumes w: "wf_file (image s) fb din n" "sectors_ok (image s)" "fresh (image s) fb" "fb < 2000" "46 \<le> fb"
    and n: "12 < n" "n < 268" and f: "freeblock s = of_nat fb"
  defines "ia \<equiv> unat (din_addr 12 din)"
  defines "img' \<equiv> (image s)[ia := put32 (4 * (n - 12)) (of_nat fb) (image s ! ia)]"
  shows "iappend_block n din s = Inr ((of_nat (faddr img' din n), din), s\<lparr>image := img', freeblock := of_nat (fb + 1)\<rparr>)"
    "grown (image s) fb din n img' (fb + 1) din (n + 1)"
proof -
  let ?k = "4 * (n - 12)" and ?x = "of_nat fb :: u32"
  have u: "unat ?x = fb" using w(4) by (simp add: unat_of_nat)
  have own: "set (owned (image s) din n) \<subseteq> {46..<fb}" "distinct (owned (image s) din n)" "length din = 64"
    and z: "\<And>k. n \<le> k \<Longrightarrow> k < 268 \<Longrightarrow> faddr (image s) din k = 0"
    using w(1) n(1) by (simp_all add: wf_file_def)
  have iao: "ia \<in> set (owned (image s) din n)" using n(1) by (simp add: owned_def ia_def)
  then have ia: "46 \<le> ia" "ia < 2000" "ia \<noteq> fb" "ia < fb" using own(1) w(4) by auto
  have len: "length (image s) = 2000" "length (image s ! ia) = 1024" using w(2) ia by (auto simp: sectors_ok_def)
  have i: "img' ! ia = put32 ?k ?x (image s ! ia)" "\<And>b. b \<noteq> ia \<Longrightarrow> img' ! b = image s ! b" using ia len by (simp_all add: img'_def)
  have a: "faddr img' din k = (if k = n then fb else faddr (image s) din k)" if "k < 268" for k
  proof -
    have "get32 (4 * (k - 12)) (put32 ?k ?x (image s ! ia)) = (if k = n then ?x else get32 (4 * (k - 12)) (image s ! ia))" if "12 \<le> k"
      using that \<open>k < 268\<close> n len(2) by (cases "k = n") (auto intro: get_put32_other)
    then show ?thesis using n u i(1) by (auto simp: faddr_def ia_def [symmetric])
  qed
  have m: "map (faddr img' din) [0..<n + 1] = map (faddr (image s) din) [0..<n] @ [fb]" using a n by simp
  have o: "owned img' din (n + 1) = owned (image s) din n @ [fb]" unfolding owned_def m using n(1) by simp
  have "blocks_of img' din n = blocks_of (image s) din n"
  proof (rule blocks_of_cong)
    fix k assume k: "k < n"
    have "faddr (image s) din k \<in> faddr (image s) din ` {0..<n}" using k by auto
    then have "faddr (image s) din k \<noteq> ia" using own(2) n(1) by (auto simp: owned_def ia_def)
    then show "img' ! faddr img' din k = image s ! faddr (image s) din k" using a [of k] k n(2) i(2) by simp
  qed
  then have b: "blocks_of img' din (n + 1) = blocks_of (image s) din n @ replicate 1024 0"
    unfolding blocks_of_Suc using a [of n] n(2) i(2) [of fb] ia(3) w(3,4) by (simp add: fresh_def)
  have ok: "sectors_ok img'" unfolding img'_def using n len by (intro sectors_ok_upd w(2)) simp
  have "wf_file img' (fb + 1) din (n + 1)" unfolding wf_file_def o using own w(5) a z n by (auto simp del: faddr_def)
  moreover have "\<forall>c. c \<notin> set (owned (image s) din n) \<longrightarrow> img' ! c = image s ! c" using iao i(2) by metis
  ultimately show "grown (image s) fb din n img' (fb + 1) din (n + 1)"
    using ok b o i w(3) ia n by (auto simp: grown_def cost_def fresh_def)
  have g: "claim 12 din s = (din, s)" using ia(1) by (auto simp: claim_def ia_def)
  have r: "rsect (din_addr 12 din) s = Inr (image s ! ia, s)" using rsect_small [OF w(2)] ia(2) by (simp add: ia_def)
  have ws: "wsect (din_addr 12 din) (put32 ?k ?x (image s ! ia)) (s\<lparr>freeblock := of_nat (fb + 1)\<rparr>) =
      Inr ((), s\<lparr>image := img', freeblock := of_nat (fb + 1)\<rparr>)"
    using wsect_small [of "s\<lparr>freeblock := of_nat (fb + 1)\<rparr>" "din_addr 12 din"] w(2) ia(2) by (simp add: img'_def ia_def)
  have g0: "get32 ?k (image s ! ia) = 0" using z [of n] n by (simp add: faddr_def ia_def unat_eq_zero)
  show "iappend_block n din s = Inr ((of_nat (faddr img' din n), din), s\<lparr>image := img', freeblock := of_nat (fb + 1)\<rparr>)"
    using g r ws g0 f a [of n] n len(2) by (simp add: iappend_block_def mkfs_layout Let_def add.commute)
qed

lemma iappend_block_grows:
  assumes w: "wf_file (image s) fb din n" "sectors_ok (image s)" "fresh (image s) fb" "46 \<le> fb" and f: "freeblock s = of_nat fb"
    and n: "fbn = n \<or> fbn + 1 = n" "fbn < 268" "fb + cost (fbn + 1) \<le> 2000 + cost n" "fb \<le> 2000"
  shows "\<exists>img' fb' din'. iappend_block fbn din s = Inr ((of_nat (faddr img' din' fbn), din'), s\<lparr>image := img', freeblock := of_nat fb'\<rparr>) \<and>
    grown (image s) fb din n img' fb' din' (fbn + 1)"
proof -
  consider "fbn + 1 = n" | "fbn = n" "n < 12" | "fbn = n" "n = 12" | "fbn = n" "12 < n" using n(1) by linarith
  then show ?thesis
  proof cases
    case 1
    have e: "s\<lparr>image := image s, freeblock := of_nat fb\<rparr> = s" using f by simp
    show ?thesis using grow_none [OF w(1-3) n(4) 1 [symmetric]] 1 e by (intro exI [of _ "image s"] exI [of _ fb] exI [of _ din]) simp
  next
    case 2
    then have "fb < 2000" using n(3) by (simp add: cost_def)
    note g = grow_direct [OF w(1-3) this w(4) 2(2) f]
    show ?thesis using g 2(1) by (intro exI [of _ "image s"] exI [of _ "fb + 1"] exI [of _ "set_din_addr n (of_nat fb) din"]) simp
  next
    case 3
    then have "fb + 1 < 2000" using n(3) by (simp add: cost_def)
    note g = grow_first_indirect [OF w(1) [unfolded 3(2)] w(2,3) this w(4) f]
    show ?thesis using g 3 by (intro exI) (rule conjI, simp_all)
  next
    case 4
    then have "fb < 2000" using n(3) by (simp add: cost_def)
    note g = grow_indirect [OF w(1-3) this w(4) 4(2) _ f]
    show ?thesis using g n(2) 4(1) by (intro exI) (rule conjI, simp_all)
  qed
qed

section \<open>Appending to a file\<close>

lemma length_blocks_of:
  assumes "wf_file img fb din n" "sectors_ok img" "fb \<le> 2000" "m \<le> n"
  shows "length (blocks_of img din m) = m * 1024"
  using assms(4)
proof (induction m)
  case (Suc m)
  then have "faddr img din m < 2000" using block_exists(2) [OF assms(1), of m] assms(3) by simp
  then show ?case using Suc assms(2) blocks_of_Suc [of img din m] by (simp add: sectors_ok_def)
qed (simp add: blocks_of_def)

text \<open>Writing into the last block of a file.\<close>

lemma write_last_block:
  assumes w: "wf_file img fb din (k + 1)" "sectors_ok img" "fb \<le> 2000" and l: "length buf = 1024"
  defines "img' \<equiv> img[faddr img din k := buf]"
  shows "sectors_ok img'" "owned img' din (k + 1) = owned img din (k + 1)" "wf_file img' fb din (k + 1)"
    "blocks_of img' din (k + 1) = blocks_of img din k @ buf" "\<And>b. b \<noteq> faddr img din k \<Longrightarrow> img' ! b = img ! b"
proof -
  let ?x = "faddr img din k"
  have x: "?x < 2000" using block_exists(2) [OF w(1), of k] w(3) by simp
  show ok: "sectors_ok img'" unfolding img'_def by (rule sectors_ok_upd [OF w(2) l])
  have i: "img' ! ?x = buf" using x w(2) by (simp add: img'_def sectors_ok_def)
  show j: "\<And>b. b \<noteq> ?x \<Longrightarrow> img' ! b = img ! b" by (simp add: img'_def)
  have dist: "distinct (owned img din (k + 1))" using w(1) by (simp add: wf_file_def)
  have ia: "unat (din_addr 12 din) \<noteq> ?x" if "12 < k + 1" using dist that by (simp add: owned_def)
  have a: "faddr img' din m = faddr img din m" if "m < 12 \<or> 12 < k + 1" for m using that ia j by (auto simp: faddr_def)
  then have a': "faddr img' din m = faddr img din m" if "m < k + 1" for m using that by (cases "m < 12") auto
  show o: "owned img' din (k + 1) = owned img din (k + 1)" unfolding owned_def using a' by simp
  show "wf_file img' fb din (k + 1)" using w(1) a unfolding wf_file_def o by simp
  have "blocks_of img' din k = blocks_of img din k"
  proof (rule blocks_of_cong)
    fix m assume m: "m < k"
    then have "faddr img din m \<in> faddr img din ` {0..<k}" by auto
    then have "faddr img din m \<noteq> ?x" using dist by (auto simp: owned_def)
    then show "img' ! faddr img' din m = img ! faddr img din m" using a' [of m] m j by simp
  qed
  then show "blocks_of img' din (k + 1) = blocks_of img din k @ buf" unfolding blocks_of_Suc using a' [of k] i by simp
qed

definition nblk :: "nat \<Rightarrow> nat" where
  "nblk sz = (sz + 1023) div 1024"

text \<open>The inode \<open>din\<close> holds the bytes \<open>bs\<close>, and zeros behind them in its last block.\<close>

definition holds_file :: "u8 list list \<Rightarrow> nat \<Rightarrow> u8 list \<Rightarrow> u8 list \<Rightarrow> bool" where
  "holds_file img fb din bs \<longleftrightarrow>
     wf_file img fb din (nblk (length bs)) \<and> blocks_of img din (nblk (length bs)) = bs @ replicate (1024 * nblk (length bs) - length bs) 0"

definition appended :: "u8 list list \<Rightarrow> nat \<Rightarrow> u8 list \<Rightarrow> u8 list \<Rightarrow> u8 list list \<Rightarrow> nat \<Rightarrow> u8 list \<Rightarrow> u8 list \<Rightarrow> bool" where
  "appended img fb din bs img' fb' din' bs' \<longleftrightarrow>
     sectors_ok img' \<and> holds_file img' fb' din' bs' \<and> fb' + cost (nblk (length bs)) = fb + cost (nblk (length bs')) \<and> fresh img' fb' \<and>
     (\<forall>b. b \<notin> set (owned img' din' (nblk (length bs'))) \<longrightarrow> img' ! b = img ! b) \<and>
     set (owned img' din' (nblk (length bs'))) \<subseteq> set (owned img din (nblk (length bs))) \<union> {fb..<fb'} \<and>
     set (owned img din (nblk (length bs))) \<subseteq> set (owned img' din' (nblk (length bs'))) \<and> take 12 din' = take 12 din \<and> fb \<le> fb'"

lemma appended_trans:
  assumes "appended img fb din bs img' fb' din' bs'" "appended img' fb' din' bs' img'' fb'' din'' bs''"
  shows "appended img fb din bs img'' fb'' din'' bs''"
proof -
  have "b \<notin> set (owned img'' din'' (nblk (length bs''))) \<Longrightarrow> img'' ! b = img ! b" for b
    using assms unfolding appended_def by (metis subsetD)
  moreover have "set (owned img'' din'' (nblk (length bs''))) \<subseteq> set (owned img din (nblk (length bs))) \<union> {fb..<fb''}"
    using assms unfolding appended_def by fastforce
  ultimately show ?thesis using assms unfolding appended_def by auto
qed

lemma nblk_facts:
  fixes off k :: nat
  shows "nblk off = off div 1024 + (if off mod 1024 = 0 then 0 else 1)" "off div 1024 = nblk off \<or> off div 1024 + 1 = nblk off"
    "0 < k \<Longrightarrow> k \<le> (off div 1024 + 1) * 1024 - off \<Longrightarrow> nblk (off + k) = off div 1024 + 1"
proof -
  let ?q = "off div 1024" and ?r = "off mod 1024"
  have r: "?r < 1024" "off = ?q * 1024 + ?r" by simp_all
  show 1: "nblk off = ?q + (if ?r = 0 then 0 else 1)"
  proof (cases "?r = 0")
    case True
    have "(?q * 1024 + 1023) div 1024 = ?q" by simp
    then show ?thesis using r True by (simp add: nblk_def)
  next
    case False
    have "(q * 1024 + x + 1023) div 1024 = q + 1" if "0 < x" "x < 1024" for q x :: nat by (rule div_nat_eqI) (use that in auto)
    from this [of ?r ?q] show ?thesis using r False by (simp add: nblk_def)
  qed
  show "?q = nblk off \<or> ?q + 1 = nblk off" unfolding 1 by simp
  show "nblk (off + k) = ?q + 1" if "0 < k" "k \<le> (?q + 1) * 1024 - off"
    unfolding nblk_def using that r by (intro div_nat_eqI) auto
qed

lemma put_bytes_tail:
  "length c \<le> m \<Longrightarrow> put_bytes_at (length a) c (a @ replicate m (0 :: u8)) = a @ c @ replicate (m - length c) 0"
  by (simp add: put_bytes_at_def)

lemma append_chunk:
  assumes h: "holds_file (image s) fb din bs" "sectors_ok (image s)" "fresh (image s) fb" "46 \<le> fb" "fb \<le> 2000"
    and f: "freeblock s = of_nat fb" and c: "c \<noteq> []" "length c \<le> (length bs div 1024 + 1) * 1024 - length bs"
    and n: "length bs div 1024 < 268" "fb + cost (length bs div 1024 + 1) \<le> 2000 + cost (nblk (length bs))"
  shows "\<exists>x din' s1 buf img' fb'. iappend_block (length bs div 1024) din s = Inr ((x, din'), s1) \<and> rsect x s1 = Inr (buf, s1) \<and>
    wsect x (put_bytes_at (length bs - length bs div 1024 * 1024) c buf) s1 = Inr ((), s\<lparr>image := img', freeblock := of_nat fb'\<rparr>) \<and>
    appended (image s) fb din bs img' fb' din' (bs @ c)"
proof -
  let ?k = "length bs div 1024" and ?n = "nblk (length bs)"
  let ?a = "drop (?k * 1024) bs" and ?m = "(?k + 1) * 1024 - length bs"
  have w: "wf_file (image s) fb din ?n" and b: "blocks_of (image s) din ?n = bs @ replicate (1024 * ?n - length bs) 0"
    using h(1) by (simp_all add: holds_file_def)
  obtain img1 fb1 din1 where g: "iappend_block ?k din s = Inr ((of_nat (faddr img1 din1 ?k), din1), s\<lparr>image := img1, freeblock := of_nat fb1\<rparr>)"
      "grown (image s) fb din ?n img1 fb1 din1 (?k + 1)"
    using iappend_block_grows [OF w h(2-4) f nblk_facts(2) n h(5)] by blast
  note G = g(2) [unfolded grown_def]
  have nk: "?n \<le> ?k + 1" using nblk_facts(2) [of "length bs"] by auto
  have fb1: "fb1 \<le> 2000" "fb \<le> fb1" using G n(2) cost_mono [OF nk] by auto
  have wf1: "wf_file img1 fb1 din1 (?k + 1)" and ok1: "sectors_ok img1" using G by auto
  let ?x = "faddr img1 din1 ?k"
  have x: "?x < fb1" using block_exists(2) [OF wf1, of ?k] by simp
  have xo: "?x \<in> set (owned img1 din1 (?k + 1))" by (simp add: owned_def)
  have kb: "?k * 1024 \<le> length bs" "length bs \<le> (?k + 1) * 1024" using block_end [of "length bs"] by (simp_all add: mkfs_layout)
  have nb: "length bs \<le> 1024 * ?n" unfolding nblk_facts(1) using kb by (auto simp: algebra_simps)
  have "1024 * ?n - length bs + (?k + 1 - ?n) * 1024 = ?m" using nk nb kb by (auto simp: algebra_simps)
  then have "blocks_of img1 din1 (?k + 1) = bs @ replicate ?m 0" using G b by (simp add: replicate_add [symmetric])
  then have e: "blocks_of img1 din1 ?k @ img1 ! ?x = (take (?k * 1024) bs) @ ?a @ replicate ?m 0" unfolding blocks_of_Suc by simp
  have l: "length (blocks_of img1 din1 ?k) = length (take (?k * 1024) bs)" using length_blocks_of [OF wf1 ok1 fb1(1), of ?k] kb by simp
  have e: "blocks_of img1 din1 ?k = take (?k * 1024) bs" "img1 ! ?x = ?a @ replicate ?m 0" using append_eq_append_conv [OF disjI1 [OF l]] e by auto
  let ?buf = "?a @ c @ replicate (?m - length c) 0"
  have p: "put_bytes_at (length bs - ?k * 1024) c (img1 ! ?x) = ?buf" using put_bytes_tail [OF c(2), of ?a] e(2) by simp
  have lb: "length ?buf = 1024" using c(2) kb by auto
  let ?img2 = "img1[?x := ?buf]"
  note W = write_last_block [OF wf1 ok1 fb1(1) lb]
  have n2: "nblk (length (bs @ c)) = ?k + 1" using nblk_facts(3) [OF _ c(2)] c(1) by simp
  have "blocks_of ?img2 din1 (?k + 1) = (bs @ c) @ replicate (?m - length c) 0"
    unfolding W(4) e(1) by (metis append.assoc append_take_drop_id)
  moreover have "?m - length c = 1024 * (?k + 1) - length (bs @ c)" by simp
  ultimately have hf: "holds_file ?img2 fb1 din1 (bs @ c)" unfolding holds_file_def n2 using W(3) by simp
  have "fresh ?img2 fb1" using G x by (auto simp: fresh_def)
  moreover have "\<forall>d. d \<notin> set (owned ?img2 din1 (?k + 1)) \<longrightarrow> ?img2 ! d = image s ! d"
    unfolding W(2) using G xo W(5) by metis
  ultimately have A: "appended (image s) fb din bs ?img2 fb1 din1 (bs @ c)"
    unfolding appended_def n2 using W(1,2) hf G fb1(2) by simp
  let ?s1 = "s\<lparr>image := img1, freeblock := of_nat fb1\<rparr>"
  have u: "unat (of_nat ?x :: u32) = ?x" using x fb1(1) by (intro unat_block) simp
  have x2: "unat (of_nat ?x :: u32) < 2000" using x fb1(1) u by simp
  have "rsect (of_nat ?x) ?s1 = Inr (img1 ! ?x, ?s1)" using rsect_small [of ?s1, OF _ x2] ok1 u by simp
  moreover have "wsect (of_nat ?x) ?buf ?s1 = Inr ((), s\<lparr>image := ?img2, freeblock := of_nat fb1\<rparr>)"
    using wsect_small [of ?s1, OF _ x2] ok1 u by simp
  ultimately show ?thesis using g(1) A p by metis
qed

lemma appended_refl: "holds_file img fb din bs \<Longrightarrow> sectors_ok img \<Longrightarrow> fresh img fb \<Longrightarrow> appended img fb din bs img fb din bs"
  by (simp add: appended_def)

lemma nblk_mono: "m \<le> n \<Longrightarrow> nblk m \<le> nblk n"
  by (simp add: nblk_def div_le_mono)

lemma iappend_loop_appends:
  assumes "holds_file (image s) fb din bs" "sectors_ok (image s)" "fresh (image s) fb" "46 \<le> fb" "fb \<le> 2000" "freeblock s = of_nat fb"
    "length bs + length p \<le> 268 * 1024" "fb + cost (nblk (length bs + length p)) \<le> 2000 + cost (nblk (length bs))"
  shows "\<exists>img' fb' din'. iappend_loop p (length bs) din s = Inr ((length bs + length p, din'), s\<lparr>image := img', freeblock := of_nat fb'\<rparr>) \<and>
    appended (image s) fb din bs img' fb' din' (bs @ p)"
  using assms
proof (induction "length p" arbitrary: p bs din s fb rule: less_induct)
  case less
  note h = less.prems
  show ?case
  proof (cases "p = []")
    case True
    have e: "s\<lparr>image := image s, freeblock := of_nat fb\<rparr> = s" using h(6) by simp
    show ?thesis unfolding True using appended_refl [OF h(1-3)] e
      by (intro exI [of _ "image s"] exI [of _ fb] exI [of _ din]) (simp add: iappend_loop.simps)
  next
    case False
    let ?k = "length bs div 1024"
    let ?n1 = "min (length p) ((?k + 1) * 1024 - length bs)"
    let ?c = "take ?n1 p"
    have r: "length bs < (?k + 1) * 1024" using block_end [of "length bs"] by (simp add: mkfs_layout)
    have c: "?c \<noteq> []" "length ?c \<le> (?k + 1) * 1024 - length bs" "length ?c = ?n1" "0 < ?n1" using False r by auto
    have k: "?k < 268" using h(7) False by (intro div_less_iff_less_mult [THEN iffD2]) (auto simp: less_le_trans length_greater_0_conv [symmetric] simp del: length_greater_0_conv)
    have nk: "nblk (length (bs @ ?c)) = ?k + 1" using nblk_facts(3) [OF c(4)] c(3) by simp
    have "?k + 1 \<le> nblk (length bs + length p)" using nblk_mono [of "length (bs @ ?c)" "length bs + length p"] nk by simp
    then have cap: "fb + cost (?k + 1) \<le> 2000 + cost (nblk (length bs))" using h(8) cost_mono [of "?k + 1" "nblk (length bs + length p)"] by linarith
    obtain x din1 s1 buf img1 fb1 where s1: "iappend_block ?k din s = Inr ((x, din1), s1)" "rsect x s1 = Inr (buf, s1)"
        "wsect x (put_bytes_at (length bs - ?k * 1024) ?c buf) s1 = Inr ((), s\<lparr>image := img1, freeblock := of_nat fb1\<rparr>)"
        "appended (image s) fb din bs img1 fb1 din1 (bs @ ?c)"
      using append_chunk [OF h(1-6) c(1,2) k cap] by blast
    let ?s2 = "s\<lparr>image := img1, freeblock := of_nat fb1\<rparr>"
    have step: "iappend_loop p (length bs) din s = iappend_loop (drop ?n1 p) (length (bs @ ?c)) din1 ?s2"
      using False k s1(1-3) c(3) by (subst iappend_loop.simps) (simp add: Let_def mkfs_layout)
    from s1(4) have A: "sectors_ok img1" "holds_file img1 fb1 din1 (bs @ ?c)" "fresh img1 fb1" "fb \<le> fb1"
        "fb1 + cost (nblk (length bs)) = fb + cost (nblk (length (bs @ ?c)))"
      unfolding appended_def by blast+
    have t: "length (bs @ ?c) + length (drop ?n1 p) = length bs + length p" using c(3) by simp
    have lt: "length (drop ?n1 p) < length p" using c(4) False by (simp del: min_less_iff_conj)
    have fb1: "fb1 \<le> 2000" "46 \<le> fb1" using A(4,5) cap h(4) unfolding nk by linarith+
    have cap1: "fb1 + cost (nblk (length (bs @ ?c) + length (drop ?n1 p))) \<le> 2000 + cost (nblk (length (bs @ ?c)))"
      unfolding t using A(5) h(8) by linarith
    have s2: "image ?s2 = img1" "freeblock ?s2 = of_nat fb1" by simp_all
    have "\<exists>img' fb' din'. iappend_loop (drop ?n1 p) (length (bs @ ?c)) din1 ?s2 =
        Inr ((length (bs @ ?c) + length (drop ?n1 p), din'), ?s2\<lparr>image := img', freeblock := of_nat fb'\<rparr>) \<and>
        appended (image ?s2) fb1 din1 (bs @ ?c) img' fb' din' ((bs @ ?c) @ drop ?n1 p)"
      by (rule less.hyps [OF lt _ _ _ fb1(2,1) s2(2) _ cap1]) (unfold s2 t, (rule A h(7))+)
    then show ?thesis using step appended_trans [OF s1(4)] c(3) by fastforce
  qed
qed

section \<open>The inodes of an image\<close>

text \<open>
  Inodes 1 to \<open>N - 1\<close> hold the files \<open>F\<close> and have the types \<open>K\<close>; no two files share a block, the blocks from \<open>fb\<close> on
  are free and those between the metadata and \<open>fb\<close> are all in use.
\<close>

abbreviation blocks_at :: "u8 list list \<Rightarrow> (nat \<Rightarrow> u8 list) \<Rightarrow> nat \<Rightarrow> nat set" where
  "blocks_at img F i \<equiv> set (owned img (din_at img i) (nblk (length (F i))))"

definition inode_holds :: "u8 list list \<Rightarrow> nat \<Rightarrow> u8 list \<Rightarrow> u8 list \<Rightarrow> u16 \<Rightarrow> bool" where
  "inode_holds img fb din bs t \<longleftrightarrow>
     holds_file img fb din bs \<and> get32 8 din = of_nat (length bs) \<and> get16 0 din = t \<and> get16 6 din = 1"

definition fs_image :: "u8 list list \<Rightarrow> nat \<Rightarrow> nat \<Rightarrow> (nat \<Rightarrow> u8 list) \<Rightarrow> (nat \<Rightarrow> u16) \<Rightarrow> bool" where
  "fs_image img fb N F K \<longleftrightarrow>
     sectors_ok img \<and> fresh img fb \<and> fb \<le> 2000 \<and> N \<le> 200 \<and>
     (\<forall>i. 1 \<le> i \<and> i < N \<longrightarrow> inode_holds img fb (din_at img i) (F i) (K i)) \<and>
     (\<forall>i j. 1 \<le> i \<and> i < N \<and> 1 \<le> j \<and> j < N \<and> i \<noteq> j \<longrightarrow> blocks_at img F i \<inter> blocks_at img F j = {}) \<and>
     fb = 46 + (\<Sum>i = 1..<N. cost (nblk (length (F i))))"

text \<open>The superblock, the log and the bitmap are not touched.\<close>

definition keeps_meta :: "u8 list list \<Rightarrow> u8 list list \<Rightarrow> bool" where
  "keeps_meta img img' \<longleftrightarrow> (\<forall>b. b < 32 \<or> b = 45 \<longrightarrow> img' ! b = img ! b)"

lemma keeps_meta_trans: "keeps_meta a b \<Longrightarrow> keeps_meta b c \<Longrightarrow> keeps_meta a c"
  by (simp add: keeps_meta_def)

lemma same_addrs:
  assumes "\<And>k. k \<le> 12 \<Longrightarrow> din_addr k din' = din_addr k din" "length din' = length din"
  shows "owned img din' n = owned img din n" "holds_file img fb din' bs \<longleftrightarrow> holds_file img fb din bs"
proof -
  have a: "faddr img din' = faddr img din" using assms(1) by (auto simp: faddr_def fun_eq_iff)
  show o: "owned img din' n = owned img din n" for n using a assms(1) by (simp add: owned_def)
  have w: "wf_file img fb din' n \<longleftrightarrow> wf_file img fb din n" for n
    using a assms unfolding wf_file_def o by (metis less_imp_le_nat order_refl)
  show "holds_file img fb din' bs \<longleftrightarrow> holds_file img fb din bs" unfolding holds_file_def w blocks_of_def a ..
qed

lemma put_size_frame:
  assumes "length din = 64"
  shows "length (put32 8 v din) = 64" "\<And>k. k \<le> 12 \<Longrightarrow> din_addr k (put32 8 v din) = din_addr k din"
    "get32 8 (put32 8 v din) = v" "get16 0 (put32 8 v din) = get16 0 din" "get16 6 (put32 8 v din) = get16 6 din"
  using assms by (simp_all add: din_addr_def get_put32_other get16_put_other)

lemma get16_prefix: "take 12 a = take 12 b \<Longrightarrow> length a = 64 \<Longrightarrow> length b = 64 \<Longrightarrow> get16 0 a = get16 0 b \<and> get16 6 a = get16 6 b"
proof -
  assume t: "take 12 a = take 12 b"
  have "a ! i = b ! i" if "i < 12" for i using arg_cong [OF t, of "\<lambda>x. x ! i"] that by simp
  then show ?thesis by (simp add: get16_def get_le_def numeral_2_eq_2)
qed

lemma holds_file_frame:
  assumes "holds_file img fb din bs" "\<And>b. b \<in> set (owned img din (nblk (length bs))) \<Longrightarrow> img' ! b = img ! b" "fb \<le> fb'"
  shows "holds_file img' fb' din bs" "owned img' din (nblk (length bs)) = owned img din (nblk (length bs))"
  using assms file_frame [of img fb din "nblk (length bs)" img' fb'] by (simp_all add: holds_file_def)

lemma owned_range: "holds_file img fb din bs \<Longrightarrow> set (owned img din (nblk (length bs))) \<subseteq> {46..<fb} \<and> length din = 64"
  by (simp add: holds_file_def wf_file_def)

lemma iappend_appends:
  assumes inv: "fs_image (image s) fb N F K" and f: "freeblock s = of_nat fb" and i: "1 \<le> i" "i < N"
    and p: "length (F i) + length p \<le> 268 * 1024" "fb + cost (nblk (length (F i) + length p)) \<le> 2000 + cost (nblk (length (F i)))"
  shows "\<exists>img' fb'. iappend (of_nat i) p s = Inr ((), s\<lparr>image := img', freeblock := of_nat fb'\<rparr>) \<and>
    fs_image img' fb' N (F(i := F i @ p)) K \<and> keeps_meta (image s) img'"
proof -
  let ?img = "image s" and ?d = "din_at (image s) i" and ?off = "length (F i) + length p"
  note I = inv [unfolded fs_image_def]
  have ok: "sectors_ok ?img" "fresh ?img fb" "fb \<le> 2000" "46 \<le> fb" "N \<le> 200" using I by auto
  have h: "holds_file ?img fb ?d (F i)" "get32 8 ?d = of_nat (length (F i))" "get16 0 ?d = K i" "get16 6 ?d = 1"
    using I i by (auto simp: inode_holds_def)
  have ui: "unat (of_nat i :: u32) = i" by (rule unat_block) (use i ok(5) in simp)
  have us: "unat (of_nat (length (F i)) :: u32) = length (F i)" using p(1) by (simp add: unat_of_nat)
  obtain img1 fb1 d1 where l: "iappend_loop p (length (F i)) ?d s = Inr ((?off, d1), s\<lparr>image := img1, freeblock := of_nat fb1\<rparr>)"
      "appended ?img fb ?d (F i) img1 fb1 d1 (F i @ p)"
    using iappend_loop_appends [OF h(1) ok(1,2,4,3) f p] by blast
  from l(2) have A: "sectors_ok img1" "holds_file img1 fb1 d1 (F i @ p)" "fb1 + cost (nblk (length (F i))) = fb + cost (nblk (length (F i @ p)))"
      "fresh img1 fb1" "\<And>b. b \<notin> set (owned img1 d1 (nblk (length (F i @ p)))) \<Longrightarrow> img1 ! b = ?img ! b"
      "set (owned img1 d1 (nblk (length (F i @ p)))) \<subseteq> set (owned ?img ?d (nblk (length (F i)))) \<union> {fb..<fb1}" "take 12 d1 = take 12 ?d" "fb \<le> fb1"
    unfolding appended_def by blast+
  let ?d2 = "put32 8 (of_nat ?off) d1" and ?img2 = "with_din i (put32 8 (of_nat ?off) d1) img1"
  have r1: "set (owned img1 d1 (nblk (length (F i @ p)))) \<subseteq> {46..<fb1}" "length d1 = 64" using owned_range [OF A(2)] by auto
  note P = put_size_frame [OF r1(2), where v = "of_nat ?off"]
  have i200: "i < 200" using i ok(5) by simp
  note W = with_din_frame [OF A(1) i200 P(1)]
  have low: "img1 ! b = ?img ! b" if "b < 46" for b using that r1(1) by (intro A(5)) auto
  have meta: "keeps_meta ?img ?img2" using W(4) low by (auto simp: keeps_meta_def)
  have high: "?img2 ! b = img1 ! b" if "46 \<le> b" for b using that by (intro W(4)) simp
  have din: "din_at ?img2 j = din_at ?img j" if "j < 200" "j \<noteq> i" for j
    unfolding W(3) [OF that] using inode_slot(1) [OF that(1)] low by (simp add: din_at_def)
  have hi: "holds_file ?img2 fb1 ?d2 (F i @ p)" "owned ?img2 ?d2 (nblk (length (F i @ p))) = owned img1 d1 (nblk (length (F i @ p)))"
  proof -
    have "holds_file img1 fb1 ?d2 (F i @ p)" "owned img1 ?d2 n = owned img1 d1 n" for n
      using same_addrs [of ?d2 d1] P(1,2) r1(2) A(2) by auto
    moreover have "?img2 ! b = img1 ! b" if "b \<in> set (owned img1 d1 (nblk (length (F i @ p))))" for b using that r1(1) high by auto
    ultimately show "holds_file ?img2 fb1 ?d2 (F i @ p)" "owned ?img2 ?d2 (nblk (length (F i @ p))) = owned img1 d1 (nblk (length (F i @ p)))"
      using holds_file_frame [of img1 fb1 ?d2 "F i @ p" ?img2 fb1] by auto
  qed
  have j: "inode_holds ?img2 fb1 (din_at ?img j) (F j) (K j)" "blocks_at ?img2 F j = blocks_at ?img F j"
      "blocks_at ?img F j \<inter> set (owned img1 d1 (nblk (length (F i @ p)))) = {}" if j: "1 \<le> j" "j < N" "j \<noteq> i" for j
  proof -
    have hj: "holds_file ?img fb (din_at ?img j) (F j)" using I j by (auto simp: inode_holds_def)
    have dj: "blocks_at ?img F j \<inter> blocks_at ?img F i = {}" using I j i by auto
    have rj: "blocks_at ?img F j \<subseteq> {46..<fb}" using owned_range [OF hj] by blast
    show d: "blocks_at ?img F j \<inter> set (owned img1 d1 (nblk (length (F i @ p)))) = {}" using A(6) dj rj by fastforce
    have same: "?img2 ! b = ?img ! b" if "b \<in> blocks_at ?img F j" for b
    proof -
      have "b \<notin> set (owned img1 d1 (nblk (length (F i @ p))))" "46 \<le> b" using d rj that by auto
      then show ?thesis using high [of b] A(5) [of b] by simp
    qed
    note X = holds_file_frame [OF hj same A(8)]
    show "inode_holds ?img2 fb1 (din_at ?img j) (F j) (K j)" using X(1) I j by (auto simp: inode_holds_def)
    show "blocks_at ?img2 F j = blocks_at ?img F j" using X(2) din [of j] j ok(5) by simp
  qed
  have fbs: "fb1 = 46 + (\<Sum>j = 1..<N. cost (nblk (length ((F(i := F i @ p)) j))))"
  proof -
    have m: "i \<in> {1..<N}" using i by simp
    have "(\<Sum>j \<in> {1..<N} - {i}. cost (nblk (length ((F(i := F i @ p)) j)))) = (\<Sum>j \<in> {1..<N} - {i}. cost (nblk (length (F j))))" by (rule sum.cong) auto
    then show ?thesis using I A(3) sum.remove [OF _ m, of "\<lambda>j. cost (nblk (length (F j)))"]
        sum.remove [OF _ m, of "\<lambda>j. cost (nblk (length ((F(i := F i @ p)) j)))"] by simp
  qed
  have fb1: "fb1 \<le> 2000" using A(3) p(2) by simp
  have fr: "fresh ?img2 fb1" using A(4) high ok(4) A(8) by (auto simp: fresh_def)
  have G: "get16 0 ?d2 = K i" "get16 6 ?d2 = 1" using P(4,5) h(3,4) get16_prefix [OF A(7) r1(2)] owned_range [OF h(1)] by auto
  have "fs_image ?img2 fb1 N (F(i := F i @ p)) K" unfolding fs_image_def
  proof (intro conjI allI impI)
    show "inode_holds ?img2 fb1 (din_at ?img2 k) ((F(i := F i @ p)) k) (K k)" if "1 \<le> k \<and> k < N" for k
      using that j(1) [of k] din [of k] ok(5) W(2) hi(1) G P(3) by (cases "k = i") (simp_all add: inode_holds_def)
    show "blocks_at ?img2 (F(i := F i @ p)) k \<inter> blocks_at ?img2 (F(i := F i @ p)) m = {}"
      if k: "1 \<le> k \<and> k < N \<and> 1 \<le> m \<and> m < N \<and> k \<noteq> m" for k m
    proof -
      have b: "blocks_at ?img2 (F(i := F i @ p)) x = (if x = i then set (owned img1 d1 (nblk (length (F i @ p)))) else blocks_at ?img F x)"
        if "1 \<le> x" "x < N" for x using that j(2) [of x] W(2) hi(2) by simp
      show ?thesis using k b [of k] b [of m] j(3) [of k] j(3) [of m] I by (auto split: if_splits)
    qed
  qed (use W(1) fr fb1 ok(5) fbs in simp_all)
  moreover have "iappend (of_nat i) p s = Inr ((), s\<lparr>image := ?img2, freeblock := of_nat fb1\<rparr>)"
    using rinode_small [OF ok(1), of "of_nat i"] winode_small [of "s\<lparr>image := img1, freeblock := of_nat fb1\<rparr>" "of_nat i"] A(1) i200 l(1) h(2) us
    by (simp add: iappend_def ui)
  ultimately show ?thesis using meta by blast
qed

lemma fs_image_fb:
  assumes "fs_image img fb N F K" "fs_image img' fb' N (F(i := x)) K'" "1 \<le> i" "i < N"
  shows "fb' + cost (nblk (length (F i))) = fb + cost (nblk (length x))"
proof -
  have m: "i \<in> {1..<N}" using assms(3,4) by simp
  have "(\<Sum>j \<in> {1..<N} - {i}. cost (nblk (length ((F(i := x)) j)))) = (\<Sum>j \<in> {1..<N} - {i}. cost (nblk (length (F j))))" by (rule sum.cong) auto
  then show ?thesis using assms(1,2) sum.remove [OF _ m, of "\<lambda>j. cost (nblk (length (F j)))"]
      sum.remove [OF _ m, of "\<lambda>j. cost (nblk (length ((F(i := x)) j)))"] by (simp add: fs_image_def)
qed

section \<open>New inodes\<close>

definition new_din :: "u16 \<Rightarrow> u8 list" where
  "new_din t = put32 8 0 (put16 6 1 (put16 0 t (replicate 64 0)))"

lemma get_zeros: "off + 4 \<le> n \<Longrightarrow> get32 off (replicate n 0) = 0"
  by (simp add: get32_def get_le_def)

lemma new_din_fields:
  "length (new_din t) = 64" "get16 0 (new_din t) = t" "get16 6 (new_din t) = 1" "get32 8 (new_din t) = 0"
  "k \<le> 12 \<Longrightarrow> din_addr k (new_din t) = 0"
  by (simp_all add: new_din_def din_addr_def get_put32_other get16_put_other get_zeros)

lemma cost_nblk_0: "cost (nblk 0) = 0"
  by (simp add: cost_def nblk_def)

lemma new_din_holds: "holds_file img fb (new_din t) []"
  by (simp add: holds_file_def wf_file_def nblk_def owned_def blocks_of_def new_din_fields)

lemma mk_ialloc_adds:
  assumes inv: "fs_image (image s) fb N F K" and N: "1 \<le> N" "N < 200" and f: "freeinode s = of_nat N"
  shows "\<exists>img'. mk_ialloc t s = Inr (of_nat N, s\<lparr>image := img', freeinode := of_nat (N + 1)\<rparr>) \<and>
    fs_image img' fb (N + 1) (F(N := [])) (K(N := t)) \<and> keeps_meta (image s) img'"
proof -
  let ?img = "image s" and ?img' = "with_din N (new_din t) (image s)"
  note I = inv [unfolded fs_image_def]
  have ok: "sectors_ok ?img" "fresh ?img fb" "46 \<le> fb" using I by auto
  note W = with_din_frame [OF ok(1) N(2) new_din_fields(1)]
  have high: "?img' ! b = ?img ! b" if "46 \<le> b" for b using that by (intro W(4)) simp
  have j: "inode_holds ?img' fb (din_at ?img' j) (F j) (K j)" "blocks_at ?img' F j = blocks_at ?img F j" if j: "1 \<le> j" "j < N" for j
  proof -
    have h: "inode_holds ?img fb (din_at ?img j) (F j) (K j)" using I j by auto
    then have hj: "holds_file ?img fb (din_at ?img j) (F j)" by (simp add: inode_holds_def)
    have same: "?img' ! b = ?img ! b" if "b \<in> blocks_at ?img F j" for b using owned_range [OF hj] that high by auto
    have d: "din_at ?img' j = din_at ?img j" using W(3) [of j] j N by simp
    show "inode_holds ?img' fb (din_at ?img' j) (F j) (K j)" "blocks_at ?img' F j = blocks_at ?img F j"
      unfolding d using holds_file_frame [OF hj same order_refl] h by (simp_all add: inode_holds_def)
  qed
  have new: "inode_holds ?img' fb (din_at ?img' N) [] t" unfolding W(2) by (simp add: inode_holds_def new_din_holds new_din_fields)
  have none: "blocks_at ?img' (F(N := [])) N = {}" by (simp add: nblk_def owned_def)
  have "(\<Sum>i = 1..<N + 1. cost (nblk (length ((F(N := [])) i)))) = (\<Sum>i = 1..<N. cost (nblk (length (F i))))"
  proof -
    have "(\<Sum>i = 1..<N + 1. cost (nblk (length ((F(N := [])) i)))) = (\<Sum>i = 1..<N. cost (nblk (length ((F(N := [])) i)))) + cost (nblk 0)"
      using N(1) by simp
    also have "(\<Sum>i = 1..<N. cost (nblk (length ((F(N := [])) i)))) = (\<Sum>i = 1..<N. cost (nblk (length (F i))))" by (rule sum.cong) auto
    finally show ?thesis by (simp add: cost_nblk_0)
  qed
  moreover have "fresh ?img' fb" using ok high by (auto simp: fresh_def)
  moreover have "blocks_at ?img' (F(N := [])) i \<inter> blocks_at ?img' (F(N := [])) k = {}"
    if k: "1 \<le> i \<and> i < N + 1 \<and> 1 \<le> k \<and> k < N + 1 \<and> i \<noteq> k" for i k
  proof (cases "i = N \<or> k = N")
    case False
    then show ?thesis using k j(2) [of i] j(2) [of k] I by simp
  qed (use none in auto)
  ultimately have "fs_image ?img' fb (N + 1) (F(N := [])) (K(N := t))"
    unfolding fs_image_def using I W(1) N(2) new j(1) by auto
  moreover have "keeps_meta ?img ?img'" using W(4) by (auto simp: keeps_meta_def)
  moreover have "unat (of_nat N :: u32) = N" by (rule unat_block) (use N(2) in simp)
  then have "mk_ialloc t s = Inr (of_nat N, s\<lparr>image := ?img', freeinode := of_nat (N + 1)\<rparr>)"
    using winode_small [of "s\<lparr>freeinode := of_nat (N + 1)\<rparr>" "of_nat N" "new_din t"] ok(1) N(2) f
    by (simp add: mk_ialloc_def Let_def new_din_def add.commute)
  ultimately show ?thesis by blast
qed

section \<open>Adding the files\<close>

lemma append_file_appends:
  assumes "fs_image (image s) fb N F K" "freeblock s = of_nat fb" "1 \<le> i" "i < N"
    "length (F i) + length bs \<le> 268 * 1024" "fb + cost (nblk (length (F i) + length bs)) \<le> 2000 + cost (nblk (length (F i)))"
  shows "\<exists>img' fb'. append_file (of_nat i) bs s = Inr ((), s\<lparr>image := img', freeblock := of_nat fb'\<rparr>) \<and>
    fs_image img' fb' N (F(i := F i @ bs)) K \<and> keeps_meta (image s) img'"
  using assms
proof (induction "length bs" arbitrary: bs F s fb rule: less_induct)
  case less
  note h = less.prems
  show ?case
  proof (cases "bs = []")
    case True
    have "s\<lparr>image := image s, freeblock := of_nat fb\<rparr> = s" using h(2) by simp
    then show ?thesis using h(1) True by (intro exI [of _ "image s"] exI [of _ fb]) (simp add: append_file.simps keeps_meta_def)
  next
    case False
    let ?c = "take 1024 bs" and ?r = "drop 1024 bs"
    let ?G = "F(i := F i @ ?c)"
    have m: "nblk (length (F i) + length ?c) \<le> nblk (length (F i) + length bs)" by (rule nblk_mono) simp
    have cap: "fb + cost (nblk (length (F i) + length ?c)) \<le> 2000 + cost (nblk (length (F i)))" using h(6) cost_mono [OF m] by linarith
    have l: "length (F i) + length ?c \<le> 268 * 1024" using h(5) by simp
    obtain img1 fb1 where s1: "iappend (of_nat i) ?c s = Inr ((), s\<lparr>image := img1, freeblock := of_nat fb1\<rparr>)"
        "fs_image img1 fb1 N ?G K" "keeps_meta (image s) img1"
      using iappend_appends [OF h(1-4) l cap] by blast
    let ?s1 = "s\<lparr>image := img1, freeblock := of_nat fb1\<rparr>"
    have t: "length (?G i) + length ?r = length (F i) + length bs" by simp
    have fb1: "fb1 + cost (nblk (length (F i))) = fb + cost (nblk (length (?G i)))" using fs_image_fb [OF h(1) s1(2) h(3,4)] by simp
    have cap1: "fb1 + cost (nblk (length (?G i) + length ?r)) \<le> 2000 + cost (nblk (length (?G i)))"
      unfolding t using fb1 h(6) unfolding fun_upd_same by linarith
    have lt: "length ?r < length bs" using False by simp
    have inv1: "fs_image (image ?s1) fb1 N ?G K" "freeblock ?s1 = of_nat fb1" using s1(2) by simp_all
    have "\<exists>img' fb'. append_file (of_nat i) ?r ?s1 = Inr ((), ?s1\<lparr>image := img', freeblock := of_nat fb'\<rparr>) \<and>
        fs_image img' fb' N (?G(i := ?G i @ ?r)) K \<and> keeps_meta (image ?s1) img'"
      by (rule less.hyps [OF lt inv1 h(3,4) _ cap1]) (unfold t, rule h(5))
    moreover have "append_file (of_nat i) bs s = append_file (of_nat i) ?r ?s1"
      using False s1(1) by (subst append_file.simps) (simp add: mkfs_layout)
    ultimately show ?thesis using keeps_meta_trans [OF s1(3)] by fastforce
  qed
qed

end
