(* ===== verification/Spec2Isabelle.thy ===== *)
theory Spec2Isabelle
  imports LockProtocol TimeSlice BlockAlloc Paths Umalloc Grep ShellPrint UtilFacts MkfsImage
begin

text \<open>
  \<^bold>\<open>xv6 with five scheduling policies\<close>

  The repository is the teaching kernel xv6 for RISC-V (kernel/), its user programs (user/) and the
  tool that builds its file system (mkfs/), extended with the scheduling policies round robin, first
  come first served, priority, highest response ratio next and multi-level feedback queue (MLFQ).
  User programs run in processes; they enter the kernel by system calls and interrupts, which go through the trap
  handler to the process, file and memory layers; processes give up the CPU to the scheduler, which dispatches
  the next one by the current policy.  Files lie on a disk behind a buffer cache and a redo log.

  \<^bold>\<open>How the kernel is modelled.\<close>  The state of the kernel is a chain of extensible records that
  follows the layers of the source: \<open>hart_state\<close> (registers, \<open>cpus\<close>, locks), then physical memory and the free
  list, the kernel page table, the process table with the MLFQ queues and \<open>ticks\<close>, sleep locks, pipes, UART and console,
  disk and buffers, log, inodes, files, and the supervisor registers.  A function works on the record of its layer and on every
  extension of it.  Pointers to the entries of a static table are indices; memory that the code addresses as bytes (pages,
  page tables, trap frames, the free list) is a map from addresses to bytes.  C integers are words of their width, except
  counters of locks (\<open>noff\<close>) and sizes of the MLFQ queues, which are bounded far below the limits of \<open>int\<close> and are
  mathematical integers.

  A function returns an \<open>outcome\<close>: \<open>Ret\<close>, a value and a new state; \<open>Panic\<close>; \<open>Spin\<close>, spinning on a lock that another hart
  holds; \<open>Swtch\<close>, leaving the CPU through \<open>swtch\<close>, with what the thread continues with; \<open>NoFuel\<close>, a loop that goes on
  beyond what the model supplies (a device register polled past the supply of readings, recursion over a path); \<open>Undef\<close>,
  behaviour C leaves undefined.  A property that a function returns states \<open>Ret\<close> and so excludes the others.

  Functions run from one \<open>swtch\<close> to the next.  A process that sleeps ends in \<open>Swtch\<close>; \<open>resume_thread\<close> and the loop it
  was in are what it continues with.  There is one exception: a process that waits for the disk follows the run in
  which the device answers, interrupts, and the process is dispatched next (\<open>disk_sleep\<close>, \<open>disk_turn\<close> in \<open>Virtio\<close>), so that
  \<open>bread\<close>, \<open>bwrite\<close> and everything built on them are functions.  Properties of the file system are about this
  sequential run; interleaving is studied where it matters most, for the spin locks (\<open>LockProtocol\<close>).

  The devices are parameters: the UART, the interrupt controller and the clock supply readings; the disk is a
  function on the memory it shares with the driver.  The hypothesis on the disk is that it performs the request it
  was notified of and reports it in the used ring, as the virtio specification says.

  \<^bold>\<open>Theories of the kernel.\<close>
  \<^item> \<open>Prelude\<close>: C integers, lock and channel addresses, outcomes.
  \<^item> \<open>Spinlock\<close> (spinlock.c, parts of riscv.h and proc.c): locks and interrupt nesting, and the
    normal form \<open>with_held L s\<close> of a state in which the hart holds exactly the locks \<open>L\<close>.
    \<open>LockProtocol\<close>: \<open>acquire\<close> and \<open>release\<close> cut into atomic parts, shown to be the functions of \<open>Spinlock\<close>, and a step
    relation in which any number of harts interleave them; mutual exclusion by rule induction.
  \<^item> \<open>Memory\<close> (string.c).
  \<^item> \<open>Kalloc\<close> (kalloc.c): the free list is kept in the free pages, as in the code.  The locale
    \<open>page_allocator\<close> is its contract.
  \<^item> \<open>Vm\<close>, \<open>VmLookup\<close> (vm.c): page tables in memory; lookup as a function of memory, and what \<open>copyin\<close> and
    \<open>copyout\<close> read and write, in every case.
  \<^item> \<open>Proc\<close>, \<open>Mlfq\<close>, \<open>Sched\<close>, \<open>ProcLife\<close> (proc.c): process table, queues (locale \<open>requeue\<close>), scheduler, \<open>fork\<close>,
    \<open>exit\<close>, \<open>wait\<close>.  \<open>SchedPolicy\<close>: what each policy chooses (locale \<open>table_scan\<close>, interpreted for three of them).
    \<open>ProcSync\<close>: \<open>sleep\<close>, \<open>wakeup\<close>, \<open>yield\<close>, \<open>kill\<close> (locale \<open>find_scan\<close>).
  \<^item> \<open>Sleeplock\<close> (sleeplock.c), \<open>Ring\<close> and \<open>Pipe\<close> (pipe.c; locale \<open>ring_buffer\<close>): pipes as queues of bytes.  A
    \<open>struct pipe\<close> is kept by its address, beside the bytes of its page.
  \<^item> \<open>Uart\<close>, \<open>Printf\<close>, \<open>Console\<close> (uart.c, printf.c, console.c).  \<open>Output\<close>: the text that a format and its
    arguments mean, defined independently of the code, and that \<open>printf\<close> sends exactly this text.
  \<^item> \<open>Virtio\<close>, \<open>DiskRw\<close> (virtio_disk.c): a request from the descriptors to the interrupt.
  \<^item> \<open>Bio\<close>, \<open>BufCache\<close>, \<open>BlockStore\<close> (bio.c): the linked list as a list in order of use, and cache and disk as one store
    of blocks (\<open>content\<close>).  \<open>Codec\<close>: numbers in blocks.
  \<^item> \<open>Log\<close>, \<open>LogStore\<close>, \<open>LogCommit\<close>, \<open>LogOps\<close> (log.c): \<open>commit\<close> and recovery on the store; what recovery finds after a
    crash at every block write; reservation and absorption.
  \<^item> \<open>Fs\<close>, \<open>Dir\<close>, \<open>File\<close> (fs.c, file.c): blocks, inodes, directories, files.  \<open>Txn\<close>, \<open>BlockAlloc\<close>: changing blocks
    inside a transaction, and the block allocator.  \<open>Paths\<close>: the elements of a path name.
  \<^item> \<open>Exec\<close>, \<open>SysFile\<close>, \<open>Syscall\<close>, \<open>Trap\<close> (exec.c, sysfile.c, sysproc.c, syscall.c, trap.c, plic.c, main.c, start.c).
    \<open>TimeSlice\<close>: the timer tick under MLFQ.

  \<^bold>\<open>Theories of the user programs.\<close>  A program is a function of the kernel's replies to its next calls and records the
  calls it makes (\<open>Usys\<close>).  It returns, exits, waits in the call for which there is no reply any more (\<open>UWait\<close>), does what
  C leaves undefined (\<open>UFault\<close>), or does not end (\<open>UFuel\<close>).
  \<^item> \<open>Ulib\<close>, \<open>Uprintf\<close> (ulib.c, printf.c).
  \<^item> \<open>Umalloc\<close> (umalloc.c): \<open>malloc\<close> and \<open>free\<close> on the circular list of headers; the list as a sorted list of
    disjoint, coalesced blocks.  The loops are \<open>partial_function\<close>s, shown to return on every well-formed heap.  Of the heap the
    headers are modelled, not the bytes behind them.
  \<^item> \<open>Shell\<close> (sh.c): the parser, with the \<open>malloc\<close> of each node, \<open>runcmd\<close> and the loop over lines.  The recursion of the parser
    has fuel \<open>4 * strlen + 4\<close>: each level of parentheses takes four calls and one character, so it does not run out, which is
    part of C33.  \<open>ShellTree\<close> is the parser without memory; \<open>ShellHeap\<close> shows that 65536 bytes, the first \<open>sbrk\<close>, serve
    every line; \<open>ShellParse\<close> relates the two parsers and shows that commands are well formed; \<open>ShellPrint\<close> that the text
    of every command is read back.
  \<^item> \<open>Grep\<close> (grep.c): the matcher against the words a pattern denotes; the line loop.
  \<^item> \<open>Utils\<close>, \<open>UtilFacts\<close>: \<open>cat\<close>, \<open>echo\<close>, \<open>wc\<close>, \<open>kill\<close>, \<open>ln\<close>, \<open>mkdir\<close>, \<open>rm\<close>, \<open>ls\<close>, \<open>init\<close>, \<open>setpolicy\<close>, \<open>top\<close>, \<open>zombie\<close>,
    \<open>forktest\<close>, \<open>stressfs\<close>.

  \<^bold>\<open>mkfs.\<close>  \<open>Mkfs\<close> (mkfs.c) works on the image as a list of sectors; \<open>MkfsImage\<close> has the invariant of the image that \<open>ialloc\<close>
  and \<open>iappend\<close> keep.

  \<^bold>\<open>Not modelled.\<close>
  \<^item> Assembly code (entry.S, kernelvec.S, swtch.S, trampoline.S, initcode.S): machine instructions below the level of C.  The
    functions end where they jump into it; \<open>swtch\<close> is the outcome \<open>Swtch\<close>.
  \<^item> usys.pl and the stubs it generates; linker scripts, Makefile, prototypes (defs.h).
  \<^item> usertests.c, grind.c, test.c, test_fcfs.c, test_hrrn.c, test_mlfq.c, test_ps.c: programs that exercise the kernel and have no
    contract of their own.
  \<^item> Weak memory ordering: harts share a sequentially consistent memory and a fence does nothing.
  \<^item> Interleaving of several processes inside the file system, see above.  An interrupt in the middle of a kernel function
    is modelled as a call of its handler between functions.
  \<^item> The read of the interrupt status register in the UART driver, whose value the code drops, has no effect on the state.
\<close>

end
